(* ===== verification/Gloo_Prelude.thy ===== *)
theory Gloo_Prelude
  imports Main "HOL-Library.Word"
begin

text \<open>
  Shared vocabulary of the development.

  \<^item> \<open>gloo_error\<close> and \<open>result\<close>: every exception, failed \<open>GLOO_ENFORCE\<close> and read or write
    outside an object of the C++ sources is a value of the left summand.
  \<^item> \<open>u64_add\<close>, \<open>u64_sub\<close>, \<open>u64_mul\<close>: \<open>size_t\<close>/\<open>uint64_t\<close> arithmetic on \<open>nat\<close> with the wrap-around
    written out.
  \<^item> \<open>read_at\<close>, \<open>write_at\<close>: the memory regions that \<open>memcpy\<close>, \<open>std::copy\<close> and the
    transports read and write, on a buffer modelled as the list of its cells.
  \<^item> the collections \<open>region_simps\<close> and \<open>wrap_simps\<close> used by the component theories.
\<close>

named_theorems region_simps \<open>reading and writing regions of a buffer\<close>
named_theorems wrap_simps \<open>64-bit arithmetic inside its range\<close>

section \<open>Errors\<close>

datatype gloo_error =
    EnforceNotMet
  | IoException
  | InvalidOperationException
  | RuntimeError
  | OutOfRange
  | UndefinedBehavior

type_synonym 'a result = "gloo_error + 'a"

definition rbind :: "'a result \<Rightarrow> ('a \<Rightarrow> 'b result) \<Rightarrow> 'b result" where
  "rbind m k = (case m of Inl e \<Rightarrow> Inl e | Inr x \<Rightarrow> k x)"

definition enforce :: "bool \<Rightarrow> 'a result \<Rightarrow> 'a result" where
  "enforce b k = (if b then k else Inl EnforceNotMet)"

lemma rbind_simps [simp]: "rbind (Inl e) k = Inl e" "rbind (Inr x) k = k x"
  by (simp_all add: rbind_def)

lemma not_isl_conv: "\<not> isl r \<longleftrightarrow> (\<exists>x. r = Inr x)"
  by (cases r) auto

lemma rbind_Inr_conv: "rbind m k = Inr y \<longleftrightarrow> (\<exists>x. m = Inr x \<and> k x = Inr y)"
  by (cases m) simp_all

lemma rbind_assoc: "rbind (rbind m f) g = rbind m (\<lambda>x. rbind (f x) g)"
  by (cases m) simp_all

lemma enforce_simps [simp]: "enforce True k = k" "enforce False k = Inl EnforceNotMet"
  by (simp_all add: enforce_def)

lemma enforce_Inr_conv: "enforce b k = Inr y \<longleftrightarrow> b \<and> k = Inr y"
  by (simp add: enforce_def)

section \<open>64-bit unsigned arithmetic\<close>

abbreviation u64_range :: nat where
  "u64_range \<equiv> 18446744073709551616"

definition u64_add :: "nat \<Rightarrow> nat \<Rightarrow> nat" where
  "u64_add a b = (a + b) mod u64_range"

definition u64_sub :: "nat \<Rightarrow> nat \<Rightarrow> nat" where
  "u64_sub a b = (a + (u64_range - b mod u64_range)) mod u64_range"

definition u64_mul :: "nat \<Rightarrow> nat \<Rightarrow> nat" where
  "u64_mul a b = (a * b) mod u64_range"

lemma u64_range_power: "u64_range = 2 ^ 64"
  by simp

lemma u64_add_less [simp]: "u64_add a b < u64_range"
  by (simp add: u64_add_def)

lemma u64_sub_less [simp]: "u64_sub a b < u64_range"
  by (simp add: u64_sub_def)

lemma u64_add_exact [wrap_simps]: "a + b < u64_range \<Longrightarrow> u64_add a b = a + b"
  by (simp add: u64_add_def)

lemma u64_mul_exact [wrap_simps]: "a * b < u64_range \<Longrightarrow> u64_mul a b = a * b"
  by (simp add: u64_mul_def)

lemma u64_sub_exact [wrap_simps]:
  assumes "b \<le> a" and "a < u64_range"
  shows "u64_sub a b = a - b"
proof -
  have "a + (u64_range - b mod u64_range) = (a - b) + u64_range"
    using assms by simp
  then have "u64_sub a b = ((a - b) + u64_range) mod u64_range"
    by (simp only: u64_sub_def)
  also have "\<dots> = (a - b) mod u64_range"
    by (rule mod_add_self2)
  also have "\<dots> = a - b"
    using assms by simp
  finally show ?thesis .
qed

lemma u64_sub_wraps:
  assumes "a < b" and "b < u64_range"
  shows "u64_sub a b = u64_range - (b - a)"
  using assms by (simp add: u64_sub_def)

lemma u64_sub_zero [simp]: "a < u64_range \<Longrightarrow> u64_sub a 0 = a"
  by (simp add: u64_sub_exact)

lemma u64_sub_self [simp]: "a < u64_range \<Longrightarrow> u64_sub a a = 0"
  by (simp add: u64_sub_exact)

section \<open>Regions of a buffer\<close>

definition read_at :: "nat \<Rightarrow> nat \<Rightarrow> 'a list \<Rightarrow> 'a list" where
  "read_at off n mem = take n (drop off mem)"

definition write_at :: "nat \<Rightarrow> 'a list \<Rightarrow> 'a list \<Rightarrow> 'a list" where
  "write_at off xs mem = take off mem @ xs @ drop (off + length xs) mem"

lemma length_read_at [region_simps]: "off + n \<le> length mem \<Longrightarrow> length (read_at off n mem) = n"
  by (simp add: read_at_def)

lemma length_write_at [region_simps]:
  "off + length xs \<le> length mem \<Longrightarrow> length (write_at off xs mem) = length mem"
  by (simp add: write_at_def)

lemma nth_read_at [region_simps]:
  "i < n \<Longrightarrow> off + n \<le> length mem \<Longrightarrow> read_at off n mem ! i = mem ! (off + i)"
  by (simp add: read_at_def)

lemma nth_write_at [region_simps]:
  assumes "off + length xs \<le> length mem" and "i < length mem"
  shows "write_at off xs mem ! i =
    (if off \<le> i \<and> i < off + length xs then xs ! (i - off) else mem ! i)"
  using assms by (auto simp: write_at_def nth_append)

lemma read_write_same [region_simps]:
  "off + length xs \<le> length mem \<Longrightarrow> read_at off (length xs) (write_at off xs mem) = xs"
  by (simp add: read_at_def write_at_def)

lemma write_at_Nil [region_simps]: "write_at off [] mem = mem"
  by (simp add: write_at_def)

lemma read_at_0 [region_simps]: "read_at off 0 mem = []"
  by (simp add: read_at_def)

lemma read_at_all [simp]: "read_at 0 (length mem) mem = mem"
  by (simp add: read_at_def)

lemma read_write_disjoint [region_simps]:
  assumes "off + length xs \<le> length mem" and "o' + n \<le> length mem"
    and "o' + n \<le> off \<or> off + length xs \<le> o'"
  shows "read_at o' n (write_at off xs mem) = read_at o' n mem"
  using assms by (intro nth_equalityI) (auto simp: region_simps)

lemma write_at_read_at [region_simps]:
  "off + n \<le> length mem \<Longrightarrow> write_at off (read_at off n mem) mem = mem"
  by (intro nth_equalityI) (auto simp: region_simps)

lemma read_at_Cons: "off < length mem \<Longrightarrow> read_at off (Suc n) mem = mem ! off # read_at (Suc off) n mem"
  by (simp add: read_at_def Cons_nth_drop_Suc [symmetric])

lemma read_at_add: "read_at off (m + n) mem = read_at off m mem @ read_at (off + m) n mem"
  by (simp add: read_at_def take_add add.commute)

lemma write_at_Cons:
  "off + length xs < length mem \<Longrightarrow> write_at off (x # xs) mem = write_at (Suc off) xs (mem[off := x])"
  by (simp add: write_at_def take_Suc_conv_app_nth drop_update_cancel)

lemma write_at_append:
  "off' = off + length xs \<Longrightarrow> off' + length ys \<le> length mem \<Longrightarrow>
   write_at off' ys (write_at off xs mem) = write_at off (xs @ ys) mem"
  by (simp add: write_at_def ac_simps)

lemma read_at_update: "i < off \<Longrightarrow> read_at off n (mem[i := x]) = read_at off n mem"
  by (simp add: read_at_def)

section \<open>Bounds of machine words\<close>

lemma unat_less_8: "unat (w :: 8 word) < 256"
  using unsigned_less [of w, where ?'a = nat] by simp

lemma unat_less_32: "unat (w :: 32 word) < 4294967296"
  using unsigned_less [of w, where ?'a = nat] by simp

lemma unat_less_64: "unat (w :: 64 word) < u64_range"
  using unsigned_less [of w, where ?'a = nat] by simp

end
