(* ===== verification/Gloo_Math.thy ===== *)
theory Gloo_Math
  imports Gloo_Prelude
begin

text \<open>
  \<open>gloo/math.h\<close> and \<open>gloo/math.cc\<close>: the element-wise reduction kernels, their vectorised
  \<open>float16\<close> versions, \<open>roundUp\<close> and \<open>log2ceil\<close>.
\<close>

section \<open>Element-wise kernels\<close>

text \<open>
  The kernel templates loop over \<open>i < n\<close> and store \<open>op a[i] b[i]\<close> in \<open>c[i]\<close>. Accessing an
  index outside one of the three arrays is undefined behaviour. The three-argument
  overloads pass \<open>a\<close> as output too, so there the destination aliases the first operand:
  \<open>kernel_inplace\<close> reads its first operand from the array it is writing.
\<close>

function kernel :: "('a \<Rightarrow> 'a \<Rightarrow> 'a) \<Rightarrow> nat \<Rightarrow> nat \<Rightarrow> 'a list \<Rightarrow> 'a list \<Rightarrow> 'a list \<Rightarrow> 'a list result" where
  "kernel f i n c a b =
     (if i < n then
        if i < length c \<and> i < length a \<and> i < length b
        then kernel f (Suc i) n (c[i := f (a ! i) (b ! i)]) a b
        else Inl UndefinedBehavior
      else Inr c)"
  by pat_completeness auto
termination
  by (relation "measure (\<lambda>(f, i, n, c, a, b). n - i)") auto

function kernel_inplace :: "('a \<Rightarrow> 'a \<Rightarrow> 'a) \<Rightarrow> nat \<Rightarrow> nat \<Rightarrow> 'a list \<Rightarrow> 'a list \<Rightarrow> 'a list result" where
  "kernel_inplace f i n a b =
     (if i < n then
        if i < length a \<and> i < length b
        then kernel_inplace f (Suc i) n (a[i := f (a ! i) (b ! i)]) b
        else Inl UndefinedBehavior
      else Inr a)"
  by pat_completeness auto
termination
  by (relation "measure (\<lambda>(f, i, n, a, b). n - i)") auto

declare kernel.simps [simp del] kernel_inplace.simps [simp del]

definition gloo_sum :: "'a::plus list \<Rightarrow> 'a list \<Rightarrow> 'a list \<Rightarrow> nat \<Rightarrow> 'a list result" where
  "gloo_sum c a b n = kernel (+) 0 n c a b"

definition gloo_sum_inplace :: "'a::plus list \<Rightarrow> 'a list \<Rightarrow> nat \<Rightarrow> 'a list result" where
  "gloo_sum_inplace a b n = kernel_inplace (+) 0 n a b"

definition gloo_product :: "'a::times list \<Rightarrow> 'a list \<Rightarrow> 'a list \<Rightarrow> nat \<Rightarrow> 'a list result" where
  "gloo_product c a b n = kernel (*) 0 n c a b"

definition gloo_product_inplace :: "'a::times list \<Rightarrow> 'a list \<Rightarrow> nat \<Rightarrow> 'a list result" where
  "gloo_product_inplace a b n = kernel_inplace (*) 0 n a b"

text \<open>\<open>std::max(x, y)\<close> is \<open>x < y ? y : x\<close> and \<open>std::min(x, y)\<close> is \<open>y < x ? y : x\<close>.\<close>

definition std_max :: "'a::ord \<Rightarrow> 'a \<Rightarrow> 'a" where
  "std_max x y = (if x < y then y else x)"

definition std_min :: "'a::ord \<Rightarrow> 'a \<Rightarrow> 'a" where
  "std_min x y = (if y < x then y else x)"

definition gloo_max :: "'a::ord list \<Rightarrow> 'a list \<Rightarrow> 'a list \<Rightarrow> nat \<Rightarrow> 'a list result" where
  "gloo_max c a b n = kernel std_max 0 n c a b"

definition gloo_max_inplace :: "'a::ord list \<Rightarrow> 'a list \<Rightarrow> nat \<Rightarrow> 'a list result" where
  "gloo_max_inplace a b n = kernel_inplace std_max 0 n a b"

definition gloo_min :: "'a::ord list \<Rightarrow> 'a list \<Rightarrow> 'a list \<Rightarrow> nat \<Rightarrow> 'a list result" where
  "gloo_min c a b n = kernel std_min 0 n c a b"

definition gloo_min_inplace :: "'a::ord list \<Rightarrow> 'a list \<Rightarrow> nat \<Rightarrow> 'a list result" where
  "gloo_min_inplace a b n = kernel_inplace std_min 0 n a b"

section \<open>Vectorised kernels\<close>

text \<open>
  The AVX specialisations for \<open>float16\<close> handle \<open>n / 8 * 8\<close> elements in groups of eight and
  the rest one by one. A group loads eight lanes of each operand, applies the lane
  operation (convert to single, combine, convert back: the intrinsics, a parameter here)
  and stores eight lanes; the leftovers use the scalar operator on \<open>float16\<close>.
\<close>

function avx_groups :: "('a \<Rightarrow> 'a \<Rightarrow> 'a) \<Rightarrow> nat \<Rightarrow> nat \<Rightarrow> 'a list \<Rightarrow> 'a list \<Rightarrow> 'a list \<Rightarrow> ('a list \<times> nat) result" where
  "avx_groups lane i n c a b =
     (if i < n div 8 * 8 then
        if i + 8 \<le> length c \<and> i + 8 \<le> length a \<and> i + 8 \<le> length b
        then avx_groups lane (i + 8) n
               (write_at i (map2 lane (read_at i 8 a) (read_at i 8 b)) c) a b
        else Inl UndefinedBehavior
      else Inr (c, i))"
  by pat_completeness auto
termination
  by (relation "measure (\<lambda>(f, i, n, c, a, b). n div 8 * 8 - i)") auto

declare avx_groups.simps [simp del]

definition avx_kernel :: "('a \<Rightarrow> 'a \<Rightarrow> 'a) \<Rightarrow> ('a \<Rightarrow> 'a \<Rightarrow> 'a) \<Rightarrow> 'a list \<Rightarrow> 'a list \<Rightarrow> 'a list \<Rightarrow> nat \<Rightarrow> 'a list result" where
  "avx_kernel lane scalar c a b n =
     rbind (avx_groups lane 0 n c a b) (\<lambda>(c', i). kernel scalar i n c' a b)"

subsection \<open>The kernels compute the point-wise operation\<close>

lemma kernel_correct:
  assumes "i \<le> n" "n \<le> length c" "n \<le> length a" "n \<le> length b"
  shows "kernel f i n c a b =
    Inr (write_at i (map2 f (read_at i (n - i) a) (read_at i (n - i) b)) c)"
  using assms
proof (induction f i n c a b rule: kernel.induct)
  case (1 f i n c a b)
  show ?case
  proof (cases "i < n")
    case True
    with 1 show ?thesis
      by (subst kernel.simps)
        (simp add: read_at_Cons [of i a "n - Suc i"] read_at_Cons [of i b "n - Suc i"]
          Suc_diff_Suc [symmetric] write_at_Cons region_simps)
  next
    case False
    with 1 show ?thesis by (subst kernel.simps) (simp add: region_simps)
  qed
qed

lemma kernel_inplace_correct:
  assumes "i \<le> n" "n \<le> length a" "n \<le> length b"
  shows "kernel_inplace f i n a b =
    Inr (write_at i (map2 f (read_at i (n - i) a) (read_at i (n - i) b)) a)"
  using assms
proof (induction f i n a b rule: kernel_inplace.induct)
  case (1 f i n a b)
  show ?case
  proof (cases "i < n")
    case True
    with 1 show ?thesis
      by (subst kernel_inplace.simps)
        (simp add: read_at_Cons [of i a "n - Suc i"] read_at_Cons [of i b "n - Suc i"]
          Suc_diff_Suc [symmetric] write_at_Cons read_at_update region_simps)
  next
    case False
    with 1 show ?thesis by (subst kernel_inplace.simps) (simp add: region_simps)
  qed
qed

lemma kernel_out_of_bounds:
  assumes "i \<le> length c" "length c < n"
  shows "kernel f i n c a b = Inl UndefinedBehavior"
  using assms
proof (induction f i n c a b rule: kernel.induct)
  case (1 f i n c a b)
  then show ?case by (subst kernel.simps) (cases "i < length c"; simp)
qed

lemma avx_groups_correct:
  assumes "i \<le> n div 8 * 8" "8 dvd i" "n \<le> length c" "n \<le> length a" "n \<le> length b"
  shows "avx_groups lane i n c a b =
    Inr (write_at i (map2 lane (read_at i (n div 8 * 8 - i) a) (read_at i (n div 8 * 8 - i) b)) c,
         n div 8 * 8)"
  using assms
proof (induction lane i n c a b rule: avx_groups.induct)
  case (1 lane i n c a b)
  show ?case
  proof (cases "i < n div 8 * 8")
    case True
    define k where "k = n div 8 * 8 - (i + 8)"
    from "1.prems"(2) obtain j where j: "i = 8 * j" by blast
    from True have i8: "i + 8 \<le> n div 8 * 8" by (simp add: j)
    also have "\<dots> \<le> n" by simp
    finally have le: "i + 8 \<le> n" .
    have split: "n div 8 * 8 - i = 8 + k" using i8 by (simp add: k_def)
    have kn: "i + 8 + k \<le> n" using i8 by (simp add: k_def)
    have len: "length (map2 lane (read_at i 8 a) (read_at i 8 b)) = 8"
      using le "1.prems" by (simp add: region_simps)
    have "8 dvd i + 8" using "1.prems"(2) by simp
    with 1 True i8 le kn show ?thesis
      by (subst avx_groups.simps)
        (simp add: split read_at_add k_def [symmetric] len region_simps write_at_append
          zip_append)
  next
    case False
    with 1 show ?thesis by (subst avx_groups.simps) (simp add: region_simps)
  qed
qed

section \<open>Properties of the kernels\<close>



section \<open>Rounding\<close>

text \<open>\<open>roundUp(value, multiple)\<close>; the remainder operator traps on a zero divisor.\<close>

definition roundUp :: "nat \<Rightarrow> nat \<Rightarrow> nat" where
  "roundUp value multiple =
     (let remainder = value mod multiple
      in if remainder = 0 then value else value + multiple - remainder)"

lemma roundUp_alt: "0 < m \<Longrightarrow> roundUp v m = (v + m - 1) div m * m"
proof (cases "v mod m = 0")
  case True
  assume "0 < m"
  from True obtain k where v: "v = m * k" by auto
  have "v + m - 1 = (m - 1) + m * k" using \<open>0 < m\<close> by (simp add: v)
  then have "(v + m - 1) div m = k" using \<open>0 < m\<close> by (simp only: div_mult_self2) simp
  with v \<open>0 < m\<close> show ?thesis by (simp add: roundUp_def mult.commute)
next
  case False
  assume m: "0 < m"
  define q r where "q = v div m" and "r = v mod m"
  have v: "v = m * q + r" by (simp add: q_def r_def)
  have r: "0 < r" "r < m" using False m by (simp_all add: r_def)
  have "v + m - 1 = (r - 1) + m * (q + 1)" using r by (simp add: v algebra_simps)
  then have "(v + m - 1) div m = q + 1" using r by (simp only: div_mult_self2) simp
  then show ?thesis
    using False r by (simp add: roundUp_def Let_def r_def [symmetric] v algebra_simps)
qed

lemma roundUp_dvd: "0 < m \<Longrightarrow> m dvd roundUp v m"
  by (simp add: roundUp_alt)

lemma roundUp_ge: "0 < m \<Longrightarrow> v \<le> roundUp v m"
  unfolding roundUp_def Let_def by (drule mod_less_divisor [of m v]) auto

lemma roundUp_less: "0 < m \<Longrightarrow> roundUp v m < v + m"
  using mod_less_eq_dividend [of v m] by (simp add: roundUp_def Let_def)

section \<open>log2ceil\<close>

text \<open>
  \<open>nat_bits x\<close> is the position after the most significant set bit, so that
  \<open>__builtin_clz(x)\<close> is \<open>32 - nat_bits x\<close> for a non-zero 32-bit \<open>x\<close>.
\<close>

fun nat_bits :: "nat \<Rightarrow> nat" where
  "nat_bits n = (if n = 0 then 0 else Suc (nat_bits (n div 2)))"

declare nat_bits.simps [simp del]

definition builtin_clz :: "32 word \<Rightarrow> nat" where
  "builtin_clz x = 32 - nat_bits (unat x)"

definition log2ceil :: "32 word \<Rightarrow> nat" where
  "log2ceil value = (if value \<le> 1 then 0 else 32 - builtin_clz (value - 1))"

text \<open>The loop compiled when \<open>__GNUC__\<close> is not defined; \<open>size <<= 1\<close> drops the top bit.\<close>

partial_function (option) log2ceil_loop :: "nat \<Rightarrow> 32 word \<Rightarrow> 32 word \<Rightarrow> nat option" where
  "log2ceil_loop dim sz value =
     (if sz < value then log2ceil_loop (Suc dim) (push_bit 1 sz) value else Some dim)"

lemma nat_bits_bounds: "0 < n \<Longrightarrow> 2 ^ (nat_bits n - 1) \<le> n \<and> n < 2 ^ nat_bits n"
proof (induction n rule: nat_bits.induct)
  case (1 n)
  show ?case
  proof (cases "n div 2 = 0")
    case True
    with "1.prems" have "n = 1" by linarith
    then show ?thesis by (simp add: nat_bits.simps)
  next
    case False
    with 1 have IH: "2 ^ (nat_bits (n div 2) - 1) \<le> n div 2" "n div 2 < 2 ^ nat_bits (n div 2)"
      by auto
    from False obtain k where k: "nat_bits (n div 2) = Suc k"
      by (subst (asm) nat_bits.simps [of "n div 2"]) (auto simp: nat_bits.simps [of "n div 2"])
    have "nat_bits n = Suc (Suc k)"
      using "1.prems" k by (subst nat_bits.simps) simp
    with IH k show ?thesis by auto
  qed
qed

lemma nat_bits_unique:
  assumes "2 ^ k < n" and "n \<le> 2 ^ Suc k"
  shows "nat_bits (n - 1) = Suc k"
proof -
  have pos: "0 < n - 1" using assms(1) one_le_power [of "2::nat" k] by linarith
  from nat_bits_bounds [OF pos] have lo: "2 ^ (nat_bits (n - 1) - 1) \<le> n - 1"
    and hi: "n - 1 < 2 ^ nat_bits (n - 1)" by simp_all
  from lo assms(2) have "2 ^ (nat_bits (n - 1) - 1) < (2::nat) ^ Suc k"
    using pos by linarith
  then have "nat_bits (n - 1) - 1 < Suc k" by (rule power_less_imp_less_exp [rotated]) simp
  moreover from hi assms(1) have "(2::nat) ^ k < 2 ^ nat_bits (n - 1)" by linarith
  then have "k < nat_bits (n - 1)" by (rule power_less_imp_less_exp [rotated]) simp
  ultimately show ?thesis by linarith
qed

lemma nat_bits_le_32: "n < 2 ^ 32 \<Longrightarrow> nat_bits n \<le> 32"
proof (cases "n = 0")
  case True
  then show ?thesis by (simp add: nat_bits.simps)
next
  case False
  assume n: "n < 2 ^ 32"
  from False nat_bits_bounds [of n] have "2 ^ (nat_bits n - 1) \<le> n" by simp
  with n have "2 ^ (nat_bits n - 1) < (2::nat) ^ 32" by linarith
  then have "nat_bits n - 1 < 32" by (rule power_less_imp_less_exp [rotated]) simp
  then show ?thesis by simp
qed

lemma log2ceil_nat_bits: "1 < unat v \<Longrightarrow> log2ceil v = nat_bits (unat v - 1)"
proof -
  assume v: "1 < unat v"
  have "unat (v - 1) = unat v - 1"
    using v by (intro unat_minus_one) auto
  moreover have "nat_bits (unat v - 1) \<le> 32"
  proof (rule nat_bits_le_32)
    have "unat v < 2 ^ 32" using unat_less_32 [of v] by simp
    then show "unat v - 1 < 2 ^ 32" by simp
  qed
  moreover have "\<not> v \<le> 1" using v by (simp add: word_le_nat_alt)
  ultimately show ?thesis by (simp add: log2ceil_def builtin_clz_def)
qed

lemma log2ceil_least:
  "unat v \<le> 2 ^ log2ceil v \<and> (\<forall>d. 0 < unat v \<longrightarrow> unat v \<le> 2 ^ d \<longrightarrow> log2ceil v \<le> d)"
proof (cases "1 < unat v")
  case True
  let ?k = "nat_bits (unat v - 1)"
  from True nat_bits_bounds [of "unat v - 1"]
  have lo: "2 ^ (?k - 1) \<le> unat v - 1" and hi: "unat v - 1 < 2 ^ ?k" by simp_all
  have "?k \<le> d" if "unat v \<le> 2 ^ d" for d
  proof -
    have "2 ^ (?k - 1) < (2::nat) ^ d" using lo that True by linarith
    then have "?k - 1 < d" by (rule power_less_imp_less_exp [rotated]) simp
    then show ?thesis by linarith
  qed
  with hi True show ?thesis by (auto simp: log2ceil_nat_bits)
next
  case False
  then have "log2ceil v = 0" by (simp add: log2ceil_def word_le_nat_alt)
  with False show ?thesis by simp
qed

text \<open>\<open>log2ceil\<close> is the ceiling of the binary logarithm: the least power of two that
  reaches its argument, for every non-zero 32-bit value.\<close>

theorem log2ceil_least_power:
  assumes "v \<noteq> 0"
  shows "log2ceil v = (LEAST d. unat v \<le> 2 ^ d)"
  using log2ceil_least [of v] assms
  by (intro Least_equality [symmetric]) (auto simp: unat_gt_0)

theorem log2ceil_least_power_witness: "(5 :: 32 word) \<noteq> 0 \<and> log2ceil 5 = (LEAST d. unat (5 :: 32 word) \<le> 2 ^ d) \<and> log2ceil 5 = 3"
proof (intro conjI)
  show "log2ceil 5 = (LEAST d. unat (5 :: 32 word) \<le> 2 ^ d)" by (rule log2ceil_least_power) simp
  show "log2ceil 5 = 3" by (simp add: log2ceil_def builtin_clz_def nat_bits.simps word_le_nat_alt)
qed simp

end
