(* ===== verification/Gloo_Types.thy ===== *)
theory Gloo_Types
  imports Gloo_Math
begin

text \<open>
  \<open>gloo/types.h\<close> and \<open>gloo/types.cc\<close>: the slots that keep concurrent collectives apart, and
  the software half-precision float with its conversions and operators.
\<close>

unbundle bit_operations_syntax

section \<open>Slots\<close>

definition kGatherSlotPrefix :: "8 word" where "kGatherSlotPrefix = 0x01"
definition kAllgatherSlotPrefix :: "8 word" where "kAllgatherSlotPrefix = 0x02"
definition kReduceSlotPrefix :: "8 word" where "kReduceSlotPrefix = 0x03"
definition kAllreduceSlotPrefix :: "8 word" where "kAllreduceSlotPrefix = 0x04"
definition kScatterSlotPrefix :: "8 word" where "kScatterSlotPrefix = 0x05"
definition kBroadcastSlotPrefix :: "8 word" where "kBroadcastSlotPrefix = 0x06"
definition kBarrierSlotPrefix :: "8 word" where "kBarrierSlotPrefix = 0x07"
definition kAlltoallSlotPrefix :: "8 word" where "kAlltoallSlotPrefix = 0x08"

record Slot =
  slot_base :: "64 word"
  slot_delta :: "64 word"

definition Slot_build :: "8 word \<Rightarrow> 32 word \<Rightarrow> Slot" where
  "Slot_build prefix tag =
     (let u64prefix = push_bit 56 (ucast prefix :: 64 word);
          u64tag = push_bit 24 ((ucast tag :: 64 word) AND 0xffffffff)
      in \<lparr>slot_base = u64prefix OR u64tag, slot_delta = 0\<rparr>)"

definition Slot_value :: "Slot \<Rightarrow> 64 word" where
  "Slot_value s = slot_base s + slot_delta s"

definition Slot_plus :: "Slot \<Rightarrow> 8 word \<Rightarrow> Slot result" where
  "Slot_plus s i =
     (let delta = slot_delta s + ucast i
      in if delta > 0xff then Inl RuntimeError
         else Inr \<lparr>slot_base = slot_base s, slot_delta = delta\<rparr>)"

text \<open>Adding a sequence of offsets one after the other.\<close>

fun Slot_plus_all :: "Slot \<Rightarrow> 8 word list \<Rightarrow> Slot result" where
  "Slot_plus_all s [] = Inr s"
| "Slot_plus_all s (i # is) = rbind (Slot_plus s i) (\<lambda>s'. Slot_plus_all s' is)"

section \<open>Half-precision floats\<close>

text \<open>
  A \<open>float16\<close> is its 16-bit pattern \<open>x\<close>; a \<open>float\<close> is its 32-bit pattern, as the code reads
  it through \<open>reinterpret_cast\<close>.
\<close>

type_synonym float16 = "16 word"
type_synonym float32 = "32 word"

definition cpu_float2half_rn :: "float32 \<Rightarrow> float16" where
  "cpu_float2half_rn x =
     (let u = x AND 0x7fffffff in
      if u > 0x7f800000 then 0x7fff else
      let sign = drop_bit 16 x AND 0x8000 in
      if u > 0x477fefff then ucast (sign OR 0x7c00) else
      if u < 0x33000001 then ucast (sign OR 0x0000) else
      let exponent = drop_bit 23 u AND 0xff;
          mantissa = u AND 0x7fffff;
          (shift, exponent, mantissa) =
            (if exponent > 0x70 then (13, exponent - 0x70, mantissa)
             else (0x7e - exponent, 0, mantissa OR 0x800000));
          lsb = push_bit (unat shift) 1;
          lsb_s1 = drop_bit 1 lsb;
          lsb_m1 = lsb - 1;
          remainder = mantissa AND lsb_m1;
          mantissa = drop_bit (unat shift) mantissa;
          (exponent, mantissa) =
            (if remainder > lsb_s1 \<or> remainder = lsb_s1 \<and> mantissa AND 0x1 \<noteq> 0 then
               (let mantissa = mantissa + 1 in
                if mantissa AND 0x3ff = 0 then (exponent + 1, 0) else (exponent, mantissa))
             else (exponent, mantissa))
      in ucast (sign OR push_bit 10 exponent OR mantissa))"

text \<open>
  The normalisation of a denormal: shift the mantissa left until its top bit has been
  moved out, counting the exponent down. The loop need not stop on an arbitrary word.
\<close>

partial_function (option) half_normalize :: "32 word \<Rightarrow> 32 word \<Rightarrow> (32 word \<times> 32 word) option" where
  "half_normalize exponent mantissa =
     (let msb = mantissa AND 0x400000;
          mantissa = push_bit 1 mantissa;
          exponent = exponent - 1
      in if msb = 0 then half_normalize exponent mantissa else Some (exponent, mantissa))"

definition cpu_half2float :: "float16 \<Rightarrow> float32 option" where
  "cpu_half2float h =
     (let sign = drop_bit 15 (ucast h) AND 1;
          exponent = drop_bit 10 (ucast h) AND 0x1f;
          mantissa = push_bit 13 (ucast h AND 0x3ff)
      in map_option
           (\<lambda>(sign, exponent, mantissa). push_bit 31 sign OR push_bit 23 exponent OR mantissa)
           (if exponent = 0x1f then
              Some (if mantissa \<noteq> 0 then (0, 0xff, 0x7fffff) else (sign, 0xff, 0))
            else if exponent = 0 then
              (if mantissa \<noteq> 0 then
                 map_option (\<lambda>(e, m). (sign, e, m AND 0x7fffff)) (half_normalize 0x71 mantissa)
               else Some (sign, exponent, mantissa))
            else Some (sign, exponent + 0x70, mantissa)))"

subsection \<open>Comparison and assignment\<close>

text \<open>
  The conversion of a 16-bit unsigned value to \<open>float\<close>, which is exact: the value's leading
  bit becomes the implicit one of the significand.
\<close>

definition float_of_u16 :: "16 word \<Rightarrow> float32" where
  "float_of_u16 n =
     (if n = 0 then 0
      else let e = nat_bits (unat n) - 1
           in push_bit 23 (of_nat (127 + e)) OR (push_bit (23 - e) (ucast n) AND 0x7fffff))"

text \<open>
  \<open>operator==(const float16&)\<close> compares the patterns. \<open>operator!=(const float16&)\<close> is
  \<open>!(*this == rhs.x)\<close>: \<open>rhs.x\<close> is a \<open>uint16_t\<close>, which is promoted to \<open>int\<close>, so the overload
  called is \<open>operator==(const int&)\<close>, which converts the integer to half precision first.
  Assignment stores only if the right-hand side differs from the target in that sense.
\<close>

definition float16_eq :: "float16 \<Rightarrow> float16 \<Rightarrow> bool" where
  "float16_eq lhs rhs = (lhs = rhs)"

definition float16_eq_u16 :: "float16 \<Rightarrow> 16 word \<Rightarrow> bool" where
  "float16_eq_u16 lhs rhs = (let res = cpu_float2half_rn (float_of_u16 rhs) in lhs = res)"

definition float16_ne :: "float16 \<Rightarrow> float16 \<Rightarrow> bool" where
  "float16_ne lhs rhs = (\<not> float16_eq_u16 lhs rhs)"

definition float16_assign :: "float16 \<Rightarrow> float16 \<Rightarrow> float16" where
  "float16_assign this rhs = (if float16_ne rhs this then rhs else this)"

subsection \<open>Arithmetic\<close>

text \<open>
  The compound operators convert both operands to \<open>float\<close>, combine them with the hardware
  operation \<open>fop\<close> and assign the converted result; the binary operators copy the left
  operand and apply the compound operator to the copy.
\<close>

definition float16_compound :: "(float32 \<Rightarrow> float32 \<Rightarrow> float32) \<Rightarrow> float16 \<Rightarrow> float16 \<Rightarrow> float16 option" where
  "float16_compound fop this rhs =
     (case (cpu_half2float this, cpu_half2float rhs) of
        (Some a, Some b) \<Rightarrow> Some (float16_assign this (cpu_float2half_rn (fop a b)))
      | _ \<Rightarrow> None)"

definition float16_binary :: "(float32 \<Rightarrow> float32 \<Rightarrow> float32) \<Rightarrow> float16 \<Rightarrow> float16 \<Rightarrow> float16 option" where
  "float16_binary fop lhs rhs = (let result = lhs in float16_compound fop result rhs)"

definition float16_compare :: "(float32 \<Rightarrow> float32 \<Rightarrow> bool) \<Rightarrow> float16 \<Rightarrow> float16 \<Rightarrow> bool option" where
  "float16_compare fcmp lhs rhs =
     (case (cpu_half2float lhs, cpu_half2float rhs) of
        (Some a, Some b) \<Rightarrow> Some (fcmp a b)
      | _ \<Rightarrow> None)"

section \<open>Properties of slots\<close>

text \<open>The three fields of a slot value occupy disjoint bits.\<close>

definition slot_wf :: "8 word \<Rightarrow> 32 word \<Rightarrow> Slot \<Rightarrow> bool" where
  "slot_wf prefix tag s \<longleftrightarrow> slot_base s = slot_base (Slot_build prefix tag) \<and> slot_delta s \<le> 0xff"

lemma Slot_plus_wf: "slot_wf p t s \<Longrightarrow> Slot_plus s i = Inr s' \<Longrightarrow> slot_wf p t s'"
  by (auto simp: slot_wf_def Slot_plus_def Let_def not_less split: if_splits)

lemma Slot_build_wf: "slot_wf p t (Slot_build p t)"
  by (simp add: slot_wf_def Slot_build_def Let_def)

lemma Slot_plus_all_wf: "slot_wf p t s \<Longrightarrow> Slot_plus_all s is = Inr s' \<Longrightarrow> slot_wf p t s'"
  by (induction "is" arbitrary: s) (auto simp: rbind_Inr_conv dest: Slot_plus_wf)

lemma slot_masks: "(0xff :: 64 word) = mask 8" "(0xffffffff :: 64 word) = mask 32"
  by (simp_all add: mask_eq_exp_minus_1)

text \<open>Decoding the bits of \<open>base OR delta\<close> gives the three fields back.\<close>

lemma slot_bits:
  fixes p :: "8 word" and t :: "32 word" and d :: "64 word"
  defines "b \<equiv> push_bit 56 (ucast p) OR push_bit 24 (ucast t AND mask 32)"
  assumes d: "take_bit 8 d = d"
  shows "b AND d = 0"
    and "ucast (drop_bit 56 (b OR d)) = p"
    and "ucast (drop_bit 24 (b OR d)) = t"
    and "take_bit 8 (b OR d) = d"
proof -
  show "b AND d = 0"
    unfolding b_def by (intro bit_word_eqI, subst d [symmetric]) (auto simp: bit_simps)
  show "ucast (drop_bit 56 (b OR d)) = p"
    unfolding b_def by (intro bit_word_eqI, subst d [symmetric]) (auto simp: bit_simps)
  show "ucast (drop_bit 24 (b OR d)) = t"
    unfolding b_def by (intro bit_word_eqI, subst d [symmetric]) (auto simp: bit_simps)
  show "take_bit 8 (b OR d) = d"
    unfolding b_def by (subst (2) d [symmetric], intro bit_word_eqI) (auto simp: bit_simps)
qed

lemma slot_wf_decode:
  assumes "slot_wf p t s"
  shows "ucast (drop_bit 56 (Slot_value s)) = p" and "ucast (drop_bit 24 (Slot_value s)) = t"
    and "take_bit 8 (Slot_value s) = slot_delta s"
proof -
  have d: "take_bit 8 (slot_delta s) = slot_delta s"
    using assms
    by (simp add: slot_wf_def word_eq_iff_unsigned [where ?'a = nat] unsigned_take_bit_eq
        take_bit_nat_eq_self_iff word_le_nat_alt)
  note bits = slot_bits [OF d, of p t]
  have v: "Slot_value s =
      (push_bit 56 (ucast p) OR push_bit 24 (ucast t AND mask 32)) OR slot_delta s"
    using assms bits(1)
    by (simp add: Slot_value_def slot_wf_def Slot_build_def Let_def slot_masks
        disjunctive_add_eq_or)
  show "ucast (drop_bit 56 (Slot_value s)) = p" "ucast (drop_bit 24 (Slot_value s)) = t"
    "take_bit 8 (Slot_value s) = slot_delta s"
    unfolding v by (rule bits)+
qed

text \<open>C31: the 64-bit values of two slots are equal only if the collective prefix, the tag and
  the offset within the collective are: messages of different collectives, of different
  tags, and of different steps of one collective can never be confused.\<close>

theorem Slot_value_inj:
  assumes "Slot_plus_all (Slot_build p t) is = Inr s"
    and "Slot_plus_all (Slot_build p' t') is' = Inr s'"
  shows "Slot_value s = Slot_value s' \<longleftrightarrow> p = p' \<and> t = t' \<and> slot_delta s = slot_delta s'"
proof -
  have wf: "slot_wf p t s" "slot_wf p' t' s'"
    using assms by (blast intro: Slot_plus_all_wf Slot_build_wf)+
  then have "slot_base s = slot_base s'" if "p = p'" "t = t'"
    using that by (simp add: slot_wf_def)
  with wf show ?thesis
    using slot_wf_decode [OF wf(1)] slot_wf_decode [OF wf(2)]
    by (metis Slot_value_def)
qed

theorem Slot_value_inj_witness:
  "Slot_plus_all (Slot_build kAllreduceSlotPrefix 7) [3] =
     Inr \<lparr>slot_base = 0x0400000007000000, slot_delta = 3\<rparr> \<and>
   Slot_plus_all (Slot_build kBarrierSlotPrefix 7) [3] =
     Inr \<lparr>slot_base = 0x0700000007000000, slot_delta = 3\<rparr> \<and>
   Slot_value \<lparr>slot_base = 0x0400000007000000, slot_delta = 3\<rparr> \<noteq>
   Slot_value \<lparr>slot_base = 0x0700000007000000, slot_delta = 3\<rparr>"
proof -
  have a: "Slot_plus_all (Slot_build kAllreduceSlotPrefix 7) [3] =
     Inr \<lparr>slot_base = 0x0400000007000000, slot_delta = 3\<rparr>"
    by (simp add: Slot_build_def Slot_plus_def kAllreduceSlotPrefix_def Let_def)
  have b: "Slot_plus_all (Slot_build kBarrierSlotPrefix 7) [3] =
     Inr \<lparr>slot_base = 0x0700000007000000, slot_delta = 3\<rparr>"
    by (simp add: Slot_build_def Slot_plus_def kBarrierSlotPrefix_def Let_def)
  show ?thesis
    using a b Slot_value_inj [OF a b] by (simp add: kAllreduceSlotPrefix_def kBarrierSlotPrefix_def)
qed

lemma Slot_plus_nat:
  assumes "d \<le> 255"
  shows "Slot_plus \<lparr>slot_base = b, slot_delta = of_nat d\<rparr> i =
    (if d + unat i \<le> 255 then Inr \<lparr>slot_base = b, slot_delta = of_nat (d + unat i)\<rparr>
     else Inl RuntimeError)"
proof -
  have i: "unat i \<le> 255" using unat_less_8 [of i] by simp
  have eq: "of_nat d + ucast i = (of_nat (d + unat i) :: 64 word)"
    by (simp add: unsigned_ucast_eq)
  have "unat (of_nat (d + unat i) :: 64 word) = d + unat i"
    using assms i by (simp only: unat_of_nat) simp
  then have "(of_nat (d + unat i) :: 64 word) > 0xff \<longleftrightarrow> 255 < d + unat i"
    by (simp add: word_less_nat_alt)
  then show ?thesis
    unfolding Slot_plus_def Let_def Slot.select_convs eq by (simp add: not_le)
qed

text \<open>C32: adding offsets to a slot succeeds exactly as long as their sum fits in the eight
  bits reserved for the collective, and raises otherwise, whatever the order.\<close>

theorem Slot_plus_all_bounded:
  "Slot_plus_all (Slot_build p t) is =
     (if sum_list (map unat is) \<le> 255
      then Inr \<lparr>slot_base = slot_base (Slot_build p t),
                slot_delta = of_nat (sum_list (map unat is))\<rparr>
      else Inl RuntimeError)"
proof -
  have gen: "Slot_plus_all \<lparr>slot_base = b, slot_delta = of_nat d\<rparr> is =
     (if d + sum_list (map unat is) \<le> 255
      then Inr \<lparr>slot_base = b, slot_delta = of_nat (d + sum_list (map unat is))\<rparr>
      else Inl RuntimeError)" if "d \<le> 255" for b d
    using that
  proof (induction "is" arbitrary: d)
    case (Cons i "is")
    then show ?case
      by (cases "d + unat i \<le> 255") (simp_all add: Slot_plus_nat add.assoc del: of_nat_add)
  qed simp
  show ?thesis
    using gen [of 0 "slot_base (Slot_build p t)"] by (simp add: Slot_build_def Let_def)
qed

section \<open>Properties of half-precision floats\<close>

text \<open>the assignment operator of \<open>float16\<close> loses writes: storing 1.0 (pattern
  \<open>0x3c00\<close>) into a cell that holds the pattern \<open>0x0001\<close> leaves the cell unchanged, since
  \<open>operator!=\<close> compares 1.0 with the integer 1 instead of with the pattern 1.\<close>

theorem float16_assign_loses_write:
  "float16_assign 0x0001 0x3c00 = 0x0001 \<and> \<not> float16_eq 0x0001 0x3c00"
  by (simp add: float16_assign_def float16_ne_def float16_eq_u16_def float16_eq_def
      float_of_u16_def cpu_float2half_rn_def Let_def nat_bits.simps)

lemma float16_assign_stores:
  "float16_assign this rhs = rhs \<longleftrightarrow>
    rhs = this \<or> rhs \<noteq> cpu_float2half_rn (float_of_u16 this)"
  by (auto simp: float16_assign_def float16_ne_def float16_eq_u16_def Let_def)

end
