(* ===== verification/Gloo_Tally.thy ===== *)
theory Gloo_Tally
  imports Gloo_Types
begin

text \<open>
  \<open>gloo/transport/context.h\<close> and \<open>gloo/transport/context.cc\<close>: the tallies of pending
  operations and expected notifications that a transport context keeps per slot, the
  lazily created entry used to reach one tally, and the mutator through which a pair
  changes them. The abstract view of a tally vector is the list of ranks with a pending
  send, and with a pending receive, for every slot (\<open>sends_of\<close>, \<open>recvs_of\<close>).
\<close>

type_synonym slot_t = "64 word"
type_synonym rank_t = nat

section \<open>Lists of ranks and tallies\<close>

definition List_push :: "rank_t \<Rightarrow> rank_t list \<Rightarrow> rank_t list" where
  "List_push rank ranks = ranks @ [rank]"

text \<open>\<open>std::find\<close> and \<open>erase\<close>: the first occurrence is removed, if there is one.\<close>

fun List_shift :: "rank_t \<Rightarrow> rank_t list \<Rightarrow> bool \<times> rank_t list" where
  "List_shift rank [] = (False, [])"
| "List_shift rank (r # ranks) =
     (if r = rank then (True, ranks)
      else let (found, ranks') = List_shift rank ranks in (found, r # ranks'))"

record Tally =
  tally_slot :: slot_t
  tally_send :: "rank_t list"
  tally_recv :: "rank_t list"

definition Tally_new :: "slot_t \<Rightarrow> Tally" where
  "Tally_new slot = \<lparr>tally_slot = slot, tally_send = [], tally_recv = []\<rparr>"

definition Tally_empty :: "Tally \<Rightarrow> bool" where
  "Tally_empty t = (tally_send t = [] \<and> tally_recv t = [])"

definition Tally_pushSend :: "rank_t \<Rightarrow> Tally \<Rightarrow> Tally" where
  "Tally_pushSend rank t = t\<lparr>tally_send := List_push rank (tally_send t)\<rparr>"

definition Tally_pushRecv :: "rank_t \<Rightarrow> Tally \<Rightarrow> Tally" where
  "Tally_pushRecv rank t = t\<lparr>tally_recv := List_push rank (tally_recv t)\<rparr>"

definition Tally_shiftSend :: "rank_t \<Rightarrow> Tally \<Rightarrow> bool \<times> Tally" where
  "Tally_shiftSend rank t =
     (let (found, ranks) = List_shift rank (tally_send t) in (found, t\<lparr>tally_send := ranks\<rparr>))"

definition Tally_shiftRecv :: "rank_t \<Rightarrow> Tally \<Rightarrow> bool \<times> Tally" where
  "Tally_shiftRecv rank t =
     (let (found, ranks) = List_shift rank (tally_recv t) in (found, t\<lparr>tally_recv := ranks\<rparr>))"

section \<open>Lazy tallies\<close>

text \<open>
  The iterator is an index into the vector; the index \<open>length vec\<close> is \<open>vec_.end()\<close>.
\<close>

record LazyTally =
  lt_vec :: "Tally list"
  lt_slot :: slot_t
  lt_it :: nat
  lt_initialized :: bool

fun find_slot :: "slot_t \<Rightarrow> Tally list \<Rightarrow> nat" where
  "find_slot slot [] = 0"
| "find_slot slot (t # ts) = (if tally_slot t = slot then 0 else Suc (find_slot slot ts))"

definition LazyTally_new :: "Tally list \<Rightarrow> slot_t \<Rightarrow> LazyTally" where
  "LazyTally_new vec slot = \<lparr>lt_vec = vec, lt_slot = slot, lt_it = 0, lt_initialized = False\<rparr>"

definition LazyTally_initialize_iterator :: "LazyTally \<Rightarrow> LazyTally" where
  "LazyTally_initialize_iterator l =
     (if lt_initialized l then l
      else l\<lparr>lt_it := find_slot (lt_slot l) (lt_vec l), lt_initialized := True\<rparr>)"

definition LazyTally_exists :: "LazyTally \<Rightarrow> bool \<times> LazyTally" where
  "LazyTally_exists l =
     (let l = LazyTally_initialize_iterator l in (lt_it l \<noteq> length (lt_vec l), l))"

definition LazyTally_get :: "LazyTally \<Rightarrow> LazyTally" where
  "LazyTally_get l =
     (let l = LazyTally_initialize_iterator l
      in if lt_it l = length (lt_vec l)
         then l\<lparr>lt_vec := lt_vec l @ [Tally_new (lt_slot l)], lt_it := length (lt_vec l)\<rparr>
         else l)"

text \<open>Destruction erases the tally the iterator points to when it has become empty.\<close>

definition LazyTally_destroy :: "LazyTally \<Rightarrow> Tally list" where
  "LazyTally_destroy l =
     (if lt_initialized l \<and> lt_it l \<noteq> length (lt_vec l) \<and> Tally_empty (lt_vec l ! lt_it l)
      then take (lt_it l) (lt_vec l) @ drop (Suc (lt_it l)) (lt_vec l)
      else lt_vec l)"

text \<open>A push through the reference returned by \<open>get()\<close>, and a shift guarded by \<open>exists()\<close>.\<close>

definition LazyTally_push :: "(Tally \<Rightarrow> Tally) \<Rightarrow> LazyTally \<Rightarrow> LazyTally" where
  "LazyTally_push f l =
     (let l = LazyTally_get l in l\<lparr>lt_vec := (lt_vec l)[lt_it l := f (lt_vec l ! lt_it l)]\<rparr>)"

definition LazyTally_shift :: "(Tally \<Rightarrow> bool \<times> Tally) \<Rightarrow> LazyTally \<Rightarrow> bool \<times> LazyTally" where
  "LazyTally_shift f l =
     (let (ex, l) = LazyTally_exists l
      in if \<not> ex then (False, l)
         else let l = LazyTally_get l; (found, t) = f (lt_vec l ! lt_it l)
              in (found, l\<lparr>lt_vec := (lt_vec l)[lt_it l := t]\<rparr>))"

section \<open>The mutator\<close>

text \<open>
  The two vectors of \<open>transport::Context\<close> that a mutator locks; \<open>Mutator\<close> holds one lazy
  tally into each. Constructing one takes the context lock and destroying it writes the
  cleaned-up vectors back.
\<close>

record TallyState =
  pendingOperations :: "Tally list"
  expectedNotifications :: "Tally list"

record Mutator =
  mu_rank :: rank_t
  mu_pendingOperations :: LazyTally
  mu_expectedNotifications :: LazyTally

definition Mutator_new :: "TallyState \<Rightarrow> slot_t \<Rightarrow> rank_t \<Rightarrow> Mutator" where
  "Mutator_new ctx slot rank =
     \<lparr>mu_rank = rank,
      mu_pendingOperations = LazyTally_new (pendingOperations ctx) slot,
      mu_expectedNotifications = LazyTally_new (expectedNotifications ctx) slot\<rparr>"

definition Mutator_destroy :: "Mutator \<Rightarrow> TallyState" where
  "Mutator_destroy m =
     \<lparr>pendingOperations = LazyTally_destroy (mu_pendingOperations m),
      expectedNotifications = LazyTally_destroy (mu_expectedNotifications m)\<rparr>"

definition pushRemotePendingRecv :: "Mutator \<Rightarrow> Mutator" where
  "pushRemotePendingRecv m =
     m\<lparr>mu_pendingOperations := LazyTally_push (Tally_pushRecv (mu_rank m)) (mu_pendingOperations m)\<rparr>"

definition pushRemotePendingSend :: "Mutator \<Rightarrow> Mutator" where
  "pushRemotePendingSend m =
     m\<lparr>mu_pendingOperations := LazyTally_push (Tally_pushSend (mu_rank m)) (mu_pendingOperations m)\<rparr>"

definition shiftRemotePendingRecv :: "Mutator \<Rightarrow> bool \<times> Mutator" where
  "shiftRemotePendingRecv m =
     (let (found, l) = LazyTally_shift (Tally_shiftRecv (mu_rank m)) (mu_pendingOperations m)
      in (found, m\<lparr>mu_pendingOperations := l\<rparr>))"

definition shiftRemotePendingSend :: "Mutator \<Rightarrow> bool \<times> Mutator" where
  "shiftRemotePendingSend m =
     (let (found, l) = LazyTally_shift (Tally_shiftSend (mu_rank m)) (mu_pendingOperations m)
      in (found, m\<lparr>mu_pendingOperations := l\<rparr>))"

definition pushExpectedSendNotification :: "Mutator \<Rightarrow> Mutator" where
  "pushExpectedSendNotification m =
     m\<lparr>mu_expectedNotifications :=
         LazyTally_push (Tally_pushSend (mu_rank m)) (mu_expectedNotifications m)\<rparr>"

definition shiftExpectedSendNotification :: "Mutator \<Rightarrow> bool \<times> Mutator" where
  "shiftExpectedSendNotification m =
     (let (found, l) = LazyTally_shift (Tally_shiftSend (mu_rank m)) (mu_expectedNotifications m)
      in (found, m\<lparr>mu_expectedNotifications := l\<rparr>))"

definition findPendingOperations :: "TallyState \<Rightarrow> slot_t \<Rightarrow> nat" where
  "findPendingOperations ctx slot = find_slot slot (pendingOperations ctx)"

section \<open>Abstract view\<close>

text \<open>
  A tally vector is well formed if no slot has two tallies and no tally is empty. What it
  means is the list of ranks it holds for each slot.
\<close>

definition tallies_wf :: "Tally list \<Rightarrow> bool" where
  "tallies_wf ts \<longleftrightarrow> distinct (map tally_slot ts) \<and> (\<forall>t \<in> set ts. \<not> Tally_empty t)"

definition tally_at :: "Tally list \<Rightarrow> slot_t \<Rightarrow> Tally" where
  "tally_at ts slot =
     (if find_slot slot ts < length ts then ts ! find_slot slot ts else Tally_new slot)"

definition sends_of :: "Tally list \<Rightarrow> slot_t \<Rightarrow> rank_t list" where
  "sends_of ts slot = tally_send (tally_at ts slot)"

definition recvs_of :: "Tally list \<Rightarrow> slot_t \<Rightarrow> rank_t list" where
  "recvs_of ts slot = tally_recv (tally_at ts slot)"

text \<open>While a lazy tally is alive, the tally it points to may be empty.\<close>

definition lazy_ok :: "LazyTally \<Rightarrow> bool" where
  "lazy_ok l \<longleftrightarrow>
     distinct (map tally_slot (lt_vec l)) \<and>
     (\<forall>t \<in> set (lt_vec l). Tally_empty t \<longrightarrow> lt_initialized l \<and> tally_slot t = lt_slot l) \<and>
     (lt_initialized l \<longrightarrow> lt_it l = find_slot (lt_slot l) (lt_vec l))"

lemma List_shift_eq: "List_shift r rs = (r \<in> set rs, remove1 r rs)"
  by (induction rs) (auto split: prod.splits)

lemma find_slot_le: "find_slot s ts \<le> length ts"
  by (induction ts) auto

lemma find_slot_nth: "find_slot s ts < length ts \<Longrightarrow> tally_slot (ts ! find_slot s ts) = s"
  by (induction ts) (auto split: if_splits)

lemma find_slot_end_iff: "find_slot s ts = length ts \<longleftrightarrow> s \<notin> tally_slot ` set ts"
  by (induction ts) auto

lemma find_slot_update:
  "i < length ts \<Longrightarrow> tally_slot t = tally_slot (ts ! i) \<Longrightarrow> find_slot s (ts[i := t]) = find_slot s ts"
  by (induction ts arbitrary: i) (auto split: nat.splits simp: nth_Cons')

lemma find_slot_unique:
  "distinct (map tally_slot ts) \<Longrightarrow> i < length ts \<Longrightarrow> find_slot (tally_slot (ts ! i)) ts = i"
proof (induction ts arbitrary: i)
  case (Cons t ts)
  then show ?case by (cases i) auto
qed simp

lemma find_slot_append:
  "find_slot s (ts @ us) = (if find_slot s ts < length ts then find_slot s ts else length ts + find_slot s us)"
  by (induction ts) auto

subsection \<open>Lazy tallies implement the abstract view\<close>

lemma tally_at_update:
  assumes "i = find_slot s ts" "i < length ts" "tally_slot t = s"
  shows "tally_at (ts[i := t]) = (tally_at ts)(s := t)"
proof
  fix s'
  have slot: "tally_slot (ts ! i) = s" using assms find_slot_nth by blast
  have fs: "find_slot s' (ts[i := t]) = find_slot s' ts"
    using assms slot by (intro find_slot_update) auto
  have "i \<noteq> find_slot s' ts" if "s' \<noteq> s" "find_slot s' ts < length ts"
    using that slot find_slot_nth by metis
  then show "tally_at (ts[i := t]) s' = ((tally_at ts)(s := t)) s'"
    using fs assms(1) [symmetric] assms(2) by (cases "s' = s") (simp_all add: tally_at_def)
qed

lemma Tally_new_slot [simp]: "tally_slot (Tally_new s) = s"
  by (simp add: Tally_new_def)

lemma tally_at_new: "find_slot s ts = length ts \<Longrightarrow> tally_at (ts @ [Tally_new s]) = tally_at ts"
  by (auto simp: tally_at_def find_slot_append nth_append Tally_new_def fun_eq_iff)

lemma tally_at_remove:
  assumes "distinct (map tally_slot ts)" "i < length ts" "Tally_empty (ts ! i)"
  shows "tally_at (take i ts @ drop (Suc i) ts) = tally_at ts"
  using assms
proof (induction ts arbitrary: i)
  case (Cons t ts)
  have shift: "tally_at (u # us) s = (if tally_slot u = s then u else tally_at us s)" for u us s
    by (simp add: tally_at_def)
  show ?case
  proof (cases i)
    case 0
    have "find_slot (tally_slot t) ts = length ts"
      using Cons.prems by (auto simp: find_slot_end_iff)
    then have "tally_at ts (tally_slot t) = t"
      using Cons.prems 0 by (simp add: tally_at_def Tally_new_def Tally_empty_def)
    with 0 show ?thesis by (auto simp: shift fun_eq_iff)
  next
    case (Suc j)
    with Cons have "tally_at (take j ts @ drop (Suc j) ts) = tally_at ts" by simp
    with Suc show ?thesis by (simp add: shift fun_eq_iff)
  qed
qed simp

lemma lazy_ok_new: "tallies_wf ts \<Longrightarrow> lazy_ok (LazyTally_new ts s)"
  by (auto simp: lazy_ok_def tallies_wf_def LazyTally_new_def)

lemma lazy_init:
  "lazy_ok l \<Longrightarrow> lazy_ok (LazyTally_initialize_iterator l)"
  "lt_vec (LazyTally_initialize_iterator l) = lt_vec l"
  "lt_slot (LazyTally_initialize_iterator l) = lt_slot l"
  "lt_initialized (LazyTally_initialize_iterator l)"
  by (auto simp: lazy_ok_def LazyTally_initialize_iterator_def)

lemma lazy_get:
  assumes "lazy_ok l"
  shows "lazy_ok (LazyTally_get l)"
    and "tally_at (lt_vec (LazyTally_get l)) = tally_at (lt_vec l)"
    and "lt_slot (LazyTally_get l) = lt_slot l"
    and "lt_initialized (LazyTally_get l)"
    and "lt_it (LazyTally_get l) < length (lt_vec (LazyTally_get l))"
    and "lt_vec (LazyTally_get l) ! lt_it (LazyTally_get l) = tally_at (lt_vec l) (lt_slot l)"
proof -
  define k where "k = LazyTally_initialize_iterator l"
  have k: "lazy_ok k" "lt_vec k = lt_vec l" "lt_slot k = lt_slot l" "lt_initialized k"
    using lazy_init assms by (simp_all add: k_def)
  then have it: "lt_it k = find_slot (lt_slot l) (lt_vec l)" by (simp add: lazy_ok_def)
  have ok: "lazy_ok (LazyTally_get l) \<and> tally_at (lt_vec (LazyTally_get l)) = tally_at (lt_vec l) \<and>
      lt_slot (LazyTally_get l) = lt_slot l \<and> lt_initialized (LazyTally_get l) \<and>
      lt_it (LazyTally_get l) < length (lt_vec (LazyTally_get l)) \<and>
      lt_vec (LazyTally_get l) ! lt_it (LazyTally_get l) = tally_at (lt_vec l) (lt_slot l)"
  proof (cases "lt_it k = length (lt_vec k)")
    case True
    with it k have e: "find_slot (lt_slot l) (lt_vec l) = length (lt_vec l)" by simp
    then have "lt_slot l \<notin> tally_slot ` set (lt_vec l)" by (simp add: find_slot_end_iff)
    with True k e show ?thesis
      unfolding LazyTally_get_def Let_def k_def [symmetric]
      by (auto simp: lazy_ok_def tally_at_new find_slot_append) (simp add: tally_at_def)
  next
    case False
    then have "lt_it k < length (lt_vec l)"
      using it k find_slot_le [of "lt_slot l" "lt_vec l"] by simp
    with False k it show ?thesis
      unfolding LazyTally_get_def Let_def k_def [symmetric]
      by (simp add: tally_at_def)
  qed
  then show "lazy_ok (LazyTally_get l)"
    "tally_at (lt_vec (LazyTally_get l)) = tally_at (lt_vec l)"
    "lt_slot (LazyTally_get l) = lt_slot l"
    "lt_initialized (LazyTally_get l)"
    "lt_it (LazyTally_get l) < length (lt_vec (LazyTally_get l))"
    "lt_vec (LazyTally_get l) ! lt_it (LazyTally_get l) = tally_at (lt_vec l) (lt_slot l)"
    by simp_all
qed

lemma tally_at_slot: "tally_slot (tally_at ts s) = s"
  by (simp add: tally_at_def find_slot_nth Tally_new_def)

lemma lazy_set:
  assumes "lazy_ok l" "lt_initialized l" "lt_it l < length (lt_vec l)" "tally_slot t = lt_slot l"
  shows "lazy_ok (l\<lparr>lt_vec := (lt_vec l)[lt_it l := t]\<rparr>)"
    and "tally_at ((lt_vec l)[lt_it l := t]) = (tally_at (lt_vec l))(lt_slot l := t)"
proof -
  have it: "lt_it l = find_slot (lt_slot l) (lt_vec l)" using assms by (simp add: lazy_ok_def)
  have slot: "tally_slot (lt_vec l ! lt_it l) = lt_slot l"
    using it assms find_slot_nth by metis
  have m: "map tally_slot ((lt_vec l)[lt_it l := t]) = map tally_slot (lt_vec l)"
    using slot assms(4) by (simp add: map_update list_update_id) (metis list_update_id map_update)
  have "find_slot (lt_slot l) ((lt_vec l)[lt_it l := t]) = lt_it l"
    using find_slot_update [of "lt_it l" "lt_vec l" t] assms slot it by simp
  with assms m show "lazy_ok (l\<lparr>lt_vec := (lt_vec l)[lt_it l := t]\<rparr>)"
    by (auto simp: lazy_ok_def dest!: set_update_subset_insert [THEN subsetD])
  show "tally_at ((lt_vec l)[lt_it l := t]) = (tally_at (lt_vec l))(lt_slot l := t)"
    using it assms by (intro tally_at_update) auto
qed

lemma lazy_push:
  assumes "lazy_ok l" and "\<And>t. tally_slot (f t) = tally_slot t"
  shows "lazy_ok (LazyTally_push f l)"
    and "tally_at (lt_vec (LazyTally_push f l)) =
      (tally_at (lt_vec l))(lt_slot l := f (tally_at (lt_vec l) (lt_slot l)))"
  using lazy_get [OF assms(1)] lazy_set [OF lazy_get(1,4,5) [OF assms(1)]] assms(2)
  by (simp_all add: LazyTally_push_def Let_def tally_at_slot)

lemma lazy_shift:
  assumes ok: "lazy_ok l" and slot: "\<And>t. tally_slot (snd (f t)) = tally_slot t"
    and none: "f (Tally_new (lt_slot l)) = (False, Tally_new (lt_slot l))"
  shows "lazy_ok (snd (LazyTally_shift f l))"
    and "tally_at (lt_vec (snd (LazyTally_shift f l))) =
      (tally_at (lt_vec l))(lt_slot l := snd (f (tally_at (lt_vec l) (lt_slot l))))"
    and "fst (LazyTally_shift f l) = fst (f (tally_at (lt_vec l) (lt_slot l)))"
proof -
  define k where "k = LazyTally_initialize_iterator l"
  have k: "lazy_ok k" "lt_vec k = lt_vec l" "lt_slot k = lt_slot l"
    using lazy_init ok by (simp_all add: k_def)
  have "lt_initialized k" by (simp add: k_def lazy_init)
  with k have it: "lt_it k = find_slot (lt_slot l) (lt_vec l)" by (simp add: lazy_ok_def)
  have shift: "LazyTally_shift f l =
      (if lt_it k = length (lt_vec k) then (False, k)
       else (let m = LazyTally_get k; r = f (lt_vec m ! lt_it m)
             in (fst r, m\<lparr>lt_vec := (lt_vec m)[lt_it m := snd r]\<rparr>)))"
    by (simp add: LazyTally_shift_def LazyTally_exists_def Let_def k_def split: prod.splits)
  have res: "lazy_ok (snd (LazyTally_shift f l)) \<and>
      tally_at (lt_vec (snd (LazyTally_shift f l))) =
        (tally_at (lt_vec l))(lt_slot l := snd (f (tally_at (lt_vec l) (lt_slot l)))) \<and>
      fst (LazyTally_shift f l) = fst (f (tally_at (lt_vec l) (lt_slot l)))"
  proof (cases "lt_it k = length (lt_vec k)")
    case True
    then have "tally_at (lt_vec l) (lt_slot l) = Tally_new (lt_slot l)"
      using it k by (simp add: tally_at_def)
    with True k none show ?thesis by (auto simp: shift fun_eq_iff)
  next
    case False
    note g = lazy_get [OF k(1)]
    from False show ?thesis
      using lazy_set [OF g(1,4,5), of "snd (f (tally_at (lt_vec l) (lt_slot l)))"] g k slot
      by (simp add: shift Let_def tally_at_slot)
  qed
  then show "lazy_ok (snd (LazyTally_shift f l))"
    "tally_at (lt_vec (snd (LazyTally_shift f l))) =
      (tally_at (lt_vec l))(lt_slot l := snd (f (tally_at (lt_vec l) (lt_slot l))))"
    "fst (LazyTally_shift f l) = fst (f (tally_at (lt_vec l) (lt_slot l)))"
    by simp_all
qed

lemma lazy_destroy:
  assumes "lazy_ok l"
  shows "tallies_wf (LazyTally_destroy l)"
    and "tally_at (LazyTally_destroy l) = tally_at (lt_vec l)"
proof -
  let ?v = "lt_vec l" and ?i = "lt_it l"
  have "tallies_wf (LazyTally_destroy l) \<and> tally_at (LazyTally_destroy l) = tally_at ?v"
  proof (cases "lt_initialized l \<and> ?i \<noteq> length ?v \<and> Tally_empty (?v ! ?i)")
    case True
    with assms have it: "?i = find_slot (lt_slot l) ?v" by (simp add: lazy_ok_def)
    then have i: "?i < length ?v" using True find_slot_le [of "lt_slot l" ?v] by simp
    have v: "?v = take ?i ?v @ ?v ! ?i # drop (Suc ?i) ?v" using i by (rule id_take_nth_drop)
    define w where "w = take ?i ?v @ drop (Suc ?i) ?v"
    have "distinct (map tally_slot (take ?i ?v @ ?v ! ?i # drop (Suc ?i) ?v))"
      using assms v by (simp add: lazy_ok_def)
    then have d: "distinct (map tally_slot w)" and n: "tally_slot (?v ! ?i) \<notin> tally_slot ` set w"
      by (auto simp: w_def)
    have slot: "tally_slot (?v ! ?i) = lt_slot l" using it i find_slot_nth by metis
    have "\<not> Tally_empty t" if "t \<in> set w" for t
    proof
      assume e: "Tally_empty t"
      have "t \<in> set ?v" using that by (auto simp: w_def dest: in_set_takeD in_set_dropD)
      with e assms have "tally_slot t = lt_slot l" by (simp add: lazy_ok_def)
      with n slot that show False by (metis imageI)
    qed
    with d have "tallies_wf (take ?i ?v @ drop (Suc ?i) ?v)"
      by (simp add: tallies_wf_def w_def)
    moreover have "tally_at (take ?i ?v @ drop (Suc ?i) ?v) = tally_at ?v"
      using assms i True by (intro tally_at_remove) (auto simp: lazy_ok_def)
    ultimately show ?thesis using True by (simp add: LazyTally_destroy_def)
  next
    case False
    have "\<not> Tally_empty t" if t: "t \<in> set ?v" for t
    proof
      assume e: "Tally_empty t"
      with assms t have init: "lt_initialized l" "tally_slot t = lt_slot l"
        and d: "distinct (map tally_slot ?v)" by (auto simp: lazy_ok_def)
      from t obtain j where j: "j < length ?v" "t = ?v ! j" by (auto simp: in_set_conv_nth)
      with d init(2) have "find_slot (lt_slot l) ?v = j" using find_slot_unique by metis
      with assms init(1) have "?i = j" by (simp add: lazy_ok_def)
      with False init e j show False by simp
    qed
    with assms False show ?thesis
      by (auto simp: LazyTally_destroy_def tallies_wf_def lazy_ok_def)
  qed
  then show "tallies_wf (LazyTally_destroy l)" "tally_at (LazyTally_destroy l) = tally_at ?v"
    by simp_all
qed

section \<open>The interface pairs rely on\<close>

text \<open>
  Pairs use three kinds of entries: remote pending sends and receives, and expected send
  notifications. \<open>tally_push\<close> and \<open>tally_shift\<close> are one complete use of a mutator:
  construct it, call one of its functions, destroy it.
\<close>

datatype tally_kind = PendingSend | PendingRecv | ExpectedSend

definition tally_push :: "tally_kind \<Rightarrow> slot_t \<Rightarrow> rank_t \<Rightarrow> TallyState \<Rightarrow> TallyState" where
  "tally_push k slot rank st =
     (let m = Mutator_new st slot rank
      in Mutator_destroy
           (case k of
              PendingSend \<Rightarrow> pushRemotePendingSend m
            | PendingRecv \<Rightarrow> pushRemotePendingRecv m
            | ExpectedSend \<Rightarrow> pushExpectedSendNotification m))"

definition tally_shift :: "tally_kind \<Rightarrow> slot_t \<Rightarrow> rank_t \<Rightarrow> TallyState \<Rightarrow> bool \<times> TallyState" where
  "tally_shift k slot rank st =
     (let m = Mutator_new st slot rank;
          (found, m) =
            (case k of
               PendingSend \<Rightarrow> shiftRemotePendingSend m
             | PendingRecv \<Rightarrow> shiftRemotePendingRecv m
             | ExpectedSend \<Rightarrow> shiftExpectedSendNotification m)
      in (found, Mutator_destroy m))"

definition tally_ranks :: "tally_kind \<Rightarrow> TallyState \<Rightarrow> slot_t \<Rightarrow> rank_t list" where
  "tally_ranks k st slot =
     (case k of
        PendingSend \<Rightarrow> sends_of (pendingOperations st) slot
      | PendingRecv \<Rightarrow> recvs_of (pendingOperations st) slot
      | ExpectedSend \<Rightarrow> sends_of (expectedNotifications st) slot)"

definition TallyState_wf :: "TallyState \<Rightarrow> bool" where
  "TallyState_wf st \<longleftrightarrow> tallies_wf (pendingOperations st) \<and> tallies_wf (expectedNotifications st)"

text \<open>
  The contract: ranks queue up per kind and slot, a shift finds a rank iff it is queued and
  removes its first occurrence, and neither touches another kind or slot.
\<close>

locale rank_tally =
  fixes ok :: "'s \<Rightarrow> bool"
    and ranks :: "tally_kind \<Rightarrow> 's \<Rightarrow> slot_t \<Rightarrow> rank_t list"
    and push :: "tally_kind \<Rightarrow> slot_t \<Rightarrow> rank_t \<Rightarrow> 's \<Rightarrow> 's"
    and shift :: "tally_kind \<Rightarrow> slot_t \<Rightarrow> rank_t \<Rightarrow> 's \<Rightarrow> bool \<times> 's"
  assumes ok_push: "ok st \<Longrightarrow> ok (push k s r st)"
    and ok_shift: "ok st \<Longrightarrow> ok (snd (shift k s r st))"
    and ranks_push: "ok st \<Longrightarrow> ranks k' (push k s r st) s' =
          (if k' = k \<and> s' = s then ranks k' st s' @ [r] else ranks k' st s')"
    and shift_found: "ok st \<Longrightarrow> fst (shift k s r st) \<longleftrightarrow> r \<in> set (ranks k st s)"
    and ranks_shift: "ok st \<Longrightarrow> ranks k' (snd (shift k s r st)) s' =
          (if k' = k \<and> s' = s then remove1 r (ranks k' st s') else ranks k' st s')"
begin

lemma count_push:
  "ok st \<Longrightarrow> count_list (ranks k' (push k s r st) s') r' =
     count_list (ranks k' st s') r' + (if k' = k \<and> s' = s \<and> r' = r then 1 else 0)"
  by (simp add: ranks_push)

lemma shift_found_count: "ok st \<Longrightarrow> fst (shift k s r st) \<longleftrightarrow> 0 < count_list (ranks k st s) r"
  by (simp add: shift_found count_list_0_iff flip: neq0_conv)

lemma count_shift:
  "ok st \<Longrightarrow> count_list (ranks k' (snd (shift k s r st)) s') r' =
     count_list (ranks k' st s') r' -
       (if k' = k \<and> s' = s \<and> r' = r \<and> fst (shift k s r st) then 1 else 0)"
proof -
  have remove: "count_list (remove1 r xs) r' = count_list xs r' - (if r' = r then 1 else 0)"
    for xs :: "nat list"
    by (induction xs) (auto simp: count_list_0_iff)
  assume "ok st"
  then show ?thesis
    by (auto simp: ranks_shift shift_found remove count_list_0_iff)
qed

text \<open>Nothing is lost or invented: a shift right after a push of the same rank succeeds.\<close>

lemma shift_after_push: "ok st \<Longrightarrow> fst (shift k s r (push k s r st))"
  by (simp add: shift_found ok_push ranks_push)

text \<open>A rank that is not at the front keeps its place behind those that were queued first.\<close>

lemma shift_push_order:
  "ok st \<Longrightarrow> r \<in> set (ranks k st s) \<Longrightarrow>
   ranks k (snd (shift k s r (push k s r' st))) s = remove1 r (ranks k st s) @ [r']"
  by (simp add: ranks_shift ok_push ranks_push remove1_append)

end

lemma shift_List: "Tally_shiftSend r t = (r \<in> set (tally_send t), t\<lparr>tally_send := remove1 r (tally_send t)\<rparr>)"
  "Tally_shiftRecv r t = (r \<in> set (tally_recv t), t\<lparr>tally_recv := remove1 r (tally_recv t)\<rparr>)"
  by (simp_all add: Tally_shiftSend_def Tally_shiftRecv_def List_shift_eq)

lemma shift_List_new: "Tally_shiftSend r (Tally_new s) = (False, Tally_new s)"
  "Tally_shiftRecv r (Tally_new s) = (False, Tally_new s)"
  by (simp_all add: shift_List Tally_new_def)

lemma shift_List_sel:
  "fst (Tally_shiftSend r t) = (r \<in> set (tally_send t))"
  "snd (Tally_shiftSend r t) = t\<lparr>tally_send := remove1 r (tally_send t)\<rparr>"
  "fst (Tally_shiftRecv r t) = (r \<in> set (tally_recv t))"
  "snd (Tally_shiftRecv r t) = t\<lparr>tally_recv := remove1 r (tally_recv t)\<rparr>"
  by (simp_all add: shift_List)

lemma lazy_unused: "LazyTally_destroy (LazyTally_new ts s) = ts"
  by (simp add: LazyTally_destroy_def LazyTally_new_def)

lemma lazy_slots [simp]: "lt_slot (LazyTally_new ts s) = s" "lt_vec (LazyTally_new ts s) = ts"
  by (simp_all add: LazyTally_new_def)

text \<open>One push, and one shift, on a lazy tally followed by its destruction.\<close>

lemma lazy_push_session:
  assumes "tallies_wf ts" "\<And>t. tally_slot (f t) = tally_slot t"
  shows "tallies_wf (LazyTally_destroy (LazyTally_push f (LazyTally_new ts s)))"
    and "tally_at (LazyTally_destroy (LazyTally_push f (LazyTally_new ts s))) =
      (tally_at ts)(s := f (tally_at ts s))"
  using lazy_destroy lazy_push [OF lazy_ok_new [OF assms(1)], where f = f] assms(2) by simp_all

lemma lazy_shift_session:
  assumes "tallies_wf ts" "\<And>t. tally_slot (snd (f t)) = tally_slot t" "f (Tally_new s) = (False, Tally_new s)"
  shows "tallies_wf (LazyTally_destroy (snd (LazyTally_shift f (LazyTally_new ts s))))"
    and "tally_at (LazyTally_destroy (snd (LazyTally_shift f (LazyTally_new ts s)))) =
      (tally_at ts)(s := snd (f (tally_at ts s)))"
    and "fst (LazyTally_shift f (LazyTally_new ts s)) = fst (f (tally_at ts s))"
  using lazy_destroy lazy_shift [OF lazy_ok_new [OF assms(1)], where f = f] assms(2,3)
  by simp_all

lemmas mutator_defs = Mutator_new_def Mutator_destroy_def pushRemotePendingRecv_def
  pushRemotePendingSend_def shiftRemotePendingRecv_def shiftRemotePendingSend_def
  pushExpectedSendNotification_def shiftExpectedSendNotification_def

lemmas tally_push_simps = Tally_pushSend_def Tally_pushRecv_def List_push_def

lemma tally_shift_simps:
  "tally_shift PendingSend s r st =
     (let x = LazyTally_shift (Tally_shiftSend r) (LazyTally_new (pendingOperations st) s)
      in (fst x, st\<lparr>pendingOperations := LazyTally_destroy (snd x)\<rparr>))"
  "tally_shift PendingRecv s r st =
     (let x = LazyTally_shift (Tally_shiftRecv r) (LazyTally_new (pendingOperations st) s)
      in (fst x, st\<lparr>pendingOperations := LazyTally_destroy (snd x)\<rparr>))"
  "tally_shift ExpectedSend s r st =
     (let x = LazyTally_shift (Tally_shiftSend r) (LazyTally_new (expectedNotifications st) s)
      in (fst x, st\<lparr>expectedNotifications := LazyTally_destroy (snd x)\<rparr>))"
  by (simp_all add: tally_shift_def Let_def mutator_defs lazy_unused case_prod_beta)

lemma tally_push_eqs:
  "tally_push PendingSend s r st = st\<lparr>pendingOperations :=
     LazyTally_destroy (LazyTally_push (Tally_pushSend r) (LazyTally_new (pendingOperations st) s))\<rparr>"
  "tally_push PendingRecv s r st = st\<lparr>pendingOperations :=
     LazyTally_destroy (LazyTally_push (Tally_pushRecv r) (LazyTally_new (pendingOperations st) s))\<rparr>"
  "tally_push ExpectedSend s r st = st\<lparr>expectedNotifications :=
     LazyTally_destroy (LazyTally_push (Tally_pushSend r) (LazyTally_new (expectedNotifications st) s))\<rparr>"
  by (simp_all add: tally_push_def Let_def mutator_defs lazy_unused)

lemmas tally_session_simps = tally_shift_simps tally_push_eqs Let_def TallyState_wf_def
  lazy_push_session lazy_shift_session shift_List_new tally_push_simps shift_List_sel
  tally_ranks_def sends_of_def recvs_of_def

interpretation mt: rank_tally TallyState_wf tally_ranks tally_push tally_shift
proof (unfold_locales, goal_cases)
  case (1 st k s r)
  then show ?case by (cases k) (simp_all add: tally_session_simps)
next
  case (2 st k s r)
  then show ?case by (cases k) (simp_all add: tally_session_simps)
next
  case (3 st k' k s r s')
  then show ?case by (cases k; cases k') (simp_all add: tally_session_simps)
next
  case (4 st k s r)
  then show ?case by (cases k) (simp_all add: tally_session_simps)
next
  case (5 st k' k s r s')
  then show ?case by (cases k; cases k') (simp_all add: tally_session_simps)
qed

end
