(* ===== verification/Gloo_Pair.thy ===== *)
theory Gloo_Pair
  imports Gloo_Tally
begin

text \<open>
  The rendezvous protocol of \<open>gloo/transport/tcp/pair.cc\<close> and the receive-from-any
  arbitration of \<open>gloo/transport/tcp/context.cc\<close>. A sender announces a send with
  \<open>NOTIFY_SEND_READY\<close>, a receiver announces a receive with \<open>NOTIFY_RECV_READY\<close>, and the
  payload travels as \<open>SEND_UNBOUND_BUFFER\<close> once the sender knows of a receive. Operations
  that have been written to the socket and not yet been read by the peer are kept in
  \<open>p_sock\<close>, in the order in which the socket delivers them; operations waiting for the
  socket to become writable are in \<open>p_tx\<close>, as in the code.
\<close>

section \<open>Operations and state\<close>

datatype Opcode = SEND_BUFFER | SEND_UNBOUND_BUFFER | NOTIFY_SEND_READY | NOTIFY_RECV_READY

text \<open>A buffer, a byte offset and a byte count: \<open>UnboundBufferOp\<close>.\<close>

record UnboundBufferOp =
  uo_buf :: nat
  uo_offset :: nat
  uo_nbytes :: nat

record Op =
  pre_nbytes :: nat
  pre_opcode :: Opcode
  pre_slot :: slot_t
  pre_offset :: nat
  pre_length :: nat
  pre_roffset :: nat
  op_buf :: "nat option"
  op_ubuf :: "nat option"
  op_nread :: nat
  op_nwritten :: nat
  op_offset :: nat
  op_nbytes :: nat

definition preamble_size :: nat where
  "preamble_size = 48"

datatype pair_state = INITIALIZING | CONNECTING | CONNECTED | CLOSED

record Pair =
  p_rank :: rank_t
  p_state :: pair_state
  p_sync :: bool
  p_ex :: "gloo_error option"
  localPendingSend :: "slot_t \<rightharpoonup> UnboundBufferOp list"
  localPendingRecv :: "slot_t \<rightharpoonup> UnboundBufferOp list"
  p_tx :: "Op list"
  p_sock :: "Op list"

text \<open>A receive-from-any that waits for a sender: the buffer region and the eligible ranks.\<close>

record PendingRecv =
  pr_op :: UnboundBufferOp
  pr_ranks :: "rank_t list"

record Context =
  ctx_tallies :: TallyState
  pendingRecv :: "slot_t \<rightharpoonup> PendingRecv list"

section \<open>Sending operations to the peer\<close>

definition throwIfException :: "Pair \<Rightarrow> 'a result \<Rightarrow> 'a result" where
  "throwIfException p k = (case p_ex p of Some e \<Rightarrow> Inl e | None \<Rightarrow> k)"

text \<open>
  \<open>sendAsyncMode\<close>. The parameter \<open>written\<close> tells whether the attempt to write in place
  transferred the whole operation to the socket.
\<close>

definition sendAsyncMode :: "bool \<Rightarrow> Op \<Rightarrow> Pair \<Rightarrow> Pair result" where
  "sendAsyncMode written op p =
     enforce (\<not> p_sync p)
       (if p_tx p \<noteq> [] then Inr (p\<lparr>p_tx := p_tx p @ [op]\<rparr>)
        else if written then Inr (p\<lparr>p_sock := p_sock p @ [op]\<rparr>)
        else throwIfException p (Inr (p\<lparr>p_tx := p_tx p @ [op]\<rparr>)))"

definition Op_new :: Op where
  "Op_new =
     \<lparr>pre_nbytes = 0, pre_opcode = SEND_BUFFER, pre_slot = 0, pre_offset = 0, pre_length = 0,
      pre_roffset = 0, op_buf = None, op_ubuf = None, op_nread = 0, op_nwritten = 0, op_offset = 0, op_nbytes = 0\<rparr>"

definition sendUnboundBuffer :: "bool \<Rightarrow> nat \<Rightarrow> slot_t \<Rightarrow> nat \<Rightarrow> nat \<Rightarrow> Pair \<Rightarrow> Pair result" where
  "sendUnboundBuffer written buf slot offset nbytes p =
     sendAsyncMode written
       (Op_new\<lparr>pre_nbytes := preamble_size + nbytes, pre_opcode := SEND_UNBOUND_BUFFER,
               pre_slot := slot, pre_length := nbytes, op_ubuf := Some buf,
               op_offset := offset, op_nbytes := nbytes\<rparr>) p"

definition sendNotifyRecvReady :: "bool \<Rightarrow> slot_t \<Rightarrow> nat \<Rightarrow> Pair \<Rightarrow> Pair result" where
  "sendNotifyRecvReady written slot nbytes p =
     sendAsyncMode written
       (Op_new\<lparr>pre_nbytes := preamble_size, pre_opcode := NOTIFY_RECV_READY,
               pre_slot := slot, pre_length := nbytes\<rparr>) p"

definition sendNotifySendReady :: "bool \<Rightarrow> slot_t \<Rightarrow> nat \<Rightarrow> Pair \<Rightarrow> Pair result" where
  "sendNotifySendReady written slot nbytes p =
     sendAsyncMode written
       (Op_new\<lparr>pre_nbytes := preamble_size, pre_opcode := NOTIFY_SEND_READY,
               pre_slot := slot, pre_length := nbytes\<rparr>) p"

section \<open>Queues per slot\<close>

definition queue_of :: "(slot_t \<rightharpoonup> 'a list) \<Rightarrow> slot_t \<Rightarrow> 'a list" where
  "queue_of m slot = (case m slot of None \<Rightarrow> [] | Some xs \<Rightarrow> xs)"

text \<open>\<open>map[slot].push_back(x)\<close>, which creates the deque if it is missing.\<close>

definition queue_push :: "slot_t \<Rightarrow> 'a \<Rightarrow> (slot_t \<rightharpoonup> 'a list) \<Rightarrow> (slot_t \<rightharpoonup> 'a list)" where
  "queue_push slot x m = m(slot \<mapsto> queue_of m slot @ [x])"

text \<open>Pop the front of a deque that was found and erase the entry when it becomes empty.\<close>

definition queue_pop :: "slot_t \<Rightarrow> 'a list \<Rightarrow> (slot_t \<rightharpoonup> 'a list) \<Rightarrow> ('a \<times> (slot_t \<rightharpoonup> 'a list)) result" where
  "queue_pop slot queue m =
     (case queue of
        [] \<Rightarrow> Inl EnforceNotMet
      | x # rest \<Rightarrow> Inr (x, if rest = [] then m(slot := None) else m(slot \<mapsto> rest)))"

section \<open>User operations\<close>

definition in_bounds :: "nat \<Rightarrow> nat \<Rightarrow> nat \<Rightarrow> bool" where
  "in_bounds tsize offset nbytes \<longleftrightarrow> (nbytes > 0 \<longrightarrow> offset \<le> tsize \<and> nbytes \<le> tsize - offset)"

text \<open>
  \<open>Pair::send\<close> from an unbound buffer of \<open>tsize\<close> bytes. The two booleans are the outcomes of
  the at most two writes it attempts.
\<close>

definition Pair_send :: "bool \<times> bool \<Rightarrow> nat \<Rightarrow> nat \<Rightarrow> slot_t \<Rightarrow> nat \<Rightarrow> nat \<Rightarrow> Context \<times> Pair \<Rightarrow> (Context \<times> Pair) result" where
  "Pair_send ws tbuf tsize slot offset nbytes cp =
     (let (ctx, p) = cp in
      enforce (in_bounds tsize offset nbytes)
        (throwIfException p
          (let mutator = Mutator_new (ctx_tallies ctx) slot (p_rank p);
               (found, mutator) = shiftRemotePendingRecv mutator;
               ctx = ctx\<lparr>ctx_tallies := Mutator_destroy mutator\<rparr>
           in if found then
                rbind (sendNotifySendReady (fst ws) slot nbytes p)
                  (\<lambda>p. rbind (sendUnboundBuffer (snd ws) tbuf slot offset nbytes p)
                    (\<lambda>p. Inr (ctx, p)))
              else
                (let op = \<lparr>uo_buf = tbuf, uo_offset = offset, uo_nbytes = nbytes\<rparr>;
                     p = p\<lparr>localPendingSend := queue_push slot op (localPendingSend p)\<rparr>
                 in rbind (sendNotifySendReady (fst ws) slot nbytes p) (\<lambda>p. Inr (ctx, p))))))"

definition Pair_recv :: "bool \<Rightarrow> nat \<Rightarrow> nat \<Rightarrow> slot_t \<Rightarrow> nat \<Rightarrow> nat \<Rightarrow> Context \<times> Pair \<Rightarrow> (Context \<times> Pair) result" where
  "Pair_recv w tbuf tsize slot offset nbytes cp =
     (let (ctx, p) = cp in
      enforce (in_bounds tsize offset nbytes)
        (throwIfException p
          (let mutator = Mutator_new (ctx_tallies ctx) slot (p_rank p);
               (found, mutator) = shiftRemotePendingSend mutator;
               mutator = (if \<not> found then pushExpectedSendNotification mutator else mutator);
               ctx = ctx\<lparr>ctx_tallies := Mutator_destroy mutator\<rparr>;
               op = \<lparr>uo_buf = tbuf, uo_offset = offset, uo_nbytes = nbytes\<rparr>;
               p = p\<lparr>localPendingRecv := queue_push slot op (localPendingRecv p)\<rparr>
           in rbind (sendNotifyRecvReady w slot nbytes p) (\<lambda>p. Inr (ctx, p)))))"

definition Pair_tryRecv :: "bool \<Rightarrow> nat \<Rightarrow> nat \<Rightarrow> slot_t \<Rightarrow> nat \<Rightarrow> nat \<Rightarrow> Context \<times> Pair \<Rightarrow> (bool \<times> Context \<times> Pair) result" where
  "Pair_tryRecv w tbuf tsize slot offset nbytes cp =
     (let (ctx, p) = cp in
      enforce (in_bounds tsize offset nbytes)
        (throwIfException p
          (let mutator = Mutator_new (ctx_tallies ctx) slot (p_rank p);
               (found, mutator) = shiftRemotePendingSend mutator;
               ctx = ctx\<lparr>ctx_tallies := Mutator_destroy mutator\<rparr>
           in if \<not> found then Inr (False, ctx, p)
              else
                (let op = \<lparr>uo_buf = tbuf, uo_offset = offset, uo_nbytes = nbytes\<rparr>;
                     p = p\<lparr>localPendingRecv := queue_push slot op (localPendingRecv p)\<rparr>
                 in rbind (sendNotifyRecvReady w slot nbytes p) (\<lambda>p. Inr (True, ctx, p))))))"

section \<open>Receive from any\<close>

text \<open>
  \<open>recvFromAnyFindRank\<close>: the first rank with a remote pending send on the slot that is
  eligible; otherwise the buffer is registered and the result is \<open>None\<close> (-1 in the code).
\<close>

fun first_eligible :: "rank_t list \<Rightarrow> rank_t list \<Rightarrow> rank_t option" where
  "first_eligible [] srcRanks = None"
| "first_eligible (rank # rs) srcRanks =
     (if rank \<in> set srcRanks then Some rank else first_eligible rs srcRanks)"

definition recvFromAnyFindRank :: "UnboundBufferOp \<Rightarrow> slot_t \<Rightarrow> rank_t list \<Rightarrow> Context \<Rightarrow> rank_t option \<times> Context" where
  "recvFromAnyFindRank op slot srcRanks ctx =
     (let it = findPendingOperations (ctx_tallies ctx) slot;
          pending = pendingOperations (ctx_tallies ctx);
          candidate =
            (if it \<noteq> length pending then first_eligible (tally_send (pending ! it)) srcRanks
             else None)
      in case candidate of
           Some rank \<Rightarrow> (Some rank, ctx)
         | None \<Rightarrow>
             (None, ctx\<lparr>pendingRecv :=
                queue_push slot \<lparr>pr_op = op, pr_ranks = srcRanks\<rparr> (pendingRecv ctx)\<rparr>))"

text \<open>\<open>findRecvFromAny\<close>: the first registered receive that accepts the rank is taken out.\<close>

fun take_eligible :: "rank_t \<Rightarrow> PendingRecv list \<Rightarrow> (UnboundBufferOp \<times> PendingRecv list) option" where
  "take_eligible rank [] = None"
| "take_eligible rank (r # rs) =
     (if rank \<in> set (pr_ranks r) then Some (pr_op r, rs)
      else map_option (\<lambda>(op, rs'). (op, r # rs')) (take_eligible rank rs))"

definition findRecvFromAny :: "slot_t \<Rightarrow> rank_t \<Rightarrow> Context \<Rightarrow> (UnboundBufferOp \<times> Context) option" where
  "findRecvFromAny slot rank ctx =
     (case pendingRecv ctx slot of
        None \<Rightarrow> None
      | Some recvs \<Rightarrow>
          (case take_eligible rank recvs of
             None \<Rightarrow> None
           | Some (op, recvs') \<Rightarrow>
               Some (op, ctx\<lparr>pendingRecv :=
                 (if recvs' = [] then (pendingRecv ctx)(slot := None)
                  else (pendingRecv ctx)(slot \<mapsto> recvs'))\<rparr>)))"

section \<open>Handling operations from the peer\<close>

definition handleRemotePendingSend :: "bool \<Rightarrow> Op \<Rightarrow> Context \<times> Pair \<Rightarrow> (Context \<times> Pair) result" where
  "handleRemotePendingSend w op cp =
     (let (ctx, p) = cp;
          slot = pre_slot op;
          mutator = Mutator_new (ctx_tallies ctx) slot (p_rank p);
          (found, mutator) = shiftExpectedSendNotification mutator
      in if found then Inr (ctx\<lparr>ctx_tallies := Mutator_destroy mutator\<rparr>, p)
         else
           (case findRecvFromAny slot (p_rank p) ctx of
              Some (r, ctx) \<Rightarrow>
                (let p = p\<lparr>localPendingRecv := queue_push slot r (localPendingRecv p)\<rparr>
                 in rbind (sendNotifyRecvReady w slot (uo_nbytes r) p)
                      (\<lambda>p. Inr (ctx\<lparr>ctx_tallies := Mutator_destroy mutator\<rparr>, p)))
            | None \<Rightarrow>
                (let mutator = pushRemotePendingSend mutator
                 in Inr (ctx\<lparr>ctx_tallies := Mutator_destroy mutator\<rparr>, p))))"

definition handleRemotePendingRecv :: "bool \<Rightarrow> Op \<Rightarrow> Context \<times> Pair \<Rightarrow> (Context \<times> Pair) result" where
  "handleRemotePendingRecv w op cp =
     (let (ctx, p) = cp;
          slot = pre_slot op
      in case localPendingSend p slot of
           Some queue \<Rightarrow>
             rbind (queue_pop slot queue (localPendingSend p))
               (\<lambda>(x, m).
                  rbind (sendUnboundBuffer w (uo_buf x) slot (uo_offset x) (uo_nbytes x)
                           (p\<lparr>localPendingSend := m\<rparr>))
                    (\<lambda>p. Inr (ctx, p)))
         | None \<Rightarrow>
             (let mutator = Mutator_new (ctx_tallies ctx) slot (p_rank p);
                  mutator = pushRemotePendingRecv mutator
              in Inr (ctx\<lparr>ctx_tallies := Mutator_destroy mutator\<rparr>, p)))"

text \<open>
  The unbound branch of \<open>prepareRead\<close>: the payload goes to the oldest posted receive of
  the slot, which must exist and be long enough.
\<close>

definition prepareRead_unbound :: "Op \<Rightarrow> Pair \<Rightarrow> (UnboundBufferOp \<times> Pair) result" where
  "prepareRead_unbound op p =
     (case localPendingRecv p (pre_slot op) of
        None \<Rightarrow> Inl EnforceNotMet
      | Some queue \<Rightarrow>
          rbind (queue_pop (pre_slot op) queue (localPendingRecv p))
            (\<lambda>(r, m). enforce (pre_length op \<le> uo_nbytes r) (Inr (r, p\<lparr>localPendingRecv := m\<rparr>))))"

text \<open>
  Reading one complete operation: the payload of a \<open>SEND_UNBOUND_BUFFER\<close> completes a posted
  receive, and the notifications go to their handlers. \<open>SEND_BUFFER\<close> belongs to bound
  buffers, which the rendezvous protocol never uses.
\<close>

definition readOp :: "bool \<Rightarrow> Op \<Rightarrow> Context \<times> Pair \<Rightarrow> (UnboundBufferOp option \<times> Context \<times> Pair) result" where
  "readOp w op cp =
     (case pre_opcode op of
        SEND_UNBOUND_BUFFER \<Rightarrow>
          rbind (prepareRead_unbound op (snd cp)) (\<lambda>(r, p). Inr (Some r, fst cp, p))
      | NOTIFY_SEND_READY \<Rightarrow> rbind (handleRemotePendingSend w op cp) (\<lambda>(ctx, p). Inr (None, ctx, p))
      | NOTIFY_RECV_READY \<Rightarrow> rbind (handleRemotePendingRecv w op cp) (\<lambda>(ctx, p). Inr (None, ctx, p))
      | SEND_BUFFER \<Rightarrow> Inl UndefinedBehavior)"

end
