(* ===== verification/Gloo_Pair_Spec.thy ===== *)
theory Gloo_Pair_Spec
  imports Gloo_Pair
begin

text \<open>
  What one end of a connection amounts to, as far as the rendezvous protocol is concerned:
  the abstract state \<open>LView\<close> forgets the tally vectors, the mutators and the split of the
  outgoing operations between transmit queue and socket. Every operation of the pair is
  shown to implement its specification on that state, and to leave the abstract states of
  the other pairs of the same context alone.
\<close>

section \<open>Abstract state and specification\<close>

record LView =
  lv_ps :: "slot_t \<Rightarrow> UnboundBufferOp list"
  lv_pr :: "slot_t \<Rightarrow> UnboundBufferOp list"
  lv_rpr :: "slot_t \<Rightarrow> nat"
  lv_rps :: "slot_t \<Rightarrow> nat"
  lv_exp :: "slot_t \<Rightarrow> nat"
  lv_out :: "Op list"

definition lview :: "Context \<times> Pair \<Rightarrow> LView" where
  "lview cp =
     (let (ctx, p) = cp;
          cnt = (\<lambda>k s. count_list (tally_ranks k (ctx_tallies ctx) s) (p_rank p))
      in \<lparr>lv_ps = queue_of (localPendingSend p), lv_pr = queue_of (localPendingRecv p),
          lv_rpr = cnt PendingRecv, lv_rps = cnt PendingSend, lv_exp = cnt ExpectedSend,
          lv_out = p_sock p @ p_tx p\<rparr>)"

definition op_data :: "slot_t \<Rightarrow> UnboundBufferOp \<Rightarrow> Op" where
  "op_data s u =
     Op_new\<lparr>pre_nbytes := preamble_size + uo_nbytes u, pre_opcode := SEND_UNBOUND_BUFFER,
            pre_slot := s, pre_length := uo_nbytes u, op_ubuf := Some (uo_buf u),
            op_offset := uo_offset u, op_nbytes := uo_nbytes u\<rparr>"

definition op_send_ready :: "slot_t \<Rightarrow> nat \<Rightarrow> Op" where
  "op_send_ready s n =
     Op_new\<lparr>pre_nbytes := preamble_size, pre_opcode := NOTIFY_SEND_READY, pre_slot := s, pre_length := n\<rparr>"

definition op_recv_ready :: "slot_t \<Rightarrow> nat \<Rightarrow> Op" where
  "op_recv_ready s n =
     Op_new\<lparr>pre_nbytes := preamble_size, pre_opcode := NOTIFY_RECV_READY, pre_slot := s, pre_length := n\<rparr>"

definition spec_send :: "slot_t \<Rightarrow> UnboundBufferOp \<Rightarrow> LView \<Rightarrow> LView" where
  "spec_send s u v =
     (if 0 < lv_rpr v s
      then v\<lparr>lv_rpr := (lv_rpr v)(s := lv_rpr v s - 1),
             lv_out := lv_out v @ [op_send_ready s (uo_nbytes u), op_data s u]\<rparr>
      else v\<lparr>lv_ps := (lv_ps v)(s := lv_ps v s @ [u]),
             lv_out := lv_out v @ [op_send_ready s (uo_nbytes u)]\<rparr>)"

definition spec_post :: "slot_t \<Rightarrow> UnboundBufferOp \<Rightarrow> LView \<Rightarrow> LView" where
  "spec_post s u v =
     v\<lparr>lv_pr := (lv_pr v)(s := lv_pr v s @ [u]),
       lv_out := lv_out v @ [op_recv_ready s (uo_nbytes u)]\<rparr>"

definition spec_recv :: "slot_t \<Rightarrow> UnboundBufferOp \<Rightarrow> LView \<Rightarrow> LView" where
  "spec_recv s u v =
     spec_post s u
       (if 0 < lv_rps v s then v\<lparr>lv_rps := (lv_rps v)(s := lv_rps v s - 1)\<rparr>
        else v\<lparr>lv_exp := (lv_exp v)(s := Suc (lv_exp v s))\<rparr>)"

definition spec_on_send_ready :: "slot_t \<Rightarrow> UnboundBufferOp option \<Rightarrow> LView \<Rightarrow> LView" where
  "spec_on_send_ready s any v =
     (if 0 < lv_exp v s then v\<lparr>lv_exp := (lv_exp v)(s := lv_exp v s - 1)\<rparr>
      else case any of
             Some u \<Rightarrow> spec_post s u v
           | None \<Rightarrow> v\<lparr>lv_rps := (lv_rps v)(s := Suc (lv_rps v s))\<rparr>)"

definition spec_on_recv_ready :: "slot_t \<Rightarrow> LView \<Rightarrow> LView" where
  "spec_on_recv_ready s v =
     (case lv_ps v s of
        [] \<Rightarrow> v\<lparr>lv_rpr := (lv_rpr v)(s := Suc (lv_rpr v s))\<rparr>
      | u # us \<Rightarrow> v\<lparr>lv_ps := (lv_ps v)(s := us), lv_out := lv_out v @ [op_data s u]\<rparr>)"

section \<open>Well-formed ends\<close>

definition queues_ok :: "(slot_t \<rightharpoonup> 'a list) \<Rightarrow> bool" where
  "queues_ok m \<longleftrightarrow> (\<forall>s. m s \<noteq> Some [])"

definition end_ok :: "Context \<times> Pair \<Rightarrow> bool" where
  "end_ok cp \<longleftrightarrow>
     TallyState_wf (ctx_tallies (fst cp)) \<and>
     queues_ok (localPendingSend (snd cp)) \<and> queues_ok (localPendingRecv (snd cp))"

text \<open>
  The relation every operation establishes between an end before and after it: the abstract
  state changes as specified, the end stays well formed and keeps its peer, and no other
  pair of the context sees a difference.
\<close>

definition implements :: "Context \<times> Pair \<Rightarrow> Context \<times> Pair \<Rightarrow> (LView \<Rightarrow> LView) \<Rightarrow> bool" where
  "implements cp cp' f \<longleftrightarrow>
     end_ok cp' \<and> p_rank (snd cp') = p_rank (snd cp) \<and> p_sync (snd cp') = p_sync (snd cp) \<and>
     p_ex (snd cp') = p_ex (snd cp) \<and> lview cp' = f (lview cp) \<and>
     (\<forall>q. p_rank q \<noteq> p_rank (snd cp) \<longrightarrow> lview (fst cp', q) = lview (fst cp, q))"

lemma queue_of_push: "queue_of (queue_push s x m) = (queue_of m)(s := queue_of m s @ [x])"
  by (auto simp: queue_of_def queue_push_def)

lemma queues_ok_push: "queues_ok m \<Longrightarrow> queues_ok (queue_push s x m)"
  by (auto simp: queues_ok_def queue_push_def)

lemma queue_pop_Inr:
  assumes "m s = Some xs" and "queue_pop s xs m = Inr (x, m')" and "queues_ok m"
  shows "queue_of m s = x # queue_of m' s"
    and "queue_of m' = (queue_of m)(s := tl (queue_of m s))" and "queues_ok m'"
proof -
  obtain rest where xs: "xs = x # rest"
    and m': "m' = (if rest = [] then m(s := None) else m(s \<mapsto> rest))"
    using assms(2) by (auto simp: queue_pop_def split: list.splits)
  show "queue_of m s = x # queue_of m' s" "queue_of m' = (queue_of m)(s := tl (queue_of m s))"
    using assms(1) by (auto simp: xs m' queue_of_def fun_eq_iff)
  show "queues_ok m'" using assms(3) by (auto simp: m' queues_ok_def)
qed

lemma sendAsyncMode_Inr:
  assumes "sendAsyncMode w op p = Inr p'"
  shows "\<exists>sock tx. p' = p\<lparr>p_sock := sock, p_tx := tx\<rparr> \<and> sock @ tx = p_sock p @ p_tx p @ [op]"
  using assms
  by (auto simp: sendAsyncMode_def enforce_Inr_conv throwIfException_def split: if_splits option.splits)
    (metis Pair.surjective Pair.update_convs(7,8) append_Nil append_Nil2 append_assoc)+

lemma throwIfException_Inr: "throwIfException p k = Inr x \<longleftrightarrow> p_ex p = None \<and> k = Inr x"
  by (auto simp: throwIfException_def split: option.splits)

section \<open>Mutator sessions in terms of the tally interface\<close>

lemma session_shift:
  "fst (shiftRemotePendingRecv (Mutator_new t s r)) = fst (tally_shift PendingRecv s r t)"
  "Mutator_destroy (snd (shiftRemotePendingRecv (Mutator_new t s r))) = snd (tally_shift PendingRecv s r t)"
  "fst (shiftRemotePendingSend (Mutator_new t s r)) = fst (tally_shift PendingSend s r t)"
  "Mutator_destroy (snd (shiftRemotePendingSend (Mutator_new t s r))) = snd (tally_shift PendingSend s r t)"
  "fst (shiftExpectedSendNotification (Mutator_new t s r)) = fst (tally_shift ExpectedSend s r t)"
  "Mutator_destroy (snd (shiftExpectedSendNotification (Mutator_new t s r))) = snd (tally_shift ExpectedSend s r t)"
  by (simp_all add: tally_shift_def Let_def case_prod_beta)

lemma session_two:
  "Mutator_destroy (pushExpectedSendNotification (snd (shiftRemotePendingSend (Mutator_new t s r)))) =
     tally_push ExpectedSend s r (snd (tally_shift PendingSend s r t))"
  "Mutator_destroy (pushRemotePendingSend (snd (shiftExpectedSendNotification (Mutator_new t s r)))) =
     tally_push PendingSend s r (snd (tally_shift ExpectedSend s r t))"
  "Mutator_destroy (pushRemotePendingRecv (Mutator_new t s r)) = tally_push PendingRecv s r t"
  by (simp_all add: tally_shift_simps tally_push_eqs mutator_defs Let_def case_prod_beta lazy_unused)

lemmas lview_simps = lview_def Let_def mt.count_push mt.count_shift mt.ok_push mt.ok_shift
  mt.shift_found_count queue_of_push fun_eq_iff

section \<open>The operations implement their specifications\<close>

lemma end_okD: "end_ok (ctx, p) \<Longrightarrow> TallyState_wf (ctx_tallies ctx)"
  "end_ok (ctx, p) \<Longrightarrow> queues_ok (localPendingSend p)"
  "end_ok (ctx, p) \<Longrightarrow> queues_ok (localPendingRecv p)"
  by (simp_all add: end_ok_def)

lemma Pair_send_implements:
  assumes ok: "end_ok cp" and run: "Pair_send ws b sz s off n cp = Inr cp'"
  shows "implements cp cp' (spec_send s \<lparr>uo_buf = b, uo_offset = off, uo_nbytes = n\<rparr>)"
proof -
  obtain ctx p where cp: "cp = (ctx, p)" by (cases cp)
  note wf = end_okD [OF ok [unfolded cp]]
  let ?t = "ctx_tallies ctx" and ?u = "\<lparr>uo_buf = b, uo_offset = off, uo_nbytes = n\<rparr>"
  let ?sh = "tally_shift PendingRecv s (p_rank p) ?t"
  let ?ctx' = "ctx\<lparr>ctx_tallies := snd ?sh\<rparr>"
  have found: "fst ?sh \<longleftrightarrow> 0 < count_list (tally_ranks PendingRecv ?t s) (p_rank p)"
    using wf by (simp add: mt.shift_found_count)
  show ?thesis
  proof (cases "fst ?sh")
    case True
    with run obtain p1 p2 where p1: "sendNotifySendReady (fst ws) s n p = Inr p1"
      and p2: "sendUnboundBuffer (snd ws) b s off n p1 = Inr p2" and cp': "cp' = (?ctx', p2)"
      by (auto simp: Pair_send_def cp enforce_Inr_conv throwIfException_Inr Let_def rbind_Inr_conv
          session_shift case_prod_beta)
    from sendAsyncMode_Inr [OF p1 [unfolded sendNotifySendReady_def]]
      sendAsyncMode_Inr [OF p2 [unfolded sendUnboundBuffer_def]]
    show ?thesis
      using wf True found
      by (auto simp: implements_def cp cp' end_ok_def spec_send_def lview_simps op_data_def op_send_ready_def)
  next
    case False
    with run obtain p1 where p1: "sendNotifySendReady (fst ws) s n
        (p\<lparr>localPendingSend := queue_push s ?u (localPendingSend p)\<rparr>) = Inr p1"
      and cp': "cp' = (?ctx', p1)"
      by (auto simp: Pair_send_def cp enforce_Inr_conv throwIfException_Inr Let_def rbind_Inr_conv
          session_shift case_prod_beta)
    from sendAsyncMode_Inr [OF p1 [unfolded sendNotifySendReady_def]]
    show ?thesis
      using wf False found
      by (auto simp: implements_def cp cp' end_ok_def spec_send_def lview_simps op_send_ready_def queues_ok_push)
  qed
qed

lemma post_implements:
  assumes ok: "end_ok (ctx, p)" and t: "TallyState_wf t"
    and run: "sendNotifyRecvReady w s (uo_nbytes u)
      (p\<lparr>localPendingRecv := queue_push s u (localPendingRecv p)\<rparr>) = Inr p'"
  shows "end_ok (ctx\<lparr>ctx_tallies := t\<rparr>, p')" "p_rank p' = p_rank p" "p_sync p' = p_sync p"
    "p_ex p' = p_ex p"
    "lview (ctx\<lparr>ctx_tallies := t\<rparr>, p') = spec_post s u (lview (ctx\<lparr>ctx_tallies := t\<rparr>, p))"
  using sendAsyncMode_Inr [OF run [unfolded sendNotifyRecvReady_def]] end_okD [OF ok] t
  by (auto simp: end_ok_def spec_post_def lview_def Let_def queue_of_push queues_ok_push op_recv_ready_def)

lemma Pair_recv_implements:
  assumes ok: "end_ok cp" and run: "Pair_recv w b sz s off n cp = Inr cp'"
  shows "implements cp cp' (spec_recv s \<lparr>uo_buf = b, uo_offset = off, uo_nbytes = n\<rparr>)"
proof -
  obtain ctx p where cp: "cp = (ctx, p)" by (cases cp)
  note wf = end_okD [OF ok [unfolded cp]]
  let ?t = "ctx_tallies ctx" and ?u = "\<lparr>uo_buf = b, uo_offset = off, uo_nbytes = n\<rparr>"
  let ?sh = "tally_shift PendingSend s (p_rank p) ?t"
  define t where "t = (if fst ?sh then snd ?sh else tally_push ExpectedSend s (p_rank p) (snd ?sh))"
  have t: "TallyState_wf t" using wf by (simp add: t_def mt.ok_push mt.ok_shift)
  from run obtain p1 where p1: "sendNotifyRecvReady w s (uo_nbytes ?u)
        (p\<lparr>localPendingRecv := queue_push s ?u (localPendingRecv p)\<rparr>) = Inr p1"
      and cp': "cp' = (ctx\<lparr>ctx_tallies := t\<rparr>, p1)"
    by (auto simp: Pair_recv_def cp enforce_Inr_conv throwIfException_Inr Let_def rbind_Inr_conv
        session_shift session_two case_prod_beta t_def if_distrib [where f = Mutator_destroy] cong: if_cong)
  have "lview (ctx\<lparr>ctx_tallies := t\<rparr>, p) =
    (let v = lview cp in if 0 < lv_rps v s then v\<lparr>lv_rps := (lv_rps v)(s := lv_rps v s - 1)\<rparr>
        else v\<lparr>lv_exp := (lv_exp v)(s := Suc (lv_exp v s))\<rparr>)"
    using wf by (auto simp: lview_simps cp t_def)
  moreover have "lview (ctx\<lparr>ctx_tallies := t\<rparr>, q) = lview (ctx, q)" if "p_rank q \<noteq> p_rank p" for q
    using wf that by (auto simp: lview_simps t_def)
  ultimately show ?thesis
    using post_implements [OF ok [unfolded cp] t p1]
    by (simp add: implements_def cp cp' spec_recv_def Let_def)
qed

lemma Pair_tryRecv_implements:
  assumes ok: "end_ok cp" and run: "Pair_tryRecv w b sz s off n cp = Inr (r, cp')"
  shows "r \<longleftrightarrow> 0 < lv_rps (lview cp) s"
    and "implements cp cp' (if r then spec_recv s \<lparr>uo_buf = b, uo_offset = off, uo_nbytes = n\<rparr> else id)"
proof -
  obtain ctx p where cp: "cp = (ctx, p)" by (cases cp)
  note wf = end_okD [OF ok [unfolded cp]]
  let ?t = "ctx_tallies ctx" and ?u = "\<lparr>uo_buf = b, uo_offset = off, uo_nbytes = n\<rparr>"
  define sh where "sh = tally_shift PendingSend s (p_rank p) ?t"
  have t: "TallyState_wf (snd sh)" using wf by (simp add: sh_def mt.ok_shift)
  have found: "fst sh \<longleftrightarrow> 0 < lv_rps (lview cp) s"
    using wf by (simp add: sh_def lview_simps cp)
  have other: "lview (ctx\<lparr>ctx_tallies := snd sh\<rparr>, q) = lview (ctx, q)" if "p_rank q \<noteq> p_rank p" for q
    using wf that by (auto simp: lview_simps sh_def)
  have view: "lview (ctx\<lparr>ctx_tallies := snd sh\<rparr>, p) =
      (let v = lview cp in v\<lparr>lv_rps := (lv_rps v)(s := lv_rps v s - (if fst sh then 1 else 0))\<rparr>)"
    using wf by (auto simp: lview_simps cp sh_def)
  have both: "(r \<longleftrightarrow> fst sh) \<and>
    implements cp cp' (if r then spec_recv s ?u else id)"
  proof (cases "fst sh")
    case True
    with run obtain p1 where p1: "sendNotifyRecvReady w s (uo_nbytes ?u)
        (p\<lparr>localPendingRecv := queue_push s ?u (localPendingRecv p)\<rparr>) = Inr p1"
      and r: "r" and cp': "cp' = (ctx\<lparr>ctx_tallies := snd sh\<rparr>, p1)"
      by (auto simp: Pair_tryRecv_def cp enforce_Inr_conv throwIfException_Inr Let_def rbind_Inr_conv
          session_shift case_prod_beta sh_def)
    show ?thesis
      using post_implements [OF ok [unfolded cp] t p1] view other True found
      by (simp add: implements_def cp cp' r spec_recv_def Let_def)
  next
    case False
    with run have r: "\<not> r" and cp': "cp' = (ctx\<lparr>ctx_tallies := snd sh\<rparr>, p)"
      by (auto simp: Pair_tryRecv_def cp enforce_Inr_conv throwIfException_Inr Let_def
          session_shift case_prod_beta sh_def)
    show ?thesis
      using view other False t wf by (simp add: implements_def cp cp' r end_ok_def Let_def)
  qed
  show "r \<longleftrightarrow> 0 < lv_rps (lview cp) s" using both found by blast
  show "implements cp cp' (if r then spec_recv s ?u else id)" using both by blast
qed

lemma findRecvFromAny_tallies:
  "findRecvFromAny s r ctx = Some (u, ctx') \<Longrightarrow> ctx_tallies ctx' = ctx_tallies ctx"
  by (auto simp: findRecvFromAny_def split: option.splits)

lemma lview_pendingRecv: "ctx_tallies ctx' = ctx_tallies ctx \<Longrightarrow> lview (ctx', q) = lview (ctx, q)"
  by (simp add: lview_def)

lemma handleRemotePendingSend_implements:
  assumes ok: "end_ok cp" and run: "handleRemotePendingSend w op cp = Inr cp'"
  shows "implements cp cp' (spec_on_send_ready (pre_slot op)
    (map_option fst (findRecvFromAny (pre_slot op) (p_rank (snd cp)) (fst cp))))"
proof -
  obtain ctx p where cp: "cp = (ctx, p)" by (cases cp)
  note wf = end_okD [OF ok [unfolded cp]]
  let ?s = "pre_slot op" and ?t = "ctx_tallies ctx"
  define sh where "sh = tally_shift ExpectedSend ?s (p_rank p) ?t"
  have t: "TallyState_wf (snd sh)" using wf by (simp add: sh_def mt.ok_shift)
  have found: "fst sh \<longleftrightarrow> 0 < lv_exp (lview cp) ?s"
    using wf by (simp add: sh_def lview_simps cp)
  have other: "lview (c\<lparr>ctx_tallies := snd sh\<rparr>, q) = lview (ctx, q)" if "p_rank q \<noteq> p_rank p" for c q
    using wf that by (auto simp: lview_simps sh_def)
  have view: "lview (c\<lparr>ctx_tallies := snd sh\<rparr>, p) =
      (let v = lview cp in v\<lparr>lv_exp := (lv_exp v)(?s := lv_exp v ?s - (if fst sh then 1 else 0))\<rparr>)" for c
    using wf by (auto simp: lview_simps cp sh_def)
  show ?thesis
  proof (cases "fst sh")
    case True
    with run have cp': "cp' = (ctx\<lparr>ctx_tallies := snd sh\<rparr>, p)"
      by (auto simp: handleRemotePendingSend_def cp Let_def session_shift case_prod_beta sh_def)
    show ?thesis
      using view other True found t wf
      by (simp add: implements_def cp cp' end_ok_def Let_def spec_on_send_ready_def)
  next
    case False
    show ?thesis
    proof (cases "findRecvFromAny ?s (p_rank p) ctx")
      case None
      let ?t' = "tally_push PendingSend ?s (p_rank p) (snd sh)"
      from None False run have cp': "cp' = (ctx\<lparr>ctx_tallies := ?t'\<rparr>, p)"
        by (auto simp: handleRemotePendingSend_def cp Let_def session_shift session_two case_prod_beta sh_def)
      have "TallyState_wf ?t'" using t by (rule mt.ok_push)
      moreover have "lview (ctx\<lparr>ctx_tallies := ?t'\<rparr>, p) =
          (let v = lview cp in v\<lparr>lv_rps := (lv_rps v)(?s := Suc (lv_rps v ?s))\<rparr>)"
        using wf False by (auto simp: lview_simps cp sh_def)
      moreover have "lview (ctx\<lparr>ctx_tallies := ?t'\<rparr>, q) = lview (ctx, q)" if "p_rank q \<noteq> p_rank p" for q
        using wf that by (auto simp: lview_simps sh_def)
      ultimately show ?thesis
        using False found wf None
        by (simp add: implements_def cp cp' end_ok_def Let_def spec_on_send_ready_def)
    next
      case (Some x)
      obtain u ctx1 where x: "x = (u, ctx1)" by (cases x)
      note tal = findRecvFromAny_tallies [OF Some [unfolded x]]
      from Some False run x obtain p1 where
        p1: "sendNotifyRecvReady w ?s (uo_nbytes u)
          (p\<lparr>localPendingRecv := queue_push ?s u (localPendingRecv p)\<rparr>) = Inr p1"
        and cp': "cp' = (ctx1\<lparr>ctx_tallies := snd sh\<rparr>, p1)"
        by (auto simp: handleRemotePendingSend_def cp Let_def session_shift case_prod_beta sh_def rbind_Inr_conv)
      have ok1: "end_ok (ctx1, p)" using ok tal by (simp add: end_ok_def cp)
      show ?thesis
        using post_implements [OF ok1 t p1] view other False found Some x
        by (simp add: implements_def cp cp' spec_on_send_ready_def Let_def)
    qed
  qed
qed

lemma handleRemotePendingRecv_implements:
  assumes ok: "end_ok cp" and run: "handleRemotePendingRecv w op cp = Inr cp'"
  shows "implements cp cp' (spec_on_recv_ready (pre_slot op))"
proof -
  obtain ctx p where cp: "cp = (ctx, p)" by (cases cp)
  note wf = end_okD [OF ok [unfolded cp]]
  let ?s = "pre_slot op"
  show ?thesis
  proof (cases "localPendingSend p ?s")
    case None
    let ?t = "tally_push PendingRecv ?s (p_rank p) (ctx_tallies ctx)"
    from None run have cp': "cp' = (ctx\<lparr>ctx_tallies := ?t\<rparr>, p)"
      by (simp add: handleRemotePendingRecv_def cp Let_def session_two)
    from None have "lv_ps (lview (ctx, p)) ?s = []" by (simp add: lview_def queue_of_def)
    then have "spec_on_recv_ready ?s (lview (ctx, p)) = (lview (ctx, p))\<lparr>lv_rpr :=
        (lv_rpr (lview (ctx, p)))(?s := Suc (lv_rpr (lview (ctx, p)) ?s))\<rparr>"
      by (simp add: spec_on_recv_ready_def)
    with wf show ?thesis
      by (auto simp: implements_def cp cp' end_ok_def lview_simps)
  next
    case (Some xs)
    with run obtain x m p1 where pop: "queue_pop ?s xs (localPendingSend p) = Inr (x, m)"
      and p1: "sendUnboundBuffer w (uo_buf x) ?s (uo_offset x) (uo_nbytes x) (p\<lparr>localPendingSend := m\<rparr>) = Inr p1"
      and cp': "cp' = (ctx, p1)"
      by (auto simp: handleRemotePendingRecv_def cp Let_def rbind_Inr_conv)
    note q = queue_pop_Inr [OF Some pop wf(2)]
    have "lv_ps (lview (ctx, p)) ?s = x # queue_of m ?s" using q(1) by (simp add: lview_def)
    then have "spec_on_recv_ready ?s (lview (ctx, p)) = (lview (ctx, p))\<lparr>lv_ps :=
        (lv_ps (lview (ctx, p)))(?s := queue_of m ?s),
        lv_out := lv_out (lview (ctx, p)) @ [op_data ?s x]\<rparr>"
      by (simp add: spec_on_recv_ready_def)
    with sendAsyncMode_Inr [OF p1 [unfolded sendUnboundBuffer_def]] wf q show ?thesis
      by (auto simp: implements_def cp cp' end_ok_def lview_def Let_def op_data_def)
  qed
qed

lemma prepareRead_unbound_implements:
  assumes ok: "end_ok (ctx, p)" and run: "prepareRead_unbound op p = Inr (r, p')"
  shows "implements (ctx, p) (ctx, p') (\<lambda>v. v\<lparr>lv_pr := (lv_pr v)(pre_slot op := tl (lv_pr v (pre_slot op)))\<rparr>)"
    and "lv_pr (lview (ctx, p)) (pre_slot op) = r # lv_pr (lview (ctx, p')) (pre_slot op)"
    and "pre_length op \<le> uo_nbytes r"
proof -
  from run obtain xs m where xs: "localPendingRecv p (pre_slot op) = Some xs"
    and pop: "queue_pop (pre_slot op) xs (localPendingRecv p) = Inr (r, m)"
    and len: "pre_length op \<le> uo_nbytes r" and p': "p' = p\<lparr>localPendingRecv := m\<rparr>"
    by (auto simp: prepareRead_unbound_def rbind_Inr_conv enforce_Inr_conv split: option.splits)
  note wf = end_okD [OF ok] and q = queue_pop_Inr [OF xs pop end_okD(3) [OF ok]]
  show "implements (ctx, p) (ctx, p') (\<lambda>v. v\<lparr>lv_pr := (lv_pr v)(pre_slot op := tl (lv_pr v (pre_slot op)))\<rparr>)"
    using wf q by (simp add: implements_def p' end_ok_def lview_def)
  show "lv_pr (lview (ctx, p)) (pre_slot op) = r # lv_pr (lview (ctx, p')) (pre_slot op)"
    using q by (simp add: lview_def p')
  show "pre_length op \<le> uo_nbytes r" by (rule len)
qed

end
