(* ===== verification/Gloo_Rendezvous.thy ===== *)
theory Gloo_Rendezvous
  imports Gloo_Pair_Spec
begin

text \<open>
  All ranks of a context connected pair-wise: a world holds the transport context of every
  rank and the pair of every rank towards every other, and steps when a user thread posts
  an operation, a socket accepts a queued operation, or a peer reads one. Which of these
  happens next is not determined. The logs \<open>w_sent\<close>, \<open>w_posted\<close> and \<open>w_done\<close> record what was
  sent, which receives were posted and which payload completed which receive; the code
  does not have them.
\<close>

section \<open>Worlds and steps\<close>

record World =
  w_ctx :: "rank_t \<Rightarrow> Context"
  w_pair :: "rank_t \<Rightarrow> rank_t \<Rightarrow> Pair"
  w_try :: "rank_t \<Rightarrow> (slot_t \<times> UnboundBufferOp \<times> rank_t) list"
  w_sent :: "rank_t \<Rightarrow> rank_t \<Rightarrow> slot_t \<Rightarrow> UnboundBufferOp list"
  w_posted :: "rank_t \<Rightarrow> rank_t \<Rightarrow> slot_t \<Rightarrow> UnboundBufferOp list"
  w_done :: "rank_t \<Rightarrow> rank_t \<Rightarrow> slot_t \<Rightarrow> (UnboundBufferOp \<times> UnboundBufferOp) list"

definition upd2 :: "('a \<Rightarrow> 'b \<Rightarrow> 'c) \<Rightarrow> 'a \<Rightarrow> 'b \<Rightarrow> 'c \<Rightarrow> ('a \<Rightarrow> 'b \<Rightarrow> 'c)" where
  "upd2 f i j x = f(i := (f i)(j := x))"

definition log_add :: "(rank_t \<Rightarrow> rank_t \<Rightarrow> slot_t \<Rightarrow> 'a list) \<Rightarrow> rank_t \<Rightarrow> rank_t \<Rightarrow> slot_t \<Rightarrow> 'a list \<Rightarrow>
    (rank_t \<Rightarrow> rank_t \<Rightarrow> slot_t \<Rightarrow> 'a list)" where
  "log_add l i j s xs = upd2 l i j ((l i j)(s := l i j s @ xs))"

definition get_end :: "rank_t \<Rightarrow> rank_t \<Rightarrow> World \<Rightarrow> Context \<times> Pair" where
  "get_end i j w = (w_ctx w i, w_pair w i j)"

definition set_end :: "rank_t \<Rightarrow> rank_t \<Rightarrow> Context \<times> Pair \<Rightarrow> World \<Rightarrow> World" where
  "set_end i j cp w = w\<lparr>w_ctx := (w_ctx w)(i := fst cp), w_pair := upd2 (w_pair w) i j (snd cp)\<rparr>"

definition set_sock :: "rank_t \<Rightarrow> rank_t \<Rightarrow> Op list \<Rightarrow> Op list \<Rightarrow> World \<Rightarrow> World" where
  "set_sock i j sock tx w =
     w\<lparr>w_pair := upd2 (w_pair w) i j ((w_pair w i j)\<lparr>p_sock := sock, p_tx := tx\<rparr>)\<rparr>"

definition Context_new :: Context where
  "Context_new =
     \<lparr>ctx_tallies = \<lparr>pendingOperations = [], expectedNotifications = []\<rparr>, pendingRecv = Map.empty\<rparr>"

definition Pair_connected :: "rank_t \<Rightarrow> Pair" where
  "Pair_connected j =
     \<lparr>p_rank = j, p_state = CONNECTED, p_sync = False, p_ex = None, localPendingSend = Map.empty,
      localPendingRecv = Map.empty, p_tx = [], p_sock = []\<rparr>"

definition world_init :: World where
  "world_init =
     \<lparr>w_ctx = (\<lambda>_. Context_new), w_pair = (\<lambda>_. Pair_connected), w_try = (\<lambda>_. []),
      w_sent = (\<lambda>_ _ _. []), w_posted = (\<lambda>_ _ _. []), w_done = (\<lambda>_ _ _. [])\<rparr>"

text \<open>The sender's region carried by a payload operation.\<close>

definition op_region :: "Op \<Rightarrow> UnboundBufferOp" where
  "op_region op = \<lparr>uo_buf = the (op_ubuf op), uo_offset = op_offset op, uo_nbytes = op_nbytes op\<rparr>"

text \<open>What reading an operation at the end \<open>(j, i)\<close> adds to the logs.\<close>

definition log_read :: "rank_t \<Rightarrow> rank_t \<Rightarrow> Op \<Rightarrow> UnboundBufferOp option \<Rightarrow> Pair \<Rightarrow> Pair \<Rightarrow> World \<Rightarrow> World" where
  "log_read i j op c p p' w =
     (let s = pre_slot op;
          old = queue_of (localPendingRecv p) s;
          new = queue_of (localPendingRecv p') s
      in w\<lparr>w_posted := log_add (w_posted w) j i s (drop (length old) new),
           w_done := log_add (w_done w) i j s
             (case c of None \<Rightarrow> [] | Some r \<Rightarrow> [(op_region op, r)])\<rparr>)"

inductive world_step :: "World \<Rightarrow> World \<Rightarrow> bool" where
  post_send:
    "i \<noteq> j \<Longrightarrow> Pair_send ws b sz s off n (get_end i j w) = Inr cp \<Longrightarrow>
     world_step w ((set_end i j cp w)\<lparr>w_sent :=
       log_add (w_sent w) i j s [\<lparr>uo_buf = b, uo_offset = off, uo_nbytes = n\<rparr>]\<rparr>)"
| post_recv:
    "i \<noteq> j \<Longrightarrow> Pair_recv wr b sz s off n (get_end i j w) = Inr cp \<Longrightarrow>
     world_step w ((set_end i j cp w)\<lparr>w_posted :=
       log_add (w_posted w) i j s [\<lparr>uo_buf = b, uo_offset = off, uo_nbytes = n\<rparr>]\<rparr>)"
| any_register:
    "recvFromAnyFindRank u s ranks (w_ctx w i) = (None, ctx) \<Longrightarrow>
     world_step w (w\<lparr>w_ctx := (w_ctx w)(i := ctx)\<rparr>)"
| any_candidate:
    "recvFromAnyFindRank u s ranks (w_ctx w i) = (Some j, ctx) \<Longrightarrow>
     world_step w (w\<lparr>w_ctx := (w_ctx w)(i := ctx), w_try := (w_try w)(i := w_try w i @ [(s, u, j)])\<rparr>)"
| any_try:
    "(s, u, j) \<in> set (w_try w i) \<Longrightarrow> i \<noteq> j \<Longrightarrow>
     Pair_tryRecv wr (uo_buf u) sz s (uo_offset u) (uo_nbytes u) (get_end i j w) = Inr (r, cp) \<Longrightarrow>
     world_step w ((set_end i j cp w)\<lparr>w_try := (w_try w)(i := remove1 (s, u, j) (w_try w i)),
       w_posted := log_add (w_posted w) i j s (if r then [u] else [])\<rparr>)"
| socket_writable:
    "i \<noteq> j \<Longrightarrow> p_tx (w_pair w i j) = op # rest \<Longrightarrow>
     world_step w (set_sock i j (p_sock (w_pair w i j) @ [op]) rest w)"
| peer_read:
    "i \<noteq> j \<Longrightarrow> p_sock (w_pair w i j) = op # rest \<Longrightarrow>
     readOp wr op (get_end j i w) = Inr (c, cp) \<Longrightarrow>
     world_step w (log_read i j op c (w_pair w j i) (snd cp)
       (set_end j i cp (set_sock i j rest (p_tx (w_pair w i j)) w)))"

inductive world_reachable :: "World \<Rightarrow> bool" where
  init: "world_reachable world_init"
| step: "world_reachable w \<Longrightarrow> world_step w w' \<Longrightarrow> world_reachable w'"

section \<open>The invariant\<close>

text \<open>The operations of one kind and slot in an outgoing sequence.\<close>

definition ops_of :: "Opcode \<Rightarrow> slot_t \<Rightarrow> Op list \<Rightarrow> Op list" where
  "ops_of k s ops = filter (\<lambda>op. pre_opcode op = k \<and> pre_slot op = s) ops"

text \<open>
  The invariant of one direction, sender view \<open>a\<close> and receiver view \<open>b\<close>, for one slot:
  \<^item> a posted receive of the receiver is matched by exactly one of a notification in flight
    to the sender, a remote pending receive recorded by the sender, and a payload in flight;
  \<^item> the sender never holds a pending send and a remote pending receive at once, nor the
    receiver a remote pending send and an expected notification;
  \<^item> the notifications about sends that were not yet accounted for are balanced;
  \<^item> what was sent is what was delivered, then the payloads in flight, then the pending
    sends, in this order; what was posted is what was completed and then what is pending.
\<close>

definition dir_inv :: "LView \<Rightarrow> LView \<Rightarrow> slot_t \<Rightarrow> UnboundBufferOp list \<Rightarrow> UnboundBufferOp list \<Rightarrow>
    (UnboundBufferOp \<times> UnboundBufferOp) list \<Rightarrow> bool" where
  "dir_inv a b s sent posted done \<longleftrightarrow>
     length (lv_pr b s) =
       length (ops_of NOTIFY_RECV_READY s (lv_out b)) + lv_rpr a s +
       length (ops_of SEND_UNBOUND_BUFFER s (lv_out a)) \<and>
     (lv_ps a s = [] \<or> lv_rpr a s = 0) \<and> (lv_rps b s = 0 \<or> lv_exp b s = 0) \<and>
     length (ops_of NOTIFY_SEND_READY s (lv_out a)) + lv_rps b s + length posted =
       length sent + lv_exp b s \<and>
     sent = map fst done @ map op_region (ops_of SEND_UNBOUND_BUFFER s (lv_out a)) @ lv_ps a s \<and>
     posted = map snd done @ lv_pr b s"

text \<open>
  The invariant of one end: its tallies and queues are well formed, it knows its peer, and
  it has only sent operations of the rendezvous protocol.
\<close>

definition ops_ok :: "Op list \<Rightarrow> bool" where
  "ops_ok ops \<longleftrightarrow>
     (\<forall>op \<in> set ops. pre_opcode op \<noteq> SEND_BUFFER \<and>
        (pre_opcode op = SEND_UNBOUND_BUFFER \<longrightarrow> pre_length op = op_nbytes op))"

definition end_inv :: "rank_t \<Rightarrow> Context \<times> Pair \<Rightarrow> bool" where
  "end_inv j cp \<longleftrightarrow> end_ok cp \<and> p_rank (snd cp) = j \<and> ops_ok (lv_out (lview cp))"

definition world_inv :: "World \<Rightarrow> bool" where
  "world_inv w \<longleftrightarrow>
     (\<forall>i j. end_inv j (get_end i j w)) \<and>
     (\<forall>i j s. i \<noteq> j \<longrightarrow>
        dir_inv (lview (get_end i j w)) (lview (get_end j i w)) s
          (w_sent w i j s) (w_posted w j i s) (w_done w i j s))"

lemma ops_of_simps [simp]:
  "ops_of k s [] = []"
  "ops_of k s (xs @ ys) = ops_of k s xs @ ops_of k s ys"
  "ops_of k s (op # xs) = (if pre_opcode op = k \<and> pre_slot op = s then op # ops_of k s xs else ops_of k s xs)"
  by (auto simp: ops_of_def)

lemma op_fields [simp]:
  "pre_opcode (op_data s u) = SEND_UNBOUND_BUFFER" "pre_slot (op_data s u) = s" "op_region (op_data s u) = u"
  "pre_length (op_data s u) = uo_nbytes u" "op_nbytes (op_data s u) = uo_nbytes u"
  "pre_opcode (op_send_ready s n) = NOTIFY_SEND_READY" "pre_slot (op_send_ready s n) = s"
  "pre_opcode (op_recv_ready s n) = NOTIFY_RECV_READY" "pre_slot (op_recv_ready s n) = s"
  by (simp_all add: op_data_def op_send_ready_def op_recv_ready_def op_region_def)

section \<open>The specifications keep the invariant of a direction\<close>

lemma dir_send:
  "dir_inv a b s' sent posted done \<Longrightarrow>
   dir_inv (spec_send s u a) b s' (if s' = s then sent @ [u] else sent) posted done"
  by (auto simp: dir_inv_def spec_send_def)

lemma dir_send_back:
  "dir_inv b a s' sent posted done \<Longrightarrow> dir_inv b (spec_send s u a) s' sent posted done"
  by (auto simp: dir_inv_def spec_send_def)

lemma dir_recv:
  "dir_inv a b s' sent posted done \<Longrightarrow>
   dir_inv a (spec_recv s u b) s' sent (if s' = s then posted @ [u] else posted) done"
  by (auto simp: dir_inv_def spec_recv_def spec_post_def)

lemma dir_recv_back:
  "dir_inv b a s' sent posted done \<Longrightarrow> dir_inv (spec_recv s u b) a s' sent posted done"
  by (auto simp: dir_inv_def spec_recv_def spec_post_def)

text \<open>Reading the oldest operation \<open>op\<close> of the end \<open>a\<close> at the end \<open>b\<close>.\<close>

lemma dir_read_send_ready:
  assumes "lv_out a = op # rest" "pre_opcode op = NOTIFY_SEND_READY" "dir_inv a b s sent posted done"
  shows "dir_inv (a\<lparr>lv_out := rest\<rparr>) (spec_on_send_ready (pre_slot op) any b) s sent
    (posted @ (if s = pre_slot op \<and> lv_exp b s = 0 then (case any of None \<Rightarrow> [] | Some u \<Rightarrow> [u]) else [])) done"
  using assms by (auto simp: dir_inv_def spec_on_send_ready_def spec_post_def split: option.splits)

lemma dir_read_send_ready_back:
  assumes "lv_out a = op # rest" "pre_opcode op = NOTIFY_SEND_READY" "dir_inv b a s sent posted done"
  shows "dir_inv (spec_on_send_ready (pre_slot op) any b) (a\<lparr>lv_out := rest\<rparr>) s sent posted done"
  using assms by (auto simp: dir_inv_def spec_on_send_ready_def spec_post_def split: option.splits)

lemma dir_read_recv_ready:
  assumes "lv_out a = op # rest" "pre_opcode op = NOTIFY_RECV_READY" "dir_inv a b s sent posted done"
  shows "dir_inv (a\<lparr>lv_out := rest\<rparr>) (spec_on_recv_ready (pre_slot op) b) s sent posted done"
  using assms by (auto simp: dir_inv_def spec_on_recv_ready_def split: list.splits)

lemma dir_read_recv_ready_back:
  assumes "lv_out a = op # rest" "pre_opcode op = NOTIFY_RECV_READY" "dir_inv b a s sent posted done"
  shows "dir_inv (spec_on_recv_ready (pre_slot op) b) (a\<lparr>lv_out := rest\<rparr>) s sent posted done"
  using assms by (auto simp: dir_inv_def spec_on_recv_ready_def split: list.splits)

lemma dir_read_data:
  assumes "lv_out a = op # rest" "pre_opcode op = SEND_UNBOUND_BUFFER" "dir_inv a b s sent posted done"
    and "lv_pr b (pre_slot op) = r # rs"
  shows "dir_inv (a\<lparr>lv_out := rest\<rparr>) (b\<lparr>lv_pr := (lv_pr b)(pre_slot op := rs)\<rparr>) s sent posted
    (done @ (if s = pre_slot op then [(op_region op, r)] else []))"
  using assms by (auto simp: dir_inv_def)

lemma dir_read_data_back:
  assumes "lv_out a = op # rest" "pre_opcode op = SEND_UNBOUND_BUFFER" "dir_inv b a s sent posted done"
  shows "dir_inv (b\<lparr>lv_pr := f\<rparr>) (a\<lparr>lv_out := rest\<rparr>) s sent posted done"
  using assms by (auto simp: dir_inv_def)

section \<open>Steps keep the invariant\<close>

lemma upd2_apply [simp]: "upd2 f i j x k l = (if k = i \<and> l = j then x else f k l)"
  by (simp add: upd2_def)

lemma log_add_apply [simp]:
  "log_add l i j s xs a b t = (if a = i \<and> b = j \<and> t = s then l a b t @ xs else l a b t)"
  by (simp add: log_add_def)

lemma get_end_logs [simp]:
  "get_end k l (w\<lparr>w_sent := x\<rparr>) = get_end k l w" "get_end k l (w\<lparr>w_posted := y\<rparr>) = get_end k l w"
  "get_end k l (w\<lparr>w_done := z\<rparr>) = get_end k l w" "get_end k l (w\<lparr>w_try := t\<rparr>) = get_end k l w"
  "get_end k l (log_read i j op c p p' w) = get_end k l w"
  by (simp_all add: get_end_def log_read_def Let_def)

text \<open>It is enough to look at the two directions between the two ends that changed.\<close>

lemma world_inv_ends:
  assumes inv: "world_inv w" and ij: "i \<noteq> j"
    and same: "\<And>k l. {k, l} \<noteq> {i, j} \<Longrightarrow> k \<noteq> l \<Longrightarrow> lview (get_end k l w') = lview (get_end k l w) \<and>
      w_sent w' k l = w_sent w k l \<and> w_posted w' k l = w_posted w k l \<and> w_done w' k l = w_done w k l"
    and ends: "\<And>k l. end_inv l (get_end k l w')"
    and dirs: "\<And>s. dir_inv (lview (get_end i j w')) (lview (get_end j i w')) s
        (w_sent w' i j s) (w_posted w' j i s) (w_done w' i j s)"
      "\<And>s. dir_inv (lview (get_end j i w')) (lview (get_end i j w')) s
        (w_sent w' j i s) (w_posted w' i j s) (w_done w' j i s)"
  shows "world_inv w'"
  unfolding world_inv_def
proof (intro conjI allI impI)
  fix k l s assume kl: "k \<noteq> (l :: rank_t)"
  show "dir_inv (lview (get_end k l w')) (lview (get_end l k w')) s
      (w_sent w' k l s) (w_posted w' l k s) (w_done w' k l s)"
  proof (cases "{k, l} = {i, j}")
    case True
    then show ?thesis using dirs by (auto simp: doubleton_eq_iff)
  next
    case False
    then have "{l, k} \<noteq> {i, j}" by (simp add: insert_commute)
    with False kl inv show ?thesis by (simp add: same world_inv_def)
  qed
qed (rule ends)

text \<open>An operation at the end \<open>(i, j)\<close> leaves the views of all other ends alone.\<close>

lemma set_end_views:
  assumes inv: "\<And>k l. end_inv l (get_end k l w)"
    and impl: "implements (get_end i j w) cp f"
    and ops: "ops_ok (lv_out (f (lview (get_end i j w))))"
  shows "end_inv l (get_end k l (set_end i j cp w))"
    and "lview (get_end k l (set_end i j cp w)) =
      (if k = i \<and> l = j then f (lview (get_end i j w)) else lview (get_end k l w))"
proof -
  have rank: "p_rank (w_pair w k l) = l" for k l
    using inv by (simp add: end_inv_def get_end_def)
  have other: "lview (fst cp, w_pair w i l) = lview (get_end i l w)" if "l \<noteq> j" for l
    using impl that rank by (simp add: implements_def get_end_def)
  show "lview (get_end k l (set_end i j cp w)) =
      (if k = i \<and> l = j then f (lview (get_end i j w)) else lview (get_end k l w))"
    using impl other by (simp add: implements_def get_end_def set_end_def)
  moreover have "end_ok (get_end k l (set_end i j cp w))"
    using inv [of l k] inv [of l i] impl
    by (simp add: set_end_def implements_def get_end_def end_inv_def end_ok_def)
  moreover have "p_rank (snd (get_end k l (set_end i j cp w))) = l"
    using impl rank by (simp add: set_end_def implements_def get_end_def)
  ultimately show "end_inv l (get_end k l (set_end i j cp w))"
    using inv [of l k] ops by (simp add: end_inv_def)
qed

lemma ops_ok_simps [simp]:
  "ops_ok []" "ops_ok (xs @ ys) \<longleftrightarrow> ops_ok xs \<and> ops_ok ys"
  "ops_ok (op # xs) \<longleftrightarrow> pre_opcode op \<noteq> SEND_BUFFER \<and>
     (pre_opcode op = SEND_UNBOUND_BUFFER \<longrightarrow> pre_length op = op_nbytes op) \<and> ops_ok xs"
  by (auto simp: ops_ok_def)

lemma ops_ok_spec:
  assumes "ops_ok (lv_out v)"
  shows "ops_ok (lv_out (spec_send s u v))" "ops_ok (lv_out (spec_recv s u v))"
    "ops_ok (lv_out (spec_on_send_ready s any v))" "ops_ok (lv_out (spec_on_recv_ready s v))"
  using assms
  by (auto simp: spec_send_def spec_recv_def spec_post_def spec_on_send_ready_def
      spec_on_recv_ready_def split: option.splits list.splits)

lemma set_sock_views:
  assumes inv: "\<And>k l. end_inv l (get_end k l w)" and ops: "ops_ok (sock @ tx)"
  shows "end_inv l (get_end k l (set_sock i j sock tx w))"
    and "lview (get_end k l (set_sock i j sock tx w)) =
      (if k = i \<and> l = j then (lview (get_end i j w))\<lparr>lv_out := sock @ tx\<rparr> else lview (get_end k l w))"
  using inv [of l k] ops
  by (auto simp: set_sock_def get_end_def lview_def Let_def end_inv_def end_ok_def)

lemma world_invD:
  assumes "world_inv w"
  shows "end_inv l (get_end k l w)" "end_ok (get_end k l w)" "p_rank (w_pair w k l) = l"
    "ops_ok (lv_out (lview (get_end k l w)))"
    "k \<noteq> l \<Longrightarrow> dir_inv (lview (get_end k l w)) (lview (get_end l k w)) s
        (w_sent w k l s) (w_posted w l k s) (w_done w k l s)"
  using assms by (auto simp: world_inv_def end_inv_def get_end_def)

lemma set_end_logs [simp]:
  "w_sent (set_end i j cp w) = w_sent w" "w_posted (set_end i j cp w) = w_posted w"
  "w_done (set_end i j cp w) = w_done w" "w_sent (set_sock i j x y w) = w_sent w"
  "w_posted (set_sock i j x y w) = w_posted w" "w_done (set_sock i j x y w) = w_done w"
  by (simp_all add: set_end_def set_sock_def)

lemma inv_post_send:
  assumes inv: "world_inv w" and ij: "i \<noteq> j" and run: "Pair_send ws b sz s off n (get_end i j w) = Inr cp"
  shows "world_inv ((set_end i j cp w)\<lparr>w_sent :=
    log_add (w_sent w) i j s [\<lparr>uo_buf = b, uo_offset = off, uo_nbytes = n\<rparr>]\<rparr>)"
proof -
  note I = world_invD [OF inv]
  note views = set_end_views [OF I(1) Pair_send_implements [OF I(2) run] ops_ok_spec(1) [OF I(4)]]
  show ?thesis
  proof (rule world_inv_ends [OF inv ij], goal_cases)
    case (1 k l)
    then show ?case by (auto simp: views doubleton_eq_iff)
  next
    case (2 k l)
    then show ?case by (simp add: views)
  next
    case (3 t)
    show ?case using dir_send [OF I(5) [OF ij], of s _ t] ij by (simp add: views)
  next
    case (4 t)
    show ?case using dir_send_back [OF I(5) [of j i t]] ij by (simp add: views)
  qed
qed

lemma inv_post_recv:
  assumes inv: "world_inv w" and ij: "i \<noteq> j"
    and impl: "implements (get_end i j w) cp (spec_recv s u)"
  shows "world_inv ((set_end i j cp w)\<lparr>w_try := t, w_posted := log_add (w_posted w) i j s [u]\<rparr>)"
proof -
  note I = world_invD [OF inv]
  note views = set_end_views [OF I(1) impl ops_ok_spec(2) [OF I(4)]]
  show ?thesis
  proof (rule world_inv_ends [OF inv ij], goal_cases)
    case (1 k l)
    then show ?case by (auto simp: views doubleton_eq_iff)
  next
    case (2 k l)
    then show ?case by (simp add: views)
  next
    case (3 t)
    show ?case using dir_recv_back [OF I(5) [OF ij, of t]] ij by (simp add: views)
  next
    case (4 t)
    show ?case using dir_recv [OF I(5) [of j i t], of s u] ij by (auto simp: views)
  qed
qed

lemma inv_unchanged:
  assumes inv: "world_inv w" and impl: "implements (get_end i j w) cp id" and ij: "i \<noteq> j"
  shows "world_inv ((set_end i j cp w)\<lparr>w_try := t\<rparr>)"
proof -
  note I = world_invD [OF inv]
  have ops: "ops_ok (lv_out (id (lview (get_end i j w))))" using I(4) by simp
  note views = set_end_views [OF I(1) impl ops]
  show ?thesis using I views(1) by (auto simp: world_inv_def views(2))
qed

lemma inv_ctx:
  assumes inv: "world_inv w" and t: "ctx_tallies ctx = ctx_tallies (w_ctx w i)"
  shows "world_inv (w\<lparr>w_ctx := (w_ctx w)(i := ctx), w_try := tr\<rparr>)"
proof -
  define w' where "w' = w\<lparr>w_ctx := (w_ctx w)(i := ctx), w_try := tr\<rparr>"
  have view: "lview (get_end k l w') = lview (get_end k l w)" for k l
    using t by (simp add: get_end_def lview_def w'_def)
  have logs: "w_sent w' = w_sent w" "w_posted w' = w_posted w" "w_done w' = w_done w"
    by (simp_all add: w'_def)
  have "end_inv l (get_end k l w')" for k l
    using world_invD(1) [OF inv, of l k] view [of k l] t
    by (auto simp: end_inv_def end_ok_def get_end_def w'_def)
  then have "world_inv w'"
    using inv by (simp add: world_inv_def view logs)
  then show ?thesis by (simp add: w'_def)
qed

lemma inv_socket_writable:
  assumes inv: "world_inv w" and ij: "i \<noteq> j" and tx: "p_tx (w_pair w i j) = op # rest"
  shows "world_inv (set_sock i j (p_sock (w_pair w i j) @ [op]) rest w)"
proof -
  note I = world_invD [OF inv]
  have out: "lv_out (lview (get_end i j w)) = (p_sock (w_pair w i j) @ [op]) @ rest"
    using tx by (simp add: lview_def get_end_def)
  note views = set_sock_views [OF I(1) I(4) [of i j, unfolded out]]
  have "(lview (get_end i j w))\<lparr>lv_out := (p_sock (w_pair w i j) @ [op]) @ rest\<rparr> = lview (get_end i j w)"
    unfolding out [symmetric] by simp
  then show ?thesis using I views(1) by (auto simp: world_inv_def views(2))
qed

lemma dir_read_data_nonempty:
  assumes "lv_out a = op # rest" "pre_opcode op = SEND_UNBOUND_BUFFER" "dir_inv a b (pre_slot op) sent posted done"
  shows "lv_pr b (pre_slot op) \<noteq> []"
  using assms by (auto simp: dir_inv_def)

text \<open>
  Reading: the sender's view loses its oldest operation, and the reader's view changes as
  the specification of the handler says.
\<close>

lemma inv_read:
  assumes inv: "world_inv w" and ij: "i \<noteq> j" and sock: "p_sock (w_pair w i j) = op # rest"
    and impl: "implements (get_end j i w) cp f"
    and ops: "ops_ok (lv_out (f (lview (get_end j i w))))"
    and fwd: "\<And>s a. lv_out a = op # (rest @ p_tx (w_pair w i j)) \<Longrightarrow> a = lview (get_end i j w) \<Longrightarrow>
      dir_inv (a\<lparr>lv_out := rest @ p_tx (w_pair w i j)\<rparr>) (f (lview (get_end j i w))) s
        (w_sent w i j s) (w_posted w' j i s) (w_done w' i j s)"
    and bwd: "\<And>s a. lv_out a = op # (rest @ p_tx (w_pair w i j)) \<Longrightarrow> a = lview (get_end i j w) \<Longrightarrow>
      dir_inv (f (lview (get_end j i w))) (a\<lparr>lv_out := rest @ p_tx (w_pair w i j)\<rparr>) s
        (w_sent w j i s) (w_posted w i j s) (w_done w j i s)"
    and w': "w' = log_read i j op c (w_pair w j i) (snd cp)
        (set_end j i cp (set_sock i j rest (p_tx (w_pair w i j)) w))"
  shows "world_inv w'"
proof -
  note I = world_invD [OF inv]
  let ?w1 = "set_sock i j rest (p_tx (w_pair w i j)) w"
  have out: "lv_out (lview (get_end i j w)) = op # (rest @ p_tx (w_pair w i j))"
    using sock by (simp add: lview_def get_end_def)
  have "ops_ok (rest @ p_tx (w_pair w i j))" using I(4) [of i j] by (simp add: out)
  note v1 = set_sock_views [OF I(1) this, of _ _ i j]
  have same: "get_end j i ?w1 = get_end j i w" using ij by (simp add: get_end_def set_sock_def)
  have "implements (get_end j i ?w1) cp f" "ops_ok (lv_out (f (lview (get_end j i ?w1))))"
    using impl ops by (simp_all add: same)
  note v2 = set_end_views [OF v1(1) this]
  have logs: "w_sent w' = w_sent w" "\<And>k l. {k, l} \<noteq> {i, j} \<Longrightarrow> w_posted w' k l = w_posted w k l"
    "\<And>k l. {k, l} \<noteq> {i, j} \<Longrightarrow> w_done w' k l = w_done w k l"
    "w_posted w' i j = w_posted w i j" "w_done w' j i = w_done w j i"
    using ij by (auto simp: w' log_read_def Let_def fun_eq_iff)
  show ?thesis
  proof (rule world_inv_ends [OF inv ij], goal_cases)
    case (1 k l)
    then show ?case by (auto simp: w' v2(2) v1(2) logs [unfolded w'] doubleton_eq_iff)
  next
    case (2 k l)
    then show ?case using v2(1) by (simp add: w')
  next
    case (3 s)
    show ?case using fwd [OF out refl, of s] ij logs by (simp add: w' v2(2) v1(2))
  next
    case (4 s)
    show ?case using bwd [OF out refl, of s] ij logs by (simp add: w' v2(2) v1(2))
  qed
qed

lemma log_read_logs:
  assumes "w' = log_read i j op c p p' w" and "i \<noteq> j"
  shows "w_posted w' j i s = w_posted w j i s @
      (if s = pre_slot op
       then drop (length (queue_of (localPendingRecv p) s)) (queue_of (localPendingRecv p') s) else [])"
    and "w_done w' i j s = w_done w i j s @
      (if s = pre_slot op then (case c of None \<Rightarrow> [] | Some r \<Rightarrow> [(op_region op, r)]) else [])"
  using assms by (auto simp: log_read_def Let_def)

lemma lview_pr: "lv_pr (lview cp) = queue_of (localPendingRecv (snd cp))"
  by (simp add: lview_def Let_def split: prod.splits)

lemma inv_peer_read:
  assumes inv: "world_inv w" and ij: "i \<noteq> j" and sock: "p_sock (w_pair w i j) = op # rest"
    and run: "readOp wr op (get_end j i w) = Inr (c, cp)"
  shows "world_inv (log_read i j op c (w_pair w j i) (snd cp)
        (set_end j i cp (set_sock i j rest (p_tx (w_pair w i j)) w)))" (is "world_inv ?w'")
proof -
  note I = world_invD [OF inv]
  let ?b = "get_end j i w"
  note logs = log_read_logs [OF refl ij, of op c "w_pair w j i" "snd cp"]
  have old: "queue_of (localPendingRecv (w_pair w j i)) = lv_pr (lview ?b)"
    by (simp add: lview_pr get_end_def)
  have D1: "dir_inv (lview (get_end i j w)) (lview ?b) s (w_sent w i j s) (w_posted w j i s) (w_done w i j s)"
    and D2: "dir_inv (lview ?b) (lview (get_end i j w)) s (w_sent w j i s) (w_posted w i j s) (w_done w j i s)" for s
    using I(5) ij by auto
  consider (data) "pre_opcode op = SEND_UNBOUND_BUFFER" | (sr) "pre_opcode op = NOTIFY_SEND_READY"
    | (rr) "pre_opcode op = NOTIFY_RECV_READY"
    using run by (cases "pre_opcode op") (auto simp: readOp_def)
  then show ?thesis
  proof cases
    case data
    with run obtain r p where r: "prepareRead_unbound op (snd ?b) = Inr (r, p)"
      and c: "c = Some r" and cp: "cp = (fst ?b, p)"
      by (auto simp: readOp_def rbind_Inr_conv)
    note P = prepareRead_unbound_implements [of "fst ?b" "snd ?b", unfolded prod.collapse, OF I(2) r]
    let ?f = "\<lambda>v. v\<lparr>lv_pr := (lv_pr v)(pre_slot op := tl (lv_pr v (pre_slot op)))\<rparr>"
    have rs: "lv_pr (lview ?b) (pre_slot op) = r # tl (lv_pr (lview ?b) (pre_slot op))"
      using P(2) by simp
    have new: "queue_of (localPendingRecv (snd cp)) = lv_pr (?f (lview ?b))"
      using P(1) by (simp add: implements_def cp lview_pr [of "(fst ?b, p)", simplified, symmetric])
    have ops: "ops_ok (lv_out (?f (lview ?b)))" using I(4) by simp
    show ?thesis
    proof (rule inv_read [OF inv ij sock P(1) [folded cp] ops _ _ refl], goal_cases)
      case (1 s a)
      show ?case
        using dir_read_data [OF 1(1) data _ rs, of s] D1 [of s] 1(2)
        by (auto simp: logs [unfolded c] old new c fun_upd_def)
    next
      case (2 s a)
      show ?case using dir_read_data_back [OF 2(1) data] D2 [of s] 2(2) by simp
    qed
  next
    case sr
    with run have h: "handleRemotePendingSend wr op ?b = Inr cp" and c: "c = None"
      by (auto simp: readOp_def rbind_Inr_conv)
    note P = handleRemotePendingSend_implements [OF I(2) h]
    let ?any = "map_option fst (findRecvFromAny (pre_slot op) (p_rank (snd ?b)) (fst ?b))"
    have new: "queue_of (localPendingRecv (snd cp)) = lv_pr (spec_on_send_ready (pre_slot op) ?any (lview ?b))"
      using P by (simp add: implements_def lview_pr [symmetric])
    show ?thesis
    proof (rule inv_read [OF inv ij sock P ops_ok_spec(3) [OF I(4)] _ _ refl], goal_cases)
      case (1 s a)
      have lp: "w_posted ?w' j i s = w_posted w j i s @
          (if s = pre_slot op \<and> lv_exp (lview ?b) s = 0 then (case ?any of None \<Rightarrow> [] | Some u \<Rightarrow> [u]) else [])"
        by (simp add: logs old new spec_on_send_ready_def spec_post_def split: option.splits)
      have ld: "w_done ?w' i j s = w_done w i j s" by (simp add: logs [unfolded c] c)
      show ?case unfolding lp ld
        using dir_read_send_ready [OF 1(1) sr, of "lview ?b" s _ _ _ ?any] D1 [of s] 1(2) by blast
    next
      case (2 s a)
      show ?case using dir_read_send_ready_back [OF 2(1) sr] D2 [of s] 2(2) by simp
    qed
  next
    case rr
    with run have h: "handleRemotePendingRecv wr op ?b = Inr cp" and c: "c = None"
      by (auto simp: readOp_def rbind_Inr_conv)
    note P = handleRemotePendingRecv_implements [OF I(2) h]
    have new: "queue_of (localPendingRecv (snd cp)) = lv_pr (spec_on_recv_ready (pre_slot op) (lview ?b))"
      using P by (simp add: implements_def lview_pr [symmetric])
    show ?thesis
    proof (rule inv_read [OF inv ij sock P ops_ok_spec(4) [OF I(4)] _ _ refl], goal_cases)
      case (1 s a)
      have lp: "w_posted ?w' j i s = w_posted w j i s"
        by (simp add: logs old new spec_on_recv_ready_def split: list.splits)
      have ld: "w_done ?w' i j s = w_done w i j s" by (simp add: logs [unfolded c] c)
      show ?case unfolding lp ld
        using dir_read_recv_ready [OF 1(1) rr, of "lview ?b" s] D1 [of s] 1(2) by blast
    next
      case (2 s a)
      show ?case using dir_read_recv_ready_back [OF 2(1) rr] D2 [of s] 2(2) by simp
    qed
  qed
qed

lemma FindRank_tallies:
  "recvFromAnyFindRank u s ranks ctx = (r, ctx') \<Longrightarrow> ctx_tallies ctx' = ctx_tallies ctx"
  by (auto simp: recvFromAnyFindRank_def Let_def split: option.splits)

lemma world_step_inv: "world_step w w' \<Longrightarrow> world_inv w \<Longrightarrow> world_inv w'"
proof (induction rule: world_step.induct)
  case (post_send i j ws b sz s off n w cp)
  then show ?case by (blast intro: inv_post_send)
next
  case (post_recv i j wr b sz s off n w cp)
  have "implements (get_end i j w) cp (spec_recv s \<lparr>uo_buf = b, uo_offset = off, uo_nbytes = n\<rparr>)"
    using post_recv world_invD(2) by (blast intro: Pair_recv_implements)
  from inv_post_recv [OF post_recv(3,1) this, of "w_try w"] show ?case by (simp add: set_end_def)
next
  case (any_register u s ranks w i ctx)
  from inv_ctx [OF any_register(2) FindRank_tallies [OF any_register(1)], of "w_try w"]
  show ?case by simp
next
  case (any_candidate u s ranks w i j ctx)
  from inv_ctx [OF any_candidate(2) FindRank_tallies [OF any_candidate(1)]]
  show ?case by blast
next
  case (any_try s u j w i wr sz r cp)
  note P = Pair_tryRecv_implements [OF world_invD(2) [OF any_try(4)] any_try(3)]
  show ?case
  proof (cases r)
    case True
    have "\<lparr>uo_buf = uo_buf u, uo_offset = uo_offset u, uo_nbytes = uo_nbytes u\<rparr> = u" by (cases u) simp
    with P True have "implements (get_end i j w) cp (spec_recv s u)" by simp
    from inv_post_recv [OF any_try(4,2) this] True show ?thesis by simp
  next
    case False
    with P have "implements (get_end i j w) cp id" by simp
    from inv_unchanged [OF any_try(4) this any_try(2)] False
    show ?thesis by (simp add: world_inv_def)
  qed
next
  case (socket_writable i j w op rest)
  then show ?case by (blast intro: inv_socket_writable)
next
  case (peer_read i j w op rest wr c cp)
  then show ?case by (blast intro: inv_peer_read)
qed

lemma world_inv_init: "world_inv world_init"
  by (auto simp: world_inv_def end_inv_def end_ok_def dir_inv_def lview_def get_end_def world_init_def
      Context_new_def Pair_connected_def queues_ok_def queue_of_def TallyState_wf_def tallies_wf_def
      tally_ranks_def sends_of_def recvs_of_def tally_at_def Tally_new_def)

lemma reachable_inv: "world_reachable w \<Longrightarrow> world_inv w"
  by (induction rule: world_reachable.induct) (auto intro: world_inv_init world_step_inv)

end
