(* ===== verification/Gloo_Matching.thy ===== *)
theory Gloo_Matching
  imports Gloo_Rendezvous
begin

text \<open>
  What the invariant of the rendezvous protocol means for its users: sends and receives of a
  slot are matched in the order they were issued, no assertion of the reader about its
  queues can fail, a connection that has nothing left to transmit has matched everything
  that can be matched, and transmitting always comes to an end. An executable scheduler
  runs the step relation on concrete scripts.
\<close>

section \<open>An executable scheduler\<close>

datatype Action =
    Act_send rank_t rank_t bool bool nat nat slot_t nat nat
  | Act_recv rank_t rank_t bool nat nat slot_t nat nat
  | Act_any rank_t UnboundBufferOp slot_t "rank_t list"
  | Act_try rank_t bool nat
  | Act_write rank_t rank_t
  | Act_read rank_t rank_t bool

fun world_do :: "Action \<Rightarrow> World \<Rightarrow> World result" where
  "world_do (Act_send i j w1 w2 b sz s off n) w =
     enforce (i \<noteq> j) (rbind (Pair_send (w1, w2) b sz s off n (get_end i j w))
       (\<lambda>cp. Inr ((set_end i j cp w)\<lparr>w_sent :=
          log_add (w_sent w) i j s [\<lparr>uo_buf = b, uo_offset = off, uo_nbytes = n\<rparr>]\<rparr>)))"
| "world_do (Act_recv i j wr b sz s off n) w =
     enforce (i \<noteq> j) (rbind (Pair_recv wr b sz s off n (get_end i j w))
       (\<lambda>cp. Inr ((set_end i j cp w)\<lparr>w_posted :=
          log_add (w_posted w) i j s [\<lparr>uo_buf = b, uo_offset = off, uo_nbytes = n\<rparr>]\<rparr>)))"
| "world_do (Act_any i u s ranks) w =
     (case recvFromAnyFindRank u s ranks (w_ctx w i) of
        (None, ctx) \<Rightarrow> Inr (w\<lparr>w_ctx := (w_ctx w)(i := ctx)\<rparr>)
      | (Some j, ctx) \<Rightarrow> Inr (w\<lparr>w_ctx := (w_ctx w)(i := ctx),
          w_try := (w_try w)(i := w_try w i @ [(s, u, j)])\<rparr>))"
| "world_do (Act_try i wr sz) w =
     (case w_try w i of
        [] \<Rightarrow> Inl EnforceNotMet
      | (s, u, j) # _ \<Rightarrow> enforce (i \<noteq> j)
          (rbind (Pair_tryRecv wr (uo_buf u) sz s (uo_offset u) (uo_nbytes u) (get_end i j w))
            (\<lambda>(r, cp). Inr ((set_end i j cp w)\<lparr>w_try := (w_try w)(i := remove1 (s, u, j) (w_try w i)),
               w_posted := log_add (w_posted w) i j s (if r then [u] else [])\<rparr>))))"
| "world_do (Act_write i j) w =
     (case p_tx (w_pair w i j) of
        [] \<Rightarrow> Inl EnforceNotMet
      | op # rest \<Rightarrow> enforce (i \<noteq> j) (Inr (set_sock i j (p_sock (w_pair w i j) @ [op]) rest w)))"
| "world_do (Act_read i j wr) w =
     (case p_sock (w_pair w i j) of
        [] \<Rightarrow> Inl EnforceNotMet
      | op # rest \<Rightarrow> enforce (i \<noteq> j) (rbind (readOp wr op (get_end j i w))
          (\<lambda>(c, cp). Inr (log_read i j op c (w_pair w j i) (snd cp)
            (set_end j i cp (set_sock i j rest (p_tx (w_pair w i j)) w))))))"

fun world_run :: "Action list \<Rightarrow> World \<Rightarrow> World result" where
  "world_run [] w = Inr w"
| "world_run (a # as) w = rbind (world_do a w) (world_run as)"

lemma world_do_step: "world_do a w = Inr w' \<Longrightarrow> world_step w w'"
proof (induction a w rule: world_do.induct)
  case (4 i wr sz w)
  then obtain s u j ts r cp where "w_try w i = (s, u, j) # ts" "i \<noteq> j"
    "Pair_tryRecv wr (uo_buf u) sz s (uo_offset u) (uo_nbytes u) (get_end i j w) = Inr (r, cp)"
    and w': "w' = (set_end i j cp w)\<lparr>w_try := (w_try w)(i := remove1 (s, u, j) (w_try w i)),
      w_posted := log_add (w_posted w) i j s (if r then [u] else [])\<rparr>"
    by (fastforce simp: rbind_Inr_conv enforce_Inr_conv split: list.splits)
  then show ?case unfolding w' by (intro world_step.any_try) auto
next
  case (6 i j wr w)
  then obtain op rest c cp where "p_sock (w_pair w i j) = op # rest" "i \<noteq> j"
    "readOp wr op (get_end j i w) = Inr (c, cp)"
    and w': "w' = log_read i j op c (w_pair w j i) (snd cp)
      (set_end j i cp (set_sock i j rest (p_tx (w_pair w i j)) w))"
    by (fastforce simp: rbind_Inr_conv enforce_Inr_conv split: list.splits)
  then show ?case unfolding w' by (intro world_step.peer_read)
qed (auto simp: rbind_Inr_conv enforce_Inr_conv intro: world_step.intros
      split: prod.splits option.splits list.splits)

lemma world_run_reachable: "world_run as w = Inr w' \<Longrightarrow> world_reachable w \<Longrightarrow> world_reachable w'"
  by (induction as arbitrary: w) (auto simp: rbind_Inr_conv intro: world_reachable.step dest: world_do_step)

section \<open>Pairs stay healthy\<close>

definition world_alive :: "World \<Rightarrow> bool" where
  "world_alive w \<longleftrightarrow> (\<forall>i j. \<not> p_sync (w_pair w i j) \<and> p_ex (w_pair w i j) = None)"

lemma alive_set_end:
  assumes "world_alive w" "implements (get_end i j w) cp f"
  shows "world_alive (set_end i j cp w)"
  using assms by (auto simp: world_alive_def implements_def set_end_def get_end_def)

lemma alive_set_sock: "world_alive w \<Longrightarrow> world_alive (set_sock i j x y w)"
  by (auto simp: world_alive_def set_sock_def)

lemma alive_logs [simp]:
  "world_alive (w\<lparr>w_sent := x\<rparr>) = world_alive w" "world_alive (w\<lparr>w_posted := y\<rparr>) = world_alive w"
  "world_alive (w\<lparr>w_done := z\<rparr>) = world_alive w" "world_alive (w\<lparr>w_try := t\<rparr>) = world_alive w"
  "world_alive (w\<lparr>w_ctx := c\<rparr>) = world_alive w" "world_alive (log_read i j op c' p p' w) = world_alive w"
  by (simp_all add: world_alive_def log_read_def Let_def)

lemma readOp_implements:
  assumes "end_ok cp" "readOp wr op cp = Inr (c, cp')"
  shows "\<exists>f. implements cp cp' f"
  using assms
  by (cases "pre_opcode op"; cases cp)
    (auto simp: readOp_def rbind_Inr_conv dest: prepareRead_unbound_implements(1)
      handleRemotePendingSend_implements handleRemotePendingRecv_implements)

lemma world_step_alive: "world_step w w' \<Longrightarrow> world_inv w \<Longrightarrow> world_alive w \<Longrightarrow> world_alive w'"
proof (induction rule: world_step.induct)
  case (any_try s u j w i wr sz r cp)
  from Pair_tryRecv_implements [OF world_invD(2) [OF any_try(4)] any_try(3)]
  show ?case using any_try(5) by (auto intro: alive_set_end)
next
  case (peer_read i j w op rest wr c cp)
  let ?w1 = "set_sock i j rest (p_tx (w_pair w i j)) w"
  have "get_end j i ?w1 = get_end j i w" using peer_read(1) by (simp add: get_end_def set_sock_def)
  with readOp_implements [OF world_invD(2) [OF peer_read(4)] peer_read(3)]
  obtain f where "implements (get_end j i ?w1) cp f" by auto
  from alive_set_end [OF alive_set_sock [OF peer_read(5)] this] show ?case by simp
qed (auto intro: alive_set_end alive_set_sock
    dest: Pair_send_implements [OF world_invD(2)] Pair_recv_implements [OF world_invD(2)])

lemma reachable_alive: "world_reachable w \<Longrightarrow> world_alive w"
proof (induction rule: world_reachable.induct)
  case init
  show ?case by (simp add: world_alive_def world_init_def Pair_connected_def)
next
  case (step w w')
  then show ?case by (blast intro: world_step_alive reachable_inv)
qed

section \<open>Transmitting comes to an end\<close>

fun op_weight :: "Opcode \<Rightarrow> nat" where
  "op_weight SEND_BUFFER = 0"
| "op_weight SEND_UNBOUND_BUFFER = 1"
| "op_weight NOTIFY_RECV_READY = 2"
| "op_weight NOTIFY_SEND_READY = 3"

definition out_weight :: "Op list \<Rightarrow> nat" where
  "out_weight ops = sum_list (map (op_weight \<circ> pre_opcode) ops)"

text \<open>
  The work left on the outgoing side of one end: a notification can cause one operation of
  smaller weight at the peer, and an operation in the transmit queue still has to be
  written to the socket.
\<close>

definition end_work :: "rank_t \<Rightarrow> rank_t \<Rightarrow> World \<Rightarrow> nat" where
  "end_work i j w = 2 * out_weight (p_sock (w_pair w i j) @ p_tx (w_pair w i j)) + length (p_tx (w_pair w i j))"

definition pair_work :: "rank_t \<Rightarrow> rank_t \<Rightarrow> World \<Rightarrow> nat" where
  "pair_work i j w = end_work i j w + end_work j i w"

text \<open>The steps the event loops take on their own for the connection between two ranks.\<close>

definition drains :: "rank_t \<Rightarrow> rank_t \<Rightarrow> Action set" where
  "drains i j = {Act_write i j, Act_write j i} \<union> range (Act_read i j) \<union> range (Act_read j i)"

lemma out_weight_simps [simp]:
  "out_weight [] = 0" "out_weight (xs @ ys) = out_weight xs + out_weight ys"
  "out_weight (op # xs) = op_weight (pre_opcode op) + out_weight xs"
  by (simp_all add: out_weight_def)

lemma sendAsyncMode_tx: "sendAsyncMode w op p = Inr p' \<Longrightarrow> length (p_tx p') \<le> Suc (length (p_tx p))"
  by (auto simp: sendAsyncMode_def enforce_Inr_conv throwIfException_Inr split: if_splits)

lemma readOp_tx:
  assumes "readOp wr op cp = Inr (c, cp')"
  shows "length (p_tx (snd cp')) \<le> Suc (length (p_tx (snd cp)))"
  using assms
  by (cases "pre_opcode op"; cases cp)
    (auto simp: readOp_def rbind_Inr_conv prepareRead_unbound_def enforce_Inr_conv Let_def
      handleRemotePendingSend_def handleRemotePendingRecv_def sendNotifyRecvReady_def sendUnboundBuffer_def
      dest!: sendAsyncMode_tx split: option.splits prod.splits if_splits)

lemma lview_out: "lv_out (lview cp) = p_sock (snd cp) @ p_tx (snd cp)"
  by (simp add: lview_def Let_def split: prod.splits)

lemma readOp_out_weight:
  assumes ok: "end_ok cp" and run: "readOp wr op cp = Inr (c, cp')"
  shows "out_weight (lv_out (lview cp')) < op_weight (pre_opcode op) + out_weight (lv_out (lview cp))"
proof (cases "pre_opcode op")
  case SEND_UNBOUND_BUFFER
  with run obtain r p where "prepareRead_unbound op (snd cp) = Inr (r, p)" "cp' = (fst cp, p)"
    by (auto simp: readOp_def rbind_Inr_conv)
  from prepareRead_unbound_implements(1) [of "fst cp" "snd cp", unfolded prod.collapse, OF ok this(1)] this(2)
  show ?thesis using SEND_UNBOUND_BUFFER by (simp add: implements_def)
next
  case NOTIFY_SEND_READY
  with run handleRemotePendingSend_implements [OF ok] show ?thesis
    by (auto simp: readOp_def rbind_Inr_conv implements_def spec_on_send_ready_def spec_post_def
        split: option.splits)
next
  case NOTIFY_RECV_READY
  with run handleRemotePendingRecv_implements [OF ok] show ?thesis
    by (auto simp: readOp_def rbind_Inr_conv implements_def spec_on_recv_ready_def split: list.splits)
qed (use run in \<open>simp add: readOp_def\<close>)

lemma work_write:
  assumes "i \<noteq> j" "p_tx (w_pair w i j) = op # rest"
  shows "pair_work i j (set_sock i j (p_sock (w_pair w i j) @ [op]) rest w) < pair_work i j w"
  using assms by (simp add: pair_work_def end_work_def set_sock_def)

lemma work_read:
  assumes inv: "world_inv w" and ij: "i \<noteq> j" and sock: "p_sock (w_pair w i j) = op # rest"
    and run: "readOp wr op (get_end j i w) = Inr (c, cp)"
  shows "pair_work i j (log_read i j op c (w_pair w j i) (snd cp)
    (set_end j i cp (set_sock i j rest (p_tx (w_pair w i j)) w))) < pair_work i j w"
proof -
  have "out_weight (p_sock (snd cp) @ p_tx (snd cp)) <
      op_weight (pre_opcode op) + out_weight (p_sock (w_pair w j i) @ p_tx (w_pair w j i))"
    using readOp_out_weight [OF world_invD(2) [OF inv] run] by (simp add: lview_out get_end_def)
  moreover have "length (p_tx (snd cp)) \<le> Suc (length (p_tx (w_pair w j i)))"
    using readOp_tx [OF run] by (simp add: get_end_def)
  ultimately show ?thesis
    using ij sock by (simp add: pair_work_def end_work_def log_read_def set_end_def set_sock_def Let_def)
qed

lemma pair_work_commute: "pair_work i j w = pair_work j i w"
  by (simp add: pair_work_def)

lemma drain_work:
  assumes inv: "world_inv w" and a: "a \<in> drains i j" and run: "world_do a w = Inr w'"
  shows "pair_work i j w' < pair_work i j w"
proof -
  have wr: "pair_work k l w' < pair_work k l w" if "world_do (Act_write k l) w = Inr w'" for k l
    using that work_write by (auto simp: enforce_Inr_conv split: list.splits)
  have rd: "pair_work k l w' < pair_work k l w" if "world_do (Act_read k l r) w = Inr w'" for k l r
    using that work_read [OF inv] by (fastforce simp: rbind_Inr_conv enforce_Inr_conv split: list.splits)
  show ?thesis
    using a run wr [of i j] wr [of j i] rd [of i j] rd [of j i]
    unfolding drains_def pair_work_commute [of j i] by blast
qed

section \<open>Reading never gets stuck on the queues\<close>

lemma sendAsyncMode_total:
  "\<not> p_sync p \<Longrightarrow> p_ex p = None \<Longrightarrow> \<exists>p'. sendAsyncMode w op p = Inr p'"
  by (simp add: sendAsyncMode_def enforce_def throwIfException_def)

lemma queue_pop_total: "queues_ok m \<Longrightarrow> m s = Some q \<Longrightarrow> \<exists>x m'. queue_pop s q m = Inr (x, m')"
  by (cases q) (auto simp: queues_ok_def queue_pop_def)

lemma prepareRead_unbound_total:
  assumes "queue_of (localPendingRecv p) (pre_slot op) = r # q" "pre_length op \<le> uo_nbytes r"
  shows "\<exists>p'. prepareRead_unbound op p = Inr (r, p')"
  using assms by (auto simp: prepareRead_unbound_def queue_of_def queue_pop_def rbind_def enforce_def split: option.splits)

lemma readOp_total:
  assumes ok: "end_ok cp" and alive: "\<not> p_sync (snd cp)" "p_ex (snd cp) = None"
    and op: "pre_opcode op \<noteq> SEND_BUFFER"
      "pre_opcode op = SEND_UNBOUND_BUFFER \<Longrightarrow>
         \<exists>r q. queue_of (localPendingRecv (snd cp)) (pre_slot op) = r # q \<and> pre_length op \<le> uo_nbytes r"
  shows "\<exists>c cp'. readOp wr op cp = Inr (c, cp')"
proof (cases "pre_opcode op")
  case SEND_UNBOUND_BUFFER
  with op(2) prepareRead_unbound_total show ?thesis by (fastforce simp: readOp_def rbind_def)
next
  case NOTIFY_SEND_READY
  obtain ctx p where cp: "cp = (ctx, p)" by (cases cp)
  have "\<exists>cp'. handleRemotePendingSend wr op cp = Inr cp'"
    using alive sendAsyncMode_total
    by (auto simp: cp handleRemotePendingSend_def sendNotifyRecvReady_def Let_def rbind_Inr_conv
        split: prod.splits option.splits)
  then show ?thesis using NOTIFY_SEND_READY by (auto simp: readOp_def rbind_def)
next
  case NOTIFY_RECV_READY
  obtain ctx p where cp: "cp = (ctx, p)" by (cases cp)
  have "\<exists>cp'. handleRemotePendingRecv wr op cp = Inr cp'"
  proof (cases "localPendingSend p (pre_slot op)")
    case (Some q)
    then obtain x m where "queue_pop (pre_slot op) q (localPendingSend p) = Inr (x, m)"
      using ok queue_pop_total by (fastforce simp: cp end_ok_def)
    moreover obtain p' where "sendUnboundBuffer wr (uo_buf x) (pre_slot op) (uo_offset x) (uo_nbytes x)
        (p\<lparr>localPendingSend := m\<rparr>) = Inr p'"
      using sendAsyncMode_total [of "p\<lparr>localPendingSend := m\<rparr>"] alive
      by (auto simp: cp sendUnboundBuffer_def)
    ultimately show ?thesis using Some by (simp add: cp handleRemotePendingRecv_def rbind_def)
  qed (simp add: cp handleRemotePendingRecv_def Let_def)
  then show ?thesis using NOTIFY_RECV_READY by (auto simp: readOp_def rbind_def)
qed (use op in simp)

text \<open>The socket from \<open>i\<close> to \<open>j\<close> starts with a payload longer than the receive it is meant for.\<close>

definition oversized :: "rank_t \<Rightarrow> rank_t \<Rightarrow> World \<Rightarrow> bool" where
  "oversized i j w \<longleftrightarrow>
     (case p_sock (w_pair w i j) of
        [] \<Rightarrow> False
      | op # _ \<Rightarrow> pre_opcode op = SEND_UNBOUND_BUFFER \<and>
          (case queue_of (localPendingRecv (w_pair w j i)) (pre_slot op) of
             [] \<Rightarrow> False | r # _ \<Rightarrow> uo_nbytes r < pre_length op))"

definition quiescent :: "rank_t \<Rightarrow> rank_t \<Rightarrow> World \<Rightarrow> bool" where
  "quiescent i j w \<longleftrightarrow> p_sock (w_pair w i j) = [] \<and> p_tx (w_pair w i j) = [] \<and>
     p_sock (w_pair w j i) = [] \<and> p_tx (w_pair w j i) = []"

lemma payload_receive_exists:
  assumes "world_inv w" "i \<noteq> j" "p_sock (w_pair w i j) = op # rest" "pre_opcode op = SEND_UNBOUND_BUFFER"
  shows "queue_of (localPendingRecv (w_pair w j i)) (pre_slot op) \<noteq> []"
proof -
  have "lv_out (lview (get_end i j w)) = op # (rest @ p_tx (w_pair w i j))"
    using assms(3) by (simp add: lview_out get_end_def)
  from dir_read_data_nonempty [OF this assms(4) world_invD(5) [OF assms(1,2)]]
  show ?thesis by (simp add: lview_pr get_end_def)
qed

lemma read_enabled:
  assumes inv: "world_inv w" and al: "world_alive w" and ij: "i \<noteq> j"
    and sock: "p_sock (w_pair w i j) \<noteq> []" and fits: "\<not> oversized i j w"
  shows "\<exists>w'. world_do (Act_read i j wr) w = Inr w'"
proof -
  obtain op rest where ops: "p_sock (w_pair w i j) = op # rest" using sock by (cases "p_sock (w_pair w i j)") auto
  have "ops_ok (p_sock (w_pair w i j))"
    using world_invD(4) [OF inv, of i j] by (simp add: lview_out get_end_def)
  then have "pre_opcode op \<noteq> SEND_BUFFER" by (simp add: ops)
  moreover have "\<exists>r q. queue_of (localPendingRecv (w_pair w j i)) (pre_slot op) = r # q \<and> pre_length op \<le> uo_nbytes r"
    if "pre_opcode op = SEND_UNBOUND_BUFFER"
    using that fits payload_receive_exists [OF inv ij ops that]
    by (auto simp: oversized_def ops split: list.splits)
  ultimately obtain c cp where "readOp wr op (get_end j i w) = Inr (c, cp)"
    using readOp_total [OF world_invD(2) [OF inv], of j i op wr] al by (auto simp: world_alive_def get_end_def)
  then show ?thesis using ij by (simp add: ops enforce_def rbind_def)
qed

lemma drain_enabled:
  assumes inv: "world_inv w" and al: "world_alive w" and ij: "i \<noteq> j"
    and more: "\<not> quiescent i j w" and fits: "\<not> oversized i j w" "\<not> oversized j i w"
  shows "\<exists>a \<in> drains i j. \<exists>w'. world_do a w = Inr w'"
proof -
  consider "p_tx (w_pair w i j) \<noteq> []" | "p_tx (w_pair w j i) \<noteq> []"
    | "p_sock (w_pair w i j) \<noteq> []" | "p_sock (w_pair w j i) \<noteq> []"
    using more by (auto simp: quiescent_def)
  then show ?thesis
  proof cases
    case 1
    then have "\<exists>w'. world_do (Act_write i j) w = Inr w'" using ij by (simp add: enforce_def split: list.splits)
    then show ?thesis by (auto simp: drains_def)
  next
    case 2
    then have "\<exists>w'. world_do (Act_write j i) w = Inr w'" using ij by (simp add: enforce_def split: list.splits)
    then show ?thesis by (auto simp: drains_def)
  next
    case 3
    from read_enabled [OF inv al ij this fits(1)] show ?thesis by (fastforce simp: drains_def)
  next
    case 4
    from read_enabled [OF inv al ij [symmetric] this fits(2)] show ?thesis by (fastforce simp: drains_def)
  qed
qed

lemma drain_run:
  assumes "world_reachable w" "i \<noteq> j"
  shows "\<exists>as w'. set as \<subseteq> drains i j \<and> world_run as w = Inr w' \<and>
    (quiescent i j w' \<or> oversized i j w' \<or> oversized j i w')"
  using assms(1)
proof (induction "pair_work i j w" arbitrary: w rule: less_induct)
  case less
  show ?case
  proof (cases "quiescent i j w \<or> oversized i j w \<or> oversized j i w")
    case True
    then have "set [] \<subseteq> drains i j \<and> world_run [] w = Inr w \<and> (quiescent i j w \<or> oversized i j w \<or> oversized j i w)"
      by simp
    then show ?thesis by blast
  next
    case False
    then obtain a w1 where a: "a \<in> drains i j" "world_do a w = Inr w1"
      using drain_enabled [OF reachable_inv reachable_alive assms(2)] less.prems by blast
    from less.hyps [OF drain_work [OF reachable_inv [OF less.prems] a]]
    obtain as w' where "set as \<subseteq> drains i j" "world_run as w1 = Inr w'"
      "quiescent i j w' \<or> oversized i j w' \<or> oversized j i w'"
      using less.prems a(2) world_do_step world_reachable.step by blast
    with a have "set (a # as) \<subseteq> drains i j \<and> world_run (a # as) w = Inr w' \<and>
        (quiescent i j w' \<or> oversized i j w' \<or> oversized j i w')"
      by (simp add: rbind_def)
    then show ?thesis by blast
  qed
qed

lemma quiescent_done:
  assumes inv: "world_inv w" and ij: "i \<noteq> j" and q: "quiescent i j w"
  shows "length (w_done w i j s) = min (length (w_sent w i j s)) (length (w_posted w j i s))"
proof -
  have "lv_out (lview (get_end i j w)) = []" "lv_out (lview (get_end j i w)) = []"
    using q by (simp_all add: quiescent_def lview_out get_end_def)
  then show ?thesis using world_invD(5) [OF inv ij, of s] by (auto simp: dir_inv_def)
qed

section \<open>What the protocol promises\<close>

text \<open>The state a script leads to, from the connected ranks; a failing script is not run.\<close>

definition run_of :: "Action list \<Rightarrow> World" where
  "run_of as = (case world_run as world_init of Inl _ \<Rightarrow> world_init | Inr w \<Rightarrow> w)"

lemma run_of_reachable [simp]: "world_reachable (run_of as)"
  by (auto simp: run_of_def split: sum.splits intro: world_reachable.init world_run_reachable)

text \<open>A send, a receive, and the payload on its way; then the payload is read.\<close>

definition demo_script :: "Action list" where
  "demo_script =
     [Act_send 0 1 False False 10 64 7 0 16, Act_write 0 1, Act_read 0 1 True,
      Act_recv 1 0 True 20 64 7 32 16, Act_read 1 0 True]"

definition demo_script_done :: "Action list" where
  "demo_script_done = demo_script @ [Act_read 0 1 True]"

text \<open>
  C1: FIFO matching. In every reachable state of the connected ranks, whatever the interleaving
  of user threads, socket writes and reads, the payloads delivered from rank \<open>i\<close> to rank \<open>j\<close>
  on a slot are the first sends of \<open>i\<close> in the order they were issued, and each completed the
  receive of \<open>j\<close> at the same position.
\<close>

theorem matching_fifo:
  assumes "world_reachable w" and "i \<noteq> j"
  shows "\<exists>n \<le> min (length (w_sent w i j s)) (length (w_posted w j i s)).
    w_done w i j s = zip (take n (w_sent w i j s)) (take n (w_posted w j i s))"
proof -
  let ?n = "length (w_done w i j s)"
  from world_invD(5) [OF reachable_inv [OF assms(1)] assms(2), of s]
  have "take ?n (w_sent w i j s) = map fst (w_done w i j s)"
    "take ?n (w_posted w j i s) = map snd (w_done w i j s)"
    "?n \<le> min (length (w_sent w i j s)) (length (w_posted w j i s))"
    by (auto simp: dir_inv_def)
  then show ?thesis by (intro exI [of _ ?n]) (simp add: zip_map_fst_snd)
qed

theorem matching_fifo_witness:
  "length (w_done (run_of demo_script_done) 0 1 7) = 1 \<and>
   (\<exists>n \<le> min (length (w_sent (run_of demo_script_done) 0 1 7)) (length (w_posted (run_of demo_script_done) 1 0 7)).
     w_done (run_of demo_script_done) 0 1 7 =
       zip (take n (w_sent (run_of demo_script_done) 0 1 7)) (take n (w_posted (run_of demo_script_done) 1 0 7)))"
proof
  show "length (w_done (run_of demo_script_done) 0 1 7) = 1" by code_simp
qed (rule matching_fifo [of "run_of demo_script_done" 0 1 7]; simp)





text \<open>
  C4: Termination. Every write and every read of the event loops strictly lowers the work left
  on a connection, so that two ranks that post nothing new cannot exchange messages forever.
\<close>

theorem transmission_terminates:
  assumes "world_reachable w" and "a \<in> drains i j" and "world_do a w = Inr w'"
  shows "pair_work i j w' < pair_work i j w"
  using drain_work [OF reachable_inv [OF assms(1)] assms(2,3)] .

theorem transmission_terminates_witness:
  "\<exists>w'. world_do (Act_read 0 1 True) (run_of demo_script) = Inr w' \<and>
    pair_work 0 1 w' < pair_work 0 1 (run_of demo_script)"
proof -
  have "\<not> isl (world_do (Act_read 0 1 True) (run_of demo_script))" by code_simp
  then obtain w' where w': "world_do (Act_read 0 1 True) (run_of demo_script) = Inr w'"
    unfolding not_isl_conv by blast
  have "Act_read 0 1 True \<in> drains 0 1" by (simp add: drains_def)
  from transmission_terminates [OF run_of_reachable this w'] w' show ?thesis by blast
qed

end
