(* ===== verification/Gloo_Packet.thy ===== *)
theory Gloo_Packet
  imports Gloo_Prelude
begin

text \<open>
  The packets of the datagram transport (\<open>gloo/packet.h\<close>): the 26-byte header, its encoding and
  its two decoders, and the packet number space. The byte order of the machine, which
  selects between the two halves of every \<open>IS_BIG_ENDIAN\<close> conditional, is the argument \<open>be\<close>.
\<close>

unbundle bit_operations_syntax

type_synonym bytes = "8 word list"

section \<open>Headers\<close>

datatype Type =
    Retry | Handshake | Application | ElicitAck | ACK | Stop | Fin | StartAck | Unknown

record Header =
  ty :: Type
  pkt_num :: "64 word"
  priority :: "8 word"
  hdr_offset :: "64 word"
  pkt_length :: "64 word"

definition Header_len :: nat where
  "Header_len = 26"

text \<open>
  \<open>get_u8\<close> indexes without a check, and \<open>get_u64\<close> copies a slice by iterators: outside the vector
  both are undefined. \<open>put_u8\<close> uses the checked \<open>at\<close>, and \<open>put_u64\<close> copies by iterators.
\<close>

definition get_u8 :: "bytes \<Rightarrow> nat \<Rightarrow> 8 word result" where
  "get_u8 vec position = (if position < length vec then Inr (vec ! position) else Inl UndefinedBehavior)"

definition u64_shift :: "bool \<Rightarrow> nat \<Rightarrow> nat" where
  "u64_shift be i = (if be then (7 - i) * 8 else i * 8)"

definition get_u64 :: "bool \<Rightarrow> bytes \<Rightarrow> nat \<Rightarrow> 64 word result" where
  "get_u64 be vec start =
     (if start + 8 \<le> length vec
      then (let data_slice = read_at start 8 vec
            in Inr (fold (\<lambda>i value. value OR push_bit (u64_shift be i) (ucast (data_slice ! i))) [0..<8] 0))
      else Inl UndefinedBehavior)"

definition put_u8 :: "bytes \<Rightarrow> 8 word \<Rightarrow> nat \<Rightarrow> bytes result" where
  "put_u8 vec input position = (if position < length vec then Inr (vec[position := input]) else Inl OutOfRange)"

definition u64_bytes :: "bool \<Rightarrow> 64 word \<Rightarrow> bytes" where
  "u64_bytes be input = map (\<lambda>i. ucast (drop_bit (u64_shift be i) input)) [0..<8]"

definition put_u64 :: "bool \<Rightarrow> bytes \<Rightarrow> 64 word \<Rightarrow> nat \<Rightarrow> bytes result" where
  "put_u64 be vec input position =
     (if position + 8 \<le> length vec then Inr (write_at position (u64_bytes be input) vec)
      else Inl UndefinedBehavior)"

text \<open>
  The chain of comparisons that turns the first byte into a type. Its last test is the
  assignment \<open>first = 0x08\<close>, whose value is always true.
\<close>

definition decode_type :: "8 word \<Rightarrow> Type" where
  "decode_type first =
     (if first = 0x01 then Retry
      else if first = 0x02 then Handshake
      else if first = 0x03 then Application
      else if first = 0x04 then ElicitAck
      else if first = 0x05 then ACK
      else if first = 0x06 then Stop
      else if first = 0x07 then Fin
      else (let first = 0x08 :: 8 word in if first \<noteq> 0 then StartAck else Unknown))"

fun encode_type :: "Type \<Rightarrow> 8 word" where
  "encode_type Retry = 0x01"
| "encode_type Handshake = 0x02"
| "encode_type Application = 0x03"
| "encode_type ElicitAck = 0x04"
| "encode_type ACK = 0x05"
| "encode_type Stop = 0x06"
| "encode_type Fin = 0x07"
| "encode_type StartAck = 0x08"
| "encode_type Unknown = 0x09"

definition from_slice :: "bool \<Rightarrow> bytes \<Rightarrow> Header result" where
  "from_slice be b =
     rbind (get_u8 b 0) (\<lambda>first.
     rbind (get_u64 be b 1) (\<lambda>second.
     rbind (get_u8 b 9) (\<lambda>third.
     rbind (get_u64 be b 10) (\<lambda>forth.
     rbind (get_u64 be b 18) (\<lambda>fifth.
       Inr \<lparr>ty = decode_type first, pkt_num = second, priority = third,
            hdr_offset = forth, pkt_length = fifth\<rparr>)))))"

text \<open>
  \<open>from_bytes\<close> reads the integers by casting the address, that is, in the byte order of the
  machine; \<open>load_u64\<close> is that load.
\<close>

definition load_u64 :: "bool \<Rightarrow> bytes \<Rightarrow> nat \<Rightarrow> 64 word result" where
  "load_u64 be b off =
     (if off + 8 \<le> length b
      then Inr (foldr (\<lambda>byte acc. push_bit 8 acc OR ucast byte)
             (if be then rev (read_at off 8 b) else read_at off 8 b) 0)
      else Inl UndefinedBehavior)"

definition from_bytes :: "bool \<Rightarrow> bytes \<Rightarrow> Header result" where
  "from_bytes be b =
     rbind (get_u8 b 0) (\<lambda>first.
     rbind (load_u64 be b 1) (\<lambda>second.
     rbind (get_u8 b 9) (\<lambda>third.
     rbind (load_u64 be b 10) (\<lambda>forth.
     rbind (load_u64 be b 18) (\<lambda>fifth.
       Inr \<lparr>ty = decode_type first, pkt_num = second, priority = third,
            hdr_offset = forth, pkt_length = fifth\<rparr>)))))"

definition to_bytes :: "bool \<Rightarrow> Header \<Rightarrow> bytes \<Rightarrow> bytes result" where
  "to_bytes be h out =
     rbind (put_u8 out (encode_type (ty h)) 0) (\<lambda>out.
     rbind (put_u64 be out (pkt_num h) 1) (\<lambda>out.
     rbind (put_u8 out (priority h) 9) (\<lambda>out.
     rbind (put_u64 be out (hdr_offset h) 10) (\<lambda>out.
     put_u64 be out (pkt_length h) 18))))"

section \<open>Packet numbers\<close>

record PktNumSpace =
  next_pkt_num :: nat
  priority_record :: "nat \<rightharpoonup> nat"
  record_ :: "nat \<rightharpoonup> nat \<times> nat"

definition PktNumSpace_new :: PktNumSpace where
  "PktNumSpace_new = \<lparr>next_pkt_num = 0, priority_record = Map.empty, record_ = Map.empty\<rparr>"

definition updatepktnum :: "PktNumSpace \<Rightarrow> nat \<times> PktNumSpace" where
  "updatepktnum s = (let s = s\<lparr>next_pkt_num := u64_add (next_pkt_num s) 1\<rparr> in (u64_sub (next_pkt_num s) 1, s))"

definition PktNumSpace_reset :: "PktNumSpace \<Rightarrow> PktNumSpace" where
  "PktNumSpace_reset s = s\<lparr>next_pkt_num := 0\<rparr>"

section \<open>Encoding and decoding are inverse\<close>

lemma u64_bytes_length [simp]: "length (u64_bytes be x) = 8"
  by (simp add: u64_bytes_def)

lemma upt_8: "[0..<8] = [0, 1, 2, 3, 4, 5, 6, 7 :: nat]"
  by (simp add: upt_rec)

lemma bit_fold_or: "bit (fold (\<lambda>i v. v OR f i) is v0) n \<longleftrightarrow> bit (v0 :: 64 word) n \<or> (\<exists>i \<in> set is. bit (f i) n)"
  by (induction "is" arbitrary: v0) (auto simp: bit_simps)

lemma bit_byte_of:
  "n < 64 \<Longrightarrow> bit (push_bit m (ucast (ucast (drop_bit m x) :: 8 word)) :: 64 word) n \<longleftrightarrow>
     m \<le> n \<and> n < m + 8 \<and> bit (x :: 64 word) n"
  by (auto simp: bit_simps)

lemma u64_shift_cover: "n < 64 \<Longrightarrow> \<exists>i < 8. u64_shift be i \<le> n \<and> n < u64_shift be i + 8"
proof -
  assume "n < 64"
  then have "n div 8 < 8" and split: "n = n div 8 * 8 + n mod 8" and "n mod 8 < 8" by simp_all
  then have "u64_shift be (if be then 7 - n div 8 else n div 8) = n div 8 * 8"
    by (auto simp: u64_shift_def)
  with \<open>n div 8 < 8\<close> \<open>n mod 8 < 8\<close> split show ?thesis
    by (intro exI [of _ "if be then 7 - n div 8 else n div 8"]) auto
qed

lemma gather_bytes:
  "fold (\<lambda>i v. v OR push_bit (u64_shift be i) (ucast (u64_bytes be x ! i))) [0..<8] 0 = (x :: 64 word)"
proof (rule bit_word_eqI)
  fix n assume "n < LENGTH(64)"
  then have n: "n < 64" by simp
  have "bit (push_bit (u64_shift be i) (ucast (u64_bytes be x ! i)) :: 64 word) n \<longleftrightarrow>
      u64_shift be i \<le> n \<and> n < u64_shift be i + 8 \<and> bit x n" if "i < 8" for i
    using bit_byte_of [OF n] that by (simp add: u64_bytes_def)
  then show "bit (fold (\<lambda>i v. v OR push_bit (u64_shift be i) (ucast (u64_bytes be x ! i))) [0..<8] (0 :: 64 word)) n = bit x n"
    using u64_shift_cover [OF n, of be] by (auto simp: bit_fold_or)
qed

lemma get_put_u64:
  assumes "pos + 8 \<le> length vec"
  shows "\<exists>vec'. put_u64 be vec x pos = Inr vec' \<and> length vec' = length vec \<and> get_u64 be vec' pos = Inr x"
proof -
  have "read_at pos 8 (write_at pos (u64_bytes be x) vec) = u64_bytes be x"
    using read_write_same [of pos "u64_bytes be x" vec] assms by simp
  then show ?thesis
    using assms gather_bytes [of be x] by (simp add: put_u64_def get_u64_def length_write_at)
qed

lemma bit_horner:
  "bit (foldr (\<lambda>byte acc. push_bit 8 acc OR ucast byte) bs (0 :: 64 word)) n \<longleftrightarrow>
     n < 64 \<and> n div 8 < length bs \<and> bit (bs ! (n div 8) :: 8 word) (n mod 8)"
proof (induction bs arbitrary: n)
  case (Cons b bs)
  show ?case
  proof (cases "n < 8")
    case True
    then show ?thesis by (simp add: bit_simps)
  next
    case False
    then obtain m where n: "n = 8 + m" using le_Suc_ex [of 8 n] by auto
    have dv: "(8 + m) div 8 = Suc (m div 8)" by simp
    show ?thesis
      using bit_imp_le_length [of "foldr (\<lambda>byte acc. push_bit 8 acc OR ucast byte) bs (0 :: 64 word)" m]
      by (auto simp: n dv Cons.IH bit_simps dest: bit_imp_le_length)
  qed
qed simp

lemma bit_gather:
  assumes "length bs = 8"
  shows "bit (fold (\<lambda>i v. v OR push_bit (u64_shift be i) (ucast (bs ! i))) [0..<8] (0 :: 64 word)) n \<longleftrightarrow>
     n < 64 \<and> bit ((if be then rev bs else bs) ! (n div 8) :: 8 word) (n mod 8)"
proof -
  have byte: "bit (push_bit (u64_shift be i) (ucast (bs ! i)) :: 64 word) n \<longleftrightarrow>
      n < 64 \<and> u64_shift be i \<le> n \<and> n < u64_shift be i + 8 \<and> bit (bs ! i) (n - u64_shift be i)" for i
    using bit_imp_le_length [of "bs ! i" "n - u64_shift be i"] by (auto simp: bit_simps)
  have idx: "n < 64 \<and> u64_shift be i \<le> n \<and> n < u64_shift be i + 8 \<longleftrightarrow>
      n < 64 \<and> i = (if be then 7 - n div 8 else n div 8)" if "i < 8" for i
    using that by (auto simp: u64_shift_def)
  let ?i = "if be then 7 - n div 8 else n div 8"
  have i: "?i < 8" "n - u64_shift be ?i = n mod 8" if "n < 64"
  proof -
    have "n div 8 < 8" using that by simp
    then show "?i < 8" "n - u64_shift be ?i = n mod 8"
      by (auto simp: u64_shift_def minus_div_mult_eq_mod)
  qed
  have "(\<exists>i < 8. n < 64 \<and> u64_shift be i \<le> n \<and> n < u64_shift be i + 8 \<and> bit (bs ! i) (n - u64_shift be i)) \<longleftrightarrow>
      n < 64 \<and> bit (bs ! ?i) (n mod 8)"
  proof (intro iffI; elim exE conjE)
    fix i assume "i < 8" "n < 64" "u64_shift be i \<le> n" "n < u64_shift be i + 8" "bit (bs ! i) (n - u64_shift be i)"
    then show "n < 64 \<and> bit (bs ! ?i) (n mod 8)" using idx [of i] i(2) by simp
  next
    assume "n < 64" "bit (bs ! ?i) (n mod 8)"
    then show "\<exists>i < 8. n < 64 \<and> u64_shift be i \<le> n \<and> n < u64_shift be i + 8 \<and> bit (bs ! i) (n - u64_shift be i)"
      using i idx [of ?i] by (intro exI [of _ ?i]) simp
  qed
  also have "\<dots> \<longleftrightarrow> n < 64 \<and> bit ((if be then rev bs else bs) ! (n div 8)) (n mod 8)"
    using assms by (cases "n < 64") (auto simp: rev_nth less_mult_imp_div_less)
  finally show ?thesis by (auto simp: bit_fold_or byte)
qed

lemma load_u64_eq: "load_u64 be b off = get_u64 be b off"
proof -
  have "foldr (\<lambda>byte acc. push_bit 8 acc OR ucast byte) (if be then rev bs else bs) (0 :: 64 word) =
      fold (\<lambda>i v. v OR push_bit (u64_shift be i) (ucast (bs ! i))) [0..<8] 0"
    if "length bs = 8" for bs :: bytes
    using that by (intro bit_word_eqI) (auto simp: bit_horner bit_gather)
  then show ?thesis by (simp add: load_u64_def get_u64_def length_read_at)
qed

lemma from_bytes_eq_from_slice: "from_bytes be b = from_slice be b"
  by (simp add: from_bytes_def from_slice_def load_u64_eq)

text \<open>The bytes of a header, as they stand on the wire.\<close>

definition header_bytes :: "bool \<Rightarrow> Header \<Rightarrow> bytes" where
  "header_bytes be h =
     encode_type (ty h) # u64_bytes be (pkt_num h) @ priority h #
       u64_bytes be (hdr_offset h) @ u64_bytes be (pkt_length h)"

lemma header_bytes_length [simp]: "length (header_bytes be h) = 26"
  by (simp add: header_bytes_def)

lemma write_at_mid:
  "pos = length xs \<Longrightarrow> length ys = length zs \<Longrightarrow> write_at pos zs (xs @ ys @ rest) = xs @ zs @ rest"
  by (simp add: write_at_def)

lemma read_at_mid: "pos = length xs \<Longrightarrow> n = length ys \<Longrightarrow> read_at pos n (xs @ ys @ rest) = ys"
  by (simp add: read_at_def)

lemma put_u64_mid:
  "pos = length xs \<Longrightarrow> length ys = 8 \<Longrightarrow> put_u64 be (xs @ ys @ rest) x pos = Inr (xs @ u64_bytes be x @ rest)"
  by (simp add: put_u64_def write_at_mid)

lemma get_u64_mid: "pos = length xs \<Longrightarrow> get_u64 be (xs @ u64_bytes be x @ rest) pos = Inr x"
  using gather_bytes [of be x] by (simp add: get_u64_def read_at_mid)

lemma split_header:
  assumes "26 \<le> length (out :: bytes)"
  obtains a A b B C where "out = a # A @ b # B @ C @ drop 26 out" "length A = 8" "length B = 8" "length C = 8"
proof -
  obtain a out1 where 1: "out = a # out1" using assms by (cases out) auto
  obtain b out2 where 2: "drop 8 out1 = b # out2" using assms 1 by (cases "drop 8 out1") auto
  have d: "drop 26 out = drop 16 out2"
  proof -
    have "drop 26 out = drop 17 (drop 8 out1)" by (simp add: 1)
    then show ?thesis by (simp add: 2)
  qed
  have "out1 = take 8 out1 @ b # take 8 out2 @ take 8 (drop 8 out2) @ drop 26 out"
    using append_take_drop_id [of 8 out1] append_take_drop_id [of 8 out2]
      append_take_drop_id [of 8 "drop 8 out2"] by (simp add: 2 d)
  moreover have "length out2 + 10 = length out"
  proof -
    have "length (drop 8 out1) = Suc (length out2)" by (simp add: 2)
    then show ?thesis using assms 1 by simp
  qed
  ultimately show thesis using that [of a "take 8 out1" b "take 8 out2" "take 8 (drop 8 out2)"] 1 assms by simp
qed

lemma to_bytes_eq: "26 \<le> length out \<Longrightarrow> to_bytes be h out = Inr (header_bytes be h @ drop 26 out)"
proof -
  assume "26 \<le> length out"
  then obtain a A b B C where out: "out = a # A @ b # B @ C @ drop 26 out"
    and len: "length A = 8" "length B = 8" "length C = 8" by (rule split_header)
  let ?r = "drop 26 out" and ?e = "encode_type (ty h)"
  have "to_bytes be h (a # A @ b # B @ C @ ?r) = Inr (header_bytes be h @ ?r)"
    using put_u64_mid [of 1 "[?e]" A be "b # B @ C @ ?r" "pkt_num h"]
      put_u64_mid [of 10 "?e # u64_bytes be (pkt_num h) @ [priority h]" B be "C @ ?r" "hdr_offset h"]
      put_u64_mid [of 18 "?e # u64_bytes be (pkt_num h) @ priority h # u64_bytes be (hdr_offset h)" C be ?r "pkt_length h"]
    by (simp add: to_bytes_def put_u8_def len header_bytes_def list_update_append)
  then show ?thesis using out by simp
qed

lemma decode_encode: "decode_type (encode_type t) = (if t = Unknown then StartAck else t)"
  by (cases t) (simp_all add: decode_type_def Let_def)

lemma from_slice_header:
  "from_slice be (header_bytes be h @ rest) = Inr (h\<lparr>ty := if ty h = Unknown then StartAck else ty h\<rparr>)"
  using get_u64_mid [of 1 "[encode_type (ty h)]" be "pkt_num h"
      "priority h # u64_bytes be (hdr_offset h) @ u64_bytes be (pkt_length h) @ rest"]
    get_u64_mid [of 10 "encode_type (ty h) # u64_bytes be (pkt_num h) @ [priority h]" be "hdr_offset h"
      "u64_bytes be (pkt_length h) @ rest"]
    get_u64_mid [of 18 "encode_type (ty h) # u64_bytes be (pkt_num h) @ priority h # u64_bytes be (hdr_offset h)"
      be "pkt_length h" rest]
  by (simp add: from_slice_def header_bytes_def get_u8_def nth_append decode_encode)

text \<open>
  C30: A header written to the front of a buffer is read back unchanged by both decoders, on
  machines of either byte order, and the bytes behind it are not touched. The type \<open>Unknown\<close>
  is the exception.
\<close>

theorem header_roundtrip:
  assumes "26 \<le> length out" and "ty h \<noteq> Unknown"
  shows "\<exists>b. to_bytes be h out = Inr b \<and> length b = length out \<and> drop Header_len b = drop Header_len out \<and>
    from_slice be b = Inr h \<and> from_bytes be b = Inr h"
  using assms
  by (intro exI [of _ "header_bytes be h @ drop 26 out"])
    (simp add: to_bytes_eq from_slice_header from_bytes_eq_from_slice Header_len_def)

theorem header_roundtrip_witness:
  "\<exists>b. to_bytes False \<lparr>ty = Fin, pkt_num = 5, priority = 1, hdr_offset = 1350, pkt_length = 26\<rparr> (replicate 30 0) = Inr b \<and>
    from_bytes False b = Inr \<lparr>ty = Fin, pkt_num = 5, priority = 1, hdr_offset = 1350, pkt_length = 26\<rparr>"
  using header_roundtrip [of "replicate 30 0" "\<lparr>ty = Fin, pkt_num = 5, priority = 1, hdr_offset = 1350, pkt_length = 26\<rparr>" False]
  by auto

text \<open>
  Because the last comparison of the decoders is written as an assignment, no byte sequence
  decodes to \<open>Unknown\<close>: every first byte other than 1 to 7 is taken for a \<open>StartAck\<close> packet.
\<close>

theorem unknown_decodes_as_start_ack:
  assumes "from_slice be b = Inr h"
  shows "ty h = (if b ! 0 \<in> {1, 2, 3, 4, 5, 6, 7} then decode_type (b ! 0) else StartAck) \<and> ty h \<noteq> Unknown"
proof -
  have "ty h = decode_type (b ! 0)"
    using assms by (auto simp: from_slice_def rbind_Inr_conv get_u8_def split: if_splits)
  then show ?thesis by (simp add: decode_type_def Let_def)
qed

theorem unknown_decodes_as_start_ack_witness:
  "\<exists>h. from_slice False (replicate 26 0x09) = Inr h \<and> ty h = StartAck"
proof -
  have "\<not> isl (from_slice False (replicate 26 0x09))" by (simp add: from_slice_def get_u8_def get_u64_def)
  then obtain h where "from_slice False (replicate 26 0x09) = Inr h" unfolding not_isl_conv by blast
  with unknown_decodes_as_start_ack [OF this] show ?thesis by simp
qed

section \<open>Packet numbers are consecutive\<close>

lemma updatepktnum_Pair:
  "next_pkt_num s + 1 < u64_range \<Longrightarrow>
   updatepktnum s = (next_pkt_num s, s\<lparr>next_pkt_num := next_pkt_num s + 1\<rparr>)"
  by (simp add: updatepktnum_def Let_def u64_add_exact u64_sub_exact)

end
