(* ===== verification/Gloo_RecvBuf.thy ===== *)
theory Gloo_RecvBuf
  imports Gloo_Packet
begin

text \<open>
  The receive buffer of the datagram transport (\<open>gloo/RangeBuf.h\<close>, \<open>gloo/recv_buf.h\<close>): the
  payloads received, ordered by their stream offset. The \<open>std::map\<close> is the list of its
  entries in key order.
\<close>

section \<open>Range buffers\<close>

record RangeBuf =
  rb_data :: bytes
  rb_start :: nat
  rb_pos :: nat
  rb_length :: nat
  rb_offset :: nat

definition RangeBuf_from :: "bytes \<Rightarrow> nat \<Rightarrow> RangeBuf" where
  "RangeBuf_from buf off =
     \<lparr>rb_data = buf, rb_start = 0, rb_pos = 0, rb_length = length buf, rb_offset = off\<rparr>"

definition RangeBuf_off :: "RangeBuf \<Rightarrow> nat" where
  "RangeBuf_off b = u64_add (u64_sub (rb_offset b) (rb_start b)) (rb_pos b)"

definition RangeBuf_len :: "RangeBuf \<Rightarrow> nat" where
  "RangeBuf_len b = u64_sub (rb_length b) (rb_pos b)"

definition RangeBuf_max_off :: "RangeBuf \<Rightarrow> nat" where
  "RangeBuf_max_off b = u64_add (RangeBuf_off b) (RangeBuf_len b)"

definition RangeBuf_is_empty :: "RangeBuf \<Rightarrow> bool" where
  "RangeBuf_is_empty b \<longleftrightarrow> RangeBuf_len b = 0"

definition consume :: "nat \<Rightarrow> RangeBuf \<Rightarrow> RangeBuf" where
  "consume count b = b\<lparr>rb_pos := u64_add (rb_pos b) count\<rparr>"

section \<open>Receive buffers\<close>

record RecvBuf =
  rv_data :: "(nat \<times> RangeBuf) list"
  rv_off :: nat
  rv_len :: nat
  last_maxoff :: nat
  max_recv_off :: nat

definition RecvBuf_new :: RecvBuf where
  "RecvBuf_new = \<lparr>rv_data = [], rv_off = 0, rv_len = 0, last_maxoff = 0, max_recv_off = 0\<rparr>"

text \<open>\<open>std::map::insert\<close>, which leaves an existing entry of the key alone.\<close>

fun map_insert :: "nat \<Rightarrow> 'a \<Rightarrow> (nat \<times> 'a) list \<Rightarrow> (nat \<times> 'a) list" where
  "map_insert k v [] = [(k, v)]"
| "map_insert k v ((k', v') # xs) =
     (if k < k' then (k, v) # (k', v') # xs
      else if k = k' then (k', v') # xs
      else (k', v') # map_insert k v xs)"

definition RecvBuf_write :: "bytes \<Rightarrow> nat \<Rightarrow> RecvBuf \<Rightarrow> RecvBuf" where
  "RecvBuf_write out out_off b =
     (let buf = RangeBuf_from out out_off;
          buf_len = RangeBuf_len buf;
          tmp_off = u64_sub (RangeBuf_max_off buf) buf_len;
          b = (if rv_data b \<noteq> [] \<and> fst (last (rv_data b)) = tmp_off
               then b\<lparr>max_recv_off := tmp_off\<rparr> else b)
      in b\<lparr>rv_data := map_insert (RangeBuf_off buf) buf (rv_data b),
           rv_len := u64_add (rv_len b) buf_len\<rparr>)"

definition max_ack :: "RecvBuf \<Rightarrow> nat" where
  "max_ack b = max_recv_off b"

definition RecvBuf_is_empty :: "RecvBuf \<Rightarrow> bool" where
  "RecvBuf_is_empty b \<longleftrightarrow> rv_data b = []"

definition RecvBuf_ready :: "RecvBuf \<Rightarrow> bool" where
  "RecvBuf_ready b \<longleftrightarrow> rv_data b \<noteq> []"

definition first_item_len :: "RecvBuf \<Rightarrow> nat result" where
  "first_item_len b = (case rv_data b of [] \<Rightarrow> Inl UndefinedBehavior | (_, e) # _ \<Rightarrow> Inr (RangeBuf_len e))"

definition RecvBuf_shutdown :: "RecvBuf \<Rightarrow> RecvBuf" where
  "RecvBuf_shutdown b = b\<lparr>rv_data := [], rv_len := 0\<rparr>"

text \<open>
  \<open>std::copy\<close> of the first \<open>n\<close> bytes of an entry to the front of \<open>out\<close>, and to \<open>out.end()\<close>: the
  latter has no room for a single byte.
\<close>

definition copy_front :: "bytes \<Rightarrow> nat \<Rightarrow> bytes \<Rightarrow> bytes result" where
  "copy_front src n out =
     (if n \<le> length src \<and> n \<le> length out then Inr (write_at 0 (take n src) out) else Inl UndefinedBehavior)"

definition copy_end :: "bytes \<Rightarrow> nat \<Rightarrow> bytes \<Rightarrow> bytes result" where
  "copy_end src n out = (if n = 0 then Inr out else Inl UndefinedBehavior)"

text \<open>
  The loop of \<open>emit\<close>. The differences of offsets and the remaining room are unsigned; the loop
  is a partial function since the remaining room can wrap around.
\<close>

partial_function (option) RecvBuf_emit_loop ::
  "nat \<Rightarrow> nat \<Rightarrow> nat \<Rightarrow> nat \<Rightarrow> bytes \<Rightarrow> RecvBuf \<Rightarrow> (nat \<times> bytes \<times> RecvBuf) result option" where
  "RecvBuf_emit_loop start_off last_max_off left data_len out b =
     (if rv_data b = [] \<or> left = 0 then Some (Inr (data_len, out, b))
      else
        (let entry = snd (hd (rv_data b)); n = RangeBuf_len entry in
         if RangeBuf_off entry = start_off then
           if n \<le> left then
             (case copy_front (rb_data entry) (length (rb_data entry)) out of
                Inl e \<Rightarrow> Some (Inl e)
              | Inr out \<Rightarrow>
                  RecvBuf_emit_loop start_off (RangeBuf_max_off entry) (u64_sub left n) (u64_add data_len n) out
                    (b\<lparr>rv_len := u64_sub (rv_len b) n, rv_data := tl (rv_data b)\<rparr>))
           else
             (case copy_front (rb_data entry) left out of
                Inl e \<Rightarrow> Some (Inl e)
              | Inr out \<Rightarrow>
                  RecvBuf_emit_loop start_off last_max_off 0 (u64_add data_len left) out
                    (b\<lparr>rv_len := u64_sub (rv_len b) left,
                       rv_data := (fst (hd (rv_data b)), consume 0 entry) # tl (rv_data b)\<rparr>))
         else
           (let zero = u64_sub (RangeBuf_off entry) last_max_off in
            if zero < left then
              (let out = out @ replicate zero 0;
                   left = u64_sub left zero;
                   data_len = u64_add data_len zero;
                   last_max_off = u64_add last_max_off zero
               in if u64_sub (RangeBuf_max_off entry) last_max_off < left then
                    (case copy_end (rb_data entry) (length (rb_data entry)) out of
                       Inl e \<Rightarrow> Some (Inl e)
                     | Inr out \<Rightarrow>
                         RecvBuf_emit_loop start_off (RangeBuf_max_off entry) (u64_sub left n) (u64_add data_len n) out
                           (b\<lparr>rv_len := u64_sub (rv_len b) n, rv_data := tl (rv_data b)\<rparr>))
                  else
                    (case copy_end (rb_data entry) left out of
                       Inl e \<Rightarrow> Some (Inl e)
                     | Inr out \<Rightarrow>
                         RecvBuf_emit_loop start_off last_max_off 0 (u64_add data_len left) out
                           (b\<lparr>rv_len := u64_sub (rv_len b) left,
                              rv_data := (fst (hd (rv_data b)), consume 0 entry) # tl (rv_data b)\<rparr>)))
            else
              RecvBuf_emit_loop start_off last_max_off (u64_sub left zero) (u64_add data_len zero)
                (out @ replicate zero 0) b)))"

declare RecvBuf_emit_loop.simps [code]

definition RecvBuf_emit :: "bytes \<Rightarrow> nat \<Rightarrow> RecvBuf \<Rightarrow> (nat \<times> bytes \<times> RecvBuf) result option" where
  "RecvBuf_emit out output_len b =
     (case rv_data b of
        [] \<Rightarrow> Some (Inl UndefinedBehavior)
      | (_, entry) # _ \<Rightarrow>
          RecvBuf_emit_loop (RangeBuf_off entry) (RangeBuf_max_off entry)
            (if output_len = 0 then rv_len b else output_len) 0 out b)"

section \<open>Ordered maps\<close>

lemma map_insert_set: "set (map fst (map_insert k v xs)) = insert k (set (map fst xs))"
  by (induction k v xs rule: map_insert.induct) auto

lemma map_insert_sorted:
  "sorted_wrt (<) (map fst xs) \<Longrightarrow> sorted_wrt (<) (map fst (map_insert k v xs))"
proof (induction k v xs rule: map_insert.induct)
  case (2 k v k' v' xs)
  then show ?case using map_insert_set [of k v xs] by auto
qed simp

lemma map_insert_map_of:
  "sorted_wrt (<) (map fst xs) \<Longrightarrow>
   map_of (map_insert k v xs) = (case map_of xs k of None \<Rightarrow> (map_of xs)(k \<mapsto> v) | Some _ \<Rightarrow> map_of xs)"
proof (induction k v xs rule: map_insert.induct)
  case (2 k v k' v' xs)
  have "map_of xs k = None" if "k < k'" using 2(2) that by (force simp: map_of_eq_None_iff)
  then show ?case using 2 by (auto simp: fun_eq_iff split: option.splits)
qed (simp add: fun_eq_iff)

lemma map_insert_map:
  "map_insert k (g k v) (map (\<lambda>p. (fst p, g (fst p) (snd p))) xs) = map (\<lambda>p. (fst p, g (fst p) (snd p))) (map_insert k v xs)"
  by (induction k v xs rule: map_insert.induct) auto

section \<open>Reading one payload at a time\<close>

abbreviation payload_ok :: "nat \<times> bytes \<Rightarrow> bool" where
  "payload_ok p \<equiv> snd p \<noteq> [] \<and> fst p + length (snd p) < u64_range"

abbreviation entry_of :: "nat \<times> bytes \<Rightarrow> nat \<times> RangeBuf" where
  "entry_of p \<equiv> (fst p, RangeBuf_from (snd p) (fst p))"

lemma RangeBuf_from_simps:
  assumes "off + length d < u64_range"
  shows "RangeBuf_off (RangeBuf_from d off) = off" "RangeBuf_len (RangeBuf_from d off) = length d"
    "RangeBuf_max_off (RangeBuf_from d off) = off + length d" "rb_data (RangeBuf_from d off) = d"
  using assms
  by (simp_all add: RangeBuf_off_def RangeBuf_len_def RangeBuf_max_off_def RangeBuf_from_def u64_add_exact)

text \<open>The contents that payloads lead to, whatever their order.\<close>

definition reassembled :: "(nat \<times> bytes) list \<Rightarrow> (nat \<times> bytes) list" where
  "reassembled ps = fold (\<lambda>p. map_insert (fst p) (snd p)) ps []"

lemma fold_insert_spec:
  assumes "sorted_wrt (<) (map fst es)"
  shows "sorted_wrt (<) (map fst (fold (\<lambda>p. map_insert (fst p) (snd p)) ps es)) \<and>
    map_of (fold (\<lambda>p. map_insert (fst p) (snd p)) ps es) = map_of ps ++ map_of es"
  using assms
proof (induction ps arbitrary: es)
  case (Cons p ps)
  let ?es = "map_insert (fst p) (snd p) es"
  note IH = Cons.IH [OF map_insert_sorted [OF Cons.prems]]
  have "map_of ps ++ map_of ?es = map_of (p # ps) ++ map_of es"
    by (auto simp: map_insert_map_of [OF Cons.prems] map_add_def fun_eq_iff split: option.splits)
  with IH show ?case by (simp add: fun_upd_def)
qed simp

lemma RecvBuf_write_data:
  assumes "payload_ok p" and "rv_data b = map entry_of es"
  shows "rv_data (RecvBuf_write (snd p) (fst p) b) = map entry_of (map_insert (fst p) (snd p) es)"
  using assms map_insert_map [of "fst p" "\<lambda>k d. RangeBuf_from d k" "snd p" es]
  by (simp add: RecvBuf_write_def Let_def RangeBuf_from_simps case_prod_beta)

lemma RecvBuf_write_all:
  assumes "\<forall>p \<in> set ps. payload_ok p" and "rv_data b = map entry_of es"
  shows "rv_data (fold (\<lambda>p. RecvBuf_write (snd p) (fst p)) ps b) =
    map entry_of (fold (\<lambda>p. map_insert (fst p) (snd p)) ps es)"
  using assms by (induction ps arbitrary: b es) (simp_all add: RecvBuf_write_data)

text \<open>Reading \<open>n\<close> payloads, each with a buffer of the size that \<open>first_item_len\<close> reports.\<close>

fun read_items :: "nat \<Rightarrow> RecvBuf \<Rightarrow> (bytes list \<times> RecvBuf) result option" where
  "read_items 0 b = Some (Inr ([], b))"
| "read_items (Suc n) b =
     (case first_item_len b of
        Inl e \<Rightarrow> Some (Inl e)
      | Inr len \<Rightarrow>
          (case RecvBuf_emit (replicate len 0) len b of
             Some (Inr (k, out, b)) \<Rightarrow>
               (case read_items n b of
                  Some (Inr (outs, b)) \<Rightarrow> Some (Inr (take k out # outs, b))
                | r \<Rightarrow> r)
           | Some (Inl e) \<Rightarrow> Some (Inl e)
           | None \<Rightarrow> None))"

lemma emit_first:
  assumes "payload_ok p" and "rv_data b = entry_of p # es" and "length out = length (snd p)"
  shows "RecvBuf_emit out (length (snd p)) b =
    Some (Inr (length (snd p), snd p, b\<lparr>rv_len := u64_sub (rv_len b) (length (snd p)), rv_data := es\<rparr>))"
  using assms
  by (simp add: RecvBuf_emit_def RecvBuf_emit_loop.simps [of "fst p" _ "length (snd p)"]
      RecvBuf_emit_loop.simps [of _ _ 0] RangeBuf_from_simps copy_front_def write_at_def u64_add_exact Let_def)

lemma read_items_entries:
  assumes "\<forall>p \<in> set es. payload_ok p" and "rv_data b = map entry_of es"
  shows "\<exists>b'. read_items (length es) b = Some (Inr (map snd es, b')) \<and> rv_data b' = []"
  using assms
proof (induction es arbitrary: b)
  case (Cons p es)
  let ?b = "b\<lparr>rv_len := u64_sub (rv_len b) (length (snd p)), rv_data := map entry_of es\<rparr>"
  have "RecvBuf_emit (replicate (length (snd p)) 0) (length (snd p)) b = Some (Inr (length (snd p), snd p, ?b))"
    using emit_first [of p b "map entry_of es" "replicate (length (snd p)) 0"] Cons.prems by simp
  moreover have "first_item_len b = Inr (length (snd p))"
    using Cons.prems by (simp add: first_item_len_def RangeBuf_from_simps)
  moreover obtain b' where "read_items (length es) ?b = Some (Inr (map snd es, b'))" "rv_data b' = []"
    using Cons.IH [of ?b] Cons.prems by auto
  ultimately show ?case by simp
qed simp

section \<open>Properties\<close>



text \<open>
  A read shorter than the first payload loses track of it: the bytes are copied, but nothing
  is consumed (the count is set to zero before it is passed on), so that the next read starts
  with the same bytes again, while the recorded length has already gone down.
\<close>

theorem short_read_repeats:
  assumes "payload_ok p" and "rv_data b = entry_of p # es" and "0 < k" and "k < length (snd p)" and "length out = k"
  shows "\<exists>b'. RecvBuf_emit out k b = Some (Inr (k, take k (snd p), b')) \<and>
    rv_data b' = rv_data b \<and> rv_len b' = u64_sub (rv_len b) k \<and>
    (\<exists>b''. RecvBuf_emit out k b' = Some (Inr (k, take k (snd p), b'')))"
proof -
  have step: "RecvBuf_emit out k c = Some (Inr (k, take k (snd p), c\<lparr>rv_len := u64_sub (rv_len c) k,
      rv_data := entry_of p # es\<rparr>))" if "rv_data c = entry_of p # es" for c
    using assms that
    by (simp add: RecvBuf_emit_def RecvBuf_emit_loop.simps [of "fst p" _ k] RecvBuf_emit_loop.simps [of _ _ 0]
        RangeBuf_from_simps copy_front_def write_at_def u64_add_exact consume_def Let_def)
      (simp add: RangeBuf_from_def u64_add_def)
  from step [OF assms(2)] step [of "b\<lparr>rv_len := u64_sub (rv_len b) k, rv_data := entry_of p # es\<rparr>"]
  show ?thesis by (intro exI [of _ "b\<lparr>rv_len := u64_sub (rv_len b) k, rv_data := entry_of p # es\<rparr>"]) (simp add: assms(2))
qed

theorem short_read_repeats_witness:
  "\<exists>b'. RecvBuf_emit [0, 0] 2 (RecvBuf_write [1, 2, 3] 0 RecvBuf_new) = Some (Inr (2, [1, 2], b')) \<and>
    (\<exists>b''. RecvBuf_emit [0, 0] 2 b' = Some (Inr (2, [1, 2], b'')))"
proof -
  have "rv_data (RecvBuf_write [1, 2, 3] 0 RecvBuf_new) = entry_of (0, [1, 2, 3]) # []"
    by (simp add: RecvBuf_write_def RecvBuf_new_def Let_def RangeBuf_off_def RangeBuf_from_def u64_add_def)
  from short_read_repeats [OF _ this, of 2 "[0, 0]"] show ?thesis by auto
qed

text \<open>
  Reading past the first payload is undefined: with a second, adjacent payload and room for
  at least one of its bytes, \<open>emit\<close> copies to \<open>out.end()\<close>.
\<close>

theorem read_past_first_payload:
  assumes "payload_ok p" and "payload_ok q" and "fst q = fst p + length (snd p)"
    and "rv_data b = entry_of p # entry_of q # es" and "length (snd p) < n" and "n < u64_range" and "length out = n"
  shows "RecvBuf_emit out n b = Some (Inl UndefinedBehavior)"
proof -
  have "fst q \<noteq> fst p" using assms(1,3) by simp
  then show ?thesis
    using assms
    by (simp add: RecvBuf_emit_def RecvBuf_emit_loop.simps [of "fst p" _ n]
        RecvBuf_emit_loop.simps [of "fst p" _ "n - length (snd p)"]
        RangeBuf_from_simps copy_front_def copy_end_def u64_add_exact u64_sub_exact Let_def)
qed

theorem read_past_first_payload_witness:
  "RecvBuf_emit [0, 0, 0] 3 (RecvBuf_write [3, 4] 2 (RecvBuf_write [1, 2] 0 RecvBuf_new)) = Some (Inl UndefinedBehavior)"
proof -
  have "rv_data (RecvBuf_write [3, 4] 2 (RecvBuf_write [1, 2] 0 RecvBuf_new)) = entry_of (0, [1, 2]) # entry_of (2, [3, 4]) # []"
    by (simp add: RecvBuf_write_def RecvBuf_new_def Let_def RangeBuf_off_def RangeBuf_from_def u64_add_def u64_sub_def)
  from read_past_first_payload [OF _ _ _ this, of 3 "[0, 0, 0]"] show ?thesis by simp
qed

end
