(* ===== verification/Gloo_SendBuf.thy ===== *)
theory Gloo_SendBuf
  imports Gloo_Prelude "HOL-Library.AList"
begin

text \<open>
  The send buffer of the datagram transport (\<open>gloo/send_buf.h\<close>). A piece is a stream offset,
  the address of its bytes and their number. Addresses are natural numbers; offsets and
  sizes are 64-bit with the wrap-around written out.
\<close>

section \<open>State and operations\<close>

definition SEND_BUFFER_SIZE :: nat where
  "SEND_BUFFER_SIZE = 1350"

definition MIN_SENDBUF_INITIAL_LEN :: nat where
  "MIN_SENDBUF_INITIAL_LEN = 1350"

type_synonym piece = "nat \<times> nat \<times> nat"

abbreviation piece_off :: "piece \<Rightarrow> nat" where "piece_off x \<equiv> fst x"
abbreviation piece_addr :: "piece \<Rightarrow> nat" where "piece_addr x \<equiv> fst (snd x)"
abbreviation piece_len :: "piece \<Rightarrow> nat" where "piece_len x \<equiv> snd (snd x)"

record SendBuf =
  sb_data :: "piece list"
  sb_pos :: nat
  sb_off :: nat
  sb_length :: nat
  max_data :: nat
  used_length :: nat
  offset_recv :: "(nat \<times> bool) list"
  removed :: nat
  sb_sent :: nat
  sb_recv_count :: "nat list"

definition SendBuf_new :: SendBuf where
  "SendBuf_new =
     \<lparr>sb_data = [], sb_pos = 0, sb_off = 0, sb_length = 0, max_data = MIN_SENDBUF_INITIAL_LEN * 8,
      used_length = 0, offset_recv = [], removed = 0, sb_sent = 0, sb_recv_count = []\<rparr>"

definition SendBuf_len :: "SendBuf \<Rightarrow> nat" where
  "SendBuf_len s = fold (\<lambda>x length. u64_add length (piece_len x)) (sb_data s) 0"

definition cap :: "SendBuf \<Rightarrow> nat \<times> SendBuf" where
  "cap s = (let s = s\<lparr>used_length := SendBuf_len s\<rparr> in (u64_sub (max_data s) (used_length s), s))"

text \<open>
  \<open>off_front\<close>: on an empty deque \<open>data.size() - 1\<close> wraps around and \<open>at\<close> throws; if the loop ends
  without a non-empty piece the function has no return statement to reach.
\<close>

fun off_front_loop :: "piece list \<Rightarrow> nat result" where
  "off_front_loop [] = Inl UndefinedBehavior"
| "off_front_loop (b # bs) = (if piece_len b \<noteq> 0 then Inr (piece_off b) else off_front_loop bs)"

definition off_front :: "SendBuf \<Rightarrow> nat result" where
  "off_front s = (if sb_data s = [] then Inl OutOfRange else off_front_loop (drop (sb_pos s) (sb_data s)))"

definition SendBuf_ready :: "SendBuf \<Rightarrow> bool" where
  "SendBuf_ready s \<longleftrightarrow> sb_data s \<noteq> []"

definition SendBuf_clear :: "SendBuf \<Rightarrow> SendBuf" where
  "SendBuf_clear s = s\<lparr>sb_data := [], sb_pos := 0, sb_off := 0, sb_length := 0\<rparr>"

definition off_back :: "SendBuf \<Rightarrow> nat" where
  "off_back s = sb_off s"

definition update_max_data :: "nat \<Rightarrow> SendBuf \<Rightarrow> SendBuf" where
  "update_max_data maxdata b = b\<lparr>max_data := maxdata\<rparr>"

definition SendBuf_reset :: "SendBuf \<Rightarrow> (nat \<times> SendBuf) result" where
  "SendBuf_reset s =
     rbind (off_front s) (\<lambda>unsent_off.
       Inr (u64_sub (off_back s) unsent_off,
            s\<lparr>sb_data := [], sb_pos := 0, sb_length := 0, sb_off := unsent_off\<rparr>))"

definition ack_and_drop :: "nat \<Rightarrow> SendBuf \<Rightarrow> SendBuf" where
  "ack_and_drop offset s =
     (case map_of (offset_recv s) offset of
        Some _ \<Rightarrow> s\<lparr>offset_recv := AList.update offset False (offset_recv s)\<rparr>
      | None \<Rightarrow> s)"

definition insert_ack :: "nat \<Rightarrow> SendBuf \<Rightarrow> SendBuf" where
  "insert_ack offset s =
     (case map_of (offset_recv s) offset of
        Some _ \<Rightarrow> s\<lparr>sb_recv_count := List.insert offset (sb_recv_count s)\<rparr>
      | None \<Rightarrow> s)"

definition check_ack :: "SendBuf \<Rightarrow> bool" where
  "check_ack s \<longleftrightarrow> length (sb_recv_count s) = length (offset_recv s)"

definition recv_and_drop :: "SendBuf \<Rightarrow> SendBuf" where
  "recv_and_drop s =
     (if sb_data s = [] then s
      else (let keysToDelete = map fst (filter (\<lambda>kv. \<not> snd kv) (offset_recv s))
            in s\<lparr>sb_data := filter (\<lambda>x. piece_off x \<notin> set keysToDelete) (sb_data s),
                 offset_recv := filter (\<lambda>kv. fst kv \<notin> set keysToDelete) (offset_recv s)\<rparr>))"

section \<open>Writing\<close>

text \<open>The statements that store one piece at the current offset.\<close>

definition push_piece :: "nat \<Rightarrow> nat \<Rightarrow> SendBuf \<Rightarrow> SendBuf" where
  "push_piece addr n s =
     s\<lparr>offset_recv := AList.update (sb_off s) True (offset_recv s),
       sb_data := sb_data s @ [(sb_off s, addr, n)],
       sb_off := u64_add (sb_off s) n,
       sb_length := u64_add (sb_length s) n,
       used_length := u64_add (used_length s) n\<rparr>"

text \<open>The loop from \<open>it\<close> to \<open>ready_written\<close>; it returns the bytes it wrote.\<close>

function write_loop :: "nat \<Rightarrow> nat \<Rightarrow> nat \<Rightarrow> SendBuf \<Rightarrow> nat \<Rightarrow> nat \<times> SendBuf" where
  "write_loop src it ready_written s write_len =
     (if it < ready_written then
        if ready_written - it > SEND_BUFFER_SIZE then
          write_loop src (it + SEND_BUFFER_SIZE) ready_written
            (push_piece (src + it) SEND_BUFFER_SIZE s) (write_len + SEND_BUFFER_SIZE)
        else
          write_loop src ready_written ready_written
            (push_piece (src + it) (ready_written - it) s) (write_len + (ready_written - it))
      else (write_len, s))"
  by auto
termination by (relation "measure (\<lambda>(src, it, n, s, w). n - it)") (auto simp: SEND_BUFFER_SIZE_def)

declare write_loop.simps [simp del]

text \<open>From the check of \<open>off_len\<close> on; both branches of \<open>write\<close> contain these statements.\<close>

definition write_pieces :: "nat \<Rightarrow> nat \<Rightarrow> nat \<Rightarrow> SendBuf \<Rightarrow> nat \<times> SendBuf" where
  "write_pieces src ready_written off_len s =
     (if off_len > 0 then
        if ready_written > off_len then
          write_loop src off_len ready_written (push_piece src off_len s) off_len
        else (ready_written, push_piece src ready_written s)
      else write_loop src off_len ready_written s 0)"

text \<open>
  \<open>SendBuf::write\<close>: the result is the value returned, the new value of \<open>write_data_len\<close>, which
  the caller passes by reference, and the buffer.
\<close>

definition SendBuf_write :: "nat \<Rightarrow> nat \<Rightarrow> nat \<Rightarrow> nat \<Rightarrow> nat \<Rightarrow> SendBuf \<Rightarrow> int \<times> nat \<times> SendBuf" where
  "SendBuf_write src start_off write_data_len window_size off_len s =
     (let s = (if sb_pos s = 0 then s\<lparr>sb_recv_count := []\<rparr> else s);
          (capacity, s) = cap s
      in if capacity = 0 then (0, write_data_len, s)
         else if write_data_len = 0 then (-1, write_data_len, s)
         else if sb_data s = [] then
           (let s = s\<lparr>max_data := window_size, removed := 0, sb_sent := 0\<rparr>;
                s = s\<lparr>sb_length := SendBuf_len s\<rparr>;
                s = s\<lparr>used_length := SendBuf_len s\<rparr>
            in if sb_length s \<ge> window_size then (0, write_data_len, s)
               else
                 (let ready_written = (if write_data_len > capacity then capacity else write_data_len);
                      (write_len, s) = write_pieces (src + start_off) ready_written off_len s
                  in (int write_len, u64_sub write_data_len write_len, s)))
         else if SendBuf_len s \<ge> window_size then (0, write_data_len, s)
         else
           (let ready_written = (if write_data_len > capacity then capacity else write_data_len);
                (write_len, s) = write_pieces (src + start_off) ready_written off_len s
            in (int write_len, u64_sub write_data_len write_len, s)))"

section \<open>Emitting\<close>

text \<open>
  The loop of \<open>emit\<close> over the pieces from \<open>pos\<close> on. It returns the piece that the \<open>iovec\<close> ends
  up describing, and the buffer; a piece longer than \<open>MIN_SENDBUF_INITIAL_LEN\<close> is overwritten by
  the next one.
\<close>

fun emit_loop :: "piece list \<Rightarrow> piece option \<Rightarrow> SendBuf \<Rightarrow> piece option \<times> SendBuf" where
  "emit_loop [] out s = (out, s)"
| "emit_loop (buf # bs) out s =
     (if piece_len buf = 0 then emit_loop bs out (s\<lparr>sb_pos := sb_pos s + 1\<rparr>)
      else
        (let partial = (piece_len buf \<le> MIN_SENDBUF_INITIAL_LEN);
             s = s\<lparr>sb_length := u64_sub (sb_length s) (piece_len buf),
                   used_length := u64_sub (used_length s) (piece_len buf),
                   sb_pos := sb_pos s + 1\<rparr>
         in if partial then (Some buf, s) else emit_loop bs (Some buf) s))"

text \<open>The result is the stop flag, the region described by the \<open>iovec\<close>, \<open>out_len\<close>, \<open>out_off\<close> and the buffer.\<close>

definition emit :: "SendBuf \<Rightarrow> (bool \<times> (nat \<times> nat) option \<times> nat \<times> nat \<times> SendBuf) result" where
  "emit s =
     rbind (off_front s) (\<lambda>out_off.
       (let (out, s) = emit_loop (drop (sb_pos s) (sb_data s)) None s;
            out_len = (case out of None \<Rightarrow> 0 | Some b \<Rightarrow> piece_len b);
            s = s\<lparr>sb_sent := u64_add (sb_sent s) out_len\<rparr>;
            (stop, s) = (if sb_sent s \<ge> max_data s then (True, s\<lparr>sb_pos := 0\<rparr>) else (False, s));
            (stop, s) = (if sb_pos s = length (sb_data s) then (True, s\<lparr>sb_pos := 0\<rparr>) else (stop, s))
        in Inr (stop, map_option snd out, out_len, u64_add out_off out_len, s)))"

section \<open>Well-formed buffers\<close>

text \<open>
  Pieces are not empty, fit into one datagram, follow each other in the stream without
  overlap and end before the current offset; every piece has an entry in \<open>offset_recv\<close>.
\<close>

fun pieces_ok :: "nat \<Rightarrow> piece list \<Rightarrow> nat \<Rightarrow> bool" where
  "pieces_ok lo [] hi \<longleftrightarrow> lo \<le> hi"
| "pieces_ok lo (x # xs) hi \<longleftrightarrow>
     lo \<le> piece_off x \<and> 0 < piece_len x \<and> piece_len x \<le> SEND_BUFFER_SIZE \<and>
     pieces_ok (piece_off x + piece_len x) xs hi"

definition tracked :: "SendBuf \<Rightarrow> nat \<Rightarrow> bool" where
  "tracked s off \<longleftrightarrow> map_of (offset_recv s) off \<noteq> None"

definition SendBuf_ok :: "SendBuf \<Rightarrow> bool" where
  "SendBuf_ok s \<longleftrightarrow>
     pieces_ok 0 (sb_data s) (sb_off s) \<and> distinct (map fst (offset_recv s)) \<and>
     (\<forall>x \<in> set (sb_data s). tracked s (piece_off x)) \<and>
     (sb_data s \<noteq> [] \<longrightarrow> sb_pos s < length (sb_data s)) \<and> (sb_data s = [] \<longrightarrow> sb_pos s = 0)"

text \<open>Consecutive pieces of the stream, taken from consecutive addresses.\<close>

fun contiguous :: "nat \<Rightarrow> nat \<Rightarrow> piece list \<Rightarrow> bool" where
  "contiguous off addr [] = True"
| "contiguous off addr (x # xs) \<longleftrightarrow>
     piece_off x = off \<and> piece_addr x = addr \<and> contiguous (off + piece_len x) (addr + piece_len x) xs"

abbreviation total_len :: "piece list \<Rightarrow> nat" where
  "total_len xs \<equiv> sum_list (map piece_len xs)"

abbreviation fits_datagram :: "piece \<Rightarrow> bool" where
  "fits_datagram x \<equiv> 0 < piece_len x \<and> piece_len x \<le> SEND_BUFFER_SIZE"

definition push_all :: "piece list \<Rightarrow> SendBuf \<Rightarrow> SendBuf" where
  "push_all ps s = fold (\<lambda>x. push_piece (piece_addr x) (piece_len x)) ps s"

lemma push_all_simps [simp]:
  "push_all [] s = s" "push_all (x # xs) s = push_all xs (push_piece (piece_addr x) (piece_len x) s)"
  by (simp_all add: push_all_def)

lemma contiguous_append:
  "contiguous off addr (xs @ ys) \<longleftrightarrow>
     contiguous off addr xs \<and> contiguous (off + total_len xs) (addr + total_len xs) ys"
  by (induction xs arbitrary: off addr) (simp_all add: add.assoc)

lemma push_all_spec:
  assumes "contiguous (sb_off s) addr ps" "sb_off s + total_len ps < u64_range"
  shows "sb_data (push_all ps s) = sb_data s @ ps \<and> sb_off (push_all ps s) = sb_off s + total_len ps \<and>
    sb_pos (push_all ps s) = sb_pos s \<and> max_data (push_all ps s) = max_data s \<and>
    map_of (offset_recv (push_all ps s)) =
       (\<lambda>k. if k \<in> set (map piece_off ps) then Some True else map_of (offset_recv s) k) \<and>
    (distinct (map fst (offset_recv s)) \<longrightarrow> distinct (map fst (offset_recv (push_all ps s))))"
  using assms
proof (induction ps arbitrary: s addr)
  case (Cons x ps)
  let ?s = "push_piece (piece_addr x) (piece_len x) s"
  have x: "x = (sb_off s, piece_addr x, piece_len x)" using Cons.prems by (cases x) auto
  have o: "sb_off ?s = sb_off s + piece_len x" using Cons.prems by (simp add: push_piece_def u64_add_exact)
  have "contiguous (sb_off ?s) (addr + piece_len x) ps" "sb_off ?s + total_len ps < u64_range"
    using Cons.prems by (auto simp: o)
  note IH = Cons.IH [OF this]
  have "sb_data ?s = sb_data s @ [x]" "sb_pos ?s = sb_pos s" "max_data ?s = max_data s"
    using x by (simp_all add: push_piece_def)
  moreover have "map_of (offset_recv ?s) = (map_of (offset_recv s))(piece_off x \<mapsto> True)"
    using Cons.prems by (simp add: push_piece_def update_conv')
  moreover have "distinct (map fst (offset_recv s)) \<Longrightarrow> distinct (map fst (offset_recv ?s))"
    by (simp add: push_piece_def distinct_update)
  ultimately show ?case using IH o by (auto simp: fun_eq_iff)
qed simp

lemma write_loop_spec:
  assumes "it \<le> n" "sb_off s + (n - it) < u64_range"
  shows "\<exists>ps. write_loop src it n s w = (w + (n - it), push_all ps s) \<and>
    contiguous (sb_off s) (src + it) ps \<and> total_len ps = n - it \<and> list_all fits_datagram ps"
  using assms
proof (induction src it n s w rule: write_loop.induct)
  case (1 src it n s w)
  have off: "sb_off (push_piece a m s) = sb_off s + m" if "m \<le> n - it" for a m
    using 1(4) that by (simp add: push_piece_def u64_add_exact)
  consider "it = n" | (full) "it < n" "SEND_BUFFER_SIZE < n - it" | (last) "it < n" "n - it \<le> SEND_BUFFER_SIZE"
    using 1(3) by linarith
  then show ?case
  proof cases
    case full
    let ?s = "push_piece (src + it) SEND_BUFFER_SIZE s" and ?it = "it + SEND_BUFFER_SIZE"
    have o: "sb_off ?s = sb_off s + SEND_BUFFER_SIZE" using off full by simp
    have "?it \<le> n" "sb_off ?s + (n - ?it) < u64_range" using full 1(4) o by auto
    from 1(1) [OF full this] obtain ps where
      "write_loop src ?it n ?s (w + SEND_BUFFER_SIZE) = (w + SEND_BUFFER_SIZE + (n - ?it), push_all ps ?s)"
      "contiguous (sb_off ?s) (src + ?it) ps" "total_len ps = n - ?it" "list_all fits_datagram ps" by blast
    then show ?thesis using full o
      by (intro exI [of _ "(sb_off s, src + it, SEND_BUFFER_SIZE) # ps"])
        (simp add: write_loop.simps [of src it] add.assoc SEND_BUFFER_SIZE_def)
  next
    case last
    then show ?thesis
      by (intro exI [of _ "[(sb_off s, src + it, n - it)]"])
        (simp add: write_loop.simps [of src it] write_loop.simps [of src n])
  qed (auto simp: write_loop.simps intro: exI [of _ "[]"])
qed

lemma write_pieces_spec:
  assumes "0 < n" "off_len \<le> SEND_BUFFER_SIZE" "sb_off s + n < u64_range"
  shows "\<exists>ps. write_pieces src n off_len s = (n, push_all ps s) \<and>
    contiguous (sb_off s) src ps \<and> total_len ps = n \<and> list_all fits_datagram ps"
proof -
  consider (none) "off_len = 0" | (short) "0 < off_len" "n \<le> off_len" | (long) "0 < off_len" "off_len < n" by linarith
  then show ?thesis
  proof cases
    case none
    with write_loop_spec [of 0 n s src 0] assms show ?thesis by (simp add: write_pieces_def)
  next
    case short
    with assms show ?thesis
      by (intro exI [of _ "[(sb_off s, src, n)]"]) (simp add: write_pieces_def)
  next
    case long
    let ?s = "push_piece src off_len s"
    have o: "sb_off ?s = sb_off s + off_len" using assms long by (simp add: push_piece_def u64_add_exact)
    with write_loop_spec [of off_len n ?s src off_len] long assms obtain ps where
      "write_loop src off_len n ?s off_len = (n, push_all ps ?s)" "contiguous (sb_off ?s) (src + off_len) ps"
      "total_len ps = n - off_len" "list_all fits_datagram ps" by auto
    with long assms o show ?thesis
      by (intro exI [of _ "(sb_off s, src, off_len) # ps"]) (simp add: write_pieces_def)
  qed
qed

lemma pieces_ok_weaken: "pieces_ok mid ys hi \<Longrightarrow> lo \<le> mid \<Longrightarrow> pieces_ok lo ys hi"
  by (cases ys) auto

lemma pieces_ok_append:
  "pieces_ok lo (xs @ ys) hi \<longleftrightarrow> (\<exists>mid. pieces_ok lo xs mid \<and> pieces_ok mid ys hi)"
  by (induction xs arbitrary: lo) (auto elim: pieces_ok_weaken)

lemma pieces_ok_contiguous:
  "contiguous off addr ps \<Longrightarrow> list_all fits_datagram ps \<Longrightarrow> pieces_ok off ps (off + total_len ps)"
proof (induction ps arbitrary: off addr)
  case (Cons x xs)
  then have "pieces_ok (off + piece_len x) xs (off + piece_len x + total_len xs)" by auto
  with Cons.prems show ?case by (simp add: add.assoc)
qed simp

lemma pieces_ok_le: "pieces_ok lo xs hi \<Longrightarrow> lo \<le> hi"
  by (induction xs arbitrary: lo) fastforce+

lemma pieces_ok_filter: "pieces_ok lo xs hi \<Longrightarrow> pieces_ok lo (filter P xs) hi"
proof (induction xs arbitrary: lo)
  case (Cons x xs)
  then have "pieces_ok (piece_off x + piece_len x) (filter P xs) hi" by simp
  with Cons.prems show ?case by (auto elim: pieces_ok_weaken)
qed simp

lemma push_all_ok:
  assumes ok: "SendBuf_ok s" and ps: "contiguous (sb_off s) addr ps" "list_all fits_datagram ps" "ps \<noteq> []"
    and small: "sb_off s + total_len ps < u64_range"
  shows "SendBuf_ok (push_all ps s)"
proof -
  note F = push_all_spec [OF ps(1) small]
  have "pieces_ok 0 (sb_data s @ ps) (sb_off s + total_len ps)"
    using ok pieces_ok_contiguous [OF ps(1,2)] by (auto simp: SendBuf_ok_def pieces_ok_append)
  moreover have "tracked (push_all ps s) k \<longleftrightarrow> k \<in> set (map piece_off ps) \<or> tracked s k" for k
    unfolding tracked_def using F by auto
  ultimately show ?thesis
    using ok F ps(3) unfolding SendBuf_ok_def by auto
qed

lemma ok_cong:
  assumes "SendBuf_ok s" "sb_data s' = sb_data s" "sb_off s' = sb_off s" "offset_recv s' = offset_recv s"
    "sb_pos s' = sb_pos s"
  shows "SendBuf_ok s'"
  using assms(1) unfolding SendBuf_ok_def tracked_def assms(2-5) .

lemma write_positive:
  assumes "SendBuf_write src start_off n window_size off_len s = (r, left, s')" and "0 < r"
  shows "\<exists>s1. (r, left, s') = (let (l, s') = write_pieces (src + start_off) (min n (fst (cap s))) off_len s1
      in (int l, u64_sub n l, s')) \<and>
    sb_data s1 = sb_data s \<and> sb_off s1 = sb_off s \<and> offset_recv s1 = offset_recv s \<and> sb_pos s1 = sb_pos s \<and>
    max_data s1 = (if sb_data s = [] then window_size else max_data s) \<and> 0 < min n (fst (cap s))"
proof -
  define s0 where "s0 = snd (cap (if sb_pos s = 0 then s\<lparr>sb_recv_count := []\<rparr> else s))"
  have cap: "cap (if sb_pos s = 0 then s\<lparr>sb_recv_count := []\<rparr> else s) = (fst (cap s), s0)"
    by (simp add: s0_def cap_def Let_def SendBuf_len_def)
  have s0: "sb_data s0 = sb_data s" "sb_off s0 = sb_off s" "offset_recv s0 = offset_recv s" "sb_pos s0 = sb_pos s"
    "max_data s0 = max_data s"
    by (simp_all add: s0_def cap_def Let_def)
  define s1 where "s1 = (if sb_data s0 = [] then
      (let s = s0\<lparr>max_data := window_size, removed := 0, sb_sent := 0\<rparr>; s = s\<lparr>sb_length := SendBuf_len s\<rparr>
       in s\<lparr>used_length := SendBuf_len s\<rparr>) else s0)"
  have "(r, left, s') = (let (l, s') = write_pieces (src + start_off) (min n (fst (cap s))) off_len s1
      in (int l, u64_sub n l, s')) \<and> 0 < min n (fst (cap s))"
    using assms by (auto simp: SendBuf_write_def cap s1_def Let_def min_def split: if_splits prod.splits)
  moreover have "sb_data s1 = sb_data s" "sb_off s1 = sb_off s" "offset_recv s1 = offset_recv s" "sb_pos s1 = sb_pos s"
    "max_data s1 = (if sb_data s = [] then window_size else max_data s)"
    using s0 by (simp_all add: s1_def Let_def)
  ultimately show ?thesis by blast
qed

section \<open>What the operations do\<close>

lemma write_spec:
  assumes "SendBuf_ok s" and "off_len \<le> SEND_BUFFER_SIZE" and "sb_off s + write_data_len < u64_range"
    and "SendBuf_write src start_off write_data_len window_size off_len s = (r, left, s')" and "0 < r"
  shows "\<exists>ps. sb_data s' = sb_data s @ ps \<and> contiguous (sb_off s) (src + start_off) ps \<and>
    list_all fits_datagram ps \<and> total_len ps = nat r \<and> nat r = min write_data_len (fst (cap s)) \<and>
    left = write_data_len - nat r \<and> sb_off s' = sb_off s + nat r \<and>
    map_of (offset_recv s') =
      (\<lambda>k. if k \<in> set (map piece_off ps) then Some True else map_of (offset_recv s) k) \<and>
    SendBuf_ok s' \<and> max_data s' = (if sb_data s = [] then window_size else max_data s)"
proof -
  let ?n = "min write_data_len (fst (cap s))"
  obtain s1 where w: "(r, left, s') = (let (l, s') = write_pieces (src + start_off) ?n off_len s1
        in (int l, u64_sub write_data_len l, s'))"
    and s1: "sb_data s1 = sb_data s" "sb_off s1 = sb_off s" "offset_recv s1 = offset_recv s" "sb_pos s1 = sb_pos s"
      "max_data s1 = (if sb_data s = [] then window_size else max_data s)"
    and pos: "0 < ?n"
    using write_positive [OF assms(4,5)] by blast
  have ok1: "SendBuf_ok s1" using ok_cong [OF assms(1)] s1 by simp
  obtain ps where ps: "write_pieces (src + start_off) ?n off_len s1 = (?n, push_all ps s1)"
    "contiguous (sb_off s1) (src + start_off) ps" "total_len ps = ?n" "list_all fits_datagram ps"
  proof -
    have "sb_off s1 + ?n < u64_range" using assms(3) s1 by linarith
    from write_pieces_spec [OF pos assms(2) this] that show thesis by blast
  qed
  have small: "sb_off s1 + total_len ps < u64_range" using assms(3) s1 ps(3) by simp
  note F = push_all_spec [OF ps(2) small]
  have r: "r = int ?n" "left = write_data_len - ?n" "s' = push_all ps s1"
    using w ps(1) assms(3) by (simp_all add: u64_sub_exact)
  have "ps \<noteq> []" using ps(3) pos by auto
  from push_all_ok [OF ok1 ps(2,4) this small] show ?thesis
    using F ps r unfolding s1 by (intro exI [of _ ps]) simp
qed

lemma emit_step:
  assumes ok: "SendBuf_ok s" and ne: "sb_data s \<noteq> []"
  defines "x \<equiv> sb_data s ! sb_pos s"
  defines "stop \<equiv> u64_add (sb_sent s) (piece_len x) \<ge> max_data s \<or> Suc (sb_pos s) = length (sb_data s)"
  shows "\<exists>s'. emit s = Inr (stop, Some (snd x), piece_len x, u64_add (piece_off x) (piece_len x), s') \<and>
    sb_data s' = sb_data s \<and> sb_off s' = sb_off s \<and> offset_recv s' = offset_recv s \<and> max_data s' = max_data s \<and>
    sb_sent s' = u64_add (sb_sent s) (piece_len x) \<and> sb_pos s' = (if stop then 0 else Suc (sb_pos s))"
proof -
  have pos: "sb_pos s < length (sb_data s)" using ok ne by (simp add: SendBuf_ok_def)
  then have d: "drop (sb_pos s) (sb_data s) = x # drop (Suc (sb_pos s)) (sb_data s)"
    by (simp add: x_def Cons_nth_drop_Suc)
  have "pieces_ok 0 (take (sb_pos s) (sb_data s) @ x # drop (Suc (sb_pos s)) (sb_data s)) (sb_off s)"
    using ok by (simp add: d [symmetric] SendBuf_ok_def)
  then have "0 < piece_len x" "piece_len x \<le> MIN_SENDBUF_INITIAL_LEN"
    by (auto simp: pieces_ok_append SEND_BUFFER_SIZE_def MIN_SENDBUF_INITIAL_LEN_def)
  with ne pos show ?thesis by (auto simp: emit_def off_front_def d Let_def stop_def)
qed

lemma SendBuf_len_total: "total_len (sb_data s) < u64_range \<Longrightarrow> SendBuf_len s = total_len (sb_data s)"
proof -
  have "fold (\<lambda>x n. u64_add n (piece_len x)) xs a = a + total_len xs" if "a + total_len xs < u64_range" for xs a
    using that by (induction xs arbitrary: a) (simp_all add: u64_add_exact)
  then show "total_len (sb_data s) < u64_range \<Longrightarrow> ?thesis" by (simp add: SendBuf_len_def)
qed

lemma write_nonempty:
  assumes "sb_data s \<noteq> []" "0 < fst (cap s)" "0 < n" "SendBuf_len s < window_size"
    and "off_len \<le> SEND_BUFFER_SIZE" "sb_off s + n < u64_range"
  shows "\<exists>left s'. SendBuf_write src start_off n window_size off_len s = (int (min n (fst (cap s))), left, s')"
proof -
  define s0 where "s0 = snd (cap (if sb_pos s = 0 then s\<lparr>sb_recv_count := []\<rparr> else s))"
  have cap: "cap (if sb_pos s = 0 then s\<lparr>sb_recv_count := []\<rparr> else s) = (fst (cap s), s0)"
    by (simp add: s0_def cap_def Let_def SendBuf_len_def)
  have s0: "sb_data s0 = sb_data s" "sb_off s0 = sb_off s" "SendBuf_len s0 = SendBuf_len s"
    by (simp_all add: s0_def cap_def Let_def SendBuf_len_def)
  have "0 < min n (fst (cap s))" "sb_off s0 + min n (fst (cap s)) < u64_range" using assms s0 by auto
  from write_pieces_spec [OF this(1) assms(5) this(2), of "src + start_off"] obtain ps where
    "write_pieces (src + start_off) (min n (fst (cap s))) off_len s0 = (min n (fst (cap s)), push_all ps s0)" by blast
  moreover have "(if fst (cap s) < n then fst (cap s) else n) = min n (fst (cap s))" by simp
  ultimately show ?thesis
    using assms(1-4) s0 by (simp add: SendBuf_write_def cap Let_def del: min_def)
qed

section \<open>The invariant\<close>

lemma SendBuf_new_ok: "SendBuf_ok SendBuf_new"
  by (simp add: SendBuf_ok_def SendBuf_new_def)

lemma SendBuf_write_ok:
  assumes "SendBuf_ok s" "off_len \<le> SEND_BUFFER_SIZE" "sb_off s + n < u64_range"
    and w: "SendBuf_write src start_off n window_size off_len s = (r, left, s')"
  shows "SendBuf_ok s'"
proof (cases "0 < r")
  case True
  from write_spec [OF assms this] show ?thesis by blast
next
  case False
  have pos: "write_pieces a m off_len t \<noteq> (0, t')" if "sb_off t = sb_off s" "0 < m" "m \<le> n" for a m t t'
  proof -
    have "sb_off t + m < u64_range" using that assms(3) by auto
    from write_pieces_spec [OF that(2) assms(2) this, of a] have "fst (write_pieces a m off_len t) = m" by force
    with that(2) show ?thesis by (metis fst_conv less_irrefl)
  qed
  have "sb_data s' = sb_data s \<and> sb_off s' = sb_off s \<and> offset_recv s' = offset_recv s \<and> sb_pos s' = sb_pos s"
    using w False
    by (auto simp: SendBuf_write_def cap_def Let_def pos split: if_splits prod.splits)
  with ok_cong [OF assms(1)] show ?thesis by blast
qed

lemma emit_ok:
  assumes "SendBuf_ok s" "emit s = Inr (stop, out, n, off, s')"
  shows "SendBuf_ok s'"
proof -
  have ne: "sb_data s \<noteq> []" using assms(2) by (auto simp: emit_def off_front_def)
  then have pos: "sb_pos s < length (sb_data s)" using assms(1) by (simp add: SendBuf_ok_def)
  from emit_step [OF assms(1) ne] assms(2)
  have s': "sb_data s' = sb_data s" "sb_off s' = sb_off s" "offset_recv s' = offset_recv s"
    "sb_pos s' = 0 \<or> (sb_pos s' = Suc (sb_pos s) \<and> Suc (sb_pos s) \<noteq> length (sb_data s))"
    by auto
  have "sb_pos s' < length (sb_data s)" using s'(4) ne pos by auto
  then show ?thesis using assms(1) ne unfolding SendBuf_ok_def tracked_def s' by blast
qed

lemma tracked_ack [simp]: "tracked (ack_and_drop k s) off = tracked s off"
  by (auto simp: tracked_def ack_and_drop_def update_conv' split: option.splits)

lemma ack_and_drop_ok: "SendBuf_ok s \<Longrightarrow> SendBuf_ok (ack_and_drop k s)"
  by (auto simp: SendBuf_ok_def) (auto simp: ack_and_drop_def distinct_update split: option.splits)

lemma map_of_filter_keys: "map_of (filter (\<lambda>kv. P (fst kv)) xs) k = (if P k then map_of xs k else None)"
  by (induction xs) auto

text \<open>The keys \<open>recv_and_drop\<close> deletes are those marked as received.\<close>

lemma deleted_keys:
  "distinct (map fst xs) \<Longrightarrow> k \<in> set (map fst (filter (\<lambda>kv. \<not> snd kv) xs)) \<longleftrightarrow> map_of xs k = Some False"
  by (auto simp: map_of_eq_Some_iff image_iff)

lemma recv_and_drop_eq:
  assumes "SendBuf_ok s" "sb_data s \<noteq> []"
  shows "recv_and_drop s = s\<lparr>sb_data := filter (\<lambda>x. map_of (offset_recv s) (piece_off x) \<noteq> Some False) (sb_data s),
    offset_recv := filter (\<lambda>kv. map_of (offset_recv s) (fst kv) \<noteq> Some False) (offset_recv s)\<rparr>"
proof -
  have "distinct (map fst (offset_recv s))" using assms(1) by (simp add: SendBuf_ok_def)
  from deleted_keys [OF this] show ?thesis using assms(2) unfolding recv_and_drop_def Let_def by simp
qed

lemma recv_and_drop_ok:
  assumes "SendBuf_ok s" "sb_pos s = 0"
  shows "SendBuf_ok (recv_and_drop s)"
proof (cases "sb_data s = []")
  case False
  let ?P = "\<lambda>k. map_of (offset_recv s) k \<noteq> Some False"
  have "tracked (recv_and_drop s) k \<longleftrightarrow> ?P k \<and> tracked s k" for k
    unfolding tracked_def recv_and_drop_eq [OF assms(1) False]
    by (simp add: map_of_filter_keys [of ?P])
  then show ?thesis
    using assms False unfolding recv_and_drop_eq [OF assms(1) False]
    by (auto simp: SendBuf_ok_def pieces_ok_filter distinct_map_filter)
qed (use assms in \<open>simp add: recv_and_drop_def\<close>)

lemma SendBuf_clear_ok: "SendBuf_ok s \<Longrightarrow> SendBuf_ok (SendBuf_clear s)"
  by (simp add: SendBuf_ok_def SendBuf_clear_def)

lemma ack_all_fields:
  "sb_data (fold ack_and_drop acks s) = sb_data s \<and> sb_pos (fold ack_and_drop acks s) = sb_pos s \<and>
   map_of (offset_recv (fold ack_and_drop acks s)) =
     (\<lambda>k. if k \<in> set acks \<and> tracked s k then Some False else map_of (offset_recv s) k) \<and>
   (SendBuf_ok s \<longrightarrow> SendBuf_ok (fold ack_and_drop acks s))"
proof (induction acks arbitrary: s)
  case (Cons a acks)
  let ?s = "ack_and_drop a s"
  have "sb_data ?s = sb_data s" "sb_pos ?s = sb_pos s"
    by (simp_all add: ack_and_drop_def split: option.splits)
  moreover have "SendBuf_ok s \<Longrightarrow> SendBuf_ok ?s" by (rule ack_and_drop_ok)
  moreover have "map_of (offset_recv ?s) = (\<lambda>k. if k = a \<and> tracked s k then Some False else map_of (offset_recv s) k)"
    by (auto simp: ack_and_drop_def tracked_def update_conv' fun_eq_iff split: option.splits)
  ultimately show ?case using Cons.IH [of ?s] by (simp add: fun_eq_iff)
qed simp

lemma acknowledged_pieces:
  assumes "SendBuf_ok s" and "sb_pos s = 0" and "\<forall>x \<in> set (sb_data s). map_of (offset_recv s) (piece_off x) = Some True"
  shows "sb_data (recv_and_drop (fold ack_and_drop acks s)) = filter (\<lambda>x. piece_off x \<notin> set acks) (sb_data s) \<and>
    SendBuf_ok (recv_and_drop (fold ack_and_drop acks s))"
proof -
  let ?s = "fold ack_and_drop acks s"
  note F = ack_all_fields [of acks s]
  have ok: "SendBuf_ok ?s" "sb_pos ?s = 0" using F assms by auto
  have "tracked s (piece_off x)" if "x \<in> set (sb_data s)" for x
    using assms(3) that by (simp add: tracked_def)
  then have "filter (\<lambda>x. map_of (offset_recv ?s) (piece_off x) \<noteq> Some False) (sb_data s) =
      filter (\<lambda>x. piece_off x \<notin> set acks) (sb_data s)"
    using F assms(3) by (intro filter_cong) auto
  then have "sb_data (recv_and_drop ?s) = filter (\<lambda>x. piece_off x \<notin> set acks) (sb_data s)"
    using F recv_and_drop_eq [OF ok(1)] by (cases "sb_data s = []") (auto simp: recv_and_drop_def)
  with recv_and_drop_ok [OF ok] show ?thesis by simp
qed

lemmas acknowledged_data = acknowledged_pieces [THEN conjunct1]

section \<open>Properties\<close>

text \<open>
  C27: \<open>SendBuf::write\<close> stores a prefix of the caller's bytes, as many as the capacity allows, as
  consecutive pieces of at most 1350 bytes that continue the stream where it ended; every
  new piece is marked as outstanding, the older pieces stay as they are, and the count of
  bytes left to write goes down by what was written.
\<close>

theorem write_appends_pieces:
  assumes "SendBuf_ok s" and "off_len \<le> SEND_BUFFER_SIZE" and "sb_off s + write_data_len < u64_range"
    and "SendBuf_write src start_off write_data_len window_size off_len s = (r, left, s')" and "0 < r"
  shows "\<exists>ps. sb_data s' = sb_data s @ ps \<and> contiguous (sb_off s) (src + start_off) ps \<and>
    list_all fits_datagram ps \<and> total_len ps = nat r \<and> nat r = min write_data_len (fst (cap s)) \<and>
    left = write_data_len - nat r \<and> sb_off s' = sb_off s + nat r \<and>
    map_of (offset_recv s') =
      (\<lambda>k. if k \<in> set (map piece_off ps) then Some True else map_of (offset_recv s) k) \<and>
    SendBuf_ok s' \<and> max_data s' = (if sb_data s = [] then window_size else max_data s)"
  using write_spec [OF assms] .

theorem write_appends_pieces_witness:
  "\<exists>ps. sb_data (snd (snd (SendBuf_write 5000 0 3000 10800 1350 SendBuf_new))) = ps \<and>
     contiguous 0 5000 ps \<and> list_all fits_datagram ps \<and> total_len ps = 3000"
proof -
  have "fst (SendBuf_write 5000 0 3000 10800 1350 SendBuf_new) = 3000"
    by (simp add: SendBuf_write_def cap_def SendBuf_len_def SendBuf_new_def Let_def write_pieces_def
        write_loop.simps SEND_BUFFER_SIZE_def MIN_SENDBUF_INITIAL_LEN_def)
  then obtain left s' where w: "SendBuf_write 5000 0 3000 10800 1350 SendBuf_new = (3000, left, s')"
    by (cases "SendBuf_write 5000 0 3000 10800 1350 SendBuf_new") auto
  from write_appends_pieces [OF SendBuf_new_ok _ _ w] show ?thesis unfolding w
    by (auto simp: SEND_BUFFER_SIZE_def SendBuf_new_def)
qed

text \<open>
  C28: On a well-formed buffer that holds data, \<open>emit\<close> hands out exactly the piece at the current
  position with the stream offset behind it, never an older or a partial one, and stops the
  round, going back to the first piece, when the last piece or the window is reached.
\<close>

theorem emit_hands_out_next_piece:
  assumes "SendBuf_ok s" and "sb_data s \<noteq> []"
  shows "\<exists>stop s'. emit s = Inr (stop, Some (snd (sb_data s ! sb_pos s)), piece_len (sb_data s ! sb_pos s),
      u64_add (piece_off (sb_data s ! sb_pos s)) (piece_len (sb_data s ! sb_pos s)), s') \<and>
    (stop \<longleftrightarrow> u64_add (sb_sent s) (piece_len (sb_data s ! sb_pos s)) \<ge> max_data s \<or>
       Suc (sb_pos s) = length (sb_data s)) \<and>
    sb_data s' = sb_data s \<and> sb_pos s' = (if stop then 0 else Suc (sb_pos s)) \<and> SendBuf_ok s'"
  using emit_step [OF assms] emit_ok [OF assms(1)] by fastforce

theorem emit_hands_out_next_piece_witness:
  "\<exists>stop s'. emit (push_piece 5000 100 SendBuf_new) = Inr (stop, Some (5000, 100), 100, 100, s') \<and> stop \<and> sb_pos s' = 0"
proof -
  have "SendBuf_ok (push_piece 5000 100 SendBuf_new)"
    by (auto simp: SendBuf_ok_def push_piece_def SendBuf_new_def tracked_def SEND_BUFFER_SIZE_def u64_add_def)
  from emit_hands_out_next_piece [OF this] show ?thesis
    by (auto simp: push_piece_def SendBuf_new_def u64_add_def)
qed

text \<open>
  Acknowledged pieces leave the buffer and nothing else does: after any sequence of
  acknowledgements and \<open>recv_and_drop\<close>, the pieces left are those that were outstanding and
  were not acknowledged, in their old order, and the buffer is well formed.
\<close>

theorem acknowledged_pieces_leave:
  assumes "SendBuf_ok s" and "sb_pos s = 0" and "\<forall>x \<in> set (sb_data s). map_of (offset_recv s) (piece_off x) = Some True"
  shows "sb_data (recv_and_drop (fold ack_and_drop acks s)) = filter (\<lambda>x. piece_off x \<notin> set acks) (sb_data s) \<and>
    SendBuf_ok (recv_and_drop (fold ack_and_drop acks s))"
  by (rule acknowledged_pieces [OF assms])

definition demo_buf :: SendBuf where
  "demo_buf = push_piece 6350 400 (push_piece 5000 1350 SendBuf_new)"

lemma demo_buf_ok: "SendBuf_ok demo_buf"
  by (auto simp: SendBuf_ok_def demo_buf_def push_piece_def SendBuf_new_def tracked_def SEND_BUFFER_SIZE_def u64_add_def)

theorem acknowledged_pieces_leave_witness:
  "sb_data (recv_and_drop (fold ack_and_drop [0] demo_buf)) = [(1350, 6350, 400)]"
  using acknowledged_pieces_leave [OF demo_buf_ok, of "[0]"]
  by (simp add: demo_buf_def push_piece_def SendBuf_new_def u64_add_def)

text \<open>
  A smaller window does not limit the write that installs it: on an empty buffer the
  capacity is taken from the limit of the previous round, so that more than \<open>window_size\<close> bytes
  are accepted when the old limit is larger.
\<close>

theorem write_exceeds_new_window:
  assumes "sb_data s = []" and "sb_pos s = 0" and "0 < window_size" and "window_size < max_data s"
    and "max_data s \<le> n" and "n < u64_range" and "off_len \<le> SEND_BUFFER_SIZE" and "sb_off s + n < u64_range"
  shows "\<exists>left s'. SendBuf_write src start_off n window_size off_len s = (int (max_data s), left, s') \<and>
    window_size < total_len (sb_data s') \<and> max_data s' = window_size"
proof -
  have m: "max_data s < u64_range" using assms(5,6) by linarith
  let ?s = "s\<lparr>sb_recv_count := [], used_length := 0, max_data := window_size, removed := 0, sb_sent := 0,
    sb_length := 0, used_length := 0\<rparr>"
  have "sb_off ?s + max_data s < u64_range" using assms(5,8) by simp
  from write_pieces_spec [OF _ assms(7) this, of "src + start_off"] assms(4)
  obtain ps where ps: "write_pieces (src + start_off) (max_data s) off_len ?s = (max_data s, push_all ps ?s)"
    "contiguous (sb_off ?s) (src + start_off) ps" "total_len ps = max_data s" by auto
  have "sb_off ?s + total_len ps < u64_range" using ps(3) assms(5,8) by simp
  from push_all_spec [OF ps(2) this] have F: "sb_data (push_all ps ?s) = ps" "max_data (push_all ps ?s) = window_size"
    using assms(1) by simp_all
  have ready: "\<not> max_data s < n \<Longrightarrow> n = max_data s" using assms(5) by simp
  have "SendBuf_write src start_off n window_size off_len s =
      (int (max_data s), u64_sub n (max_data s), push_all ps ?s)"
    using assms(1-4) ps(1) m order.strict_trans2 [OF assms(4,5)]
    by (cases "max_data s < n") (simp_all add: SendBuf_write_def cap_def SendBuf_len_def Let_def ready)
  with F ps(3) assms(4) show ?thesis by auto
qed

theorem write_exceeds_new_window_witness:
  "\<exists>left s'. SendBuf_write 0 0 20000 1350 0 SendBuf_new = (10800, left, s') \<and>
    1350 < total_len (sb_data s') \<and> max_data s' = 1350"
  using write_exceeds_new_window [of SendBuf_new 1350 20000 0 0 0]
  by (simp add: SendBuf_new_def MIN_SENDBUF_INITIAL_LEN_def)

end
