(* ===== verification/Gloo_Recovery.thy ===== *)
theory Gloo_Recovery
  imports Complex_Main Gloo_SendBuf
begin

text \<open>
  Congestion control of the datagram transport (\<open>gloo/Recovery.h\<close>). Floating point values are
  rationals; the rounding of the platform's \<open>float\<close> and \<open>double\<close> and its \<open>pow (x, 2)\<close> are the
  record \<open>fp\<close>, an argument of the operations that compute with them.
\<close>

record fp_ops =
  fl32 :: "rat \<Rightarrow> rat"
  fl64 :: "rat \<Rightarrow> rat"
  pow2 :: "rat \<Rightarrow> rat"

section \<open>State and operations\<close>

definition INITIAL_WINDOW_PACKETS :: nat where "INITIAL_WINDOW_PACKETS = 8"
definition ELICT_ACK_CONSTANT :: nat where "ELICT_ACK_CONSTANT = 8"
definition INI_WIN :: nat where "INI_WIN = 1350 * 8"
definition PACKET_SIZE :: nat where "PACKET_SIZE = 1350"

record Recovery =
  app_limit :: bool
  congestion_window :: nat
  bytes_in_flight :: nat
  max_datagram_size :: nat
  incre_win :: nat
  decre_win :: nat
  former_win_vecter :: "nat list"
  roll_back_flag :: bool
  function_change :: bool
  incre_win_copy :: nat
  decre_win_copy :: nat

definition Recovery_new :: Recovery where
  "Recovery_new =
     \<lparr>app_limit = False, congestion_window = INI_WIN, bytes_in_flight = 0, max_datagram_size = PACKET_SIZE,
      incre_win = 0, decre_win = 0, former_win_vecter = [], roll_back_flag = False, function_change = False,
      incre_win_copy = 0, decre_win_copy = 0\<rparr>"

definition on_init :: "Recovery \<Rightarrow> Recovery" where
  "on_init r = r\<lparr>congestion_window := u64_mul (max_datagram_size r) INITIAL_WINDOW_PACKETS\<rparr>"

definition Recovery_reset :: "Recovery \<Rightarrow> Recovery" where
  "Recovery_reset r = r\<lparr>congestion_window := u64_mul (max_datagram_size r) INITIAL_WINDOW_PACKETS\<rparr>"

text \<open>The conversion of a non-negative floating point value to \<open>size_t\<close> truncates.\<close>

definition to_size :: "rat \<Rightarrow> nat" where
  "to_size x = nat \<lfloor>x\<rfloor>"

text \<open>The polynomial of the window change, each operation rounded to \<open>double\<close>.\<close>

definition win_poly :: "fp_ops \<Rightarrow> rat \<Rightarrow> nat \<Rightarrow> rat" where
  "win_poly fp weights mds =
     fl64 fp (fl64 fp (fl64 fp (fl64 fp (3 * pow2 fp weights) - fl64 fp (12 * weights)) + 4) * of_nat mds)"

definition update_win :: "fp_ops \<Rightarrow> rat \<Rightarrow> rat \<Rightarrow> Recovery \<Rightarrow> Recovery" where
  "update_win fp weights num r =
     (let (winadd, winadd_copy, r) =
            (if function_change r then (win_poly fp weights (max_datagram_size r), 0, r)
             else
               (let r = (if weights > 0
                         then r\<lparr>function_change := True, incre_win := incre_win_copy r, decre_win := decre_win_copy r\<rparr>
                         else r)
                in (fl64 fp (num * of_nat (max_datagram_size r)),
                    fl32 fp (win_poly fp weights (max_datagram_size r)), r)));
          r = (if winadd \<noteq> num then r\<lparr>roll_back_flag := True\<rparr> else r);
          r = (if winadd > 0 then r\<lparr>incre_win := u64_add (incre_win r) (to_size winadd)\<rparr>
               else r\<lparr>decre_win := u64_add (decre_win r) (to_size (- winadd))\<rparr>)
      in if winadd_copy > 0 then r\<lparr>incre_win_copy := u64_add (incre_win_copy r) (to_size winadd_copy)\<rparr>
         else r\<lparr>decre_win_copy := u64_add (decre_win_copy r) (to_size (- winadd_copy))\<rparr>)"

definition should_elicit_ack :: "nat \<Rightarrow> bool" where
  "should_elicit_ack pkt_num \<longleftrightarrow> pkt_num mod ELICT_ACK_CONSTANT = 0"

text \<open>\<open>std::set\<close>: the increasing list of its elements.\<close>

definition cwnd :: "Recovery \<Rightarrow> nat \<times> Recovery" where
  "cwnd r =
     (let tmp_win = (if u64_mul 2 (incre_win r) > decre_win r
                     then u64_sub (u64_mul 2 (incre_win r)) (decre_win r) else 0);
          r = (if \<not> roll_back_flag r
               then r\<lparr>former_win_vecter := insort_insert tmp_win (former_win_vecter r)\<rparr> else r);
          r = r\<lparr>congestion_window := tmp_win, incre_win := 0, decre_win := 0,
                incre_win_copy := 0, decre_win_copy := 0\<rparr>
      in if congestion_window r \<ge> PACKET_SIZE * INITIAL_WINDOW_PACKETS then (congestion_window r, r)
         else (let r = r\<lparr>congestion_window := PACKET_SIZE * INITIAL_WINDOW_PACKETS\<rparr>
               in (congestion_window r, r)))"

definition cwnd_available :: "Recovery \<Rightarrow> nat" where
  "cwnd_available r = u64_sub (congestion_window r) (bytes_in_flight r)"

definition collapse_cwnd :: "Recovery \<Rightarrow> Recovery" where
  "collapse_cwnd r = r\<lparr>congestion_window := INI_WIN\<rparr>"

definition update_app_limited :: "bool \<Rightarrow> Recovery \<Rightarrow> Recovery" where
  "update_app_limited v r = r\<lparr>app_limit := v\<rparr>"

definition rollback :: "Recovery \<Rightarrow> nat \<times> Recovery" where
  "rollback r =
     (let r = (if former_win_vecter r = [] then r\<lparr>congestion_window := INI_WIN\<rparr>
               else r\<lparr>congestion_window := last (former_win_vecter r),
                      former_win_vecter := butlast (former_win_vecter r)\<rparr>)
      in (congestion_window r, r))"

section \<open>Properties\<close>

text \<open>
  The window computed from the acknowledgements is twice the increments minus the decrements
  collected since the last round, but never below eight packets, and the accumulators start
  again from zero.
\<close>

theorem cwnd_value:
  assumes "2 * incre_win r < u64_range"
  shows "fst (cwnd r) = max INI_WIN (2 * incre_win r - decre_win r) \<and>
    congestion_window (snd (cwnd r)) = fst (cwnd r) \<and>
    incre_win (snd (cwnd r)) = 0 \<and> decre_win (snd (cwnd r)) = 0"
  using assms
  by (auto simp: cwnd_def Let_def INI_WIN_def PACKET_SIZE_def INITIAL_WINDOW_PACKETS_def u64_mul_exact u64_sub_exact)

theorem cwnd_value_witness:
  "fst (cwnd (Recovery_new\<lparr>incre_win := 10800, decre_win := 1350\<rparr>)) = 20250"
  using cwnd_value [of "Recovery_new\<lparr>incre_win := 10800, decre_win := 1350\<rparr>"] by (simp add: INI_WIN_def)

text \<open>
  C35: The window before the first acknowledgement is recorded as zero, and a loss then stalls
  the sender for good: \<open>rollback\<close> returns the recorded zero instead of the floor of eight
  packets, writing with that window stores nothing and installs it as the limit of the send
  buffer, and from then on every write to the empty buffer is refused, whatever its window.
\<close>

theorem first_rollback_stalls_sender:
  assumes "sb_data s = []" and "0 < max_data s" and "max_data s < u64_range" and "0 < n"
  shows "fst (cwnd Recovery_new) = INI_WIN \<and> fst (rollback (snd (cwnd Recovery_new))) = 0 \<and>
    (\<exists>s'. SendBuf_write src off n (fst (rollback (snd (cwnd Recovery_new)))) off_len s = (0, n, s') \<and>
      sb_data s' = [] \<and>
      (\<exists>s''. SendBuf_write src off n window off_len s' = (0, n, s'') \<and> sb_data s'' = [] \<and> max_data s'' = 0))"
proof -
  have r: "fst (rollback (snd (cwnd Recovery_new))) = 0"
    by (simp add: rollback_def cwnd_def Recovery_new_def Let_def u64_mul_def INI_WIN_def PACKET_SIZE_def
        INITIAL_WINDOW_PACKETS_def insort_insert_key_def)
  have c: "fst (cwnd Recovery_new) = INI_WIN"
    by (simp add: cwnd_def Recovery_new_def Let_def u64_mul_def INI_WIN_def PACKET_SIZE_def INITIAL_WINDOW_PACKETS_def)
  show ?thesis unfolding r c using assms
    by (simp add: SendBuf_write_def cap_def SendBuf_len_def Let_def)
qed

theorem first_rollback_stalls_sender_witness:
  "\<exists>s'. SendBuf_write 0 0 5000 0 0 SendBuf_new = (0, 5000, s') \<and>
    (\<exists>s''. SendBuf_write 0 0 5000 10800 0 s' = (0, 5000, s''))"
  using first_rollback_stalls_sender [of SendBuf_new 5000 0 0 0 10800]
  by (auto simp: SendBuf_new_def MIN_SENDBUF_INITIAL_LEN_def)

end
