(* ===== verification/Gloo_Connection.thy ===== *)
theory Gloo_Connection
  imports Gloo_RecvBuf Gloo_Recovery
begin

text \<open>
  The connection of the datagram transport (\<open>gloo/connection.h\<close>). An operation that reads the
  clock takes the time as the argument \<open>now\<close> (nanoseconds); \<open>be\<close> is the byte order and \<open>fp\<close> the
  floating point of the platform. Unordered maps that are iterated over are lists of entries,
  in the order of the iteration; results hold for every such order.
\<close>

section \<open>State\<close>

definition HEADER_LENGTH :: nat where "HEADER_LENGTH = 26"
definition ELICIT_FLAG :: nat where "ELICIT_FLAG = 8"
definition CONGESTION_THREAHOLD :: rat where "CONGESTION_THREAHOLD = 1 / 100"

record sbuffer =
  sbf_src :: nat
  sbf_len :: nat
  sbf_left :: nat

definition sbuffer_new :: "nat \<Rightarrow> nat \<Rightarrow> sbuffer" where
  "sbuffer_new src len = \<lparr>sbf_src = src, sbf_len = len, sbf_left = len\<rparr>"

definition sbuffer_sent :: "sbuffer \<Rightarrow> nat" where
  "sbuffer_sent b = u64_sub (sbf_len b) (sbf_left b)"

record Connection =
  c_recv_count :: nat
  sent_count :: nat
  is_server :: bool
  handshake_completed :: bool
  handshake_confirmed :: bool
  closed :: bool
  timed_out :: bool
  server :: bool
  written_data :: nat
  stop_flag :: bool
  stop_ack :: bool
  record_send :: "nat list"
  recv_dic :: "(nat \<times> nat) list"
  send_data_buf :: bytes
  norm2_vec :: "nat list"
  record_win :: nat
  total_offset :: nat
  recv_flag :: bool
  recv_hashmap :: "(nat \<times> nat) list"
  feed_back :: bool
  ack_point :: nat
  send_num :: nat
  high_priority :: nat
  sent_number :: nat
  sent_dic :: "nat \<rightharpoonup> nat"
  bidirect :: bool
  recovery :: Recovery
  pkt_space_data :: PktNumSpace
  pkt_space_ack :: PktNumSpace
  rtt :: int
  handshake :: int
  ack_set :: "nat list"
  send_buffer :: SendBuf
  rec_buffer :: RecvBuf
  keyToValues :: "nat \<rightharpoonup> nat list"
  valueToKeys :: "nat \<rightharpoonup> nat"
  timeout_ack :: "nat \<rightharpoonup> bytes \<times> int"
  data_buffer :: "sbuffer list"
  current_buffer_pos :: nat
  initial :: bool
  waiting_flag :: bool
  retransmission_ack :: "(nat \<times> bytes \<times> int) list"

definition Connection_new :: "int \<Rightarrow> bool \<Rightarrow> Connection" where
  "Connection_new now srv =
     \<lparr>c_recv_count = 0, sent_count = 0, is_server = srv, handshake_completed = False,
      handshake_confirmed = False, closed = False, timed_out = False, server = srv, written_data = 0,
      stop_flag = True, stop_ack = True, record_send = [], recv_dic = [], send_data_buf = [],
      norm2_vec = [], record_win = 0, total_offset = 0, recv_flag = False, recv_hashmap = [],
      feed_back = False, ack_point = 0, send_num = 0, high_priority = 0, sent_number = 0,
      sent_dic = Map.empty, bidirect = True, recovery = Recovery_new, pkt_space_data = PktNumSpace_new,
      pkt_space_ack = PktNumSpace_new, rtt = 0, handshake = now, ack_set = [], send_buffer = SendBuf_new,
      rec_buffer = RecvBuf_new, keyToValues = Map.empty, valueToKeys = Map.empty, timeout_ack = Map.empty,
      data_buffer = [], current_buffer_pos = 0, initial = False, waiting_flag = False,
      retransmission_ack = []\<rparr>"

section \<open>Round trip times\<close>

text \<open>Division of durations truncates towards zero.\<close>

definition tdiv :: "int \<Rightarrow> int \<Rightarrow> int" where
  "tdiv a b = (if a \<ge> 0 then a div b else - (- a div b))"

definition update_rtt :: "int \<Rightarrow> Connection \<Rightarrow> Connection" where
  "update_rtt arrive_time c =
     (if rtt c = 0 then c\<lparr>rtt := arrive_time - handshake c\<rparr>
      else c\<lparr>rtt := tdiv (17 * (arrive_time - handshake c)) 16\<rparr>)"

definition set_rtt :: "int \<Rightarrow> Connection \<Rightarrow> Connection" where
  "set_rtt interval c = (if bidirect c then c\<lparr>rtt := interval\<rparr> else c)"

definition new_rtt :: "int \<Rightarrow> Connection \<Rightarrow> Connection" where
  "new_rtt latest c = c\<lparr>rtt := tdiv (rtt c) 4 + tdiv (3 * latest) 4\<rparr>"

definition set_handshake :: "int \<Rightarrow> Connection \<Rightarrow> Connection" where
  "set_handshake now c = c\<lparr>handshake := now\<rparr>"

definition convertToUint64 :: "bool \<Rightarrow> bytes \<Rightarrow> 64 word result" where
  "convertToUint64 be v =
     (if 8 \<le> length v
      then Inr (fold (\<lambda>i result. result OR push_bit (if be then 56 - i * 8 else i * 8) (ucast (v ! i))) [0..<8] 0)
      else Inl UndefinedBehavior)"

section \<open>Receiving\<close>

definition priority_calculation :: "nat \<Rightarrow> Connection \<Rightarrow> nat result" where
  "priority_calculation off c =
     (let real_index = off div 1024
      in if real_index < length (norm2_vec c) then Inr (norm2_vec c ! real_index) else Inl UndefinedBehavior)"

text \<open>\<open>unordered_map::insert\<close>, which keeps an existing entry.\<close>

definition hash_insert :: "'k \<Rightarrow> 'v \<Rightarrow> ('k \<times> 'v) list \<Rightarrow> ('k \<times> 'v) list" where
  "hash_insert k v m = (if k \<in> fst ` set m then m else (k, v) # m)"

text \<open>
  \<open>check_loss\<close>: the offsets the sender asks about are looked up among the received ones. The
  bytes from \<open>start\<close> on are the argument of the loop.
\<close>

function check_loss :: "bool \<Rightarrow> bytes \<Rightarrow> Connection \<Rightarrow> Connection result" where
  "check_loss be b c =
     (if b = [] then Inr c
      else rbind (get_u64 be b 0) (\<lambda>w.
        (let offset = unat w;
             c = c\<lparr>recv_hashmap := hash_insert offset (if offset \<in> fst ` set (recv_dic c) then 0 else 1) (recv_hashmap c)\<rparr>
         in check_loss be (drop 8 b) c)))"
  by auto
termination by (relation "measure (\<lambda>(be, b, c). length b)") auto

declare check_loss.simps [simp del]

text \<open>
  The loop of \<open>process_ack\<close> over the remaining entries of nine bytes. The weights are \<open>float\<close>,
  the constants added to them \<open>double\<close>.
\<close>

definition add_weight :: "fp_ops \<Rightarrow> rat \<Rightarrow> rat \<Rightarrow> rat" where
  "add_weight fp w d = fl32 fp (fl64 fp (w + fl64 fp d))"

function ack_loop :: "fp_ops \<Rightarrow> bool \<Rightarrow> bytes \<Rightarrow> rat \<Rightarrow> nat \<Rightarrow> Connection \<Rightarrow> Connection result" where
  "ack_loop fp be unackbuf weights count c =
     (if unackbuf = [] then Inr c
      else if length unackbuf < 9 then Inl UndefinedBehavior
      else rbind (convertToUint64 be (take 8 unackbuf)) (\<lambda>w.
        (let unack = unat w;
             priority = unat (unackbuf ! 8);
             rest = drop 9 unackbuf
         in case sent_dic c unack of
              None \<Rightarrow> ack_loop fp be rest weights count c
            | Some n \<Rightarrow>
                (let c = (if n = 0 then c\<lparr>send_buffer := ack_and_drop unack (send_buffer c)\<rparr> else c) in
                 rbind (if priority \<noteq> 0 then priority_calculation unack c else Inr priority) (\<lambda>priority.
                   (let (weights, c) =
                          (if priority = 1 then (add_weight fp weights (15 / 100), c)
                           else if priority = 2 then (add_weight fp weights (2 / 10), c)
                           else if priority = 3 then (add_weight fp weights (25 / 100), c)
                           else (weights, c\<lparr>send_buffer := ack_and_drop unack (send_buffer c)\<rparr>))
                    in rbind (priority_calculation unack c) (\<lambda>real_priority.
                      (let c = (if priority \<noteq> 0 \<and> real_priority = 3
                                then c\<lparr>high_priority := u64_add (high_priority c) 1\<rparr> else c);
                           pnum = (if count mod 8 = 0 then 8 else count mod 8);
                           c = (if count mod 8 = 0 \<or> rest = []
                                then c\<lparr>recovery := update_win fp weights (of_nat pnum) (recovery c)\<rparr> else c)
                       in ack_loop fp be rest weights (count + 1) c))))))))"
  by auto
termination by (relation "measure (\<lambda>(fp, be, b, w, n, c). length b)") auto

declare ack_loop.simps [simp del]

text \<open>The loop variable of type \<open>int\<close> that runs over 64-bit packet numbers.\<close>

definition int_key :: "nat \<Rightarrow> nat" where
  "int_key k = unat (scast (ucast (word_of_nat k :: 64 word) :: 32 word) :: 64 word)"

definition process_ack :: "fp_ops \<Rightarrow> bool \<Rightarrow> int \<Rightarrow> bytes \<Rightarrow> Connection \<Rightarrow> Connection result" where
  "process_ack fp be now buf c =
     (if length buf < 26 then Inl UndefinedBehavior
      else rbind (from_slice be (take 26 buf)) (\<lambda>hd.
        if ack_set c = [] then Inr (c\<lparr>stop_ack := True\<rparr>)
        else
          (let received_ack = unat (pkt_num hd) in
           case (case map_of (retransmission_ack c) received_ack of
                   Some e \<Rightarrow> Some (snd e)
                 | None \<Rightarrow> map_option snd (timeout_ack c received_ack)) of
             None \<Rightarrow> Inr c
           | Some sent_at \<Rightarrow>
               (let c = update_rtt now (c\<lparr>handshake := sent_at\<rparr>) in
                case valueToKeys c received_ack of
                  None \<Rightarrow> Inr c
                | Some ini \<Rightarrow>
                    (let keys = map int_key (case keyToValues c ini of None \<Rightarrow> [] | Some ks \<Rightarrow> ks);
                         c = c\<lparr>ack_set := remove1 ini (ack_set c),
                               retransmission_ack := filter (\<lambda>e. fst e \<notin> set keys) (retransmission_ack c),
                               valueToKeys := valueToKeys c |` (- set keys),
                               timeout_ack := timeout_ack c |` (- set keys),
                               keyToValues := (keyToValues c)(ini := None)\<rparr>;
                         n = unat (pkt_length hd)
                     in if length buf < 26 + n \<or> n < 8 then Inl UndefinedBehavior
                        else rbind (ack_loop fp be (read_at 26 n buf) 0 1 c) (\<lambda>c.
                          Inr (if sb_pos (send_buffer c) = 0
                               then c\<lparr>send_buffer := recv_and_drop (send_buffer c)\<rparr> else c)))))))"

definition recv_slice :: "fp_ops \<Rightarrow> bool \<Rightarrow> int \<Rightarrow> bytes \<Rightarrow> Connection \<Rightarrow> (nat \<times> Connection) result" where
  "recv_slice fp be now buf c =
     (let c = c\<lparr>c_recv_count := u64_add (c_recv_count c) 1\<rparr> in
      rbind (from_bytes be buf) (\<lambda>hdr.
        (let t = ty hdr;
             c = (if t = Handshake \<and> is_server c
                  then (update_rtt now c)\<lparr>handshake_completed := True, initial := True\<rparr> else c);
             c = (if t = Handshake \<and> \<not> is_server c
                  then c\<lparr>handshake_confirmed := False, feed_back := True\<rparr> else c)
         in rbind (if t = ACK
                   then rbind (process_ack fp be now buf c)
                          (\<lambda>c. Inr (if ack_set c = [] then c\<lparr>stop_ack := True\<rparr> else c))
                   else Inr c) (\<lambda>c.
            rbind (if t = ElicitAck
                   then rbind (convertToUint64 be (read_at 1 8 buf)) (\<lambda>w.
                        rbind (check_loss be (drop 26 buf) (c\<lparr>recv_flag := True, send_num := unat w\<rparr>))
                          (\<lambda>c. Inr (c\<lparr>feed_back := True\<rparr>)))
                   else Inr c) (\<lambda>c.
            if t = Application then
              (let n = unat (pkt_length hdr) in
               if length buf < 26 + n then Inl UndefinedBehavior
               else Inr (n, c\<lparr>c_recv_count := u64_add (c_recv_count c) 1,
                              rec_buffer := RecvBuf_write (read_at 26 n buf) (unat (hdr_offset hdr)) (rec_buffer c),
                              recv_dic := hash_insert (unat (hdr_offset hdr)) (unat (priority hdr)) (recv_dic c)\<rparr>))
            else if t = Stop then Inr (0, c\<lparr>stop_flag := False\<rparr>)
            else Inr (0, c))))))"

section \<open>Filling the window\<close>

definition nwrite :: "sbuffer \<Rightarrow> nat \<Rightarrow> SendBuf \<Rightarrow> int \<times> sbuffer \<times> SendBuf" where
  "nwrite send_data window sb =
     (let off_len = (if sb_data sb = [] then 1350 - sbuffer_sent send_data mod 1350 else 0);
          (result, left, sb) =
            SendBuf_write (sbf_src send_data) (sbuffer_sent send_data) (sbf_left send_data) window off_len sb
      in (result, send_data\<lparr>sbf_left := left\<rparr>, sb))"

definition get_data :: "(nat \<times> nat) list \<Rightarrow> Connection \<Rightarrow> bool \<times> Connection" where
  "get_data iovecs c =
     (if data_buffer c \<noteq> [] then (False, c)
      else
        (let c = c\<lparr>data_buffer := data_buffer c @ map (\<lambda>(base, len). sbuffer_new base len) iovecs\<rparr>;
             completed = (data_buffer c \<noteq> []);
             iovecs_len = length iovecs;
             len = (if iovecs_len mod 1350 = 0 then iovecs_len div 1350 else iovecs_len div 1350 + 1)
         in (completed, c\<lparr>norm2_vec := replicate len 3\<rparr>)))"

text \<open>
  \<open>high_ratio > CONGESTION_THREAHOLD\<close>: with no packet sent the quotient is NaN or infinite.
\<close>

definition high_loss :: "fp_ops \<Rightarrow> Connection \<Rightarrow> bool" where
  "high_loss fp c =
     (if sent_number c = 0 then high_priority c > 0
      else fl64 fp (fl64 fp (of_nat (high_priority c)) / fl64 fp (of_nat (sent_number c))) >
             fl64 fp CONGESTION_THREAHOLD)"

definition choose_window :: "fp_ops \<Rightarrow> Connection \<Rightarrow> nat \<times> Connection" where
  "choose_window fp c =
     (if sb_data (send_buffer c) = [] then
        (let high = high_loss fp c;
             c = c\<lparr>high_priority := 0, sent_number := 0\<rparr>;
             (w, r) = (if high then rollback (recovery c) else cwnd (recovery c))
         in (w, c\<lparr>recovery := r, record_win := w\<rparr>))
      else (record_win c, c))"

text \<open>
  The loop of \<open>send_mmsg\<close> that moves data to the send buffer. The outcome is the value to return
  at once, or the number of bytes written. The counter of the \<open>for\<close> statement is never advanced,
  so that the loop ends only by its \<open>break\<close>s.
\<close>

datatype fill = Fill_return int | Fill_done int

partial_function (option) fill_loop :: "nat \<Rightarrow> int \<Rightarrow> Connection \<Rightarrow> (fill \<times> Connection) result option" where
  "fill_loop window written_len c =
     (if current_buffer_pos c < length (data_buffer c) then
        (let i = current_buffer_pos c;
             (wlen, b, sb) = nwrite (data_buffer c ! i) window (send_buffer c);
             c = c\<lparr>send_buffer := sb, data_buffer := (data_buffer c)[i := b]\<rparr>
         in if written_len = 0 \<and> wlen \<le> 0 then Some (Inr (Fill_return wlen, c))
            else
              (let written_len = written_len + wlen in
               if sbf_left b = 0 \<and> i = length (data_buffer c) - 1 then Some (Inr (Fill_done written_len, c))
               else
                 (let c = (if sbuffer_sent b = sbf_len b then c\<lparr>current_buffer_pos := i + 1\<rparr> else c)
                  in if nat (written_len mod int u64_range) \<ge> window then Some (Inr (Fill_done written_len, c))
                     else fill_loop window written_len c)))
      else Some (Inl OutOfRange))"

declare fill_loop.simps [code]

section \<open>Sending data\<close>

datatype iovec = Iov_unset | Iov_hdr Header | Iov_data nat nat | Iov_pad nat

text \<open>
  One packet: \<open>emit\<close>, the counters, the header and the bookkeeping of the offset. The header is
  an object owned by the local vector \<open>hdrs\<close> of \<open>send_mmsg\<close>.
\<close>

definition mmsg_packet :: "Connection \<Rightarrow> (bool \<times> iovec \<times> Header \<times> nat \<times> Connection) result" where
  "mmsg_packet c =
     rbind (emit (send_buffer c)) (\<lambda>(s_flag, out, out_len, out_off, sb).
       (let out_off = u64_sub out_off out_len;
            (pn, space) = updatepktnum (pkt_space_data c);
            c = c\<lparr>send_buffer := sb, sent_count := u64_add (sent_count c) 1,
                  sent_number := u64_add (sent_number c) 1, pkt_space_data := space\<rparr>
        in rbind (priority_calculation out_off c) (\<lambda>prio.
          Inr (s_flag,
               (case out of None \<Rightarrow> Iov_unset | Some (base, len) \<Rightarrow> Iov_data base len),
               \<lparr>ty = Application, pkt_num = of_nat pn, priority = of_nat prio, hdr_offset = of_nat out_off,
                pkt_length = of_nat out_len\<rparr>,
               out_len,
               c\<lparr>sent_dic := (case sent_dic c out_off of
                    Some n \<Rightarrow> (sent_dic c)(out_off \<mapsto> u64_sub n 1)
                  | None \<Rightarrow> (sent_dic c)(out_off \<mapsto> prio)),
                 record_send := record_send c @ [out_off]\<rparr>))))"

type_synonym mmsg = "(nat \<times> nat) option"

lemma emit_loop_progress:
  assumes "emit_loop ps out s = (o', s')"
  shows "sb_data s' = sb_data s \<and> sb_pos s + (if ps = [] then 0 else 1) \<le> sb_pos s' \<and> sb_pos s' \<le> sb_pos s + length ps"
  using assms
proof (induction ps out s rule: emit_loop.induct)
  case (2 buf bs out s)
  show ?case
  proof (cases "piece_len buf = 0")
    case True
    with 2(1) [OF True] 2(3) show ?thesis by auto
  next
    case False
    with 2(2) [OF False refl refl] 2(3) show ?thesis by (fastforce simp: Let_def split: if_splits)
  qed
qed simp

lemma emit_progress:
  assumes "emit s = Inr (False, out, n, off, s')"
  shows "length (sb_data s') - sb_pos s' < length (sb_data s) - sb_pos s"
proof -
  obtain out1 s1 where l: "emit_loop (drop (sb_pos s) (sb_data s)) None s = (out1, s1)" by fastforce
  have ne: "drop (sb_pos s) (sb_data s) \<noteq> []"
    using assms by (auto simp: emit_def off_front_def rbind_Inr_conv split: if_splits)
  with emit_loop_progress [OF l] have "sb_data s1 = sb_data s" "sb_pos s < sb_pos s1" by auto
  moreover have "sb_data s' = sb_data s1 \<and> sb_pos s' = sb_pos s1"
    using assms by (auto simp: emit_def rbind_Inr_conv l Let_def split: if_splits)
  ultimately show ?thesis using ne by auto
qed

lemma mmsg_packet_progress:
  assumes "mmsg_packet c = Inr (False, iov, h, n, c')"
  shows "length (sb_data (send_buffer c')) - sb_pos (send_buffer c') <
    length (sb_data (send_buffer c)) - sb_pos (send_buffer c)"
proof -
  obtain f out k off sb where e: "emit (send_buffer c) = Inr (f, out, k, off, sb)"
    using assms by (cases "emit (send_buffer c)") (auto simp: mmsg_packet_def)
  moreover obtain pn sp where "updatepktnum (pkt_space_data c) = (pn, sp)" by fastforce
  ultimately have "\<not> f" "send_buffer c' = sb"
    using assms by (auto simp: mmsg_packet_def rbind_Inr_conv Let_def)
  with e emit_progress [of "send_buffer c"] show ?thesis by auto
qed

text \<open>
  The loops that build the messages, for \<open>pkt_size\<close> 1 and for larger ones. Indexing the vectors
  outside their size is undefined.
\<close>

definition put_at :: "nat \<Rightarrow> 'a \<Rightarrow> 'a list \<Rightarrow> 'a list result" where
  "put_at i x xs = (if i < length xs then Inr (xs[i := x]) else Inl UndefinedBehavior)"

function mmsg_loop1 :: "nat \<Rightarrow> iovec list \<Rightarrow> mmsg list \<Rightarrow> Connection \<Rightarrow>
    (iovec list \<times> mmsg list \<times> Connection) result" where
  "mmsg_loop1 i iovecs messages c =
     (case mmsg_packet c of
        Inl e \<Rightarrow> Inl e
      | Inr (s_flag, out, hdr, out_len, c') \<Rightarrow>
          rbind (put_at (2 * i + 1) out iovecs) (\<lambda>iovecs.
          rbind (put_at (2 * i) (Iov_hdr hdr) iovecs) (\<lambda>iovecs.
          rbind (put_at i (Some (2 * i, 2)) messages) (\<lambda>messages.
            if s_flag then Inr (iovecs, messages, c'\<lparr>stop_flag := True\<rparr>)
            else mmsg_loop1 (i + 1) iovecs messages c'))))"
  by auto
termination
  by (relation "measure (\<lambda>(i, iv, m, c). length (sb_data (send_buffer c)) - sb_pos (send_buffer c))")
    (auto dest: mmsg_packet_progress)

function mmsg_loopn :: "nat \<Rightarrow> nat \<Rightarrow> iovec list \<Rightarrow> mmsg list \<Rightarrow> Connection \<Rightarrow>
    (iovec list \<times> mmsg list \<times> Connection) result" where
  "mmsg_loopn pkt_size i iovecs messages c =
     (case mmsg_packet c of
        Inl e \<Rightarrow> Inl e
      | Inr (s_flag, out, hdr, out_len, c') \<Rightarrow>
          rbind (put_at (3 * i + 1) out iovecs) (\<lambda>iovecs.
          rbind (put_at (3 * i) (Iov_hdr hdr) iovecs) (\<lambda>iovecs.
          rbind (if \<not> s_flag then put_at (3 * i + 2) (Iov_pad (u64_sub (1472 - 26) out_len)) iovecs else Inr iovecs)
            (\<lambda>iovecs.
            if s_flag then
              rbind (put_at (i div 10) (Some (3 * (i - i mod pkt_size), 3 * (i mod pkt_size + 1))) messages)
                (\<lambda>messages. Inr (iovecs, messages, c'\<lparr>stop_flag := True\<rparr>))
            else
              rbind (if i mod pkt_size = pkt_size - 1
                     then put_at (i div 10) (Some (3 * (i - pkt_size + 1), 3 * pkt_size)) messages
                     else Inr messages)
                (\<lambda>messages. mmsg_loopn pkt_size (i + 1) iovecs messages c')))))"
  by auto
termination
  by (relation "measure (\<lambda>(p, i, iv, m, c). length (sb_data (send_buffer c)) - sb_pos (send_buffer c))")
    (auto dest: mmsg_packet_progress)

declare mmsg_loop1.simps [simp del] mmsg_loopn.simps [simp del]

text \<open>
  \<open>vector::resize\<close> of the output vectors keeps what fits; \<open>pkt_size\<close> is positive (an \<open>int\<close> in the
  code; zero divides by zero).
\<close>

definition resize :: "nat \<Rightarrow> 'a \<Rightarrow> 'a list \<Rightarrow> 'a list" where
  "resize n x xs = take n xs @ replicate (n - length xs) x"

definition send_mmsg :: "fp_ops \<Rightarrow> nat \<Rightarrow> iovec list \<Rightarrow> mmsg list \<Rightarrow> Connection \<Rightarrow>
    (int \<times> iovec list \<times> mmsg list \<times> Connection) result option" where
  "send_mmsg fp pkt_size iovecs messages c =
     (if \<not> current_buffer_pos c < length (data_buffer c) then Some (Inl OutOfRange)
      else
        (let (window, c) = choose_window fp c in
         case fill_loop window 0 c of
           None \<Rightarrow> None
         | Some (Inl e) \<Rightarrow> Some (Inl e)
         | Some (Inr (Fill_return r, c)) \<Rightarrow> Some (Inr (r, iovecs, messages, c))
         | Some (Inr (Fill_done written_len, c)) \<Rightarrow>
             (let n = length (sb_data (send_buffer c)) in
              Some (rbind
                (if pkt_size = 1 then mmsg_loop1 0 (resize (n * 2) Iov_unset iovecs) (resize n None messages) c
                 else if pkt_size = 0 then Inl UndefinedBehavior
                 else mmsg_loopn pkt_size 0 (resize (n * 3) Iov_unset iovecs) (resize (n div pkt_size + 1) None messages) c)
                (\<lambda>(iovecs, messages, c).
                  Inr (written_len, iovecs, messages, if written_len \<noteq> 0 then c\<lparr>stop_ack := False\<rparr> else c))))))"

definition transmission_complete :: "Connection \<Rightarrow> bool \<times> Connection" where
  "transmission_complete c =
     (let result = (list_all (\<lambda>b. sbf_left b = 0) (data_buffer c) \<and>
                    sb_data (send_buffer c) = [] \<and> offset_recv (send_buffer c) = [])
      in (result, if result then c\<lparr>data_buffer := [], current_buffer_pos := 0\<rparr> else c))"

section \<open>Asking for acknowledgements\<close>

text \<open>
  The packet that lists sent offsets. The copy of \<open>out.size()\<close> bytes to \<open>out.data() + 26\<close> writes the
  last bytes of \<open>out\<close> and then goes on for \<open>overrun\<close> bytes behind its end.
\<close>

definition overrun :: "nat \<Rightarrow> nat \<Rightarrow> nat \<Rightarrow> nat" where
  "overrun dst_size off n = off + n - dst_size"

definition native_u64s :: "bool \<Rightarrow> nat list \<Rightarrow> bytes" where
  "native_u64s be xs = concat (map (\<lambda>x. u64_bytes be (of_nat x)) xs)"

definition elicit_new :: "bool \<Rightarrow> int \<Rightarrow> nat \<Rightarrow> bytes \<Rightarrow> Connection \<Rightarrow> (int \<times> bytes \<times> nat \<times> Connection) result" where
  "elicit_new be now n out c =
     (let pktlen = n * 8;
          (pn, space) = updatepktnum (pkt_space_ack c);
          out = resize (pktlen + 26) 0 out
      in rbind (to_bytes be \<lparr>ty = ElicitAck, pkt_num = of_nat pn, priority = 0, hdr_offset = 0, pkt_length = of_nat pktlen\<rparr> out)
           (\<lambda>out.
             (let out = write_at 26 (native_u64s be (take n (drop (ack_point c) (record_send c)))) out;
                  c = c\<lparr>pkt_space_ack := space, ack_set := List.insert pn (ack_set c),
                        keyToValues := (keyToValues c)(pn \<mapsto> (case keyToValues c pn of None \<Rightarrow> [] | Some ks \<Rightarrow> ks) @ [pn]),
                        valueToKeys := (valueToKeys c)(pn \<mapsto> pn),
                        ack_point := ack_point c + n,
                        retransmission_ack := AList.update pn (drop 26 out, now) (retransmission_ack c)\<rparr>
              in Inr (int (pktlen + 26), out, overrun (length out) 26 (length out), c))))"

definition expired :: "fp_ops \<Rightarrow> int \<Rightarrow> Connection \<Rightarrow> nat option" where
  "expired fp now c =
     map_option fst (find (\<lambda>e. snd (snd e) + int (to_size (fl64 fp (fl64 fp (12 / 10) * fl64 fp (of_int (rtt c))))) < now)
       (retransmission_ack c))"

definition elicit_again :: "bool \<Rightarrow> int \<Rightarrow> nat \<Rightarrow> bytes \<Rightarrow> Connection \<Rightarrow> (int \<times> bytes \<times> nat \<times> Connection) result" where
  "elicit_again be now pn out c =
     (let (pktnum, space) = updatepktnum (pkt_space_ack c);
          wait_ack = fst (the (map_of (retransmission_ack c) pn));
          pktlen = length wait_ack;
          out = resize (pktlen + 26 + 26) 0 out
      in rbind (to_bytes be \<lparr>ty = ElicitAck, pkt_num = of_nat pktnum, priority = 0, hdr_offset = 0, pkt_length = of_nat pktlen\<rparr> out)
           (\<lambda>out.
             (let out = write_at 26 wait_ack out;
                  initial_pn = (case valueToKeys c pn of None \<Rightarrow> 0 | Some k \<Rightarrow> k);
                  vtk = (if valueToKeys c pn = None then (valueToKeys c)(pn \<mapsto> 0) else valueToKeys c);
                  c = c\<lparr>pkt_space_ack := space,
                        keyToValues := (keyToValues c)(initial_pn \<mapsto>
                          (case keyToValues c initial_pn of None \<Rightarrow> [] | Some ks \<Rightarrow> ks) @ [pktnum]),
                        valueToKeys := vtk(pktnum \<mapsto> initial_pn),
                        timeout_ack := (if timeout_ack c pn = None
                                        then (timeout_ack c)(pn := map_of (retransmission_ack c) pn) else timeout_ack c),
                        retransmission_ack := AList.update pktnum (wait_ack, now) (AList.delete pn (retransmission_ack c))\<rparr>
              in Inr (int (pktlen + 26), out, 0, c))))"

definition send_elicit_ack :: "fp_ops \<Rightarrow> bool \<Rightarrow> int \<Rightarrow> bytes \<Rightarrow> Connection \<Rightarrow> (int \<times> bytes \<times> nat \<times> Connection) result" where
  "send_elicit_ack fp be now out c =
     (let pktnum = length (record_send c) in
      if retransmission_ack c = [] \<and> ack_point c = pktnum \<and> stop_ack c then Inr (-1, out, 0, c)
      else if ack_point c \<noteq> pktnum then
        (if u64_sub pktnum (ack_point c) \<ge> 160 then elicit_new be now 160 out c
         else elicit_new be now (pktnum - ack_point c) out c)
      else
        (case expired fp now c of
           None \<Rightarrow> Inr (0, out, 0, c)
         | Some pn \<Rightarrow> elicit_again be now pn out c))"

section \<open>Control packets\<close>

definition write_pkt_type :: "Connection \<Rightarrow> Type \<times> Connection" where
  "write_pkt_type c =
     (if rtt c = 0 \<and> is_server c then (Handshake, c\<lparr>handshake_completed := True\<rparr>)
      else if \<not> handshake_confirmed c \<and> \<not> is_server c then (Handshake, c\<lparr>handshake_confirmed := True\<rparr>)
      else if recv_flag c then (ACK, c\<lparr>recv_flag := False\<rparr>)
      else if (sent_count c mod ELICIT_FLAG = 0 \<and> sent_count c > 0) \<or> stop_flag c
        then (ElicitAck, c\<lparr>sent_count := 0\<rparr>)
      else if rtt c \<noteq> 0 then (Application, c)
      else if sb_data (send_buffer c) = [] then (Stop, c)
      else (Unknown, c))"

text \<open>The entries of the acknowledgement, in the order in which the map is iterated.\<close>

fun put_acks :: "bool \<Rightarrow> (nat \<times> nat) list \<Rightarrow> nat \<Rightarrow> bytes \<Rightarrow> bytes result" where
  "put_acks be [] off out = Inr out"
| "put_acks be ((k, v) # es) off out =
     rbind (put_u64 be out (of_nat k) off) (\<lambda>out.
     rbind (put_u8 out (of_nat v) (off + 8)) (\<lambda>out.
     put_acks be es (off + 9) out))"

definition send_data :: "bool \<Rightarrow> int \<Rightarrow> bytes \<Rightarrow> Connection \<Rightarrow> (nat \<times> bytes \<times> Connection) result" where
  "send_data be now out c =
     (let (t, c) = write_pkt_type c;
          control = \<lparr>ty = t, pkt_num = 0, priority = 0, hdr_offset = 0, pkt_length = 0\<rparr>
      in rbind (if t = Handshake then to_bytes be control out else Inr out) (\<lambda>out.
         (let c = (if t = Handshake \<and> server c then set_handshake now c else c);
              c = (if t = Handshake \<and> \<not> server c then c\<lparr>feed_back := False, initial := True\<rparr> else c)
          in if t = ACK then
               (let psize = length (recv_hashmap c) * 9 in
                rbind (to_bytes be (control\<lparr>pkt_num := of_nat (send_num c), pkt_length := of_nat psize\<rparr>) out) (\<lambda>out.
                rbind (put_acks be (recv_hashmap c) 26 out) (\<lambda>out.
                  Inr (HEADER_LENGTH + psize, out,
                       c\<lparr>feed_back := False, recv_hashmap := [], handshake := now\<rparr>))))
             else if t = Stop then
               rbind (to_bytes be control out) (\<lambda>out. Inr (HEADER_LENGTH, out, c))
             else Inr (HEADER_LENGTH, out, c\<lparr>handshake := now\<rparr>))))"

text \<open>
  The arguments of the header are given in the order offset, priority instead of priority,
  offset; all of them are zero.
\<close>

definition send_data_stop :: "bool \<Rightarrow> bytes \<Rightarrow> Connection \<Rightarrow> (nat \<times> bytes \<times> Connection) result" where
  "send_data_stop be out c =
     (let (pn, space) = updatepktnum (pkt_space_ack c) in
      rbind (to_bytes be \<lparr>ty = Stop, pkt_num = of_nat pn, priority = 0, hdr_offset = 0, pkt_length = 0\<rparr> out)
        (\<lambda>out. Inr (HEADER_LENGTH, out, c\<lparr>pkt_space_ack := space\<rparr>)))"

definition send_data_handshake :: "bool \<Rightarrow> bytes \<Rightarrow> Connection \<Rightarrow> (nat \<times> bytes) result" where
  "send_data_handshake be out c =
     rbind (to_bytes be \<lparr>ty = Handshake, pkt_num = 0, priority = 0, hdr_offset = 0, pkt_length = 0\<rparr> out)
       (\<lambda>out. Inr (HEADER_LENGTH, out))"

definition send_ack :: "Connection \<Rightarrow> bool" where
  "send_ack c = feed_back c"

definition is_stopped :: "Connection \<Rightarrow> bool" where
  "is_stopped c \<longleftrightarrow> stop_flag c \<and> stop_ack c \<and> initial c"

definition enable_adding :: "Connection \<Rightarrow> bool" where
  "enable_adding c \<longleftrightarrow> stop_flag c \<and> stop_ack c"

definition is_ack :: "int \<Rightarrow> Connection \<Rightarrow> bool" where
  "is_ack now c \<longleftrightarrow> now - handshake c > rtt c"

definition Connection_read :: "bytes \<Rightarrow> nat \<Rightarrow> Connection \<Rightarrow> (nat \<times> bytes \<times> Connection) result option" where
  "Connection_read out output_len c =
     map_option (map_sum id (\<lambda>(n, out, b). (n, out, c\<lparr>rec_buffer := b\<rparr>))) (RecvBuf_emit out output_len (rec_buffer c))"

definition has_recv :: "Connection \<Rightarrow> bool" where
  "has_recv c = RecvBuf_is_empty (rec_buffer c)"

definition recv_len :: "Connection \<Rightarrow> nat result" where
  "recv_len c = first_item_len (rec_buffer c)"

text \<open>\<open>Connection::write\<close>, which chooses the window but no longer writes anything.\<close>

definition Connection_write :: "fp_ops \<Rightarrow> Connection \<Rightarrow> nat \<times> Connection" where
  "Connection_write fp c = (0, snd (choose_window fp c))"

definition send_all :: "fp_ops \<Rightarrow> int \<Rightarrow> Connection \<Rightarrow> bool \<times> Connection" where
  "send_all fp now c =
     (let c = set_handshake now (c\<lparr>stop_flag := False, stop_ack := False, waiting_flag := False\<rparr>) in
      if send_data_buf c = [] \<and> sb_data (send_buffer c) = [] then (False, c)
      else
        (let (written, c) = Connection_write fp c
         in (True, c\<lparr>send_data_buf := drop written (send_data_buf c),
                     written_data := u64_add (written_data c) written,
                     total_offset := u64_add (total_offset c) written\<rparr>)))"

definition Connection_reset :: "Connection \<Rightarrow> Connection" where
  "Connection_reset c = c\<lparr>norm2_vec := [], send_buffer := SendBuf_clear (send_buffer c)\<rparr>"

definition data_is_empty :: "Connection \<Rightarrow> bool" where
  "data_is_empty c \<longleftrightarrow> sb_data (send_buffer c) = []"

definition Connection_data_empty :: "Connection \<Rightarrow> bool" where
  "Connection_data_empty c \<longleftrightarrow> check_ack (send_buffer c) \<and> send_data_buf c = []"

definition Connection_empty :: "Connection \<Rightarrow> bool" where
  "Connection_empty c \<longleftrightarrow> data_is_empty c \<and> send_data_buf c = []"

definition data_write :: "nat \<Rightarrow> Connection \<Rightarrow> nat \<times> Connection" where
  "data_write nbytes c =
     (let len = (if nbytes mod 1350 = 0 then nbytes div 1350 else nbytes div 1350 + 1);
          c = (if data_buffer c = [] then c\<lparr>total_offset := 0\<rparr> else c)
      in (nbytes, c\<lparr>norm2_vec := replicate len 3, send_buffer := SendBuf_clear (send_buffer c)\<rparr>))"

section \<open>The interface of the transport\<close>

text \<open>
  \<open>gloo/dmludp.h\<close>: the functions that do more than call a method, with the error codes they
  return. The caller's buffer of \<open>out_len\<close> bytes is returned as it is after the call.
\<close>

definition DMLUDP_ERR_DONE :: int where "DMLUDP_ERR_DONE = -1"
definition DMLUDP_ERR_BUFFER_TOO_SHORT :: int where "DMLUDP_ERR_BUFFER_TOO_SHORT = -2"
definition DMLUDP_ERR_STOP :: int where "DMLUDP_ERR_STOP = -3"

fun type_code :: "Type \<Rightarrow> int" where
  "type_code Retry = 1"
| "type_code Handshake = 2"
| "type_code Application = 3"
| "type_code ElicitAck = 4"
| "type_code ACK = 5"
| "type_code Stop = 6"
| "type_code Fin = 7"
| "type_code StartAck = 8"
| "type_code Unknown = 0"

definition dmludp_header_info :: "bool \<Rightarrow> bytes \<Rightarrow> (int \<times> int) result" where
  "dmludp_header_info be data =
     rbind (from_slice be data) (\<lambda>hdr. Inr (type_code (ty hdr), sint (ucast (pkt_num hdr) :: 32 word)))"

text \<open>\<open>memcpy (out, src, n)\<close> between vectors of the sizes given.\<close>

definition memcpy_to :: "nat \<Rightarrow> bytes \<Rightarrow> bytes \<Rightarrow> bytes result" where
  "memcpy_to n src out =
     (if n \<le> length src \<and> n \<le> length out then Inr (write_at 0 (take n src) out) else Inl UndefinedBehavior)"

definition dmludp_send_data_stop :: "bool \<Rightarrow> bytes \<Rightarrow> Connection \<Rightarrow> (int \<times> bytes \<times> Connection) result" where
  "dmludp_send_data_stop be out c =
     (if length out = 0 then Inr (DMLUDP_ERR_BUFFER_TOO_SHORT, out, c)
      else rbind (send_data_stop be (replicate (length out) 0) c) (\<lambda>(written, v, c).
        rbind (memcpy_to written v out) (\<lambda>out. Inr (int written, out, c))))"

definition dmludp_send_data_handshake :: "bool \<Rightarrow> bytes \<Rightarrow> Connection \<Rightarrow> (int \<times> bytes) result" where
  "dmludp_send_data_handshake be out c =
     (if length out = 0 then Inr (DMLUDP_ERR_BUFFER_TOO_SHORT, out)
      else rbind (send_data_handshake be (replicate (length out) 0) c) (\<lambda>(written, v).
        rbind (memcpy_to written v out) (\<lambda>out. Inr (int written, out))))"

definition dmludp_conn_send :: "bool \<Rightarrow> int \<Rightarrow> bytes \<Rightarrow> Connection \<Rightarrow> (int \<times> bytes \<times> Connection) result" where
  "dmludp_conn_send be now out c =
     (if length out = 0 then Inr (DMLUDP_ERR_BUFFER_TOO_SHORT, out, c)
      else rbind (send_data be now (replicate (length out) 0) c) (\<lambda>(written, v, c).
        if written \<noteq> 0 then rbind (memcpy_to (length out) v out) (\<lambda>out. Inr (int written, out, c))
        else if is_stopped c then Inr (DMLUDP_ERR_DONE, out, c)
        else Inr (int written, out, c)))"

definition dmludp_conn_recv :: "fp_ops \<Rightarrow> bool \<Rightarrow> int \<Rightarrow> bytes \<Rightarrow> Connection \<Rightarrow> (int \<times> Connection) result" where
  "dmludp_conn_recv fp be now buf c =
     (if length buf = 0 then Inr (DMLUDP_ERR_BUFFER_TOO_SHORT, c)
      else rbind (recv_slice fp be now buf c) (\<lambda>(received, c).
        if received = 0 then
          rbind (from_slice be buf) (\<lambda>hdr.
            if ty hdr = Stop then Inr (DMLUDP_ERR_STOP, c)
            else if ty hdr = Fin then Inr (DMLUDP_ERR_DONE, c)
            else Inr (int received, c))
        else Inr (int received, c)))"

definition dmludp_send_elicit_ack :: "fp_ops \<Rightarrow> bool \<Rightarrow> int \<Rightarrow> bytes \<Rightarrow> Connection \<Rightarrow> (int \<times> bytes \<times> nat \<times> Connection) result" where
  "dmludp_send_elicit_ack fp be now out c =
     rbind (send_elicit_ack fp be now (replicate (length out) 0) c) (\<lambda>(written, v, over, c).
       if written > 0 then rbind (memcpy_to (nat written) v out) (\<lambda>out. Inr (written, out, over, c))
       else Inr (written, out, over, c))"

text \<open>The vector handed to \<open>read\<close> may have grown; all of it is copied to the caller's buffer.\<close>

definition dmludp_data_read :: "bytes \<Rightarrow> Connection \<Rightarrow> (int \<times> bytes \<times> Connection) result option" where
  "dmludp_data_read buf c =
     (if length buf = 0 then Some (Inr (DMLUDP_ERR_BUFFER_TOO_SHORT, buf, c))
      else map_option (\<lambda>r. rbind r (\<lambda>(n, v, c). rbind (memcpy_to (length v) v buf) (\<lambda>buf. Inr (int n, buf, c))))
             (Connection_read (replicate (length buf) 0) (length buf) c))"

end
