(* ===== verification/Gloo_Connection_Props.thy ===== *)
theory Gloo_Connection_Props
  imports Gloo_Connection
begin

text \<open>
  What the connections of the datagram transport guarantee, and where they fail: the
  handshake, the reports about received offsets, the effect of an acknowledgement on the send
  buffer, and the loops and buffers of the sending side.
\<close>

section \<open>Reports about received offsets\<close>

lemma convert_eq_get: "8 \<le> length v \<Longrightarrow> convertToUint64 be v = get_u64 be v 0"
proof -
  assume len: "8 \<le> length v"
  have shift: "(if be then 56 - i * 8 else i * 8) = u64_shift be i" if "i < 8" for i
    using that by (simp add: u64_shift_def diff_mult_distrib)
  have "read_at 0 8 v ! i = v ! i" if "i < 8" for i using that len by (simp add: read_at_def)
  then show ?thesis
    using len shift unfolding convertToUint64_def get_u64_def Let_def
    by (auto intro!: fold_cong)
qed

lemma native_u64s_Cons [simp]: "native_u64s be (x # xs) = u64_bytes be (of_nat x) @ native_u64s be xs"
  and native_u64s_Nil [simp]: "native_u64s be [] = []"
  by (simp_all add: native_u64s_def)

lemma native_u64s_length: "length (native_u64s be xs) = 8 * length xs"
  by (induction xs) simp_all

lemma get_u64_front: "get_u64 be (u64_bytes be x @ rest) 0 = Inr x"
  using get_u64_mid [of 0 "[]" be x rest] by simp

lemma convert_front: "convertToUint64 be (u64_bytes be x) = Inr x"
  using get_u64_front [of be x "[]"] by (simp add: convert_eq_get)

lemma u64_bytes_not_Nil [simp]: "u64_bytes be x \<noteq> []"
  using u64_bytes_length [of be x] by (metis list.size(3) zero_neq_numeral)

lemma drop_u64_bytes [simp]: "drop 8 (u64_bytes be x @ rest) = rest"
  by simp

lemma unat_of_nat_64: "x < u64_range \<Longrightarrow> unat (of_nat x :: 64 word) = x"
  by (simp add: unat_of_nat)

lemma map_of_hash_insert:
  "map_of (hash_insert k v m) = (case map_of m k of None \<Rightarrow> (map_of m)(k \<mapsto> v) | Some _ \<Rightarrow> map_of m)"
proof (cases "map_of m k")
  case None
  then have "k \<notin> fst ` set m" using map_of_eq_None_iff [of m k] by auto
  with None show ?thesis by (simp add: hash_insert_def)
next
  case (Some y)
  then have "k \<in> fst ` set m" using map_of_eq_None_iff [of m k] by auto
  with Some show ?thesis by (simp add: hash_insert_def)
qed

text \<open>What a receiver that got the offsets of \<open>dic\<close> says about the offsets \<open>offs\<close>.\<close>

definition loss_report :: "nat list \<Rightarrow> (nat \<times> nat) list \<Rightarrow> nat \<rightharpoonup> nat" where
  "loss_report offs dic = (\<lambda>k. if k \<in> set offs then Some (if k \<in> fst ` set dic then 0 else 1) else None)"

lemma check_loss_spec:
  assumes "\<forall>x \<in> set offs. x < u64_range"
  shows "\<exists>m. check_loss be (native_u64s be offs) c = Inr (c\<lparr>recv_hashmap := m\<rparr>) \<and>
    map_of m = loss_report offs (recv_dic c) ++ map_of (recv_hashmap c)"
  using assms
proof (induction offs arbitrary: c)
  case Nil
  then show ?case by (intro exI [of _ "recv_hashmap c"]) (simp add: check_loss.simps loss_report_def map_add_def)
next
  case (Cons x xs)
  let ?v = "if x \<in> fst ` set (recv_dic c) then 0 else 1 :: nat"
  let ?c = "c\<lparr>recv_hashmap := hash_insert x ?v (recv_hashmap c)\<rparr>"
  obtain m where m: "check_loss be (native_u64s be xs) ?c = Inr (?c\<lparr>recv_hashmap := m\<rparr>)"
    "map_of m = loss_report xs (recv_dic ?c) ++ map_of (recv_hashmap ?c)"
    using Cons.IH [of ?c] Cons.prems by auto
  have "check_loss be (native_u64s be (x # xs)) c = check_loss be (native_u64s be xs) ?c"
    using Cons.prems by (simp add: check_loss.simps [of be "u64_bytes be (of_nat x) @ native_u64s be xs"]
        get_u64_front unat_of_nat_64 Let_def)
  moreover have "map_of m = loss_report (x # xs) (recv_dic c) ++ map_of (recv_hashmap c)"
    unfolding m(2) by (auto simp: loss_report_def map_of_hash_insert map_add_def fun_eq_iff split: option.splits)
  ultimately show ?case using m(1) by (intro exI [of _ m]) simp
qed

section \<open>The effect of an acknowledgement\<close>

fun ack_bytes :: "bool \<Rightarrow> (nat \<times> nat) list \<Rightarrow> bytes" where
  "ack_bytes be [] = []"
| "ack_bytes be ((k, v) # es) = u64_bytes be (of_nat k) @ of_nat v # ack_bytes be es"

lemma ack_bytes_length [simp]: "length (ack_bytes be es) = 9 * length es"
  by (induction be es rule: ack_bytes.induct) simp_all

lemma put_acks_eq:
  "off + 9 * length es \<le> length out \<Longrightarrow> put_acks be es off out = Inr (write_at off (ack_bytes be es) out)"
proof (induction be es off out rule: put_acks.induct)
  case (2 be k v es off out)
  let ?b = "u64_bytes be (of_nat k)"
  have 1: "put_u64 be out (of_nat k) off = Inr (write_at off ?b out)"
    using 2(2) by (simp add: put_u64_def)
  have len: "length (write_at off ?b out) = length out" using 2(2) by (simp add: length_write_at)
  have 3: "put_u8 (write_at off ?b out) (of_nat v) (off + 8) = Inr (write_at (off + 8) [of_nat v] (write_at off ?b out))"
    using 2(2) write_at_Cons [of "off + 8" "[]" "write_at off ?b out" "of_nat v"]
    by (simp add: put_u8_def len write_at_Nil)
  have 4: "write_at (off + 8) [of_nat v] (write_at off ?b out) = write_at off (?b @ [of_nat v]) out"
    using 2(2) by (simp add: write_at_append)
  have 5: "write_at (off + 9) (ack_bytes be es) (write_at off (?b @ [of_nat v]) out) =
      write_at off (?b @ of_nat v # ack_bytes be es) out"
    using 2(2) write_at_append [of "off + 9" off "?b @ [of_nat v]" "ack_bytes be es" out] by simp
  have "put_acks be es (off + 9) (write_at off (?b @ [of_nat v]) out) =
      Inr (write_at (off + 9) (ack_bytes be es) (write_at off (?b @ [of_nat v]) out))"
    using 2(1) [of "write_at off (?b @ [of_nat v]) out"] 2(2) by (simp add: length_write_at)
  then show ?case by (simp add: 1 3 4 5)
qed (simp add: write_at_Nil)

text \<open>The offsets an acknowledgement takes out of the send buffer.\<close>

definition released :: "(nat \<rightharpoonup> nat) \<Rightarrow> (nat \<times> nat) list \<Rightarrow> nat set" where
  "released sd es = {k. \<exists>v n. (k, v) \<in> set es \<and> sd k = Some n \<and> (v = 0 \<or> n = 0)}"

lemma released_Cons:
  "released sd ((k, v) # es) = (case sd k of None \<Rightarrow> {} | Some n \<Rightarrow> if v = 0 \<or> n = 0 then {k} else {}) \<union> released sd es"
  by (auto simp: released_def split: option.splits)

definition entries_ok :: "(nat \<times> nat) list \<Rightarrow> Connection \<Rightarrow> bool" where
  "entries_ok es c \<longleftrightarrow> (\<forall>(k, v) \<in> set es. k < u64_range \<and> v < 256 \<and> (sent_dic c k \<noteq> None \<longrightarrow> priority_calculation k c = Inr 3))"

lemma entries_ok_cong:
  "sent_dic c' = sent_dic c \<Longrightarrow> norm2_vec c' = norm2_vec c \<Longrightarrow> entries_ok es c' = entries_ok es c"
  by (simp add: entries_ok_def priority_calculation_def cong: if_cong)

lemma priority_calculation_cong [simp]:
  "priority_calculation k (c\<lparr>send_buffer := x\<rparr>) = priority_calculation k c"
  by (simp add: priority_calculation_def Let_def)

lemma unat_of_nat_8: "v < 256 \<Longrightarrow> unat (of_nat v :: 8 word) = v"
  by (simp add: unat_of_nat)

lemma ack_loop_spec:
  assumes "entries_ok es c"
  shows "\<exists>c' ks. ack_loop fp be (ack_bytes be es) w n c = Inr c' \<and>
    send_buffer c' = fold ack_and_drop ks (send_buffer c) \<and> set ks = released (sent_dic c) es"
  using assms
proof (induction es arbitrary: w n c)
  case Nil
  show ?case by (intro exI [of _ c] exI [of _ "[]"]) (simp add: ack_loop.simps released_def)
next
  case (Cons e es)
  obtain k v where e: "e = (k, v)" by (cases e)
  have kv: "k < u64_range" "v < 256" "sent_dic c k \<noteq> None \<Longrightarrow> priority_calculation k c = Inr 3" "entries_ok es c"
    using Cons.prems by (auto simp: e entries_ok_def)
  let ?b = "ack_bytes be (e # es)"
  have b: "?b \<noteq> []" "\<not> length ?b < 9" "take 8 ?b = u64_bytes be (of_nat k)" "?b ! 8 = of_nat v" "drop 9 ?b = ack_bytes be es"
    by (simp_all add: e nth_append)
  note unfold = ack_loop.simps [of fp be ?b w n c] b convert_front unat_of_nat_64 [OF kv(1)] unat_of_nat_8 [OF kv(2)]
  show ?case
  proof (cases "sent_dic c k")
    case None
    then have "ack_loop fp be ?b w n c = ack_loop fp be (ack_bytes be es) w n c"
      by (subst unfold(1)) (simp add: unfold(2-) Let_def)
    with Cons.IH [OF kv(4), of w n] None show ?thesis by (auto simp: e released_Cons)
  next
    case (Some m)
    with kv(3) have p: "priority_calculation k c = Inr 3" by simp
    define ks where "ks = (if m = 0 then [k] else []) @ (if v = 0 then [k] else [])"
    have "\<exists>w' n' c1. ack_loop fp be ?b w n c = ack_loop fp be (ack_bytes be es) w' n' c1 \<and>
        send_buffer c1 = fold ack_and_drop ks (send_buffer c) \<and> sent_dic c1 = sent_dic c \<and> norm2_vec c1 = norm2_vec c"
      by (cases "v = 0"; cases "m = 0"; subst unfold(1);
          simp add: unfold(2-) Let_def Some p split del: if_split;
          (rule exI)+; rule conjI, rule refl; simp add: ks_def)
    then obtain w' n' c1 where step: "ack_loop fp be ?b w n c = ack_loop fp be (ack_bytes be es) w' n' c1"
      and c1: "send_buffer c1 = fold ack_and_drop ks (send_buffer c)" "sent_dic c1 = sent_dic c" "norm2_vec c1 = norm2_vec c"
      by blast
    have "entries_ok es c1" using kv(4) entries_ok_cong [OF c1(2,3)] by simp
    from Cons.IH [OF this, of w' n'] obtain c' ks' where IH:
      "ack_loop fp be (ack_bytes be es) w' n' c1 = Inr c'" "send_buffer c' = fold ack_and_drop ks' (send_buffer c1)"
      "set ks' = released (sent_dic c1) es" by blast
    have "ack_loop fp be ?b w n c = Inr c'" using step IH(1) by simp
    moreover have "send_buffer c' = fold ack_and_drop (ks @ ks') (send_buffer c)" using IH(2) c1(1) by simp
    moreover have "set (ks @ ks') = released (sent_dic c) (e # es)"
      using Some IH(3) by (auto simp: c1(2) e released_Cons ks_def)
    ultimately show ?thesis by blast
  qed
qed

section \<open>The handshake\<close>

lemma header_len_ok: "26 \<le> length out \<Longrightarrow> length (header_bytes be h @ drop 26 out) = length out"
  by simp

lemma recv_handshake:
  "recv_slice fp be now (header_bytes be \<lparr>ty = Handshake, pkt_num = x, priority = p, hdr_offset = y, pkt_length = z\<rparr> @ rest) c =
    Inr (0, if is_server c
      then (update_rtt now (c\<lparr>c_recv_count := u64_add (c_recv_count c) 1\<rparr>))\<lparr>handshake_completed := True, initial := True\<rparr>
      else c\<lparr>c_recv_count := u64_add (c_recv_count c) 1, handshake_confirmed := False, feed_back := True\<rparr>)"
  by (simp add: recv_slice_def Let_def from_bytes_eq_from_slice from_slice_header update_rtt_def)

lemma update_rtt_fields [simp]:
  "ack_set (update_rtt t c) = ack_set c" "retransmission_ack (update_rtt t c) = retransmission_ack c"
  "valueToKeys (update_rtt t c) = valueToKeys c" "keyToValues (update_rtt t c) = keyToValues c"
  "timeout_ack (update_rtt t c) = timeout_ack c" "send_buffer (update_rtt t c) = send_buffer c"
  "sent_dic (update_rtt t c) = sent_dic c" "norm2_vec (update_rtt t c) = norm2_vec c"
  by (simp_all add: update_rtt_def)

lemma process_ack_spec:
  assumes len: "l = 9 * length es" "l < u64_range" and ne: "es \<noteq> []" and n: "n < u64_range"
    and b: "b = header_bytes be \<lparr>ty = ACK, pkt_num = of_nat n, priority = 0, hdr_offset = 0, pkt_length = of_nat l\<rparr>
      @ ack_bytes be es @ rest"
    and known: "ack_set c \<noteq> []" "map_of (retransmission_ack c) n = Some e" "valueToKeys c n = Some ini"
    and buf: "SendBuf_ok (send_buffer c)" "sb_pos (send_buffer c) = 0"
      "\<forall>x \<in> set (sb_data (send_buffer c)). map_of (offset_recv (send_buffer c)) (piece_off x) = Some True"
    and ok: "entries_ok es c"
  shows "\<exists>c'. process_ack fp be now b c = Inr c' \<and>
    sb_data (send_buffer c') = filter (\<lambda>x. piece_off x \<notin> released (sent_dic c) es) (sb_data (send_buffer c))"
proof -
  let ?h = "\<lparr>ty = ACK, pkt_num = of_nat n, priority = 0, hdr_offset = 0, pkt_length = of_nat l\<rparr> :: Header"
  have take: "from_slice be (take 26 b) = Inr ?h" using from_slice_header [of be ?h "[]"] by (simp add: b)
  have rd: "read_at 26 l b = ack_bytes be es" using len(1) by (simp add: b read_at_def)
  define keys where "keys = map int_key (case keyToValues c ini of None \<Rightarrow> [] | Some ks \<Rightarrow> ks)"
  define c1 where "c1 = (update_rtt now (c\<lparr>handshake := snd e\<rparr>))\<lparr>ack_set := remove1 ini (ack_set c),
      retransmission_ack := filter (\<lambda>e. fst e \<notin> set keys) (retransmission_ack c),
      valueToKeys := valueToKeys c |` (- set keys), timeout_ack := timeout_ack c |` (- set keys),
      keyToValues := (keyToValues c)(ini := None)\<rparr>"
  have c1: "send_buffer c1 = send_buffer c" "sent_dic c1 = sent_dic c" "norm2_vec c1 = norm2_vec c"
    by (simp_all add: c1_def)
  have "entries_ok es c1" using ok entries_ok_cong [OF c1(2,3)] by simp
  then obtain c2 ks where c2: "ack_loop fp be (ack_bytes be es) 0 1 c1 = Inr c2"
    "send_buffer c2 = fold ack_and_drop ks (send_buffer c1)" "set ks = released (sent_dic c1) es"
    using ack_loop_spec by blast
  have lens: "\<not> length b < 26" "\<not> length b < 26 + l" "\<not> l < 8"
    using ne len(1) by (cases es; simp add: b)+
  have pos: "sb_pos (send_buffer c2) = 0" using ack_all_fields [of ks "send_buffer c1"] c2(2) c1 buf(2) by simp
  have "process_ack fp be now b c = Inr (c2\<lparr>send_buffer := recv_and_drop (send_buffer c2)\<rparr>)"
    using c2(1) pos unfolding c1_def keys_def
    by (simp add: process_ack_def take lens known unat_of_nat_64 [OF n] unat_of_nat_64 [OF len(2)] rd Let_def)
  moreover have "sb_data (recv_and_drop (send_buffer c2)) =
      filter (\<lambda>x. piece_off x \<notin> released (sent_dic c) es) (sb_data (send_buffer c))"
    using acknowledged_data [OF buf, of ks] by (simp add: c2(2,3) c1)
  ultimately show ?thesis by simp
qed

section \<open>A loop that does not end\<close>

text \<open>
  The states in which the loop of \<open>send_mmsg\<close> turns without progress: the send buffer is full,
  the bytes written in this call do not reach the window, and the current buffer is not
  exhausted.
\<close>

definition stuck :: "nat \<Rightarrow> int \<Rightarrow> Connection \<Rightarrow> bool" where
  "stuck window written c \<longleftrightarrow>
     current_buffer_pos c < length (data_buffer c) \<and> 0 < written \<and> written < int window \<and> window < u64_range \<and>
     fst (cap (send_buffer c)) = 0 \<and>
     0 < sbf_left (data_buffer c ! current_buffer_pos c) \<and>
     sbf_left (data_buffer c ! current_buffer_pos c) \<le> sbf_len (data_buffer c ! current_buffer_pos c) \<and>
     sbf_len (data_buffer c ! current_buffer_pos c) < u64_range"

lemma full_write:
  assumes "fst (cap s) = 0"
  shows "\<exists>s'. SendBuf_write src off n window off_len s = (0, n, s') \<and> fst (cap s') = 0"
  using assms by (simp add: SendBuf_write_def cap_def SendBuf_len_def Let_def)

lemma not_all_sent: "0 < sbf_left b \<Longrightarrow> sbf_left b \<le> sbf_len b \<Longrightarrow> sbf_len b < u64_range \<Longrightarrow> sbuffer_sent b \<noteq> sbf_len b"
  by (simp add: sbuffer_sent_def u64_sub_exact)

lemma stuck_step:
  assumes "stuck window written c"
  shows "\<exists>sb. nwrite (data_buffer c ! current_buffer_pos c) window (send_buffer c) =
      (0, data_buffer c ! current_buffer_pos c, sb) \<and>
    stuck window written (c\<lparr>send_buffer := sb, data_buffer := (data_buffer c)[current_buffer_pos c := data_buffer c ! current_buffer_pos c]\<rparr>)"
proof -
  let ?b = "data_buffer c ! current_buffer_pos c"
  let ?off = "if sb_data (send_buffer c) = [] then 1350 - sbuffer_sent ?b mod 1350 else 0"
  have "fst (cap (send_buffer c)) = 0" using assms by (simp add: stuck_def)
  from full_write [OF this, of "sbf_src ?b" "sbuffer_sent ?b" "sbf_left ?b" window ?off] obtain sb where
    "SendBuf_write (sbf_src ?b) (sbuffer_sent ?b) (sbf_left ?b) window ?off (send_buffer c) = (0, sbf_left ?b, sb)"
    "fst (cap sb) = 0" by blast
  then show ?thesis using assms by (intro exI [of _ sb]) (simp add: nwrite_def stuck_def)
qed

lemma fill_loop_stuck: "fill_loop window written c = Some r \<Longrightarrow> \<not> stuck window written c"
proof (rule fill_loop.raw_induct [where P = "\<lambda>window written c r. \<not> stuck window written c"], goal_cases)
  case (1 rec window written c r)
  show ?case
  proof
    assume st: "stuck window written c"
    let ?i = "current_buffer_pos c" and ?b = "data_buffer c ! current_buffer_pos c"
    obtain sb where w: "nwrite ?b window (send_buffer c) = (0, ?b, sb)"
      and st': "stuck window written (c\<lparr>send_buffer := sb, data_buffer := (data_buffer c)[?i := ?b]\<rparr>)"
      using stuck_step [OF st] by blast
    have "?i < length (data_buffer c)" "written \<noteq> 0" "0 < sbf_left ?b" "sbuffer_sent ?b \<noteq> sbf_len ?b"
      "\<not> window \<le> nat (written mod int u64_range)"
      using st not_all_sent by (auto simp: stuck_def)
    with 1(3) w have "rec window written (c\<lparr>send_buffer := sb, data_buffer := (data_buffer c)[?i := ?b]\<rparr>) = Some r"
      by (simp add: Let_def)
    with 1(2) st' show False by blast
  qed
qed assumption

section \<open>Properties\<close>

text \<open>
  The handshake. The server's first packet is a handshake packet; the client that receives
  it answers with one; and when the answer arrives the server has measured the time since its
  packet as the round trip time, and both sides are ready to exchange data.
\<close>

theorem handshake_completes:
  assumes "26 \<le> length out"
  shows "\<exists>b1 s1. send_data be t1 out (Connection_new t0 True) = Inr (26, b1, s1) \<and>
    (\<exists>c1. recv_slice fp be t2 b1 (Connection_new t0' False) = Inr (0, c1) \<and> send_ack c1 \<and>
      (\<exists>b2 c2. send_data be t3 out c1 = Inr (26, b2, c2) \<and> initial c2 \<and> handshake_confirmed c2 \<and>
        (\<exists>s2. recv_slice fp be t4 b2 s1 = Inr (0, s2) \<and> rtt s2 = t4 - t1 \<and> initial s2 \<and> handshake_completed s2)))"
proof -
  let ?h = "\<lparr>ty = Handshake, pkt_num = 0, priority = 0, hdr_offset = 0, pkt_length = 0\<rparr>"
  let ?b = "header_bytes be ?h @ drop 26 out"
  let ?s = "(Connection_new t0 True)\<lparr>handshake_completed := True, handshake := t1\<rparr>"
  let ?c = "(Connection_new t0' False)\<lparr>c_recv_count := u64_add 0 1, handshake_confirmed := False, feed_back := True\<rparr>"
  have 1: "send_data be t1 out (Connection_new t0 True) = Inr (26, ?b, ?s)"
    using assms by (simp add: send_data_def write_pkt_type_def Connection_new_def to_bytes_eq set_handshake_def HEADER_LENGTH_def)
  have 2: "recv_slice fp be t2 ?b (Connection_new t0' False) = Inr (0, ?c)"
    by (simp add: recv_handshake Connection_new_def)
  have 3: "\<exists>c2. send_data be t3 out ?c = Inr (26, ?b, c2) \<and> initial c2 \<and> handshake_confirmed c2"
    using assms by (simp add: send_data_def write_pkt_type_def Connection_new_def to_bytes_eq HEADER_LENGTH_def)
  have 4: "\<exists>s2. recv_slice fp be t4 ?b ?s = Inr (0, s2) \<and> rtt s2 = t4 - t1 \<and> initial s2 \<and> handshake_completed s2"
    by (simp add: recv_handshake Connection_new_def update_rtt_def)
  have "send_ack ?c" by (simp add: send_ack_def)
  with 1 2 3 4 show ?thesis by blast
qed

theorem handshake_completes_witness:
  "\<exists>b1 s1. send_data False 5 (replicate 30 0) (Connection_new 0 True) = Inr (26, b1, s1)"
  using handshake_completes [of "replicate 30 0" False 5 0 undefined 7 1 8 11] by auto

text \<open>
  The receiver's report is right: from the list of offsets in an \<open>ElicitAck\<close> packet it
  records, for every offset it had no record of yet, zero when the payload of the offset was
  received and one when it was not; and it will answer with the number of that packet.
\<close>

theorem loss_report_correct:
  assumes "\<forall>x \<in> set offs. x < u64_range" and "n < u64_range"
  shows "\<exists>c'. recv_slice fp be now (header_bytes be \<lparr>ty = ElicitAck, pkt_num = of_nat n, priority = 0, hdr_offset = 0,
      pkt_length = l\<rparr> @ native_u64s be offs) c = Inr (0, c') \<and>
    map_of (recv_hashmap c') = loss_report offs (recv_dic c) ++ map_of (recv_hashmap c) \<and>
    send_num c' = n \<and> recv_flag c' \<and> feed_back c' \<and> send_buffer c' = send_buffer c \<and> rec_buffer c' = rec_buffer c"
proof -
  let ?h = "\<lparr>ty = ElicitAck, pkt_num = of_nat n, priority = 0, hdr_offset = 0, pkt_length = l\<rparr>"
  let ?b = "header_bytes be ?h @ native_u64s be offs"
  let ?c = "c\<lparr>c_recv_count := u64_add (c_recv_count c) 1, recv_flag := True, send_num := n\<rparr>"
  obtain m where m: "check_loss be (native_u64s be offs) ?c = Inr (?c\<lparr>recv_hashmap := m\<rparr>)"
    "map_of m = loss_report offs (recv_dic ?c) ++ map_of (recv_hashmap ?c)"
    using check_loss_spec [OF assms(1), of be ?c] by blast
  have r: "read_at 1 8 ?b = u64_bytes be (of_nat n)" by (simp add: read_at_def header_bytes_def)
  have "recv_slice fp be now ?b c = Inr (0, ?c\<lparr>recv_hashmap := m, feed_back := True\<rparr>)"
    using m(1) r by (simp add: recv_slice_def Let_def from_bytes_eq_from_slice from_slice_header convert_front
        unat_of_nat_64 [OF assms(2)])
  then show ?thesis using m(2) by simp
qed

theorem loss_report_correct_witness:
  "\<exists>c'. recv_slice undefined False 9 (header_bytes False \<lparr>ty = ElicitAck, pkt_num = of_nat 4, priority = 0, hdr_offset = 0,
      pkt_length = 16\<rparr> @ native_u64s False [0, 1350]) ((Connection_new 0 False)\<lparr>recv_dic := [(0, 3)]\<rparr>) = Inr (0, c') \<and>
    map_of (recv_hashmap c') 0 = Some 0 \<and> map_of (recv_hashmap c') 1350 = Some 1"
  using loss_report_correct [of "[0, 1350]" 4 undefined False 9 16 "(Connection_new 0 False)\<lparr>recv_dic := [(0, 3)]\<rparr>"]
  by (auto simp: loss_report_def Connection_new_def)


definition demo_receiver :: Connection where
  "demo_receiver = (Connection_new 0 False)\<lparr>recv_flag := True, handshake_confirmed := True, send_num := 4,
     recv_hashmap := [(0, 0), (1350, 1)]\<rparr>"

definition demo_sender :: Connection where
  "demo_sender = (Connection_new 0 True)\<lparr>send_buffer := demo_buf, ack_set := [4], retransmission_ack := [(4, [], 7)],
     valueToKeys := [4 \<mapsto> 4], keyToValues := [4 \<mapsto> [4]], sent_dic := [0 \<mapsto> 3, 1350 \<mapsto> 3], norm2_vec := [3, 3]\<rparr>"


text \<open>
  C34: The sender hangs after a partial acknowledgement. When the send buffer still holds some,
  but less than a window of data, and more new data is waiting than fits beside it, the loop of
  \<open>send_mmsg\<close> never ends: the first turn fills the buffer, every later one writes nothing, and
  the bytes written never reach the window that would stop it.
\<close>

theorem send_mmsg_hangs:
  assumes "current_buffer_pos c < length (data_buffer c)" and "b = data_buffer c ! current_buffer_pos c"
    and "sbf_left b \<le> sbf_len b" and "sbf_len b < u64_range"
    and "SendBuf_ok (send_buffer c)" and "sb_data (send_buffer c) \<noteq> []"
    and "0 < total_len (sb_data (send_buffer c))" and "total_len (sb_data (send_buffer c)) < max_data (send_buffer c)"
    and "record_win c = max_data (send_buffer c)" and "max_data (send_buffer c) < u64_range"
    and "max_data (send_buffer c) - total_len (sb_data (send_buffer c)) < sbf_left b"
    and "sb_off (send_buffer c) + sbf_left b < u64_range"
  shows "send_mmsg fp pkt_size iovecs messages c = None"
proof -
  let ?s = "send_buffer c" and ?w = "record_win c"
  define n where "n = ?w - total_len (sb_data ?s)"
  have cap: "fst (cap ?s) = n"
    using assms(8-10) SendBuf_len_total [of ?s] by (simp add: cap_def Let_def n_def u64_sub_exact)
  have win: "total_len (sb_data ?s) < ?w" "?w < u64_range" "0 < n" using assms(8-10) by (simp_all add: n_def)
  then have L: "SendBuf_len ?s = total_len (sb_data ?s)" using SendBuf_len_total [of ?s] by simp
  have min: "min (sbf_left b) (fst (cap ?s)) = n" using assms(9,11) cap by (simp add: n_def)
  obtain left s' where w: "SendBuf_write (sbf_src b) (sbuffer_sent b) (sbf_left b) ?w 0 ?s = (int n, left, s')"
    using write_nonempty [OF assms(6) _ _ _ _ assms(12), of ?w 0 "sbf_src b" "sbuffer_sent b"] cap win L min assms(11) by auto
  have "0 < int n" using win by simp
  from write_spec [OF assms(5) _ assms(12) w this] obtain ps where
    ps: "sb_data s' = sb_data ?s @ ps" "total_len ps = n" "left = sbf_left b - n" "max_data s' = max_data ?s"
    using assms(6) by auto
  let ?b = "b\<lparr>sbf_left := left\<rparr>"
  let ?c = "c\<lparr>send_buffer := s', data_buffer := (data_buffer c)[current_buffer_pos c := ?b]\<rparr>"
  have nw: "nwrite b ?w ?s = (int n, ?b, s')" using w assms(6) by (simp add: nwrite_def)
  have "total_len (sb_data s') = ?w" using ps win by (simp add: n_def)
  then have "fst (cap s') = 0" using SendBuf_len_total [of s'] ps(4) assms(9) win by (simp add: cap_def Let_def)
  moreover have left: "0 < left" "left \<le> sbf_len b" using ps(3) assms(3,9,11) by (simp_all add: n_def)
  ultimately have st: "stuck ?w (int n) ?c" using assms(1,4,7) win by (simp add: stuck_def n_def)
  have "fill_loop ?w 0 c = fill_loop ?w (int n) ?c"
    using assms(1) nw left not_all_sent [of ?b] assms(4,7) win
    by (subst fill_loop.simps) (auto simp: assms(2) [symmetric] Let_def n_def)
  moreover have "fill_loop ?w (int n) ?c = None" using fill_loop_stuck st by (cases "fill_loop ?w (int n) ?c") auto
  ultimately show ?thesis using assms(1,6) by (simp add: send_mmsg_def choose_window_def)
qed

definition demo_hang :: Connection where
  "demo_hang = (Connection_new 0 True)\<lparr>send_buffer := demo_buf, data_buffer := [sbuffer_new 0 20000], record_win := 10800\<rparr>"

theorem send_mmsg_hangs_witness: "send_mmsg undefined 1 [] [] demo_hang = None"
proof -
  have "SendBuf_ok (send_buffer demo_hang)" using demo_buf_ok by (simp add: demo_hang_def)
  from send_mmsg_hangs [OF _ refl _ _ this, of undefined 1 "[]" "[]"] show ?thesis
    by (simp add: demo_hang_def Connection_new_def sbuffer_new_def demo_buf_def push_piece_def SendBuf_new_def u64_add_def
        MIN_SENDBUF_INITIAL_LEN_def)
qed

text \<open>
  The request for acknowledgements lists the oldest offsets not yet asked about, at most
  160 of them, behind its header, and remembers them; but building it writes 26 bytes past the
  end of the packet, because the length of the whole packet is copied behind the header.
\<close>

theorem elicit_ack_overruns:
  assumes "ack_point c < length (record_send c)" and "length (record_send c) < u64_range"
    and "n = min 160 (length (record_send c) - ack_point c)"
  shows "\<exists>pn c'. send_elicit_ack fp be now out c =
    Inr (int (26 + 8 * n),
         header_bytes be \<lparr>ty = ElicitAck, pkt_num = of_nat pn, priority = 0, hdr_offset = 0, pkt_length = of_nat (n * 8)\<rparr> @
           native_u64s be (take n (drop (ack_point c) (record_send c))),
         26, c') \<and>
    ack_point c' = ack_point c + n \<and> pn \<in> set (ack_set c') \<and>
    map_of (retransmission_ack c') pn = Some (native_u64s be (take n (drop (ack_point c) (record_send c))), now)"
proof -
  obtain pn sp where u: "updatepktnum (pkt_space_ack c) = (pn, sp)" by fastforce
  let ?offs = "take n (drop (ack_point c) (record_send c))"
  let ?h = "\<lparr>ty = ElicitAck, pkt_num = of_nat pn, priority = 0, hdr_offset = 0, pkt_length = of_nat (n * 8)\<rparr> :: Header"
  have n: "length ?offs = n" using assms(3) by simp
  have e: "send_elicit_ack fp be now out c = elicit_new be now n out c"
    using assms by (auto simp: send_elicit_ack_def Let_def min_def u64_sub_exact)
  have res: "length (resize (n * 8 + 26) 0 out) = n * 8 + 26" by (simp add: resize_def)
  have lo: "length (native_u64s be ?offs) = n * 8" unfolding native_u64s_length n by simp
  have w: "write_at 26 (native_u64s be ?offs) (header_bytes be ?h @ drop 26 (resize (n * 8 + 26) 0 out)) =
      header_bytes be ?h @ native_u64s be ?offs"
    by (simp add: write_at_def lo res)
  show ?thesis
    unfolding e elicit_new_def
    by (rule exI [of _ pn]) (simp add: u Let_def to_bytes_eq res w lo overrun_def update_conv' del: of_nat_mult)
qed

theorem elicit_ack_overruns_witness:
  "\<exists>b c'. send_elicit_ack undefined False 0 [] ((Connection_new 0 True)\<lparr>record_send := [0, 1350]\<rparr>) = Inr (42, b, 26, c')"
proof -
  let ?c = "(Connection_new 0 True)\<lparr>record_send := [0, 1350]\<rparr>"
  have "ack_point ?c < length (record_send ?c)" "length (record_send ?c) < u64_range"
    "2 = min 160 (length (record_send ?c) - ack_point ?c)" by (simp_all add: Connection_new_def)
  from elicit_ack_overruns [OF this, of undefined False 0 "[]"] show ?thesis by auto
qed

text \<open>
  The table of priorities is sized by the number of buffers instead of their bytes, so that
  for up to 1350 buffers every packet at a stream offset of 1024 or more looks up its priority
  outside the table.
\<close>

theorem priority_table_too_short:
  assumes "data_buffer c = []" and "iovecs \<noteq> []" and "length iovecs \<le> 1350" and "get_data iovecs c = (r, c')"
  shows "r \<and> norm2_vec c' = [3] \<and>
    priority_calculation off c' = (if off < 1024 then Inr 3 else Inl UndefinedBehavior)"
proof -
  have "(if length iovecs mod 1350 = 0 then length iovecs div 1350 else length iovecs div 1350 + 1) = 1"
    using assms(2,3) by (cases "length iovecs = 1350") auto
  then have "norm2_vec c' = [3]" "r" using assms by (auto simp: get_data_def Let_def)
  then show ?thesis by (auto simp: priority_calculation_def Let_def)
qed

theorem priority_table_too_short_witness:
  "priority_calculation 1350 (snd (get_data [(0, 4000)] (Connection_new 0 True))) = Inl UndefinedBehavior"
  using priority_table_too_short [of "Connection_new 0 True" "[(0, 4000)]" _ _ 1350]
  by (cases "get_data [(0, 4000)] (Connection_new 0 True)") (auto simp: Connection_new_def)

end
