(* ===== verification/Gloo_Collective.thy ===== *)
theory Gloo_Collective
  imports Gloo_Math Gloo_Types
begin

text \<open>
  The collectives of \<open>gloo/*.cc\<close> as programs: what a rank asks of its unbound buffers and
  computes locally, in the order in which the code does it. A rank's program depends on its
  rank, the number of ranks and the options only, so that the programs of different ranks can
  be compared: every message one rank sends must be expected by its receiver, in the same
  order and with the same length.
\<close>

section \<open>Commands\<close>

datatype bufid = In nat | Out nat | Tmp

text \<open>
  \<open>Send b dst slot offset nbytes\<close>, \<open>Recv b src slot offset nbytes\<close>, the waits for one send or
  receive of a buffer, \<open>Memcpy dst doff src soff nbytes\<close>, and \<open>Reduce dst doff a aoff b boff n\<close> for
  the reduction function on \<open>n\<close> elements.
\<close>

datatype cmd =
    Send bufid nat "64 word" nat nat
  | Recv bufid nat "64 word" nat nat
  | WaitSend bufid
  | WaitRecv bufid
  | Memcpy bufid nat bufid nat nat
  | Reduce bufid nat bufid nat bufid nat nat

type_synonym program = "cmd list"

record ctx =
  ctx_rank :: nat
  ctx_size :: nat

section \<open>Messages\<close>

fun sent_to :: "nat \<Rightarrow> cmd \<Rightarrow> (64 word \<times> nat) list" where
  "sent_to j (Send b dst s off n) = (if dst = j then [(s, n)] else [])"
| "sent_to j _ = []"

fun expected_from :: "nat \<Rightarrow> cmd \<Rightarrow> (64 word \<times> nat) list" where
  "expected_from i (Recv b src s off n) = (if src = i then [(s, n)] else [])"
| "expected_from i _ = []"

text \<open>The slots and lengths of the messages to and from a rank, in program order.\<close>

definition sends :: "nat \<Rightarrow> program \<Rightarrow> (64 word \<times> nat) list" where
  "sends j p = concat (map (sent_to j) p)"

definition recvs :: "nat \<Rightarrow> program \<Rightarrow> (64 word \<times> nat) list" where
  "recvs i p = concat (map (expected_from i) p)"

text \<open>
  The programs of all ranks fit together: what \<open>i\<close> sends to \<open>j\<close> is what \<open>j\<close> expects from \<open>i\<close>.
\<close>

definition well_matched :: "nat \<Rightarrow> (nat \<Rightarrow> program) \<Rightarrow> bool" where
  "well_matched n P \<longleftrightarrow> (\<forall>i < n. \<forall>j < n. sends j (P i) = recvs i (P j))"

text \<open>Every operation on a buffer is waited for: as many waits as sends and receives.\<close>

fun outstanding :: "bufid \<Rightarrow> cmd \<Rightarrow> int \<times> int" where
  "outstanding b (Send b' dst s off n) = (if b' = b then 1 else 0, 0)"
| "outstanding b (Recv b' src s off n) = (0, if b' = b then 1 else 0)"
| "outstanding b (WaitSend b') = (if b' = b then -1 else 0, 0)"
| "outstanding b (WaitRecv b') = (0, if b' = b then -1 else 0)"
| "outstanding b _ = (0, 0)"

definition pending :: "bufid \<Rightarrow> program \<Rightarrow> int \<times> int" where
  "pending b p = (sum_list (map (fst \<circ> outstanding b) p), sum_list (map (snd \<circ> outstanding b) p))"

lemma sends_simps [simp]:
  "sends j [] = []" "sends j (c # p) = sent_to j c @ sends j p" "sends j (p @ q) = sends j p @ sends j q"
  by (simp_all add: sends_def)

lemma recvs_simps [simp]:
  "recvs j [] = []" "recvs j (c # p) = expected_from j c @ recvs j p" "recvs j (p @ q) = recvs j p @ recvs j q"
  by (simp_all add: recvs_def)

lemma pending_simps [simp]:
  "pending b [] = (0, 0)"
  "pending b (c # p) = (fst (outstanding b c) + fst (pending b p), snd (outstanding b c) + snd (pending b p))"
  "pending b (p @ q) = (fst (pending b p) + fst (pending b q), snd (pending b p) + snd (pending b q))"
  by (simp_all add: pending_def)

lemma sends_concat: "sends j (concat ps) = concat (map (sends j) ps)"
  by (induction ps) simp_all

lemma recvs_concat: "recvs j (concat ps) = concat (map (recvs j) ps)"
  by (induction ps) simp_all

lemma matched_concat:
  assumes "\<And>x. x \<in> set xs \<Longrightarrow> sends j (f x) = recvs i (g x)"
  shows "sends j (concat (map f xs)) = recvs i (concat (map g xs))"
  using assms by (induction xs) simp_all

lemma pending_concat:
  assumes "\<And>x. x \<in> set xs \<Longrightarrow> pending b (f x) = (0, 0)"
  shows "pending b (concat (map f xs)) = (0, 0)"
  using assms by (induction xs) simp_all

lemma silent [simp]:
  "sends j (replicate n (WaitSend b)) = []" "sends j (replicate n (WaitRecv b)) = []"
  "recvs j (replicate n (WaitSend b)) = []" "recvs j (replicate n (WaitRecv b)) = []"
  by (induction n) simp_all

lemma pending_waits [simp]:
  "pending b (replicate n (WaitSend b')) = (if b' = b then - int n else 0, 0)"
  "pending b (replicate n (WaitRecv b')) = (0, if b' = b then - int n else 0)"
  by (induction n) simp_all

section \<open>Positions on the ring\<close>

lemma ring_shift:
  fixes n :: nat
  assumes "i < n" "j < n" "d < n"
  shows "(n + i + d) mod n = j \<longleftrightarrow> (n + j - d) mod n = i"
proof -
  have "(n + i + d) mod n = (i + d) mod n" by (simp add: add.assoc)
  also have "\<dots> = (if i + d < n then i + d else i + d - n)"
    using assms by (auto simp: mod_if [of "i + d"])
  finally have 1: "(n + i + d) mod n = (if i + d < n then i + d else i + d - n)" .
  have 2: "(n + j - d) mod n = (if d \<le> j then j - d else n + j - d)"
    using assms by (auto simp: mod_if)
  show ?thesis unfolding 1 2 using assms by auto
qed

lemma ring_shift': "i < (n :: nat) \<Longrightarrow> j < n \<Longrightarrow> d < n \<Longrightarrow> (i + d) mod n = j \<longleftrightarrow> (j + n - d) mod n = i"
  using ring_shift [of i n j d] by (simp add: add.assoc add.commute [of j n])

section \<open>Data of single-phase collectives\<close>

text \<open>
  In a collective whose buffers are either only sent from or only received into, a message
  carries the region of the sender's buffer as it was at the start. The payloads from one rank
  to another follow in the order of the sends, and each receive takes the next one, as the
  transport guarantees.
\<close>

type_synonym 'a mem = "bufid \<Rightarrow> 'a list"

fun payload_to :: "nat \<Rightarrow> 'a mem \<Rightarrow> cmd \<Rightarrow> 'a list list" where
  "payload_to j m (Send b dst s off n) = (if dst = j then [read_at off n (m b)] else [])"
| "payload_to j m _ = []"

definition payloads :: "nat \<Rightarrow> 'a mem \<Rightarrow> program \<Rightarrow> 'a list list" where
  "payloads j m p = concat (map (payload_to j m) p)"

text \<open>What a rank writes into a buffer, in order, given the payloads that arrive from each rank.\<close>

fun writes :: "bufid \<Rightarrow> (nat \<Rightarrow> 'a list list) \<Rightarrow> 'a mem \<Rightarrow> program \<Rightarrow> (nat \<times> 'a list) list" where
  "writes b q m [] = []"
| "writes b q m (Recv b' src s off n # p) =
     (if b' = b then [(off, case q src of [] \<Rightarrow> [] | d # _ \<Rightarrow> d)] else []) @ writes b (q(src := tl (q src))) m p"
| "writes b q m (Memcpy b' doff b'' soff n # p) =
     (if b' = b then [(doff, read_at soff n (m b''))] else []) @ writes b q m p"
| "writes b q m (_ # p) = writes b q m p"

definition apply_writes :: "(nat \<times> 'a list) list \<Rightarrow> 'a list \<Rightarrow> 'a list" where
  "apply_writes ws mem = fold (\<lambda>w. write_at (fst w) (snd w)) ws mem"

text \<open>The contents of the buffer \<open>b\<close> of rank \<open>j\<close> when all programs \<open>P\<close> are done.\<close>

definition outcome :: "(nat \<Rightarrow> program) \<Rightarrow> (nat \<Rightarrow> 'a mem) \<Rightarrow> nat \<Rightarrow> bufid \<Rightarrow> 'a list" where
  "outcome P M j b = apply_writes (writes b (\<lambda>i. payloads j (M i) (P i)) (M j) (P j)) (M j b)"

lemma payloads_simps [simp]:
  "payloads j m [] = []" "payloads j m (c # p) = payload_to j m c @ payloads j m p"
  "payloads j m (p @ q) = payloads j m p @ payloads j m q"
  by (simp_all add: payloads_def)

lemma payloads_waits [simp]:
  "payloads j m (replicate n (WaitSend b)) = []" "payloads j m (replicate n (WaitRecv b)) = []"
  by (induction n) simp_all

lemma writes_waits [simp]:
  "writes b q m (replicate n (WaitSend b')) = []" "writes b q m (replicate n (WaitRecv b')) = []"
  by (induction n) simp_all

text \<open>Writes that agree with a target and cover it produce the target.\<close>

lemma apply_writes_target:
  assumes len: "length mem = length T"
    and agree: "\<forall>(off, d) \<in> set ws. off + length d \<le> length T \<and> d = read_at off (length d) T"
    and cover: "\<forall>i < length T. mem ! i = T ! i \<or> (\<exists>(off, d) \<in> set ws. off \<le> i \<and> i < off + length d)"
  shows "apply_writes ws mem = T"
  using assms
proof (induction ws arbitrary: mem)
  case Nil
  then show ?case by (simp add: apply_writes_def list_eq_iff_nth_eq)
next
  case (Cons w ws)
  obtain off d where w: "w = (off, d)" by (cases w)
  have d: "off + length d \<le> length T" "d = read_at off (length d) T" using Cons.prems(2) by (auto simp: w)
  let ?mem = "write_at off d mem"
  have nth: "?mem ! i = (if off \<le> i \<and> i < off + length d then T ! i else mem ! i)" if "i < length T" for i
  proof -
    have "d ! (i - off) = T ! i" if "off \<le> i" "i < off + length d"
      using that d nth_read_at [of "i - off" "length d" off T] by (metis le_add_diff_inverse nat_add_left_cancel_less)
    then show ?thesis using that d(1) Cons.prems(1) by (simp add: nth_write_at)
  qed
  have "apply_writes ws ?mem = T"
  proof (rule Cons.IH)
    show "length ?mem = length T" using d(1) Cons.prems(1) by (simp add: length_write_at)
    show "\<forall>i < length T. ?mem ! i = T ! i \<or> (\<exists>(off, d) \<in> set ws. off \<le> i \<and> i < off + length d)"
      using Cons.prems(3) nth by (auto simp: w)
  qed (use Cons.prems(2) in simp)
  then show ?case by (simp add: apply_writes_def w)
qed

text \<open>Blocks of one size: the block of an index, and blocks as regions of their concatenation.\<close>

lemma read_block:
  assumes "\<forall>x \<in> set xs. length x = k" "i < length xs"
  shows "read_at (i * k) k (concat xs) = xs ! i"
  using assms
proof (induction xs arbitrary: i)
  case (Cons x xs)
  then show ?case by (cases i) (auto simp: read_at_def)
qed simp

lemma length_blocks: "\<forall>x \<in> set xs. length x = k \<Longrightarrow> length (concat xs) = length xs * k"
  by (induction xs) auto

lemma block_cover:
  fixes n :: nat
  assumes "idx < n * k"
  shows "idx div k < n" "idx div k * k \<le> idx" "idx < idx div k * k + k"
proof -
  have k: "0 < k" using assms by (cases k) auto
  show "idx div k < n" using assms by (simp add: less_mult_imp_div_less)
  show "idx div k * k \<le> idx" by simp
  show "idx < idx div k * k + k" using k by (metis div_mult_mod_eq mod_less_divisor nat_add_left_cancel_less)
qed

end
