(* ===== verification/Gloo_Barrier.thy ===== *)
theory Gloo_Barrier
  imports Gloo_Collective
begin

text \<open>
  \<open>gloo/barrier.cc\<close>: the dissemination barrier. In the round of distance \<open>d\<close> every rank tells the
  rank \<open>d\<close> further on, and waits for the rank \<open>d\<close> behind, that all rounds so far are done.
\<close>

section \<open>The program\<close>

definition barrier_round :: "64 word \<Rightarrow> ctx \<Rightarrow> nat \<Rightarrow> program" where
  "barrier_round slot c d =
     [Recv (In 0) ((ctx_size c + ctx_rank c - d) mod ctx_size c) slot 0 0,
      Send (In 0) ((ctx_size c + ctx_rank c + d) mod ctx_size c) slot 0 0,
      WaitRecv (In 0), WaitSend (In 0)]"

text \<open>The loop starts from 1 and doubles \<open>d\<close>; the first conjunct holds in every iteration.\<close>

function barrier_loop :: "64 word \<Rightarrow> ctx \<Rightarrow> nat \<Rightarrow> program" where
  "barrier_loop slot c d =
     (if 0 < d \<and> d < ctx_size c then barrier_round slot c d @ barrier_loop slot c (push_bit 1 d) else [])"
  by auto
termination by (relation "measure (\<lambda>(s, c, d). ctx_size c - d)") (auto simp: push_bit_eq_mult)

declare barrier_loop.simps [simp del]

definition barrier :: "32 word \<Rightarrow> ctx \<Rightarrow> program" where
  "barrier tag c = barrier_loop (Slot_value (Slot_build kBarrierSlotPrefix tag)) c 1"

section \<open>Its rounds\<close>

lemma barrier_loop_rounds:
  assumes "n = ctx_size c" "k \<le> m" "n \<le> 2 ^ m" "\<forall>i < m. 2 ^ i < n"
  shows "barrier_loop slot c (2 ^ k) = concat (map (barrier_round slot c) (map (\<lambda>i. 2 ^ i) [k..<m]))"
  using assms
proof (induction "m - k" arbitrary: k)
  case 0
  then show ?case by (simp add: barrier_loop.simps)
next
  case (Suc l)
  then have k: "k < m" by simp
  with Suc.prems have "2 ^ k < ctx_size c" by auto
  moreover have "push_bit 1 (2 ^ k :: nat) = 2 ^ Suc k" by (simp add: push_bit_eq_mult)
  moreover have "barrier_loop slot c (2 ^ Suc k) = concat (map (barrier_round slot c) (map (\<lambda>i. 2 ^ i) [Suc k..<m]))"
    using Suc k by (intro Suc.hyps(1)) auto
  moreover have "[k..<m] = k # [Suc k..<m]" using k by (simp add: upt_conv_Cons)
  ultimately show ?case by (simp add: barrier_loop.simps [of slot c "2 ^ k"] mult.commute)
qed

text \<open>The number of rounds: the least power of two that reaches the number of ranks.\<close>

lemma rounds_exist: "\<exists>m. (n :: nat) \<le> 2 ^ m \<and> (\<forall>i < m. 2 ^ i < n)"
proof -
  let ?m = "LEAST m. n \<le> 2 ^ m"
  have "n \<le> 2 ^ ?m" by (rule LeastI [of _ n]) (simp add: less_imp_le)
  moreover have "2 ^ i < n" if "i < ?m" for i using not_less_Least [OF that] by simp
  ultimately show ?thesis by blast
qed

lemma barrier_rounds:
  "\<exists>m. n \<le> 2 ^ m \<and> (\<forall>i < m. 2 ^ i < n) \<and>
    (\<forall>tag r. barrier tag \<lparr>ctx_rank = r, ctx_size = n\<rparr> =
      concat (map (barrier_round (Slot_value (Slot_build kBarrierSlotPrefix tag)) \<lparr>ctx_rank = r, ctx_size = n\<rparr>)
        (map (\<lambda>i. 2 ^ i) [0..<m])))"
proof -
  obtain m where m: "n \<le> 2 ^ m" "\<forall>i < m. 2 ^ i < n" using rounds_exist by blast
  have "barrier tag \<lparr>ctx_rank = r, ctx_size = n\<rparr> =
      concat (map (barrier_round (Slot_value (Slot_build kBarrierSlotPrefix tag)) \<lparr>ctx_rank = r, ctx_size = n\<rparr>)
        (map (\<lambda>i. 2 ^ i) [0..<m]))" for tag r
    using barrier_loop_rounds [of n "\<lparr>ctx_rank = r, ctx_size = n\<rparr>" 0 m] m by (simp add: barrier_def)
  with m show ?thesis by blast
qed

section \<open>Knowledge\<close>

text \<open>
  The ranks whose arrival at the barrier a rank knows of after some rounds, the latest round
  first: what it knew before, and what the ranks knew that sent it a message in this round,
  after all their earlier rounds.
\<close>

fun know :: "nat \<Rightarrow> (nat \<Rightarrow> nat \<Rightarrow> program) \<Rightarrow> nat list \<Rightarrow> nat \<Rightarrow> nat set" where
  "know n R [] r = {r}"
| "know n R (d # ds) r = know n R ds r \<union> (\<Union>s \<in> {s. s < n \<and> sends r (R s d) \<noteq> []}. know n R ds s)"

lemma barrier_know:
  assumes "\<forall>i < k. 2 ^ i < n" "x < n" "m < 2 ^ k" "r = (x + m) mod n"
    and R: "\<And>s d. R s d = barrier_round slot \<lparr>ctx_rank = s, ctx_size = n\<rparr> d"
  shows "x \<in> know n R (rev (map (\<lambda>i. 2 ^ i) [0..<k])) r"
  using assms(1-4)
proof (induction k arbitrary: m r)
  case (Suc k)
  show ?case
  proof (cases "m < 2 ^ k")
    case True
    with Suc show ?thesis by simp
  next
    case False
    let ?s = "(x + (m - 2 ^ k)) mod n"
    have IH: "x \<in> know n R (rev (map (\<lambda>i. 2 ^ i) [0..<k])) ?s"
      using Suc.prems False by (intro Suc.IH [of "m - 2 ^ k"]) auto
    have "(n + ?s + 2 ^ k) mod n = r"
      using Suc.prems(4) False by (simp add: mod_simps add.assoc)
    moreover have "?s < n" using Suc.prems(2) by simp
    ultimately have "?s \<in> {s. s < n \<and> sends r (R s (2 ^ k)) \<noteq> []}"
      by (simp add: R barrier_round_def)
    with IH show ?thesis by auto
  qed
qed simp

section \<open>Properties\<close>

text \<open>
  The messages of the barrier match: every rank expects exactly the messages the others
  send it, in order, and waits for all its sends and receives.
\<close>

theorem barrier_well_matched:
  "well_matched n (\<lambda>r. barrier tag \<lparr>ctx_rank = r, ctx_size = n\<rparr>) \<and>
   pending b (barrier tag \<lparr>ctx_rank = r, ctx_size = n\<rparr>) = (0, 0)"
proof -
  obtain m where m: "\<forall>i < m. 2 ^ i < n" and prog: "\<And>r. barrier tag \<lparr>ctx_rank = r, ctx_size = n\<rparr> =
      concat (map (barrier_round (Slot_value (Slot_build kBarrierSlotPrefix tag)) \<lparr>ctx_rank = r, ctx_size = n\<rparr>) (map (\<lambda>i. 2 ^ i) [0..<m]))"
    using barrier_rounds [of n] by blast
  have "sends j (barrier tag \<lparr>ctx_rank = i, ctx_size = n\<rparr>) = recvs i (barrier tag \<lparr>ctx_rank = j, ctx_size = n\<rparr>)"
    if "i < n" "j < n" for i j
    unfolding prog
  proof (rule matched_concat)
    fix d :: nat assume "d \<in> set (map (\<lambda>i. 2 ^ i) [0..<m])"
    then have "d < n" using m by auto
    with that show "sends j (barrier_round (Slot_value (Slot_build kBarrierSlotPrefix tag)) \<lparr>ctx_rank = i, ctx_size = n\<rparr> d) =
        recvs i (barrier_round (Slot_value (Slot_build kBarrierSlotPrefix tag)) \<lparr>ctx_rank = j, ctx_size = n\<rparr> d)"
      by (simp add: barrier_round_def ring_shift)
  qed
  moreover have "pending b (barrier tag \<lparr>ctx_rank = r, ctx_size = n\<rparr>) = (0, 0)"
    unfolding prog by (rule pending_concat) (simp add: barrier_round_def)
  ultimately show ?thesis by (simp add: well_matched_def)
qed



end
