(* ===== verification/Gloo_Gather.thy ===== *)
theory Gloo_Gather
  imports Gloo_Collective
begin

text \<open>
  The collectives with direct messages: \<open>gloo/gather.cc\<close>, \<open>gloo/gatherv.cc\<close>, \<open>gloo/scatter.cc\<close>,
  \<open>gloo/alltoall.cc\<close> and \<open>gloo/alltoallv.cc\<close>. Absent buffers are \<open>None\<close>; the sizes of the others
  are given. A failed check of the code is an error of the program.
\<close>

section \<open>Programs\<close>

abbreviation slot_of :: "8 word \<Rightarrow> 32 word \<Rightarrow> 64 word" where
  "slot_of prefix tag \<equiv> Slot_value (Slot_build prefix tag)"

definition others :: "ctx \<Rightarrow> nat list" where
  "others c = filter (\<lambda>i. i \<noteq> ctx_rank c) [0..<ctx_size c]"

definition gather :: "nat \<Rightarrow> nat \<Rightarrow> 32 word \<Rightarrow> nat option \<Rightarrow> nat option \<Rightarrow> ctx \<Rightarrow> program result" where
  "gather elementSize root tag insize outsize c =
     (let slot = slot_of kGatherSlotPrefix tag in
      enforce (elementSize > 0)
        (case insize of
           None \<Rightarrow> Inl EnforceNotMet
         | Some chunkSize \<Rightarrow>
             (if ctx_rank c = root then
                (case outsize of
                   None \<Rightarrow> Inl EnforceNotMet
                 | Some osize \<Rightarrow>
                     enforce (u64_mul chunkSize (ctx_size c) = osize)
                       (Inr (map (\<lambda>i. Recv (Out 0) i slot (i * chunkSize) chunkSize) (others c) @
                             [Memcpy (Out 0) (ctx_rank c * chunkSize) (In 0) 0 chunkSize] @
                             map (\<lambda>i. WaitRecv (Out 0)) (others c))))
              else Inr [Send (In 0) root slot 0 chunkSize, WaitSend (In 0)])))"

text \<open>\<open>gatherv\<close>: the loop of the root over the ranks, with the running offset.\<close>

fun gatherv_loop :: "nat \<Rightarrow> 64 word \<Rightarrow> nat \<Rightarrow> nat list \<Rightarrow> nat \<Rightarrow> nat \<Rightarrow> nat \<Rightarrow> program result" where
  "gatherv_loop elementSize slot insize [] rank i offset = Inr []"
| "gatherv_loop elementSize slot insize (e # es) rank i offset =
     (let copyLength = u64_mul elementSize e in
      rbind (if i \<noteq> rank then Inr [Recv (Out 0) i slot offset copyLength]
             else enforce (copyLength = insize)
                    (Inr (if copyLength > 0 then [Memcpy (Out 0) offset (In 0) 0 insize] else [])))
        (\<lambda>p. rbind (gatherv_loop elementSize slot insize es rank (i + 1) (u64_add offset copyLength))
          (\<lambda>q. Inr (p @ q))))"

definition gatherv :: "nat \<Rightarrow> nat \<Rightarrow> 32 word \<Rightarrow> nat option \<Rightarrow> nat list \<Rightarrow> ctx \<Rightarrow> program result" where
  "gatherv elementSize root tag insize elementsPerRank c =
     (let slot = slot_of kGatherSlotPrefix tag in
      enforce (elementSize > 0)
        (case insize of
           None \<Rightarrow> Inl EnforceNotMet
         | Some isize \<Rightarrow>
             (if length elementsPerRank < ctx_size c then Inl UndefinedBehavior
              else if ctx_rank c = root then
                rbind (gatherv_loop elementSize slot isize (take (ctx_size c) elementsPerRank) (ctx_rank c) 0 0)
                  (\<lambda>p. Inr (p @ replicate (ctx_size c - 1) (WaitRecv (Out 0))))
              else
                (let sendLength = u64_mul elementSize (elementsPerRank ! ctx_rank c)
                 in enforce (isize \<ge> sendLength)
                      (Inr [Send (In 0) root slot 0 sendLength, WaitSend (In 0)])))))"

definition scatter :: "nat \<Rightarrow> nat \<Rightarrow> 32 word \<Rightarrow> nat list \<Rightarrow> nat option \<Rightarrow> ctx \<Rightarrow> program result" where
  "scatter elementSize root tag insizes outsize c =
     (let slot = slot_of kScatterSlotPrefix tag in
      enforce (elementSize > 0)
        (enforce (root < ctx_size c)
          (case outsize of
             None \<Rightarrow> Inl EnforceNotMet
           | Some osize \<Rightarrow>
               (if ctx_rank c = root then
                  enforce (length insizes = ctx_size c)
                    (enforce (list_all (\<lambda>s. s = osize) insizes)
                      (Inr (map (\<lambda>i. Send (In i) i slot 0 (insizes ! i)) (others c) @
                            [Memcpy (Out 0) 0 (In (ctx_rank c)) 0 osize] @
                            map (\<lambda>i. WaitSend (In i)) (others c))))
                else Inr [Recv (Out 0) root slot 0 osize, WaitRecv (Out 0)]))))"

definition alltoall :: "nat \<Rightarrow> 32 word \<Rightarrow> nat option \<Rightarrow> nat option \<Rightarrow> ctx \<Rightarrow> program result" where
  "alltoall elementSize tag insize outsize c =
     (let slot = slot_of kAlltoallSlotPrefix tag; myRank = ctx_rank c; worldSize = ctx_size c in
      enforce (elementSize > 0)
        (case (insize, outsize) of
           (Some isize, Some osize) \<Rightarrow>
             enforce (isize mod worldSize = 0)
               (enforce (isize = osize)
                 (let chunkSize = isize div worldSize
                  in Inr ([Memcpy (Out 0) (myRank * chunkSize) (In 0) (myRank * chunkSize) chunkSize] @
                          concat (map (\<lambda>i.
                            (let sendRank = (myRank + i) mod worldSize;
                                 recvRank = (myRank + worldSize - i) mod worldSize
                             in [Send (In 0) sendRank slot (sendRank * chunkSize) chunkSize,
                                 Recv (Out 0) recvRank slot (recvRank * chunkSize) chunkSize])) [1..<worldSize]) @
                          concat (map (\<lambda>i. [WaitSend (In 0), WaitRecv (Out 0)]) [1..<worldSize]))))
         | _ \<Rightarrow> Inl EnforceNotMet))"

text \<open>\<open>splitOffsetsAndLengths\<close>.\<close>

fun splitOffsetsAndLengths :: "nat list \<Rightarrow> nat \<Rightarrow> nat \<Rightarrow> (nat \<times> nat) list" where
  "splitOffsetsAndLengths [] elementSize offset = []"
| "splitOffsetsAndLengths (elements # es) elementSize offset =
     (let length = u64_mul elements elementSize
      in (offset, length) # splitOffsetsAndLengths es elementSize (u64_add offset length))"

definition alltoallv :: "nat \<Rightarrow> 32 word \<Rightarrow> nat list \<Rightarrow> nat list \<Rightarrow> ctx \<Rightarrow> program result" where
  "alltoallv elementSize tag inElements outElements c =
     (let slot = slot_of kAlltoallSlotPrefix tag; myRank = ctx_rank c; worldSize = ctx_size c;
          ins = splitOffsetsAndLengths inElements elementSize 0;
          outs = splitOffsetsAndLengths outElements elementSize 0
      in enforce (length inElements = worldSize)
        (enforce (length outElements = worldSize)
        (enforce (elementSize > 0)
        (enforce (snd (ins ! myRank) = snd (outs ! myRank))
           (Inr ([Memcpy (Out 0) (fst (outs ! myRank)) (In 0) (fst (ins ! myRank)) (snd (ins ! myRank))] @
                 concat (map (\<lambda>i.
                   (let sendRank = (myRank + i) mod worldSize;
                        recvRank = (myRank + worldSize - i) mod worldSize
                    in [Send (In 0) sendRank slot (fst (ins ! sendRank)) (snd (ins ! sendRank)),
                        Recv (Out 0) recvRank slot (fst (outs ! recvRank)) (snd (outs ! recvRank))])) [1..<worldSize]) @
                 concat (map (\<lambda>i. [WaitSend (In 0), WaitRecv (Out 0)]) [1..<worldSize])))))))"

section \<open>Lists of commands\<close>

abbreviation first :: "'a list list \<Rightarrow> 'a list" where
  "first xs \<equiv> (case xs of [] \<Rightarrow> [] | d # _ \<Rightarrow> d)"

lemma writes_recvs:
  "distinct xs \<Longrightarrow>
   writes b q m (map (\<lambda>i. Recv b i s (f i) (g i)) xs @ p) =
     map (\<lambda>i. (f i, first (q i))) xs @ writes b (\<lambda>i. if i \<in> set xs then tl (q i) else q i) m p"
proof (induction xs arbitrary: q)
  case (Cons x xs)
  have "(\<lambda>i. if i \<in> set xs then tl ((q(x := tl (q x))) i) else (q(x := tl (q x))) i) =
      (\<lambda>i. if i \<in> set (x # xs) then tl (q i) else q i)"
    using Cons.prems by (auto simp: fun_eq_iff)
  moreover have "map (\<lambda>i. (f i, first ((q(x := tl (q x))) i))) xs = map (\<lambda>i. (f i, first (q i))) xs"
    using Cons.prems by (intro map_cong) auto
  ultimately show ?case using Cons by simp
qed simp

lemma map_waits: "map (\<lambda>i. WaitRecv b) xs = replicate (length xs) (WaitRecv b)"
  by (induction xs) simp_all

lemma others_simps:
  "set (others c) = {i. i < ctx_size c \<and> i \<noteq> ctx_rank c}" "distinct (others c)"
  by (auto simp: others_def)

lemma recvs_map:
  "distinct xs \<Longrightarrow> recvs i (map (\<lambda>k. Recv b k s (f k) (g k)) xs) = (if i \<in> set xs then [(s, g i)] else [])"
  by (induction xs) auto

lemma sends_map:
  "distinct xs \<Longrightarrow> sends i (map (\<lambda>k. Send (B k) k s (f k) (g k)) xs) = (if i \<in> set xs then [(s, g i)] else [])"
  by (induction xs) auto

lemma payloads_map:
  "distinct xs \<Longrightarrow> payloads i m (map (\<lambda>k. Send (B k) k s (f k) (g k)) xs) =
     (if i \<in> set xs then [read_at (f i) (g i) (m (B i))] else [])"
  by (induction xs) auto

lemma sends_silent [simp]: "sends j (map (\<lambda>k. Recv b k s (f k) (g k)) xs) = []" "sends j (map (\<lambda>k. WaitSend (B k)) xs) = []"
  "recvs j (map (\<lambda>k. Send (B k) k s (f k) (g k)) xs) = []" "recvs j (map (\<lambda>k. WaitSend (B k)) xs) = []"
  "payloads j m (map (\<lambda>k. Recv b k s (f k) (g k)) xs) = []"
  by (induction xs) simp_all

lemma pending_map:
  "pending b (map (\<lambda>k. Recv b' k s (f k) (g k)) xs) = (0, if b' = b then int (length xs) else 0)"
  "fst (pending b (map (\<lambda>k. Send (B k) k s (f k) (g k)) xs)) = - fst (pending b (map (\<lambda>k. WaitSend (B k)) xs))"
  "snd (pending b (map (\<lambda>k. Send (B k) k s (f k) (g k)) xs)) = 0" "snd (pending b (map (\<lambda>k. WaitSend (B k)) xs)) = 0"
  by (induction xs) simp_all

text \<open>Blocks written to their places, in any order, give their concatenation.\<close>

abbreviation start_of :: "(nat \<Rightarrow> 'a list) \<Rightarrow> nat \<Rightarrow> nat" where
  "start_of D i \<equiv> length (concat (map D [0..<i]))"

lemma concat_split:
  assumes "i < n"
  shows "\<exists>rest. concat (map D [0..<n]) = concat (map D [0..<i]) @ D i @ rest"
proof -
  have "[0..<n] = [0..<i] @ i # [Suc i..<n]"
    using assms upt_add_eq_append [of 0 i "n - i"] by (simp add: upt_conv_Cons)
  then show ?thesis by simp
qed

lemma concat_cover: "idx < start_of D n \<Longrightarrow> \<exists>i < n. start_of D i \<le> idx \<and> idx < start_of D i + length (D i)"
proof (induction n)
  case (Suc n)
  then show ?case by (cases "idx < start_of D n") (auto simp: less_Suc_eq)
qed simp

lemma apply_concat:
  assumes "set xs = {..<n}" "length mem = start_of D n"
  shows "apply_writes (map (\<lambda>i. (start_of D i, D i)) xs) mem = concat (map D [0..<n])"
proof (rule apply_writes_target)
  have "start_of D i + length (D i) \<le> start_of D n \<and> D i = read_at (start_of D i) (length (D i)) (concat (map D [0..<n]))"
    if "i < n" for i using concat_split [OF that, of D] by (auto simp: read_at_def)
  then show "\<forall>(off, d) \<in> set (map (\<lambda>i. (start_of D i, D i)) xs).
      off + length d \<le> start_of D n \<and> d = read_at off (length d) (concat (map D [0..<n]))"
    using assms(1) by auto
  show "\<forall>idx < start_of D n. mem ! idx = concat (map D [0..<n]) ! idx \<or>
      (\<exists>(off, d) \<in> set (map (\<lambda>i. (start_of D i, D i)) xs). off \<le> idx \<and> idx < off + length d)"
    using concat_cover [of _ D n] assms(1) by fastforce
qed (rule assms(2))

lemma start_of_blocks: "i \<le> n \<Longrightarrow> \<forall>i < n. length (D i) = k \<Longrightarrow> start_of D i = i * k"
  using length_blocks [of "map D [0..<i]" k] by auto

lemma apply_blocks:
  assumes "set xs = {..<n}" "\<forall>i < n. length (D i) = k" "length mem = n * k"
  shows "apply_writes (map (\<lambda>i. (i * k, D i)) xs) mem = concat (map D [0..<n])"
proof -
  have eq: "map (\<lambda>i. (i * k, D i)) xs = map (\<lambda>i. (start_of D i, D i)) xs"
    using assms(1) start_of_blocks [OF _ assms(2)] by (intro map_cong) auto
  have "length mem = start_of D n" using assms(3) start_of_blocks [OF order.refl assms(2)] by simp
  from apply_concat [OF assms(1) this] show ?thesis unfolding eq .
qed

text \<open>Only the sends matter for the payloads, and only receives and copies for the writes.\<close>

fun is_send :: "cmd \<Rightarrow> bool" where
  "is_send (Send b d s off n) = True" | "is_send _ = False"

fun is_write :: "cmd \<Rightarrow> bool" where
  "is_write (Recv b d s off n) = True" | "is_write (Memcpy a x b y n) = True" | "is_write _ = False"

lemma payloads_filter: "payloads j m (filter is_send p) = payloads j m p"
proof (induction p)
  case (Cons c p)
  then show ?case by (cases c) simp_all
qed simp

lemma sends_filter: "sends j (filter is_send p) = sends j p"
proof (induction p)
  case (Cons c p)
  then show ?case by (cases c) simp_all
qed simp

lemma writes_filter: "writes b q m (filter is_write p) = writes b q m p"
  by (induction b q m p rule: writes.induct) (simp_all add: fun_upd_def)

text \<open>The ranks after and before a rank on the ring.\<close>

lemma ranks_after:
  assumes "r < n"
  shows "distinct (map (\<lambda>i. (r + i) mod n) [1..<n])" "set (map (\<lambda>i. (r + i) mod n) [1..<n]) = {i. i < n \<and> i \<noteq> r}"
proof -
  have v: "(r + i) mod n = (if r + i < n then r + i else r + i - n)" if "i < n" for i
    using assms that by (auto simp: mod_if)
  show "distinct (map (\<lambda>i. (r + i) mod n) [1..<n])"
    using assms by (auto simp: distinct_map inj_on_def v split: if_splits)
  have "j \<in> (\<lambda>i. (r + i) mod n) ` {1..<n}" if "j < n" "j \<noteq> r" for j
    using assms that by (intro image_eqI [of _ _ "if r < j then j - r else n + j - r"]) (auto simp: v)
  then show "set (map (\<lambda>i. (r + i) mod n) [1..<n]) = {i. i < n \<and> i \<noteq> r}"
    using assms v by (auto split: if_splits)
qed

lemma ranks_before:
  assumes "r < n"
  shows "distinct (map (\<lambda>i. (r + n - i) mod n) [1..<n])" "set (map (\<lambda>i. (r + n - i) mod n) [1..<n]) = {i. i < n \<and> i \<noteq> r}"
proof -
  have v: "(r + n - i) mod n = (if i \<le> r then r - i else r + n - i)" if "i < n" for i
    using assms that by (auto simp: mod_if)
  show "distinct (map (\<lambda>i. (r + n - i) mod n) [1..<n])"
    using assms by (auto simp: distinct_map inj_on_def v split: if_splits)
  have "j \<in> (\<lambda>i. (r + n - i) mod n) ` {1..<n}" if "j < n" "j \<noteq> r" for j
    using assms that by (intro image_eqI [of _ _ "if j < r then r - j else r + n - j"]) (auto simp: v)
  then show "set (map (\<lambda>i. (r + n - i) mod n) [1..<n]) = {i. i < n \<and> i \<noteq> r}"
    using assms v by (auto split: if_splits)
qed

section \<open>Offsets and lengths\<close>

abbreviation bytes_of :: "nat \<Rightarrow> nat list \<Rightarrow> nat" where
  "bytes_of e es \<equiv> sum_list (map (\<lambda>x. x * e) es)"

lemma split_nth:
  assumes "off + bytes_of e es < u64_range" "i < length es"
  shows "splitOffsetsAndLengths es e off ! i = (off + bytes_of e (take i es), es ! i * e)"
  using assms
proof (induction es arbitrary: off i)
  case (Cons x es)
  then have x: "x * e < u64_range" "off + x * e < u64_range" by simp_all
  show ?case
  proof (cases i)
    case 0
    then show ?thesis using x by (simp add: u64_mul_exact Let_def)
  next
    case (Suc j)
    then show ?thesis using Cons.IH [of "off + x * e" j] Cons.prems x by (simp add: u64_mul_exact u64_add_exact Let_def)
  qed
qed simp

lemma split_length [simp]: "length (splitOffsetsAndLengths es e off) = length es"
  by (induction es arbitrary: off) (simp_all add: Let_def)

lemma start_of_bytes:
  assumes "\<forall>j < length es. length (D j) = es ! j * e" "i \<le> length es"
  shows "start_of D i = bytes_of e (take i es)"
  using assms(2)
proof (induction i)
  case (Suc i)
  then show ?case using assms(1) by (simp add: take_Suc_conv_app_nth)
qed simp

section \<open>Exchanges\<close>

text \<open>The common form of the programs of \<open>alltoall\<close> and \<open>alltoallv\<close>.\<close>

definition exchange :: "64 word \<Rightarrow> nat \<Rightarrow> nat \<Rightarrow> (nat \<Rightarrow> nat) \<Rightarrow> (nat \<Rightarrow> nat) \<Rightarrow> (nat \<Rightarrow> nat) \<Rightarrow> (nat \<Rightarrow> nat) \<Rightarrow> program" where
  "exchange s r n inoff inlen outoff outlen =
     [Memcpy (Out 0) (outoff r) (In 0) (inoff r) (inlen r)] @
     concat (map (\<lambda>i. (let sendRank = (r + i) mod n; recvRank = (r + n - i) mod n
        in [Send (In 0) sendRank s (inoff sendRank) (inlen sendRank),
            Recv (Out 0) recvRank s (outoff recvRank) (outlen recvRank)])) [1..<n]) @
     concat (map (\<lambda>i. [WaitSend (In 0), WaitRecv (Out 0)]) [1..<n])"

lemma filter_waits:
  "filter is_send (concat (map (\<lambda>i. [WaitSend a, WaitRecv b]) xs)) = []"
  "filter is_write (concat (map (\<lambda>i. [WaitSend a, WaitRecv b]) xs)) = []"
  "recvs j (concat (map (\<lambda>i. [WaitSend a, WaitRecv b]) xs)) = []"
  by (induction xs) simp_all

lemma filter_pairs:
  "filter is_send (concat (map (\<lambda>i. [Send a (f i) s (g i) (h i), Recv b (f' i) s' (g' i) (h' i)]) xs)) =
     map (\<lambda>i. Send a (f i) s (g i) (h i)) xs"
  "filter is_write (concat (map (\<lambda>i. [Send a (f i) s (g i) (h i), Recv b (f' i) s' (g' i) (h' i)]) xs)) =
     map (\<lambda>i. Recv b (f' i) s' (g' i) (h' i)) xs"
  "recvs j (concat (map (\<lambda>i. [Send a (f i) s (g i) (h i), Recv b (f' i) s' (g' i) (h' i)]) xs)) =
     recvs j (map (\<lambda>i. Recv b (f' i) s' (g' i) (h' i)) xs)"
  by (induction xs) simp_all

lemma pending_pairs:
  "pending b (concat (map (\<lambda>i. [Send x (f i) s (g i) (h i), Recv y (f' i) s' (g' i) (h' i)]) xs)) =
     (if x = b then int (length xs) else 0, if y = b then int (length xs) else 0)"
  "pending b (concat (map (\<lambda>i. [WaitSend x, WaitRecv y]) xs)) =
     (if x = b then - int (length xs) else 0, if y = b then - int (length xs) else 0)"
  by (induction xs) (simp_all split: if_split)

lemma exchange_sends:
  assumes "r < n"
  shows "filter is_send (exchange s r n inoff inlen outoff outlen) =
      map (\<lambda>j. Send (In 0) j s (inoff j) (inlen j)) (map (\<lambda>i. (r + i) mod n) [1..<n])"
    and "filter is_write (exchange s r n inoff inlen outoff outlen) =
      Memcpy (Out 0) (outoff r) (In 0) (inoff r) (inlen r) #
      map (\<lambda>j. Recv (Out 0) j s (outoff j) (outlen j)) (map (\<lambda>i. (r + n - i) mod n) [1..<n])"
    and "recvs i (exchange s r n inoff inlen outoff outlen) =
      recvs i (map (\<lambda>j. Recv (Out 0) j s (outoff j) (outlen j)) (map (\<lambda>i. (r + n - i) mod n) [1..<n]))"
  by (simp_all add: exchange_def Let_def filter_pairs filter_waits comp_def)

lemma exchange_matched:
  assumes "r < n"
  shows "sends j (exchange s r n inoff inlen outoff outlen) = (if j < n \<and> j \<noteq> r then [(s, inlen j)] else [])"
    and "recvs i (exchange s r n inoff inlen outoff outlen) = (if i < n \<and> i \<noteq> r then [(s, outlen i)] else [])"
    and "pending b (exchange s r n inoff inlen outoff outlen) = (0, 0)"
proof -
  show "sends j (exchange s r n inoff inlen outoff outlen) = (if j < n \<and> j \<noteq> r then [(s, inlen j)] else [])"
    using sends_map [OF ranks_after(1) [OF assms], of j "\<lambda>_. In 0"] ranks_after(2) [OF assms]
    by (subst sends_filter [symmetric]) (simp add: exchange_sends [OF assms] del: map_map)
  show "recvs i (exchange s r n inoff inlen outoff outlen) = (if i < n \<and> i \<noteq> r then [(s, outlen i)] else [])"
    using recvs_map [OF ranks_before(1) [OF assms]] ranks_before(2) [OF assms]
    by (simp add: exchange_sends [OF assms] del: map_map)
  show "pending b (exchange s r n inoff inlen outoff outlen) = (0, 0)"
    by (simp add: exchange_def Let_def pending_pairs)
qed

lemma exchange_outcome:
  assumes "\<And>i. P i = exchange s i n (inoff i) (inlen i) (outoff i) (outlen i)" and "j < n"
  shows "outcome P M j (Out 0) =
    apply_writes (map (\<lambda>i. (outoff j i, read_at (inoff i j) (inlen i j) (M i (In 0)))) (j # map (\<lambda>i. (j + n - i) mod n) [1..<n]))
      (M j (Out 0))"
proof -
  have "first (payloads j (M i) (P i)) = read_at (inoff i j) (inlen i j) (M i (In 0))" if "i < n" "i \<noteq> j" for i
    using payloads_map [OF ranks_after(1) [OF that(1)], of j "M i" "\<lambda>_. In 0"] ranks_after(2) [OF that(1)] that assms
    by (subst payloads_filter [symmetric]) (simp add: exchange_sends [OF that(1)] del: map_map)
  moreover have "writes (Out 0) q (M j) (P j) = (outoff j j, read_at (inoff j j) (inlen j j) (M j (In 0))) #
      map (\<lambda>i. (outoff j i, first (q i))) (map (\<lambda>i. (j + n - i) mod n) [1..<n])" for q
    using writes_recvs [OF ranks_before(1) [OF assms(2)], of "Out 0" q "M j" s "outoff j" "outlen j" "[]"]
    by (subst writes_filter [symmetric]) (simp add: assms(1) exchange_sends [OF assms(2)] del: map_map)
  ultimately have "writes (Out 0) (\<lambda>i. payloads j (M i) (P i)) (M j) (P j) =
      map (\<lambda>i. (outoff j i, read_at (inoff i j) (inlen i j) (M i (In 0)))) (j # map (\<lambda>i. (j + n - i) mod n) [1..<n])"
    using ranks_before(2) [OF assms(2)] by (auto simp del: map_map)
  then show ?thesis by (simp add: outcome_def)
qed

section \<open>Properties\<close>


text \<open>Three ranks with two bytes each.\<close>

definition demo_mem :: "nat \<Rightarrow> nat mem" where
  "demo_mem r b = (case b of In i \<Rightarrow> [10 * r + i, 10 * r + i + 1] | _ \<Rightarrow> replicate 6 0)"


text \<open>
  C18: All-to-all. With equal buffers that divide evenly, the messages match, every operation is
  waited for, and rank \<open>j\<close> ends with the blocks that the ranks held for it, in rank order.
\<close>

theorem alltoall_correct:
  assumes "0 < elementSize" and "0 < n" and "\<forall>i < n. length (M i (In 0)) = n * k" and "\<forall>i < n. length (M i (Out 0)) = n * k"
  shows "\<exists>P. (\<forall>r < n. alltoall elementSize tag (Some (n * k)) (Some (n * k)) \<lparr>ctx_rank = r, ctx_size = n\<rparr> = Inr (P r)) \<and>
    well_matched n P \<and> (\<forall>r < n. \<forall>b. pending b (P r) = (0, 0)) \<and>
    (\<forall>j < n. outcome P M j (Out 0) = concat (map (\<lambda>i. read_at (j * k) k (M i (In 0))) [0..<n]))"
proof -
  define P where "P = (\<lambda>r. exchange (slot_of kAlltoallSlotPrefix tag) r n (\<lambda>j. j * k) (\<lambda>_. k) (\<lambda>j. j * k) (\<lambda>_. k))"
  have 1: "alltoall elementSize tag (Some (n * k)) (Some (n * k)) \<lparr>ctx_rank = r, ctx_size = n\<rparr> = Inr (P r)" for r
    using assms(1,2) by (simp add: alltoall_def P_def exchange_def Let_def)
  have 2: "well_matched n P" by (simp add: well_matched_def P_def exchange_matched)
  have 3: "\<forall>r < n. \<forall>b. pending b (P r) = (0, 0)" by (simp add: P_def exchange_matched)
  have "outcome P M j (Out 0) = concat (map (\<lambda>i. read_at (j * k) k (M i (In 0))) [0..<n])" if j: "j < n" for j
  proof -
    let ?xs = "j # map (\<lambda>i. (j + n - i) mod n) [1..<n]"
    have "outcome P M j (Out 0) = apply_writes (map (\<lambda>i. (i * k, read_at (j * k) k (M i (In 0)))) ?xs) (M j (Out 0))"
      by (rule exchange_outcome [OF _ j]) (simp add: P_def)
    also have "\<dots> = concat (map (\<lambda>i. read_at (j * k) k (M i (In 0))) [0..<n])"
    proof (rule apply_blocks)
      show "set ?xs = {..<n}" using ranks_before(2) [OF j] j by auto
      have "Suc j * k \<le> n * k" using j by (intro mult_right_mono) auto
      then show "\<forall>i < n. length (read_at (j * k) k (M i (In 0))) = k" using assms(3) by (simp add: length_read_at)
      show "length (M j (Out 0)) = n * k" using assms(4) j by simp
    qed
    finally show ?thesis .
  qed
  with 1 2 3 show ?thesis by blast
qed

theorem alltoall_correct_witness:
  "\<exists>P. (\<forall>r < 2. alltoall 1 7 (Some (2 * 1)) (Some (2 * 1)) \<lparr>ctx_rank = r, ctx_size = 2\<rparr> = Inr (P r)) \<and>
    well_matched 2 P \<and> (\<forall>r < 2. \<forall>b. pending b (P r) = (0, 0)) \<and>
    (\<forall>j < 2. outcome P (\<lambda>r b. [r, r + 5]) j (Out 0) = concat (map (\<lambda>i. read_at (j * 1) 1 [i, i + 5]) [0..<2]))"
  by (rule alltoall_correct) simp_all

text \<open>
  Scatter. With as many inputs as ranks, all of the size of the outputs, the messages match,
  every operation is waited for, and rank \<open>j\<close> ends with the \<open>j\<close>-th input of the root.
\<close>

theorem scatter_correct:
  assumes "0 < elementSize" and "root < n" and "\<forall>i < n. length (M root (In i)) = k" and "\<forall>i < n. length (M i (Out 0)) = k"
  shows "\<exists>P. (\<forall>r < n. scatter elementSize root tag (if r = root then replicate n k else []) (Some k)
        \<lparr>ctx_rank = r, ctx_size = n\<rparr> = Inr (P r)) \<and>
    well_matched n P \<and> (\<forall>r < n. \<forall>b. pending b (P r) = (0, 0)) \<and> (\<forall>j < n. outcome P M j (Out 0) = M root (In j))"
proof -
  let ?s = "slot_of kScatterSlotPrefix tag" and ?c = "\<lparr>ctx_rank = root, ctx_size = n\<rparr>"
  define P where "P = (\<lambda>r. if r = root
    then map (\<lambda>i. Send (In i) i ?s 0 (replicate n k ! i)) (others ?c) @ [Memcpy (Out 0) 0 (In root) 0 k] @
      map (\<lambda>i. WaitSend (In i)) (others ?c)
    else [Recv (Out 0) root ?s 0 k, WaitRecv (Out 0)])"
  have 1: "scatter elementSize root tag (if r = root then replicate n k else []) (Some k) \<lparr>ctx_rank = r, ctx_size = n\<rparr> = Inr (P r)" for r
    using assms(1,2) by (simp add: scatter_def P_def list_all_iff)
  have 2: "well_matched n P" using assms(2) by (auto simp: well_matched_def P_def sends_map others_simps)
  have 3: "pending b (P r) = (0, 0)" for b r by (simp add: P_def pending_map)
  have w: "write_at 0 xs ys = xs" if "length xs = length ys" for xs ys :: "'a list" using that by (simp add: write_at_def)
  have silent: "writes b q m (map (\<lambda>i. Send (In i) i ?s 0 (g i)) xs @ p) = writes b q m p"
    "writes b q m (map (\<lambda>i. WaitSend (In i)) xs) = []" for b q and m :: "'a mem" and g xs p
    by (induction xs) simp_all
  have "outcome P M j (Out 0) = M root (In j)" if "j < n" for j
  proof (cases "j = root")
    case True
    then show ?thesis
      using assms(3,4) that
      by (simp add: outcome_def P_def [THEN fun_cong, of root] silent apply_writes_def w read_at_def)
  next
    case False
    have "payloads j (M root) (P root) = [M root (In j)]"
      using payloads_map [OF others_simps(2), of j "M root" In ?s "\<lambda>_. 0" "\<lambda>i. replicate n k ! i" ?c] that False assms(3)
      by (simp add: P_def payloads_def others_simps read_at_def comp_def)
    then show ?thesis using False assms(3,4) that by (simp add: outcome_def P_def [THEN fun_cong, of j] apply_writes_def w)
  qed
  with 1 2 3 show ?thesis by blast
qed

theorem scatter_correct_witness:
  "\<exists>P. (\<forall>r < 3. scatter 1 2 7 (if r = 2 then replicate 3 2 else []) (Some 2) \<lparr>ctx_rank = r, ctx_size = 3\<rparr> = Inr (P r)) \<and>
    well_matched 3 P \<and> (\<forall>r < 3. \<forall>b. pending b (P r) = (0, 0)) \<and>
    (\<forall>j < 3. outcome P (\<lambda>r b. [r, case b of In i \<Rightarrow> i | _ \<Rightarrow> 0]) j (Out 0) = [2, j])"
  using scatter_correct [of 1 2 3 "\<lambda>r b. [r, case b of In i \<Rightarrow> i | _ \<Rightarrow> 0]" 2 7] by simp

end
