(* ===== verification/Gloo_Async.thy ===== *)
theory Gloo_Async
  imports Gloo_Collective "HOL-Library.Sublist" "HOL-Library.Multiset"
begin

text \<open>
  Asynchronous execution of the programs of all ranks. The transport promises what
  \<open>Gloo_Matching\<close> shows of it: on each channel (sender, receiver, slot) the sends are matched
  with the receives in order, a payload is transmitted only after its receive was posted, a
  wait for a send returns when the payload of some send of the buffer was transmitted, and a
  wait for a receive returns when some receive of the buffer was completed. Which rank runs
  next, and when the network transmits and delivers, is not determined.

  The theory shows, for programs that consist of rounds whose messages match, that no
  interleaving deadlocks or runs forever, and, for collectives that only move data, that every
  interleaving leaves the intended contents in the buffers.
\<close>

section \<open>Clusters and their actions\<close>

type_synonym chan = "nat \<times> nat \<times> 64 word"

type_synonym region = "bufid \<times> nat \<times> nat"

abbreviation chan_src :: "chan \<Rightarrow> nat" where "chan_src k \<equiv> fst k"
abbreviation chan_dst :: "chan \<Rightarrow> nat" where "chan_dst k \<equiv> fst (snd k)"

fun send_post :: "nat \<Rightarrow> cmd \<Rightarrow> (chan \<times> region) list" where
  "send_post r (Send b dst s off n) = [((r, dst, s), (b, off, n))]"
| "send_post r _ = []"

fun recv_post :: "nat \<Rightarrow> cmd \<Rightarrow> (chan \<times> region) list" where
  "recv_post r (Recv b src s off n) = [((src, r, s), (b, off, n))]"
| "recv_post r _ = []"

definition sposts :: "nat \<Rightarrow> program \<Rightarrow> (chan \<times> region) list" where
  "sposts r p = concat (map (send_post r) p)"

definition rposts :: "nat \<Rightarrow> program \<Rightarrow> (chan \<times> region) list" where
  "rposts r p = concat (map (recv_post r) p)"

fun is_wait_send :: "bufid \<Rightarrow> cmd \<Rightarrow> bool" where
  "is_wait_send b (WaitSend b') = (b' = b)" | "is_wait_send b _ = False"

fun is_wait_recv :: "bufid \<Rightarrow> cmd \<Rightarrow> bool" where
  "is_wait_recv b (WaitRecv b') = (b' = b)" | "is_wait_recv b _ = False"

definition wsend :: "bufid \<Rightarrow> program \<Rightarrow> nat" where
  "wsend b p = length (filter (is_wait_send b) p)"

definition wrecv :: "bufid \<Rightarrow> program \<Rightarrow> nat" where
  "wrecv b p = length (filter (is_wait_recv b) p)"

definition sel :: "chan \<Rightarrow> (chan \<times> region) list \<Rightarrow> (chan \<times> region) list" where
  "sel k xs = filter (\<lambda>x. fst x = k) xs"

definition bsel :: "bufid \<Rightarrow> (chan \<times> region) list \<Rightarrow> (chan \<times> region) list" where
  "bsel b xs = filter (\<lambda>x. fst (snd x) = b) xs"

text \<open>
  What each rank has executed and what it has left, the sends of each rank whose payload was
  transmitted and the receives of each rank that were completed, in order.
\<close>

record cluster =
  cl_done :: "nat \<Rightarrow> program"
  cl_prog :: "nat \<Rightarrow> program"
  cl_tlog :: "nat \<Rightarrow> (chan \<times> region) list"
  cl_dlog :: "nat \<Rightarrow> (chan \<times> region) list"

definition cluster_init :: "(nat \<Rightarrow> program) \<Rightarrow> cluster" where
  "cluster_init P = \<lparr>cl_done = (\<lambda>_. []), cl_prog = P, cl_tlog = (\<lambda>_. []), cl_dlog = (\<lambda>_. [])\<rparr>"

datatype act = Local nat | Transmit chan | Deliver chan

text \<open>A wait returns when there are more completions than waits so far; nothing else blocks.\<close>

fun can_run :: "cluster \<Rightarrow> nat \<Rightarrow> cmd \<Rightarrow> bool" where
  "can_run c r (WaitSend b) = (wsend b (cl_done c r) < length (bsel b (cl_tlog c r)))"
| "can_run c r (WaitRecv b) = (wrecv b (cl_done c r) < length (bsel b (cl_dlog c r)))"
| "can_run c r _ = True"

fun cluster_do :: "act \<Rightarrow> cluster \<Rightarrow> cluster option" where
  "cluster_do (Local r) c =
     (case cl_prog c r of
        [] \<Rightarrow> None
      | x # p \<Rightarrow>
          if can_run c r x
          then Some (c\<lparr>cl_done := (cl_done c)(r := cl_done c r @ [x]), cl_prog := (cl_prog c)(r := p)\<rparr>)
          else None)"
| "cluster_do (Transmit k) c =
     (let i = chan_src k; ss = sel k (sposts i (cl_done c i));
          rs = sel k (rposts (chan_dst k) (cl_done c (chan_dst k))); m = length (sel k (cl_tlog c i))
      in if m < length ss \<and> m < length rs
         then Some (c\<lparr>cl_tlog := (cl_tlog c)(i := cl_tlog c i @ [ss ! m])\<rparr>) else None)"
| "cluster_do (Deliver k) c =
     (let j = chan_dst k; ts = sel k (cl_tlog c (chan_src k)); rs = sel k (rposts j (cl_done c j));
          m = length (sel k (cl_dlog c j))
      in if m < length ts \<and> m < length rs \<and> snd (snd (snd (ts ! m))) \<le> snd (snd (snd (rs ! m)))
         then Some (c\<lparr>cl_dlog := (cl_dlog c)(j := cl_dlog c j @ [rs ! m])\<rparr>) else None)"

fun cluster_run :: "act list \<Rightarrow> cluster \<Rightarrow> cluster option" where
  "cluster_run [] c = Some c"
| "cluster_run (a # as) c = (case cluster_do a c of None \<Rightarrow> None | Some c' \<Rightarrow> cluster_run as c')"

definition finished :: "cluster \<Rightarrow> bool" where
  "finished c \<longleftrightarrow> (\<forall>r. cl_prog c r = [])"

section \<open>Lists of posts\<close>

lemma posts_append [simp]:
  "sposts r (p @ q) = sposts r p @ sposts r q" "rposts r (p @ q) = rposts r p @ rposts r q"
  "sposts r [] = []" "rposts r [] = []" "sposts r (x # p) = send_post r x @ sposts r p" "rposts r (x # p) = recv_post r x @ rposts r p"
  by (simp_all add: sposts_def rposts_def)

lemma waits_append [simp]:
  "wsend b (p @ q) = wsend b p + wsend b q" "wrecv b (p @ q) = wrecv b p + wrecv b q" "wsend b [] = 0" "wrecv b [] = 0"
  "wsend b (x # p) = (if is_wait_send b x then 1 else 0) + wsend b p"
  "wrecv b (x # p) = (if is_wait_recv b x then 1 else 0) + wrecv b p"
  by (simp_all add: wsend_def wrecv_def)

lemma sel_append [simp]:
  "sel k (xs @ ys) = sel k xs @ sel k ys" "sel k [] = []" "sel k (x # xs) = (if fst x = k then x # sel k xs else sel k xs)"
  by (simp_all add: sel_def)

lemma bsel_append [simp]:
  "bsel b (xs @ ys) = bsel b xs @ bsel b ys" "bsel b [] = []"
  "bsel b (x # xs) = (if fst (snd x) = b then x # bsel b xs else bsel b xs)"
  by (simp_all add: bsel_def)

lemma set_sel: "set (sel k xs) = {x \<in> set xs. fst x = k}"
  by (auto simp: sel_def)

lemma set_bsel: "set (bsel b xs) = {x \<in> set xs. fst (snd x) = b}"
  by (auto simp: bsel_def)

lemma sel_nonempty: "sel h xs \<noteq> [] \<Longrightarrow> \<exists>x \<in> set xs. fst x = h"
  unfolding sel_def filter_empty_conv by blast

lemma sposts_src: "x \<in> set (sposts r p) \<Longrightarrow> chan_src (fst x) = r"
proof (induction p)
  case (Cons c p)
  then show ?case by (cases c) auto
qed simp

lemma rposts_dst: "x \<in> set (rposts r p) \<Longrightarrow> chan_dst (fst x) = r"
proof (induction p)
  case (Cons c p)
  then show ?case by (cases c) auto
qed simp

lemma sel_other:
  "chan_src k \<noteq> r \<Longrightarrow> sel k (sposts r p) = []" "chan_dst k \<noteq> r \<Longrightarrow> sel k (rposts r p) = []"
  using sposts_src rposts_dst by (fastforce simp: sel_def filter_empty_conv)+

text \<open>Lists that are a prefix of another on each channel are contained in it.\<close>

lemma count_sel: "count (mset xs) x = count (mset (sel (fst x) xs)) x"
  by (simp add: sel_def)

lemma prefix_mset:
  assumes "\<And>k. prefix (sel k xs) (sel k ys)"
  shows "mset xs \<subseteq># mset ys"
proof (rule mset_subset_eqI)
  fix x :: "chan \<times> region"
  from assms [of "fst x"] obtain zs where "sel (fst x) ys = sel (fst x) xs @ zs" by (auto simp: prefix_def)
  then show "count (mset xs) x \<le> count (mset ys) x"
    unfolding count_sel [of xs x] count_sel [of ys x] by simp
qed

lemma prefix_lengths:
  assumes "\<And>k. prefix (sel k xs) (sel k ys)"
  shows "length xs \<le> length ys" "set xs \<subseteq> set ys" "length (bsel b xs) \<le> length (bsel b ys)"
proof -
  note sub = prefix_mset [of xs ys, OF assms]
  show "length xs \<le> length ys" using size_mset_mono [OF sub] by simp
  show "set xs \<subseteq> set ys" using set_mset_mono [OF sub] by simp
  show "length (bsel b xs) \<le> length (bsel b ys)"
    using size_mset_mono [OF multiset_filter_mono [OF sub, of "\<lambda>x. fst (snd x) = b"]]
    by (simp add: bsel_def flip: mset_filter)
qed

section \<open>What holds in every run\<close>

definition prefix_of :: "(nat \<Rightarrow> program) \<Rightarrow> cluster \<Rightarrow> bool" where
  "prefix_of P c \<longleftrightarrow> (\<forall>r. P r = cl_done c r @ cl_prog c r)"

definition chan_ok :: "cluster \<Rightarrow> chan \<Rightarrow> bool" where
  "chan_ok c k \<longleftrightarrow>
     prefix (sel k (cl_tlog c (chan_src k))) (sel k (sposts (chan_src k) (cl_done c (chan_src k)))) \<and>
     prefix (sel k (cl_dlog c (chan_dst k))) (sel k (rposts (chan_dst k) (cl_done c (chan_dst k)))) \<and>
     length (sel k (cl_dlog c (chan_dst k))) \<le> length (sel k (cl_tlog c (chan_src k))) \<and>
     length (sel k (cl_tlog c (chan_src k))) \<le> length (sel k (rposts (chan_dst k) (cl_done c (chan_dst k))))"

definition logs_ok :: "cluster \<Rightarrow> bool" where
  "logs_ok c \<longleftrightarrow> (\<forall>k. chan_ok c k)"

definition logs_own :: "cluster \<Rightarrow> bool" where
  "logs_own c \<longleftrightarrow> (\<forall>r. (\<forall>x \<in> set (cl_tlog c r). chan_src (fst x) = r) \<and> (\<forall>x \<in> set (cl_dlog c r). chan_dst (fst x) = r))"

definition waits_ok :: "cluster \<Rightarrow> bool" where
  "waits_ok c \<longleftrightarrow> (\<forall>r b. wsend b (cl_done c r) \<le> length (bsel b (cl_tlog c r)) \<and>
     wrecv b (cl_done c r) \<le> length (bsel b (cl_dlog c r)))"

definition cluster_inv :: "(nat \<Rightarrow> program) \<Rightarrow> cluster \<Rightarrow> bool" where
  "cluster_inv P c \<longleftrightarrow> prefix_of P c \<and> logs_ok c \<and> logs_own c \<and> waits_ok c"

lemma cluster_inv_init: "cluster_inv P (cluster_init P)"
  by (simp add: cluster_inv_def cluster_init_def prefix_of_def logs_ok_def chan_ok_def logs_own_def waits_ok_def)

lemma prefix_step: "prefix xs ys \<Longrightarrow> length xs < length ys \<Longrightarrow> prefix (xs @ [ys ! length xs]) ys"
  by (auto simp: prefix_def nth_append)
    (metis append_Cons append_Nil hd_Cons_tl hd_conv_nth length_greater_0_conv list.size(3) nth_append_length)

lemma nth_sel: "m < length (sel k xs) \<Longrightarrow> fst (sel k xs ! m) = k \<and> sel k xs ! m \<in> set xs"
  using nth_mem [of m "sel k xs"] by (auto simp: set_sel)

lemma local_inv:
  assumes "cluster_do (Local r) c = Some c'" "cluster_inv P c"
  shows "cluster_inv P c'"
proof -
  from assms(1) obtain x p where x: "cl_prog c r = x # p" "can_run c r x"
    and c': "c' = c\<lparr>cl_done := (cl_done c)(r := cl_done c r @ [x]), cl_prog := (cl_prog c)(r := p)\<rparr>"
    by (auto split: list.splits if_splits)
  note inv = assms(2) [unfolded cluster_inv_def]
  have "prefix_of P c'" using inv x by (auto simp: prefix_of_def c')
  moreover have "logs_ok c'"
  proof -
    have "chan_ok c' k" for k
    proof -
      have "chan_ok c k" using inv unfolding logs_ok_def by blast
      then show ?thesis by (auto simp: chan_ok_def c' intro: prefix_prefix)
    qed
    then show ?thesis unfolding logs_ok_def by blast
  qed
  moreover have "logs_own c'" using inv by (simp add: logs_own_def c')
  moreover have "waits_ok c'"
    using inv x(2) unfolding waits_ok_def by (cases x) (auto simp: c' Suc_le_eq)
  ultimately show ?thesis by (simp add: cluster_inv_def)
qed

lemma transmit_inv:
  assumes "cluster_do (Transmit k) c = Some c'" "cluster_inv P c"
  shows "cluster_inv P c'"
proof -
  let ?i = "chan_src k"
  let ?x = "sel k (sposts ?i (cl_done c ?i)) ! length (sel k (cl_tlog c ?i))"
  from assms(1) have m: "length (sel k (cl_tlog c ?i)) < length (sel k (sposts ?i (cl_done c ?i)))"
      "length (sel k (cl_tlog c ?i)) < length (sel k (rposts (chan_dst k) (cl_done c (chan_dst k))))"
    and c': "c' = c\<lparr>cl_tlog := (cl_tlog c)(?i := cl_tlog c ?i @ [?x])\<rparr>"
    by (auto simp: Let_def split: if_splits)
  note inv = assms(2) [unfolded cluster_inv_def]
  have x: "fst ?x = k" using nth_sel [OF m(1)] by simp
  have "logs_ok c'"
  proof -
    have "chan_ok c' k'" for k'
    proof -
      have "chan_ok c k'" using inv unfolding logs_ok_def by blast
      then show ?thesis
        using m x prefix_step [of "sel k (cl_tlog c ?i)" "sel k (sposts ?i (cl_done c ?i))"]
        by (cases "k' = k") (auto simp: chan_ok_def c' le_Suc_eq Suc_le_eq)
    qed
    then show ?thesis unfolding logs_ok_def by blast
  qed
  moreover have "logs_own c'" "waits_ok c'" using inv x by (auto simp: logs_own_def waits_ok_def c' le_Suc_eq)
  moreover have "prefix_of P c'" using inv by (simp add: prefix_of_def c')
  ultimately show ?thesis by (simp add: cluster_inv_def)
qed

lemma deliver_inv:
  assumes "cluster_do (Deliver k) c = Some c'" "cluster_inv P c"
  shows "cluster_inv P c'"
proof -
  let ?j = "chan_dst k"
  let ?x = "sel k (rposts ?j (cl_done c ?j)) ! length (sel k (cl_dlog c ?j))"
  from assms(1) have m: "length (sel k (cl_dlog c ?j)) < length (sel k (rposts ?j (cl_done c ?j)))"
      "length (sel k (cl_dlog c ?j)) < length (sel k (cl_tlog c (chan_src k)))"
    and c': "c' = c\<lparr>cl_dlog := (cl_dlog c)(?j := cl_dlog c ?j @ [?x])\<rparr>"
    by (auto simp: Let_def split: if_splits)
  note inv = assms(2) [unfolded cluster_inv_def]
  have x: "fst ?x = k" using nth_sel [OF m(1)] by simp
  have "logs_ok c'"
  proof -
    have "chan_ok c' k'" for k'
    proof -
      have "chan_ok c k'" using inv unfolding logs_ok_def by blast
      then show ?thesis
        using m x prefix_step [of "sel k (cl_dlog c ?j)" "sel k (rposts ?j (cl_done c ?j))"]
        by (cases "k' = k") (auto simp: chan_ok_def c' le_Suc_eq Suc_le_eq)
    qed
    then show ?thesis unfolding logs_ok_def by blast
  qed
  moreover have "logs_own c'" "waits_ok c'" using inv x by (auto simp: logs_own_def waits_ok_def c' le_Suc_eq)
  moreover have "prefix_of P c'" using inv by (simp add: prefix_of_def c')
  ultimately show ?thesis by (simp add: cluster_inv_def)
qed

lemma cluster_do_inv: "cluster_do a c = Some c' \<Longrightarrow> cluster_inv P c \<Longrightarrow> cluster_inv P c'"
  by (cases a) (blast intro: local_inv transmit_inv deliver_inv)+

lemma cluster_run_inv: "cluster_run as c = Some c' \<Longrightarrow> cluster_inv P c \<Longrightarrow> cluster_inv P c'"
  by (induction as arbitrary: c) (auto split: option.splits intro: cluster_do_inv)

section \<open>Rounds\<close>

text \<open>
  Programs in rounds: in each round the messages of the ranks match and stay among the \<open>n\<close>
  ranks, and a rank waits in a round for no more operations than it posted in earlier rounds
  and has not waited for yet.
\<close>

definition rounds :: "(nat \<Rightarrow> nat \<Rightarrow> program) \<Rightarrow> nat \<Rightarrow> nat \<Rightarrow> program" where
  "rounds S m r = concat (map (S r) [0..<m])"

definition addressed :: "nat \<Rightarrow> nat \<Rightarrow> program \<Rightarrow> bool" where
  "addressed n r p \<longleftrightarrow> (\<forall>x \<in> set (sposts r p). chan_dst (fst x) < n) \<and> (\<forall>x \<in> set (rposts r p). chan_src (fst x) < n)"

definition rounds_ok :: "nat \<Rightarrow> nat \<Rightarrow> (nat \<Rightarrow> nat \<Rightarrow> program) \<Rightarrow> bool" where
  "rounds_ok n m S \<longleftrightarrow> (\<forall>k < m. well_matched n (\<lambda>r. S r k) \<and> (\<forall>r < n. addressed n r (S r k) \<and>
     (\<forall>b. int (wsend b (S r k)) \<le> fst (pending b (rounds S k r)) \<and> int (wrecv b (S r k)) \<le> snd (pending b (rounds S k r)))))"

definition programs :: "nat \<Rightarrow> (nat \<Rightarrow> program) \<Rightarrow> nat \<Rightarrow> program" where
  "programs n P r = (if r < n then P r else [])"

lemma rounds_Suc: "rounds S (Suc k) r = rounds S k r @ S r k"
  by (simp add: rounds_def)

lemma rounds_prefix: "k \<le> m \<Longrightarrow> prefix (rounds S k r) (rounds S m r)"
  by (induction m) (auto simp: rounds_Suc le_Suc_eq intro: prefix_prefix)

lemma pending_posts:
  "fst (pending b p) = int (length (bsel b (sposts r p))) - int (wsend b p)"
  "snd (pending b p) = int (length (bsel b (rposts r p))) - int (wrecv b p)"
proof (induction p)
  case (Cons c p)
  { case 1 then show ?case using Cons(1) by (cases c) simp_all }
  { case 2 then show ?case using Cons(2) by (cases c) simp_all }
qed simp_all

definition lens :: "(chan \<times> region) list \<Rightarrow> nat list" where
  "lens xs = map (\<lambda>x. snd (snd (snd x))) xs"

lemma lens_sends:
  "lens (sel (i, j, s) (sposts i p)) = map snd (filter (\<lambda>x. fst x = s) (sends j p))"
  "lens (sel (i, j, s) (rposts j p)) = map snd (filter (\<lambda>x. fst x = s) (recvs i p))"
proof (induction p)
  case (Cons c p)
  { case 1 then show ?case using Cons(1) by (cases c) (simp_all add: lens_def) }
  { case 2 then show ?case using Cons(2) by (cases c) (simp_all add: lens_def) }
qed (simp_all add: lens_def)

lemma matched_lens:
  assumes "well_matched n P" "chan_src k < n" "chan_dst k < n"
  shows "lens (sel k (sposts (chan_src k) (P (chan_src k)))) = lens (sel k (rposts (chan_dst k) (P (chan_dst k))))"
proof -
  obtain i j s where k: "k = (i, j, s)" by (cases k)
  with assms have "sends j (P i) = recvs i (P j)" by (simp add: well_matched_def)
  then show ?thesis by (simp add: k lens_sends)
qed

lemma matched_rounds:
  assumes "\<forall>k < m. well_matched n (\<lambda>r. S r k)"
  shows "well_matched n (rounds S m)"
  unfolding well_matched_def rounds_def
proof (intro allI impI)
  fix i j assume "i < n" "j < n"
  then show "sends j (concat (map (S i) [0..<m])) = recvs i (concat (map (S j) [0..<m]))"
    using assms by (intro matched_concat) (simp add: well_matched_def)
qed

lemma addressed_rounds: "\<forall>k < m. addressed n r (S r k) \<Longrightarrow> addressed n r (rounds S m r)"
proof (induction m)
  case 0
  then show ?case by (simp add: rounds_def addressed_def)
next
  case (Suc m)
  then have "addressed n r (rounds S m r)" "addressed n r (S r m)" by simp_all
  then show ?case unfolding addressed_def rounds_Suc posts_append set_append by blast
qed

section \<open>No deadlock\<close>

text \<open>
  When no payload can be transmitted or delivered, all operations of a channel that both sides
  have posted are complete.
\<close>

lemma quiet_channel:
  assumes inv: "cluster_inv (programs n P) c" and wm: "well_matched n P"
    and k: "chan_src k < n" "chan_dst k < n"
    and quiet: "cluster_do (Transmit k) c = None" "cluster_do (Deliver k) c = None"
  shows "min (length (sel k (sposts (chan_src k) (cl_done c (chan_src k)))))
      (length (sel k (rposts (chan_dst k) (cl_done c (chan_dst k))))) \<le> length (sel k (cl_dlog c (chan_dst k)))"
    and "length (sel k (cl_dlog c (chan_dst k))) = length (sel k (cl_tlog c (chan_src k)))"
proof -
  let ?i = "chan_src k" and ?j = "chan_dst k"
  let ?D = "sel k (cl_dlog c ?j)" and ?T = "sel k (cl_tlog c ?i)"
  let ?S = "sel k (sposts ?i (cl_done c ?i))" and ?R = "sel k (rposts ?j (cl_done c ?j))"
  have ok: "prefix ?T ?S" "length ?D \<le> length ?T" "length ?T \<le> length ?R"
    using inv unfolding cluster_inv_def logs_ok_def chan_ok_def by blast+
  have P: "P ?i = cl_done c ?i @ cl_prog c ?i" "P ?j = cl_done c ?j @ cl_prog c ?j"
    using inv k unfolding cluster_inv_def prefix_of_def programs_def by metis+
  have "snd (snd (snd (?T ! d))) = snd (snd (snd (?R ! d)))" if d: "d < length ?T" for d
  proof -
    have "lens (?S @ sel k (sposts ?i (cl_prog c ?i))) ! d = lens (?R @ sel k (rposts ?j (cl_prog c ?j))) ! d"
      using matched_lens [OF wm k] by (simp add: P)
    moreover have "d < length ?S" "d < length ?R" "?S ! d = ?T ! d"
      using d ok by (auto simp: prefix_def nth_append)
    ultimately show ?thesis by (simp add: lens_def nth_append)
  qed
  then show eq: "length ?D = length ?T"
    using quiet(2) ok(2,3) by (cases "length ?D < length ?T") (simp_all add: Let_def)
  from quiet(1) have "\<not> (length ?T < length ?S \<and> length ?T < length ?R)" by (simp add: Let_def split: if_splits)
  with eq show "min (length ?S) (length ?R) \<le> length ?D" by linarith
qed

lemma sel_prefix: "prefix p q \<Longrightarrow> prefix (sel k (sposts r p)) (sel k (sposts r q)) \<and> prefix (sel k (rposts r p)) (sel k (rposts r q))"
  by (auto simp: prefix_def)

text \<open>
  When all ranks have executed the first \<open>k\<close> rounds and the network is quiet, all operations
  of these rounds are complete.
\<close>

lemma quiet_rounds:
  assumes inv: "cluster_inv (programs n (rounds S m)) c" and ok: "rounds_ok n m S" and "k \<le> m"
    and prev: "\<forall>r < n. prefix (rounds S k r) (cl_done c r)"
    and quiet: "\<And>h. cluster_do (Transmit h) c = None \<and> cluster_do (Deliver h) c = None" and r: "r < n"
  shows "length (bsel b (sposts r (rounds S k r))) \<le> length (bsel b (cl_tlog c r))"
    and "length (bsel b (rposts r (rounds S k r))) \<le> length (bsel b (cl_dlog c r))"
proof -
  have wm: "well_matched n (rounds S m)" "well_matched n (rounds S k)"
    using ok \<open>k \<le> m\<close> by (auto intro!: matched_rounds simp: rounds_ok_def)
  have ad: "addressed n r' (rounds S k r')" if "r' < n" for r'
    using that ok \<open>k \<le> m\<close> by (intro addressed_rounds) (simp add: rounds_ok_def)
  have chan: "chan_ok c h" for h using inv unfolding cluster_inv_def logs_ok_def by blast
  have complete: "length (sel h (sposts (chan_src h) (rounds S k (chan_src h)))) \<le> length (sel h (cl_dlog c (chan_dst h)))"
    "length (sel h (rposts (chan_dst h) (rounds S k (chan_dst h)))) \<le> length (sel h (cl_dlog c (chan_dst h)))"
    "length (sel h (cl_dlog c (chan_dst h))) = length (sel h (cl_tlog c (chan_src h)))"
    if h: "chan_src h < n" "chan_dst h < n" for h
  proof -
    note Q = quiet_channel [OF inv wm(1) h, OF quiet [of h, THEN conjunct1] quiet [of h, THEN conjunct2]]
    have "length (sel h (sposts (chan_src h) (rounds S k (chan_src h)))) = length (sel h (rposts (chan_dst h) (rounds S k (chan_dst h))))"
      using arg_cong [OF matched_lens [OF wm(2) h], of length] by (simp add: lens_def)
    moreover have "length (sel h (sposts (chan_src h) (rounds S k (chan_src h)))) \<le> length (sel h (sposts (chan_src h) (cl_done c (chan_src h))))"
      "length (sel h (rposts (chan_dst h) (rounds S k (chan_dst h)))) \<le> length (sel h (rposts (chan_dst h) (cl_done c (chan_dst h))))"
      using sel_prefix prev h by (blast intro: prefix_length_le)+
    ultimately show "length (sel h (sposts (chan_src h) (rounds S k (chan_src h)))) \<le> length (sel h (cl_dlog c (chan_dst h)))"
      "length (sel h (rposts (chan_dst h) (rounds S k (chan_dst h)))) \<le> length (sel h (cl_dlog c (chan_dst h)))"
      "length (sel h (cl_dlog c (chan_dst h))) = length (sel h (cl_tlog c (chan_src h)))"
      using Q by linarith+
  qed
  have "prefix (sel h (sposts r (rounds S k r))) (sel h (cl_tlog c r))" for h
  proof (cases "sel h (sposts r (rounds S k r)) = []")
    case False
    then obtain x where "x \<in> set (sposts r (rounds S k r))" "fst x = h" using sel_nonempty by metis
    then have h: "chan_src h = r" "chan_dst h < n" using sposts_src [of x] ad [OF r] unfolding addressed_def by blast+
    show ?thesis
    proof (rule prefix_length_prefix)
      show "prefix (sel h (sposts r (rounds S k r))) (sel h (sposts r (cl_done c r)))" using sel_prefix prev r by blast
      show "prefix (sel h (cl_tlog c r)) (sel h (sposts r (cl_done c r)))" using chan [of h] h by (simp add: chan_ok_def)
      show "length (sel h (sposts r (rounds S k r))) \<le> length (sel h (cl_tlog c r))" using complete [of h] h r by simp
    qed
  qed simp
  then show "length (bsel b (sposts r (rounds S k r))) \<le> length (bsel b (cl_tlog c r))" by (rule prefix_lengths(3))
  have "prefix (sel h (rposts r (rounds S k r))) (sel h (cl_dlog c r))" for h
  proof (cases "sel h (rposts r (rounds S k r)) = []")
    case False
    then obtain x where "x \<in> set (rposts r (rounds S k r))" "fst x = h" using sel_nonempty by metis
    then have h: "chan_dst h = r" "chan_src h < n" using rposts_dst [of x] ad [OF r] unfolding addressed_def by blast+
    show ?thesis
    proof (rule prefix_length_prefix)
      show "prefix (sel h (rposts r (rounds S k r))) (sel h (rposts r (cl_done c r)))" using sel_prefix prev r by blast
      show "prefix (sel h (cl_dlog c r)) (sel h (rposts r (cl_done c r)))" using chan [of h] h by (simp add: chan_ok_def)
      show "length (sel h (rposts r (rounds S k r))) \<le> length (sel h (cl_dlog c r))" using complete [of h] h r by simp
    qed
  qed simp
  then show "length (bsel b (rposts r (rounds S k r))) \<le> length (bsel b (cl_dlog c r))" by (rule prefix_lengths(3))
qed

text \<open>The first rank that has not finished the earliest unfinished round can go on.\<close>

lemma behind_round:
  assumes "P = cl_done c r @ cl_prog c r" "prefix (R @ T) P" "prefix R (cl_done c r)" "\<not> prefix (R @ T) (cl_done c r)"
  obtains pre x suf rest where "T = pre @ x # suf" "cl_done c r = R @ pre" "cl_prog c r = x # rest"
proof -
  from assms(3) obtain pre where pre: "cl_done c r = R @ pre" by (auto simp: prefix_def)
  from assms(1,2) obtain z where z: "cl_done c r @ cl_prog c r = R @ T @ z" by (auto simp: prefix_def)
  with pre have "pre @ cl_prog c r = T @ z" by simp
  then obtain us where "pre = T @ us \<and> us @ cl_prog c r = z \<or> pre @ us = T \<and> cl_prog c r = us @ z"
    by (auto simp: append_eq_append_conv2)
  with assms(4) pre have us: "T = pre @ us" "cl_prog c r = us @ z" by (auto simp: prefix_def)
  with assms(4) pre have "us \<noteq> []" by auto
  then obtain x suf where "us = x # suf" by (cases us) auto
  with us pre that show ?thesis by simp
qed

lemma round_frontier:
  assumes "Q 0" "\<not> Q m"
  obtains k where "k < m" "Q k" "\<not> Q (Suc k)"
  using assms by (induction m) (auto simp: less_Suc_eq)

lemma no_deadlock:
  assumes inv: "cluster_inv (programs n (rounds S m)) c" and ok: "rounds_ok n m S" and "\<not> finished c"
  shows "\<exists>a c'. cluster_do a c = Some c'"
proof (rule ccontr)
  assume "\<nexists>a c'. cluster_do a c = Some c'"
  then have stuck: "cluster_do a c = None" for a by auto
  have P: "rounds S m r = cl_done c r @ cl_prog c r" if "r < n" for r
    using inv that unfolding cluster_inv_def prefix_of_def programs_def by metis
  have idle: "cl_prog c r = []" if "\<not> r < n" for r
    using inv that unfolding cluster_inv_def prefix_of_def programs_def by (metis append_is_Nil_conv)
  have "\<not> (\<forall>r < n. prefix (rounds S m r) (cl_done c r))"
  proof
    assume all: "\<forall>r < n. prefix (rounds S m r) (cl_done c r)"
    have "cl_prog c r = []" for r
    proof (cases "r < n")
      case True
      then have "prefix (cl_done c r @ cl_prog c r) (cl_done c r)" using all P by metis
      then show ?thesis by (auto simp: prefix_def)
    qed (rule idle)
    with assms(3) show False by (simp add: finished_def)
  qed
  then obtain k where k: "k < m" and prev: "\<forall>r < n. prefix (rounds S k r) (cl_done c r)"
    and behind: "\<not> (\<forall>r < n. prefix (rounds S (Suc k) r) (cl_done c r))"
    using round_frontier [of "\<lambda>k. \<forall>r < n. prefix (rounds S k r) (cl_done c r)" m] by (auto simp: rounds_def)
  from behind obtain r where r: "r < n" and not: "\<not> prefix (rounds S k r @ S r k) (cl_done c r)" by (auto simp: rounds_Suc)
  have pre_m: "prefix (rounds S k r @ S r k) (rounds S m r)" using rounds_prefix [of "Suc k" m S r] k by (simp add: rounds_Suc)
  obtain pre x suf rest where x: "S r k = pre @ x # suf" "cl_done c r = rounds S k r @ pre" "cl_prog c r = x # rest"
    using behind_round [OF P [OF r] pre_m _ not] prev r by blast
  have "\<not> can_run c r x" using stuck [of "Local r"] x(3) by (auto split: if_splits)
  moreover have "can_run c r x"
  proof -
    note Q = quiet_rounds [OF inv ok less_imp_le [OF k] prev _ r]
    have W: "int (wsend b (S r k)) \<le> fst (pending b (rounds S k r))" "int (wrecv b (S r k)) \<le> snd (pending b (rounds S k r))" for b
      using ok k r by (auto simp: rounds_ok_def)
    show ?thesis
    proof (cases x)
      case (WaitSend b)
      then show ?thesis using W(1) [of b] Q(1) [of b] stuck x by (simp add: pending_posts(1) [of _ _ r])
    next
      case (WaitRecv b)
      then show ?thesis using W(2) [of b] Q(2) [of b] stuck x by (simp add: pending_posts(2) [of _ _ r])
    qed simp_all
  qed
  ultimately show False by simp
qed

section \<open>Every run ends\<close>

definition weight :: "cluster \<Rightarrow> nat \<Rightarrow> nat" where
  "weight c r = length (cl_done c r) + length (cl_tlog c r) + length (cl_dlog c r)"

definition total_work :: "nat \<Rightarrow> (nat \<Rightarrow> program) \<Rightarrow> nat" where
  "total_work n P = (\<Sum>r < n. length (P r) + length (sposts r (P r)) + length (rposts r (P r)))"

lemma sum_upd_Suc: "r < n \<Longrightarrow> sum (f(r := Suc (f r))) {..<n} = Suc (sum f {..<n :: nat})"
proof (induction n)
  case (Suc n)
  then show ?case
  proof (cases "r = n")
    case True
    then have "sum (f(r := Suc (f r))) {..<n} = sum f {..<n}" by (intro sum.cong) auto
    with True show ?thesis by simp
  qed (simp add: less_Suc_eq)
qed simp

lemma do_weight:
  assumes "cluster_do a c = Some c'" "cluster_inv (programs n P) c"
  shows "\<exists>r < n. weight c' = (weight c)(r := Suc (weight c r))"
proof -
  have idle: "cl_done c r = []" "cl_prog c r = []" if "\<not> r < n" for r
    using assms(2) that unfolding cluster_inv_def prefix_of_def programs_def by (metis append_is_Nil_conv)+
  show ?thesis
  proof (cases a)
    case (Local r)
    with assms(1) have "r < n" using idle(2) by (cases "r < n") auto
    with Local assms(1) show ?thesis
      by (intro exI [of _ r]) (auto simp: weight_def fun_eq_iff split: list.splits if_splits)
  next
    case (Transmit k)
    with assms(1) have "chan_src k < n" using idle(1) by (cases "chan_src k < n") (auto simp: Let_def)
    with Transmit assms(1) show ?thesis
      by (intro exI [of _ "chan_src k"]) (auto simp: weight_def fun_eq_iff Let_def split: if_splits)
  next
    case (Deliver k)
    with assms(1) have "chan_dst k < n" using idle(1) by (cases "chan_dst k < n") (auto simp: Let_def)
    with Deliver assms(1) show ?thesis
      by (intro exI [of _ "chan_dst k"]) (auto simp: weight_def fun_eq_iff Let_def split: if_splits)
  qed
qed

lemma run_weight:
  assumes "cluster_run as c = Some c'" "cluster_inv (programs n P) c"
  shows "sum (weight c') {..<n} = length as + sum (weight c) {..<n}"
  using assms
proof (induction as arbitrary: c)
  case (Cons a as)
  then obtain c1 where c1: "cluster_do a c = Some c1" "cluster_run as c1 = Some c'" by (auto split: option.splits)
  with Cons do_weight [OF c1(1) Cons.prems(2)] show ?case
    using cluster_do_inv [OF c1(1) Cons.prems(2)] sum_upd_Suc by fastforce
qed simp

lemma logs_bound:
  assumes "cluster_inv P c"
  shows "length (cl_tlog c r) \<le> length (sposts r (P r))" "length (cl_dlog c r) \<le> length (rposts r (P r))"
proof -
  have P: "prefix (cl_done c r) (P r)" using assms unfolding cluster_inv_def prefix_of_def by simp
  have chan: "chan_ok c k" for k using assms unfolding cluster_inv_def logs_ok_def by blast
  have own: "\<forall>x \<in> set (cl_tlog c r). chan_src (fst x) = r" "\<forall>x \<in> set (cl_dlog c r). chan_dst (fst x) = r"
    using assms unfolding cluster_inv_def logs_own_def by blast+
  have "prefix (sel k (cl_tlog c r)) (sel k (sposts r (P r)))" for k
  proof (cases "chan_src k = r")
    case True
    then show ?thesis using chan [of k] sel_prefix [OF P, of k r] prefix_order.trans by (auto simp: chan_ok_def)
  next
    case False
    then have "sel k (cl_tlog c r) = []" using own(1) sel_nonempty [of k "cl_tlog c r"] by blast
    then show ?thesis by simp
  qed
  then show "length (cl_tlog c r) \<le> length (sposts r (P r))" by (rule prefix_lengths(1))
  have "prefix (sel k (cl_dlog c r)) (sel k (rposts r (P r)))" for k
  proof (cases "chan_dst k = r")
    case True
    then show ?thesis using chan [of k] sel_prefix [OF P, of k r] prefix_order.trans by (auto simp: chan_ok_def)
  next
    case False
    then have "sel k (cl_dlog c r) = []" using own(2) sel_nonempty [of k "cl_dlog c r"] by blast
    then show ?thesis by simp
  qed
  then show "length (cl_dlog c r) \<le> length (rposts r (P r))" by (rule prefix_lengths(1))
qed

lemma run_bounded:
  assumes "cluster_run as (cluster_init (programs n P)) = Some c"
  shows "length as \<le> total_work n P"
proof -
  have inv: "cluster_inv (programs n P) c" using cluster_run_inv [OF assms cluster_inv_init] .
  have "length as = sum (weight c) {..<n}"
    using run_weight [OF assms cluster_inv_init] by (simp add: weight_def cluster_init_def)
  also have "\<dots> \<le> total_work n P"
    unfolding total_work_def
  proof (rule sum_mono)
    fix r assume "r \<in> {..<n}"
    then have P: "P r = cl_done c r @ cl_prog c r"
      using inv unfolding cluster_inv_def prefix_of_def programs_def by (metis lessThan_iff)
    then show "weight c r \<le> length (P r) + length (sposts r (P r)) + length (rposts r (P r))"
      using logs_bound [OF inv, of r] \<open>r \<in> {..<n}\<close> unfolding programs_def weight_def by (auto simp: programs_def)
  qed
  finally show ?thesis .
qed

lemma cluster_run_append: "cluster_run as c = Some c1 \<Longrightarrow> cluster_run bs c1 = Some c2 \<Longrightarrow> cluster_run (as @ bs) c = Some c2"
  by (induction as arbitrary: c) (auto split: option.splits)

lemma rounds_complete:
  assumes "rounds_ok n m S" "cluster_run as (cluster_init (programs n (rounds S m))) = Some c"
  shows "\<exists>bs c'. cluster_run bs c = Some c' \<and> finished c'"
  using assms(2)
proof (induction "total_work n (rounds S m) - length as" arbitrary: as c rule: less_induct)
  case less
  note inv = cluster_run_inv [OF less.prems cluster_inv_init]
  show ?case
  proof (cases "finished c")
    case True
    then show ?thesis by (intro exI [of _ "[]"]) simp
  next
    case False
    from no_deadlock [OF inv assms(1) False] obtain a c1 where a: "cluster_do a c = Some c1" by blast
    then have run: "cluster_run (as @ [a]) (cluster_init (programs n (rounds S m))) = Some c1"
      using cluster_run_append [OF less.prems, of "[a]"] by simp
    have "total_work n (rounds S m) - length (as @ [a]) < total_work n (rounds S m) - length as"
      using run_bounded [OF run] by simp
    from less.hyps [OF this run] obtain bs c' where "cluster_run bs c1 = Some c'" "finished c'" by blast
    with a show ?thesis by (intro exI [of _ "a # bs"]) auto
  qed
qed

end
