(* ===== verification/Gloo_Dataflow.thy ===== *)
theory Gloo_Dataflow
  imports Gloo_Async
begin

text \<open>
  The contents of the buffers along an asynchronous run. For collectives that only move data
  (no reduction) a static condition on the programs suffices: given the intended final contents
  \<open>T\<close> of every buffer, every region that is sent or copied is known to hold its intended
  contents when the command is issued, and matching sends and receives agree on them. Then no
  interleaving can write anything else, and a rank that has finished holds what it should.
\<close>

section \<open>Contents\<close>

text \<open>The memories of the ranks and the payloads that were transmitted and not yet delivered.\<close>

record 'a store =
  st_mem :: "nat \<Rightarrow> 'a mem"
  st_wire :: "chan \<Rightarrow> 'a list list"

definition set_buf :: "nat \<Rightarrow> bufid \<Rightarrow> 'a list \<Rightarrow> 'a store \<Rightarrow> 'a store" where
  "set_buf r b xs d = d\<lparr>st_mem := (st_mem d)(r := (st_mem d r)(b := xs))\<rparr>"

text \<open>
  The effect of an action. The parameter \<open>red\<close> is the reduction function: what it writes for
  \<open>n\<close> elements, given the bytes from the two inputs on.
\<close>

fun store_do :: "('a list \<Rightarrow> 'a list \<Rightarrow> nat \<Rightarrow> 'a list) \<Rightarrow> act \<Rightarrow> cluster \<Rightarrow> 'a store \<Rightarrow> 'a store" where
  "store_do red (Local r) c d =
     (case cl_prog c r of
        Memcpy b off b' off' n # _ \<Rightarrow> set_buf r b (write_at off (read_at off' n (st_mem d r b')) (st_mem d r b)) d
      | Reduce b off b1 off1 b2 off2 n # _ \<Rightarrow>
          set_buf r b (write_at off (red (drop off1 (st_mem d r b1)) (drop off2 (st_mem d r b2)) n) (st_mem d r b)) d
      | _ \<Rightarrow> d)"
| "store_do red (Transmit k) c d =
     (let i = chan_src k; (b, off, n) = snd (sel k (sposts i (cl_done c i)) ! length (sel k (cl_tlog c i)))
      in d\<lparr>st_wire := (st_wire d)(k := st_wire d k @ [read_at off n (st_mem d i b)])\<rparr>)"
| "store_do red (Deliver k) c d =
     (let j = chan_dst k; (b, off, n) = snd (sel k (rposts j (cl_done c j)) ! length (sel k (cl_dlog c j)))
      in (set_buf j b (write_at off (hd (st_wire d k)) (st_mem d j b)) d)
         \<lparr>st_wire := (st_wire d)(k := tl (st_wire d k))\<rparr>)"

fun exec :: "('a list \<Rightarrow> 'a list \<Rightarrow> nat \<Rightarrow> 'a list) \<Rightarrow> act list \<Rightarrow> cluster \<times> 'a store \<Rightarrow> (cluster \<times> 'a store) option" where
  "exec red [] cd = Some cd"
| "exec red (a # as) cd =
     (case cluster_do a (fst cd) of None \<Rightarrow> None | Some c \<Rightarrow> exec red as (c, store_do red a (fst cd) (snd cd)))"

definition exec_init :: "nat \<Rightarrow> (nat \<Rightarrow> program) \<Rightarrow> (nat \<Rightarrow> 'a mem) \<Rightarrow> cluster \<times> 'a store" where
  "exec_init n P M = (cluster_init (programs n P), \<lparr>st_mem = M, st_wire = (\<lambda>_. [])\<rparr>)"

lemma exec_cluster: "exec red as cd = Some cd' \<Longrightarrow> cluster_run as (fst cd) = Some (fst cd')"
  by (induction as arbitrary: cd) (auto split: option.splits)

lemma exec_total: "cluster_run as (fst cd) = Some c \<Longrightarrow> \<exists>d. exec red as cd = Some (c, d)"
proof (induction as arbitrary: cd)
  case (Cons a as)
  then obtain c1 where c1: "cluster_do a (fst cd) = Some c1" "cluster_run as c1 = Some c" by (auto split: option.splits)
  then show ?case using Cons.IH [of "(c1, store_do red a (fst cd) (snd cd))"] by simp
qed (metis exec.simps(1) cluster_run.simps(1) option.inject prod.collapse)

section \<open>Regions that hold their intended contents\<close>

definition span :: "region \<Rightarrow> nat set" where
  "span x = {fst (snd x)..<fst (snd x) + snd (snd x)}"

definition regions :: "bufid \<Rightarrow> (chan \<times> region) list \<Rightarrow> nat set" where
  "regions b xs = (\<Union>x \<in> set (bsel b xs). span (snd x))"

fun copy_span :: "bufid \<Rightarrow> cmd \<Rightarrow> nat set" where
  "copy_span b (Memcpy b' off _ _ n) = (if b' = b then {off..<off + n} else {})"
| "copy_span b _ = {}"

definition copied :: "bufid \<Rightarrow> program \<Rightarrow> nat set" where
  "copied b p = (\<Union>x \<in> set p. copy_span b x)"

text \<open>
  The receives into a buffer that are complete when a program has run: completions on one
  channel come in order, and as many completions as receives are all of them.
\<close>

definition surely :: "nat \<Rightarrow> bufid \<Rightarrow> program \<Rightarrow> (chan \<times> region) list" where
  "surely r b p =
     (let xs = bsel b (rposts r p); w = wrecv b p
      in if (\<forall>x \<in> set xs. fst x = fst (hd xs)) \<or> w = length xs then take w xs else [])"

definition avail :: "(bufid \<Rightarrow> nat set) \<Rightarrow> nat \<Rightarrow> bufid \<Rightarrow> program \<Rightarrow> nat set" where
  "avail V r b p = V b \<union> copied b p \<union> regions b (surely r b p)"

text \<open>The condition on one command after the commands \<open>p\<close>, for intended contents \<open>T\<close>.\<close>

fun flow :: "'a mem \<Rightarrow> (bufid \<Rightarrow> nat set) \<Rightarrow> nat \<Rightarrow> program \<Rightarrow> cmd \<Rightarrow> bool" where
  "flow T V r p (Send b dst s off n) \<longleftrightarrow> off + n \<le> length (T b) \<and> {off..<off + n} \<subseteq> avail V r b p"
| "flow T V r p (Recv b src s off n) \<longleftrightarrow> off + n \<le> length (T b)"
| "flow T V r p (Memcpy b off b' off' n) \<longleftrightarrow>
     off + n \<le> length (T b) \<and> off' + n \<le> length (T b') \<and> {off'..<off' + n} \<subseteq> avail V r b' p \<and>
     read_at off n (T b) = read_at off' n (T b')"
| "flow T V r p (Reduce b off b1 off1 b2 off2 n) \<longleftrightarrow> False"
| "flow T V r p _ \<longleftrightarrow> True"

fun flows :: "'a mem \<Rightarrow> (bufid \<Rightarrow> nat set) \<Rightarrow> nat \<Rightarrow> program \<Rightarrow> program \<Rightarrow> bool" where
  "flows T V r p [] \<longleftrightarrow> True"
| "flows T V r p (x # q) \<longleftrightarrow> flow T V r p x \<and> flows T V r (p @ [x]) q"

text \<open>Matching sends and receives agree on the intended contents.\<close>

definition agree :: "(nat \<Rightarrow> 'a mem) \<Rightarrow> chan \<Rightarrow> region \<Rightarrow> region \<Rightarrow> bool" where
  "agree T k x y \<longleftrightarrow> snd (snd x) = snd (snd y) \<and>
     read_at (fst (snd x)) (snd (snd x)) (T (chan_src k) (fst x)) = read_at (fst (snd y)) (snd (snd y)) (T (chan_dst k) (fst y))"

definition consistent :: "nat \<Rightarrow> (nat \<Rightarrow> 'a mem) \<Rightarrow> (nat \<Rightarrow> bufid \<Rightarrow> nat set) \<Rightarrow> (nat \<Rightarrow> program) \<Rightarrow> bool" where
  "consistent n T V P \<longleftrightarrow> (\<forall>r < n. flows (T r) (V r) r [] (P r)) \<and>
     (\<forall>k. chan_src k < n \<longrightarrow> chan_dst k < n \<longrightarrow>
       list_all2 (\<lambda>x y. agree T k (snd x) (snd y)) (sel k (sposts (chan_src k) (P (chan_src k)))) (sel k (rposts (chan_dst k) (P (chan_dst k)))))"

lemma flows_append: "flows T V r p (q1 @ q2) \<longleftrightarrow> flows T V r p q1 \<and> flows T V r (p @ q1) q2"
  by (induction q1 arbitrary: p) simp_all

lemma regions_append [simp]: "regions b (xs @ ys) = regions b xs \<union> regions b ys" "regions b [] = {}"
  by (auto simp: regions_def)

lemma copied_append [simp]:
  "copied b (p @ q) = copied b p \<union> copied b q" "copied b [] = {}" "copied b (x # p) = copy_span b x \<union> copied b p"
  by (auto simp: copied_def)

lemma regions_mono: "set xs \<subseteq> set ys \<Longrightarrow> regions b xs \<subseteq> regions b ys"
  by (auto simp: regions_def bsel_def)

lemma span_regions: "x \<in> set xs \<Longrightarrow> fst (snd x) = b \<Longrightarrow> span (snd x) \<subseteq> regions b xs"
  unfolding regions_def set_bsel by blast

section \<open>The completed receives\<close>

lemma bsel_sel: "bsel b (sel k xs) = sel k (bsel b xs)"
  by (simp add: bsel_def sel_def conj_commute)

lemma bsel_bsel [simp]: "bsel b (bsel b xs) = bsel b xs"
  by (simp add: bsel_def)

lemma sel_all: "\<forall>x \<in> set xs. fst x = k \<Longrightarrow> sel k xs = xs"
  by (simp add: sel_def)

lemma surely_complete:
  assumes pre: "\<And>k. prefix (sel k D) (sel k (rposts r p))" and w: "wrecv b p \<le> length (bsel b D)"
  shows "set (surely r b p) \<subseteq> set D"
proof -
  let ?R = "bsel b (rposts r p)" and ?D = "bsel b D" and ?w = "wrecv b p"
  have pb: "prefix (sel k ?D) (sel k ?R)" for k
    using pre [of k] unfolding bsel_sel [symmetric] by (auto simp: prefix_def)
  note sub = prefix_lengths [of ?D ?R, OF pb]
  have all: "set ?D \<subseteq> set D" unfolding set_bsel by blast
  show ?thesis
  proof (cases "?w = length ?R")
    case True
    have m: "mset ?D \<subseteq># mset ?R" by (rule prefix_mset [OF pb])
    have "size (mset ?R) \<le> size (mset ?D)" using w True by simp
    with m have "mset ?D = mset ?R" by (metis mset_subset_size not_le subset_mset.le_imp_less_or_eq)
    then have "set ?R = set ?D" by (metis mset_eq_setD)
    with True all show ?thesis by (simp add: surely_def Let_def)
  next
    case False
    show ?thesis
    proof (cases "\<forall>x \<in> set ?R. fst x = fst (hd ?R)")
      case True
      have "sel (fst (hd ?R)) ?R = ?R" by (rule sel_all [OF True])
      moreover have "sel (fst (hd ?R)) ?D = ?D" by (rule sel_all) (use True sub(2) in blast)
      ultimately have "prefix ?D ?R" using pb [of "fst (hd ?R)"] by simp
      then have "take ?w ?R = take ?w ?D" using w by (auto simp: prefix_def)
      moreover have "surely r b p = take ?w ?R" using True unfolding surely_def Let_def by simp
      ultimately show ?thesis using all set_take_subset [of ?w ?D] by simp
    next
      case F: False
      with False have "surely r b p = []" unfolding surely_def Let_def by (simp only: if_False simp_thms)
      then show ?thesis by simp
    qed
  qed
qed

section \<open>The contents along a run\<close>

definition valid :: "(nat \<Rightarrow> bufid \<Rightarrow> nat set) \<Rightarrow> cluster \<Rightarrow> nat \<Rightarrow> bufid \<Rightarrow> nat set" where
  "valid V c r b = V r b \<union> copied b (cl_done c r) \<union> regions b (cl_dlog c r)"

definition holds :: "(nat \<Rightarrow> 'a mem) \<Rightarrow> 'a store \<Rightarrow> nat \<Rightarrow> bufid \<Rightarrow> nat set \<Rightarrow> bool" where
  "holds T d r b A \<longleftrightarrow> length (st_mem d r b) = length (T r b) \<and> (\<forall>x \<in> A. x < length (T r b) \<longrightarrow> st_mem d r b ! x = T r b ! x)"

definition payload :: "(nat \<Rightarrow> 'a mem) \<Rightarrow> chan \<Rightarrow> chan \<times> region \<Rightarrow> 'a list" where
  "payload T k x = read_at (fst (snd (snd x))) (snd (snd (snd x))) (T (chan_src k) (fst (snd x)))"

definition wire_ok :: "(nat \<Rightarrow> 'a mem) \<Rightarrow> cluster \<Rightarrow> 'a store \<Rightarrow> chan \<Rightarrow> bool" where
  "wire_ok T c d k \<longleftrightarrow>
     st_wire d k = map (payload T k) (drop (length (sel k (cl_dlog c (chan_dst k)))) (sel k (cl_tlog c (chan_src k))))"

definition data_inv :: "(nat \<Rightarrow> 'a mem) \<Rightarrow> (nat \<Rightarrow> bufid \<Rightarrow> nat set) \<Rightarrow> cluster \<Rightarrow> 'a store \<Rightarrow> bool" where
  "data_inv T V c d \<longleftrightarrow>
     (\<forall>r b. holds T d r b (valid V c r b)) \<and>
     (\<forall>r. \<forall>x \<in> set (sposts r (cl_done c r)). span (snd x) \<subseteq> valid V c r (fst (snd x)) \<and>
        fst (snd (snd x)) + snd (snd (snd x)) \<le> length (T r (fst (snd x)))) \<and>
     (\<forall>k. wire_ok T c d k)"

lemma data_invD:
  assumes "data_inv T V c d"
  shows "holds T d r b (valid V c r b)" "wire_ok T c d k"
    and "x \<in> set (sposts r (cl_done c r)) \<Longrightarrow> span (snd x) \<subseteq> valid V c r (fst (snd x)) \<and>
      fst (snd (snd x)) + snd (snd (snd x)) \<le> length (T r (fst (snd x)))"
  using assms unfolding data_inv_def by blast+

lemma data_invI:
  assumes "\<And>r b. holds T d r b (valid V c r b)" "\<And>k. wire_ok T c d k"
    and "\<And>r x. x \<in> set (sposts r (cl_done c r)) \<Longrightarrow> span (snd x) \<subseteq> valid V c r (fst (snd x)) \<and>
      fst (snd (snd x)) + snd (snd (snd x)) \<le> length (T r (fst (snd x)))"
  shows "data_inv T V c d"
  using assms unfolding data_inv_def by blast

lemma holds_read:
  assumes "holds T d r b A" "{off..<off + n} \<subseteq> A" "off + n \<le> length (T r b)"
  shows "read_at off n (st_mem d r b) = read_at off n (T r b)"
  using assms by (intro nth_equalityI) (auto simp: holds_def length_read_at nth_read_at subset_iff)

lemma holds_write:
  assumes "holds T d r b A" "off + n \<le> length (T r b)" "xs = read_at off n (T r b)"
  shows "holds T (set_buf r b (write_at off xs (st_mem d r b)) d) r b (A \<union> {off..<off + n})"
proof -
  have len: "length xs = n" using assms(2,3) by (simp add: length_read_at)
  have "write_at off xs (st_mem d r b) ! x = T r b ! x" if "x \<in> A \<union> {off..<off + n}" "x < length (T r b)" for x
    using assms that len by (auto simp: holds_def nth_write_at nth_read_at)
  then show ?thesis using assms len by (auto simp: holds_def set_buf_def length_write_at)
qed

lemma holds_other: "r' \<noteq> r \<or> b' \<noteq> b \<Longrightarrow> holds T (set_buf r b xs d) r' b' A = holds T d r' b' A"
  by (auto simp: holds_def set_buf_def)

lemma holds_wire [simp]: "holds T (d\<lparr>st_wire := w\<rparr>) r b A = holds T d r b A"
  by (simp add: holds_def)

lemma avail_valid:
  assumes "cluster_inv P c"
  shows "avail (V r) r b (cl_done c r) \<subseteq> valid V c r b"
proof -
  have chan: "chan_ok c k" for k using assms unfolding cluster_inv_def logs_ok_def by blast
  have own: "\<forall>x \<in> set (cl_dlog c r). chan_dst (fst x) = r" using assms unfolding cluster_inv_def logs_own_def by blast
  have "prefix (sel k (cl_dlog c r)) (sel k (rposts r (cl_done c r)))" for k
  proof (cases "chan_dst k = r")
    case True
    then show ?thesis using chan [of k] by (auto simp: chan_ok_def)
  next
    case False
    then have "sel k (cl_dlog c r) = []" using own sel_nonempty [of k "cl_dlog c r"] by blast
    then show ?thesis by simp
  qed
  moreover have "wrecv b (cl_done c r) \<le> length (bsel b (cl_dlog c r))" using assms by (simp add: cluster_inv_def waits_ok_def)
  ultimately have "set (surely r b (cl_done c r)) \<subseteq> set (cl_dlog c r)" by (rule surely_complete)
  then have "regions b (surely r b (cl_done c r)) \<subseteq> regions b (cl_dlog c r)" by (rule regions_mono)
  then show ?thesis by (auto simp: avail_def valid_def)
qed

lemma next_flow:
  assumes "cluster_inv (programs n P) c" "consistent n T V P" "cl_prog c r = x # p"
  shows "flow (T r) (V r) r (cl_done c r) x" "r < n"
proof -
  have eq: "programs n P r = cl_done c r @ x # p"
    using assms(1,3) unfolding cluster_inv_def prefix_of_def by metis
  then show r: "r < n" by (cases "r < n") (simp_all add: programs_def)
  then have "flows (T r) (V r) r [] (cl_done c r @ x # p)" using assms(2) eq by (metis consistent_def programs_def)
  then show "flow (T r) (V r) r (cl_done c r) x" by (simp add: flows_append)
qed

lemma local_data_inv:
  assumes "cluster_do (Local r) c = Some c'" "cluster_inv (programs n P) c" "consistent n T V P" "data_inv T V c d"
  shows "data_inv T V c' (store_do red (Local r) c d)"
proof -
  from assms(1) obtain x p where x: "cl_prog c r = x # p"
    and c': "c' = c\<lparr>cl_done := (cl_done c)(r := cl_done c r @ [x]), cl_prog := (cl_prog c)(r := p)\<rparr>"
    by (auto split: list.splits if_splits)
  note F = next_flow [OF assms(2,3) x]
  note av = avail_valid [OF assms(2), of V r]
  let ?d = "store_do red (Local r) c d"
  note H = data_invD(1) [OF assms(4)]
  have val: "valid V c' r' b = valid V c r' b \<union> (if r' = r then copy_span b x else {})" for r' b
    by (auto simp: valid_def c')
  have "holds T ?d r' b (valid V c' r' b)" for r' b
  proof (cases x)
    case (Memcpy b1 off b2 off2 m)
    have src: "read_at off2 m (st_mem d r b2) = read_at off m (T r b1)"
      using holds_read [OF H, of off2 m r b2] F av [of b2] by (auto simp: Memcpy)
    show ?thesis
    proof (cases "r' = r \<and> b = b1")
      case True
      have "?d = set_buf r b1 (write_at off (read_at off2 m (st_mem d r b2)) (st_mem d r b1)) d" by (simp add: x Memcpy)
      moreover have "holds T (set_buf r b1 (write_at off (read_at off2 m (st_mem d r b2)) (st_mem d r b1)) d) r b1 (valid V c r b1 \<union> {off..<off + m})"
        using F(1) src by (intro holds_write [OF H]) (auto simp: Memcpy)
      ultimately show ?thesis using True by (simp add: val Memcpy)
    next
      case False
      then show ?thesis using H [of r' b] by (auto simp: val x Memcpy holds_other)
    qed
  next
    case (Reduce b off b1 off1 b2 off2 m)
    with F show ?thesis by simp
  qed (use H in \<open>simp_all add: x val\<close>)
  moreover have "span (snd y) \<subseteq> valid V c' r' (fst (snd y)) \<and> fst (snd (snd y)) + snd (snd (snd y)) \<le> length (T r' (fst (snd y)))"
    if y: "y \<in> set (sposts r' (cl_done c' r'))" for r' y
  proof (cases "y \<in> set (sposts r' (cl_done c r'))")
    case True
    then show ?thesis using data_invD(3) [OF assms(4) True] by (auto simp: val)
  next
    case False
    with y have "r' = r" "y \<in> set (send_post r x)" by (auto simp: c' split: if_splits)
    with F(1) av show ?thesis by (cases x) (auto simp: val span_def)
  qed
  moreover have wire: "st_wire ?d = st_wire d" by (cases x) (simp_all add: x set_buf_def)
  moreover have "wire_ok T c' ?d k" for k using wire data_invD(2) [OF assms(4), of k] by (simp add: wire_ok_def c')
  ultimately show ?thesis by (intro data_invI) blast+
qed

lemma transmit_data_inv:
  assumes "cluster_do (Transmit k) c = Some c'" "cluster_inv (programs n P) c" "data_inv T V c d"
  shows "data_inv T V c' (store_do red (Transmit k) c d)"
proof -
  let ?i = "chan_src k"
  let ?x = "sel k (sposts ?i (cl_done c ?i)) ! length (sel k (cl_tlog c ?i))"
  obtain b off m where x: "snd ?x = (b, off, m)" by (cases "snd ?x")
  from assms(1) have len: "length (sel k (cl_tlog c ?i)) < length (sel k (sposts ?i (cl_done c ?i)))"
    and c': "c' = c\<lparr>cl_tlog := (cl_tlog c)(?i := cl_tlog c ?i @ [?x])\<rparr>"
    by (auto simp: Let_def split: if_splits)
  have xk: "fst ?x = k" "?x \<in> set (sposts ?i (cl_done c ?i))" using nth_sel [OF len] by auto
  have d': "store_do red (Transmit k) c d = d\<lparr>st_wire := (st_wire d)(k := st_wire d k @ [read_at off m (st_mem d ?i b)])\<rparr>"
    by (simp add: x Let_def)
  have "span (snd ?x) \<subseteq> valid V c ?i b \<and> off + m \<le> length (T ?i b)"
    using data_invD(3) [OF assms(3) xk(2)] x by simp
  then have pay: "read_at off m (st_mem d ?i b) = payload T k ?x"
    using holds_read [OF data_invD(1) [OF assms(3)], of off m ?i b] by (simp add: payload_def x span_def)
  have le: "length (sel k (cl_dlog c (chan_dst k))) \<le> length (sel k (cl_tlog c ?i))"
    using assms(2) unfolding cluster_inv_def logs_ok_def chan_ok_def by blast
  have val: "valid V c' = valid V c" by (simp add: valid_def c' fun_eq_iff)
  have "wire_ok T c' (store_do red (Transmit k) c d) k'" for k'
    using data_invD(2) [OF assms(3), of k'] le pay xk(1)
    unfolding d' by (cases "k' = k") (auto simp: wire_ok_def c')
  moreover have "holds T (store_do red (Transmit k) c d) r b (valid V c' r b)" for r b
    using data_invD(1) [OF assms(3)] unfolding d' by (simp add: val)
  moreover have "cl_done c' = cl_done c" by (simp add: c')
  ultimately show ?thesis using data_invD(3) [OF assms(3)] by (intro data_invI) (simp_all add: val)
qed

lemma deliver_data_inv:
  assumes "cluster_do (Deliver k) c = Some c'" "cluster_inv (programs n P) c" "consistent n T V P" "data_inv T V c d"
  shows "data_inv T V c' (store_do red (Deliver k) c d)"
proof -
  let ?i = "chan_src k" and ?j = "chan_dst k"
  let ?D = "sel k (cl_dlog c ?j)" and ?T = "sel k (cl_tlog c ?i)" and ?R = "sel k (rposts ?j (cl_done c ?j))"
  let ?m = "length ?D"
  obtain b off l where y: "snd (?R ! ?m) = (b, off, l)" by (cases "snd (?R ! ?m)")
  from assms(1) have len: "?m < length ?T" "?m < length ?R"
    and c': "c' = c\<lparr>cl_dlog := (cl_dlog c)(?j := cl_dlog c ?j @ [?R ! ?m])\<rparr>"
    by (auto simp: Let_def split: if_splits)
  have eq: "programs n P r = cl_done c r @ cl_prog c r" for r
    using assms(2) unfolding cluster_inv_def prefix_of_def by blast
  have preT: "prefix ?T (sel k (sposts ?i (cl_done c ?i)))"
    using assms(2) unfolding cluster_inv_def logs_ok_def chan_ok_def by blast
  have n: "?i < n" "?j < n"
    using len prefix_length_le [OF preT] eq [of ?i] eq [of ?j] by (auto simp: programs_def split: if_splits)
  have P: "P ?i = cl_done c ?i @ cl_prog c ?i" "P ?j = cl_done c ?j @ cl_prog c ?j"
    using eq [of ?i] eq [of ?j] n by (simp_all add: programs_def)
  have "list_all2 (\<lambda>x y. agree T k (snd x) (snd y)) (sel k (sposts ?i (P ?i))) (sel k (rposts ?j (P ?j)))"
    using assms(3) n unfolding consistent_def by blast
  moreover have "?m < length (sel k (sposts ?i (P ?i)))" using len prefix_length_le [OF preT] by (simp add: P)
  ultimately have "agree T k (snd (sel k (sposts ?i (P ?i)) ! ?m)) (snd (sel k (rposts ?j (P ?j)) ! ?m))"
    by (rule list_all2_nthD)
  moreover have "sel k (sposts ?i (P ?i)) ! ?m = ?T ! ?m" "sel k (rposts ?j (P ?j)) ! ?m = ?R ! ?m"
    using len preT P by (auto simp: nth_append prefix_def)
  ultimately have pay: "payload T k (?T ! ?m) = read_at off l (T ?j b)"
    unfolding payload_def using y by (auto simp: agree_def)
  have wire: "st_wire d k = payload T k (?T ! ?m) # map (payload T k) (drop (Suc ?m) ?T)"
    using data_invD(2) [OF assms(4), of k] len by (simp add: wire_ok_def Cons_nth_drop_Suc [symmetric])
  have y_in: "fst (?R ! ?m) = k" "?R ! ?m \<in> set (rposts ?j (cl_done c ?j))" using nth_sel [OF len(2)] by auto
  have bound: "off + l \<le> length (T ?j b)"
  proof -
    have "flows (T ?j) (V ?j) ?j [] (cl_done c ?j)"
      using assms(3) n P by (auto simp: consistent_def flows_append)
    moreover have "x \<in> set (rposts r q) \<Longrightarrow> flows (T r) (V r) r p q \<Longrightarrow>
        fst (snd (snd x)) + snd (snd (snd x)) \<le> length (T r (fst (snd x)))" for x r p q
    proof (induction q arbitrary: p)
      case (Cons a q)
      then show ?case by (cases a) auto
    qed simp
    ultimately show ?thesis using y_in(2) y by (metis fst_conv snd_conv)
  qed
  let ?d = "set_buf ?j b (write_at off (read_at off l (T ?j b)) (st_mem d ?j b)) d"
  have d': "store_do red (Deliver k) c d = ?d\<lparr>st_wire := (st_wire d)(k := tl (st_wire d k))\<rparr>"
    by (simp add: y Let_def wire pay)
  have val: "valid V c' r b' = valid V c r b' \<union> (if r = ?j \<and> b' = b then {off..<off + l} else {})" for r b'
    using y by (auto simp: valid_def c' regions_def span_def)
  note H = data_invD(1) [OF assms(4)]
  have "holds T ?d r b' (valid V c' r b')" for r b'
  proof (cases "r = ?j \<and> b' = b")
    case True
    then show ?thesis using holds_write [OF H, of off l ?j b] bound by (simp add: val)
  next
    case False
    then show ?thesis using H [of r b'] by (auto simp: val holds_other)
  qed
  then have "holds T (store_do red (Deliver k) c d) r b' (valid V c' r b')" for r b' unfolding d' by simp
  moreover have "wire_ok T c' (store_do red (Deliver k) c d) k'" for k'
    using data_invD(2) [OF assms(4), of k'] wire y_in(1) unfolding d' by (cases "k' = k") (auto simp: wire_ok_def c' set_buf_def)
  moreover have "span (snd x) \<subseteq> valid V c' r (fst (snd x)) \<and> fst (snd (snd x)) + snd (snd (snd x)) \<le> length (T r (fst (snd x)))"
    if "x \<in> set (sposts r (cl_done c' r))" for r x
    using data_invD(3) [OF assms(4), of x r] that unfolding val by (auto simp: c')
  ultimately show ?thesis by (intro data_invI)
qed

lemma data_inv_do:
  assumes "cluster_do a c = Some c'" "cluster_inv (programs n P) c" "consistent n T V P" "data_inv T V c d"
  shows "data_inv T V c' (store_do red a c d)"
proof (cases a)
  case (Local r)
  then show ?thesis using local_data_inv assms by blast
next
  case (Transmit k)
  then show ?thesis using transmit_data_inv assms by blast
next
  case (Deliver k)
  then show ?thesis using deliver_data_inv assms by blast
qed

lemma data_inv_exec:
  assumes "exec red as cd = Some cd'" "cluster_inv (programs n P) (fst cd)" "consistent n T V P" "data_inv T V (fst cd) (snd cd)"
  shows "data_inv T V (fst cd') (snd cd')"
  using assms
proof (induction as arbitrary: cd)
  case (Cons a as)
  then obtain c1 where c1: "cluster_do a (fst cd) = Some c1" "exec red as (c1, store_do red a (fst cd) (snd cd)) = Some cd'"
    by (auto split: option.splits)
  show ?case
    using Cons.IH [OF c1(2)] cluster_do_inv [OF c1(1) Cons.prems(2)] data_inv_do [OF c1(1) Cons.prems(2-4)] Cons.prems(3)
    by simp
qed simp

text \<open>
  A rank that has finished and waited for all its receives into a buffer holds the intended
  contents in what was valid from the start, what it copied and what it received.
\<close>

lemma finished_contents:
  assumes run: "exec red as (exec_init n P M) = Some (c, d)" and con: "consistent n T V P"
    and init: "\<And>r b. length (M r b) = length (T r b) \<and> (\<forall>x \<in> V r b. x < length (T r b) \<longrightarrow> M r b ! x = T r b ! x)"
    and fin: "cl_prog c r = []" and r: "r < n" and waited: "snd (pending b (P r)) = 0"
    and cover: "{..<length (T r b)} \<subseteq> V r b \<union> copied b (P r) \<union> regions b (rposts r (P r))"
  shows "st_mem d r b = T r b"
proof -
  have inv: "cluster_inv (programs n P) c"
    using cluster_run_inv [OF exec_cluster [OF run]] cluster_inv_init by (simp add: exec_init_def)
  have "data_inv T V (cluster_init (programs n P)) \<lparr>st_mem = M, st_wire = (\<lambda>_. [])\<rparr>"
    using init by (intro data_invI) (simp_all add: holds_def wire_ok_def valid_def cluster_init_def)
  then have "data_inv T V c d"
    using data_inv_exec [OF run _ con, of ] cluster_inv_init [of "programs n P"] by (simp add: exec_init_def)
  then have H: "holds T d r b (valid V c r b)" by (rule data_invD)
  have fin_done: "cl_done c r = P r"
    using inv fin r unfolding cluster_inv_def prefix_of_def programs_def by (metis append_Nil2)
  have "surely r b (P r) = bsel b (rposts r (P r))"
    using waited by (simp add: pending_posts(2) [of _ _ r] surely_def Let_def)
  then have "avail (V r) r b (cl_done c r) = V r b \<union> copied b (P r) \<union> regions b (rposts r (P r))"
    by (simp add: avail_def fin_done regions_def)
  with avail_valid [OF inv, of V r b] cover have "{..<length (T r b)} \<subseteq> valid V c r b" by blast
  with H show ?thesis by (intro nth_equalityI) (auto simp: holds_def subset_iff)
qed

section \<open>Claims about all runs\<close>

text \<open>
  No run is longer than a bound, and every run can be continued until all ranks have finished:
  the programs neither deadlock nor go on forever, whatever the interleaving.
\<close>

definition always_ends :: "nat \<Rightarrow> (nat \<Rightarrow> program) \<Rightarrow> bool" where
  "always_ends n P \<longleftrightarrow> (\<exists>N. \<forall>as c. cluster_run as (cluster_init (programs n P)) = Some c \<longrightarrow>
     length as \<le> N \<and> (\<exists>bs c'. cluster_run bs c = Some c' \<and> finished c'))"

text \<open>Whatever the interleaving, rank \<open>r\<close> holds \<open>xs\<close> in buffer \<open>b\<close> once it has finished.\<close>

definition always_yields :: "nat \<Rightarrow> (nat \<Rightarrow> program) \<Rightarrow> (nat \<Rightarrow> 'a mem) \<Rightarrow> nat \<Rightarrow> bufid \<Rightarrow> 'a list \<Rightarrow> bool" where
  "always_yields n P M r b xs \<longleftrightarrow> (\<forall>red as c d. exec red as (exec_init n P M) = Some (c, d) \<longrightarrow>
     cl_prog c r = [] \<longrightarrow> st_mem d r b = xs)"

lemma programs_cong: "\<forall>r < n. P r = Q r \<Longrightarrow> programs n P = programs n Q"
  by (auto simp: programs_def fun_eq_iff)

lemma always_endsI:
  assumes "rounds_ok n m S" "\<forall>r < n. P r = rounds S m r"
  shows "always_ends n P"
  unfolding always_ends_def programs_cong [OF assms(2)]
  using run_bounded rounds_complete [OF assms(1)] by blast

lemma always_yieldsI:
  assumes "consistent n T V P"
    and "\<And>r b. length (M r b) = length (T r b) \<and> (\<forall>x \<in> V r b. x < length (T r b) \<longrightarrow> M r b ! x = T r b ! x)"
    and "r < n" "snd (pending b (P r)) = 0"
    and "{..<length (T r b)} \<subseteq> V r b \<union> copied b (P r) \<union> regions b (rposts r (P r))"
  shows "always_yields n P M r b (T r b)"
  unfolding always_yields_def using finished_contents [OF _ assms(1,2) _ assms(3-5)] by blast

end
