(* ===== verification/Gloo_Allgather.thy ===== *)
theory Gloo_Allgather
  imports Gloo_Dataflow Gloo_Gather
begin

text \<open>
  The ring collectives \<open>gloo/allgather.cc\<close> and \<open>gloo/allgatherv.cc\<close>: every rank passes segments on
  to the next rank, the one it received before. The predicate \<open>pairs\<close> tells to which ranks the
  context has a pair.
\<close>

section \<open>Programs\<close>

definition ring_enforce :: "(nat \<Rightarrow> bool) \<Rightarrow> ctx \<Rightarrow> 'a result \<Rightarrow> 'a result" where
  "ring_enforce pairs c k =
     (let recvRank = (ctx_size c + ctx_rank c - 1) mod ctx_size c; sendRank = (ctx_size c + ctx_rank c + 1) mod ctx_size c
      in enforce (recvRank = ctx_rank c \<or> pairs recvRank) (enforce (sendRank = ctx_rank c \<or> pairs sendRank) k))"

text \<open>One iteration of the loop of \<open>allgather\<close>; the first two do not wait.\<close>

definition allgather_iter :: "64 word \<Rightarrow> ctx \<Rightarrow> nat \<Rightarrow> nat \<Rightarrow> nat \<Rightarrow> program" where
  "allgather_iter slot c inBytes outBytes i =
     (let recvRank = (ctx_size c + ctx_rank c - 1) mod ctx_size c;
          sendRank = (ctx_size c + ctx_rank c + 1) mod ctx_size c;
          chunkSize = (\<lambda>h. if h = 0 then inBytes div 2 else inBytes - inBytes div 2);
          chunkOffset = (\<lambda>h. if h = 0 then 0 else inBytes div 2);
          sendSegment = ctx_size c + ctx_rank c - i div 2;
          recvSegment = sendSegment - 1;
          sendOffset = u64_add (u64_mul sendSegment inBytes) (chunkOffset (i mod 2)) mod outBytes;
          recvOffset = u64_add (u64_mul recvSegment inBytes) (chunkOffset (i mod 2)) mod outBytes;
          sz = chunkSize (i mod 2)
      in (if i < 2 then [] else [WaitSend (Out 0), WaitRecv (Out 0)]) @
         [Send (Out 0) sendRank slot sendOffset sz, Recv (Out 0) recvRank slot recvOffset sz])"

definition allgather :: "(nat \<Rightarrow> bool) \<Rightarrow> nat \<Rightarrow> 32 word \<Rightarrow> nat option \<Rightarrow> nat \<Rightarrow> ctx \<Rightarrow> program result" where
  "allgather pairs elementSize tag insize outsize c =
     (let slot = slot_of kAllgatherSlotPrefix tag in
      enforce (elementSize > 0)
        (ring_enforce pairs c
          (enforce (case insize of Some isize \<Rightarrow> outsize = u64_mul isize (ctx_size c) | None \<Rightarrow> outsize mod ctx_size c = 0)
            (let inBytes = outsize div ctx_size c; outBytes = outsize;
                 prime = (case insize of Some isize \<Rightarrow> [Memcpy (Out 0) (ctx_rank c * isize) (In 0) 0 isize] | None \<Rightarrow> [])
             in if ctx_size c = 1 \<or> outBytes = 0 then Inr prime
                else Inr (prime @
                       concat (map (allgather_iter slot c inBytes outBytes) [0..<(ctx_size c - 1) * 2]) @
                       concat (replicate 2 [WaitSend (Out 0), WaitRecv (Out 0)]))))))"

text \<open>
  \<open>allgatherv\<close>: the byte counts and offsets of the segments, and the loop. The first check is that of
  \<open>setOutput\<close>.
\<close>

definition allgatherv_iter :: "64 word \<Rightarrow> ctx \<Rightarrow> (nat \<times> nat) list \<Rightarrow> nat \<Rightarrow> program" where
  "allgatherv_iter slot c segs i =
     (let recvRank = (ctx_size c + ctx_rank c - 1) mod ctx_size c;
          sendRank = (ctx_size c + ctx_rank c + 1) mod ctx_size c;
          baseIndex = ctx_size c + ctx_rank c;
          sendIndex = (baseIndex - i) mod ctx_size c;
          recvIndex = (baseIndex - i - 1) mod ctx_size c
      in (if i = 0 then [] else [WaitSend (Out 0), WaitRecv (Out 0)]) @
         [Send (Out 0) sendRank slot (fst (segs ! sendIndex)) (snd (segs ! sendIndex)),
          Recv (Out 0) recvRank slot (fst (segs ! recvIndex)) (snd (segs ! recvIndex))])"

definition allgatherv :: "(nat \<Rightarrow> bool) \<Rightarrow> nat \<Rightarrow> 32 word \<Rightarrow> nat option \<Rightarrow> nat list \<Rightarrow> ctx \<Rightarrow> program result" where
  "allgatherv pairs elementSize tag insize elements c =
     (let slot = slot_of kAllgatherSlotPrefix tag in
      enforce (length elements = ctx_size c)
      (enforce (elementSize > 0)
        (ring_enforce pairs c
          (let segs = splitOffsetsAndLengths elements elementSize 0;
               offset = fold (\<lambda>x. u64_add x) (map snd segs) 0;
               mine = segs ! ctx_rank c
           in rbind (case insize of
                  Some isize \<Rightarrow> enforce (snd mine = isize)
                    (Inr (if snd mine > 0 then [Memcpy (Out 0) (fst mine) (In 0) 0 isize] else []))
                | None \<Rightarrow> Inr [])
                (\<lambda>prime. if ctx_size c = 1 \<or> offset = 0 then Inr prime
                  else Inr (prime @
                         concat (map (allgatherv_iter slot c segs) [0..<ctx_size c - 1]) @
                         [WaitSend (Out 0), WaitRecv (Out 0)]))))))"

section \<open>The ring\<close>

text \<open>
  The common form of the two loops: segments in \<open>D\<close> parts each, \<open>reg s h\<close> being the place of part
  \<open>h\<close> of segment \<open>s\<close>, with \<open>D\<close> operations under way at a time.
\<close>

definition ring_iter :: "nat \<Rightarrow> nat \<Rightarrow> 64 word \<Rightarrow> (nat \<Rightarrow> nat \<Rightarrow> nat \<times> nat) \<Rightarrow> nat \<Rightarrow> nat \<Rightarrow> program" where
  "ring_iter D n slot reg r i =
     (let x = reg ((n + r - i div D) mod n) (i mod D); y = reg ((n + r - i div D - 1) mod n) (i mod D)
      in (if i < D then [] else [WaitSend (Out 0), WaitRecv (Out 0)]) @
         [Send (Out 0) ((n + r + 1) mod n) slot (fst x) (snd x), Recv (Out 0) ((n + r - 1) mod n) slot (fst y) (snd y)])"

definition ring_waits :: "nat \<Rightarrow> program" where
  "ring_waits D = concat (replicate D [WaitSend (Out 0), WaitRecv (Out 0)])"

definition ring_round :: "nat \<Rightarrow> nat \<Rightarrow> 64 word \<Rightarrow> (nat \<Rightarrow> nat \<Rightarrow> nat \<times> nat) \<Rightarrow> (nat \<Rightarrow> program) \<Rightarrow> nat \<Rightarrow> nat \<Rightarrow> program" where
  "ring_round D n slot reg pre r i =
     (if i = 0 then pre r @ ring_iter D n slot reg r 0
      else if i < (n - 1) * D then ring_iter D n slot reg r i else ring_waits D)"

definition ring_prog :: "nat \<Rightarrow> nat \<Rightarrow> 64 word \<Rightarrow> (nat \<Rightarrow> nat \<Rightarrow> nat \<times> nat) \<Rightarrow> (nat \<Rightarrow> program) \<Rightarrow> nat \<Rightarrow> program" where
  "ring_prog D n slot reg pre r = pre r @ concat (map (ring_iter D n slot reg r) [0..<(n - 1) * D]) @ ring_waits D"

text \<open>Commands that only compute.\<close>

fun is_local :: "cmd \<Rightarrow> bool" where
  "is_local (Memcpy b off b' off' n) = True"
| "is_local (Reduce b off b1 off1 b2 off2 n) = True"
| "is_local _ = False"

definition local_only :: "program \<Rightarrow> bool" where
  "local_only p \<longleftrightarrow> (\<forall>x \<in> set p. is_local x)"

lemma local_only_posts:
  assumes "local_only p"
  shows "sposts r p = []" "rposts r p = []" "wsend b p = 0" "wrecv b p = 0" "pending b p = (0, 0)" "sends j p = []" "recvs j p = []"
  using assms by (induction p) (auto simp: local_only_def elim!: is_local.elims)

lemma ring_rounds_eq:
  assumes "0 < k" "k \<le> (n - 1) * D"
  shows "rounds (ring_round D n slot reg pre) k r = pre r @ concat (map (ring_iter D n slot reg r) [0..<k])"
  using assms
proof (induction k)
  case (Suc k)
  then show ?case by (cases "k = 0") (simp_all add: rounds_Suc ring_round_def, simp add: rounds_def)
qed simp

lemma ring_rounds_prog:
  assumes "1 < n" "0 < D"
  shows "rounds (ring_round D n slot reg pre) (Suc ((n - 1) * D)) r = ring_prog D n slot reg pre r"
  using assms ring_rounds_eq [of "(n - 1) * D" n D slot reg pre r] by (simp add: rounds_Suc ring_prog_def ring_round_def)

lemma ring_waits_simps [simp]:
  "sposts r (ring_waits D) = []" "rposts r (ring_waits D) = []" "sends j (ring_waits D) = []" "recvs j (ring_waits D) = []"
  "wsend b (ring_waits D) = (if b = Out 0 then D else 0)" "wrecv b (ring_waits D) = (if b = Out 0 then D else 0)"
  "pending b (ring_waits D) = (if b = Out 0 then (- int D, - int D) else (0, 0))" "copied b (ring_waits D) = {}"
  by (induction D) (auto simp: ring_waits_def)

lemma ring_pending:
  assumes "local_only (pre r)" "0 < k" "k \<le> (n - 1) * D"
  shows "pending b (rounds (ring_round D n slot reg pre) k r) =
    (if b = Out 0 then (int (min k D), int (min k D)) else (0, 0))"
  unfolding ring_rounds_eq [OF assms(2,3)]
proof -
  have "pending b (concat (map (ring_iter D n slot reg r) [0..<k])) =
      (if b = Out 0 then (int (min k D), int (min k D)) else (0, 0))" for k
    by (induction k) (auto simp: ring_iter_def Let_def min_def)
  then show "pending b (pre r @ concat (map (ring_iter D n slot reg r) [0..<k])) =
      (if b = Out 0 then (int (min k D), int (min k D)) else (0, 0))"
    using local_only_posts(5) [OF assms(1), of b] by simp
qed

lemma ring_neighbours:
  fixes n :: nat
  assumes "i < n" "j < n" "1 < n" "t < n" "(n + i + 1) mod n = j"
  shows "(n + i - t) mod n = (n + j - t - 1) mod n"
proof -
  have "j = i + 1 \<or> j = 0 \<and> i + 1 = n" using assms by (auto simp: mod_if split: if_splits)
  then show ?thesis
  proof
    assume "j = 0 \<and> i + 1 = n"
    then have "n + i - t = n + (n + j - t - 1)" using assms(4) by linarith
    then show ?thesis by (metis mod_add_self1)
  qed simp
qed

lemma ring_iter_matched:
  assumes "i < n" "j < n" "1 < n" "t div D < n"
  shows "sends j (ring_iter D n slot reg i t) = recvs i (ring_iter D n slot reg j t)"
proof -
  have "(n + i + 1) mod n = j \<longleftrightarrow> (n + j - 1) mod n = i" using ring_shift [of i n j 1] assms by simp
  moreover have "(n + i - t div D) mod n = (n + j - t div D - 1) mod n" if "(n + i + 1) mod n = j"
    using ring_neighbours [OF assms(1-4) that] .
  ultimately show ?thesis by (auto simp: ring_iter_def Let_def)
qed

lemma ring_ok:
  assumes n: "1 < n" and D: "0 < D" and pre: "\<forall>r < n. local_only (pre r)"
  shows "rounds_ok n (Suc ((n - 1) * D)) (ring_round D n slot reg pre)"
  unfolding rounds_ok_def
proof (intro allI impI conjI)
  fix k assume k: "k < Suc ((n - 1) * D)"
  have M: "0 < (n - 1) * D" using n D by simp
  have div: "k div D < n" if "k < (n - 1) * D" using that D less_mult_imp_div_less [of k "n - 1" D] by linarith
  show "well_matched n (\<lambda>r. ring_round D n slot reg pre r k)"
    using ring_iter_matched [OF _ _ n, of _ _ k D slot reg] ring_iter_matched [OF _ _ n, of _ _ 0 D slot reg] n div pre
    unfolding well_matched_def ring_round_def by (auto simp: local_only_posts)
  fix r assume r: "r < n"
  have pr: "local_only (pre r)" using pre r by simp
  show "addressed n r (ring_round D n slot reg pre r k)"
    using n local_only_posts [OF pr] by (auto simp: addressed_def ring_round_def ring_iter_def Let_def)
  fix b
  have "int (wsend b (ring_round D n slot reg pre r k)) \<le> fst (pending b (rounds (ring_round D n slot reg pre) k r)) \<and>
      int (wrecv b (ring_round D n slot reg pre r k)) \<le> snd (pending b (rounds (ring_round D n slot reg pre) k r))"
  proof (cases "k = 0")
    case True
    then show ?thesis using local_only_posts [OF pr] D by (simp add: ring_round_def ring_iter_def rounds_def Let_def)
  next
    case False
    have le: "D \<le> (n - 1) * D" using n mult_le_mono1 [of 1 "n - 1" D] by linarith
    then have "k < (n - 1) * D \<or> k = (n - 1) * D \<and> D \<le> k" using k by linarith
    then show ?thesis
      using False D ring_pending [of pre r k n D b slot reg] pr
      by (elim disjE) (auto simp: ring_round_def ring_iter_def Let_def min_def)
  qed
  then show "int (wsend b (ring_round D n slot reg pre r k)) \<le> fst (pending b (rounds (ring_round D n slot reg pre) k r))"
    "int (wrecv b (ring_round D n slot reg pre r k)) \<le> snd (pending b (rounds (ring_round D n slot reg pre) k r))" by auto
qed

section \<open>The contents after the ring\<close>

text \<open>The receives that the first \<open>k\<close> iterations post.\<close>

definition ring_recv :: "nat \<Rightarrow> nat \<Rightarrow> 64 word \<Rightarrow> (nat \<Rightarrow> nat \<Rightarrow> nat \<times> nat) \<Rightarrow> nat \<Rightarrow> nat \<Rightarrow> chan \<times> region" where
  "ring_recv D n slot reg r i =
     (((n + r - 1) mod n, r, slot), Out 0, reg ((n + r - i div D - 1) mod n) (i mod D))"

lemma ring_rposts:
  "rposts r (concat (map (ring_iter D n slot reg r) [0..<k])) = map (ring_recv D n slot reg r) [0..<k]"
  "wrecv (Out 0) (concat (map (ring_iter D n slot reg r) [0..<k])) = k - D"
  by (induction k) (auto simp: ring_iter_def ring_recv_def Let_def)

lemma ring_sposts:
  "sposts r (concat (map (ring_iter D n slot reg r) [0..<k])) =
     map (\<lambda>i. ((r, (n + r + 1) mod n, slot), Out 0, reg ((n + r - i div D) mod n) (i mod D))) [0..<k]"
  by (induction k) (auto simp: ring_iter_def Let_def)

lemma bsel_ring_recv: "bsel (Out 0) (map (ring_recv D n slot reg r) xs) = map (ring_recv D n slot reg r) xs"
  by (induction xs) (simp_all add: ring_recv_def)

text \<open>Before the send of an iteration the parts received up to \<open>D\<close> iterations ago are complete.\<close>

lemma ring_surely:
  assumes "local_only p" "0 < D" "w = (if k < D then [] else [WaitSend (Out 0), WaitRecv (Out 0)])"
  shows "surely r (Out 0) (p @ concat (map (ring_iter D n slot reg r) [0..<k]) @ w) =
    map (ring_recv D n slot reg r) [0..<Suc k - D]"
proof -
  let ?q = "p @ concat (map (ring_iter D n slot reg r) [0..<k]) @ w"
  have R: "bsel (Out 0) (rposts r ?q) = map (ring_recv D n slot reg r) [0..<k]"
    using assms local_only_posts(2) [OF assms(1), of r] by (simp add: ring_rposts bsel_ring_recv)
  have w: "wrecv (Out 0) ?q = Suc k - D"
    using assms local_only_posts(4) [OF assms(1), of "Out 0"] by (simp add: ring_rposts Suc_diff_le)
  have same: "fst x = fst (hd (map (ring_recv D n slot reg r) [0..<k]))" if "x \<in> set (map (ring_recv D n slot reg r) [0..<k])" for x
    using that by (cases k) (auto simp: ring_recv_def upt_conv_Cons simp del: upt_Suc)
  then show ?thesis
    unfolding surely_def R w Let_def using assms(2) by (auto simp: take_map min_def)
qed

definition ring_V :: "nat \<Rightarrow> (nat \<Rightarrow> nat set) \<Rightarrow> nat \<Rightarrow> bufid \<Rightarrow> nat set" where
  "ring_V n own r b = (if r < n \<and> b = Out 0 then own r else UNIV)"

definition ring_T :: "nat \<Rightarrow> (nat \<Rightarrow> 'a mem) \<Rightarrow> 'a list \<Rightarrow> nat \<Rightarrow> 'a mem" where
  "ring_T n M tt r b = (if r < n \<and> b = Out 0 then tt else M r b)"

lemma flows_ring:
  assumes pre: "local_only p" and D: "0 < D" and n: "r < n"
    and len: "\<forall>s < n. \<forall>h < D. fst (reg s h) + snd (reg s h) \<le> length (T (Out 0))"
    and mine: "\<forall>h < D. {fst (reg r h)..<fst (reg r h) + snd (reg r h)} \<subseteq> V (Out 0) \<union> copied (Out 0) p"
    and k: "k \<le> (n - 1) * D"
  shows "flows T V r p (concat (map (ring_iter D n slot reg r) [0..<k]))"
  using k
proof (induction k)
  case (Suc k)
  have kd: "k div D < n - 1" using Suc.prems D by (simp add: less_mult_imp_div_less)
  let ?w = "if k < D then [] else [WaitSend (Out 0), WaitRecv (Out 0)]"
  let ?x = "reg ((n + r - k div D) mod n) (k mod D)"
  let ?q = "p @ concat (map (ring_iter D n slot reg r) [0..<k]) @ ?w"
  have cop: "copied (Out 0) p \<subseteq> copied (Out 0) ?q" by auto
  have "{fst ?x..<fst ?x + snd ?x} \<subseteq> avail V r (Out 0) ?q"
  proof (cases "k < D")
    case True
    then have "?x = reg r k" using n by simp
    then show ?thesis using mine True cop by (auto simp: avail_def)
  next
    case False
    have eq: "(k - D) div D = k div D - 1" "(k - D) mod D = k mod D" using False D by (simp_all add: le_div_geq le_mod_geq)
    have "0 < k div D" using False D by (simp add: div_greater_zero_iff)
    then have "n + r - (k div D - 1) - 1 = n + r - k div D" using kd n by linarith
    then have "snd (snd (ring_recv D n slot reg r (k - D))) = ?x" by (simp add: ring_recv_def eq)
    moreover have "ring_recv D n slot reg r (k - D) \<in> set (surely r (Out 0) ?q)"
      using ring_surely [OF pre D refl, where k = k and r = r and n = n and slot = slot and reg = reg] False by auto
    ultimately have "{fst ?x..<fst ?x + snd ?x} \<subseteq> regions (Out 0) (surely r (Out 0) ?q)"
      using span_regions [of "ring_recv D n slot reg r (k - D)" _ "Out 0"] by (simp add: span_def ring_recv_def)
    then show ?thesis by (auto simp: avail_def)
  qed
  moreover have "fst ?x + snd ?x \<le> length (T (Out 0))" using len D n by simp
  moreover have "fst (reg ((n + r - k div D - 1) mod n) (k mod D)) + snd (reg ((n + r - k div D - 1) mod n) (k mod D)) \<le> length (T (Out 0))"
    using len D n by simp
  ultimately have "flows T V r (p @ concat (map (ring_iter D n slot reg r) [0..<k])) (ring_iter D n slot reg r k)"
    by (simp add: ring_iter_def Let_def flows_append split: if_splits)
  with Suc show ?case by (simp add: flows_append)
qed simp

lemma flows_local_waits: "flows T V r p (ring_waits D)"
  by (induction D arbitrary: p) (simp_all add: ring_waits_def)

lemma sel_map_const: "(\<And>i. fst (f i) = k0) \<Longrightarrow> sel k (map f xs) = (if k0 = k then map f xs else [])"
  by (induction xs) auto

lemma ring_agree:
  assumes n: "1 < n" and D: "0 < D" and pre: "\<forall>r < n. local_only (pre r)" and k: "chan_src k < n" "chan_dst k < n"
  shows "list_all2 (\<lambda>x y. agree (ring_T n M tt) k (snd x) (snd y))
    (sel k (sposts (chan_src k) (ring_prog D n slot reg pre (chan_src k))))
    (sel k (rposts (chan_dst k) (ring_prog D n slot reg pre (chan_dst k))))"
proof -
  obtain i j s where ij: "k = (i, j, s)" by (cases k)
  with k have lt: "i < n" "j < n" by auto
  have shift: "(n + i + 1) mod n = j \<longleftrightarrow> (n + j - 1) mod n = i" using ring_shift [of i n j 1] lt n by simp
  have S: "sel k (sposts i (ring_prog D n slot reg pre i)) = (if (n + i + 1) mod n = j \<and> s = slot
      then map (\<lambda>t. ((i, (n + i + 1) mod n, slot), Out 0, reg ((n + i - t div D) mod n) (t mod D))) [0..<(n - 1) * D] else [])"
    using pre lt by (subst ring_prog_def) (auto simp: local_only_posts ring_sposts sel_map_const ij)
  have R: "sel k (rposts j (ring_prog D n slot reg pre j)) = (if (n + j - 1) mod n = i \<and> s = slot
      then map (ring_recv D n slot reg j) [0..<(n - 1) * D] else [])"
    using pre lt sel_map_const [of "ring_recv D n slot reg j" "((n + j - 1) mod n, j, slot)"]
    by (subst ring_prog_def) (auto simp: local_only_posts ring_rposts ring_recv_def ij)
  have "agree (ring_T n M tt) k (Out 0, reg ((n + i - t div D) mod n) (t mod D)) (snd (ring_recv D n slot reg j t))"
    if "(n + i + 1) mod n = j" "t < (n - 1) * D" for t
  proof -
    have "t div D < n" using that(2) D less_mult_imp_div_less [of t "n - 1" D] by linarith
    with ring_neighbours [OF lt n _ that(1), of "t div D"] lt show ?thesis
      by (simp add: agree_def ring_recv_def ring_T_def ij)
  qed
  then show ?thesis using shift unfolding ij fst_conv snd_conv S [unfolded ij] R [unfolded ij]
    by (auto simp: list_all2_conv_all_nth ij)
qed

lemma ring_segment:
  fixes n :: nat
  assumes "s < n" "r < n" "s \<noteq> r" "1 < n"
  shows "\<exists>t < n - 1. (n + r - t - 1) mod n = s"
proof (cases "s < r")
  case True
  then have "n + r - (r - s - 1) - 1 = n + s" "r - s - 1 < n - 1" using assms by linarith+
  then show ?thesis using assms(1) by (metis mod_add_self1 mod_less)
next
  case False
  then have "(n + r - (n + r - s - 1) - 1) mod n = s" "n + r - s - 1 < n - 1" using assms by auto
  then show ?thesis by blast
qed

lemma ring_correct:
  fixes M :: "nat \<Rightarrow> 'a mem"
  assumes n: "1 < n" and D: "0 < D" and pre: "\<forall>r < n. local_only (pre r)"
    and len: "\<forall>s < n. \<forall>h < D. fst (reg s h) + snd (reg s h) \<le> length tt"
    and cover: "\<forall>x < length tt. \<exists>s < n. \<exists>h < D. fst (reg s h) \<le> x \<and> x < fst (reg s h) + snd (reg s h)"
    and M: "\<forall>r < n. length (M r (Out 0)) = length tt \<and> (\<forall>x \<in> own r. x < length tt \<longrightarrow> M r (Out 0) ! x = tt ! x)"
    and copy: "\<forall>r < n. flows (ring_T n M tt r) (ring_V n own r) r [] (pre r)"
    and mine: "\<forall>r < n. \<forall>h < D. {fst (reg r h)..<fst (reg r h) + snd (reg r h)} \<subseteq> own r \<union> copied (Out 0) (pre r)"
  shows "always_ends n (ring_prog D n slot reg pre) \<and> (\<forall>r < n. always_yields n (ring_prog D n slot reg pre) M r (Out 0) tt)"
proof (intro conjI allI impI)
  let ?P = "ring_prog D n slot reg pre"
  show "always_ends n ?P" using ring_ok [OF n D pre, of slot reg] by (rule always_endsI) (intro allI impI, rule ring_rounds_prog [OF n D, symmetric])
  fix r assume r: "r < n"
  have "consistent n (ring_T n M tt) (ring_V n own) ?P"
    unfolding consistent_def
  proof (intro conjI allI impI)
    fix r assume r: "r < n"
    show "flows (ring_T n M tt r) (ring_V n own r) r [] (?P r)"
      using copy r pre len mine flows_ring [of "pre r" D r n reg "ring_T n M tt r" "ring_V n own r" "(n - 1) * D" slot] D
      by (simp add: ring_prog_def flows_append flows_local_waits ring_T_def ring_V_def)
  next
    fix k :: chan assume "chan_src k < n" "chan_dst k < n"
    then show "list_all2 (\<lambda>x y. agree (ring_T n M tt) k (snd x) (snd y)) (sel k (sposts (chan_src k) (?P (chan_src k))))
        (sel k (rposts (chan_dst k) (?P (chan_dst k))))" by (rule ring_agree [OF n D pre])
  qed
  moreover have "length (M r b) = length (ring_T n M tt r b) \<and>
      (\<forall>x \<in> ring_V n own r b. x < length (ring_T n M tt r b) \<longrightarrow> M r b ! x = ring_T n M tt r b ! x)" for r b
    using M by (auto simp: ring_T_def ring_V_def)
  moreover have "snd (pending (Out 0) (?P r)) = 0"
    using ring_pending [of pre r "(n - 1) * D" n D "Out 0" slot reg] ring_rounds_eq [of "(n - 1) * D" n D slot reg pre r] pre r n D
      mult_le_mono1 [of 1 "n - 1" D]
    by (simp add: ring_prog_def min_absorb2)
  moreover have "{..<length (ring_T n M tt r (Out 0))} \<subseteq>
      ring_V n own r (Out 0) \<union> copied (Out 0) (?P r) \<union> regions (Out 0) (rposts r (?P r))"
  proof
    fix x assume "x \<in> {..<length (ring_T n M tt r (Out 0))}"
    then obtain s h where sh: "s < n" "h < D" "fst (reg s h) \<le> x" "x < fst (reg s h) + snd (reg s h)"
      using cover r by (auto simp: ring_T_def)
    show "x \<in> ring_V n own r (Out 0) \<union> copied (Out 0) (?P r) \<union> regions (Out 0) (rposts r (?P r))"
    proof (cases "s = r")
      case True
      then show ?thesis using mine r sh by (fastforce simp: ring_prog_def ring_V_def)
    next
      case False
      then obtain t where t: "t < n - 1" "(n + r - t - 1) mod n = s" using ring_segment [OF sh(1) r _ n] by blast
      let ?i = "t * D + h"
      have i: "?i div D = t" "?i mod D = h" using sh(2) by auto
      have "?i < t * D + D" using sh(2) by simp
      also have "\<dots> \<le> (n - 1) * D" using t(1) mult_le_mono1 [of "Suc t" "n - 1" D] by simp
      finally have "ring_recv D n slot reg r ?i \<in> set (rposts r (?P r))"
        using pre r by (simp add: ring_prog_def local_only_posts ring_rposts)
      then have "span (snd (ring_recv D n slot reg r ?i)) \<subseteq> regions (Out 0) (rposts r (?P r))"
        by (rule span_regions) (simp add: ring_recv_def)
      moreover have "x \<in> span (snd (ring_recv D n slot reg r ?i))"
        unfolding span_def ring_recv_def i t(2) using sh by simp
      ultimately show ?thesis by blast
    qed
  qed
  ultimately have "always_yields n ?P M r (Out 0) (ring_T n M tt r (Out 0))" by (intro always_yieldsI r) auto
  then show "always_yields n ?P M r (Out 0) tt" using r by (simp add: ring_T_def)
qed

text \<open>Programs that only copy, for a single rank or an empty output.\<close>

lemma local_correct:
  fixes M :: "nat \<Rightarrow> 'a mem"
  assumes pre: "\<forall>r < n. local_only (P r)"
    and M: "\<forall>r < n. length (M r (Out 0)) = length tt \<and> (\<forall>x \<in> own r. x < length tt \<longrightarrow> M r (Out 0) ! x = tt ! x)"
    and copy: "\<forall>r < n. flows (ring_T n M tt r) (ring_V n own r) r [] (P r)"
    and cover: "\<forall>r < n. {..<length tt} \<subseteq> own r \<union> copied (Out 0) (P r)"
  shows "always_ends n P \<and> (\<forall>r < n. always_yields n P M r (Out 0) tt)"
proof (intro conjI allI impI)
  have "rounds_ok n 1 (\<lambda>r k. P r)"
    using pre by (simp add: rounds_ok_def well_matched_def local_only_posts addressed_def rounds_def)
  then show "always_ends n P" by (rule always_endsI) (simp add: rounds_def)
  fix r assume r: "r < n"
  have con: "consistent n (ring_T n M tt) (ring_V n own) P" using pre copy by (simp add: consistent_def local_only_posts)
  have init: "length (M r b) = length (ring_T n M tt r b) \<and>
      (\<forall>x \<in> ring_V n own r b. x < length (ring_T n M tt r b) \<longrightarrow> M r b ! x = ring_T n M tt r b ! x)" for r b
    using M by (auto simp: ring_T_def ring_V_def)
  have "always_yields n P M r (Out 0) (ring_T n M tt r (Out 0))"
  proof (rule always_yieldsI [OF con init r])
    show "snd (pending (Out 0) (P r)) = 0" using pre r by (simp add: local_only_posts)
    show "{..<length (ring_T n M tt r (Out 0))} \<subseteq> ring_V n own r (Out 0) \<union> copied (Out 0) (P r) \<union> regions (Out 0) (rposts r (P r))"
      using cover r by (auto simp: ring_T_def ring_V_def)
  qed
  then show "always_yields n P M r (Out 0) tt" using r by (simp add: ring_T_def)
qed

lemma ring_enforce_passes:
  assumes "r < n" "\<forall>j < n. j \<noteq> r \<longrightarrow> prs j"
  shows "ring_enforce prs \<lparr>ctx_rank = r, ctx_size = n\<rparr> x = x"
proof -
  have "j mod n < n" for j using assms(1) by simp
  with assms(2) have "j mod n = r \<or> prs (j mod n)" for j by blast
  then show ?thesis by (simp add: ring_enforce_def Let_def)
qed

section \<open>Allgather\<close>

definition halves :: "nat \<Rightarrow> nat \<Rightarrow> nat \<Rightarrow> nat \<times> nat" where
  "halves k s h = (s * k + (if h = 0 then 0 else k div 2), if h = 0 then k div 2 else k - k div 2)"

lemma segment_mod:
  assumes "co < (k :: nat)"
  shows "(seg * k + co) mod (n * k) = seg mod n * k + co"
proof -
  have "(seg * k + co) mod (k * n) = k * ((seg * k + co) div k mod n) + (seg * k + co) mod k" by (rule mod_mult2_eq)
  then show ?thesis using assms by (simp add: mult.commute)
qed

lemma allgather_iter_ring:
  assumes "r < n" "0 < k" "2 * (n * k) < u64_range"
  shows "allgather_iter slot \<lparr>ctx_rank = r, ctx_size = n\<rparr> k (n * k) = ring_iter 2 n slot (halves k) r"
proof
  fix i
  have "u64_add (u64_mul seg k) co mod (n * k) = seg mod n * k + co" if "seg < 2 * n" "co < k" for seg co
  proof -
    have "Suc seg * k \<le> 2 * n * k" using that(1) by (intro mult_le_mono1) simp
    then have "seg * k + k \<le> 2 * (n * k)" by (simp add: mult.assoc add.commute)
    then have "seg * k + co < u64_range" using assms(3) that(2) by linarith
    then show ?thesis using segment_mod [OF that(2), of seg n] by (simp add: u64_add_exact u64_mul_exact)
  qed
  from this [of "n + r - i div 2"] this [of "n + r - i div 2 - 1"]
  show "allgather_iter slot \<lparr>ctx_rank = r, ctx_size = n\<rparr> k (n * k) i = ring_iter 2 n slot (halves k) r i"
    using assms by (auto simp: allgather_iter_def ring_iter_def halves_def Let_def)
qed

text \<open>Without an input buffer the contribution of a rank is its block of the output.\<close>

definition contribution :: "bool \<Rightarrow> nat \<Rightarrow> (nat \<Rightarrow> 'a mem) \<Rightarrow> nat \<Rightarrow> 'a list" where
  "contribution inplace k M i = (if inplace then read_at (i * k) k (M i (Out 0)) else M i (In 0))"

lemma contributions:
  assumes "\<forall>r < n. length (M r (Out 0)) = n * k \<and> (\<not> inplace \<longrightarrow> length (M r (In 0)) = k)"
  shows "length (concat (map (contribution inplace k M) [0..<n])) = n * k"
    and "r < n \<Longrightarrow> read_at (r * k) k (concat (map (contribution inplace k M) [0..<n])) = contribution inplace k M r"
    and "r < n \<Longrightarrow> length (contribution inplace k M r) = k"
proof -
  have len: "length (contribution inplace k M r) = k" if "r < n" for r
  proof -
    have "Suc r * k \<le> n * k" using that by (intro mult_le_mono1) simp
    then show ?thesis using assms that by (auto simp: contribution_def length_read_at)
  qed
  then show "length (concat (map (contribution inplace k M) [0..<n])) = n * k"
    using length_blocks [of "map (contribution inplace k M) [0..<n]" k] by simp
  show "read_at (r * k) k (concat (map (contribution inplace k M) [0..<n])) = contribution inplace k M r" if "r < n"
    using read_block [of "map (contribution inplace k M) [0..<n]" k r] len that by simp
  show "r < n \<Longrightarrow> length (contribution inplace k M r) = k" by (rule len)
qed

text \<open>
  C13: Allgather. With equal inputs (or, in place, an output that divides evenly) and all ranks
  connected, all checks pass, and whatever the interleaving of the ranks and of the network, the
  ranks neither deadlock nor run forever, and every rank ends with the concatenation of the
  contributions of all ranks.
\<close>

theorem allgather_correct:
  assumes "0 < elementSize" and "0 < n" and pairs: "\<forall>r < n. \<forall>j < n. j \<noteq> r \<longrightarrow> pairs r j"
    and M: "\<forall>r < n. length (M r (Out 0)) = n * k \<and> (\<not> inplace \<longrightarrow> length (M r (In 0)) = k)"
    and "2 * (n * k) < u64_range"
  shows "\<exists>P. (\<forall>r < n. allgather (pairs r) elementSize tag (if inplace then None else Some k) (n * k)
        \<lparr>ctx_rank = r, ctx_size = n\<rparr> = Inr (P r)) \<and>
    always_ends n P \<and>
    (\<forall>r < n. always_yields n P M r (Out 0) (concat (map (contribution inplace k M) [0..<n])))"
proof -
  let ?s = "slot_of kAllgatherSlotPrefix tag" and ?tt = "concat (map (contribution inplace k M) [0..<n])"
  define pre where "pre = (\<lambda>r. if inplace then [] else [Memcpy (Out 0) (r * k) (In 0) 0 k])"
  define own where "own = (\<lambda>r. if inplace then {r * k..<r * k + k} else {})"
  define P where "P = (if n = 1 \<or> n * k = 0 then pre else ring_prog 2 n ?s (halves k) pre)"
  note tt = contributions [of n M k inplace, OF M]
  have "ring_enforce (pairs r) \<lparr>ctx_rank = r, ctx_size = n\<rparr> x = x" if "r < n" for r and x :: "program result"
    using ring_enforce_passes [OF that] pairs that by blast
  moreover have "u64_mul k n = n * k" using assms(5) by (simp add: u64_mul_exact mult.commute)
  ultimately have prog: "allgather (pairs r) elementSize tag (if inplace then None else Some k) (n * k) \<lparr>ctx_rank = r, ctx_size = n\<rparr> = Inr (P r)"
    if "r < n" for r
    using that assms(1,2) allgather_iter_ring [OF that _ assms(5)]
    by (auto simp: allgather_def P_def pre_def ring_prog_def ring_waits_def)
  have loc: "\<forall>r < n. local_only (pre r)" by (simp add: pre_def local_only_def)
  have block: "r * k + k \<le> n * k" if "r < n" for r using mult_le_mono1 [of "Suc r" n k] that by simp
  have val: "\<forall>r < n. length (M r (Out 0)) = length ?tt \<and> (\<forall>x \<in> own r. x < length ?tt \<longrightarrow> M r (Out 0) ! x = ?tt ! x)"
  proof (intro allI impI conjI ballI)
    fix r x assume r: "r < n" "x \<in> own r"
    then have ip: inplace and x: "r * k \<le> x" "x - r * k < k" by (auto simp: own_def split: if_splits)
    have "read_at (r * k) k (M r (Out 0)) ! (x - r * k) = read_at (r * k) k ?tt ! (x - r * k)"
      using tt(2) [OF r(1)] ip by (simp add: contribution_def)
    then show "M r (Out 0) ! x = ?tt ! x"
      using x block [OF r(1)] tt(1) M r(1) by (simp add: nth_read_at)
  qed (use M tt(1) in simp)
  have copy: "\<forall>r < n. flows (ring_T n M ?tt r) (ring_V n own r) r [] (pre r)"
  proof (intro allI impI)
    fix r assume r: "r < n"
    show "flows (ring_T n M ?tt r) (ring_V n own r) r [] (pre r)"
    proof (cases inplace)
      case False
      have "length (M r (In 0)) = k" using M r False by simp
      then show ?thesis using tt(1) tt(2) [OF r] block [OF r] False r
        by (simp add: pre_def ring_T_def ring_V_def avail_def contribution_def read_at_def)
    qed (simp add: pre_def)
  qed
  have mine: "{r * k..<r * k + k} \<subseteq> own r \<union> copied (Out 0) (pre r)" for r by (auto simp: own_def pre_def)
  have "always_ends n P \<and> (\<forall>r < n. always_yields n P M r (Out 0) ?tt)"
  proof (cases "n = 1 \<or> n * k = 0")
    case True
    then have "{..<length ?tt} \<subseteq> own r \<union> copied (Out 0) (pre r)" if "r < n" for r using tt(1) mine [of r] that by auto
    moreover have "P = pre" using True by (simp add: P_def)
    ultimately show ?thesis using local_correct [OF loc val copy] by simp
  next
    case False
    then have k: "1 < n" "0 < k" using assms(2) by auto
    have "always_ends n (ring_prog 2 n ?s (halves k) pre) \<and> (\<forall>r < n. always_yields n (ring_prog 2 n ?s (halves k) pre) M r (Out 0) ?tt)"
    proof (rule ring_correct [OF k(1) _ loc _ _ val copy])
      show "\<forall>s < n. \<forall>h < 2. fst (halves k s h) + snd (halves k s h) \<le> length ?tt"
        using block tt(1) by (fastforce simp: halves_def)
      show "\<forall>x < length ?tt. \<exists>s < n. \<exists>h < 2. fst (halves k s h) \<le> x \<and> x < fst (halves k s h) + snd (halves k s h)"
      proof (intro allI impI)
        fix x assume "x < length ?tt"
        then have x: "x div k < n" "x div k * k \<le> x" "x < x div k * k + k" using block_cover [of x n k] tt(1) by auto
        let ?h = "if x < x div k * k + k div 2 then 0 else 1 :: nat"
        have "?h < 2" "fst (halves k (x div k) ?h) \<le> x" "x < fst (halves k (x div k) ?h) + snd (halves k (x div k) ?h)"
          using x by (auto simp: halves_def)
        with x(1) show "\<exists>s < n. \<exists>h < 2. fst (halves k s h) \<le> x \<and> x < fst (halves k s h) + snd (halves k s h)" by blast
      qed
      show "\<forall>r < n. \<forall>h < 2. {fst (halves k r h)..<fst (halves k r h) + snd (halves k r h)} \<subseteq> own r \<union> copied (Out 0) (pre r)"
      proof (intro allI impI)
        fix r h :: nat assume "h < 2"
        have "{fst (halves k r h)..<fst (halves k r h) + snd (halves k r h)} \<subseteq> {r * k..<r * k + k}" by (auto simp: halves_def)
        with mine [of r] show "{fst (halves k r h)..<fst (halves k r h) + snd (halves k r h)} \<subseteq> own r \<union> copied (Out 0) (pre r)" by blast
      qed
    qed simp
    moreover have "P = ring_prog 2 n ?s (halves k) pre" using False by (simp add: P_def)
    ultimately show ?thesis by simp
  qed
  with prog show ?thesis by blast
qed

theorem allgather_correct_witness:
  "\<exists>P. (\<forall>r < 3. allgather (\<lambda>_. True) 1 7 (Some 2) (3 * 2) \<lparr>ctx_rank = r, ctx_size = 3\<rparr> = Inr (P r)) \<and>
    always_ends 3 P \<and> (\<forall>r < 3. always_yields 3 P demo_mem r (Out 0) [0, 1, 10, 11, 20, 21])"
proof -
  have "concat (map (contribution False 2 demo_mem) [0..<3]) = [0, 1, 10, 11, 20, 21]"
    by (simp add: contribution_def demo_mem_def upt_rec)
  moreover have "\<exists>P. (\<forall>r < 3. allgather (\<lambda>_. True) 1 7 (if False then None else Some 2) (3 * 2) \<lparr>ctx_rank = r, ctx_size = 3\<rparr> = Inr (P r)) \<and>
      always_ends 3 P \<and> (\<forall>r < 3. always_yields 3 P demo_mem r (Out 0) (concat (map (contribution False 2 demo_mem) [0..<3])))"
    by (rule allgather_correct) (simp_all add: demo_mem_def)
  ultimately show ?thesis by (simp only: if_False)
qed

section \<open>Allgatherv\<close>

lemma fold_u64_add:
  assumes "x + sum_list xs < u64_range"
  shows "fold (\<lambda>x. u64_add x) xs x = x + sum_list xs"
  using assms
proof (induction xs arbitrary: x)
  case (Cons a xs)
  then have "u64_add a x = a + x" by (intro u64_add_exact) simp
  with Cons.IH [of "a + x"] Cons.prems show ?case by (simp add: add.commute add.left_commute)
qed simp

lemma split_total: "bytes_of e es + off < u64_range \<Longrightarrow> map snd (splitOffsetsAndLengths es e off) = map (\<lambda>x. x * e) es"
  by (induction es arbitrary: off) (simp_all add: Let_def u64_mul_exact u64_add_exact add.commute add.left_commute)

definition contribution_v :: "bool \<Rightarrow> nat \<Rightarrow> nat list \<Rightarrow> (nat \<Rightarrow> 'a mem) \<Rightarrow> nat \<Rightarrow> 'a list" where
  "contribution_v inplace e es M i =
     (if inplace then read_at (bytes_of e (take i es)) (es ! i * e) (M i (Out 0)) else M i (In 0))"

lemma bytes_take: "i < length es \<Longrightarrow> bytes_of e (take i es) + es ! i * e \<le> bytes_of e es"
  using arg_cong [OF id_take_nth_drop [of i es], of "bytes_of e"] by simp

lemma contributions_v:
  assumes M: "\<forall>r < length es. length (M r (Out 0)) = bytes_of e es \<and> (\<not> inplace \<longrightarrow> length (M r (In 0)) = es ! r * e)"
  shows "length (concat (map (contribution_v inplace e es M) [0..<length es])) = bytes_of e es"
    and "r < length es \<Longrightarrow> read_at (bytes_of e (take r es)) (es ! r * e) (concat (map (contribution_v inplace e es M) [0..<length es])) =
      contribution_v inplace e es M r"
    and "x < bytes_of e es \<Longrightarrow> \<exists>s < length es. bytes_of e (take s es) \<le> x \<and> x < bytes_of e (take s es) + es ! s * e"
proof -
  let ?D = "contribution_v inplace e es M"
  have len: "\<forall>j < length es. length (?D j) = es ! j * e"
    using M bytes_take by (auto simp: contribution_v_def length_read_at)
  note start = start_of_bytes [OF len]
  show "length (concat (map ?D [0..<length es])) = bytes_of e es" using start [of "length es"] by simp
  show "read_at (bytes_of e (take r es)) (es ! r * e) (concat (map ?D [0..<length es])) = ?D r" if "r < length es"
  proof -
    obtain rest where "concat (map ?D [0..<length es]) = concat (map ?D [0..<r]) @ ?D r @ rest"
      using concat_split [of r "length es" ?D] \<open>r < length es\<close> by blast
    then show ?thesis using start [of r] len \<open>r < length es\<close> by (simp add: read_at_def)
  qed
  show "\<exists>s < length es. bytes_of e (take s es) \<le> x \<and> x < bytes_of e (take s es) + es ! s * e" if x: "x < bytes_of e es"
  proof -
    obtain s where "s < length es" "start_of ?D s \<le> x \<and> x < start_of ?D s + length (?D s)"
      using concat_cover [of x ?D "length es"] start [of "length es"] x by auto
    then show ?thesis using start [of s] len by auto
  qed
qed

text \<open>
  C14: Allgatherv. With contributions of any sizes, whatever the interleaving of the ranks and of
  the network, the ranks neither deadlock nor run forever, and every rank ends with the
  concatenation of all contributions in rank order.
\<close>

theorem allgatherv_correct:
  assumes "0 < elementSize" and n: "n = length es" "0 < n" and pairs: "\<forall>r < n. \<forall>j < n. j \<noteq> r \<longrightarrow> pairs r j"
    and M: "\<forall>r < n. length (M r (Out 0)) = bytes_of elementSize es \<and> (\<not> inplace \<longrightarrow> length (M r (In 0)) = es ! r * elementSize)"
    and total: "bytes_of elementSize es < u64_range"
  shows "\<exists>P. (\<forall>r < n. allgatherv (pairs r) elementSize tag (if inplace then None else Some (es ! r * elementSize)) es
        \<lparr>ctx_rank = r, ctx_size = n\<rparr> = Inr (P r)) \<and>
    always_ends n P \<and>
    (\<forall>r < n. always_yields n P M r (Out 0) (concat (map (contribution_v inplace elementSize es M) [0..<n])))"
proof -
  let ?e = elementSize
  let ?s = "slot_of kAllgatherSlotPrefix tag" and ?tt = "concat (map (contribution_v inplace ?e es M) [0..<n])"
  define reg where "reg = (\<lambda>s (h :: nat). (bytes_of ?e (take s es), es ! s * ?e))"
  define pre where "pre = (\<lambda>r. if inplace \<or> es ! r * ?e = 0 then [] else [Memcpy (Out 0) (fst (reg r 0)) (In 0) 0 (snd (reg r 0))])"
  define own where "own = (\<lambda>r. if inplace then {fst (reg r 0)..<fst (reg r 0) + snd (reg r 0)} else {})"
  define P where "P = (if n = 1 \<or> bytes_of ?e es = 0 then pre else ring_prog 1 n ?s reg pre)"
  note tt = contributions_v [of es M ?e inplace, folded n(1), OF M]
  have segs: "splitOffsetsAndLengths es ?e 0 ! s = reg s h" if "s < n" for s h
    using split_nth [where off = 0 and e = ?e and es = es and i = s] total that n(1) by (simp add: reg_def)
  have iter: "allgatherv_iter ?s \<lparr>ctx_rank = r, ctx_size = n\<rparr> (splitOffsetsAndLengths es ?e 0) = ring_iter 1 n ?s reg r" for r
    using n(2) by (simp add: fun_eq_iff allgatherv_iter_def ring_iter_def Let_def segs [where h = 0])
  have "fold (\<lambda>x. u64_add x) (map snd (splitOffsetsAndLengths es ?e 0)) 0 = bytes_of ?e es"
    using total fold_u64_add [of 0 "map (\<lambda>x. x * ?e) es"] split_total [where off = 0 and e = ?e and es = es] by simp
  then have prog: "allgatherv (pairs r) ?e tag (if inplace then None else Some (es ! r * ?e)) es \<lparr>ctx_rank = r, ctx_size = n\<rparr> = Inr (P r)"
    if "r < n" for r
    using that assms(1) pairs n(1) segs [OF that, of 0] iter [of r]
    by (simp add: allgatherv_def ring_enforce_passes P_def pre_def reg_def ring_prog_def ring_waits_def Let_def
        del: sum_list_eq_0_iff)
  have loc: "\<forall>r < n. local_only (pre r)" by (simp add: pre_def local_only_def)
  have bound: "fst (reg s h) + snd (reg s h) \<le> length ?tt" if "s < n" for s h using bytes_take [of s es ?e] that n(1) tt(1) by (simp add: reg_def)
  have val: "\<forall>r < n. length (M r (Out 0)) = length ?tt \<and> (\<forall>x \<in> own r. x < length ?tt \<longrightarrow> M r (Out 0) ! x = ?tt ! x)"
  proof (intro allI impI conjI ballI)
    fix r x assume r: "r < n" "x \<in> own r"
    let ?o = "bytes_of ?e (take r es)" and ?l = "es ! r * ?e"
    from r have ip: inplace and x: "?o \<le> x" "x - ?o < ?l" by (auto simp: own_def reg_def split: if_splits)
    have "read_at ?o ?l (M r (Out 0)) ! (x - ?o) = read_at ?o ?l ?tt ! (x - ?o)" using tt(2) [OF r(1)] ip by (simp add: contribution_v_def)
    then show "M r (Out 0) ! x = ?tt ! x" using x bound [OF r(1)] tt(1) M r(1) by (simp add: nth_read_at reg_def)
  qed (use M tt(1) in simp)
  have copy: "\<forall>r < n. flows (ring_T n M ?tt r) (ring_V n own r) r [] (pre r)"
  proof (intro allI impI)
    fix r assume r: "r < n"
    show "flows (ring_T n M ?tt r) (ring_V n own r) r [] (pre r)"
    proof (cases inplace)
      case False
      then have "length (M r (In 0)) = es ! r * ?e" using M r by simp
      then show ?thesis using tt(2) [OF r] bound [OF r, of 0] False r
        by (simp add: pre_def ring_T_def ring_V_def avail_def contribution_v_def read_at_def reg_def)
    qed (simp add: pre_def)
  qed
  have mine: "{fst (reg r h)..<fst (reg r h) + snd (reg r h)} \<subseteq> own r \<union> copied (Out 0) (pre r)" for r h
    by (auto simp: own_def pre_def reg_def)
  have cover: "\<forall>x < length ?tt. \<exists>s < n. \<exists>h < 1. fst (reg s h) \<le> x \<and> x < fst (reg s h) + snd (reg s h)"
    using tt(1,3) n(1) by (simp add: reg_def)
  have "always_ends n P \<and> (\<forall>r < n. always_yields n P M r (Out 0) ?tt)"
  proof (cases "n = 1 \<or> bytes_of ?e es = 0")
    case True
    have "{..<length ?tt} \<subseteq> own r \<union> copied (Out 0) (pre r)" if "r < n" for r
    proof
      fix x assume "x \<in> {..<length ?tt}"
      then have x: "x < length ?tt" by simp
      with True tt(1) have "n = 1" by linarith
      with that have s: "s = r" if "s < n" for s using that by simp
      from cover x obtain s h where "s < n" "fst (reg s h) \<le> x \<and> x < fst (reg s h) + snd (reg s h)" by blast
      then have "x \<in> {fst (reg r h)..<fst (reg r h) + snd (reg r h)}" using s by auto
      with mine show "x \<in> own r \<union> copied (Out 0) (pre r)" by blast
    qed
    moreover have "P = pre" using True by (simp add: P_def)
    ultimately show ?thesis using local_correct [OF loc val copy] by simp
  next
    case False
    then have "1 < n" using n(2) by auto
    then have "always_ends n (ring_prog 1 n ?s reg pre) \<and> (\<forall>r < n. always_yields n (ring_prog 1 n ?s reg pre) M r (Out 0) ?tt)"
      using bound mine by (intro ring_correct [OF _ _ loc _ cover val copy]) auto
    moreover have "P = ring_prog 1 n ?s reg pre" using False by (simp add: P_def del: sum_list_eq_0_iff)
    ultimately show ?thesis by simp
  qed
  with prog show ?thesis by blast
qed

theorem allgatherv_correct_witness:
  "\<exists>P. (\<forall>r < 2. allgatherv (\<lambda>_. True) 2 7 (if False then None else Some ([1, 0] ! r * 2)) [1, 0] \<lparr>ctx_rank = r, ctx_size = 2\<rparr> = Inr (P r)) \<and>
    always_ends 2 P \<and>
    (\<forall>r < 2. always_yields 2 P (\<lambda>r b. if b = Out 0 then [0, 0] else replicate ([1, 0] ! r * 2) (5 :: nat)) r (Out 0)
      (concat (map (contribution_v False 2 [1, 0] (\<lambda>r b. if b = Out 0 then [0, 0] else replicate ([1, 0] ! r * 2) (5 :: nat))) [0..<2])))"
  by (rule allgatherv_correct) auto

end
