(* ===== verification/Gloo_Broadcast.thy ===== *)
theory Gloo_Broadcast
  imports Gloo_Allgather
begin

text \<open>
  \<open>gloo/broadcast.cc\<close>: a binomial tree on virtual ranks, in which the root has number zero. In
  iteration \<open>i\<close> the virtual ranks below \<open>2 ^ i\<close> send to those \<open>2 ^ i\<close> above them. The shifts of the
  code are done in \<open>int\<close>, which is exact for up to \<open>2 ^ 30\<close> ranks.
\<close>

unbundle bit_operations_syntax

section \<open>The program\<close>

fun broadcast_loop :: "64 word \<Rightarrow> nat \<Rightarrow> bufid \<Rightarrow> nat \<Rightarrow> nat \<Rightarrow> nat \<Rightarrow> nat list \<Rightarrow> nat \<Rightarrow> program" where
  "broadcast_loop slot root inb sz vsize vrank [] msk = []"
| "broadcast_loop slot root inb sz vsize vrank (i # is) msk =
     (let msk = msk XOR push_bit i 1
      in (if vrank AND msk \<noteq> 0 then []
          else let vpeer = vrank XOR push_bit i 1
               in if vpeer \<ge> vsize then []
                  else let peer = (vpeer + root) mod vsize
                       in if vrank AND push_bit i 1 = 0 then [Send inb peer slot 0 sz]
                          else [Recv (Out 0) peer slot 0 sz, WaitRecv (Out 0)]) @
         broadcast_loop slot root inb sz vsize vrank is msk)"

definition numSends :: "program \<Rightarrow> nat" where
  "numSends p = length (filter is_send p)"

text \<open>An operation without explicit length is for the whole buffer, whose size all ranks share.\<close>

definition broadcast :: "nat \<Rightarrow> nat \<Rightarrow> 32 word \<Rightarrow> nat option \<Rightarrow> nat option \<Rightarrow> ctx \<Rightarrow> program result" where
  "broadcast elementSize root tag insize outsize c =
     (let slot = slot_of kBroadcastSlotPrefix tag in
      enforce (elementSize > 0)
        (enforce (root < ctx_size c)
          (case outsize of
             None \<Rightarrow> Inl EnforceNotMet
           | Some osize \<Rightarrow>
               rbind (if ctx_rank c = root
                      then (case insize of
                              Some isize \<Rightarrow> enforce (isize = osize) (Inr (In 0))
                            | None \<Rightarrow> Inr (Out 0))
                      else enforce (insize = None) (Inr (Out 0)))
                 (\<lambda>inb.
                    let vsize = ctx_size c;
                        vrank = (ctx_rank c + vsize - root) mod vsize;
                        dim = log2ceil (of_nat vsize);
                        p = broadcast_loop slot root inb osize vsize vrank [0..<dim] (2 ^ dim - 1)
                    in Inr (p @
                            (if ctx_rank c = root \<and> inb \<noteq> Out 0 then [Memcpy (Out 0) 0 inb 0 osize] else []) @
                            replicate (numSends p) (WaitSend inb))))))"

section \<open>The masks\<close>

text \<open>Before iteration \<open>i\<close> the mask has the bits from \<open>i\<close> to \<open>dim - 1\<close>.\<close>

definition tree_mask :: "nat \<Rightarrow> nat \<Rightarrow> nat" where
  "tree_mask dim i = push_bit i (mask (dim - i))"

lemma bit_tree_mask: "bit (tree_mask dim i) b \<longleftrightarrow> i \<le> b \<and> b < dim"
  by (auto simp: tree_mask_def bit_push_bit_iff bit_mask_iff)

lemma bit_power_nat: "bit (2 ^ i :: nat) b \<longleftrightarrow> b = i"
  by (auto simp: bit_exp_iff)

lemma tree_mask_0: "2 ^ dim - 1 = tree_mask dim 0"
  by (simp add: tree_mask_def mask_eq_exp_minus_1)

lemma tree_mask_step: "i < dim \<Longrightarrow> tree_mask dim i XOR push_bit i 1 = tree_mask dim (Suc i)"
  by (rule bit_eqI) (auto simp: bit_xor_iff bit_tree_mask bit_power_nat)

lemma less_power_bits: "v < 2 ^ m \<longleftrightarrow> (\<forall>b \<ge> m. \<not> bit v b)" for v :: nat
proof
  assume "v < 2 ^ m"
  then have "take_bit m v = v" by (simp add: take_bit_nat_eq_self_iff)
  then show "\<forall>b \<ge> m. \<not> bit v b" by (metis bit_take_bit_iff not_less)
next
  assume h: "\<forall>b \<ge> m. \<not> bit v b"
  have "bit (take_bit m v) b = bit v b" for b using h by (cases "b < m") (auto simp: bit_take_bit_iff)
  then have "take_bit m v = v" by (simp add: bit_eq_iff)
  then show "v < 2 ^ m" by (simp add: take_bit_nat_eq_self_iff)
qed

lemma and_tree_mask:
  assumes "v < 2 ^ dim"
  shows "v AND tree_mask dim i = 0 \<longleftrightarrow> v < 2 ^ i"
proof -
  have h: "b < dim" if "bit v b" for b using assms that by (metis less_power_bits not_less)
  have "v AND tree_mask dim i = 0 \<longleftrightarrow> (\<forall>b. \<not> bit (v AND tree_mask dim i) b)" by (simp add: bit_eq_iff)
  also have "\<dots> \<longleftrightarrow> (\<forall>b \<ge> i. \<not> bit v b)" using h by (auto simp: bit_and_iff bit_tree_mask)
  finally show ?thesis by (simp add: less_power_bits)
qed

lemma low_xor:
  fixes v :: nat
  assumes v: "v < 2 ^ i"
  shows "v AND 2 ^ i = 0" "v XOR 2 ^ i = v + 2 ^ i"
proof -
  have "\<not> bit (v AND 2 ^ i) b" for b using v by (auto simp: bit_and_iff bit_power_nat less_power_bits)
  then show a: "v AND 2 ^ i = 0" by (simp add: bit_eq_iff)
  then have "v + 2 ^ i = v XOR 2 ^ i" by (rule disjunctive_add_eq_xor)
  then show "v XOR 2 ^ i = v + 2 ^ i" by simp
qed

lemma high_xor:
  fixes v :: nat
  assumes "2 ^ i \<le> v" "v < 2 ^ Suc i"
  shows "v AND 2 ^ i \<noteq> 0" "v XOR 2 ^ i = v - 2 ^ i"
proof -
  let ?u = "v - 2 ^ i"
  have u: "?u < 2 ^ i" using assms by simp
  have v: "v = ?u XOR 2 ^ i" using low_xor [OF u] assms(1) by simp
  have nb: "\<not> bit ?u i" using u by (simp add: less_power_bits)
  have "bit (v AND 2 ^ i) i" by (subst v) (simp add: bit_and_iff bit_xor_iff bit_power_nat nb)
  then show "v AND 2 ^ i \<noteq> 0" by (intro notI) simp
  show "v XOR 2 ^ i = ?u" by (subst v) (simp add: xor.assoc)
qed

section \<open>The tree\<close>

text \<open>What a virtual rank does in one iteration, without the masks.\<close>

definition tree_post :: "64 word \<Rightarrow> nat \<Rightarrow> bufid \<Rightarrow> nat \<Rightarrow> nat \<Rightarrow> nat \<Rightarrow> nat \<Rightarrow> program" where
  "tree_post slot root inb sz n v i =
     (if v < 2 ^ i then (if v + 2 ^ i < n then [Send inb ((v + 2 ^ i + root) mod n) slot 0 sz] else [])
      else if v < 2 ^ Suc i then [Recv (Out 0) ((v - 2 ^ i + root) mod n) slot 0 sz] else [])"

definition tree_wait :: "nat \<Rightarrow> nat \<Rightarrow> program" where
  "tree_wait v i = (if 2 ^ i \<le> v \<and> v < 2 ^ Suc i then [WaitRecv (Out 0)] else [])"

definition tree_steps :: "64 word \<Rightarrow> nat \<Rightarrow> bufid \<Rightarrow> nat \<Rightarrow> nat \<Rightarrow> nat \<Rightarrow> nat \<Rightarrow> program" where
  "tree_steps slot root inb sz n v k = concat (map (\<lambda>i. tree_post slot root inb sz n v i @ tree_wait v i) [0..<k])"

lemma tree_steps_simps [simp]:
  "tree_steps slot root inb sz n v 0 = []"
  "tree_steps slot root inb sz n v (Suc k) =
     tree_steps slot root inb sz n v k @ tree_post slot root inb sz n v k @ tree_wait v k"
  by (simp_all add: tree_steps_def)

lemma broadcast_loop_tree:
  assumes v: "v < n" "n \<le> 2 ^ dim" and k: "k \<le> dim"
  shows "broadcast_loop slot root inb sz n v [k..<dim] (tree_mask dim k) =
    concat (map (\<lambda>i. tree_post slot root inb sz n v i @ tree_wait v i) [k..<dim])"
  using k
proof (induction k rule: inc_induct)
  case (step k)
  have lt: "v < 2 ^ dim" using v by linarith
  have mask: "tree_mask dim k XOR 2 ^ k = tree_mask dim (Suc k)" using tree_mask_step [of k dim] step.hyps by simp
  have up: "[k..<dim] = k # [Suc k..<dim]" using step.hyps by (simp add: upt_conv_Cons)
  consider (low) "v < 2 ^ k" | (mid) "2 ^ k \<le> v" "v < 2 ^ Suc k" | (high) "\<not> v < 2 ^ Suc k" by linarith
  then show ?case
  proof cases
    case low
    then have "v AND tree_mask dim (Suc k) = 0" by (simp add: and_tree_mask [OF lt])
    with low show ?thesis
      unfolding up by (simp add: mask step.IH low_xor tree_post_def tree_wait_def Let_def not_less)
  next
    case mid
    then have "v - 2 ^ k < n" using v(1) by linarith
    with mid show ?thesis
      unfolding up using high_xor [OF mid] by (simp add: mask step.IH and_tree_mask [OF lt] tree_post_def tree_wait_def Let_def)
  next
    case high
    then have "\<not> v < 2 ^ k" by simp
    with high show ?thesis
      unfolding up by (simp add: mask step.IH and_tree_mask [OF lt] tree_post_def tree_wait_def Let_def)
  qed
qed simp

text \<open>The operations of the first iterations.\<close>

lemma tree_pending:
  "pending b (tree_steps slot root inb sz n v k) = (if b = inb then int (numSends (tree_steps slot root inb sz n v k)) else 0, 0)"
  by (induction k) (auto simp: tree_post_def tree_wait_def numSends_def)

lemma tree_waits:
  "wsend b (tree_steps slot root inb sz n v k) = 0" "copied b (tree_steps slot root inb sz n v k) = {}"
  by (induction k) (auto simp: tree_post_def tree_wait_def)

lemma tree_sposts: "x \<in> set (sposts r (tree_steps slot root inb sz n v k)) \<Longrightarrow> snd x = (inb, 0, sz)"
  by (induction k) (auto simp: tree_post_def tree_wait_def split: if_splits)

lemma tree_rposts:
  "x \<in> set (rposts r (tree_steps slot root inb sz n v k)) \<Longrightarrow> snd x = (Out 0, 0, sz)"
  "0 < v \<Longrightarrow> v < 2 ^ k \<Longrightarrow> rposts r (tree_steps slot root inb sz n v k) \<noteq> []"
  by (induction k) (auto simp: tree_post_def tree_wait_def split: if_splits)

lemma tree_regions:
  assumes "0 < v" "v < 2 ^ k"
  shows "regions (Out 0) (rposts r (tree_steps slot root inb sz n v k)) = {0..<sz}"
proof -
  let ?R = "rposts r (tree_steps slot root inb sz n v k)"
  have all: "snd y = (Out 0, 0, sz)" if "y \<in> set ?R" for y using tree_rposts(1) that by blast
  have "bsel (Out 0) ?R = ?R" unfolding bsel_def using all by (intro filter_True) simp
  moreover have "(\<Union>y \<in> set ?R. span (snd y)) = (\<Union>y \<in> set ?R. {0..<sz})" by (intro SUP_cong) (simp_all add: all span_def)
  moreover have "set ?R \<noteq> {}" using tree_rposts(2) [OF assms] by simp
  ultimately show ?thesis unfolding regions_def by simp
qed

section \<open>Rounds of the tree\<close>

definition vrank_of :: "nat \<Rightarrow> nat \<Rightarrow> nat \<Rightarrow> nat" where
  "vrank_of n root r = (r + n - root) mod n"

definition tree_round :: "64 word \<Rightarrow> nat \<Rightarrow> (nat \<Rightarrow> bufid) \<Rightarrow> nat \<Rightarrow> nat \<Rightarrow> nat \<Rightarrow> (nat \<Rightarrow> program) \<Rightarrow> nat \<Rightarrow> nat \<Rightarrow> program" where
  "tree_round slot root inb sz n dim fin r k =
     (if k < 2 * dim
      then (if even k then tree_post slot root (inb r) sz n (vrank_of n root r) (k div 2) else tree_wait (vrank_of n root r) (k div 2))
      else fin r)"

lemma tree_rounds:
  "k \<le> dim \<Longrightarrow> rounds (tree_round slot root inb sz n dim fin) (2 * k) r = tree_steps slot root (inb r) sz n (vrank_of n root r) k"
proof (induction k)
  case (Suc k)
  have "2 * Suc k = Suc (Suc (2 * k))" by simp
  with Suc show ?case by (simp add: rounds_Suc tree_round_def)
qed (simp add: rounds_def)

lemma vrank_of_iff: "u < n \<Longrightarrow> j < n \<Longrightarrow> root < n \<Longrightarrow> (u + root) mod n = j \<longleftrightarrow> u = vrank_of n root j"
  using ring_shift' [of u n j root] by (auto simp: vrank_of_def)

lemma vrank_of_less: "root < n \<Longrightarrow> vrank_of n root r < n"
  by (simp add: vrank_of_def)

lemma tree_post_matched:
  assumes "i < n" "j < n" "root < n"
  shows "sends j (tree_post slot root b sz n (vrank_of n root i) k) = recvs i (tree_post slot root b' sz n (vrank_of n root j) k)"
proof -
  let ?u = "vrank_of n root i" and ?v = "vrank_of n root j"
  have lt: "?u < n" "?v < n" using vrank_of_less [OF assms(3)] by auto
  have to: "(?u + 2 ^ k + root) mod n = j \<longleftrightarrow> ?u + 2 ^ k = ?v" if "?u + 2 ^ k < n"
    using vrank_of_iff [OF that assms(2,3)] .
  define w where "w = ?v - 2 ^ k"
  have from_: "(w + root) mod n = i \<longleftrightarrow> w = ?u"
    using vrank_of_iff [OF _ assms(1,3), of w] lt unfolding w_def by simp
  have "sends j (tree_post slot root b sz n ?u k) = (if ?u < 2 ^ k \<and> ?u + 2 ^ k = ?v then [(slot, sz)] else [])"
    using lt(2) vrank_of_iff [OF lt(2) assms(2,3)] by (simp add: tree_post_def to)
  moreover have "recvs i (tree_post slot root b' sz n ?v k) = (if 2 ^ k \<le> ?v \<and> ?v < 2 * 2 ^ k \<and> w = ?u then [(slot, sz)] else [])"
    using vrank_of_iff [OF lt(1) assms(1,3)] unfolding tree_post_def w_def [symmetric] by (simp add: from_ not_less)
  moreover have "?u < 2 ^ k \<and> ?u + 2 ^ k = ?v \<longleftrightarrow> 2 ^ k \<le> ?v \<and> ?v < 2 * 2 ^ k \<and> w = ?u" unfolding w_def by linarith
  ultimately show ?thesis by simp
qed

text \<open>What follows the loop: local copies, and the waits for the sends.\<close>

lemma tree_rounds_ok:
  assumes root: "root < n"
    and fin: "\<forall>r < n. \<exists>p. local_only p \<and>
      fin r = p @ replicate (numSends (tree_steps slot root (inb r) sz n (vrank_of n root r) dim)) (WaitSend (inb r))"
  shows "rounds_ok n (Suc (2 * dim)) (tree_round slot root inb sz n dim fin)"
  unfolding rounds_ok_def
proof (intro allI impI conjI)
  fix k assume k: "k < Suc (2 * dim)"
  let ?S = "tree_round slot root inb sz n dim fin"
  have quiet: "sends j (fin r) = []" "recvs j (fin r) = []" "sposts r (fin r) = []" "rposts r (fin r) = []" if "r < n" for r j
  proof -
    have "sposts r (replicate m (WaitSend b)) = []" "rposts r (replicate m (WaitSend b)) = []" for m b by (induction m) auto
    with fin that show "sends j (fin r) = []" "recvs j (fin r) = []" "sposts r (fin r) = []" "rposts r (fin r) = []"
      by (auto dest!: spec [of _ r] simp: local_only_posts)
  qed
  have wait: "sends j (tree_wait v i) = []" "recvs j (tree_wait v i) = []" for j v i by (simp_all add: tree_wait_def)
  show "well_matched n (\<lambda>r. ?S r k)"
    using tree_post_matched [OF _ _ root] quiet by (auto simp: well_matched_def tree_round_def wait)
  fix r assume r: "r < n"
  show "addressed n r (?S r k)"
    using quiet [OF r] root by (auto simp: addressed_def tree_round_def tree_post_def tree_wait_def)
  fix b
  let ?v = "vrank_of n root r"
  have "int (wsend b (?S r k)) \<le> fst (pending b (rounds ?S k r)) \<and> int (wrecv b (?S r k)) \<le> snd (pending b (rounds ?S k r))"
  proof (cases "k < 2 * dim")
    case True
    show ?thesis
    proof (cases "even k")
      case e: True
      then obtain i where i: "k = 2 * i" by blast
      then show ?thesis using True tree_rounds [of i dim slot root inb sz n fin r]
        by (simp add: tree_pending tree_round_def) (simp add: tree_post_def)
    next
      case False
      then obtain i where i: "k = Suc (2 * i)" by (metis oddE Suc_eq_plus1)
      then show ?thesis using True tree_rounds [of i dim slot root inb sz n fin r]
        by (simp add: rounds_Suc tree_pending tree_round_def) (simp add: tree_post_def tree_wait_def)
    qed
  next
    case False
    with k have k: "k = 2 * dim" by simp
    have w: "wsend b (replicate m (WaitSend b')) = (if b' = b then m else 0)" "wrecv b (replicate m (WaitSend b')) = 0" for m b'
      by (induction m) auto
    from fin r obtain p where "local_only p"
      "fin r = p @ replicate (numSends (tree_steps slot root (inb r) sz n ?v dim)) (WaitSend (inb r))" by blast
    then show ?thesis using tree_rounds [of dim dim slot root inb sz n fin r]
      by (auto simp: k tree_pending tree_round_def local_only_posts w)
  qed
  then show "int (wsend b (?S r k)) \<le> fst (pending b (rounds ?S k r))" "int (wrecv b (?S r k)) \<le> snd (pending b (rounds ?S k r))"
    by auto
qed

section \<open>The contents after the tree\<close>

lemma flows_tree:
  assumes T: "length (T inb) = sz" "length (T (Out 0)) = sz" and src: "v = 0 \<Longrightarrow> V inb = UNIV" "v \<noteq> 0 \<Longrightarrow> inb = Out 0"
  shows "flows T V r [] (tree_steps slot root inb sz n v k)"
proof (induction k)
  case (Suc k)
  let ?p = "tree_steps slot root inb sz n v k"
  have "{0..<sz} \<subseteq> avail V r inb ?p" if "v < 2 ^ k"
  proof (cases "v = 0")
    case False
    have "surely r (Out 0) ?p = bsel (Out 0) (rposts r ?p)"
      using pending_posts(2) [of "Out 0" ?p r] by (simp add: tree_pending surely_def Let_def)
    then have "regions (Out 0) (surely r (Out 0) ?p) = regions (Out 0) (rposts r ?p)" by (simp add: regions_def)
    with tree_regions [of v k r slot root inb sz n] False that src(2) show ?thesis by (auto simp: avail_def)
  qed (simp add: avail_def src)
  then have "flows T V r ?p (tree_post slot root inb sz n v k @ tree_wait v k)"
    using T by (auto simp: tree_post_def tree_wait_def)
  with Suc show ?case by (simp add: flows_append)
qed simp

lemma tree_consistent:
  fixes M :: "nat \<Rightarrow> 'a mem"
  assumes root: "root < n" and n: "n \<le> 2 ^ dim" and M: "\<forall>r < n. length (M r (Out 0)) = sz"
    and tt: "tt = M root inb" "length tt = sz"
    and V: "inb = Out 0 \<Longrightarrow> own root = UNIV"
    and P: "\<forall>r < n. P r = tree_steps slot root (if r = root then inb else Out 0) sz n (vrank_of n root r) dim @ fin r"
    and rounds: "rounds_ok n (Suc (2 * dim)) (tree_round slot root (\<lambda>r. if r = root then inb else Out 0) sz n dim fin)"
    and fin: "\<forall>r < n. \<forall>p. sposts r (fin r) = [] \<and> rposts r (fin r) = [] \<and> flows (ring_T n M tt r) (ring_V n own r) r p (fin r)"
  shows "always_ends n P" "consistent n (ring_T n M tt) (ring_V n own) P"
proof -
  let ?inb = "\<lambda>r. if r = root then inb else Out 0"
  let ?S = "tree_round slot root ?inb sz n dim fin"
  have PS: "\<forall>r < n. P r = rounds ?S (Suc (2 * dim)) r"
    using P tree_rounds [of dim dim slot root ?inb sz n fin] by (simp add: rounds_Suc tree_round_def)
  show "always_ends n P" by (rule always_endsI [OF rounds PS])
  have wm: "well_matched n P"
  proof -
    have "\<forall>k < Suc (2 * dim). well_matched n (\<lambda>r. ?S r k)" using rounds unfolding rounds_ok_def by blast
    from matched_rounds [OF this] show ?thesis unfolding well_matched_def using PS by simp
  qed
  have T: "ring_T n M tt r (?inb r) = tt" "ring_T n M tt r (Out 0) = tt" if "r < n" for r
    using that tt(1) by (simp_all add: ring_T_def)
  have v0: "vrank_of n root r = 0 \<longleftrightarrow> r = root" if "r < n" for r
    using vrank_of_iff [of 0 n r root] root that by auto
  show "consistent n (ring_T n M tt) (ring_V n own) P"
    unfolding consistent_def
  proof (intro conjI allI impI)
    fix r assume r: "r < n"
    have "flows (ring_T n M tt r) (ring_V n own r) r [] (tree_steps slot root (?inb r) sz n (vrank_of n root r) dim)"
      using T [OF r] tt(2) v0 [OF r] V by (intro flows_tree) (auto simp: ring_V_def split: if_splits)
    with fin r P show "flows (ring_T n M tt r) (ring_V n own r) r [] (P r)" by (simp add: flows_append)
  next
    fix k :: chan assume k: "chan_src k < n" "chan_dst k < n"
    let ?s = "sel k (sposts (chan_src k) (P (chan_src k)))" and ?r = "sel k (rposts (chan_dst k) (P (chan_dst k)))"
    have "length ?s = length ?r" using arg_cong [OF matched_lens [OF wm k], of length] by (simp add: lens_def)
    moreover have "agree (ring_T n M tt) k (snd (?s ! i)) (snd (?r ! i))" if i: "i < length ?s" "i < length ?r" for i
    proof -
      have "?s ! i \<in> set (sposts (chan_src k) (P (chan_src k)))" "?r ! i \<in> set (rposts (chan_dst k) (P (chan_dst k)))"
        using nth_sel [OF i(1)] nth_sel [OF i(2)] by auto
      then have "snd (?s ! i) = (?inb (chan_src k), 0, sz)" "snd (?r ! i) = (Out 0, 0, sz)"
        using P k fin tree_sposts [of "?s ! i"] tree_rposts(1) [of "?r ! i"] by auto
      then show ?thesis using T k by (simp only: agree_def fst_conv snd_conv)
    qed
    ultimately show "list_all2 (\<lambda>x y. agree (ring_T n M tt) k (snd x) (snd y)) ?s ?r"
      unfolding list_all2_conv_all_nth by auto
  qed
qed

text \<open>
  C11: Broadcast. For any number of ranks up to \<open>2 ^ 30\<close> and any root, in place or from a separate
  input of the root, and whatever the interleaving of the ranks and of the network: the ranks
  neither deadlock nor run forever, and every rank ends with the data of the root.
\<close>

theorem broadcast_correct:
  assumes "0 < elementSize" "root < n" "n \<le> 2 ^ 30"
    and M: "\<forall>r < n. length (M r (Out 0)) = osize" "\<not> inplace \<longrightarrow> length (M root (In 0)) = osize"
  shows "\<exists>P. (\<forall>r < n. broadcast elementSize root tag (if r = root \<and> \<not> inplace then Some osize else None) (Some osize)
        \<lparr>ctx_rank = r, ctx_size = n\<rparr> = Inr (P r)) \<and>
    always_ends n P \<and>
    (\<forall>r < n. always_yields n P M r (Out 0) (M root (if inplace then Out 0 else In 0)))"
proof -
  let ?s = "slot_of kBroadcastSlotPrefix tag" and ?tt = "M root (if inplace then Out 0 else In 0)"
  define inb where "inb = (if inplace then Out 0 else In 0)"
  define own where "own = (\<lambda>r. if r = root \<and> inplace then UNIV else {} :: nat set)"
  define dim where "dim = log2ceil (of_nat n)"
  define steps where "steps = (\<lambda>r. tree_steps ?s root (if r = root then inb else Out 0) osize n (vrank_of n root r) dim)"
  define cp where "cp = (\<lambda>r. if r = root \<and> \<not> inplace then [Memcpy (Out 0) 0 (In 0) 0 osize] else [])"
  define fin where "fin = (\<lambda>r. cp r @ replicate (numSends (steps r)) (WaitSend (if r = root then inb else Out 0)))"
  define P where "P = (\<lambda>r. steps r @ fin r)"
  have "unat (of_nat n :: 32 word) = n" using assms(3) by (simp add: unat_of_nat take_bit_nat_eq_self_iff less_le_trans)
  then have dim: "n \<le> 2 ^ dim" using log2ceil_least [of "of_nat n"] by (simp add: dim_def)
  have loop: "broadcast_loop ?s root b osize n (vrank_of n root r) [0..<dim] (2 ^ dim - 1) =
      tree_steps ?s root b osize n (vrank_of n root r) dim" for b r
    unfolding tree_mask_0 tree_steps_def by (rule broadcast_loop_tree [OF vrank_of_less [OF assms(2)] dim]) simp
  have prog: "broadcast elementSize root tag (if r = root \<and> \<not> inplace then Some osize else None) (Some osize)
      \<lparr>ctx_rank = r, ctx_size = n\<rparr> = Inr (P r)" if "r < n" for r
    using assms(1,2) loop [of _ r]
    by (simp add: broadcast_def Let_def P_def fin_def cp_def steps_def inb_def dim_def vrank_of_def)
  have loc: "local_only (cp r)" for r by (simp add: cp_def local_only_def)
  have waits: "sposts r (replicate m (WaitSend b)) = []" "rposts r (replicate m (WaitSend b)) = []"
      "flows T V r p (replicate m (WaitSend b))" "copied b' (replicate m (WaitSend b)) = {}" for r m b b' p V and T :: "'a mem"
    by (induction m arbitrary: p) auto
  have rounds: "rounds_ok n (Suc (2 * dim)) (tree_round ?s root (\<lambda>r. if r = root then inb else Out 0) osize n dim fin)"
    using loc by (intro tree_rounds_ok [OF assms(2)]) (auto simp: fin_def steps_def)
  have tt: "?tt = M root inb" "length ?tt = osize" using M assms(2) by (simp_all add: inb_def)
  have fl: "flows (ring_T n M ?tt r) (ring_V n own r) r p (cp r)" if "r < n" for r p
    using that tt(2) by (auto simp: cp_def ring_T_def ring_V_def avail_def)
  have fin: "\<forall>r < n. \<forall>p. sposts r (fin r) = [] \<and> rposts r (fin r) = [] \<and> flows (ring_T n M ?tt r) (ring_V n own r) r p (fin r)"
    using fl by (simp add: fin_def local_only_posts [OF loc] waits flows_append)
  have V: "inb = Out 0 \<Longrightarrow> own root = UNIV" by (simp add: own_def inb_def split: if_splits)
  note con = tree_consistent [OF assms(2) dim M(1) tt _ _ rounds fin, of P]
  have Pr: "\<forall>r < n. P r = tree_steps ?s root (if r = root then inb else Out 0) osize n (vrank_of n root r) dim @ fin r"
    by (simp add: P_def steps_def)
  have init: "length (M r b) = length (ring_T n M ?tt r b) \<and>
      (\<forall>x \<in> ring_V n own r b. x < length (ring_T n M ?tt r b) \<longrightarrow> M r b ! x = ring_T n M ?tt r b ! x)" for r b
    using M(1) tt by (auto simp: ring_T_def ring_V_def own_def)
  have "always_yields n P M r (Out 0) (ring_T n M ?tt r (Out 0))" if r: "r < n" for r
  proof (rule always_yieldsI [OF con(2) [OF V Pr] init r])
    show "snd (pending (Out 0) (P r)) = 0"
      by (simp add: P_def fin_def steps_def tree_pending local_only_posts [OF loc])
    have v: "vrank_of n root r < 2 ^ dim" using vrank_of_less [OF assms(2), of r] dim by linarith
    have "vrank_of n root r = 0 \<longleftrightarrow> r = root" using vrank_of_iff [of 0 n r root] assms(2) r by auto
    then show "{..<length (ring_T n M ?tt r (Out 0))} \<subseteq> ring_V n own r (Out 0) \<union> copied (Out 0) (P r) \<union> regions (Out 0) (rposts r (P r))"
      using tt(2) r tree_regions [OF _ v, of r ?s root "Out 0" osize n]
      by (cases "r = root") (auto simp: ring_T_def ring_V_def own_def P_def fin_def cp_def steps_def)
  qed
  then have "always_yields n P M r (Out 0) ?tt" if "r < n" for r using that by (simp add: ring_T_def)
  with prog con(1) [OF V Pr] show ?thesis by blast
qed

theorem broadcast_correct_witness:
  "\<exists>P. (\<forall>r < 3. broadcast 1 1 7 (if r = 1 \<and> \<not> False then Some 2 else None) (Some 2) \<lparr>ctx_rank = r, ctx_size = 3\<rparr> = Inr (P r)) \<and>
    always_ends 3 P \<and>
    (\<forall>r < 3. always_yields 3 P (\<lambda>r b. if b = In 0 then [4, 5 :: nat] else [0, 0]) r (Out 0) [4, 5])"
  using broadcast_correct [where elementSize = 1 and root = 1 and n = 3 and osize = 2 and inplace = False and tag = 7
      and M = "\<lambda>r b. if b = In 0 then [4, 5 :: nat] else [0, 0]"]
  by simp

end
