(* ===== verification/Gloo_Symbolic.thy ===== *)
theory Gloo_Symbolic
  imports Gloo_Dataflow
begin

text \<open>
  Contents along asynchronous runs when programs also reduce. Each rank is executed symbolically,
  on its own: the symbolic state has the cells whose contents are known, and the operations in
  flight, whose regions must not be touched. The payloads of the messages are given by a table
  \<open>val\<close>, from the channel and the number of the message; a send must have the payload of the
  table, a receive gets it. If the symbolic executions of all ranks succeed, every interleaving of
  the ranks and the network leaves in the buffers what the symbolic states know.
\<close>

section \<open>Operations in flight\<close>

datatype flight = Flight (f_chan: chan) (f_no: nat) (f_buf: bufid) (f_off: nat) (f_len: nat)

definition flight :: "chan \<Rightarrow> nat \<Rightarrow> region \<Rightarrow> flight" where
  "flight k m x = Flight k m (fst x) (fst (snd x)) (snd (snd x))"

definition post_of :: "flight \<Rightarrow> chan \<times> region" where
  "post_of e = (f_chan e, f_buf e, f_off e, f_len e)"

lemma post_of_flight [simp]: "post_of (flight k m x) = (k, x)" "f_chan (flight k m x) = k" "f_no (flight k m x) = m"
  "f_buf (flight k m x) = fst x" "f_off (flight k m x) = fst (snd x)" "f_len (flight k m x) = snd (snd x)"
  by (simp_all add: post_of_def flight_def)

text \<open>The operations of a list of posts, numbered on each channel from \<open>f\<close> on.\<close>

fun number :: "(chan \<Rightarrow> nat) \<Rightarrow> (chan \<times> region) list \<Rightarrow> flight list" where
  "number f [] = []"
| "number f (x # xs) = flight (fst x) (f (fst x)) (snd x) # number (f(fst x := Suc (f (fst x)))) xs"

abbreviation numbered :: "(chan \<times> region) list \<Rightarrow> flight list" where
  "numbered xs \<equiv> number (\<lambda>_. 0) xs"

lemma number_append: "number f (xs @ ys) = number f xs @ number (\<lambda>k. f k + length (sel k xs)) ys"
proof (induction xs arbitrary: f)
  case (Cons x xs)
  have eq: "(\<lambda>k. (f(fst x := Suc (f (fst x)))) k + length (sel k xs)) = (\<lambda>k. f k + length (sel k (x # xs)))" by (rule ext) simp
  show ?case unfolding append_Cons number.simps Cons.IH eq ..
qed simp

lemma numbered_append: "numbered (xs @ [x]) = numbered xs @ [flight (fst x) (length (sel (fst x) xs)) (snd x)]"
  by (simp add: number_append)

lemma post_of_number: "map post_of (number f xs) = xs"
  by (induction xs arbitrary: f) simp_all

lemma number_taken:
  "sel k (map post_of (filter (\<lambda>e. f_no e < f (f_chan e) + t (f_chan e)) (number f xs))) = take (t k) (sel k xs)"
proof (induction xs arbitrary: f t)
  case (Cons x xs)
  let ?f = "f(fst x := Suc (f (fst x)))" and ?t = "t(fst x := t (fst x) - 1)"
  show ?case
  proof (cases "t (fst x) = 0")
    case False
    then have eq: "(\<lambda>e. f_no e < ?f (f_chan e) + ?t (f_chan e)) = (\<lambda>e. f_no e < f (f_chan e) + t (f_chan e))" by (intro ext) simp
    have "sel k (map post_of (filter (\<lambda>e. f_no e < f (f_chan e) + t (f_chan e)) (number ?f xs))) = take (?t k) (sel k xs)"
      using Cons.IH [of ?f ?t] unfolding eq .
    with False show ?thesis by (cases "fst x = k"; cases "t (fst x)") (simp_all del: fun_upd_apply, use prod.collapse [of x] in simp_all)
  next
    case True
    have no: "f (f_chan e) \<le> f_no e" if "e \<in> set (number f ys)" for e f ys
      using that by (induction ys arbitrary: f) (fastforce split: if_splits)+
    have "filter (\<lambda>e. f_no e < f (f_chan e) + t (f_chan e)) (number ?f xs) = filter (\<lambda>e. f_no e < ?f (f_chan e) + t (f_chan e)) (number ?f xs)"
    proof (rule filter_cong [OF refl])
      fix e assume "e \<in> set (number ?f xs)"
      from no [OF this] show "(f_no e < f (f_chan e) + t (f_chan e)) = (f_no e < ?f (f_chan e) + t (f_chan e))"
        using True by (cases "f_chan e = fst x") auto
    qed
    then have "sel k (map post_of (filter (\<lambda>e. f_no e < f (f_chan e) + t (f_chan e)) (number ?f xs))) = take (t k) (sel k xs)"
      using Cons.IH [of ?f t] by (simp only:)
    with True show ?thesis by (cases "fst x = k") (simp_all del: fun_upd_apply)
  qed
qed simp

text \<open>A log that is a prefix of the posts on every channel has as many entries as posts have numbers below its length.\<close>

lemma log_count:
  assumes "\<And>k. prefix (sel k ys) (sel k xs)"
  shows "length (bsel b ys) = length (filter (\<lambda>e. f_buf e = b \<and> f_no e < length (sel (f_chan e) ys)) (numbered xs))"
proof -
  let ?zs = "map post_of (filter (\<lambda>e. f_no e < length (sel (f_chan e) ys)) (numbered xs))"
  have "sel k ?zs = sel k ys" for k
    using number_taken [of k "\<lambda>_. 0" "\<lambda>k. length (sel k ys)" xs] assms [of k] by (auto simp: prefix_def)
  then have "count (mset ys) x = count (mset ?zs) x" for x unfolding count_sel [of ys x] count_sel [of ?zs x] by simp
  then have "mset ys = mset ?zs" by (rule multiset_eqI)
  then have "mset (bsel b ys) = mset (bsel b ?zs)" by (simp add: bsel_def mset_filter)
  from arg_cong [OF this, of size] have "length (bsel b ys) = length (bsel b ?zs)" by (simp only: size_mset)
  also have "\<dots> = length (filter (\<lambda>e. f_buf e = b \<and> f_no e < length (sel (f_chan e) ys)) (numbered xs))"
    by (simp add: bsel_def filter_map o_def post_of_def conj_commute)
  finally show ?thesis .
qed

lemma in_numbered: "e \<in> set (numbered xs) \<longleftrightarrow> f_no e < length (sel (f_chan e) xs) \<and> sel (f_chan e) xs ! f_no e = post_of e"
proof (induction xs rule: rev_induct)
  case (snoc x xs)
  show ?case
  proof (cases "f_chan e = fst x")
    case True
    have "e = flight (fst x) (length (sel (fst x) xs)) (snd x) \<longleftrightarrow> f_no e = length (sel (fst x) xs) \<and> x = post_of e"
      using True by (cases e) (auto simp: flight_def post_of_def prod_eq_iff)
    with True snoc show ?thesis by (auto simp: numbered_append nth_append less_Suc_eq)
  next
    case False
    then have "e \<noteq> flight (fst x) (length (sel (fst x) xs)) (snd x)" by auto
    with False snoc show ?thesis by (auto simp: numbered_append)
  qed
qed simp

section \<open>Waiting\<close>

text \<open>
  After one more wait on the operations \<open>F\<close>, of which \<open>w\<close> were waited for without knowing which: the
  operations that are complete, and what is left. On a single channel the oldest one is complete;
  after as many waits as operations all of them are.
\<close>

definition one_chan :: "flight list \<Rightarrow> bool" where
  "one_chan F \<longleftrightarrow> (\<forall>e \<in> set F. f_chan e = f_chan (hd F))"

definition retire :: "flight list \<Rightarrow> nat \<Rightarrow> flight list \<times> flight list \<times> nat" where
  "retire F w = (if w = 0 \<and> one_chan F then ([hd F], tl F, 0) else if Suc w = length F then (F, [], 0) else ([], F, Suc w))"

text \<open>The posts of a buffer, with \<open>F\<close> still in flight and \<open>w\<close> waits counted; the others are complete by the log.\<close>

definition settled :: "bufid \<Rightarrow> (chan \<times> region) list \<Rightarrow> (chan \<times> region) list \<Rightarrow> nat \<Rightarrow> flight list \<Rightarrow> nat \<Rightarrow> bool" where
  "settled b xs ys waits F w \<longleftrightarrow>
     (\<exists>G. filter (\<lambda>e. f_buf e = b) (numbered xs) = G @ F \<and> waits = length G + w \<and>
       (\<forall>e \<in> set G. f_no e < length (sel (f_chan e) ys)))"

lemma number_increasing:
  "sorted_wrt (\<lambda>e e'. f_chan e = f_chan e' \<longrightarrow> f_no e < f_no e') (numbered xs)"
proof (induction xs rule: rev_induct)
  case (snoc x xs)
  then show ?case by (auto simp: numbered_append sorted_wrt_append in_numbered)
qed simp

lemma settled_retire:
  assumes "settled b xs ys waits F w" and pre: "\<And>k. prefix (sel k ys) (sel k xs)"
    and "Suc waits \<le> length (bsel b ys)" and "retire F w = (D, F', w')"
  shows "settled b xs ys (Suc waits) F' w'" "\<forall>e \<in> set D. f_no e < length (sel (f_chan e) ys)" "F = D @ F'"
proof -
  let ?c = "\<lambda>e. f_no e < length (sel (f_chan e) ys)"
  from assms(1) obtain G where G: "filter (\<lambda>e. f_buf e = b) (numbered xs) = G @ F" "waits = length G + w" "\<forall>e \<in> set G. ?c e"
    by (auto simp: settled_def)
  have "filter (\<lambda>e. f_buf e = b \<and> ?c e) (numbered xs) = filter ?c (filter (\<lambda>e. f_buf e = b) (numbered xs))"
    by (simp add: conj_commute)
  also have "\<dots> = G @ filter ?c F" using G by simp
  finally have n: "Suc w \<le> length (filter ?c F)" using assms(3) G(2) log_count [OF pre, of b] by simp
  then have F: "F \<noteq> []" by auto
  have "sorted_wrt (\<lambda>e e'. f_chan e = f_chan e' \<longrightarrow> f_no e < f_no e') (G @ F)"
    using sorted_wrt_filter [OF number_increasing, of "\<lambda>e. f_buf e = b" xs] by (simp only: G(1))
  then have inc: "sorted_wrt (\<lambda>e e'. f_chan e = f_chan e' \<longrightarrow> f_no e < f_no e') F" by (simp add: sorted_wrt_append)
  consider (one) "w = 0" "one_chan F" | (all) "\<not> (w = 0 \<and> one_chan F)" "Suc w = length F"
    | (more) "\<not> (w = 0 \<and> one_chan F)" "Suc w \<noteq> length F" by blast
  then have "F = D @ F' \<and> (\<forall>e \<in> set D. ?c e) \<and> Suc w = length D + w'"
  proof cases
    case one
    then have D: "D = [hd F]" "F' = tl F" "w' = 0" using assms(4) by (auto simp: retire_def)
    from n have "filter ?c F \<noteq> []" by auto
    then obtain e where e: "e \<in> set F" "?c e" by (auto simp: filter_empty_conv)
    then have "f_chan e = f_chan (hd F)" using one(2) by (simp add: one_chan_def)
    moreover have "f_no (hd F) \<le> f_no e"
      using inc e one(2) F by (cases F) (auto simp: one_chan_def)
    ultimately have "?c (hd F)" using e(2) by simp
    with D F one show ?thesis by simp
  next
    case all
    then have D: "D = F" "F' = []" "w' = 0" using assms(4) by (auto simp: retire_def)
    have "length (filter ?c F) = length F" using n all(2) length_filter_le [of ?c F] by linarith
    then have "\<forall>e \<in> set F. ?c e" using length_filter_less [of _ F ?c] by fastforce
    with D all show ?thesis by simp
  next
    case more
    then show ?thesis using assms(4) by (auto simp: retire_def)
  qed
  moreover from this have "filter (\<lambda>e. f_buf e = b) (numbered xs) = (G @ D) @ F'" using G(1) by simp
  ultimately show "settled b xs ys (Suc waits) F' w'" "\<forall>e \<in> set D. ?c e" "F = D @ F'"
    using G(2,3) unfolding settled_def by (auto intro!: exI [of _ "G @ D"])
qed

section \<open>Symbolic execution of a rank\<close>

record 'a sym =
  sy_mem :: "bufid \<Rightarrow> nat \<Rightarrow> 'a option"
  sy_snd :: "bufid \<Rightarrow> flight list"
  sy_sw :: "bufid \<Rightarrow> nat"
  sy_rcv :: "bufid \<Rightarrow> flight list"
  sy_rw :: "bufid \<Rightarrow> nat"
  sy_ns :: "chan \<Rightarrow> nat"
  sy_nr :: "chan \<Rightarrow> nat"

definition cells :: "(bufid \<Rightarrow> nat \<Rightarrow> 'a option) \<Rightarrow> bufid \<Rightarrow> nat \<Rightarrow> nat \<Rightarrow> 'a option list" where
  "cells C b off n = map (C b) [off..<off + n]"

definition put :: "bufid \<Rightarrow> nat \<Rightarrow> 'a list \<Rightarrow> (bufid \<Rightarrow> nat \<Rightarrow> 'a option) \<Rightarrow> bufid \<Rightarrow> nat \<Rightarrow> 'a option" where
  "put b off xs C = C(b := \<lambda>x. if off \<le> x \<and> x < off + length xs then Some (xs ! (x - off)) else C b x)"

definition forget :: "bufid \<Rightarrow> nat \<Rightarrow> nat \<Rightarrow> (bufid \<Rightarrow> nat \<Rightarrow> 'a option) \<Rightarrow> bufid \<Rightarrow> nat \<Rightarrow> 'a option" where
  "forget b off n C = C(b := \<lambda>x. if off \<le> x \<and> x < off + n then None else C b x)"

definition apart :: "nat \<Rightarrow> nat \<Rightarrow> flight list \<Rightarrow> bool" where
  "apart off n F \<longleftrightarrow> (\<forall>e \<in> set F. off + n \<le> f_off e \<or> f_off e + f_len e \<le> off)"

definition learn :: "(chan \<Rightarrow> nat \<Rightarrow> 'a list) \<Rightarrow> flight \<Rightarrow> (bufid \<Rightarrow> nat \<Rightarrow> 'a option) \<Rightarrow> bufid \<Rightarrow> nat \<Rightarrow> 'a option" where
  "learn val e = put (f_buf e) (f_off e) (val (f_chan e) (f_no e))"

text \<open>A local write, which needs its target free of operations in flight and inside the buffer.\<close>

definition sym_write :: "(bufid \<Rightarrow> nat) \<Rightarrow> bufid \<Rightarrow> nat \<Rightarrow> 'a list \<Rightarrow> 'a sym \<Rightarrow> 'a sym option" where
  "sym_write len b off xs s =
     (if off + length xs \<le> len b \<and> apart off (length xs) (sy_snd s b) \<and> apart off (length xs) (sy_rcv s b)
      then Some (s\<lparr>sy_mem := put b off xs (sy_mem s)\<rparr>) else None)"

text \<open>
  The parameters: the reduction function and the size of an element, the payloads, the sizes of
  the buffers of the rank and its number.
\<close>

fun sym_do :: "('a list \<Rightarrow> 'a list \<Rightarrow> nat \<Rightarrow> 'a list) \<Rightarrow> nat \<Rightarrow> (chan \<Rightarrow> nat \<Rightarrow> 'a list) \<Rightarrow> (bufid \<Rightarrow> nat) \<Rightarrow> nat \<Rightarrow> cmd \<Rightarrow> 'a sym \<Rightarrow> 'a sym option" where
  "sym_do red es val len r (Send b dst sl off n) s =
     (let k = (r, dst, sl); m = sy_ns s k
      in if cells (sy_mem s) b off n = map Some (val k m)
         then Some (s\<lparr>sy_snd := (sy_snd s)(b := sy_snd s b @ [flight k m (b, off, n)]), sy_ns := (sy_ns s)(k := Suc m)\<rparr>)
         else None)"
| "sym_do red es val len r (Recv b src sl off n) s =
     (let k = (src, r, sl); m = sy_nr s k
      in if length (val k m) = n \<and> off + n \<le> len b \<and> apart off n (sy_snd s b) \<and> apart off n (sy_rcv s b)
         then Some (s\<lparr>sy_rcv := (sy_rcv s)(b := sy_rcv s b @ [flight k m (b, off, n)]), sy_nr := (sy_nr s)(k := Suc m),
                      sy_mem := forget b off n (sy_mem s)\<rparr>)
         else None)"
| "sym_do red es val len r (WaitSend b) s =
     (if sy_snd s b = [] then None else case retire (sy_snd s b) (sy_sw s b) of (D, F, w) \<Rightarrow>
        Some (s\<lparr>sy_snd := (sy_snd s)(b := F), sy_sw := (sy_sw s)(b := w)\<rparr>))"
| "sym_do red es val len r (WaitRecv b) s =
     (if sy_rcv s b = [] then None else case retire (sy_rcv s b) (sy_rw s b) of (D, F, w) \<Rightarrow>
        Some (s\<lparr>sy_rcv := (sy_rcv s)(b := F), sy_rw := (sy_rw s)(b := w), sy_mem := fold (learn val) D (sy_mem s)\<rparr>))"
| "sym_do red es val len r (Memcpy b off b' off' n) s =
     (if None \<notin> set (cells (sy_mem s) b' off' n)
      then sym_write len b off (map the (cells (sy_mem s) b' off' n)) s else None)"
| "sym_do red es val len r (Reduce b off b1 off1 b2 off2 n) s =
     (if None \<notin> set (cells (sy_mem s) b1 off1 (n * es)) \<and> None \<notin> set (cells (sy_mem s) b2 off2 (n * es))
      then sym_write len b off (red (map the (cells (sy_mem s) b1 off1 (n * es))) (map the (cells (sy_mem s) b2 off2 (n * es))) n) s
      else None)"

fun sym_run :: "('a list \<Rightarrow> 'a list \<Rightarrow> nat \<Rightarrow> 'a list) \<Rightarrow> nat \<Rightarrow> (chan \<Rightarrow> nat \<Rightarrow> 'a list) \<Rightarrow> (bufid \<Rightarrow> nat) \<Rightarrow> nat \<Rightarrow> program \<Rightarrow> 'a sym \<Rightarrow> 'a sym option" where
  "sym_run red es val len r [] s = Some s"
| "sym_run red es val len r (x # p) s =
     (case sym_do red es val len r x s of None \<Rightarrow> None | Some s' \<Rightarrow> sym_run red es val len r p s')"

definition sym_init :: "'a mem \<Rightarrow> 'a sym" where
  "sym_init m = \<lparr>sy_mem = (\<lambda>b x. if x < length (m b) then Some (m b ! x) else None), sy_snd = (\<lambda>_. []), sy_sw = (\<lambda>_. 0),
     sy_rcv = (\<lambda>_. []), sy_rw = (\<lambda>_. 0), sy_ns = (\<lambda>_. 0), sy_nr = (\<lambda>_. 0)\<rparr>"

text \<open>A reduction function reads and writes \<open>n\<close> elements of \<open>es\<close> bytes.\<close>

definition reducer :: "nat \<Rightarrow> ('a list \<Rightarrow> 'a list \<Rightarrow> nat \<Rightarrow> 'a list) \<Rightarrow> bool" where
  "reducer es red \<longleftrightarrow> (\<forall>xs ys n. n * es \<le> length xs \<longrightarrow> n * es \<le> length ys \<longrightarrow>
     length (red xs ys n) = n * es \<and> red (take (n * es) xs) (take (n * es) ys) n = red xs ys n)"

lemma sym_run_append: "sym_run red es val len r (p @ q) s = Option.bind (sym_run red es val len r p s) (sym_run red es val len r q)"
  by (induction p arbitrary: s) (simp_all split: option.splits)

lemma cells_cong: "(\<And>x. off \<le> x \<Longrightarrow> x < off + n \<Longrightarrow> C b x = C' b x) \<Longrightarrow> cells C b off n = cells C' b off n"
  by (simp add: cells_def)

lemma length_cells [simp]: "length (cells C b off n) = n"
  by (simp add: cells_def)

lemma nth_cells: "i < n \<Longrightarrow> cells C b off n ! i = C b (off + i)"
  by (simp add: cells_def)

lemma cells_iff: "cells C b off n = map Some xs \<longleftrightarrow> length xs = n \<and> (\<forall>i < n. C b (off + i) = Some (xs ! i))"
  by (auto simp: list_eq_iff_nth_eq nth_cells)

section \<open>What the symbolic states keep\<close>

definition unknown :: "(bufid \<Rightarrow> nat \<Rightarrow> 'a option) \<Rightarrow> flight \<Rightarrow> bool" where
  "unknown C e \<longleftrightarrow> (\<forall>x. f_off e \<le> x \<longrightarrow> x < f_off e + f_len e \<longrightarrow> C (f_buf e) x = None)"

definition sent_ok :: "(chan \<Rightarrow> nat \<Rightarrow> 'a list) \<Rightarrow> bufid \<Rightarrow> (bufid \<Rightarrow> nat \<Rightarrow> 'a option) \<Rightarrow> flight \<Rightarrow> bool" where
  "sent_ok val b C e \<longleftrightarrow> f_buf e = b \<and> cells C b (f_off e) (f_len e) = map Some (val (f_chan e) (f_no e))"

definition posted_ok :: "(chan \<Rightarrow> nat \<Rightarrow> 'a list) \<Rightarrow> (bufid \<Rightarrow> nat) \<Rightarrow> bufid \<Rightarrow> (bufid \<Rightarrow> nat \<Rightarrow> 'a option) \<Rightarrow> flight \<Rightarrow> bool" where
  "posted_ok val len b C e \<longleftrightarrow> f_buf e = b \<and> length (val (f_chan e) (f_no e)) = f_len e \<and> f_off e + f_len e \<le> len b \<and> unknown C e"

definition sym_wf :: "(chan \<Rightarrow> nat \<Rightarrow> 'a list) \<Rightarrow> (bufid \<Rightarrow> nat) \<Rightarrow> 'a sym \<Rightarrow> bool" where
  "sym_wf val len s \<longleftrightarrow> (\<forall>b. (\<forall>e \<in> set (sy_snd s b). sent_ok val b (sy_mem s) e) \<and>
     (\<forall>e \<in> set (sy_rcv s b). posted_ok val len b (sy_mem s) e) \<and>
     sorted_wrt (\<lambda>e e'. apart (f_off e) (f_len e) [e']) (sy_rcv s b))"

lemma sym_wfD:
  assumes "sym_wf val len s"
  shows "e \<in> set (sy_snd s b) \<Longrightarrow> sent_ok val b (sy_mem s) e" "e \<in> set (sy_rcv s b) \<Longrightarrow> posted_ok val len b (sy_mem s) e"
    "sorted_wrt (\<lambda>e e'. apart (f_off e) (f_len e) [e']) (sy_rcv s b)"
  using assms unfolding sym_wf_def by blast+

lemma sent_ok_cong:
  assumes "sent_ok val b C e" "\<And>x. f_off e \<le> x \<Longrightarrow> x < f_off e + f_len e \<Longrightarrow> C b x = C' b x"
  shows "sent_ok val b C' e"
  using assms cells_cong [of "f_off e" "f_len e" C b C'] by (simp add: sent_ok_def)

lemma posted_ok_cong:
  assumes "posted_ok val len b C e" "\<And>x. f_off e \<le> x \<Longrightarrow> x < f_off e + f_len e \<Longrightarrow> C b x = C' b x"
  shows "posted_ok val len b C' e"
  using assms by (auto simp: posted_ok_def unknown_def)

text \<open>Changes of the memory outside the operations in flight.\<close>

lemma wf_mem:
  assumes "sym_wf val len s"
    and keep: "\<And>b e x. e \<in> set (sy_snd s b) \<or> e \<in> set (sy_rcv s b) \<Longrightarrow> f_off e \<le> x \<Longrightarrow> x < f_off e + f_len e \<Longrightarrow> sy_mem s b x = C b x"
  shows "sym_wf val len (s\<lparr>sy_mem := C\<rparr>)"
  unfolding sym_wf_def
proof (intro allI conjI ballI)
  fix b e
  show "sorted_wrt (\<lambda>e e'. apart (f_off e) (f_len e) [e']) (sy_rcv (s\<lparr>sy_mem := C\<rparr>) b)" using sym_wfD(3) [OF assms(1)] by simp
  assume "e \<in> set (sy_snd (s\<lparr>sy_mem := C\<rparr>) b)"
  then have e: "e \<in> set (sy_snd s b)" by simp
  then show "sent_ok val b (sy_mem (s\<lparr>sy_mem := C\<rparr>)) e"
    using sent_ok_cong [OF sym_wfD(1) [OF assms(1) e], of C] keep [of e b] by simp
next
  fix b e assume "e \<in> set (sy_rcv (s\<lparr>sy_mem := C\<rparr>) b)"
  then have e: "e \<in> set (sy_rcv s b)" by simp
  then show "posted_ok val len b (sy_mem (s\<lparr>sy_mem := C\<rparr>)) e"
    using posted_ok_cong [OF sym_wfD(2) [OF assms(1) e], of C] keep [of e b] by simp
qed

lemma wf_write:
  assumes "sym_wf val len s" "sym_write len b off xs s = Some s'"
  shows "sym_wf val len s'"
proof -
  from assms(2) have a: "apart off (length xs) (sy_snd s b)" "apart off (length xs) (sy_rcv s b)"
    and s': "s' = s\<lparr>sy_mem := put b off xs (sy_mem s)\<rparr>" by (auto simp: sym_write_def split: if_splits)
  show ?thesis unfolding s'
    using a by (intro wf_mem [OF assms(1)]) (auto simp: put_def apart_def)
qed

lemma learn_other:
  "(\<And>e. e \<in> set D \<Longrightarrow> \<not> (f_buf e = b \<and> f_off e \<le> x \<and> x < f_off e + length (val (f_chan e) (f_no e)))) \<Longrightarrow>
    fold (learn val) D C b x = C b x"
proof (induction D arbitrary: C)
  case (Cons e D)
  then have "learn val e C b x = C b x" by (auto simp: learn_def put_def)
  with Cons show ?case by simp
qed simp

lemma learned:
  assumes "sorted_wrt (\<lambda>e e'. apart (f_off e) (f_len e) [e']) D" "\<And>e. e \<in> set D \<Longrightarrow> f_buf e = b \<and> length (val (f_chan e) (f_no e)) = f_len e"
    and "e \<in> set D" "f_off e \<le> x" "x < f_off e + f_len e"
  shows "fold (learn val) D C b x = Some (val (f_chan e) (f_no e) ! (x - f_off e))"
  using assms
proof (induction D arbitrary: C)
  case (Cons d D)
  show ?case
  proof (cases "e = d")
    case True
    have "fold (learn val) D (learn val d C) b x = learn val d C b x"
    proof (rule learn_other)
      fix e' assume e': "e' \<in> set D"
      then have "apart (f_off d) (f_len d) [e']" "length (val (f_chan e') (f_no e')) = f_len e'" using Cons.prems(1,2) by auto
      then show "\<not> (f_buf e' = b \<and> f_off e' \<le> x \<and> x < f_off e' + length (val (f_chan e') (f_no e')))"
        using Cons.prems(4,5) True by (auto simp: apart_def)
    qed
    moreover have "learn val d C b x = Some (val (f_chan d) (f_no d) ! (x - f_off d))"
      using Cons.prems True by (simp add: learn_def put_def)
    ultimately show ?thesis using True by simp
  next
    case False
    with Cons show ?thesis by simp
  qed
qed simp

lemma wf_waitRecv:
  assumes wf: "sym_wf val len s" and DF: "sy_rcv s b = D @ F"
  shows "sym_wf val len (s\<lparr>sy_rcv := (sy_rcv s)(b := F), sy_rw := w, sy_mem := fold (learn val) D (sy_mem s)\<rparr>)"
proof -
  let ?s = "s\<lparr>sy_rcv := (sy_rcv s)(b := F), sy_rw := w\<rparr>"
  have "sorted_wrt (\<lambda>e e'. apart (f_off e) (f_len e) [e']) F" using sym_wfD(3) [OF wf, of b] by (simp add: DF sorted_wrt_append)
  moreover have "posted_ok val len b (sy_mem s) e" if "e \<in> set F" for e using that DF by (intro sym_wfD(2) [OF wf]) simp
  ultimately have wf': "sym_wf val len ?s" using sym_wfD [OF wf] unfolding sym_wf_def by simp
  have "sym_wf val len (?s\<lparr>sy_mem := fold (learn val) D (sy_mem s)\<rparr>)"
  proof (rule wf_mem [OF wf'])
    fix b' e x assume e: "e \<in> set (sy_snd ?s b') \<or> e \<in> set (sy_rcv ?s b')" and x: "f_off e \<le> x" "x < f_off e + f_len e"
    have "\<not> (f_buf d = b' \<and> f_off d \<le> x \<and> x < f_off d + length (val (f_chan d) (f_no d)))" if d: "d \<in> set D" for d
    proof
      assume h: "f_buf d = b' \<and> f_off d \<le> x \<and> x < f_off d + length (val (f_chan d) (f_no d))"
      from d DF have dok: "posted_ok val len b (sy_mem s) d" by (intro sym_wfD(2) [OF wf]) simp
      with h have b': "b' = b" and none: "sy_mem s b x = None" and dx: "x < f_off d + f_len d" by (auto simp: posted_ok_def unknown_def)
      from e show False
      proof
        assume "e \<in> set (sy_snd ?s b')"
        then have "sent_ok val b (sy_mem s) e" using sym_wfD(1) [OF wf] b' by simp
        then have "sy_mem s b (f_off e + (x - f_off e)) \<noteq> None" using x by (auto simp: sent_ok_def cells_iff dest: spec [of _ "x - f_off e"])
        with none x show False by simp
      next
        assume "e \<in> set (sy_rcv ?s b')"
        then have "e \<in> set F" using b' by simp
        then have "apart (f_off d) (f_len d) [e]" using sym_wfD(3) [OF wf, of b] d by (auto simp: DF sorted_wrt_append)
        with x h dx show False by (auto simp: apart_def)
      qed
    qed
    then show "sy_mem ?s b' x = fold (learn val) D (sy_mem s) b' x" using learn_other [of D b' x val "sy_mem s"] by simp
  qed
  then show ?thesis by simp
qed

lemma retire_append: "F \<noteq> [] \<Longrightarrow> retire F w = (D, F', w') \<Longrightarrow> F = D @ F'"
  by (auto simp: retire_def split: if_splits)

lemma wf_do:
  assumes wf: "sym_wf val len s" and step: "sym_do red es val len r x s = Some s'"
  shows "sym_wf val len s'"
proof (cases x)
  case (Send b dst sl off n)
  let ?k = "(r, dst, sl)"
  from step have c: "cells (sy_mem s) b off n = map Some (val ?k (sy_ns s ?k))"
    and s': "s' = s\<lparr>sy_snd := (sy_snd s)(b := sy_snd s b @ [flight ?k (sy_ns s ?k) (b, off, n)]), sy_ns := (sy_ns s)(?k := Suc (sy_ns s ?k))\<rparr>"
    by (auto simp: Send Let_def split: if_splits)
  have "sent_ok val b (sy_mem s) (flight ?k (sy_ns s ?k) (b, off, n))" using c by (simp add: sent_ok_def)
  then show ?thesis using sym_wfD [OF wf] unfolding sym_wf_def by (auto simp: s')
next
  case (Recv b src sl off n)
  let ?k = "(src, r, sl)"
  let ?e = "flight ?k (sy_nr s ?k) (b, off, n)"
  from step have c: "length (val ?k (sy_nr s ?k)) = n" "off + n \<le> len b" "apart off n (sy_snd s b)" "apart off n (sy_rcv s b)"
    and s': "s' = s\<lparr>sy_rcv := (sy_rcv s)(b := sy_rcv s b @ [?e]), sy_nr := (sy_nr s)(?k := Suc (sy_nr s ?k)), sy_mem := forget b off n (sy_mem s)\<rparr>"
    by (auto simp: Recv Let_def split: if_splits)
  have ok: "posted_ok val len b (forget b off n (sy_mem s)) ?e" using c by (simp add: posted_ok_def unknown_def forget_def)
  have so: "sorted_wrt (\<lambda>e e'. apart (f_off e) (f_len e) [e']) (sy_rcv s b @ [?e])"
    using sym_wfD(3) [OF wf, of b] c(4) by (auto simp: sorted_wrt_append apart_def)
  have "sym_wf val len (s\<lparr>sy_mem := forget b off n (sy_mem s)\<rparr>)"
    using c(3,4) by (intro wf_mem [OF wf]) (auto simp: forget_def apart_def)
  from sym_wfD [OF this] ok so show ?thesis unfolding sym_wf_def by (auto simp: s')
next
  case (WaitSend b)
  obtain D F w where R: "retire (sy_snd s b) (sy_sw s b) = (D, F, w)" by (cases "retire (sy_snd s b) (sy_sw s b)")
  have ne: "sy_snd s b \<noteq> []" using step by (auto simp: WaitSend split: if_splits)
  have "sent_ok val b (sy_mem s) e" if "e \<in> set F" for e using that retire_append [OF ne R] by (intro sym_wfD(1) [OF wf]) simp
  with step R ne show ?thesis using sym_wfD [OF wf] unfolding sym_wf_def by (auto simp: WaitSend split: if_splits)
next
  case (WaitRecv b)
  obtain D F w where R: "retire (sy_rcv s b) (sy_rw s b) = (D, F, w)" by (cases "retire (sy_rcv s b) (sy_rw s b)")
  have ne: "sy_rcv s b \<noteq> []" using step by (auto simp: WaitRecv split: if_splits)
  show ?thesis using wf_waitRecv [OF wf retire_append [OF ne R], of "(sy_rw s)(b := w)"] step R ne by (auto simp: WaitRecv)
next
  case (Memcpy b off b' off' n)
  then show ?thesis using step wf_write [OF wf] by (auto split: if_splits)
next
  case (Reduce b off b1 off1 b2 off2 n)
  then show ?thesis using step wf_write [OF wf] by (auto split: if_splits)
qed

section \<open>Symbolic and concrete states\<close>

lemma log_prefix:
  assumes "cluster_inv P c"
  shows "prefix (sel k (cl_tlog c r)) (sel k (sposts r (cl_done c r)))" "prefix (sel k (cl_dlog c r)) (sel k (rposts r (cl_done c r)))"
proof -
  have chan: "chan_ok c k" using assms unfolding cluster_inv_def logs_ok_def by blast
  have own: "\<forall>x \<in> set (cl_tlog c r). chan_src (fst x) = r" "\<forall>x \<in> set (cl_dlog c r). chan_dst (fst x) = r"
    using assms unfolding cluster_inv_def logs_own_def by blast+
  have "chan_src k \<noteq> r \<Longrightarrow> sel k (cl_tlog c r) = []" using own(1) sel_nonempty [of k "cl_tlog c r"] by blast
  then show "prefix (sel k (cl_tlog c r)) (sel k (sposts r (cl_done c r)))"
    using chan by (cases "chan_src k = r") (auto simp: chan_ok_def)
  have "chan_dst k \<noteq> r \<Longrightarrow> sel k (cl_dlog c r) = []" using own(2) sel_nonempty [of k "cl_dlog c r"] by blast
  then show "prefix (sel k (cl_dlog c r)) (sel k (rposts r (cl_done c r)))"
    using chan by (cases "chan_dst k = r") (auto simp: chan_ok_def)
qed

definition known_ok :: "(bufid \<Rightarrow> nat) \<Rightarrow> (bufid \<Rightarrow> nat \<Rightarrow> 'a option) \<Rightarrow> 'a mem \<Rightarrow> bool" where
  "known_ok len C m \<longleftrightarrow> (\<forall>b. length (m b) = len b) \<and> (\<forall>b x v. C b x = Some v \<longrightarrow> x < len b \<and> m b ! x = v)"

definition arrived :: "(chan \<Rightarrow> nat \<Rightarrow> 'a list) \<Rightarrow> (chan \<times> region) list \<Rightarrow> (bufid \<Rightarrow> flight list) \<Rightarrow> 'a mem \<Rightarrow> bool" where
  "arrived val ys F m \<longleftrightarrow> (\<forall>b. \<forall>e \<in> set (F b). f_no e < length (sel (f_chan e) ys) \<longrightarrow> read_at (f_off e) (f_len e) (m b) = val (f_chan e) (f_no e))"

definition link :: "(chan \<Rightarrow> nat \<Rightarrow> 'a list) \<Rightarrow> (bufid \<Rightarrow> nat) \<Rightarrow> nat \<Rightarrow> cluster \<Rightarrow> 'a store \<Rightarrow> 'a sym \<Rightarrow> bool" where
  "link val len r c d s \<longleftrightarrow>
     sy_ns s = (\<lambda>k. length (sel k (sposts r (cl_done c r)))) \<and> sy_nr s = (\<lambda>k. length (sel k (rposts r (cl_done c r)))) \<and>
     (\<forall>b. settled b (sposts r (cl_done c r)) (cl_tlog c r) (wsend b (cl_done c r)) (sy_snd s b) (sy_sw s b)) \<and>
     (\<forall>b. settled b (rposts r (cl_done c r)) (cl_dlog c r) (wrecv b (cl_done c r)) (sy_rcv s b) (sy_rw s b)) \<and>
     known_ok len (sy_mem s) (st_mem d r) \<and> arrived val (cl_dlog c r) (sy_rcv s) (st_mem d r)"

lemma linkD:
  assumes "link val len r c d s"
  shows "sy_ns s = (\<lambda>k. length (sel k (sposts r (cl_done c r))))" "sy_nr s = (\<lambda>k. length (sel k (rposts r (cl_done c r))))"
    "settled b (sposts r (cl_done c r)) (cl_tlog c r) (wsend b (cl_done c r)) (sy_snd s b) (sy_sw s b)"
    "settled b (rposts r (cl_done c r)) (cl_dlog c r) (wrecv b (cl_done c r)) (sy_rcv s b) (sy_rw s b)"
    "known_ok len (sy_mem s) (st_mem d r)" "arrived val (cl_dlog c r) (sy_rcv s) (st_mem d r)"
  using assms unfolding link_def by blast+

lemma settled_post:
  assumes "settled b xs ys w F n"
  shows "settled b (xs @ [x]) ys w (if fst (snd x) = b then F @ [flight (fst x) (length (sel (fst x) xs)) (snd x)] else F) n"
  using assms by (auto simp: settled_def numbered_append)

lemma known_read: "known_ok len C m \<Longrightarrow> cells C b off n = map Some xs \<Longrightarrow> read_at off n (m b) = xs"
proof -
  assume k: "known_ok len C m" and c: "cells C b off n = map Some xs"
  then have xs: "length xs = n" "\<And>i. i < n \<Longrightarrow> off + i < length (m b) \<and> m b ! (off + i) = xs ! i"
    by (auto simp: cells_iff known_ok_def)
  then have "n = 0 \<or> off + n \<le> length (m b)" using xs(2) [of "n - 1"] by linarith
  then show ?thesis
  proof
    assume "off + n \<le> length (m b)"
    then show ?thesis using xs by (intro nth_equalityI) (simp_all add: length_read_at nth_read_at)
  qed (use xs in \<open>simp add: read_at_def\<close>)
qed

lemma cells_the: "None \<notin> set (cells C b off n) \<Longrightarrow> cells C b off n = map Some (map the (cells C b off n))"
  by (rule nth_equalityI) (auto simp: nth_cells in_set_conv_nth)

lemma known_write:
  assumes "known_ok len C m" "off + length xs \<le> len b"
  shows "known_ok len (put b off xs C) (m(b := write_at off xs (m b)))"
  using assms by (auto simp: known_ok_def put_def length_write_at nth_write_at split: if_splits)

lemma arrived_write:
  assumes "arrived val ys F m" "apart off (length xs) (F b)" "off + length xs \<le> length (m b)"
    and "\<And>e. e \<in> set (F b) \<Longrightarrow> f_off e + f_len e \<le> length (m b)"
  shows "arrived val ys F (m(b := write_at off xs (m b)))"
  unfolding arrived_def
proof (intro allI ballI impI)
  fix b' e assume e: "e \<in> set (F b')" "f_no e < length (sel (f_chan e) ys)"
  have "read_at (f_off e) (f_len e) (write_at off xs (m b)) = read_at (f_off e) (f_len e) (m b)" if "b' = b"
    using assms(2-4) e(1) that by (intro read_write_disjoint) (auto simp: apart_def)
  with assms(1) e show "read_at (f_off e) (f_len e) ((m(b := write_at off xs (m b))) b') = val (f_chan e) (f_no e)"
    by (auto simp: arrived_def)
qed

text \<open>Local commands.\<close>

lemma posted_bound: "sym_wf val len s \<Longrightarrow> e \<in> set (sy_rcv s b) \<Longrightarrow> f_off e + f_len e \<le> len b"
  using sym_wfD(2) [of val len s e b] by (simp add: posted_ok_def)

lemma write_link:
  assumes "link val len r c d s" "sym_wf val len s" "sym_write len b off xs s = Some s'"
    and quiet: "send_post r x = []" "recv_post r x = []" "\<And>b. \<not> is_wait_send b x" "\<And>b. \<not> is_wait_recv b x"
    and d: "cl_done c' r = cl_done c r @ [x]" "cl_tlog c' r = cl_tlog c r" "cl_dlog c' r = cl_dlog c r"
    and m: "st_mem d' r = (st_mem d r)(b := write_at off xs (st_mem d r b))"
  shows "link val len r c' d' s'"
proof -
  from assms(3) have a: "off + length xs \<le> len b" "apart off (length xs) (sy_rcv s b)"
    and s': "s' = s\<lparr>sy_mem := put b off xs (sy_mem s)\<rparr>" by (auto simp: sym_write_def split: if_splits)
  have posts: "sposts r (cl_done c' r) = sposts r (cl_done c r)" "rposts r (cl_done c' r) = rposts r (cl_done c r)"
      "wsend b' (cl_done c' r) = wsend b' (cl_done c r)" "wrecv b' (cl_done c' r) = wrecv b' (cl_done c r)" for b'
    by (simp_all add: d(1) quiet)
  note L = linkD [OF assms(1)]
  have len: "length (st_mem d r b) = len b" using L(5) by (simp add: known_ok_def)
  have "arrived val (cl_dlog c r) (sy_rcv s) (st_mem d' r)"
    unfolding m using a len posted_bound [OF assms(2)] by (intro arrived_write [OF L(6)]) simp_all
  with known_write [OF L(5) a(1)] L show ?thesis
    unfolding link_def posts d(2,3) by (simp add: s' m)
qed

lemma send_link:
  assumes L: "link val len r c d s" and step: "sym_do red es val len r (Send b dst sl off n) s = Some s'"
    and d: "cl_done c' r = cl_done c r @ [Send b dst sl off n]" "cl_tlog c' r = cl_tlog c r" "cl_dlog c' r = cl_dlog c r"
    and m: "st_mem d' r = st_mem d r"
  shows "link val len r c' d' s'"
proof -
  let ?k = "(r, dst, sl)" and ?p = "cl_done c r"
  note l = linkD [OF L]
  from step have s': "s' = s\<lparr>sy_snd := (sy_snd s)(b := sy_snd s b @ [flight ?k (sy_ns s ?k) (b, off, n)]), sy_ns := (sy_ns s)(?k := Suc (sy_ns s ?k))\<rparr>"
    by (auto simp: Let_def split: if_splits)
  have posts: "sposts r (cl_done c' r) = sposts r ?p @ [(?k, b, off, n)]" "rposts r (cl_done c' r) = rposts r ?p"
      "wsend b' (cl_done c' r) = wsend b' ?p" "wrecv b' (cl_done c' r) = wrecv b' ?p" for b'
    by (simp_all add: d(1))
  have ns: "sy_ns s' = (\<lambda>k. length (sel k (sposts r ?p @ [(?k, b, off, n)])))" by (rule ext) (simp add: s' l(1))
  have "settled b' (sposts r ?p @ [(?k, b, off, n)]) (cl_tlog c r) (wsend b' ?p) (sy_snd s' b') (sy_sw s' b')" for b'
    using settled_post [OF l(3) [of b'], of "(?k, b, off, n)"] by (simp add: s' l(1) split: if_splits)
  with ns l(2,4-6) show ?thesis unfolding link_def posts d(2,3) m by (simp add: s')
qed

lemma recv_link:
  assumes L: "link val len r c d s" and pre: "prefix (sel (src, r, sl) (cl_dlog c r)) (sel (src, r, sl) (rposts r (cl_done c r)))"
    and step: "sym_do red es val len r (Recv b src sl off n) s = Some s'"
    and d: "cl_done c' r = cl_done c r @ [Recv b src sl off n]" "cl_tlog c' r = cl_tlog c r" "cl_dlog c' r = cl_dlog c r"
    and m: "st_mem d' r = st_mem d r"
  shows "link val len r c' d' s'"
proof -
  let ?k = "(src, r, sl)" and ?p = "cl_done c r"
  let ?e = "flight ?k (sy_nr s ?k) (b, off, n)"
  note l = linkD [OF L]
  from step have s': "s' = s\<lparr>sy_rcv := (sy_rcv s)(b := sy_rcv s b @ [?e]), sy_nr := (sy_nr s)(?k := Suc (sy_nr s ?k)), sy_mem := forget b off n (sy_mem s)\<rparr>"
    by (auto simp: Let_def split: if_splits)
  have posts: "rposts r (cl_done c' r) = rposts r ?p @ [(?k, b, off, n)]" "sposts r (cl_done c' r) = sposts r ?p"
      "wsend b' (cl_done c' r) = wsend b' ?p" "wrecv b' (cl_done c' r) = wrecv b' ?p" for b'
    by (simp_all add: d(1))
  have nr: "sy_nr s' = (\<lambda>k. length (sel k (rposts r ?p @ [(?k, b, off, n)])))" by (rule ext) (simp add: s' l(2))
  have set: "settled b' (rposts r ?p @ [(?k, b, off, n)]) (cl_dlog c r) (wrecv b' ?p) (sy_rcv s' b') (sy_rw s' b')" for b'
    using settled_post [OF l(4) [of b'], of "(?k, b, off, n)"] by (simp add: s' l(2) split: if_splits)
  have "\<not> f_no ?e < length (sel (f_chan ?e) (cl_dlog c r))" using prefix_length_le [OF pre] by (simp add: l(2))
  then have "arrived val (cl_dlog c r) (sy_rcv s') (st_mem d r)" using l(6) unfolding arrived_def by (auto simp: s' split: if_splits)
  moreover have "known_ok len (sy_mem s') (st_mem d r)" using l(5) by (auto simp: known_ok_def s' forget_def split: if_splits)
  ultimately show ?thesis using nr set l(1,3) unfolding link_def posts d(2,3) m by (simp add: s')
qed

lemma waitSend_link:
  assumes L: "link val len r c d s" and pre: "\<And>k. prefix (sel k (cl_tlog c r)) (sel k (sposts r (cl_done c r)))"
    and run: "wsend b (cl_done c r) < length (bsel b (cl_tlog c r))"
    and step: "sym_do red es val len r (WaitSend b) s = Some s'"
    and d: "cl_done c' r = cl_done c r @ [WaitSend b]" "cl_tlog c' r = cl_tlog c r" "cl_dlog c' r = cl_dlog c r"
    and m: "st_mem d' r = st_mem d r"
  shows "link val len r c' d' s'"
proof -
  let ?p = "cl_done c r"
  note l = linkD [OF L]
  obtain D F w where R: "retire (sy_snd s b) (sy_sw s b) = (D, F, w)" by (cases "retire (sy_snd s b) (sy_sw s b)")
  with step have s': "s' = s\<lparr>sy_snd := (sy_snd s)(b := F), sy_sw := (sy_sw s)(b := w)\<rparr>" by (auto split: if_splits)
  have posts: "rposts r (cl_done c' r) = rposts r ?p" "sposts r (cl_done c' r) = sposts r ?p"
      "wsend b' (cl_done c' r) = (if b' = b then Suc (wsend b ?p) else wsend b' ?p)" "wrecv b' (cl_done c' r) = wrecv b' ?p" for b'
    by (simp_all add: d(1))
  have "settled b (sposts r ?p) (cl_tlog c r) (Suc (wsend b ?p)) F w"
    using run by (intro settled_retire(1) [OF l(3) pre _ R]) simp
  then show ?thesis using l unfolding link_def posts d(2,3) m by (auto simp: s')
qed

lemma waitRecv_link:
  assumes L: "link val len r c d s" and wf: "sym_wf val len s" and pre: "\<And>k. prefix (sel k (cl_dlog c r)) (sel k (rposts r (cl_done c r)))"
    and run: "wrecv b (cl_done c r) < length (bsel b (cl_dlog c r))"
    and step: "sym_do red es val len r (WaitRecv b) s = Some s'"
    and d: "cl_done c' r = cl_done c r @ [WaitRecv b]" "cl_tlog c' r = cl_tlog c r" "cl_dlog c' r = cl_dlog c r"
    and m: "st_mem d' r = st_mem d r"
  shows "link val len r c' d' s'"
proof -
  let ?p = "cl_done c r"
  note l = linkD [OF L]
  obtain D F w where R: "retire (sy_rcv s b) (sy_rw s b) = (D, F, w)" by (cases "retire (sy_rcv s b) (sy_rw s b)")
  with step have s': "s' = s\<lparr>sy_rcv := (sy_rcv s)(b := F), sy_rw := (sy_rw s)(b := w), sy_mem := fold (learn val) D (sy_mem s)\<rparr>"
    by (auto split: if_splits)
  have posts: "rposts r (cl_done c' r) = rposts r ?p" "sposts r (cl_done c' r) = sposts r ?p"
      "wrecv b' (cl_done c' r) = (if b' = b then Suc (wrecv b ?p) else wrecv b' ?p)" "wsend b' (cl_done c' r) = wsend b' ?p" for b'
    by (simp_all add: d(1))
  note ret = settled_retire [OF l(4) pre _ R]
  have run': "Suc (wrecv b ?p) \<le> length (bsel b (cl_dlog c r))" using run by simp
  note DF = ret(3) [OF run'] and done_ = ret(2) [OF run']
  have ok: "posted_ok val len b (sy_mem s) e" if "e \<in> set D" for e using that DF by (intro sym_wfD(2) [OF wf]) simp
  have "known_ok len (fold (learn val) D (sy_mem s)) (st_mem d r)"
    unfolding known_ok_def
  proof (intro conjI allI impI)
    show "length (st_mem d r b') = len b'" for b' using l(5) by (simp add: known_ok_def)
    fix b' x v assume v: "fold (learn val) D (sy_mem s) b' x = Some v"
    have "x < len b' \<and> st_mem d r b' ! x = v"
    proof (cases "\<exists>e \<in> set D. b' = b \<and> f_off e \<le> x \<and> x < f_off e + f_len e")
      case True
      then obtain e where e: "e \<in> set D" "b' = b" "f_off e \<le> x" "x < f_off e + f_len e" by blast
      have "sorted_wrt (\<lambda>e e'. apart (f_off e) (f_len e) [e']) D" using sym_wfD(3) [OF wf, of b] by (simp add: DF sorted_wrt_append)
      moreover have "f_buf e = b \<and> length (val (f_chan e) (f_no e)) = f_len e" if "e \<in> set D" for e
        using ok [OF that] by (simp add: posted_ok_def)
      ultimately have "v = val (f_chan e) (f_no e) ! (x - f_off e)" using v learned [OF _ _ e(1,3,4), where b = b and val = val] e(2) by simp
      moreover have "read_at (f_off e) (f_len e) (st_mem d r b) = val (f_chan e) (f_no e)"
        using l(6) done_ e(1) DF unfolding arrived_def by auto
      moreover have "f_off e + f_len e \<le> len b" "length (st_mem d r b) = len b" using ok [OF e(1)] l(5) by (auto simp: posted_ok_def known_ok_def)
      ultimately show ?thesis using e nth_read_at [of "x - f_off e" "f_len e" "f_off e" "st_mem d r b"] by auto
    next
      case False
      then have "fold (learn val) D (sy_mem s) b' x = sy_mem s b' x"
        using ok by (intro learn_other) (auto simp: posted_ok_def)
      with v l(5) show ?thesis by (simp add: known_ok_def)
    qed
    then show "x < len b'" "st_mem d r b' ! x = v" by auto
  qed
  moreover have "arrived val (cl_dlog c r) (sy_rcv s') (st_mem d r)" using l(6) DF unfolding arrived_def by (auto simp: s' split: if_splits)
  ultimately show ?thesis using l ret(1) [OF run'] unfolding link_def posts d(2,3) m by (auto simp: s')
qed

text \<open>The network.\<close>

definition wires :: "(chan \<Rightarrow> nat \<Rightarrow> 'a list) \<Rightarrow> cluster \<Rightarrow> 'a store \<Rightarrow> chan \<Rightarrow> bool" where
  "wires val c d k \<longleftrightarrow> st_wire d k = map (val k) [length (sel k (cl_dlog c (chan_dst k)))..<length (sel k (cl_tlog c (chan_src k)))]"

lemma settled_log: "settled b xs ys w F n \<Longrightarrow> settled b xs (ys @ zs) w F n"
  unfolding settled_def by fastforce

text \<open>An operation that is not complete is in flight.\<close>

lemma in_flight:
  assumes "settled b xs ys w F n" "m < length (sel k xs)" "length (sel k ys) \<le> m" "sel k xs ! m = (k, b, off, l)"
  shows "flight k m (b, off, l) \<in> set F"
proof -
  let ?e = "flight k m (b, off, l)"
  have "?e \<in> set (filter (\<lambda>e. f_buf e = b) (numbered xs))" using assms(2,4) by (simp add: in_numbered)
  moreover from assms(1) obtain G where "filter (\<lambda>e. f_buf e = b) (numbered xs) = G @ F" "\<forall>e \<in> set G. f_no e < length (sel (f_chan e) ys)"
    unfolding settled_def by blast
  ultimately show ?thesis using assms(3) by fastforce
qed

lemma transmit_link:
  assumes L: "link val len r c d s" and wf: "sym_wf val len s" and k: "chan_src k = r"
    and m: "m = length (sel k (cl_tlog c r))" "m < length (sel k (sposts r (cl_done c r)))"
    and x: "sel k (sposts r (cl_done c r)) ! m = (k, b, off, n)"
  shows "read_at off n (st_mem d r b) = val k m"
proof -
  have "flight k m (b, off, n) \<in> set (sy_snd s b)" using in_flight [OF linkD(3) [OF L] m(2) _ x] m(1) by simp
  then have "cells (sy_mem s) b off n = map Some (val k m)" using sym_wfD(1) [OF wf] by (fastforce simp: sent_ok_def)
  then show ?thesis by (rule known_read [OF linkD(5) [OF L]])
qed

lemma deliver_link:
  assumes L: "link val len r c d s" and wf: "sym_wf val len s" and k: "chan_dst k = r"
    and m: "m = length (sel k (cl_dlog c r))" "m < length (sel k (rposts r (cl_done c r)))"
    and x: "sel k (rposts r (cl_done c r)) ! m = (k, b, off, n)"
    and c: "cl_done c' r = cl_done c r" "cl_tlog c' r = cl_tlog c r" "cl_dlog c' r = cl_dlog c r @ [(k, b, off, n)]"
    and d: "st_mem d' r = (st_mem d r)(b := write_at off (val k m) (st_mem d r b))"
  shows "link val len r c' d' s"
proof -
  note l = linkD [OF L]
  let ?e = "flight k m (b, off, n)"
  have e: "?e \<in> set (sy_rcv s b)" using in_flight [OF l(4) m(2) _ x] m(1) by simp
  have ok: "length (val k m) = n" "off + n \<le> len b" "unknown (sy_mem s) ?e" using sym_wfD(2) [OF wf e] by (auto simp: posted_ok_def)
  have len: "length (st_mem d r b') = len b'" for b' using l(5) by (simp add: known_ok_def)
  have known: "known_ok len (sy_mem s) (st_mem d' r)"
    unfolding known_ok_def
  proof (intro conjI allI impI)
    show "length (st_mem d' r b') = len b'" for b' using len ok by (simp add: d length_write_at)
    fix b' x v assume v: "sy_mem s b' x = Some v"
    then have old: "x < len b'" "st_mem d r b' ! x = v" using l(5) by (auto simp: known_ok_def)
    then show "x < len b'" by simp
    have "\<not> (off \<le> x \<and> x < off + n)" if "b' = b" using v ok(3) that by (auto simp: unknown_def)
    then show "st_mem d' r b' ! x = v" using old ok len by (auto simp: d nth_write_at)
  qed
  have "arrived val (cl_dlog c' r) (sy_rcv s) (st_mem d' r)"
    unfolding arrived_def
  proof (intro allI ballI impI)
    fix b' e' assume e': "e' \<in> set (sy_rcv s b')" "f_no e' < length (sel (f_chan e') (cl_dlog c' r))"
    have b': "f_buf e' = b'" "length (val (f_chan e') (f_no e')) = f_len e'" "f_off e' + f_len e' \<le> len b'"
      using sym_wfD(2) [OF wf e'(1)] by (auto simp: posted_ok_def)
    show "read_at (f_off e') (f_len e') (st_mem d' r b') = val (f_chan e') (f_no e')"
    proof (cases "e' = ?e")
      case True
      then show ?thesis using b' ok len read_write_same [of off "val k m" "st_mem d r b"] by (simp add: d)
    next
      case False
      have old: "f_no e' < length (sel (f_chan e') (cl_dlog c r))"
      proof (rule ccontr)
        assume n: "\<not> f_no e' < length (sel (f_chan e') (cl_dlog c r))"
        with e'(2) have "f_chan e' = k" "f_no e' = m" using m(1) by (auto simp: c(3) split: if_splits)
        moreover from l(4) [of b'] e'(1) have "e' \<in> set (numbered (rposts r (cl_done c r)))"
          unfolding settled_def by (metis Un_iff filter_is_subset set_append subsetD)
        ultimately have "post_of e' = (k, b, off, n)" using x by (simp add: in_numbered)
        with False \<open>f_chan e' = k\<close> \<open>f_no e' = m\<close> show False by (cases e') (simp add: post_of_def flight_def)
      qed
      then have r': "read_at (f_off e') (f_len e') (st_mem d r b') = val (f_chan e') (f_no e')" using l(6) e'(1) by (simp add: arrived_def)
      show ?thesis
      proof (cases "b' = b")
        case True
        from e e'(1) True obtain i j where "i < length (sy_rcv s b)" "j < length (sy_rcv s b)" "sy_rcv s b ! i = ?e" "sy_rcv s b ! j = e'"
          by (metis in_set_conv_nth)
        then have "apart off n [e'] \<or> apart (f_off e') (f_len e') [?e]"
          using sorted_wrt_nth_less [OF sym_wfD(3) [OF wf, of b]] False
          by (cases i j rule: linorder_cases) fastforce+
        then have "read_at (f_off e') (f_len e') (write_at off (val k m) (st_mem d r b)) = read_at (f_off e') (f_len e') (st_mem d r b)"
          using ok len b' True by (intro read_write_disjoint) (auto simp: apart_def)
        with r' True show ?thesis by (simp add: d)
      qed (use r' in \<open>simp add: d\<close>)
    qed
  qed
  with known l settled_log [OF l(4)] show ?thesis unfolding link_def c by simp
qed

section \<open>Soundness of symbolic execution\<close>

definition sym_inv :: "('a list \<Rightarrow> 'a list \<Rightarrow> nat \<Rightarrow> 'a list) \<Rightarrow> nat \<Rightarrow> (chan \<Rightarrow> nat \<Rightarrow> 'a list) \<Rightarrow> nat \<Rightarrow> (nat \<Rightarrow> 'a mem) \<Rightarrow> cluster \<Rightarrow> 'a store \<Rightarrow> bool" where
  "sym_inv red es val n M c d \<longleftrightarrow>
     (\<forall>r < n. \<exists>s. sym_run red es val (\<lambda>b. length (M r b)) r (cl_done c r) (sym_init (M r)) = Some s \<and>
        sym_wf val (\<lambda>b. length (M r b)) s \<and> link val (\<lambda>b. length (M r b)) r c d s) \<and>
     (\<forall>k. wires val c d k)"

lemma link_cong:
  "link val len r c d s \<Longrightarrow> cl_done c' r = cl_done c r \<Longrightarrow> cl_tlog c' r = cl_tlog c r \<Longrightarrow> cl_dlog c' r = cl_dlog c r \<Longrightarrow>
    st_mem d' r = st_mem d r \<Longrightarrow> link val len r c' d' s"
  by (simp add: link_def)

lemma reduce_take:
  assumes "reducer es red" "known_ok len C m"
    and "None \<notin> set (cells C b1 off1 (n * es))" "None \<notin> set (cells C b2 off2 (n * es))"
  shows "red (drop off1 (m b1)) (drop off2 (m b2)) n = red (map the (cells C b1 off1 (n * es))) (map the (cells C b2 off2 (n * es))) n"
proof -
  let ?x = "map the (cells C b1 off1 (n * es))" and ?y = "map the (cells C b2 off2 (n * es))"
  have "read_at off1 (n * es) (m b1) = ?x" "read_at off2 (n * es) (m b2) = ?y"
    using known_read [OF assms(2) cells_the [OF assms(3)]] known_read [OF assms(2) cells_the [OF assms(4)]] .
  then have xy: "take (n * es) (drop off1 (m b1)) = ?x" "take (n * es) (drop off2 (m b2)) = ?y" by (simp_all add: read_at_def)
  from arg_cong [OF xy(1), of length] arg_cong [OF xy(2), of length]
  have "n * es \<le> length (drop off1 (m b1))" "n * es \<le> length (drop off2 (m b2))" by (simp_all add: min_def split: if_splits)
  then show ?thesis using assms(1) xy unfolding reducer_def by metis
qed

lemma local_sym_inv:
  assumes red: "reducer es red" and step: "cluster_do (Local r) c = Some c'" and inv: "cluster_inv (programs n P) c"
    and ok: "\<forall>r < n. sym_run red es val (\<lambda>b. length (M r b)) r (P r) (sym_init (M r)) \<noteq> None"
    and I: "sym_inv red es val n M c d"
  shows "sym_inv red es val n M c' (store_do red (Local r) c d)"
proof -
  from step obtain x p where x: "cl_prog c r = x # p" "can_run c r x"
    and c': "c' = c\<lparr>cl_done := (cl_done c)(r := cl_done c r @ [x]), cl_prog := (cl_prog c)(r := p)\<rparr>"
    by (auto split: list.splits if_splits)
  let ?d = "store_do red (Local r) c d"
  have mem: "st_mem ?d r' = st_mem d r'" if "r' \<noteq> r" for r' using that by (cases x) (simp_all add: x set_buf_def)
  have wire: "st_wire ?d = st_wire d" by (cases x) (simp_all add: x set_buf_def)
  have eq: "programs n P r = cl_done c r @ x # p" using inv x(1) unfolding cluster_inv_def prefix_of_def by metis
  then have rn: "r < n" by (cases "r < n") (simp_all add: programs_def)
  let ?len = "\<lambda>b. length (M r b)"
  from I rn obtain s where s: "sym_run red es val ?len r (cl_done c r) (sym_init (M r)) = Some s" "sym_wf val ?len s" "link val ?len r c d s"
    unfolding sym_inv_def by blast
  have "sym_run red es val ?len r (cl_done c r @ x # p) (sym_init (M r)) \<noteq> None" using ok rn eq unfolding programs_def by (metis (no_types))
  then obtain s' where s': "sym_do red es val ?len r x s = Some s'" using s(1) by (auto simp: sym_run_append split: option.splits)
  have cc: "cl_done c' r = cl_done c r @ [x]" "cl_tlog c' r = cl_tlog c r" "cl_dlog c' r = cl_dlog c r" by (simp_all add: c')
  note pre = log_prefix [OF inv, where r = r]
  have "link val ?len r c' ?d s'"
  proof (cases x)
    case (Send b dst sl off m)
    then show ?thesis using send_link [OF s(3) s' [unfolded Send]] cc x(1) by simp
  next
    case (Recv b src sl off m)
    then show ?thesis using recv_link [OF s(3) pre(2) s' [unfolded Recv]] cc x(1) by simp
  next
    case (WaitSend b)
    then show ?thesis using waitSend_link [OF s(3) pre(1) _ s' [unfolded WaitSend]] cc x by simp
  next
    case (WaitRecv b)
    then show ?thesis using waitRecv_link [OF s(3,2) pre(2) _ s' [unfolded WaitRecv]] cc x by simp
  next
    case (Memcpy b off b' off' m)
    let ?xs = "map the (cells (sy_mem s) b' off' m)"
    from s' have w: "None \<notin> set (cells (sy_mem s) b' off' m)" "sym_write ?len b off ?xs s = Some s'" by (auto simp: Memcpy split: if_splits)
    have "read_at off' m (st_mem d r b') = ?xs" using known_read [OF linkD(5) [OF s(3)] cells_the [OF w(1)]] .
    then have "st_mem ?d r = (st_mem d r)(b := write_at off ?xs (st_mem d r b))" by (simp add: x(1) Memcpy set_buf_def)
    then show ?thesis using cc by (intro write_link [OF s(3,2) w(2)]) (simp_all add: Memcpy)
  next
    case (Reduce b off b1 off1 b2 off2 m)
    let ?xs = "red (map the (cells (sy_mem s) b1 off1 (m * es))) (map the (cells (sy_mem s) b2 off2 (m * es))) m"
    from s' have w: "None \<notin> set (cells (sy_mem s) b1 off1 (m * es))" "None \<notin> set (cells (sy_mem s) b2 off2 (m * es))"
      "sym_write ?len b off ?xs s = Some s'" by (auto simp: Reduce split: if_splits)
    have "red (drop off1 (st_mem d r b1)) (drop off2 (st_mem d r b2)) m = ?xs" by (rule reduce_take [OF red linkD(5) [OF s(3)] w(1,2)])
    then have "st_mem ?d r = (st_mem d r)(b := write_at off ?xs (st_mem d r b))" by (simp add: x(1) Reduce set_buf_def)
    then show ?thesis using cc by (intro write_link [OF s(3,2) w(3)]) (simp_all add: Reduce)
  qed
  moreover have "sym_run red es val ?len r (cl_done c' r) (sym_init (M r)) = Some s'" using s(1) s' by (simp add: cc sym_run_append)
  moreover note wf_do [OF s(2) s']
  ultimately have "\<exists>s. sym_run red es val (\<lambda>b. length (M r' b)) r' (cl_done c' r') (sym_init (M r')) = Some s \<and>
      sym_wf val (\<lambda>b. length (M r' b)) s \<and> link val (\<lambda>b. length (M r' b)) r' c' ?d s" if "r' < n" for r'
  proof (cases "r' = r")
    case False
    from I that obtain s where "sym_run red es val (\<lambda>b. length (M r' b)) r' (cl_done c r') (sym_init (M r')) = Some s"
      "sym_wf val (\<lambda>b. length (M r' b)) s" "link val (\<lambda>b. length (M r' b)) r' c d s" unfolding sym_inv_def by blast
    then show ?thesis using link_cong [of val _ r' c d s c' ?d] mem [OF False] False by (auto simp: c')
  qed blast
  moreover have "wires val c' ?d k" for k
  proof -
    have "wires val c d k" using I unfolding sym_inv_def by blast
    then show ?thesis unfolding wires_def wire by (simp add: c')
  qed
  ultimately show ?thesis unfolding sym_inv_def by blast
qed

lemma transmit_sym_inv:
  assumes step: "cluster_do (Transmit k) c = Some c'" and inv: "cluster_inv (programs n P) c" and I: "sym_inv red es val n M c d"
  shows "sym_inv red es val n M c' (store_do red (Transmit k) c d)"
proof -
  let ?i = "chan_src k"
  let ?m = "length (sel k (cl_tlog c ?i))"
  let ?x = "sel k (sposts ?i (cl_done c ?i)) ! ?m"
  from step have m: "?m < length (sel k (sposts ?i (cl_done c ?i)))"
    and c': "c' = c\<lparr>cl_tlog := (cl_tlog c)(?i := cl_tlog c ?i @ [?x])\<rparr>"
    by (auto simp: Let_def split: if_splits)
  have xk: "fst ?x = k" using nth_sel [OF m] by simp
  obtain b off l where x: "?x = (k, b, off, l)" using xk by (metis prod.collapse)
  have eq: "programs n P ?i = cl_done c ?i @ cl_prog c ?i" using inv unfolding cluster_inv_def prefix_of_def by blast
  have "?i < n" using m eq by (cases "?i < n") (auto simp: programs_def)
  then obtain s where s: "sym_wf val (\<lambda>b. length (M ?i b)) s" "link val (\<lambda>b. length (M ?i b)) ?i c d s" using I unfolding sym_inv_def by blast
  let ?d = "store_do red (Transmit k) c d"
  have d: "?d = d\<lparr>st_wire := (st_wire d)(k := st_wire d k @ [val k ?m])\<rparr>"
    using transmit_link [OF s(2,1) refl refl m x] x by (simp add: Let_def)
  have le: "length (sel k (cl_dlog c (chan_dst k))) \<le> ?m"
    using inv unfolding cluster_inv_def logs_ok_def chan_ok_def by blast
  have "link val len r c' ?d s" if "link val len r c d s" for len r s
  proof (cases "r = ?i")
    case True
    then show ?thesis using that settled_log [OF linkD(3) [OF that]] unfolding link_def d by (simp add: c')
  next
    case False
    then show ?thesis unfolding d by (intro link_cong [OF that]) (simp_all add: c')
  qed
  moreover have "wires val c' ?d k'" for k'
  proof -
    have "wires val c d k'" using I unfolding sym_inv_def by blast
    then show ?thesis using le xk unfolding wires_def d by (cases "k' = k") (auto simp: c')
  qed
  moreover have "cl_done c' = cl_done c" by (simp add: c')
  ultimately show ?thesis using I unfolding sym_inv_def by metis
qed

lemma deliver_sym_inv:
  assumes step: "cluster_do (Deliver k) c = Some c'" and inv: "cluster_inv (programs n P) c" and I: "sym_inv red es val n M c d"
  shows "sym_inv red es val n M c' (store_do red (Deliver k) c d)"
proof -
  let ?j = "chan_dst k"
  let ?m = "length (sel k (cl_dlog c ?j))"
  let ?x = "sel k (rposts ?j (cl_done c ?j)) ! ?m"
  from step have m: "?m < length (sel k (rposts ?j (cl_done c ?j)))" "?m < length (sel k (cl_tlog c (chan_src k)))"
    and c': "c' = c\<lparr>cl_dlog := (cl_dlog c)(?j := cl_dlog c ?j @ [?x])\<rparr>"
    by (auto simp: Let_def split: if_splits)
  have xk: "fst ?x = k" using nth_sel [OF m(1)] by simp
  obtain b off l where x: "?x = (k, b, off, l)" using xk by (metis prod.collapse)
  let ?d = "store_do red (Deliver k) c d"
  have w: "wires val c d k'" for k' using I unfolding sym_inv_def by blast
  have wk: "st_wire d k = val k ?m # map (val k) [Suc ?m..<length (sel k (cl_tlog c (chan_src k)))]"
    using w [of k] m(2) by (simp add: wires_def upt_conv_Cons)
  have mem: "st_mem ?d = (st_mem d)(?j := (st_mem d ?j)(b := write_at off (val k ?m) (st_mem d ?j b)))"
    and wire: "st_wire ?d = (st_wire d)(k := map (val k) [Suc ?m..<length (sel k (cl_tlog c (chan_src k)))])"
    using x wk by (simp_all add: Let_def set_buf_def)
  have "link val len r c' ?d s" if "link val len r c d s" "sym_wf val len s" for len r s
  proof (cases "r = ?j")
    case True
    then show ?thesis using m(1) x by (intro deliver_link [OF that, of k]) (simp_all add: c' mem del: store_do.simps)
  next
    case False
    then show ?thesis by (intro link_cong [OF that(1)]) (simp_all add: c' mem del: store_do.simps)
  qed
  moreover have "wires val c' ?d k'" for k'
    using w [of k'] xk unfolding wires_def wire by (cases "k' = k") (auto simp: c')
  moreover have "cl_done c' = cl_done c" by (simp add: c')
  ultimately show ?thesis using I unfolding sym_inv_def by metis
qed

lemma sym_inv_exec:
  assumes "reducer es red" "exec red as cd = Some cd'" "cluster_inv (programs n P) (fst cd)"
    and "\<forall>r < n. sym_run red es val (\<lambda>b. length (M r b)) r (P r) (sym_init (M r)) \<noteq> None"
    and "sym_inv red es val n M (fst cd) (snd cd)"
  shows "sym_inv red es val n M (fst cd') (snd cd')"
  using assms(2,3,5)
proof (induction as arbitrary: cd)
  case (Cons a as)
  then obtain c1 where c1: "cluster_do a (fst cd) = Some c1" "exec red as (c1, store_do red a (fst cd) (snd cd)) = Some cd'"
    by (auto split: option.splits)
  have "sym_inv red es val n M c1 (store_do red a (fst cd) (snd cd))"
    using c1(1) local_sym_inv [OF assms(1) _ Cons.prems(2) assms(4) Cons.prems(3)]
      transmit_sym_inv [OF _ Cons.prems(2,3)] deliver_sym_inv [OF _ Cons.prems(2,3)]
    by (cases a) blast+
  then show ?case using Cons.IH [OF c1(2)] cluster_do_inv [OF c1(1) Cons.prems(2)] by simp
qed simp

lemma link_init: "link val (\<lambda>b. length (M r b)) r (cluster_init P) \<lparr>st_mem = M, st_wire = (\<lambda>_. [])\<rparr> (sym_init (M r))"
  by (auto simp: link_def sym_init_def cluster_init_def settled_def known_ok_def arrived_def)

text \<open>Whatever the interleaving, rank \<open>r\<close> holds \<open>xs\<close> in buffer \<open>b\<close> once it has finished, for a given reduction function.\<close>

definition always_computes :: "('a list \<Rightarrow> 'a list \<Rightarrow> nat \<Rightarrow> 'a list) \<Rightarrow> nat \<Rightarrow> (nat \<Rightarrow> program) \<Rightarrow> (nat \<Rightarrow> 'a mem) \<Rightarrow> nat \<Rightarrow> bufid \<Rightarrow> 'a list \<Rightarrow> bool" where
  "always_computes red n P M r b xs \<longleftrightarrow> (\<forall>as c d. exec red as (exec_init n P M) = Some (c, d) \<longrightarrow>
     cl_prog c r = [] \<longrightarrow> st_mem d r b = xs)"

lemma always_computesI:
  assumes red: "reducer es red" and r: "r < n"
    and ok: "\<forall>r < n. sym_run red es val (\<lambda>b. length (M r b)) r (P r) (sym_init (M r)) \<noteq> None"
    and s: "sym_run red es val (\<lambda>b. length (M r b)) r (P r) (sym_init (M r)) = Some s"
    and xs: "length (M r b) = length xs" "\<And>x. x < length xs \<Longrightarrow> sy_mem s b x = Some (xs ! x)"
  shows "always_computes red n P M r b xs"
  unfolding always_computes_def
proof (intro allI impI)
  fix as c d assume run: "exec red as (exec_init n P M) = Some (c, d)" and fin: "cl_prog c r = []"
  have inv: "cluster_inv (programs n P) c"
    using cluster_run_inv [OF exec_cluster [OF run]] cluster_inv_init by (simp add: exec_init_def)
  have "sym_inv red es val n M (cluster_init (programs n P)) \<lparr>st_mem = M, st_wire = (\<lambda>_. [])\<rparr>"
    using link_init unfolding sym_inv_def by (fastforce simp: cluster_init_def wires_def sym_wf_def sym_init_def)
  then have "sym_inv red es val n M c d"
    using sym_inv_exec [OF red run _ ok] cluster_inv_init [of "programs n P"] by (simp add: exec_init_def)
  moreover have "cl_done c r = P r" using inv fin r unfolding cluster_inv_def prefix_of_def programs_def by (metis append_Nil2)
  ultimately have "link val (\<lambda>b. length (M r b)) r c d s" using r s unfolding sym_inv_def by fastforce
  then have "known_ok (\<lambda>b. length (M r b)) (sy_mem s) (st_mem d r)" by (rule linkD)
  then show "st_mem d r b = xs" using xs by (intro nth_equalityI) (auto simp: known_ok_def)
qed

end
