(* ===== verification/Gloo_Pipeline.thy ===== *)
theory Gloo_Pipeline
  imports Gloo_Symbolic Gloo_Allgather
begin

text \<open>
  Pipelined loops: an iteration waits for the operations that were posted two iterations ago and
  posts its own. The reduction collectives consist of such loops. The theory shows that they never
  deadlock and end, and executes symbolically the loop that passes partial reductions around a ring.
\<close>

section \<open>Composition of rounds\<close>

definition seq_rounds :: "nat \<Rightarrow> (nat \<Rightarrow> nat \<Rightarrow> program) \<Rightarrow> (nat \<Rightarrow> nat \<Rightarrow> program) \<Rightarrow> nat \<Rightarrow> nat \<Rightarrow> program" where
  "seq_rounds m S T r k = (if k < m then S r k else T r (k - m))"

lemma rounds_seq_less: "k \<le> m \<Longrightarrow> rounds (seq_rounds m S T) k r = rounds S k r"
proof (induction k)
  case (Suc k)
  then show ?case by (simp add: rounds_Suc seq_rounds_def)
qed (simp add: rounds_def)

lemma rounds_seq: "rounds (seq_rounds m S T) (m + k) r = rounds S m r @ rounds T k r"
proof (induction k)
  case 0
  show ?case using rounds_seq_less [of m m] by (simp add: rounds_def [of T])
next
  case (Suc k)
  then show ?case by (simp add: rounds_Suc seq_rounds_def)
qed

lemma rounds_ok_seq:
  assumes S: "rounds_ok n m S" and T: "rounds_ok n m' T" and p: "\<forall>r < n. \<forall>b. pending b (rounds S m r) = (0, 0)"
  shows "rounds_ok n (m + m') (seq_rounds m S T)"
  unfolding rounds_ok_def
proof (intro allI impI)
  fix k assume k: "k < m + m'"
  show "well_matched n (\<lambda>r. seq_rounds m S T r k) \<and> (\<forall>r < n. addressed n r (seq_rounds m S T r k) \<and>
      (\<forall>b. int (wsend b (seq_rounds m S T r k)) \<le> fst (pending b (rounds (seq_rounds m S T) k r)) \<and>
        int (wrecv b (seq_rounds m S T r k)) \<le> snd (pending b (rounds (seq_rounds m S T) k r))))"
  proof (cases "k < m")
    case True
    with S show ?thesis by (simp add: rounds_ok_def seq_rounds_def [abs_def] rounds_seq_less [unfolded seq_rounds_def [abs_def]])
  next
    case False
    then obtain i where i: "k = m + i" "i < m'" using k by (metis add_less_cancel_left le_iff_add not_less)
    have "seq_rounds m S T r k = T r i" for r by (simp add: seq_rounds_def i)
    with T i(2) p show ?thesis unfolding i(1) rounds_seq rounds_ok_def by (simp add: i(1))
  qed
qed

lemma rounds_ok_one:
  assumes "\<forall>r < n. local_only (p r)"
  shows "rounds_ok n 1 (\<lambda>r k. p r)" "rounds (\<lambda>r k. p r) 1 r = p r"
  using assms by (auto simp: rounds_ok_def well_matched_def local_only_posts addressed_def rounds_def)

section \<open>Pipelined loops\<close>

definition pipe_iter :: "nat \<Rightarrow> (nat \<Rightarrow> program) \<Rightarrow> (nat \<Rightarrow> program) \<Rightarrow> nat \<Rightarrow> program" where
  "pipe_iter N W Q i = (if 2 \<le> i then W (i - 2) else []) @ (if i < N then Q i else [])"

definition pipe :: "nat \<Rightarrow> (nat \<Rightarrow> program) \<Rightarrow> (nat \<Rightarrow> program) \<Rightarrow> program" where
  "pipe N W Q = concat (map (pipe_iter N W Q) [0..<N + 2])"

text \<open>The posts of an iteration match those of the other ranks, and its waits are for as many operations.\<close>

definition pipe_ok :: "nat \<Rightarrow> nat \<Rightarrow> (nat \<Rightarrow> nat \<Rightarrow> program) \<Rightarrow> (nat \<Rightarrow> nat \<Rightarrow> program) \<Rightarrow> bool" where
  "pipe_ok n N W Q \<longleftrightarrow> (\<forall>i < N. well_matched n (\<lambda>r. Q r i) \<and> (\<forall>r < n. addressed n r (Q r i) \<and>
     sposts r (W r i) = [] \<and> rposts r (W r i) = [] \<and> (\<forall>j. sends j (W r i) = [] \<and> recvs j (W r i) = []) \<and>
     (\<forall>b. wsend b (Q r i) = 0 \<and> wrecv b (Q r i) = 0 \<and> pending b (Q r i) = (int (wsend b (W r i)), int (wrecv b (W r i))))))"

lemma pipe_okD:
  assumes "pipe_ok n N W Q" "i < N"
  shows "well_matched n (\<lambda>r. Q r i)"
    and "r < n \<Longrightarrow> addressed n r (Q r i)" "r < n \<Longrightarrow> sposts r (W r i) = []" "r < n \<Longrightarrow> rposts r (W r i) = []"
      "r < n \<Longrightarrow> sends j (W r i) = []" "r < n \<Longrightarrow> recvs j (W r i) = []"
      "r < n \<Longrightarrow> wsend b (Q r i) = 0" "r < n \<Longrightarrow> wrecv b (Q r i) = 0"
      "r < n \<Longrightarrow> pending b (Q r i) = (int (wsend b (W r i)), int (wrecv b (W r i)))"
  using assms unfolding pipe_ok_def by blast+

lemma pipe_pending:
  assumes ok: "pipe_ok n N W Q" and r: "r < n" and k: "k \<le> N + 2"
  shows "pending b (rounds (\<lambda>r. pipe_iter N (W r) (Q r)) k r) =
    (\<Sum>j \<in> {k - 2..<min k N}. int (wsend b (W r j)), \<Sum>j \<in> {k - 2..<min k N}. int (wrecv b (W r j)))"
  using k
proof (induction k)
  case 0
  show ?case by (simp add: rounds_def)
next
  case (Suc k)
  let ?f = "\<lambda>j. int (wsend b (W r j))" and ?g = "\<lambda>j. int (wrecv b (W r j))"
  have neg: "pending b (W r j) = (- ?f j, - ?g j)" if "j < N" for j
    using pending_posts [of b "W r j" r] pipe_okD(3,4) [OF ok that r] by (simp add: prod_eq_iff)
  have post: "pending b (Q r j) = (?f j, ?g j)" if "j < N" for j using pipe_okD(9) [OF ok that r] .
  have split: "(\<Sum>j \<in> {Suc k - 2..<min (Suc k) N}. h j) =
      (\<Sum>j \<in> {k - 2..<min k N}. h j) - (if 2 \<le> k then h (k - 2) else 0) + (if k < N then h k else 0)" for h :: "nat \<Rightarrow> int"
  proof -
    have "(\<Sum>j \<in> {Suc k - 2..<min (Suc k) N}. h j) = (\<Sum>j \<in> {Suc k - 2..<min k N}. h j) + (if k < N then h k else 0)"
      by (cases "k < N") (auto simp: sum.atLeastLessThan_Suc min_def)
    moreover have "(\<Sum>j \<in> {k - 2..<min k N}. h j) = (if 2 \<le> k then h (k - 2) else 0) + (\<Sum>j \<in> {Suc k - 2..<min k N}. h j)"
    proof (cases "2 \<le> k")
      case True
      then have "k - 2 < min k N" "Suc k - 2 = Suc (k - 2)" using Suc.prems by auto
      then show ?thesis using True by (simp add: sum.atLeast_Suc_lessThan)
    next
      case False
      then have "k - 2 = Suc k - 2" by auto
      with False show ?thesis by simp
    qed
    ultimately show ?thesis by simp
  qed
  have "pending b (pipe_iter N (W r) (Q r) k) =
      ((if k < N then ?f k else 0) - (if 2 \<le> k then ?f (k - 2) else 0), (if k < N then ?g k else 0) - (if 2 \<le> k then ?g (k - 2) else 0))"
    using neg [of "k - 2"] post [of k] Suc.prems by (simp add: pipe_iter_def)
  with Suc split [of ?f] split [of ?g] show ?case by (simp add: rounds_Suc)
qed

lemma pipe_rounds:
  assumes ok: "pipe_ok n N W Q"
  shows "rounds_ok n (N + 2) (\<lambda>r. pipe_iter N (W r) (Q r))"
    and "rounds (\<lambda>r. pipe_iter N (W r) (Q r)) (N + 2) r = pipe N (W r) (Q r)"
    and "r < n \<Longrightarrow> pending b (pipe N (W r) (Q r)) = (0, 0)"
proof -
  show eq: "rounds (\<lambda>r. pipe_iter N (W r) (Q r)) (N + 2) r = pipe N (W r) (Q r)" for r by (simp add: rounds_def pipe_def)
  show "pending b (pipe N (W r) (Q r)) = (0, 0)" if "r < n"
    using pipe_pending [OF ok that, of "N + 2" b] unfolding eq by simp
  show "rounds_ok n (N + 2) (\<lambda>r. pipe_iter N (W r) (Q r))"
    unfolding rounds_ok_def
  proof (intro allI impI conjI)
    fix k assume k: "k < N + 2"
    show "well_matched n (\<lambda>r. pipe_iter N (W r) (Q r) k)"
      using pipe_okD(1) [OF ok, of k] pipe_okD(5,6) [OF ok, of "k - 2"] k unfolding well_matched_def pipe_iter_def by auto
    fix r assume r: "r < n"
    show "addressed n r (pipe_iter N (W r) (Q r) k)"
      using pipe_okD(2) [OF ok _ r, of k] pipe_okD(3,4) [OF ok _ r, of "k - 2"] k unfolding addressed_def pipe_iter_def by auto
    fix b
    have w: "wsend b (pipe_iter N (W r) (Q r) k) = (if 2 \<le> k then wsend b (W r (k - 2)) else 0)"
      "wrecv b (pipe_iter N (W r) (Q r) k) = (if 2 \<le> k then wrecv b (W r (k - 2)) else 0)"
      using pipe_okD(7,8) [OF ok _ r, of k b] by (auto simp: pipe_iter_def)
    have le: "int (if 2 \<le> k then h (k - 2) else 0) \<le> (\<Sum>j \<in> {k - 2..<min k N}. int (h j))" for h :: "nat \<Rightarrow> nat"
      using k member_le_sum [of "k - 2" "{k - 2..<min k N}" "\<lambda>j. int (h j)"] by (auto simp: sum_nonneg)
    show "int (wsend b (pipe_iter N (W r) (Q r) k)) \<le> fst (pending b (rounds (\<lambda>r. pipe_iter N (W r) (Q r)) k r))"
      "int (wrecv b (pipe_iter N (W r) (Q r) k)) \<le> snd (pending b (rounds (\<lambda>r. pipe_iter N (W r) (Q r)) k r))"
      unfolding pipe_pending [OF ok r less_imp_le [OF k]] w fst_conv snd_conv by (rule le)+
  qed
qed

text \<open>Symbolic execution of a loop: \<open>I w i\<close> holds when the waits before \<open>w\<close> and the posts before \<open>i\<close> are done.\<close>

lemma pipe_loop:
  assumes st: "I 0 0 s"
    and wait: "\<And>w i s. I w i s \<Longrightarrow> w < i \<Longrightarrow> i \<le> w + 2 \<Longrightarrow> w < N \<Longrightarrow> \<exists>s'. sym_run red es val len r (W w) s = Some s' \<and> I (Suc w) i s'"
    and post: "\<And>w i s. I w i s \<Longrightarrow> w \<le> i \<Longrightarrow> i < w + 2 \<Longrightarrow> i < N \<Longrightarrow> \<exists>s'. sym_run red es val len r (Q i) s = Some s' \<and> I w (Suc i) s'"
  shows "\<exists>s'. sym_run red es val len r (pipe N W Q) s = Some s' \<and> I N N s'"
proof -
  let ?run = "sym_run red es val len r"
  have "\<exists>s'. ?run (concat (map (pipe_iter N W Q) [0..<k])) s = Some s' \<and> I (k - 2) (min k N) s'" if "k \<le> N + 2" for k
    using that
  proof (induction k)
    case 0
    then show ?case using st by simp
  next
    case (Suc k)
    then obtain s1 where s1: "?run (concat (map (pipe_iter N W Q) [0..<k])) s = Some s1" "I (k - 2) (min k N) s1" by auto
    have "\<exists>s2. ?run (if 2 \<le> k then W (k - 2) else []) s1 = Some s2 \<and> I (Suc k - 2) (min k N) s2"
    proof (cases "2 \<le> k")
      case True
      then have "Suc k - 2 = Suc (k - 2)" by simp
      then show ?thesis using wait [OF s1(2)] True Suc.prems by simp
    next
      case False
      then have "Suc k - 2 = k - 2" by simp
      with False s1(2) show ?thesis by simp
    qed
    then obtain s2 where s2: "?run (if 2 \<le> k then W (k - 2) else []) s1 = Some s2" "I (Suc k - 2) (min k N) s2" by blast
    have "\<exists>s3. ?run (if k < N then Q k else []) s2 = Some s3 \<and> I (Suc k - 2) (min (Suc k) N) s3"
    proof (cases "k < N")
      case True
      then have "min k N = k" "min (Suc k) N = Suc k" "Suc k - 2 \<le> k" "k < (Suc k - 2) + 2" by auto
      then show ?thesis using post [OF _ _ _ True] s2(2) True by simp
    next
      case False
      then have "min (Suc k) N = min k N" by simp
      with False s2(2) show ?thesis by simp
    qed
    then obtain s3 where s3: "?run (if k < N then Q k else []) s2 = Some s3" "I (Suc k - 2) (min (Suc k) N) s3" by blast
    have "?run (pipe_iter N W Q k) s1 = Some s3"
      unfolding pipe_iter_def sym_run_append s2(1) bind.bind_lunit by (rule s3(1))
    with s1(1) s3(2) show ?case by (auto simp: sym_run_append)
  qed
  from this [of "N + 2"] show ?thesis unfolding pipe_def by simp
qed

end
