(* ===== verification/Gloo_RingReduce.thy ===== *)
theory Gloo_RingReduce
  imports Gloo_Pipeline
begin

text \<open>
  Reduction around a ring, the loop that \<open>allreduce.cc\<close> and \<open>reduce.cc\<close> share: in iteration \<open>i\<close> a rank
  sends one segment to the previous rank and receives another from the next one into a scratch
  buffer; two iterations later it waits for both and combines what it received with its own
  contribution. The two programs differ in where the contribution of a rank is and how it is
  prepared, and in the number of iterations, which are parameters here.
\<close>

section \<open>Parameters\<close>

text \<open>
  \<open>rp_n\<close> ranks, \<open>rp_q\<close> segments of at most \<open>rp_L\<close> bytes for each, \<open>rp_N\<close> iterations, \<open>rp_total\<close> bytes in
  elements of \<open>rp_es\<close> bytes. The contribution of a rank is prepared by \<open>rp_prep\<close> and then is in the
  buffer \<open>rp_ib\<close>. The rest describes the values: the reduction function, the initial memory, the buffers
  that are in use, the contribution of a rank to a segment, and what the output has after the preparation.
\<close>

record 'a ringp =
  rp_n :: nat
  rp_q :: nat
  rp_N :: nat
  rp_L :: nat
  rp_total :: nat
  rp_es :: nat
  rp_slot :: "64 word"
  rp_ib :: bufid
  rp_prep :: "nat \<Rightarrow> nat \<Rightarrow> program"
  rp_red :: "'a list \<Rightarrow> 'a list \<Rightarrow> nat \<Rightarrow> 'a list"
  rp_M :: "nat \<Rightarrow> 'a mem"
  rp_B :: "bufid set"
  rp_loc :: "nat \<Rightarrow> nat \<Rightarrow> 'a list"
  rp_aft :: "nat \<Rightarrow> nat \<Rightarrow> 'a list"

definition segmentOffset :: "nat \<Rightarrow> nat \<Rightarrow> nat" where
  "segmentOffset segBytes i = (if i mod 2 = 0 then 0 else segBytes)"

definition next_rank :: "nat \<Rightarrow> nat \<Rightarrow> nat" where "next_rank n r = (n + r + 1) mod n"
definition prev_rank :: "nat \<Rightarrow> nat \<Rightarrow> nat" where "prev_rank n r = (n + r - 1) mod n"

definition rp_S :: "'a ringp \<Rightarrow> nat" where "rp_S p = rp_n p * rp_q p"

text \<open>The segments that a rank sends and receives in an iteration, and the length of a segment.\<close>

definition sg :: "'a ringp \<Rightarrow> nat \<Rightarrow> nat \<Rightarrow> nat" where
  "sg p r i = ((r + 1) * rp_q p + i) mod rp_S p"

definition rg :: "'a ringp \<Rightarrow> nat \<Rightarrow> nat \<Rightarrow> nat" where
  "rg p r i = ((r + 2) * rp_q p + i) mod rp_S p"

definition sl :: "'a ringp \<Rightarrow> nat \<Rightarrow> nat" where
  "sl p g = min (rp_L p) (rp_total p - g * rp_L p)"

definition sbuf :: "'a ringp \<Rightarrow> nat \<Rightarrow> bufid" where
  "sbuf p i = (if i < rp_q p then rp_ib p else Out 0)"

definition rs_wait :: "'a ringp \<Rightarrow> nat \<Rightarrow> nat \<Rightarrow> program" where
  "rs_wait p r j =
     (let g = rg p r j; l = sl p g
      in if 0 < l
         then rp_prep p (g * rp_L p) l @
              [WaitRecv Tmp, Reduce (Out 0) (g * rp_L p) (rp_ib p) (g * rp_L p) Tmp (segmentOffset (rp_L p) j) (l div rp_es p)]
         else []) @
     (if 0 < sl p (sg p r j) then [WaitSend (sbuf p j)] else [])"

definition rs_post :: "'a ringp \<Rightarrow> nat \<Rightarrow> nat \<Rightarrow> program" where
  "rs_post p r i =
     (let l = sl p (rg p r i)
      in if 0 < l then [Recv Tmp (next_rank (rp_n p) r) (rp_slot p) (segmentOffset (rp_L p) i) l] else []) @
     (let g = sg p r i; l = sl p g
      in if 0 < l
         then (if i < rp_q p then rp_prep p (g * rp_L p) l else []) @
              [Send (sbuf p i) (prev_rank (rp_n p) r) (rp_slot p) (g * rp_L p) l]
         else [])"

text \<open>The partial reduction of a segment after \<open>t\<close> steps, on rank \<open>r\<close>.\<close>

fun partial :: "'a ringp \<Rightarrow> nat \<Rightarrow> nat \<Rightarrow> nat \<Rightarrow> 'a list" where
  "partial p r 0 g = rp_loc p r g"
| "partial p r (Suc t) g = rp_red p (rp_loc p r g) (partial p (next_rank (rp_n p) r) t g) (sl p g div rp_es p)"

section \<open>Assumptions\<close>

definition ring_sizes :: "'a ringp \<Rightarrow> bool" where
  "ring_sizes p \<longleftrightarrow> 1 < rp_n p \<and> 1 < rp_q p \<and> 0 < rp_L p \<and> rp_N p \<le> rp_S p \<and> 0 < rp_es p \<and> rp_es p dvd rp_L p \<and> rp_es p dvd rp_total p \<and>
     rp_total p \<le> rp_S p * rp_L p"

definition segment :: "'a ringp \<Rightarrow> nat \<Rightarrow> bufid \<Rightarrow> nat \<Rightarrow> 'a list" where
  "segment p r b g = read_at (g * rp_L p) (sl p g) (rp_M p r b)"

abbreviation has :: "'a ringp \<Rightarrow> (bufid \<Rightarrow> nat \<Rightarrow> 'a option) \<Rightarrow> bufid \<Rightarrow> nat \<Rightarrow> 'a list \<Rightarrow> bool" where
  "has p C b g v \<equiv> cells C b (g * rp_L p) (sl p g) = map Some v"

text \<open>
  What the preparation of a segment must do: from the initial contents of that segment in all
  buffers it produces the contribution, and changes nothing but the segment in the output.
\<close>

definition prep_ok :: "'a ringp \<Rightarrow> (chan \<Rightarrow> nat \<Rightarrow> 'a list) \<Rightarrow> nat \<Rightarrow> bool" where
  "prep_ok p val r \<longleftrightarrow> (\<forall>g s. g < rp_S p \<longrightarrow> 0 < sl p g \<longrightarrow> (\<forall>b \<in> rp_B p. has p (sy_mem s) b g (segment p r b g)) \<longrightarrow>
     apart (g * rp_L p) (sl p g) (sy_snd s (Out 0)) \<longrightarrow> apart (g * rp_L p) (sl p g) (sy_rcv s (Out 0)) \<longrightarrow>
     (\<exists>C. sym_run (rp_red p) (rp_es p) val (\<lambda>b. length (rp_M p r b)) r (rp_prep p (g * rp_L p) (sl p g)) s = Some (s\<lparr>sy_mem := C\<rparr>) \<and>
        has p C (rp_ib p) g (rp_loc p r g) \<and> has p C (Out 0) g (rp_aft p r g) \<and>
        (\<forall>b x. \<not> (b = Out 0 \<and> g * rp_L p \<le> x \<and> x < g * rp_L p + sl p g) \<longrightarrow> C b x = sy_mem s b x)))"

definition ring_mem :: "'a ringp \<Rightarrow> bool" where
  "ring_mem p \<longleftrightarrow> Out 0 \<in> rp_B p \<and> rp_ib p \<in> rp_B p \<and> Tmp \<notin> rp_B p \<and>
     (\<forall>r < rp_n p. length (rp_M p r Tmp) = 2 * rp_L p \<and> (\<forall>b \<in> rp_B p. length (rp_M p r b) = rp_total p) \<and>
        (\<forall>g < rp_S p. length (rp_loc p r g) = sl p g) \<and>
        (rp_N p \<le> rp_S p - rp_q p \<or> (\<forall>g < rp_S p. rp_aft p r g = segment p r (Out 0) g)))"

section \<open>Positions\<close>

lemma ring_sizesD:
  assumes "ring_sizes p"
  shows "1 < rp_n p" "1 < rp_q p" "0 < rp_L p" "rp_N p \<le> rp_S p" "0 < rp_es p" "rp_es p dvd rp_L p" "rp_es p dvd rp_total p"
    "rp_total p \<le> rp_S p * rp_L p" "2 * rp_q p \<le> rp_S p" "0 < rp_S p"
  using assms mult_le_mono1 [of 2 "rp_n p" "rp_q p"] by (auto simp: ring_sizes_def rp_S_def)

lemma seg_less: "ring_sizes p \<Longrightarrow> sg p r i < rp_S p" "ring_sizes p \<Longrightarrow> rg p r i < rp_S p"
  using ring_sizesD(10) [of p] by (simp_all add: sg_def rg_def)

lemma seg_total:
  assumes "ring_sizes p" "0 < sl p g"
  shows "g * rp_L p + sl p g \<le> rp_total p" "sl p g \<le> rp_L p" "rp_es p dvd sl p g" "sl p g div rp_es p * rp_es p = sl p g"
proof -
  note z = ring_sizesD [OF assms(1)]
  show "g * rp_L p + sl p g \<le> rp_total p" "sl p g \<le> rp_L p" using assms(2) by (auto simp: sl_def)
  show d: "rp_es p dvd sl p g" using z(6,7) by (simp add: sl_def min_def dvd_diff_nat)
  then show "sl p g div rp_es p * rp_es p = sl p g" by simp
qed

text \<open>Different segments do not overlap.\<close>

lemma seg_apart:
  assumes "g \<noteq> g'"
  shows "g * rp_L p + sl p g \<le> g' * rp_L p \<or> g' * rp_L p + sl p g' \<le> g * rp_L p"
proof -
  have "x * rp_L p + sl p x \<le> y * rp_L p" if "x < y" for x y
  proof -
    have "x * rp_L p + sl p x \<le> Suc x * rp_L p" by (simp add: sl_def)
    also have "\<dots> \<le> y * rp_L p" using that by (intro mult_le_mono1) simp
    finally show ?thesis .
  qed
  with assms show ?thesis by (cases g g' rule: linorder_cases) auto
qed

lemma mod_shift_inj:
  fixes a :: nat
  assumes "(a + i) mod S = (a + j) mod S" "i < S" "j < S"
  shows "i = j"
proof -
  have "x = y" if "x \<le> y" "(a + x) mod S = (a + y) mod S" "y < S" for x y
  proof -
    have "S dvd (a + y) - (a + x)" using that(1,2) by (intro mod_eq_dvd_iff_nat [THEN iffD1]) simp_all
    then have "S dvd y - x" by simp
    with that(1,3) show ?thesis using dvd_imp_le [of S "y - x"] by (cases "x = y") auto
  qed
  from this [of i j] this [of j i] assms show ?thesis by (cases "i \<le> j") auto
qed

lemma rg_inj: "ring_sizes p \<Longrightarrow> i < rp_S p \<Longrightarrow> j < rp_S p \<Longrightarrow> rg p r i = rg p r j \<longleftrightarrow> i = j"
  using mod_shift_inj [of "(r + 2) * rp_q p" i "rp_S p" j] by (auto simp: rg_def)

text \<open>A segment is sent \<open>q\<close> iterations after it was received; the first ones sent are received last, if at all.\<close>

lemma sg_rg:
  assumes "ring_sizes p"
  shows "rp_q p \<le> i \<Longrightarrow> sg p r i = rg p r (i - rp_q p)"
    and "i < rp_q p \<Longrightarrow> sg p r i = rg p r (rp_S p - rp_q p + i)"
proof -
  have "rp_q p \<le> rp_S p" using ring_sizesD(9) [OF assms] by simp
  then have "(r + 2) * rp_q p + (rp_S p - rp_q p + i) = (r + 1) * rp_q p + i + rp_S p" by simp
  then show "sg p r i = rg p r (rp_S p - rp_q p + i)" unfolding sg_def rg_def by (simp only: mod_add_self2)
  show "sg p r i = rg p r (i - rp_q p)" if "rp_q p \<le> i" using that by (simp add: sg_def rg_def ac_simps)
qed

lemma next_rank_sg:
  assumes "ring_sizes p" "r < rp_n p"
  shows "sg p (next_rank (rp_n p) r) i = rg p r i"
proof (cases "r + 1 = rp_n p")
  case True
  then have "next_rank (rp_n p) r = 0" unfolding next_rank_def by (metis add.assoc mod_add_self1 mod_self)
  moreover have "(r + 2) * rp_q p + i = (0 + 1) * rp_q p + i + rp_S p" using True by (simp add: rp_S_def flip: True)
  ultimately show ?thesis unfolding sg_def rg_def by (simp only: mod_add_self2)
next
  case False
  with assms(2) have "next_rank (rp_n p) r = r + 1" unfolding next_rank_def add.assoc mod_add_self1 by simp
  then show ?thesis by (simp add: sg_def rg_def)
qed

lemma ranks_inverse:
  assumes "r < n" "1 < n"
  shows "prev_rank n (next_rank n r) = r" "next_rank n (prev_rank n r) = r" "next_rank n r < n" "prev_rank n r < n"
  using assms by (auto simp: next_rank_def prev_rank_def mod_if)

section \<open>States of the loop\<close>

definition cnt :: "(nat \<Rightarrow> bool) \<Rightarrow> nat \<Rightarrow> nat" where
  "cnt P i = length (filter P [0..<i])"

abbreviation acts :: "'a ringp \<Rightarrow> nat \<Rightarrow> nat \<Rightarrow> bool" where "acts p r j \<equiv> 0 < sl p (sg p r j)"
abbreviation actr :: "'a ringp \<Rightarrow> nat \<Rightarrow> nat \<Rightarrow> bool" where "actr p r j \<equiv> 0 < sl p (rg p r j)"

definition sch :: "'a ringp \<Rightarrow> nat \<Rightarrow> chan" where "sch p r = (r, prev_rank (rp_n p) r, rp_slot p)"
definition rch :: "'a ringp \<Rightarrow> nat \<Rightarrow> chan" where "rch p r = (next_rank (rp_n p) r, r, rp_slot p)"

definition sflight :: "'a ringp \<Rightarrow> nat \<Rightarrow> bufid \<Rightarrow> nat \<Rightarrow> flight" where
  "sflight p r b j = flight (sch p r) (cnt (acts p r) j) (b, sg p r j * rp_L p, sl p (sg p r j))"

definition rflight :: "'a ringp \<Rightarrow> nat \<Rightarrow> nat \<Rightarrow> flight" where
  "rflight p r j = flight (rch p r) (cnt (actr p r) j) (Tmp, segmentOffset (rp_L p) j, sl p (rg p r j))"

text \<open>The payloads of the messages: in iteration \<open>i\<close> a partial reduction after \<open>i div q\<close> steps.\<close>

definition rs_vals :: "'a ringp \<Rightarrow> (chan \<Rightarrow> nat \<Rightarrow> 'a list) \<Rightarrow> bool" where
  "rs_vals p val \<longleftrightarrow> (\<forall>r < rp_n p. \<forall>i < rp_N p. acts p r i \<longrightarrow>
     val (sch p r) (cnt (acts p r) i) = partial p r (i div rp_q p) (sg p r i))"

text \<open>
  The contents of the \<open>j\<close>-th received segment in the output, after \<open>w\<close> combinations and \<open>i\<close> sends:
  combined, prepared for the first sends, or untouched.
\<close>

definition cur :: "'a ringp \<Rightarrow> nat \<Rightarrow> nat \<Rightarrow> nat \<Rightarrow> nat \<Rightarrow> 'a list" where
  "cur p r w i j =
     (if j < w then partial p r (Suc (j div rp_q p)) (rg p r j)
      else if rp_S p - rp_q p \<le> j \<and> j - (rp_S p - rp_q p) < i then rp_aft p r (rg p r j)
      else segment p r (Out 0) (rg p r j))"

definition rs_state :: "'a ringp \<Rightarrow> nat \<Rightarrow> nat \<Rightarrow> nat \<Rightarrow> nat \<Rightarrow> nat \<Rightarrow> 'a sym \<Rightarrow> bool" where
  "rs_state p r ws wr is ir s \<longleftrightarrow>
     (\<forall>b. sy_snd s b = map (sflight p r b) (filter (\<lambda>j. acts p r j \<and> sbuf p j = b) [ws..<is])) \<and> sy_sw s = (\<lambda>_. 0) \<and>
     (\<forall>b. sy_rcv s b = (if b = Tmp then map (rflight p r) (filter (actr p r) [wr..<ir]) else [])) \<and> sy_rw s = (\<lambda>_. 0) \<and>
     sy_ns s = (\<lambda>k. if k = sch p r then cnt (acts p r) is else 0) \<and>
     sy_nr s = (\<lambda>k. if k = rch p r then cnt (actr p r) ir else 0) \<and>
     (\<forall>j < rp_S p. actr p r j \<longrightarrow> has p (sy_mem s) (Out 0) (rg p r j) (cur p r wr is j)) \<and>
     (\<forall>b \<in> rp_B p. b \<noteq> Out 0 \<longrightarrow> (\<forall>x < rp_total p. sy_mem s b x = Some (rp_M p r b ! x)))"

lemma rs_stateD:
  assumes "rs_state p r ws wr is ir s"
  shows "sy_snd s b = map (sflight p r b) (filter (\<lambda>j. acts p r j \<and> sbuf p j = b) [ws..<is])" "sy_sw s = (\<lambda>_. 0)"
    "sy_rcv s b = (if b = Tmp then map (rflight p r) (filter (actr p r) [wr..<ir]) else [])" "sy_rw s = (\<lambda>_. 0)"
    "sy_ns s = (\<lambda>k. if k = sch p r then cnt (acts p r) is else 0)"
    "sy_nr s = (\<lambda>k. if k = rch p r then cnt (actr p r) ir else 0)"
    "j < rp_S p \<Longrightarrow> actr p r j \<Longrightarrow> has p (sy_mem s) (Out 0) (rg p r j) (cur p r wr is j)"
    "b \<in> rp_B p \<Longrightarrow> b \<noteq> Out 0 \<Longrightarrow> x < rp_total p \<Longrightarrow> sy_mem s b x = Some (rp_M p r b ! x)"
  using assms unfolding rs_state_def by blast+

lemma cnt_Suc: "cnt P (Suc i) = cnt P i + (if P i then 1 else 0)"
  by (simp add: cnt_def)

lemma has_cong: "(\<And>x. g * rp_L p \<le> x \<Longrightarrow> x < g * rp_L p + sl p g \<Longrightarrow> C b x = C' b x) \<Longrightarrow> has p C b g v = has p C' b g v"
  using cells_cong [of "g * rp_L p" "sl p g" C b C'] by simp

lemma has_put: "length v = sl p g \<Longrightarrow> has p (put b (g * rp_L p) v C) b g v"
  by (simp add: cells_iff put_def)

lemma has_put_other: "g \<noteq> g' \<or> b \<noteq> b' \<Longrightarrow> length v = sl p g' \<Longrightarrow> has p (put b' (g' * rp_L p) v C) b g w = has p C b g w"
  using seg_apart [of g g' p] by (intro has_cong) (auto simp: put_def)

lemma initial_has:
  assumes "ring_sizes p" "length (rp_M p r b) = rp_total p" "0 < sl p g" "\<And>x. x < rp_total p \<Longrightarrow> C b x = Some (rp_M p r b ! x)"
  shows "has p C b g (segment p r b g)"
  using assms seg_total [OF assms(1,3)] unfolding cells_iff segment_def by (simp add: length_read_at nth_read_at)

lemma length_partial:
  assumes "ring_sizes p" "ring_mem p" "reducer (rp_es p) (rp_red p)" "r < rp_n p" "g < rp_S p"
  shows "length (partial p r t g) = sl p g"
  using assms(4)
proof (induction t arbitrary: r)
  case 0
  then show ?case using assms(2,5) by (simp add: ring_mem_def)
next
  case (Suc t)
  have "next_rank (rp_n p) r < rp_n p" using ranks_inverse(3) [OF Suc.prems] ring_sizesD(1) [OF assms(1)] by simp
  with Suc.IH have l: "length (partial p (next_rank (rp_n p) r) t g) = sl p g" by simp
  have "length (rp_loc p r g) = sl p g" using assms(2,5) Suc.prems by (simp add: ring_mem_def)
  moreover have "sl p g div rp_es p * rp_es p = sl p g" using seg_total(4) [OF assms(1), of g] by (cases "sl p g = 0") auto
  ultimately show ?case using assms(3) l by (simp add: reducer_def)
qed

lemma chan_next:
  assumes "ring_sizes p" "r < rp_n p"
  shows "rch p r = sch p (next_rank (rp_n p) r)" "actr p r = acts p (next_rank (rp_n p) r)"
  using ranks_inverse [OF assms(2)] ring_sizesD(1) [OF assms(1)] next_rank_sg [OF assms] by (auto simp: rch_def sch_def)

lemma recv_val:
  assumes "ring_sizes p" "r < rp_n p" "rs_vals p val" "i < rp_N p" "actr p r i"
  shows "val (rch p r) (cnt (actr p r) i) = partial p (next_rank (rp_n p) r) (i div rp_q p) (rg p r i)"
proof -
  have "next_rank (rp_n p) r < rp_n p" using ranks_inverse(3) [OF assms(2)] ring_sizesD(1) [OF assms(1)] by simp
  moreover have "acts p (next_rank (rp_n p) r) i" using assms(5) by (simp add: next_rank_sg [OF assms(1,2)])
  ultimately have "val (sch p (next_rank (rp_n p) r)) (cnt (acts p (next_rank (rp_n p) r)) i) =
      partial p (next_rank (rp_n p) r) (i div rp_q p) (sg p (next_rank (rp_n p) r) i)"
    using assms(3,4) unfolding rs_vals_def by blast
  then show ?thesis by (simp add: next_rank_sg [OF assms(1,2)] chan_next(1) [OF assms(1,2)])
qed

text \<open>Sends in flight do not touch a segment that is combined or prepared.\<close>

lemma sends_apart:
  assumes "rs_state p r ws wr is ir s" "\<And>j. ws \<le> j \<Longrightarrow> j < is \<Longrightarrow> sg p r j \<noteq> g"
  shows "apart (g * rp_L p) (sl p g) (sy_snd s b)"
  unfolding apart_def rs_stateD(1) [OF assms(1)]
proof
  fix e assume "e \<in> set (map (sflight p r b) (filter (\<lambda>j. acts p r j \<and> sbuf p j = b) [ws..<is]))"
  then obtain j where j: "e = sflight p r b j" "ws \<le> j" "j < is" by auto
  with seg_apart [of g "sg p r j" p] assms(2) show "g * rp_L p + sl p g \<le> f_off e \<or> f_off e + f_len e \<le> g * rp_L p"
    by (auto simp: sflight_def)
qed

section \<open>The steps of an iteration\<close>

abbreviation ring_run :: "'a ringp \<Rightarrow> (chan \<Rightarrow> nat \<Rightarrow> 'a list) \<Rightarrow> nat \<Rightarrow> program \<Rightarrow> 'a sym \<Rightarrow> 'a sym option" where
  "ring_run p val r \<equiv> sym_run (rp_red p) (rp_es p) val (\<lambda>b. length (rp_M p r b)) r"

text \<open>The preparation of a segment that nobody has touched.\<close>

lemma prep_run:
  assumes p: "ring_sizes p" "ring_mem p" and r: "r < rp_n p" and ok: "prep_ok p val r"
    and st: "rs_state p r ws wr is ir s" and j: "j < rp_S p" "actr p r j" and g: "g = rg p r j"
    and fresh: "cur p r wr is j = segment p r (Out 0) g"
    and free: "\<And>i. ws \<le> i \<Longrightarrow> i < is \<Longrightarrow> sg p r i \<noteq> g"
  shows "\<exists>C. ring_run p val r (rp_prep p (g * rp_L p) (sl p g)) s = Some (s\<lparr>sy_mem := C\<rparr>) \<and>
    has p C (rp_ib p) g (rp_loc p r g) \<and> has p C (Out 0) g (rp_aft p r g) \<and>
    (\<forall>b x. \<not> (b = Out 0 \<and> g * rp_L p \<le> x \<and> x < g * rp_L p + sl p g) \<longrightarrow> C b x = sy_mem s b x)"
proof -
  have "has p (sy_mem s) b g (segment p r b g)" if "b \<in> rp_B p" for b
  proof (cases "b = Out 0")
    case True
    then show ?thesis using rs_stateD(7) [OF st j] fresh g by simp
  next
    case False
    have "length (rp_M p r b) = rp_total p" using p(2) r that by (simp add: ring_mem_def)
    with False that show ?thesis using rs_stateD(8) [OF st that False] j(2) g by (intro initial_has [OF p(1)]) simp_all
  qed
  moreover have "apart (g * rp_L p) (sl p g) (sy_snd s (Out 0))" using sends_apart [OF st free] .
  moreover have "apart (g * rp_L p) (sl p g) (sy_rcv s (Out 0))" using rs_stateD(3) [OF st, of "Out 0"] by (simp add: apart_def)
  moreover have "g < rp_S p" using seg_less(2) [OF p(1)] g by simp
  ultimately show ?thesis using ok j(2) g unfolding prep_ok_def by blast
qed

lemma upt_drop: "w < i \<Longrightarrow> filter P [w..<i] = (if P w then [w] else []) @ filter P [Suc w..<i]"
  by (simp add: upt_conv_Cons)

lemma upt_snoc: "w \<le> i \<Longrightarrow> filter P [w..<Suc i] = filter P [w..<i] @ (if P i then [i] else [])"
  by simp

lemma one_chan_flights: "one_chan (map (sflight p r b) xs)" "one_chan (map (rflight p r) xs)"
  by (cases xs; simp add: one_chan_def sflight_def rflight_def)+

lemma cur_step:
  assumes "w < rp_S p" "j < rp_S p"
  shows "cur p r (Suc w) i j = (if j = w then partial p r (Suc (w div rp_q p)) (rg p r w) else cur p r w i j)"
  by (auto simp: cur_def)

text \<open>Combining the received segment with the contribution of the rank.\<close>

lemma combine_step:
  assumes p: "ring_sizes p" "ring_mem p" "reducer (rp_es p) (rp_red p)" and r: "r < rp_n p" and ok: "prep_ok p val r" and val: "rs_vals p val"
    and st: "rs_state p r w w i i s" and w: "w < i" "i \<le> w + 2" "w < rp_N p" and a: "actr p r w"
    and g: "g = rg p r w"
  shows "\<exists>s'. ring_run p val r (rp_prep p (g * rp_L p) (sl p g) @
      [WaitRecv Tmp, Reduce (Out 0) (g * rp_L p) (rp_ib p) (g * rp_L p) Tmp (segmentOffset (rp_L p) w) (sl p g div rp_es p)]) s = Some s' \<and>
    rs_state p r w (Suc w) i i s'"
proof -
  note z = ring_sizesD [OF p(1)]
  let ?L = "rp_L p" and ?l = "sl p g" and ?h = "segmentOffset (rp_L p) w"
  let ?v = "partial p (next_rank (rp_n p) r) (w div rp_q p) g"
  have wS: "w < rp_S p" using w(3) z(4) by simp
  have l: "0 < ?l" "g < rp_S p" "?l div rp_es p * rp_es p = ?l" "g * ?L + ?l \<le> rp_total p" "?l \<le> ?L"
    using a g seg_less(2) [OF p(1)] seg_total [OF p(1)] by auto
  have other: "sg p r j \<noteq> g" if "w \<le> j" "j < i" for j
  proof -
    have jw: "j = w \<or> j = Suc w" using that w(2) by linarith
    show ?thesis
    proof (cases "rp_q p \<le> j")
      case True
      have "j - rp_q p \<noteq> w" "j - rp_q p < rp_S p" using True jw z(2) wS by auto
      then show ?thesis using rg_inj [OF p(1), of "j - rp_q p" w r] sg_rg(1) [OF p(1) True] g wS by auto
    next
      case False
      then have "rp_S p - rp_q p + j \<noteq> w" "rp_S p - rp_q p + j < rp_S p" using jw z(2,9) wS by auto
      then show ?thesis using rg_inj [OF p(1), of "rp_S p - rp_q p + j" w r] sg_rg(2) [OF p(1), of j r] False g wS by auto
    qed
  qed
  have fresh: "cur p r w i w = segment p r (Out 0) g"
    using p(2) r w(3) l(2) g by (auto simp: cur_def ring_mem_def)
  obtain C where C: "ring_run p val r (rp_prep p (g * ?L) ?l) s = Some (s\<lparr>sy_mem := C\<rparr>)"
    "has p C (rp_ib p) g (rp_loc p r g)" "\<And>b x. \<not> (b = Out 0 \<and> g * ?L \<le> x \<and> x < g * ?L + ?l) \<Longrightarrow> C b x = sy_mem s b x"
    using prep_run [OF p(1,2) r ok st wS a g fresh other] by blast
  let ?F = "map (rflight p r) (filter (actr p r) [Suc w..<i])"
  have rcv: "sy_rcv s Tmp = rflight p r w # ?F" using rs_stateD(3) [OF st, of Tmp] a upt_drop [OF w(1), of "actr p r"] by simp
  have ret: "retire (rflight p r w # ?F) 0 = ([rflight p r w], ?F, 0)"
    using one_chan_flights(2) [of p r "w # filter (actr p r) [Suc w..<i]"] by (simp add: retire_def)
  let ?C = "put Tmp ?h ?v C"
  have lv: "length ?v = ?l" using length_partial [OF p _ l(2)] ranks_inverse(3) [OF r z(1)] by simp
  have lrn: "learn val (rflight p r w) C = ?C" using recv_val [OF p(1) r val w(3) a] g by (simp add: learn_def rflight_def)
  let ?s2 = "s\<lparr>sy_mem := ?C, sy_rcv := (sy_rcv s)(Tmp := ?F), sy_rw := (sy_rw s)(Tmp := 0)\<rparr>"
  have do1: "sym_do (rp_red p) (rp_es p) val (\<lambda>b. length (rp_M p r b)) r (WaitRecv Tmp) (s\<lparr>sy_mem := C\<rparr>) = Some ?s2"
    using rs_stateD(4) [OF st] by (simp add: rcv ret lrn)
  have tmp: "cells ?C Tmp ?h ?l = map Some ?v" using lv by (simp add: cells_iff put_def)
  have ib: "rp_ib p \<noteq> Tmp" "Out 0 \<in> rp_B p" using p(2) by (auto simp: ring_mem_def)
  have own: "cells ?C (rp_ib p) (g * ?L) ?l = map Some (rp_loc p r g)"
    using C(2) ib cells_cong [of "g * ?L" ?l ?C "rp_ib p" C] by (simp add: put_def)
  let ?x = "partial p r (Suc (w div rp_q p)) g"
  have lx: "length ?x = ?l" by (rule length_partial [OF p r l(2)])
  have len: "length (rp_M p r (Out 0)) = rp_total p" using p(2) r ib by (simp add: ring_mem_def)
  let ?s3 = "?s2\<lparr>sy_mem := put (Out 0) (g * ?L) ?x ?C\<rparr>"
  have ap: "apart (g * ?L) ?l (sy_snd s (Out 0))" by (rule sends_apart [OF st other])
  have "sym_do (rp_red p) (rp_es p) val (\<lambda>b. length (rp_M p r b)) r
      (Reduce (Out 0) (g * ?L) (rp_ib p) (g * ?L) Tmp ?h (?l div rp_es p)) ?s2 = Some ?s3"
    using own tmp l lx len ap rs_stateD(3) [OF st, of "Out 0"]
    by (simp add: sym_write_def image_iff o_def) (simp add: apart_def)
  with do1 C(1) have run: "ring_run p val r (rp_prep p (g * ?L) ?l @
      [WaitRecv Tmp, Reduce (Out 0) (g * ?L) (rp_ib p) (g * ?L) Tmp ?h (?l div rp_es p)]) s = Some ?s3"
    by (simp add: sym_run_append)
  have mem: "sy_mem ?s3 b x = sy_mem s b x" if "\<not> (b = Out 0 \<and> g * ?L \<le> x \<and> x < g * ?L + ?l)" "b \<noteq> Tmp" for b x
    using that C(3) [of b x] lx by (auto simp: put_def)
  have "rs_state p r w (Suc w) i i ?s3"
    unfolding rs_state_def
  proof (intro conjI allI impI ballI)
    fix j assume j: "j < rp_S p" "actr p r j"
    show "has p (sy_mem ?s3) (Out 0) (rg p r j) (cur p r (Suc w) i j)"
    proof (cases "j = w")
      case True
      then show ?thesis using has_put [OF lx] g by (simp add: cur_step [OF wS wS])
    next
      case False
      then have "rg p r j \<noteq> g" using rg_inj [OF p(1) j(1) wS] g by simp
      then have "has p (sy_mem ?s3) (Out 0) (rg p r j) (cur p r w i j)"
        using rs_stateD(7) [OF st j] has_cong [of "rg p r j" p "sy_mem ?s3" "Out 0" "sy_mem s"] mem seg_apart [of "rg p r j" g p] by fastforce
      with False show ?thesis by (simp add: cur_step [OF wS j(1)])
    qed
  next
    fix b x assume b: "b \<in> rp_B p" "b \<noteq> Out 0" "x < rp_total p"
    then have "b \<noteq> Tmp" using p(2) by (auto simp: ring_mem_def)
    with b mem [of b x] show "sy_mem ?s3 b x = Some (rp_M p r b ! x)" using rs_stateD(8) [OF st b] by simp
  qed (use rs_stateD [OF st] rcv in auto)
  with run show ?thesis by blast
qed

lemma skip_combine:
  assumes "rs_state p r w w i i s" "w < i" "\<not> actr p r w" "w < rp_S p"
  shows "rs_state p r w (Suc w) i i s"
proof -
  have "has p (sy_mem s) (Out 0) (rg p r j) (cur p r (Suc w) i j)" if "j < rp_S p" "actr p r j" for j
    using rs_stateD(7) [OF assms(1) that] that assms(3) by (cases "j = w") (auto simp: cur_step [OF assms(4) that(1)])
  then show ?thesis using rs_stateD [OF assms(1)] assms(2,3) unfolding rs_state_def by (auto simp: upt_drop)
qed

lemma wait_send_step:
  assumes st: "rs_state p r w wr i i s" and w: "w < i"
  shows "\<exists>s'. ring_run p val r (if acts p r w then [WaitSend (sbuf p w)] else []) s = Some s' \<and> rs_state p r (Suc w) wr i i s'"
proof (cases "acts p r w")
  case True
  let ?b = "sbuf p w"
  let ?F = "map (sflight p r ?b) (filter (\<lambda>j. acts p r j \<and> sbuf p j = ?b) [Suc w..<i])"
  have snd: "sy_snd s ?b = sflight p r ?b w # ?F" using rs_stateD(1) [OF st, of ?b] True upt_drop [OF w] by simp
  have "retire (sflight p r ?b w # ?F) 0 = ([sflight p r ?b w], ?F, 0)"
    using one_chan_flights(1) [of p r ?b "w # filter (\<lambda>j. acts p r j \<and> sbuf p j = ?b) [Suc w..<i]"] by (simp add: retire_def)
  then have run: "ring_run p val r [WaitSend ?b] s = Some (s\<lparr>sy_snd := (sy_snd s)(?b := ?F), sy_sw := (sy_sw s)(?b := 0)\<rparr>)"
    using snd rs_stateD(2) [OF st] by simp
  have "sy_snd s b = map (sflight p r b) (filter (\<lambda>j. acts p r j \<and> sbuf p j = b) [Suc w..<i])" if "b \<noteq> ?b" for b
    using rs_stateD(1) [OF st, of b] that upt_drop [OF w, of "\<lambda>j. acts p r j \<and> sbuf p j = b"] by auto
  then have "rs_state p r (Suc w) wr i i (s\<lparr>sy_snd := (sy_snd s)(?b := ?F), sy_sw := (sy_sw s)(?b := 0)\<rparr>)"
    using rs_stateD [OF st] unfolding rs_state_def by auto
  with run True show ?thesis by auto
next
  case False
  then have "rs_state p r (Suc w) wr i i s" using st unfolding rs_state_def by (auto simp: upt_drop [OF w])
  with False show ?thesis by simp
qed

lemma post_recv_step:
  assumes p: "ring_sizes p" "ring_mem p" "reducer (rp_es p) (rp_red p)" and r: "r < rp_n p" and val: "rs_vals p val"
    and st: "rs_state p r w w i i s" and i: "w \<le> i" "i < w + 2" "i < rp_N p"
  shows "\<exists>s'. ring_run p val r
      (if actr p r i then [Recv Tmp (next_rank (rp_n p) r) (rp_slot p) (segmentOffset (rp_L p) i) (sl p (rg p r i))] else []) s = Some s' \<and>
    rs_state p r w w i (Suc i) s'"
proof (cases "actr p r i")
  case True
  let ?h = "segmentOffset (rp_L p) i" and ?l = "sl p (rg p r i)"
  let ?s = "s\<lparr>sy_rcv := (sy_rcv s)(Tmp := sy_rcv s Tmp @ [rflight p r i]), sy_nr := (sy_nr s)(rch p r := Suc (cnt (actr p r) i)), sy_mem := forget Tmp ?h ?l (sy_mem s)\<rparr>"
  have "length (val (rch p r) (sy_nr s (rch p r))) = ?l"
    using recv_val [OF p(1) r val i(3) True] rs_stateD(6) [OF st] length_partial [OF p _ seg_less(2) [OF p(1)]]
      ranks_inverse(3) [OF r ring_sizesD(1) [OF p(1)]] by simp
  moreover have "length (rp_M p r Tmp) = 2 * rp_L p" using p(2) r by (simp add: ring_mem_def)
  then have "?h + ?l \<le> length (rp_M p r Tmp)" using seg_total(2) [OF p(1) True] by (simp add: segmentOffset_def)
  moreover have "apart ?h ?l (sy_rcv s Tmp)"
    unfolding apart_def rs_stateD(3) [OF st]
  proof
    fix e assume "e \<in> set (if Tmp = Tmp then map (rflight p r) (filter (actr p r) [w..<i]) else [])"
    then obtain j where j: "e = rflight p r j" "w \<le> j" "j < i" "actr p r j" by auto
    then have "i = Suc j" using i(2) by linarith
    then have "j mod 2 \<noteq> i mod 2" by presburger
    then show "?h + ?l \<le> f_off e \<or> f_off e + f_len e \<le> ?h"
      using seg_total(2) [OF p(1) True] seg_total(2) [OF p(1) j(4)] unfolding j(1) rflight_def segmentOffset_def by auto
  qed
  moreover have "sbuf p j \<noteq> Tmp" for j using p(2) by (auto simp: ring_mem_def sbuf_def)
  then have "apart ?h ?l (sy_snd s Tmp)" using rs_stateD(1) [OF st, of Tmp] by (simp add: apart_def)
  moreover have nr: "sy_nr s (rch p r) = cnt (actr p r) i" using rs_stateD(6) [OF st] by simp
  ultimately have run: "ring_run p val r [Recv Tmp (next_rank (rp_n p) r) (rp_slot p) ?h ?l] s = Some ?s"
    by (simp add: Let_def rch_def [symmetric] rflight_def nr)
  have "Tmp \<notin> rp_B p" using p(2) by (simp add: ring_mem_def)
  then have mem: "sy_mem ?s b = sy_mem s b" if "b \<noteq> Tmp" for b using that by (simp add: forget_def)
  have rcv: "sy_rcv s Tmp @ [rflight p r i] = map (rflight p r) (filter (actr p r) [w..<Suc i])"
    using rs_stateD(3) [OF st, of Tmp] True i(1) by simp
  have "rs_state p r w w i (Suc i) ?s"
    unfolding rs_state_def
  proof (intro conjI allI impI ballI)
    fix j assume "j < rp_S p" "actr p r j"
    from rs_stateD(7) [OF st this] show "has p (sy_mem ?s) (Out 0) (rg p r j) (cur p r w i j)"
      using has_cong [of "rg p r j" p "sy_mem ?s" "Out 0" "sy_mem s"] mem [of "Out 0"] by simp
  next
    fix b x assume b: "b \<in> rp_B p" "b \<noteq> Out 0" "x < rp_total p"
    with \<open>Tmp \<notin> rp_B p\<close> have "b \<noteq> Tmp" by auto
    with rs_stateD(8) [OF st b] mem show "sy_mem ?s b x = Some (rp_M p r b ! x)" by simp
  qed (use rs_stateD [OF st] rcv True in \<open>auto simp: cnt_Suc fun_eq_iff\<close>)
  with run True show ?thesis by auto
next
  case False
  then have c: "cnt (actr p r) (Suc i) = cnt (actr p r) i" by (simp add: cnt_Suc)
  have "rs_state p r w w i (Suc i) s" using st i(1) False unfolding rs_state_def c by simp
  with False show ?thesis by simp
qed

lemma cur_send:
  assumes "w \<le> i" "i < w + 2" "j < rp_S p" "ring_sizes p"
  shows "cur p r w (Suc i) j = (if i < rp_q p \<and> j = rp_S p - rp_q p + i then rp_aft p r (rg p r j) else cur p r w i j)"
  using assms ring_sizesD(2,9) [OF assms(4)] by (auto simp: cur_def less_Suc_eq)

lemma send_flight:
  assumes st: "rs_state p r w w i i' s" and snd: "sy_snd s' = sy_snd s" "sy_sw s' = sy_sw s" "sy_rcv s' = sy_rcv s" "sy_rw s' = sy_rw s"
      "sy_ns s' = sy_ns s" "sy_nr s' = sy_nr s"
    and i: "w \<le> i" "acts p r i"
    and has: "has p (sy_mem s') (sbuf p i) (sg p r i) (val (sch p r) (cnt (acts p r) i))"
    and mem: "\<forall>j < rp_S p. actr p r j \<longrightarrow> has p (sy_mem s') (Out 0) (rg p r j) (cur p r w (Suc i) j)"
      "\<forall>b \<in> rp_B p. b \<noteq> Out 0 \<longrightarrow> (\<forall>x < rp_total p. sy_mem s' b x = Some (rp_M p r b ! x))"
  shows "\<exists>s''. ring_run p val r [Send (sbuf p i) (prev_rank (rp_n p) r) (rp_slot p) (sg p r i * rp_L p) (sl p (sg p r i))] s' = Some s'' \<and>
    rs_state p r w w (Suc i) i' s''"
proof -
  let ?b = "sbuf p i"
  let ?s = "s'\<lparr>sy_snd := (sy_snd s')(?b := sy_snd s' ?b @ [sflight p r ?b i]), sy_ns := (sy_ns s')(sch p r := Suc (cnt (acts p r) i))\<rparr>"
  have ns: "sy_ns s' (sch p r) = cnt (acts p r) i" using rs_stateD(5) [OF st] snd(5) by simp
  then have "ring_run p val r [Send ?b (prev_rank (rp_n p) r) (rp_slot p) (sg p r i * rp_L p) (sl p (sg p r i))] s' = Some ?s"
    using has by (simp add: Let_def sch_def [symmetric] sflight_def)
  moreover have "sy_snd ?s b = map (sflight p r b) (filter (\<lambda>j. acts p r j \<and> sbuf p j = b) [w..<Suc i])" for b
    using rs_stateD(1) [OF st] snd(1) i by auto
  then have "rs_state p r w w (Suc i) i' ?s"
    using rs_stateD [OF st] snd mem i unfolding rs_state_def by (auto simp: cnt_Suc fun_eq_iff)
  ultimately show ?thesis by blast
qed

lemma post_send_step:
  assumes p: "ring_sizes p" "ring_mem p" and r: "r < rp_n p" and ok: "prep_ok p val r" and val: "rs_vals p val"
    and st: "rs_state p r w w i i' s" and i: "w \<le> i" "i < w + 2" "i < rp_N p" and g: "g = sg p r i"
  shows "\<exists>s'. ring_run p val r
      (if 0 < sl p g then (if i < rp_q p then rp_prep p (g * rp_L p) (sl p g) else []) @
        [Send (sbuf p i) (prev_rank (rp_n p) r) (rp_slot p) (g * rp_L p) (sl p g)] else []) s = Some s' \<and>
    rs_state p r w w (Suc i) i' s'"
proof (cases "acts p r i")
  case False
  note z = ring_sizesD [OF p(1)]
  have "has p (sy_mem s) (Out 0) (rg p r j) (cur p r w (Suc i) j)" if "j < rp_S p" "actr p r j" for j
    using rs_stateD(7) [OF st that] that False sg_rg(2) [OF p(1), of i r] by (auto simp: cur_send [OF i(1,2) that(1) p(1)])
  moreover have c: "cnt (acts p r) (Suc i) = cnt (acts p r) i" using False by (simp add: cnt_Suc)
  ultimately have "rs_state p r w w (Suc i) i' s" using rs_stateD [OF st] False i(1) unfolding rs_state_def c by auto
  with False g show ?thesis by simp
next
  case a: True
  note z = ring_sizesD [OF p(1)]
  have v: "val (sch p r) (cnt (acts p r) i) = partial p r (i div rp_q p) g" using val r i(3) a g unfolding rs_vals_def by blast
  show ?thesis
  proof (cases "i < rp_q p")
    case True
    let ?j = "rp_S p - rp_q p + i"
    have j: "?j < rp_S p" "rg p r ?j = g" using True z(9) sg_rg(2) [OF p(1) True] g by auto
    have "\<not> ?j < w" using i(1) z(2,9) by linarith
    then have fresh: "cur p r w i ?j = segment p r (Out 0) g" using j(2) by (simp add: cur_def)
    have "sg p r k \<noteq> g" if "w \<le> k" "k < i" for k
    proof -
      have "k < rp_q p" "rp_S p - rp_q p + k < rp_S p" using that True z(9) by auto
      then show ?thesis using sg_rg(2) [OF p(1), of k r] rg_inj [OF p(1) _ j(1), of "rp_S p - rp_q p + k" r] j(2) that by auto
    qed
    then obtain C where C: "ring_run p val r (rp_prep p (g * rp_L p) (sl p g)) s = Some (s\<lparr>sy_mem := C\<rparr>)"
      "has p C (rp_ib p) g (rp_loc p r g)" "has p C (Out 0) g (rp_aft p r g)"
      "\<And>b x. \<not> (b = Out 0 \<and> g * rp_L p \<le> x \<and> x < g * rp_L p + sl p g) \<Longrightarrow> C b x = sy_mem s b x"
      using prep_run [OF p r ok st j(1) _ j(2) [symmetric] fresh] a g j(2) by (metis (no_types, lifting))
    have "\<exists>s''. ring_run p val r [Send (sbuf p i) (prev_rank (rp_n p) r) (rp_slot p) (sg p r i * rp_L p) (sl p (sg p r i))] (s\<lparr>sy_mem := C\<rparr>) = Some s'' \<and>
        rs_state p r w w (Suc i) i' s''"
    proof (rule send_flight [OF st _ _ _ _ _ _ i(1) a])
      show "has p (sy_mem (s\<lparr>sy_mem := C\<rparr>)) (sbuf p i) (sg p r i) (val (sch p r) (cnt (acts p r) i))"
        using C(2) v True g by (simp add: sbuf_def)
      show "\<forall>j < rp_S p. actr p r j \<longrightarrow> has p (sy_mem (s\<lparr>sy_mem := C\<rparr>)) (Out 0) (rg p r j) (cur p r w (Suc i) j)"
      proof (intro allI impI)
        fix j' assume j': "j' < rp_S p" "actr p r j'"
        show "has p (sy_mem (s\<lparr>sy_mem := C\<rparr>)) (Out 0) (rg p r j') (cur p r w (Suc i) j')"
        proof (cases "j' = ?j")
          case True
          then show ?thesis using C(3) j(2) \<open>i < rp_q p\<close> by (simp add: cur_send [OF i(1,2) j(1) p(1)])
        next
          case False
          then have "rg p r j' \<noteq> g" using rg_inj [OF p(1) j'(1) j(1), of r] j(2) by simp
          then have "has p C (Out 0) (rg p r j') (cur p r w i j')"
            using rs_stateD(7) [OF st j'] has_cong [of "rg p r j'" p C "Out 0" "sy_mem s"] C(4) seg_apart [of "rg p r j'" g p] by fastforce
          with False show ?thesis by (simp add: cur_send [OF i(1,2) j'(1) p(1)])
        qed
      qed
      show "\<forall>b \<in> rp_B p. b \<noteq> Out 0 \<longrightarrow> (\<forall>x < rp_total p. sy_mem (s\<lparr>sy_mem := C\<rparr>) b x = Some (rp_M p r b ! x))"
        using rs_stateD(8) [OF st] C(4) by simp
    qed simp_all
    then show ?thesis using C(1) a g True by (auto simp: sym_run_append)
  next
    case False
    let ?j = "i - rp_q p"
    have j: "?j < rp_S p" "rg p r ?j = g" "?j < w" using False i z(2,4) sg_rg(1) [OF p(1), of i r] g by auto
    have "Suc (?j div rp_q p) = i div rp_q p" using False z(2) by (simp add: le_div_geq)
    then have "cur p r w i ?j = partial p r (i div rp_q p) g" using j by (simp add: cur_def)
    then have has: "has p (sy_mem s) (Out 0) g (val (sch p r) (cnt (acts p r) i))" using rs_stateD(7) [OF st j(1)] j(2) a g v by simp
    have "has p (sy_mem s) (Out 0) (rg p r j) (cur p r w (Suc i) j)" if "j < rp_S p" "actr p r j" for j
      using rs_stateD(7) [OF st that] False by (simp add: cur_send [OF i(1,2) that(1) p(1)])
    then have "\<exists>s''. ring_run p val r [Send (sbuf p i) (prev_rank (rp_n p) r) (rp_slot p) (sg p r i * rp_L p) (sl p (sg p r i))] s = Some s'' \<and>
        rs_state p r w w (Suc i) i' s''"
      using has rs_stateD(8) [OF st] False g by (intro send_flight [OF st _ _ _ _ _ _ i(1) a]) (simp_all add: sbuf_def)
    then show ?thesis using a g False by simp
  qed
qed

section \<open>The loop\<close>

lemma rs_wait_step:
  assumes p: "ring_sizes p" "ring_mem p" "reducer (rp_es p) (rp_red p)" and r: "r < rp_n p" and ok: "prep_ok p val r" and val: "rs_vals p val"
    and st: "rs_state p r w w i i s" and w: "w < i" "i \<le> w + 2" "w < rp_N p"
  shows "\<exists>s'. ring_run p val r (rs_wait p r w) s = Some s' \<and> rs_state p r (Suc w) (Suc w) i i s'"
proof -
  let ?g = "rg p r w"
  have "\<exists>s'. ring_run p val r (if actr p r w then rp_prep p (?g * rp_L p) (sl p ?g) @
      [WaitRecv Tmp, Reduce (Out 0) (?g * rp_L p) (rp_ib p) (?g * rp_L p) Tmp (segmentOffset (rp_L p) w) (sl p ?g div rp_es p)] else []) s = Some s' \<and>
      rs_state p r w (Suc w) i i s'"
    using combine_step [OF p r ok val st w _ refl] skip_combine [OF st w(1)] w(3) ring_sizesD(4) [OF p(1)] by (cases "actr p r w") auto
  then obtain s1 where s1: "ring_run p val r (if actr p r w then rp_prep p (?g * rp_L p) (sl p ?g) @
      [WaitRecv Tmp, Reduce (Out 0) (?g * rp_L p) (rp_ib p) (?g * rp_L p) Tmp (segmentOffset (rp_L p) w) (sl p ?g div rp_es p)] else []) s = Some s1"
    "rs_state p r w (Suc w) i i s1" by blast
  from wait_send_step [OF s1(2) w(1), of val] s1(1) show ?thesis by (auto simp: rs_wait_def Let_def sym_run_append)
qed

lemma rs_post_step:
  assumes p: "ring_sizes p" "ring_mem p" "reducer (rp_es p) (rp_red p)" and r: "r < rp_n p" and ok: "prep_ok p val r" and val: "rs_vals p val"
    and st: "rs_state p r w w i i s" and i: "w \<le> i" "i < w + 2" "i < rp_N p"
  shows "\<exists>s'. ring_run p val r (rs_post p r i) s = Some s' \<and> rs_state p r w w (Suc i) (Suc i) s'"
proof -
  from post_recv_step [OF p r val st i] obtain s1 where s1: "ring_run p val r
      (if actr p r i then [Recv Tmp (next_rank (rp_n p) r) (rp_slot p) (segmentOffset (rp_L p) i) (sl p (rg p r i))] else []) s = Some s1"
    "rs_state p r w w i (Suc i) s1" by blast
  from post_send_step [OF p(1,2) r ok val s1(2) i refl] s1(1) show ?thesis by (auto simp: rs_post_def Let_def sym_run_append)
qed

lemma rs_loop:
  assumes p: "ring_sizes p" "ring_mem p" "reducer (rp_es p) (rp_red p)" and r: "r < rp_n p" and ok: "prep_ok p val r" and val: "rs_vals p val"
    and st: "rs_state p r 0 0 0 0 s"
  shows "\<exists>s'. ring_run p val r (pipe (rp_N p) (rs_wait p r) (rs_post p r)) s = Some s' \<and>
    rs_state p r (rp_N p) (rp_N p) (rp_N p) (rp_N p) s'"
  using rs_wait_step [OF p r ok val] rs_post_step [OF p r ok val] st by (intro pipe_loop [where I = "\<lambda>w i. rs_state p r w w i i"])

section \<open>No deadlock\<close>

lemma rs_pipe_ok:
  assumes p: "ring_sizes p" and prep: "\<And>off l. local_only (rp_prep p off l)"
  shows "pipe_ok (rp_n p) (rp_N p) (rs_wait p) (rs_post p)"
  unfolding pipe_ok_def
proof (intro allI impI conjI)
  note q = local_only_posts [OF prep]
  note z = ring_sizesD [OF p]
  fix i
  show "well_matched (rp_n p) (\<lambda>r. rs_post p r i)"
    unfolding well_matched_def
  proof (intro allI impI)
    fix r j assume r: "r < rp_n p" "j < rp_n p"
    have "prev_rank (rp_n p) r = j \<longleftrightarrow> next_rank (rp_n p) j = r"
      using ranks_inverse [OF r(1) z(1)] ranks_inverse [OF r(2) z(1)] by auto
    moreover have "sg p r i = rg p j i" if "next_rank (rp_n p) j = r" using next_rank_sg [OF p r(2)] that by blast
    ultimately show "sends j (rs_post p r i) = recvs r (rs_post p j i)" by (simp add: rs_post_def Let_def q)
  qed
  fix r assume r: "r < rp_n p"
  show "addressed (rp_n p) r (rs_post p r i)" using ranks_inverse(3,4) [OF r z(1)] by (simp add: addressed_def rs_post_def Let_def q)
  show "sposts r (rs_wait p r i) = []" "rposts r (rs_wait p r i) = []" by (simp_all add: rs_wait_def Let_def q)
  fix b
  show "wsend b (rs_post p r i) = 0" "wrecv b (rs_post p r i) = 0" by (simp_all add: rs_post_def Let_def q)
  show "pending b (rs_post p r i) = (int (wsend b (rs_wait p r i)), int (wrecv b (rs_wait p r i)))"
    by (simp add: rs_post_def rs_wait_def Let_def q)
next
  fix i r j show "sends j (rs_wait p r i) = []" "recvs j (rs_wait p r i) = []"
    by (simp_all add: rs_wait_def Let_def local_only_posts [OF prep])
qed

end
