(* ===== verification/Gloo_Allreduce.thy ===== *)
theory Gloo_Allreduce
  imports Gloo_RingReduce
begin

text \<open>
  \<open>gloo/allreduce.cc\<close>: the local reductions and broadcasts, the ring algorithm and the bcube
  algorithm as programs of the ranks. The reduction function is a parameter of the execution. A rank
  has \<open>nin\<close> inputs and \<open>nout\<close> outputs; without inputs the outputs are the inputs.
\<close>

section \<open>Local reduction and broadcast\<close>

definition genLocalReduceFunction :: "nat \<Rightarrow> nat \<Rightarrow> nat \<Rightarrow> nat \<Rightarrow> nat \<Rightarrow> program" where
  "genLocalReduceFunction nin nout elementSize offset len =
     (if nin > 0
      then (if nin = 1 then [Memcpy (Out 0) offset (In 0) offset len]
            else Reduce (Out 0) offset (In 0) offset (In 1) offset (len div elementSize) #
                 map (\<lambda>i. Reduce (Out 0) offset (Out 0) offset (In i) offset (len div elementSize)) [2..<nin])
      else map (\<lambda>i. Reduce (Out 0) offset (Out 0) offset (Out i) offset (len div elementSize)) [1..<nout])"

definition genLocalBroadcastFunction :: "nat \<Rightarrow> nat \<Rightarrow> nat \<Rightarrow> program" where
  "genLocalBroadcastFunction nout offset len = map (\<lambda>i. Memcpy (Out i) offset (Out 0) offset len) [1..<nout]"

section \<open>Ring\<close>

text \<open>The size of the segments and their number.\<close>

definition maxSegmentBytes :: "nat \<Rightarrow> nat \<Rightarrow> nat" where
  "maxSegmentBytes elementSize maxSegmentSize = u64_mul elementSize (max 1 (maxSegmentSize div elementSize))"

definition numSegments :: "nat \<Rightarrow> nat \<Rightarrow> nat \<Rightarrow> nat" where
  "numSegments totalBytes maxBytes procs =
     roundUp (max (u64_add totalBytes (maxBytes - 1) div maxBytes) (procs * 2)) procs"

definition segmentBytes :: "nat \<Rightarrow> nat \<Rightarrow> nat \<Rightarrow> nat" where
  "segmentBytes totalBytes segments elementSize = roundUp (u64_add totalBytes (segments - 1) div segments) elementSize"

record ring_offsets =
  sendOffset :: nat
  recvOffset :: nat
  sendLength :: int
  recvLength :: int

text \<open>
  The offsets of both phases have the same form. An offset may lie after the end, and then the
  length, a signed number, is not positive.
\<close>

definition segmentOffsets :: "nat \<Rightarrow> nat \<Rightarrow> nat \<Rightarrow> nat \<Rightarrow> nat \<Rightarrow> nat \<Rightarrow> ring_offsets" where
  "segmentOffsets base perRank segments segBytes totalBytes i =
     (let so = u64_mul (u64_add (u64_mul base perRank) i) segBytes mod u64_mul segments segBytes;
          ro = u64_mul (u64_add (u64_mul (base + 1) perRank) i) segBytes mod u64_mul segments segBytes
      in \<lparr>sendOffset = so, recvOffset = ro,
          sendLength = min (int segBytes) (int totalBytes - int so),
          recvLength = min (int segBytes) (int totalBytes - int ro)\<rparr>)"

definition computeReduceScatterOffsets :: "nat \<Rightarrow> nat \<Rightarrow> nat \<Rightarrow> nat \<Rightarrow> nat \<Rightarrow> nat \<Rightarrow> ring_offsets" where
  "computeReduceScatterOffsets rank = segmentOffsets (rank + 1)"

definition computeAllgatherOffsets :: "nat \<Rightarrow> nat \<Rightarrow> nat \<Rightarrow> nat \<Rightarrow> nat \<Rightarrow> nat \<Rightarrow> ring_offsets" where
  "computeAllgatherOffsets rank = segmentOffsets rank"

text \<open>One iteration of the reduce-scatter loop, given the offsets of an iteration.\<close>

definition reduceScatter_iter ::
    "(nat \<Rightarrow> nat \<Rightarrow> program) \<Rightarrow> 64 word \<Rightarrow> ctx \<Rightarrow> nat \<Rightarrow> nat \<Rightarrow> nat \<Rightarrow> nat \<Rightarrow> (nat \<Rightarrow> ring_offsets) \<Rightarrow> nat \<Rightarrow> program" where
  "reduceScatter_iter reduceInputs slot c elementSize segBytes segments perRank offs i =
     (let recvRank = (ctx_size c + ctx_rank c + 1) mod ctx_size c; sendRank = (ctx_size c + ctx_rank c - 1) mod ctx_size c
      in (if i \<ge> 2
          then let prev = offs (i - 2)
               in (if recvLength prev > 0
                   then reduceInputs (recvOffset prev) (nat (recvLength prev)) @
                     [WaitRecv Tmp,
                      Reduce (Out 0) (recvOffset prev) (Out 0) (recvOffset prev) Tmp (segmentOffset segBytes i)
                        (nat (recvLength prev) div elementSize)]
                   else []) @
                  (if sendLength prev > 0 then [WaitSend (Out 0)] else [])
          else []) @
         (if i < segments - perRank
          then let cur = offs i
               in (if recvLength cur > 0 then [Recv Tmp recvRank slot (segmentOffset segBytes i) (nat (recvLength cur))] else []) @
                  (if sendLength cur > 0
                   then (if i < perRank then reduceInputs (sendOffset cur) (nat (sendLength cur)) else []) @
                     [Send (Out 0) sendRank slot (sendOffset cur) (nat (sendLength cur))]
                   else [])
          else []))"

text \<open>One iteration of the allgather loop.\<close>

definition allgatherPhase_iter ::
    "(nat \<Rightarrow> nat \<Rightarrow> program) \<Rightarrow> 64 word \<Rightarrow> ctx \<Rightarrow> nat \<Rightarrow> nat \<Rightarrow> (nat \<Rightarrow> ring_offsets) \<Rightarrow> nat \<Rightarrow> program" where
  "allgatherPhase_iter broadcastOutputs slot c segments perRank offs i =
     (let recvRank = (ctx_size c + ctx_rank c + 1) mod ctx_size c; sendRank = (ctx_size c + ctx_rank c - 1) mod ctx_size c
      in (if i \<ge> 2
          then let prev = offs (i - 2)
               in (if recvLength prev > 0
                   then WaitRecv (Out 0) # broadcastOutputs (recvOffset prev) (nat (recvLength prev)) else []) @
                  (if sendLength prev > 0 then [WaitSend (Out 0)] else [])
          else []) @
         (if i < segments - perRank
          then let cur = offs i
               in (if recvLength cur > 0 then [Recv (Out 0) recvRank slot (recvOffset cur) (nat (recvLength cur))] else []) @
                  (if sendLength cur > 0
                   then Send (Out 0) sendRank slot (sendOffset cur) (nat (sendLength cur)) #
                     (if i < perRank then broadcastOutputs (sendOffset cur) (nat (sendLength cur)) else [])
                   else [])
          else []))"

definition ring :: "(nat \<Rightarrow> bool) \<Rightarrow> nat \<Rightarrow> nat \<Rightarrow> nat \<Rightarrow> 32 word \<Rightarrow> nat \<Rightarrow> nat \<Rightarrow> ctx \<Rightarrow> program result" where
  "ring pairs elements elementSize maxSegmentSize tag nin nout c =
     (let slot = slot_of kAllreduceSlotPrefix tag;
          totalBytes = u64_mul elements elementSize;
          recvRank = (ctx_size c + ctx_rank c + 1) mod ctx_size c;
          sendRank = (ctx_size c + ctx_rank c - 1) mod ctx_size c;
          maxBytes = maxSegmentBytes elementSize maxSegmentSize;
          segments = numSegments totalBytes maxBytes (ctx_size c);
          perRank = segments div ctx_size c;
          segBytes = segmentBytes totalBytes segments elementSize;
          reduceInputs = genLocalReduceFunction nin nout elementSize;
          broadcastOutputs = genLocalBroadcastFunction nout
      in enforce (pairs recvRank) (enforce (pairs sendRank)
        (enforce (segments mod ctx_size c = 0) (enforce (segments \<ge> ctx_size c * 2)
          (Inr (concat (map (reduceScatter_iter reduceInputs slot c elementSize segBytes segments perRank
                        (computeReduceScatterOffsets (ctx_rank c) perRank segments segBytes totalBytes))
                      [0..<segments - perRank + 2]) @
                concat (map (allgatherPhase_iter broadcastOutputs slot c segments perRank
                        (computeAllgatherOffsets (ctx_rank c) perRank segments segBytes totalBytes))
                      [0..<segments - perRank + 2])))))))"

section \<open>Bcube\<close>

text \<open>The factors of the number of processes; for zero processes the loop of the code does not end.\<close>

partial_function (option) groupSize_loop :: "nat \<Rightarrow> nat \<Rightarrow> nat list \<Rightarrow> nat list option" where
  "groupSize_loop n procs result =
     (if procs mod n = 0 then groupSize_loop n (procs div n) (result @ [n])
      else Some (if procs > 1 then result @ [procs] else result))"

definition computeGroupSizePerStep :: "nat \<Rightarrow> nat \<Rightarrow> nat list option result" where
  "computeGroupSizePerStep procs n = enforce (n > 1) (Inr (groupSize_loop n procs []))"

record group =
  peerDistance :: nat
  bufferOffset :: nat
  bufferLength :: nat
  group_ranks :: "nat list"
  chunkLength :: nat
  myChunkOffset :: nat
  myChunkLength :: nat

definition currentChunkLength :: "nat \<Rightarrow> nat \<Rightarrow> nat \<Rightarrow> nat" where
  "currentChunkLength chunkLen bufLen i = min chunkLen (nat (max 0 (int bufLen - int (i * chunkLen))))"

definition make_group :: "nat \<Rightarrow> nat \<Rightarrow> nat \<Rightarrow> nat \<Rightarrow> nat \<Rightarrow> group" where
  "make_group rank distance offset len groupSize =
     (let groupRank = (rank div distance) mod groupSize;
          baseRank = rank - groupRank * distance;
          chunkLen = (len + (groupSize - 1)) div groupSize
      in \<lparr>peerDistance = distance, bufferOffset = offset, bufferLength = len,
          group_ranks = map (\<lambda>i. baseRank + i * distance) [0..<groupSize],
          chunkLength = chunkLen, myChunkOffset = offset + groupRank * chunkLen,
          myChunkLength = currentChunkLength chunkLen len groupRank\<rparr>)"

fun make_groups :: "nat \<Rightarrow> nat \<Rightarrow> nat \<Rightarrow> nat \<Rightarrow> nat list \<Rightarrow> group list" where
  "make_groups rank distance offset len [] = []"
| "make_groups rank distance offset len (groupSize # sizes) =
     (let g = make_group rank distance offset len groupSize
      in g # make_groups rank (distance * groupSize) (myChunkOffset g) (myChunkLength g) sizes)"

text \<open>The members of a group but the rank itself, with their positions.\<close>

definition peers :: "nat \<Rightarrow> group \<Rightarrow> (nat \<times> nat) list" where
  "peers rank g = filter (\<lambda>(i, p). p \<noteq> rank) (enumerate 0 (group_ranks g))"

definition bcube_reduceScatter :: "(nat \<Rightarrow> nat \<Rightarrow> program) \<Rightarrow> 64 word \<Rightarrow> nat \<Rightarrow> nat \<Rightarrow> nat \<Rightarrow> group \<Rightarrow> program" where
  "bcube_reduceScatter reduceInputs slot rank elementSize step g =
     map (\<lambda>(i, src). Recv Tmp src slot (i * chunkLength g * elementSize) (myChunkLength g * elementSize)) (peers rank g) @
     concat (map (\<lambda>(i, dst).
       let currentOffset = bufferOffset g + i * chunkLength g;
           currentLength = currentChunkLength (chunkLength g) (bufferLength g) i
       in (if step = 0 then reduceInputs (currentOffset * elementSize) (currentLength * elementSize) else []) @
          [Send (Out 0) dst slot (currentOffset * elementSize) (currentLength * elementSize)]) (peers rank g)) @
     concat (map (\<lambda>_. [WaitRecv Tmp, WaitSend (Out 0)]) (peers rank g)) @
     (if step = 0 then reduceInputs (myChunkOffset g * elementSize) (myChunkLength g * elementSize) else []) @
     map (\<lambda>(i, src). Reduce (Out 0) (myChunkOffset g * elementSize) (Out 0) (myChunkOffset g * elementSize)
       Tmp (i * chunkLength g * elementSize) (myChunkLength g)) (peers rank g)"

definition bcube_allgather :: "(nat \<Rightarrow> nat \<Rightarrow> program) \<Rightarrow> 64 word \<Rightarrow> nat \<Rightarrow> nat \<Rightarrow> group \<Rightarrow> program" where
  "bcube_allgather broadcastOutputs slot rank elementSize g =
     map (\<lambda>(i, src). Recv (Out 0) src slot ((bufferOffset g + i * chunkLength g) * elementSize)
       (currentChunkLength (chunkLength g) (bufferLength g) i * elementSize)) (peers rank g) @
     map (\<lambda>(i, dst). Send (Out 0) dst slot (myChunkOffset g * elementSize) (myChunkLength g * elementSize)) (peers rank g) @
     concat (map (\<lambda>_. [WaitRecv (Out 0), WaitSend (Out 0)]) (peers rank g)) @
     concat (map (\<lambda>(i, peer). broadcastOutputs ((bufferOffset g + i * chunkLength g) * elementSize)
       (currentChunkLength (chunkLength g) (bufferLength g) i * elementSize)) (peers rank g))"

definition bcube :: "nat \<Rightarrow> nat \<Rightarrow> 32 word \<Rightarrow> nat \<Rightarrow> nat \<Rightarrow> ctx \<Rightarrow> program option result" where
  "bcube elements elementSize tag nin nout c =
     (let slot = slot_of kAllreduceSlotPrefix tag;
          reduceInputs = genLocalReduceFunction nin nout elementSize;
          broadcastOutputs = genLocalBroadcastFunction nout
      in rbind (computeGroupSizePerStep (ctx_size c) 2) (\<lambda>sizes.
        Inr (map_option (\<lambda>sizes.
          let groups = make_groups (ctx_rank c) 1 0 elements sizes; g = last groups
          in concat (map (\<lambda>step. bcube_reduceScatter reduceInputs slot (ctx_rank c) elementSize step (groups ! step)) [0..<length groups]) @
             broadcastOutputs (myChunkOffset g * elementSize) (myChunkLength g * elementSize) @
             concat (map (bcube_allgather broadcastOutputs slot (ctx_rank c) elementSize) (rev groups))) sizes)))"

section \<open>Allreduce\<close>

datatype algorithm = UNSPECIFIED | RING | BCUBE | OtherAlgorithm

text \<open>The result \<open>None\<close> stands for a call that does not return.\<close>

definition allreduce ::
    "(nat \<Rightarrow> bool) \<Rightarrow> bool \<Rightarrow> algorithm \<Rightarrow> nat \<Rightarrow> nat \<Rightarrow> nat \<Rightarrow> 32 word \<Rightarrow> nat list \<Rightarrow> nat list \<Rightarrow> ctx \<Rightarrow> program option result" where
  "allreduce pairs hasReduce algo elements elementSize maxSegmentSize tag insizes outsizes c =
     (if elements = 0 then Inr (Some [])
      else enforce (length outsizes > 0) (enforce (elementSize > 0) (enforce hasReduce
        (let totalBytes = u64_mul elements elementSize; nin = length insizes; nout = length outsizes
         in enforce (\<forall>x \<in> set outsizes. x = totalBytes) (enforce (\<forall>x \<in> set insizes. x = totalBytes)
           (if ctx_size c = 1
            then Inr (Some (genLocalReduceFunction nin nout elementSize 0 totalBytes @ genLocalBroadcastFunction nout 0 totalBytes))
            else (case algo of
                    UNSPECIFIED \<Rightarrow> rbind (ring pairs elements elementSize maxSegmentSize tag nin nout c) (Inr \<circ> Some)
                  | RING \<Rightarrow> rbind (ring pairs elements elementSize maxSegmentSize tag nin nout c) (Inr \<circ> Some)
                  | BCUBE \<Rightarrow> bcube elements elementSize tag nin nout c
                  | OtherAlgorithm \<Rightarrow> Inl EnforceNotMet)))))))"

end
