(* ===== verification/Gloo_Allreduce_Ring.thy ===== *)
theory Gloo_Allreduce_Ring
  imports Gloo_Allreduce
begin

text \<open>
  The ring algorithm of \<open>allreduce.cc\<close> is correct under every interleaving: the reduce-scatter loop is
  the one of \<open>Gloo_RingReduce\<close>, and the allgather loop passes the finished segments on.
\<close>

section \<open>Local computations\<close>

lemma local_reduce [simp]: "local_only (genLocalReduceFunction nin nout es off l)"
  by (auto simp: local_only_def genLocalReduceFunction_def)

lemma local_broadcast [simp]: "local_only (genLocalBroadcastFunction nout off l)"
  by (auto simp: local_only_def genLocalBroadcastFunction_def)

text \<open>The reduction of the inputs of a rank, on a region.\<close>

definition local_sources :: "nat \<Rightarrow> nat \<Rightarrow> bufid list" where
  "local_sources nin nout = (if nin > 0 then map In [0..<nin] else map Out [0..<nout])"

definition local_reduction :: "('a list \<Rightarrow> 'a list \<Rightarrow> nat \<Rightarrow> 'a list) \<Rightarrow> nat \<Rightarrow> 'a list list \<Rightarrow> 'a list" where
  "local_reduction red k vs = fold (\<lambda>v a. red a v k) (tl vs) (hd vs)"

definition outside :: "nat \<Rightarrow> nat \<Rightarrow> (bufid \<Rightarrow> nat \<Rightarrow> 'a option) \<Rightarrow> (bufid \<Rightarrow> nat \<Rightarrow> 'a option) \<Rightarrow> bool" where
  "outside off l C C' \<longleftrightarrow> (\<forall>b x. \<not> (b = Out 0 \<and> off \<le> x \<and> x < off + l) \<longrightarrow> C b x = C' b x)"

lemma outside_cells: "outside off l C C' \<Longrightarrow> b \<noteq> Out 0 \<Longrightarrow> cells C b off l = cells C' b off l"
  by (intro cells_cong) (simp add: outside_def)

lemma outside_put: "length v = l \<Longrightarrow> outside off l (put (Out 0) off v C) C"
  by (simp add: outside_def put_def)

lemma outside_trans: "outside off l C C' \<Longrightarrow> outside off l C' C'' \<Longrightarrow> outside off l C C''"
  by (simp add: outside_def)

lemma reduce_do:
  assumes red: "reducer es red" "l div es * es = l"
    and a: "cells (sy_mem s) b1 off l = map Some a" and v: "cells (sy_mem s) b2 off l = map Some v"
    and free: "apart off l (sy_snd s (Out 0))" "apart off l (sy_rcv s (Out 0))" "off + l \<le> len (Out 0)"
  shows "sym_do red es val len r (Reduce (Out 0) off b1 off b2 off (l div es)) s =
      Some (s\<lparr>sy_mem := put (Out 0) off (red a v (l div es)) (sy_mem s)\<rparr>)" "length (red a v (l div es)) = l"
proof -
  have len: "length a = l" "length v = l" using a v by (simp_all add: cells_iff)
  then show lr: "length (red a v (l div es)) = l" using red by (simp add: reducer_def)
  show "sym_do red es val len r (Reduce (Out 0) off b1 off b2 off (l div es)) s =
      Some (s\<lparr>sy_mem := put (Out 0) off (red a v (l div es)) (sy_mem s)\<rparr>)"
    using a v free lr red(2) by (simp add: sym_write_def image_iff o_def)
qed

lemma reduce_run:
  assumes red: "reducer es red" "l div es * es = l"
    and a: "cells (sy_mem s) (Out 0) off l = map Some a"
    and v: "\<And>b. b \<in> set bs \<Longrightarrow> b \<noteq> Out 0 \<and> cells (sy_mem s) b off l = map Some (v b)"
    and free: "apart off l (sy_snd s (Out 0))" "apart off l (sy_rcv s (Out 0))" "off + l \<le> len (Out 0)"
  shows "\<exists>C. sym_run red es val len r (map (\<lambda>b. Reduce (Out 0) off (Out 0) off b off (l div es)) bs) s = Some (s\<lparr>sy_mem := C\<rparr>) \<and>
    cells C (Out 0) off l = map Some (fold (\<lambda>v a. red a v (l div es)) (map v bs) a) \<and> outside off l C (sy_mem s)"
  using a v free(1,2)
proof (induction bs arbitrary: s a)
  case Nil
  then show ?case by (intro exI [of _ "sy_mem s"]) (simp add: outside_def)
next
  case (Cons b bs)
  let ?x = "red a (v b) (l div es)"
  let ?s = "s\<lparr>sy_mem := put (Out 0) off ?x (sy_mem s)\<rparr>"
  note d = reduce_do [where len = len, OF red Cons.prems(1) _ Cons.prems(3,4) free(3), of b "v b"]
  have b: "cells (sy_mem s) b off l = map Some (v b)" using Cons.prems(2) by simp
  note out = outside_put [OF d(2) [OF b], of off "sy_mem s"]
  have "\<exists>C. sym_run red es val len r (map (\<lambda>b. Reduce (Out 0) off (Out 0) off b off (l div es)) bs) ?s = Some (?s\<lparr>sy_mem := C\<rparr>) \<and>
    cells C (Out 0) off l = map Some (fold (\<lambda>v a. red a v (l div es)) (map v bs) ?x) \<and> outside off l C (sy_mem ?s)"
  proof (rule Cons.IH)
    show "cells (sy_mem ?s) (Out 0) off l = map Some ?x" using d(2) [OF b] by (simp add: cells_iff put_def)
    show "b' \<noteq> Out 0 \<and> cells (sy_mem ?s) b' off l = map Some (v b')" if "b' \<in> set bs" for b'
      using Cons.prems(2) [of b'] that outside_cells [OF out, of b'] by simp
  qed (use Cons.prems(3,4) in simp_all)
  then show ?case using d(1) [OF b] outside_trans [OF _ out] by fastforce
qed

lemma reduceInputs_run:
  assumes red: "reducer es red" "l div es * es = l" and out: "0 < nout"
    and v: "\<And>b. b \<in> set (local_sources nin nout) \<Longrightarrow> cells (sy_mem s) b off l = map Some (v b)"
    and free: "apart off l (sy_snd s (Out 0))" "apart off l (sy_rcv s (Out 0))" "off + l \<le> len (Out 0)"
  shows "\<exists>C. sym_run red es val len r (genLocalReduceFunction nin nout es off l) s = Some (s\<lparr>sy_mem := C\<rparr>) \<and>
    cells C (Out 0) off l = map Some (local_reduction red (l div es) (map v (local_sources nin nout))) \<and> outside off l C (sy_mem s)"
proof -
  consider (none) "nin = 0" | (one) "nin = 1" | (more) "2 \<le> nin" by linarith
  then show ?thesis
  proof cases
    case none
    have "[0..<nout] = 0 # [1..<nout]" using out by (simp add: upt_conv_Cons)
    then have src: "local_sources nin nout = Out 0 # map Out [1..<nout]" using none by (simp add: local_sources_def)
    have "\<exists>C. sym_run red es val len r (map (\<lambda>b. Reduce (Out 0) off (Out 0) off b off (l div es)) (map Out [1..<nout])) s = Some (s\<lparr>sy_mem := C\<rparr>) \<and>
        cells C (Out 0) off l = map Some (fold (\<lambda>v a. red a v (l div es)) (map v (map Out [1..<nout])) (v (Out 0))) \<and> outside off l C (sy_mem s)"
      using v free by (intro reduce_run [OF red]) (auto simp: src)
    then show ?thesis unfolding src local_reduction_def using none by (simp add: genLocalReduceFunction_def o_def)
  next
    case one
    have src: "local_sources nin nout = [In 0]" using one by (simp add: local_sources_def)
    have c: "cells (sy_mem s) (In 0) off l = map Some (v (In 0))" using v by (simp add: src)
    then have len: "length (v (In 0)) = l" by (simp add: cells_iff)
    let ?C = "put (Out 0) off (v (In 0)) (sy_mem s)"
    have "sym_run red es val len r (genLocalReduceFunction nin nout es off l) s = Some (s\<lparr>sy_mem := ?C\<rparr>)"
      using c free len one by (simp add: genLocalReduceFunction_def sym_write_def image_iff o_def)
    moreover have "cells ?C (Out 0) off l = map Some (local_reduction red (l div es) (map v (local_sources nin nout)))"
      using len by (simp add: src local_reduction_def cells_iff put_def)
    ultimately show ?thesis using outside_put [OF len, of off "sy_mem s"] by blast
  next
    case more
    then have "[0..<nin] = 0 # 1 # [2..<nin]" by (simp add: upt_conv_Cons numeral_2_eq_2)
    then have src: "local_sources nin nout = In 0 # In 1 # map In [2..<nin]" using more by (simp add: local_sources_def)
    note d = reduce_do [where len = len and ?b1.0 = "In 0" and ?b2.0 = "In 1", OF red v v free]
    let ?x = "red (v (In 0)) (v (In 1)) (l div es)"
    let ?s = "s\<lparr>sy_mem := put (Out 0) off ?x (sy_mem s)\<rparr>"
    have lx: "length ?x = l" using d(2) by (simp add: src)
    note out = outside_put [OF lx, of off "sy_mem s"]
    have "\<exists>C. sym_run red es val len r (map (\<lambda>b. Reduce (Out 0) off (Out 0) off b off (l div es)) (map In [2..<nin])) ?s = Some (?s\<lparr>sy_mem := C\<rparr>) \<and>
        cells C (Out 0) off l = map Some (fold (\<lambda>v a. red a v (l div es)) (map v (map In [2..<nin])) ?x) \<and> outside off l C (sy_mem ?s)"
    proof (rule reduce_run [OF red])
      show "cells (sy_mem ?s) (Out 0) off l = map Some ?x" using lx by (simp add: cells_iff put_def)
      show "b \<noteq> Out 0 \<and> cells (sy_mem ?s) b off l = map Some (v b)" if "b \<in> set (map In [2..<nin])" for b
        using that v [of b] outside_cells [OF out, of b] by (auto simp: src)
    qed (use free in simp_all)
    then show ?thesis using d(1) outside_trans [OF _ out] more
      by (fastforce simp: genLocalReduceFunction_def src local_reduction_def o_def)
  qed
qed

text \<open>The broadcast to the other outputs.\<close>

lemma broadcast_run:
  assumes a: "cells (sy_mem s) (Out 0) off l = map Some a"
    and free: "\<And>b. 1 \<le> b \<Longrightarrow> b < nout \<Longrightarrow> sy_snd s (Out b) = [] \<and> sy_rcv s (Out b) = [] \<and> off + l \<le> len (Out b)"
  shows "\<exists>C. sym_run red es val len r (genLocalBroadcastFunction nout off l) s = Some (s\<lparr>sy_mem := C\<rparr>) \<and>
    (\<forall>b. 1 \<le> b \<and> b < nout \<longrightarrow> cells C (Out b) off l = map Some a) \<and>
    (\<forall>b x. \<not> ((\<exists>i. 1 \<le> i \<and> i < nout \<and> b = Out i) \<and> off \<le> x \<and> x < off + l) \<longrightarrow> C b x = sy_mem s b x)"
proof -
  have la: "length a = l" using a by (simp add: cells_iff)
  have "\<exists>C. sym_run red es val len r (map (\<lambda>i. Memcpy (Out i) off (Out 0) off l) is) s = Some (s\<lparr>sy_mem := C\<rparr>) \<and>
      (\<forall>b. C b = (if \<exists>i \<in> set is. b = Out i then put b off a (sy_mem s) b else sy_mem s b))"
    if "\<forall>i \<in> set is. 1 \<le> i \<and> i < nout" for "is"
    using that
  proof (induction "is" rule: rev_induct)
    case Nil
    then show ?case by (intro exI [of _ "sy_mem s"]) simp
  next
    case (snoc i "is")
    then obtain C where C: "sym_run red es val len r (map (\<lambda>i. Memcpy (Out i) off (Out 0) off l) is) s = Some (s\<lparr>sy_mem := C\<rparr>)"
      "\<forall>b. C b = (if \<exists>i \<in> set is. b = Out i then put b off a (sy_mem s) b else sy_mem s b)" by auto
    have "C (Out 0) = sy_mem s (Out 0)" using C(2) snoc.prems by auto
    then have c: "cells C (Out 0) off l = map Some a" using a cells_cong [of off l C "Out 0" "sy_mem s"] by simp
    then have "sym_do red es val len r (Memcpy (Out i) off (Out 0) off l) (s\<lparr>sy_mem := C\<rparr>) = Some (s\<lparr>sy_mem := put (Out i) off a C\<rparr>)"
      using free [of i] snoc.prems la by (simp add: sym_write_def image_iff o_def apart_def)
    moreover have "put (Out i) off a C b = (if \<exists>j \<in> set (is @ [i]). b = Out j then put b off a (sy_mem s) b else sy_mem s b)" for b
      using C(2) by (auto simp: put_def fun_eq_iff)
    ultimately show ?case using C(1) by (auto simp: sym_run_append)
  qed
  from this [of "[1..<nout]"] obtain C where C: "sym_run red es val len r (genLocalBroadcastFunction nout off l) s = Some (s\<lparr>sy_mem := C\<rparr>)"
    "\<And>b. C b = (if \<exists>i \<in> set [1..<nout]. b = Out i then put b off a (sy_mem s) b else sy_mem s b)"
    by (auto simp: genLocalBroadcastFunction_def)
  have "cells C (Out b) off l = map Some a" if "1 \<le> b" "b < nout" for b using that la C(2) [of "Out b"] by (simp add: cells_iff put_def)
  moreover have "C b x = sy_mem s b x" if "\<not> ((\<exists>i. 1 \<le> i \<and> i < nout \<and> b = Out i) \<and> off \<le> x \<and> x < off + l)" for b x
    using that C(2) [of b] la by (auto simp: put_def)
  ultimately show ?thesis using C(1) by blast
qed

section \<open>Passing on the finished segments\<close>

text \<open>The segment that a rank sends in an iteration of the allgather loop; it receives \<open>sg\<close>.\<close>

definition ag :: "'a ringp \<Rightarrow> nat \<Rightarrow> nat \<Rightarrow> nat" where
  "ag p r i = (r * rp_q p + i) mod rp_S p"

abbreviation acta :: "'a ringp \<Rightarrow> nat \<Rightarrow> nat \<Rightarrow> bool" where "acta p r j \<equiv> 0 < sl p (ag p r j)"

definition full :: "'a ringp \<Rightarrow> nat \<Rightarrow> 'a list" where
  "full p g = partial p (g div rp_q p) (rp_n p - 1) g"

definition ag_wait :: "'a ringp \<Rightarrow> nat \<Rightarrow> nat \<Rightarrow> nat \<Rightarrow> program" where
  "ag_wait p nout r j =
     (if acts p r j then WaitRecv (Out 0) # genLocalBroadcastFunction nout (sg p r j * rp_L p) (sl p (sg p r j)) else []) @
     (if acta p r j then [WaitSend (Out 0)] else [])"

definition ag_post :: "'a ringp \<Rightarrow> nat \<Rightarrow> nat \<Rightarrow> nat \<Rightarrow> program" where
  "ag_post p nout r i =
     (if acts p r i then [Recv (Out 0) (next_rank (rp_n p) r) (rp_slot p) (sg p r i * rp_L p) (sl p (sg p r i))] else []) @
     (if acta p r i
      then Send (Out 0) (prev_rank (rp_n p) r) (rp_slot p) (ag p r i * rp_L p) (sl p (ag p r i)) #
        (if i < rp_q p then genLocalBroadcastFunction nout (ag p r i * rp_L p) (sl p (ag p r i)) else [])
      else [])"

definition ag_flight :: "'a ringp \<Rightarrow> nat \<Rightarrow> nat \<Rightarrow> flight" where
  "ag_flight p r j = flight (sch p r) (cnt (acts p r) (rp_N p) + cnt (acta p r) j) (Out 0, ag p r j * rp_L p, sl p (ag p r j))"

definition in_flight_of :: "'a ringp \<Rightarrow> nat \<Rightarrow> nat \<Rightarrow> flight" where
  "in_flight_of p r j = flight (rch p r) (cnt (actr p r) (rp_N p) + cnt (acts p r) j) (Out 0, sg p r j * rp_L p, sl p (sg p r j))"

definition ag_vals :: "'a ringp \<Rightarrow> (chan \<Rightarrow> nat \<Rightarrow> 'a list) \<Rightarrow> bool" where
  "ag_vals p val \<longleftrightarrow> (\<forall>r < rp_n p. \<forall>i < rp_N p. acta p r i \<longrightarrow>
     val (sch p r) (cnt (acts p r) (rp_N p) + cnt (acta p r) i) = full p (ag p r i))"

definition ag_state :: "'a ringp \<Rightarrow> nat \<Rightarrow> nat \<Rightarrow> nat \<Rightarrow> nat \<Rightarrow> nat \<Rightarrow> nat \<Rightarrow> 'a sym \<Rightarrow> bool" where
  "ag_state p nout r ws wr is ir s \<longleftrightarrow>
     (\<forall>b. sy_snd s b = (if b = Out 0 then map (ag_flight p r) (filter (acta p r) [ws..<is]) else [])) \<and> sy_sw s = (\<lambda>_. 0) \<and>
     (\<forall>b. sy_rcv s b = (if b = Out 0 then map (in_flight_of p r) (filter (acts p r) [wr..<ir]) else [])) \<and> sy_rw s = (\<lambda>_. 0) \<and>
     sy_ns s (sch p r) = cnt (acts p r) (rp_N p) + cnt (acta p r) is \<and>
     sy_nr s (rch p r) = cnt (actr p r) (rp_N p) + cnt (acts p r) ir \<and>
     (\<forall>j < rp_S p. acts p r j \<longrightarrow> j < wr \<or> rp_S p - rp_q p \<le> j \<longrightarrow> has p (sy_mem s) (Out 0) (sg p r j) (full p (sg p r j))) \<and>
     (\<forall>b. 1 \<le> b \<longrightarrow> b < nout \<longrightarrow> (\<forall>j < rp_S p. acts p r j \<longrightarrow> j < wr \<or> rp_S p - rp_q p \<le> j \<and> j - (rp_S p - rp_q p) < is \<longrightarrow>
        has p (sy_mem s) (Out b) (sg p r j) (full p (sg p r j))))"

lemma ag_stateD:
  assumes "ag_state p nout r ws wr is ir s"
  shows "sy_snd s b = (if b = Out 0 then map (ag_flight p r) (filter (acta p r) [ws..<is]) else [])" "sy_sw s = (\<lambda>_. 0)"
    "sy_rcv s b = (if b = Out 0 then map (in_flight_of p r) (filter (acts p r) [wr..<ir]) else [])" "sy_rw s = (\<lambda>_. 0)"
    "sy_ns s (sch p r) = cnt (acts p r) (rp_N p) + cnt (acta p r) is"
    "sy_nr s (rch p r) = cnt (actr p r) (rp_N p) + cnt (acts p r) ir"
    "j < rp_S p \<Longrightarrow> acts p r j \<Longrightarrow> j < wr \<or> rp_S p - rp_q p \<le> j \<Longrightarrow> has p (sy_mem s) (Out 0) (sg p r j) (full p (sg p r j))"
    "1 \<le> i \<Longrightarrow> i < nout \<Longrightarrow> j < rp_S p \<Longrightarrow> acts p r j \<Longrightarrow> j < wr \<or> rp_S p - rp_q p \<le> j \<and> j - (rp_S p - rp_q p) < is \<Longrightarrow>
      has p (sy_mem s) (Out i) (sg p r j) (full p (sg p r j))"
  using assms unfolding ag_state_def by blast+

lemma sg_inj: "ring_sizes p \<Longrightarrow> i < rp_S p \<Longrightarrow> j < rp_S p \<Longrightarrow> sg p r i = sg p r j \<longleftrightarrow> i = j"
  using mod_shift_inj [of "(r + 1) * rp_q p" i "rp_S p" j] by (auto simp: sg_def)

lemma ag_sg:
  assumes "ring_sizes p"
  shows "rp_q p \<le> i \<Longrightarrow> ag p r i = sg p r (i - rp_q p)"
    and "i < rp_q p \<Longrightarrow> ag p r i = sg p r (rp_S p - rp_q p + i)"
proof -
  have "rp_q p \<le> rp_S p" using ring_sizesD(9) [OF assms] by simp
  then have "(r + 1) * rp_q p + (rp_S p - rp_q p + i) = r * rp_q p + i + rp_S p" by simp
  then show "ag p r i = sg p r (rp_S p - rp_q p + i)" unfolding sg_def ag_def by (simp only: mod_add_self2)
  show "ag p r i = sg p r (i - rp_q p)" if "rp_q p \<le> i" using that by (simp add: sg_def ag_def ac_simps)
qed

lemma next_rank_ag:
  assumes "ring_sizes p" "r < rp_n p"
  shows "ag p (next_rank (rp_n p) r) i = sg p r i"
proof (cases "r + 1 = rp_n p")
  case True
  then have "next_rank (rp_n p) r = 0" unfolding next_rank_def by (metis add.assoc mod_add_self1 mod_self)
  moreover have "(r + 1) * rp_q p + i = 0 * rp_q p + i + rp_S p" using True by (simp add: rp_S_def flip: True)
  ultimately show ?thesis unfolding sg_def ag_def by (simp only: mod_add_self2)
next
  case False
  with assms(2) have "next_rank (rp_n p) r = r + 1" unfolding next_rank_def add.assoc mod_add_self1 by simp
  then show ?thesis by (simp add: sg_def ag_def)
qed

lemma recv_full:
  assumes "ring_sizes p" "r < rp_n p" "ag_vals p val" "i < rp_N p" "acts p r i"
  shows "val (rch p r) (cnt (actr p r) (rp_N p) + cnt (acts p r) i) = full p (sg p r i)"
proof -
  let ?r = "next_rank (rp_n p) r"
  have "?r < rp_n p" using ranks_inverse(3) [OF assms(2)] ring_sizesD(1) [OF assms(1)] by simp
  moreover have "acta p ?r i" using assms(5) by (simp add: next_rank_ag [OF assms(1,2)])
  ultimately have "val (sch p ?r) (cnt (acts p ?r) (rp_N p) + cnt (acta p ?r) i) = full p (ag p ?r i)"
    using assms(3,4) unfolding ag_vals_def by blast
  then show ?thesis by (simp add: next_rank_ag [OF assms(1,2)] next_rank_sg [OF assms(1,2)] chan_next(1) [OF assms(1,2)])
qed

lemma one_chan_ag: "one_chan (map (ag_flight p r) xs)" "one_chan (map (in_flight_of p r) xs)"
  by (cases xs; simp add: one_chan_def ag_flight_def in_flight_of_def)+

text \<open>A segment that is received is different from those in flight to the previous rank.\<close>

lemma ag_apart:
  assumes p: "ring_sizes p" and st: "ag_state p nout r ws wr is ir s" and j: "j < rp_S p"
    and other: "\<And>i. ws \<le> i \<Longrightarrow> i < is \<Longrightarrow> ag p r i \<noteq> sg p r j"
  shows "apart (sg p r j * rp_L p) (sl p (sg p r j)) (sy_snd s b)"
  unfolding apart_def ag_stateD(1) [OF st]
proof
  fix e assume "e \<in> set (if b = Out 0 then map (ag_flight p r) (filter (acta p r) [ws..<is]) else [])"
  then obtain i where i: "e = ag_flight p r i" "ws \<le> i" "i < is" by (auto split: if_splits)
  have "sg p r j \<noteq> ag p r i" using other [OF i(2,3)] by simp
  from seg_apart [OF this, of p] i(1) show "sg p r j * rp_L p + sl p (sg p r j) \<le> f_off e \<or> f_off e + f_len e \<le> sg p r j * rp_L p"
    by (auto simp: ag_flight_def)
qed

definition ag_mem :: "'a ringp \<Rightarrow> nat \<Rightarrow> bool" where
  "ag_mem p nout \<longleftrightarrow> (\<forall>r < rp_n p. \<forall>b < nout. length (rp_M p r (Out b)) = rp_total p) \<and> 0 < nout \<and> rp_N p = rp_S p - rp_q p"

text \<open>The broadcast of one segment in a state of the loop.\<close>

lemma ag_broadcast:
  assumes p: "ring_sizes p" and mem: "ag_mem p nout" and r: "r < rp_n p" and j: "j < rp_S p" "acts p r j"
    and a: "has p (sy_mem s) (Out 0) (sg p r j) (full p (sg p r j))"
    and fl: "\<And>b. b \<noteq> Out 0 \<Longrightarrow> sy_snd s b = [] \<and> sy_rcv s b = []"
  shows "\<exists>C. ring_run p val r (genLocalBroadcastFunction nout (sg p r j * rp_L p) (sl p (sg p r j))) s = Some (s\<lparr>sy_mem := C\<rparr>) \<and>
    (\<forall>b. 1 \<le> b \<longrightarrow> b < nout \<longrightarrow> has p C (Out b) (sg p r j) (full p (sg p r j))) \<and>
    (\<forall>b j'. j' < rp_S p \<longrightarrow> j' \<noteq> j \<or> b = Out 0 \<longrightarrow> cells C b (sg p r j' * rp_L p) (sl p (sg p r j')) = cells (sy_mem s) b (sg p r j' * rp_L p) (sl p (sg p r j')))"
proof -
  let ?g = "sg p r j"
  have "sy_snd s (Out b) = [] \<and> sy_rcv s (Out b) = [] \<and> ?g * rp_L p + sl p ?g \<le> length (rp_M p r (Out b))" if "1 \<le> b" "b < nout" for b
    using fl [of "Out b"] that mem r seg_total(1) [OF p j(2)] by (simp add: ag_mem_def)
  from broadcast_run [where len = "\<lambda>b. length (rp_M p r b)", OF a this]
  obtain C where C: "ring_run p val r (genLocalBroadcastFunction nout (?g * rp_L p) (sl p ?g)) s = Some (s\<lparr>sy_mem := C\<rparr>)"
    "\<forall>b. 1 \<le> b \<and> b < nout \<longrightarrow> has p C (Out b) ?g (full p ?g)"
    "\<And>b x. \<not> ((\<exists>i. 1 \<le> i \<and> i < nout \<and> b = Out i) \<and> ?g * rp_L p \<le> x \<and> x < ?g * rp_L p + sl p ?g) \<Longrightarrow> C b x = sy_mem s b x" by blast
  have "cells C b (sg p r j' * rp_L p) (sl p (sg p r j')) = cells (sy_mem s) b (sg p r j' * rp_L p) (sl p (sg p r j'))"
    if "j' < rp_S p" "j' \<noteq> j \<or> b = Out 0" for b j'
  proof (rule cells_cong)
    fix x assume x: "sg p r j' * rp_L p \<le> x" "x < sg p r j' * rp_L p + sl p (sg p r j')"
    have "sg p r j' \<noteq> ?g" if "j' \<noteq> j" using sg_inj [OF p \<open>j' < rp_S p\<close> j(1), of r] that by simp
    with seg_apart [of "sg p r j'" ?g p] x that(2) show "C b x = sy_mem s b x" by (intro C(3)) auto
  qed
  with C(1,2) show ?thesis by blast
qed

lemma ag_waitRecv_step:
  assumes p: "ring_sizes p" and len: "\<And>g. g < rp_S p \<Longrightarrow> length (full p g) = sl p g" and mem: "ag_mem p nout" and r: "r < rp_n p" and val: "ag_vals p val"
    and st: "ag_state p nout r w w i i s" and w: "w < i" "w < rp_N p"
  shows "\<exists>s'. ring_run p val r
      (if acts p r w then WaitRecv (Out 0) # genLocalBroadcastFunction nout (sg p r w * rp_L p) (sl p (sg p r w)) else []) s = Some s' \<and>
    ag_state p nout r w (Suc w) i i s'"
proof (cases "acts p r w")
  case a: True
  note z = ring_sizesD [OF p]
  let ?g = "sg p r w"
  have wS: "w < rp_S p" using w(2) z(4) by simp
  let ?F = "map (in_flight_of p r) (filter (acts p r) [Suc w..<i])"
  have rcv: "sy_rcv s (Out 0) = in_flight_of p r w # ?F" using ag_stateD(3) [OF st, of "Out 0"] a upt_drop [OF w(1), of "acts p r"] by simp
  have ret: "retire (in_flight_of p r w # ?F) 0 = ([in_flight_of p r w], ?F, 0)"
    using one_chan_ag(2) [of p r "w # filter (acts p r) [Suc w..<i]"] by (simp add: retire_def)
  let ?C = "put (Out 0) (?g * rp_L p) (full p ?g) (sy_mem s)"
  have lg: "length (full p ?g) = sl p ?g" using len seg_less(1) [OF p] by simp
  have lrn: "learn val (in_flight_of p r w) (sy_mem s) = ?C" using recv_full [OF p r val w(2) a] by (simp add: learn_def in_flight_of_def)
  let ?s = "s\<lparr>sy_mem := ?C, sy_rcv := (sy_rcv s)(Out 0 := ?F), sy_rw := (sy_rw s)(Out 0 := 0)\<rparr>"
  have do1: "sym_do (rp_red p) (rp_es p) val (\<lambda>b. length (rp_M p r b)) r (WaitRecv (Out 0)) s = Some ?s"
    using ag_stateD(4) [OF st] by (simp add: rcv ret lrn)
  have "\<exists>C. ring_run p val r (genLocalBroadcastFunction nout (?g * rp_L p) (sl p ?g)) ?s = Some (?s\<lparr>sy_mem := C\<rparr>) \<and>
    (\<forall>b. 1 \<le> b \<longrightarrow> b < nout \<longrightarrow> has p C (Out b) ?g (full p ?g)) \<and>
    (\<forall>b j'. j' < rp_S p \<longrightarrow> j' \<noteq> w \<or> b = Out 0 \<longrightarrow> cells C b (sg p r j' * rp_L p) (sl p (sg p r j')) = cells (sy_mem ?s) b (sg p r j' * rp_L p) (sl p (sg p r j')))"
    using ag_stateD(1,3) [OF st] has_put [OF lg] by (intro ag_broadcast [OF p mem r wS a]) simp_all
  then obtain C where C: "ring_run p val r (genLocalBroadcastFunction nout (?g * rp_L p) (sl p ?g)) ?s = Some (?s\<lparr>sy_mem := C\<rparr>)"
    "\<And>b. 1 \<le> b \<Longrightarrow> b < nout \<Longrightarrow> has p C (Out b) ?g (full p ?g)"
    "\<And>b j'. j' < rp_S p \<Longrightarrow> j' \<noteq> w \<or> b = Out 0 \<Longrightarrow> cells C b (sg p r j' * rp_L p) (sl p (sg p r j')) = cells ?C b (sg p r j' * rp_L p) (sl p (sg p r j'))"
    by auto
  have old: "cells ?C b (sg p r j * rp_L p) (sl p (sg p r j)) = cells (sy_mem s) b (sg p r j * rp_L p) (sl p (sg p r j))"
    if "j < rp_S p" "j \<noteq> w" for b j
  proof (rule cells_cong)
    fix x assume "sg p r j * rp_L p \<le> x" "x < sg p r j * rp_L p + sl p (sg p r j)"
    moreover have "sg p r j \<noteq> ?g" using sg_inj [OF p that(1) wS, of r] that(2) by simp
    ultimately show "?C b x = sy_mem s b x" using seg_apart [of "sg p r j" ?g p] lg by (auto simp: put_def)
  qed
  let ?s' = "?s\<lparr>sy_mem := C\<rparr>"
  have m1: "has p C (Out 0) (sg p r j) (full p (sg p r j))" if j: "j < rp_S p" "acts p r j" "j < Suc w \<or> rp_S p - rp_q p \<le> j" for j
  proof (cases "j = w")
    case True
    then show ?thesis using C(3) [OF wS, of "Out 0"] has_put [OF lg] by simp
  next
    case False
    then have "j < w \<or> rp_S p - rp_q p \<le> j" using j(3) by auto
    then show ?thesis using C(3) [OF j(1), of "Out 0"] old [OF j(1) False, of "Out 0"] ag_stateD(7) [OF st j(1,2)] by simp
  qed
  have m2: "has p C (Out b) (sg p r j) (full p (sg p r j))"
    if b: "1 \<le> b" "b < nout" and j: "j < rp_S p" "acts p r j" "j < Suc w \<or> rp_S p - rp_q p \<le> j \<and> j - (rp_S p - rp_q p) < i" for b j
  proof (cases "j = w")
    case True
    then show ?thesis using C(2) [OF b] by simp
  next
    case False
    then have "j < w \<or> rp_S p - rp_q p \<le> j \<and> j - (rp_S p - rp_q p) < i" using j(3) by auto
    then show ?thesis using C(3) [OF j(1), of "Out b"] old [OF j(1) False, of "Out b"] False ag_stateD(8) [OF st b j(1,2)] by simp
  qed
  have "ag_state p nout r w (Suc w) i i ?s'"
    using ag_stateD(1-6) [OF st] m1 m2 unfolding ag_state_def by (auto simp: fun_eq_iff)
  then show ?thesis using do1 C(1) a by auto
next
  case False
  then have "ag_state p nout r w (Suc w) i i s"
    using st unfolding ag_state_def by (auto simp: upt_drop [OF w(1)] less_Suc_eq)
  with False show ?thesis by simp
qed

lemma ag_waitSend_step:
  assumes st: "ag_state p nout r w wr i i s" and w: "w < i"
  shows "\<exists>s'. ring_run p val r (if acta p r w then [WaitSend (Out 0)] else []) s = Some s' \<and> ag_state p nout r (Suc w) wr i i s'"
proof (cases "acta p r w")
  case True
  let ?F = "map (ag_flight p r) (filter (acta p r) [Suc w..<i])"
  have snd: "sy_snd s (Out 0) = ag_flight p r w # ?F" using ag_stateD(1) [OF st, of "Out 0"] True upt_drop [OF w] by simp
  have "retire (ag_flight p r w # ?F) 0 = ([ag_flight p r w], ?F, 0)"
    using one_chan_ag(1) [of p r "w # filter (acta p r) [Suc w..<i]"] by (simp add: retire_def)
  then have run: "ring_run p val r [WaitSend (Out 0)] s = Some (s\<lparr>sy_snd := (sy_snd s)(Out 0 := ?F), sy_sw := (sy_sw s)(Out 0 := 0)\<rparr>)"
    using snd ag_stateD(2) [OF st] by simp
  have "ag_state p nout r (Suc w) wr i i (s\<lparr>sy_snd := (sy_snd s)(Out 0 := ?F), sy_sw := (sy_sw s)(Out 0 := 0)\<rparr>)"
    using st unfolding ag_state_def by (auto simp: fun_eq_iff)
  with run True show ?thesis by auto
next
  case False
  then have "ag_state p nout r (Suc w) wr i i s" using st unfolding ag_state_def by (simp add: upt_drop [OF w])
  with False show ?thesis by simp
qed

lemma ag_recv_step:
  assumes p: "ring_sizes p" and len: "\<And>g. g < rp_S p \<Longrightarrow> length (full p g) = sl p g" and mem: "ag_mem p nout" and r: "r < rp_n p" and val: "ag_vals p val"
    and st: "ag_state p nout r w w i i s" and i: "w \<le> i" "i < w + 2" "i < rp_N p"
  shows "\<exists>s'. ring_run p val r
      (if acts p r i then [Recv (Out 0) (next_rank (rp_n p) r) (rp_slot p) (sg p r i * rp_L p) (sl p (sg p r i))] else []) s = Some s' \<and>
    ag_state p nout r w w i (Suc i) s'"
proof (cases "acts p r i")
  case True
  note z = ring_sizesD [OF p]
  let ?g = "sg p r i"
  let ?s = "s\<lparr>sy_rcv := (sy_rcv s)(Out 0 := sy_rcv s (Out 0) @ [in_flight_of p r i]),
    sy_nr := (sy_nr s)(rch p r := Suc (cnt (actr p r) (rp_N p) + cnt (acts p r) i)), sy_mem := forget (Out 0) (?g * rp_L p) (sl p ?g) (sy_mem s)\<rparr>"
  have N: "rp_N p = rp_S p - rp_q p" "length (rp_M p r (Out 0)) = rp_total p" using mem r by (auto simp: ag_mem_def)
  have iS: "i < rp_S p" using i(3) z(4) by simp
  have nr: "sy_nr s (rch p r) = cnt (actr p r) (rp_N p) + cnt (acts p r) i" using ag_stateD(6) [OF st] .
  have "length (val (rch p r) (sy_nr s (rch p r))) = sl p ?g"
    using recv_full [OF p r val i(3) True] nr len seg_less(1) [OF p] by simp
  moreover have "ag p r j \<noteq> ?g" if "w \<le> j" "j < i" for j
  proof (cases "rp_q p \<le> j")
    case True
    have "j - rp_q p < rp_S p" "j - rp_q p \<noteq> i" using that iS by auto
    then show ?thesis using ag_sg(1) [OF p True] sg_inj [OF p _ iS, of "j - rp_q p" r] by simp
  next
    case False
    have "rp_S p - rp_q p + j < rp_S p" "rp_S p - rp_q p + j \<noteq> i" using False z(9) i(3) N(1) by auto
    then show ?thesis using ag_sg(2) [OF p] False sg_inj [OF p _ iS, of "rp_S p - rp_q p + j" r] by simp
  qed
  then have "apart (?g * rp_L p) (sl p ?g) (sy_snd s (Out 0))" by (rule ag_apart [OF p st iS])
  moreover have "apart (?g * rp_L p) (sl p ?g) (sy_rcv s (Out 0))"
    unfolding apart_def ag_stateD(3) [OF st]
  proof
    fix e assume "e \<in> set (if Out 0 = Out 0 then map (in_flight_of p r) (filter (acts p r) [w..<i]) else [])"
    then obtain j where j: "e = in_flight_of p r j" "w \<le> j" "j < i" by auto
    have "?g \<noteq> sg p r j" using sg_inj [OF p iS, of j r] j(3) iS by auto
    from seg_apart [OF this, of p] j(1) show "?g * rp_L p + sl p ?g \<le> f_off e \<or> f_off e + f_len e \<le> ?g * rp_L p"
      by (auto simp: in_flight_of_def)
  qed
  ultimately have run: "ring_run p val r [Recv (Out 0) (next_rank (rp_n p) r) (rp_slot p) (?g * rp_L p) (sl p ?g)] s = Some ?s"
    using seg_total(1) [OF p True] N(2) by (simp add: Let_def rch_def [symmetric] in_flight_of_def nr)
  have old: "cells (sy_mem ?s) b (sg p r j * rp_L p) (sl p (sg p r j)) = cells (sy_mem s) b (sg p r j * rp_L p) (sl p (sg p r j))"
    if "j < rp_S p" "j \<noteq> i" for b j
  proof (rule cells_cong)
    fix x assume "sg p r j * rp_L p \<le> x" "x < sg p r j * rp_L p + sl p (sg p r j)"
    moreover have "sg p r j \<noteq> ?g" using sg_inj [OF p that(1) iS, of r] that(2) by simp
    ultimately show "sy_mem ?s b x = sy_mem s b x" using seg_apart [of "sg p r j" ?g p] by (auto simp: forget_def)
  qed
  have other: "cells (sy_mem ?s) (Out b) off l = cells (sy_mem s) (Out b) off l" if "1 \<le> b" for b off l
    using that by (intro cells_cong) (simp add: forget_def)
  have ni: "\<not> (i < w \<or> rp_S p - rp_q p \<le> i)" using i N(1) by auto
  have m1: "has p (sy_mem ?s) (Out 0) (sg p r j) (full p (sg p r j))" if "j < rp_S p" "acts p r j" "j < w \<or> rp_S p - rp_q p \<le> j" for j
  proof -
    have "j \<noteq> i" using that(3) ni by auto
    from old [OF that(1) this, of "Out 0"] ag_stateD(7) [OF st that] show ?thesis by simp
  qed
  have m2: "has p (sy_mem ?s) (Out b) (sg p r j) (full p (sg p r j))"
    if "1 \<le> b" "b < nout" "j < rp_S p" "acts p r j" "j < w \<or> rp_S p - rp_q p \<le> j \<and> j - (rp_S p - rp_q p) < i" for b j
    using other [OF that(1)] ag_stateD(8) [OF st that] by simp
  have "ag_state p nout r w w i (Suc i) ?s"
    unfolding ag_state_def
  proof (intro conjI allI impI)
    show "sy_rcv ?s b = (if b = Out 0 then map (in_flight_of p r) (filter (acts p r) [w..<Suc i]) else [])" for b
      using ag_stateD(3) [OF st, of b] True i(1) by (cases "b = Out 0") simp_all
    show "sy_nr ?s (rch p r) = cnt (actr p r) (rp_N p) + cnt (acts p r) (Suc i)" using True by (simp add: cnt_Suc)
  qed (use m1 m2 ag_stateD(1,2,4,5) [OF st] in simp_all)
  with run True show ?thesis by auto
next
  case False
  then have "ag_state p nout r w w i (Suc i) s" using st i(1) unfolding ag_state_def by (simp add: cnt_Suc)
  with False show ?thesis by simp
qed

lemma ag_send_step:
  assumes p: "ring_sizes p" and mem: "ag_mem p nout" and r: "r < rp_n p" and val: "ag_vals p val"
    and st: "ag_state p nout r w w i i' s" and i: "w \<le> i" "i < w + 2" "i < rp_N p" "i \<le> i'"
  shows "\<exists>s'. ring_run p val r
      (if acta p r i then Send (Out 0) (prev_rank (rp_n p) r) (rp_slot p) (ag p r i * rp_L p) (sl p (ag p r i)) #
        (if i < rp_q p then genLocalBroadcastFunction nout (ag p r i * rp_L p) (sl p (ag p r i)) else []) else []) s = Some s' \<and>
    ag_state p nout r w w (Suc i) i' s'"
proof -
  note z = ring_sizesD [OF p]
  let ?j = "if i < rp_q p then rp_S p - rp_q p + i else i - rp_q p"
  have N: "rp_N p = rp_S p - rp_q p" using mem by (simp add: ag_mem_def)
  have j: "?j < rp_S p" "ag p r i = sg p r ?j" "?j < w \<or> rp_S p - rp_q p \<le> ?j"
    using i z(2,4,9) ag_sg [OF p, of i r] by auto
  have new: "j' < w \<or> rp_S p - rp_q p \<le> j' \<and> j' - (rp_S p - rp_q p) < i \<or> i < rp_q p \<and> j' = ?j"
    if "j' < rp_S p" "j' < w \<or> rp_S p - rp_q p \<le> j' \<and> j' - (rp_S p - rp_q p) < Suc i" for j'
    using that z(9) i(2) by (auto simp: less_Suc_eq)
  show ?thesis
  proof (cases "acta p r i")
    case a: True
    let ?g = "sg p r ?j"
    have act: "acts p r ?j" using a j(2) by simp
    have hv: "has p (sy_mem s) (Out 0) ?g (full p ?g)" by (rule ag_stateD(7) [OF st j(1) act j(3)])
    have v: "val (sch p r) (cnt (acts p r) (rp_N p) + cnt (acta p r) i) = full p ?g"
      using val r i(3) a j(2) unfolding ag_vals_def by metis
    let ?s = "s\<lparr>sy_snd := (sy_snd s)(Out 0 := sy_snd s (Out 0) @ [ag_flight p r i]),
      sy_ns := (sy_ns s)(sch p r := Suc (cnt (acts p r) (rp_N p) + cnt (acta p r) i))\<rparr>"
    have do1: "sym_do (rp_red p) (rp_es p) val (\<lambda>b. length (rp_M p r b)) r
        (Send (Out 0) (prev_rank (rp_n p) r) (rp_slot p) (ag p r i * rp_L p) (sl p (ag p r i))) s = Some ?s"
      using hv v ag_stateD(5) [OF st] j(2) by (simp add: Let_def sch_def [symmetric] ag_flight_def)
    have state: "ag_state p nout r w w (Suc i) i' (?s\<lparr>sy_mem := C\<rparr>)"
      if C: "\<And>j'. j' < rp_S p \<Longrightarrow> cells C (Out 0) (sg p r j' * rp_L p) (sl p (sg p r j')) = cells (sy_mem s) (Out 0) (sg p r j' * rp_L p) (sl p (sg p r j'))"
        "\<And>b j'. 1 \<le> b \<Longrightarrow> b < nout \<Longrightarrow> j' < rp_S p \<Longrightarrow> acts p r j' \<Longrightarrow> j' < w \<or> rp_S p - rp_q p \<le> j' \<and> j' - (rp_S p - rp_q p) < Suc i \<Longrightarrow>
          has p C (Out b) (sg p r j') (full p (sg p r j'))" for C
      unfolding ag_state_def
    proof (intro conjI allI impI)
      show "sy_snd (?s\<lparr>sy_mem := C\<rparr>) b = (if b = Out 0 then map (ag_flight p r) (filter (acta p r) [w..<Suc i]) else [])" for b
        using ag_stateD(1) [OF st, of b] a i(1) by (cases "b = Out 0") simp_all
      show "sy_ns (?s\<lparr>sy_mem := C\<rparr>) (sch p r) = cnt (acts p r) (rp_N p) + cnt (acta p r) (Suc i)" using a by (simp add: cnt_Suc)
    qed (use ag_stateD(2-4,6,7) [OF st] C in simp_all)
    show ?thesis
    proof (cases "i < rp_q p")
      case True
      have "\<exists>C. ring_run p val r (genLocalBroadcastFunction nout (?g * rp_L p) (sl p ?g)) ?s = Some (?s\<lparr>sy_mem := C\<rparr>) \<and>
        (\<forall>b. 1 \<le> b \<longrightarrow> b < nout \<longrightarrow> has p C (Out b) ?g (full p ?g)) \<and>
        (\<forall>b j'. j' < rp_S p \<longrightarrow> j' \<noteq> ?j \<or> b = Out 0 \<longrightarrow> cells C b (sg p r j' * rp_L p) (sl p (sg p r j')) = cells (sy_mem ?s) b (sg p r j' * rp_L p) (sl p (sg p r j')))"
        using ag_stateD(1,3) [OF st] hv by (intro ag_broadcast [OF p mem r j(1) act]) simp_all
      then obtain C where C: "ring_run p val r (genLocalBroadcastFunction nout (?g * rp_L p) (sl p ?g)) ?s = Some (?s\<lparr>sy_mem := C\<rparr>)"
        "\<And>b. 1 \<le> b \<Longrightarrow> b < nout \<Longrightarrow> has p C (Out b) ?g (full p ?g)"
        "\<And>b j'. j' < rp_S p \<Longrightarrow> j' \<noteq> ?j \<or> b = Out 0 \<Longrightarrow> cells C b (sg p r j' * rp_L p) (sl p (sg p r j')) = cells (sy_mem s) b (sg p r j' * rp_L p) (sl p (sg p r j'))"
        by auto
      have "has p C (Out b) (sg p r j') (full p (sg p r j'))"
        if b: "1 \<le> b" "b < nout" and j': "j' < rp_S p" "acts p r j'" "j' < w \<or> rp_S p - rp_q p \<le> j' \<and> j' - (rp_S p - rp_q p) < Suc i" for b j'
      proof (cases "j' = ?j")
        case True
        show ?thesis using C(2) [OF b] unfolding True .
      next
        case False
        then have "j' < w \<or> rp_S p - rp_q p \<le> j' \<and> j' - (rp_S p - rp_q p) < i" using new [OF j'(1,3)] by auto
        from ag_stateD(8) [OF st b j'(1,2) this] C(3) [OF j'(1), of "Out b"] False show ?thesis by simp
      qed
      then have "ag_state p nout r w w (Suc i) i' (?s\<lparr>sy_mem := C\<rparr>)" using C(3) by (intro state) simp_all
      then show ?thesis using do1 C(1) a True j(2) by auto
    next
      case False
      have "ag_state p nout r w w (Suc i) i' (?s\<lparr>sy_mem := sy_mem s\<rparr>)" using ag_stateD(8) [OF st] new False by (intro state) blast+
      then show ?thesis using do1 a False by auto
    qed
  next
    case False
    have "j' < w \<or> rp_S p - rp_q p \<le> j' \<and> j' - (rp_S p - rp_q p) < i"
      if "j' < rp_S p" "acts p r j'" "j' < w \<or> rp_S p - rp_q p \<le> j' \<and> j' - (rp_S p - rp_q p) < Suc i" for j'
      using new [OF that(1,3)] that(2) False j(2) by (auto split: if_splits)
    then have "ag_state p nout r w w (Suc i) i' s" using ag_stateD [OF st] False i(1) unfolding ag_state_def by (simp add: cnt_Suc)
    with False show ?thesis by simp
  qed
qed

lemma ag_loop:
  assumes p: "ring_sizes p" and len: "\<And>g. g < rp_S p \<Longrightarrow> length (full p g) = sl p g" and mem: "ag_mem p nout" and r: "r < rp_n p" and val: "ag_vals p val"
    and st: "ag_state p nout r 0 0 0 0 s"
  shows "\<exists>s'. ring_run p val r (pipe (rp_N p) (ag_wait p nout r) (ag_post p nout r)) s = Some s' \<and>
    ag_state p nout r (rp_N p) (rp_N p) (rp_N p) (rp_N p) s'"
proof (rule pipe_loop [where I = "\<lambda>w i. ag_state p nout r w w i i", OF st])
  fix w i s assume st: "ag_state p nout r w w i i s" and w: "w < i" "i \<le> w + 2" "w < rp_N p"
  from ag_waitRecv_step [OF p len mem r val st w(1,3)] obtain s1 where s1: "ring_run p val r
      (if acts p r w then WaitRecv (Out 0) # genLocalBroadcastFunction nout (sg p r w * rp_L p) (sl p (sg p r w)) else []) s = Some s1"
    "ag_state p nout r w (Suc w) i i s1" by blast
  from ag_waitSend_step [OF s1(2) w(1), of val]
  show "\<exists>s'. ring_run p val r (ag_wait p nout r w) s = Some s' \<and> ag_state p nout r (Suc w) (Suc w) i i s'"
    unfolding ag_wait_def sym_run_append s1(1) bind.bind_lunit .
next
  fix w i s assume st: "ag_state p nout r w w i i s" and i: "w \<le> i" "i < w + 2" "i < rp_N p"
  from ag_recv_step [OF p len mem r val st i] obtain s1 where s1: "ring_run p val r
      (if acts p r i then [Recv (Out 0) (next_rank (rp_n p) r) (rp_slot p) (sg p r i * rp_L p) (sl p (sg p r i))] else []) s = Some s1"
    "ag_state p nout r w w i (Suc i) s1" by blast
  from ag_send_step [OF p mem r val s1(2) i]
  show "\<exists>s'. ring_run p val r (ag_post p nout r i) s = Some s' \<and> ag_state p nout r w w (Suc i) (Suc i) s'"
    unfolding ag_post_def sym_run_append s1(1) bind.bind_lunit by simp
qed

lemma ag_pipe_ok:
  assumes p: "ring_sizes p"
  shows "pipe_ok (rp_n p) (rp_N p) (ag_wait p nout) (ag_post p nout)"
  unfolding pipe_ok_def
proof (intro allI impI conjI)
  note q = local_only_posts [OF local_broadcast]
  note z = ring_sizesD [OF p]
  fix i
  show "well_matched (rp_n p) (\<lambda>r. ag_post p nout r i)"
    unfolding well_matched_def
  proof (intro allI impI)
    fix r j assume r: "r < rp_n p" "j < rp_n p"
    have "prev_rank (rp_n p) r = j \<longleftrightarrow> next_rank (rp_n p) j = r"
      using ranks_inverse [OF r(1) z(1)] ranks_inverse [OF r(2) z(1)] by auto
    moreover have "ag p r i = sg p j i" if "next_rank (rp_n p) j = r" using next_rank_ag [OF p r(2)] that by blast
    ultimately show "sends j (ag_post p nout r i) = recvs r (ag_post p nout j i)" by (simp add: ag_post_def q)
  qed
  fix r assume r: "r < rp_n p"
  show "addressed (rp_n p) r (ag_post p nout r i)" using ranks_inverse(3,4) [OF r z(1)] by (simp add: addressed_def ag_post_def q)
  show "sposts r (ag_wait p nout r i) = []" "rposts r (ag_wait p nout r i) = []" by (simp_all add: ag_wait_def q)
  fix b
  show "wsend b (ag_post p nout r i) = 0" "wrecv b (ag_post p nout r i) = 0" by (simp_all add: ag_post_def q)
  show "pending b (ag_post p nout r i) = (int (wsend b (ag_wait p nout r i)), int (wrecv b (ag_wait p nout r i)))"
    by (simp add: ag_post_def ag_wait_def q)
next
  fix i r j show "sends j (ag_wait p nout r i) = []" "recvs j (ag_wait p nout r i) = []"
    by (simp_all add: ag_wait_def local_only_posts [OF local_broadcast])
qed

section \<open>Both phases\<close>

lemma rs_state_init:
  assumes "ring_sizes p" "ring_mem p" "r < rp_n p"
  shows "rs_state p r 0 0 0 0 (sym_init (rp_M p r))"
proof -
  have len: "length (rp_M p r b) = rp_total p" if "b \<in> rp_B p" for b using assms(2,3) that by (simp add: ring_mem_def)
  have "Out 0 \<in> rp_B p" using assms(2) by (simp add: ring_mem_def)
  then have "has p (sy_mem (sym_init (rp_M p r))) (Out 0) (rg p r j) (cur p r 0 0 j)" if "actr p r j" for j
    using initial_has [OF assms(1) len that, of "Out 0" "sy_mem (sym_init (rp_M p r))"] len by (simp add: cur_def sym_init_def)
  moreover have c: "cnt P 0 = 0" for P by (simp add: cnt_def)
  ultimately show ?thesis unfolding rs_state_def c using len by (simp add: sym_init_def)
qed

text \<open>After the first loop a rank has its own chunk in full.\<close>

lemma own_chunk:
  assumes p: "ring_sizes p" and N: "rp_S p - rp_q p \<le> rp_N p" and r: "r < rp_n p"
    and st: "rs_state p r (rp_N p) (rp_N p) (rp_N p) (rp_N p) s" and k: "k < rp_q p" and l: "0 < sl p (r * rp_q p + k)"
  shows "has p (sy_mem s) (Out 0) (r * rp_q p + k) (full p (r * rp_q p + k))"
proof -
  note z = ring_sizesD [OF p]
  let ?g = "r * rp_q p + k" and ?i = "rp_S p - 2 * rp_q p + k"
  have g: "?g < rp_S p" using k mult_le_mono1 [of "Suc r" "rp_n p" "rp_q p"] r by (simp add: rp_S_def)
  have i: "?i < rp_S p" "?i < rp_N p" using k z(2,9) N by auto
  have "(r + 2) * rp_q p + ?i = ?g + rp_S p" using z(9) by simp
  then have rg: "rg p r ?i = ?g" unfolding rg_def using g by (simp only: mod_add_self2) simp
  have "?i = k + (rp_n p - 2) * rp_q p" by (simp add: rp_S_def diff_mult_distrib)
  then have "?i div rp_q p = rp_n p - 2" using k z(2) by simp
  moreover have "?g div rp_q p = r" using k z(2) by simp
  moreover have "Suc (rp_n p - 2) = rp_n p - 1" using z(1) by simp
  ultimately have "cur p r (rp_N p) (rp_N p) ?i = full p ?g" using i(2) unfolding cur_def full_def rg by (simp del: partial.simps)
  with rs_stateD(7) [OF st i(1)] rg l show ?thesis by simp
qed

lemma rs_ag_state:
  assumes p: "ring_sizes p" and N: "rp_N p = rp_S p - rp_q p" and r: "r < rp_n p"
    and st: "rs_state p r (rp_N p) (rp_N p) (rp_N p) (rp_N p) s"
  shows "ag_state p nout r 0 0 0 0 s"
proof -
  note z = ring_sizesD [OF p]
  have own: "has p (sy_mem s) (Out 0) (sg p r j) (full p (sg p r j))" if j: "j < rp_S p" "acts p r j" "rp_S p - rp_q p \<le> j" for j
  proof -
    define k where "k = j - (rp_S p - rp_q p)"
    have k: "k < rp_q p" "j = rp_S p - rp_q p + k" using j z(9) by (auto simp: k_def)
    have "ag p r k = sg p r j" using ag_sg(2) [OF p k(1)] k(2) by simp
    moreover have "r * rp_q p + k < rp_S p" using k(1) mult_le_mono1 [of "Suc r" "rp_n p" "rp_q p"] r by (simp add: rp_S_def)
    ultimately have g: "sg p r j = r * rp_q p + k" by (simp add: ag_def)
    show ?thesis using own_chunk [OF p _ r st k(1)] N j(2) unfolding g by simp
  qed
  then show ?thesis unfolding ag_state_def using rs_stateD(1-6) [OF st] by (simp add: cnt_def)
qed

text \<open>The table of the payloads: those of the first loop, and then those of the second.\<close>

definition ring_table :: "'a ringp \<Rightarrow> nat \<Rightarrow> 'a list list" where
  "ring_table p r = map (\<lambda>i. partial p r (i div rp_q p) (sg p r i)) (filter (acts p r) [0..<rp_N p]) @
     map (\<lambda>i. full p (ag p r i)) (filter (acta p r) [0..<rp_N p])"

definition ring_val :: "'a ringp \<Rightarrow> chan \<Rightarrow> nat \<Rightarrow> 'a list" where
  "ring_val p k m = ring_table p (chan_src k) ! m"

lemma filter_cnt:
  assumes "i < N" "P i"
  shows "filter P [0..<N] ! cnt P i = i" "cnt P i < length (filter P [0..<N])"
proof -
  have "[0..<N] = [0..<i] @ i # [Suc i..<N]" using assms(1) upt_add_eq_append [of 0 i "N - i"] by (simp add: upt_conv_Cons)
  then have "filter P [0..<N] = filter P [0..<i] @ i # filter P [Suc i..<N]" using assms(2) by simp
  then show "filter P [0..<N] ! cnt P i = i" "cnt P i < length (filter P [0..<N])" by (simp_all add: cnt_def nth_append)
qed

lemma ring_vals: "rs_vals p (ring_val p)" "ag_vals p (ring_val p)"
proof -
  have src: "ring_val p (sch p r) = nth (ring_table p r)" for r by (simp add: ring_val_def [abs_def] sch_def)
  show "rs_vals p (ring_val p)"
    unfolding rs_vals_def src ring_table_def
  proof (intro allI impI)
    fix r i assume "i < rp_N p" "acts p r i"
    note f = filter_cnt [where P = "acts p r", OF this]
    show "(map (\<lambda>i. partial p r (i div rp_q p) (sg p r i)) (filter (acts p r) [0..<rp_N p]) @
        map (\<lambda>i. full p (ag p r i)) (filter (acta p r) [0..<rp_N p])) ! cnt (acts p r) i = partial p r (i div rp_q p) (sg p r i)"
      using f by (simp add: nth_append)
  qed
  show "ag_vals p (ring_val p)"
    unfolding ag_vals_def src ring_table_def
  proof (intro allI impI)
    fix r i assume "i < rp_N p" "acta p r i"
    note f = filter_cnt [where P = "acta p r", OF this]
    show "(map (\<lambda>i. partial p r (i div rp_q p) (sg p r i)) (filter (acts p r) [0..<rp_N p]) @
        map (\<lambda>i. full p (ag p r i)) (filter (acta p r) [0..<rp_N p])) ! (cnt (acts p r) (rp_N p) + cnt (acta p r) i) = full p (ag p r i)"
      using f by (simp add: nth_append cnt_def [of _ "rp_N p"])
  qed
qed

section \<open>The result of the ring\<close>

text \<open>Segments in order make up the buffer.\<close>

lemma segments_start:
  assumes "\<And>g. g < S \<Longrightarrow> length (D g) = min L (tot - g * L)" "i \<le> S"
  shows "start_of D i = min (i * L) tot"
  using assms(2)
proof (induction i)
  case (Suc i)
  then show ?case using assms(1) [of i] by (auto simp: min_def)
qed simp

lemma segments_nth:
  assumes len: "\<And>g. g < S \<Longrightarrow> length (D g) = min L (tot - g * L)" and "tot \<le> S * L" "x < tot" "0 < L"
  shows "length (concat (map D [0..<S])) = tot" "x div L < S" "concat (map D [0..<S]) ! x = D (x div L) ! (x - x div L * L)"
    "x div L * L \<le> x" "x < x div L * L + min L (tot - x div L * L)"
proof -
  let ?g = "x div L"
  show all: "length (concat (map D [0..<S])) = tot" using segments_start [OF len, of S] assms(2) by simp
  have "x < S * L" using assms(2,3) by linarith
  then show g: "?g < S" by (simp add: less_mult_imp_div_less)
  show lo: "?g * L \<le> x" by simp
  have "x < ?g * L + L" using assms(4) by (metis div_mult_mod_eq mod_less_divisor nat_add_left_cancel_less)
  then show hi: "x < ?g * L + min L (tot - ?g * L)" using assms(3) lo by linarith
  obtain rest where "concat (map D [0..<S]) = concat (map D [0..<?g]) @ D ?g @ rest" using concat_split [OF g] by blast
  moreover have "?g * L \<le> tot" using lo assms(3) by linarith
  then have "start_of D ?g = ?g * L" using segments_start [OF len, of ?g] g by (simp add: min_def)
  moreover have "x - ?g * L < length (D ?g)" using len [OF g] hi lo by linarith
  ultimately show "concat (map D [0..<S]) ! x = D ?g ! (x - ?g * L)" using lo not_less [of x "?g * L"] by (simp add: nth_append)
qed

lemma sg_surj:
  assumes p: "ring_sizes p" and "g < rp_S p"
  shows "\<exists>j < rp_S p. sg p r j = g"
proof -
  let ?S = "rp_S p" and ?a = "(r + 1) * rp_q p"
  let ?j = "(g + ?S - ?a mod ?S) mod ?S"
  have S: "0 < ?S" using ring_sizesD(10) [OF p] .
  have "?a mod ?S + (g + ?S - ?a mod ?S) = g + ?S" using mod_less_divisor [OF S, of ?a] by linarith
  then have "(?a mod ?S + (g + ?S - ?a mod ?S)) mod ?S = g" using assms(2) by simp
  then have "sg p r ?j = g" unfolding sg_def by (metis mod_add_left_eq mod_add_right_eq)
  with S show ?thesis by (intro exI [of _ ?j]) simp
qed

lemma ring_machine_correct:
  assumes p: "ring_sizes p" "ring_mem p" "reducer (rp_es p) (rp_red p)" and mem: "ag_mem p nout"
    and ok: "\<forall>r < rp_n p. prep_ok p (ring_val p) r" and prep: "\<And>off l. local_only (rp_prep p off l)"
    and P: "\<forall>r < rp_n p. P r = pipe (rp_N p) (rs_wait p r) (rs_post p r) @ pipe (rp_N p) (ag_wait p nout r) (ag_post p nout r)"
  shows "always_ends (rp_n p) P"
    and "r < rp_n p \<Longrightarrow> b < nout \<Longrightarrow> always_computes (rp_red p) (rp_n p) P (rp_M p) r (Out b) (concat (map (full p) [0..<rp_S p]))"
proof -
  note z = ring_sizesD [OF p(1)]
  let ?A = "\<lambda>r. pipe_iter (rp_N p) (rs_wait p r) (rs_post p r)" and ?B = "\<lambda>r. pipe_iter (rp_N p) (ag_wait p nout r) (ag_post p nout r)"
  note A = pipe_rounds [OF rs_pipe_ok [OF p(1) prep]] and B = pipe_rounds [OF ag_pipe_ok [OF p(1), of nout]]
  have "rounds_ok (rp_n p) (rp_N p + 2 + (rp_N p + 2)) (seq_rounds (rp_N p + 2) ?A ?B)"
    by (rule rounds_ok_seq [OF A(1) B(1)]) (unfold A(2), use A(3) in blast)
  moreover have "\<forall>r < rp_n p. P r = rounds (seq_rounds (rp_N p + 2) ?A ?B) (rp_N p + 2 + (rp_N p + 2)) r"
    unfolding rounds_seq A(2) B(2) by (rule P)
  ultimately show "always_ends (rp_n p) P" by (rule always_endsI)
  have len: "length (full p g) = sl p g" if "g < rp_S p" for g
  proof -
    have "g div rp_q p < rp_n p" using that by (simp add: rp_S_def less_mult_imp_div_less)
    then show ?thesis unfolding full_def using length_partial [OF p _ that] by simp
  qed
  have run: "\<exists>s. ring_run p (ring_val p) r (P r) (sym_init (rp_M p r)) = Some s \<and> ag_state p nout r (rp_N p) (rp_N p) (rp_N p) (rp_N p) s"
    if r: "r < rp_n p" for r
  proof -
    have "prep_ok p (ring_val p) r" using ok r by simp
    from rs_loop [OF p r this ring_vals(1) rs_state_init [OF p(1,2) r]]
    obtain s1 where s1: "ring_run p (ring_val p) r (pipe (rp_N p) (rs_wait p r) (rs_post p r)) (sym_init (rp_M p r)) = Some s1"
      "rs_state p r (rp_N p) (rp_N p) (rp_N p) (rp_N p) s1" by blast
    have N: "rp_N p = rp_S p - rp_q p" using mem by (simp add: ag_mem_def)
    from ag_loop [OF p(1) len mem r ring_vals(2) rs_ag_state [OF p(1) N r s1(2)]] s1(1) P r show ?thesis by (simp add: sym_run_append)
  qed
  show "always_computes (rp_red p) (rp_n p) P (rp_M p) r (Out b) (concat (map (full p) [0..<rp_S p]))" if r: "r < rp_n p" and b: "b < nout"
  proof -
    from run [OF r] obtain s where s: "ring_run p (ring_val p) r (P r) (sym_init (rp_M p r)) = Some s"
      "ag_state p nout r (rp_N p) (rp_N p) (rp_N p) (rp_N p) s" by blast
    have len': "length (full p g) = min (rp_L p) (rp_total p - g * rp_L p)" if "g < rp_S p" for g using len [OF that] by (simp add: sl_def)
    have "length (rp_M p r (Out b)) = rp_total p" using mem r b by (simp add: ag_mem_def)
    moreover have total: "length (concat (map (full p) [0..<rp_S p])) = rp_total p"
      using segments_start [OF len', of "rp_S p"] z(8) by simp
    moreover have "sy_mem s (Out b) x = Some (concat (map (full p) [0..<rp_S p]) ! x)" if x: "x < rp_total p" for x
    proof -
      let ?g = "x div rp_L p"
      note g = segments_nth [OF len' z(8) x z(3)]
      then obtain j where j: "j < rp_S p" "sg p r j = ?g" using sg_surj [OF p(1) g(2)] by blast
      have lx: "x - ?g * rp_L p < sl p ?g" "?g * rp_L p + (x - ?g * rp_L p) = x" using g(4,5) unfolding sl_def by linarith+
      have N: "j < rp_N p \<or> rp_S p - rp_q p \<le> j \<and> j - (rp_S p - rp_q p) < rp_N p"
        using j(1) mem z(2,9) by (auto simp: ag_mem_def)
      have act: "acts p r j" using lx(1) j(2) by simp
      have "has p (sy_mem s) (Out b) ?g (full p ?g)"
      proof (cases "b = 0")
        case True
        have "j < rp_N p \<or> rp_S p - rp_q p \<le> j" using N by blast
        from ag_stateD(7) [OF s(2) j(1) act this] j(2) True show ?thesis by simp
      next
        case False
        then have "1 \<le> b" by simp
        from ag_stateD(8) [OF s(2) this b j(1) act N] j(2) show ?thesis by simp
      qed
      then show ?thesis using lx g(3) by (auto simp: cells_iff dest: spec [of _ "x - ?g * rp_L p"])
    qed
    ultimately show ?thesis using run by (intro always_computesI [where M = "rp_M p" and P = P, OF p(3) r _ s(1)]) auto
  qed
qed

section \<open>The sizes of the code\<close>

lemma div_ceil: "0 < m \<Longrightarrow> (t + (m - 1)) div m \<le> t div m + 1" for t m :: nat
proof -
  assume m: "0 < m"
  have "(t + (m - 1)) div m \<le> (t + m) div m" by (rule div_le_mono) simp
  also have "\<dots> = t div m + 1" using m by (simp add: div_add_self2)
  finally show ?thesis .
qed

lemma div_ceil_ge: "0 < m \<Longrightarrow> t \<le> (t + (m - 1)) div m * m" for t m :: nat
proof -
  assume m: "0 < m"
  have "(t + (m - 1)) div m * m + (t + (m - 1)) mod m = t + (m - 1)" by simp
  moreover have "(t + (m - 1)) mod m < m" using m by simp
  ultimately show ?thesis by linarith
qed

text \<open>The segments cover the buffer, with a total length that stays close to it, whatever the maximal segment size.\<close>

lemma ring_geometry:
  assumes n: "0 < n" and es: "0 < es" and mss: "mss < 2 ^ 63" and fits: "4 * t + 6 * n * es < u64_range"
    and S: "S = numSegments t (maxSegmentBytes es mss) n" and L: "L = segmentBytes t S es"
  shows "n dvd S" "n * 2 \<le> S" "es dvd L" "t \<le> S * L" "2 * (S * L) < u64_range" "0 < t \<Longrightarrow> 0 < L"
proof -
  let ?m = "maxSegmentBytes es mss"
  have "es * max 1 (mss div es) \<le> max es mss" by (auto simp: max_def)
  moreover have "6 * es \<le> 6 * n * es" using n by simp
  then have "6 * es < u64_range" using fits by linarith
  then have "es < 2 ^ 63" by simp
  ultimately have lt: "es * max 1 (mss div es) < 2 ^ 63" using mss by linarith
  then have eq: "?m = es * max 1 (mss div es)" unfolding maxSegmentBytes_def by (intro u64_mul_exact) simp
  have "es * 1 \<le> es * max 1 (mss div es)" by (rule mult_le_mono2) simp
  then have m: "?m < 2 ^ 63" "es \<le> ?m" using lt unfolding eq by simp_all
  then have m0: "0 < ?m" using es by linarith
  have "t + (?m - 1) < u64_range" using m(1) fits by simp
  then have c: "S = roundUp (max ((t + (?m - 1)) div ?m) (n * 2)) n" by (simp add: S numSegments_def u64_add_exact)
  show "n dvd S" unfolding c by (rule roundUp_dvd [OF n])
  show n2: "n * 2 \<le> S" unfolding c using roundUp_ge [OF n, of "max ((t + (?m - 1)) div ?m) (n * 2)"] by simp
  have "S < max ((t + (?m - 1)) div ?m) (n * 2) + n" unfolding c by (rule roundUp_less [OF n])
  then have Sle: "S \<le> t div ?m + 3 * n" using div_ceil [OF m0, of t] by (auto simp: max_def split: if_splits)
  have S0: "0 < S" using n2 n by linarith
  have "t div ?m * es \<le> t" using mult_le_mono2 [OF m(2), of "t div ?m"] div_times_less_eq_dividend [of t ?m] by linarith
  then have Ses: "S * es \<le> t + 3 * n * es" using mult_le_mono1 [OF Sle, of es] by (simp add: algebra_simps)
  have SS: "S \<le> S * es" using es by simp
  have "t + (S - 1) < u64_range" using Ses SS fits by linarith
  then have d: "L = roundUp ((t + (S - 1)) div S) es" by (simp add: L segmentBytes_def u64_add_exact)
  show "es dvd L" unfolding d by (rule roundUp_dvd [OF es])
  have ge: "(t + (S - 1)) div S \<le> L" unfolding d by (rule roundUp_ge [OF es])
  show cover: "t \<le> S * L"
    using order_trans [OF div_ceil_ge [OF S0, of t] mult_le_mono1 [OF ge, of S]] unfolding mult.commute [of L S] .
  have "L < (t + (S - 1)) div S + es" unfolding d by (rule roundUp_less [OF es])
  then have "L \<le> t div S + es" using div_ceil [OF S0, of t] by linarith
  then have "S * L \<le> S * (t div S) + S * es" using mult_le_mono2 [of L "t div S + es" S] by (simp add: algebra_simps)
  also have "\<dots> \<le> 2 * t + 3 * n * es" using Ses times_div_less_eq_dividend [of S t] by linarith
  finally show "2 * (S * L) < u64_range" using fits by linarith
  show "0 < L" if "0 < t" using cover that by (cases L) auto
qed

definition ar_len :: "nat \<Rightarrow> nat \<Rightarrow> nat \<Rightarrow> nat" where
  "ar_len L t g = min L (t - g * L)"

definition contribution_of :: "('a list \<Rightarrow> 'a list \<Rightarrow> nat \<Rightarrow> 'a list) \<Rightarrow> nat \<Rightarrow> nat \<Rightarrow> nat \<Rightarrow> nat \<Rightarrow> nat \<Rightarrow> (nat \<Rightarrow> 'a mem) \<Rightarrow> nat \<Rightarrow> nat \<Rightarrow> 'a list" where
  "contribution_of red es L t nin nout M r g =
     local_reduction red (ar_len L t g div es) (map (\<lambda>b. read_at (g * L) (ar_len L t g) (M r b)) (local_sources nin nout))"

definition ar_params :: "('a list \<Rightarrow> 'a list \<Rightarrow> nat \<Rightarrow> 'a list) \<Rightarrow> nat \<Rightarrow> nat \<Rightarrow> nat \<Rightarrow> nat \<Rightarrow> nat \<Rightarrow> 64 word \<Rightarrow> nat \<Rightarrow> nat \<Rightarrow> (nat \<Rightarrow> 'a mem) \<Rightarrow> 'a ringp" where
  "ar_params red n S L t es slot nin nout M =
     \<lparr>rp_n = n, rp_q = S div n, rp_N = S - S div n, rp_L = L, rp_total = t, rp_es = es, rp_slot = slot, rp_ib = Out 0,
      rp_prep = genLocalReduceFunction nin nout es, rp_red = red, rp_M = M, rp_B = In ` {..<nin} \<union> Out ` {..<nout},
      rp_loc = contribution_of red es L t nin nout M, rp_aft = contribution_of red es L t nin nout M\<rparr>"

lemma ar_prep_ok:
  fixes M :: "nat \<Rightarrow> 'a mem"
  assumes p: "ring_sizes p" "reducer es red" and n: "0 < nout" and r: "r < n" and len: "length (M r (Out 0)) = t"
    and pp: "p = ar_params red n S L t es slot nin nout M"
  shows "prep_ok p val r"
  unfolding prep_ok_def
proof (intro allI impI)
  fix g and s :: "'a sym"
  assume g: "g < rp_S p" "0 < sl p g" and has: "\<forall>b \<in> rp_B p. has p (sy_mem s) b g (segment p r b g)"
    and ap: "apart (g * rp_L p) (sl p g) (sy_snd s (Out 0))" "apart (g * rp_L p) (sl p g) (sy_rcv s (Out 0))"
  have sl: "sl p g = ar_len L t g" "rp_L p = L" "rp_es p = es" by (simp_all add: pp ar_params_def sl_def ar_len_def)
  have seg: "segment p r b g = read_at (g * L) (ar_len L t g) (M r b)" for b by (simp add: segment_def sl) (simp add: pp ar_params_def)
  note tot = seg_total [OF p(1) g(2)]
  have src: "b \<in> rp_B p" if "b \<in> set (local_sources nin nout)" for b
    using that by (auto simp: pp ar_params_def local_sources_def split: if_splits)
  have "\<exists>C. sym_run red es val (\<lambda>b. length (M r b)) r (genLocalReduceFunction nin nout es (g * L) (ar_len L t g)) s = Some (s\<lparr>sy_mem := C\<rparr>) \<and>
    cells C (Out 0) (g * L) (ar_len L t g) = map Some (local_reduction red (ar_len L t g div es)
      (map (\<lambda>b. read_at (g * L) (ar_len L t g) (M r b)) (local_sources nin nout))) \<and> outside (g * L) (ar_len L t g) C (sy_mem s)"
  proof (rule reduceInputs_run [OF p(2) _ n])
    show "ar_len L t g div es * es = ar_len L t g" using tot(4) by (simp add: sl)
    show "cells (sy_mem s) b (g * L) (ar_len L t g) = map Some (read_at (g * L) (ar_len L t g) (M r b))" if "b \<in> set (local_sources nin nout)" for b
      using has src [OF that] by (simp add: seg sl)
    show "g * L + ar_len L t g \<le> length (M r (Out 0))" using tot(1) len by (simp add: sl) (simp add: pp ar_params_def)
  qed (use ap in \<open>simp_all add: sl\<close>)
  then show "\<exists>C. sym_run (rp_red p) (rp_es p) val (\<lambda>b. length (rp_M p r b)) r (rp_prep p (g * rp_L p) (sl p g)) s = Some (s\<lparr>sy_mem := C\<rparr>) \<and>
      has p C (rp_ib p) g (rp_loc p r g) \<and> has p C (Out 0) g (rp_aft p r g) \<and>
      (\<forall>b x. \<not> (b = Out 0 \<and> g * rp_L p \<le> x \<and> x < g * rp_L p + sl p g) \<longrightarrow> C b x = sy_mem s b x)"
    unfolding sl by (simp add: pp ar_params_def contribution_of_def outside_def)
qed

lemma signed_length: "0 < min (int L) (int t - int x) \<longleftrightarrow> 0 < min L (t - x)" "nat (min (int L) (int t - int x)) = min L (t - x)"
  by (auto simp: min_def)

lemma offsets_exact:
  assumes "base * q + i \<le> k * S" "(base + 1) * q + i \<le> k * S" "k * (S * L) < u64_range" "0 < S" "0 < k"
  shows "sendOffset (segmentOffsets base q S L t i) = (base * q + i) mod S * L"
    "recvOffset (segmentOffsets base q S L t i) = ((base + 1) * q + i) mod S * L"
    "0 < sendLength (segmentOffsets base q S L t i) \<longleftrightarrow> 0 < ar_len L t ((base * q + i) mod S)"
    "0 < recvLength (segmentOffsets base q S L t i) \<longleftrightarrow> 0 < ar_len L t (((base + 1) * q + i) mod S)"
    "nat (sendLength (segmentOffsets base q S L t i)) = ar_len L t ((base * q + i) mod S)"
    "nat (recvLength (segmentOffsets base q S L t i)) = ar_len L t (((base + 1) * q + i) mod S)"
proof -
  have off: "u64_mul (u64_add (u64_mul a q) i) L mod u64_mul S L = (a * q + i) mod S * L" if a: "a * q + i \<le> k * S" for a
  proof (cases "L = 0")
    case False
    have "(a * q + i) * L \<le> k * (S * L)" using mult_le_mono1 [OF a, of L] by (simp only: mult.assoc)
    then have lt: "(a * q + i) * L < u64_range" using assms(3) by linarith
    have "a * q + i \<le> (a * q + i) * L" using False by (cases L) simp_all
    then have "a * q + i < u64_range" using lt by (rule le_less_trans)
    then have "u64_add (u64_mul a q) i = a * q + i" by (simp add: u64_add_exact u64_mul_exact)
    moreover have "S * L \<le> k * (S * L)" using assms(5) by simp
    then have "u64_mul (a * q + i) L = (a * q + i) * L" "u64_mul S L = S * L"
      using lt assms(3) by (intro u64_mul_exact; linarith)+
    ultimately show ?thesis by (simp only: mult_mod_left)
  qed (simp add: u64_mul_def)
  note o = off [OF assms(1)] off [OF assms(2)]
  show "sendOffset (segmentOffsets base q S L t i) = (base * q + i) mod S * L"
    "recvOffset (segmentOffsets base q S L t i) = ((base + 1) * q + i) mod S * L"
    unfolding segmentOffsets_def Let_def o by simp_all
  show "0 < sendLength (segmentOffsets base q S L t i) \<longleftrightarrow> 0 < ar_len L t ((base * q + i) mod S)"
    "nat (sendLength (segmentOffsets base q S L t i)) = ar_len L t ((base * q + i) mod S)"
    unfolding segmentOffsets_def Let_def o ar_len_def by (simp_all only: ring_offsets.select_convs signed_length)
  show "0 < recvLength (segmentOffsets base q S L t i) \<longleftrightarrow> 0 < ar_len L t (((base + 1) * q + i) mod S)"
    "nat (recvLength (segmentOffsets base q S L t i)) = ar_len L t (((base + 1) * q + i) mod S)"
    unfolding segmentOffsets_def Let_def o ar_len_def by (simp_all only: ring_offsets.select_convs signed_length)
qed

lemma segmentOffset_2: "2 \<le> i \<Longrightarrow> segmentOffset L (i - 2) = segmentOffset L i"
  by (simp add: segmentOffset_def le_mod_geq)

lemma ar_geometry:
  assumes "n dvd S" "n * 2 \<le> S" "1 < n" and pp: "p = ar_params red n S L t es slot nin nout M"
  shows "rp_S p = S" "rp_q p = S div n" "rp_N p = S - S div n" "n * (S div n) = S" "1 < S div n"
proof -
  show S: "n * (S div n) = S" using assms(1) by simp
  then show "rp_S p = S" "rp_q p = S div n" "rp_N p = S - S div n" by (simp_all add: pp ar_params_def rp_S_def)
  show "1 < S div n" using div_le_mono [OF assms(2), of n] assms(3) by simp
qed

lemma ar_iterations:
  assumes S: "n dvd S" "n * 2 \<le> S" "1 < n" "2 * (S * L) < u64_range" and r: "r < n" and i: "i < S - S div n + 2"
    and pp: "p = ar_params red n S L t es slot nin nout M"
  shows "reduceScatter_iter (genLocalReduceFunction nin nout es) slot \<lparr>ctx_rank = r, ctx_size = n\<rparr> es L S (S div n)
      (computeReduceScatterOffsets r (S div n) S L t) i = pipe_iter (S - S div n) (rs_wait p r) (rs_post p r) i"
    and "allgatherPhase_iter (genLocalBroadcastFunction nout) slot \<lparr>ctx_rank = r, ctx_size = n\<rparr> S (S div n)
      (computeAllgatherOffsets r (S div n) S L t) i = pipe_iter (S - S div n) (ag_wait p nout r) (ag_post p nout r) i"
proof -
  let ?q = "S div n"
  note geo = ar_geometry [OF S(1-3) pp]
  have S0: "0 < S" using S(2,3) by linarith
  have bound: "base * ?q + j \<le> 2 * S" if "base \<le> n + 1" "j < S - ?q" for base j
  proof -
    have "base * ?q \<le> n * ?q + ?q" using mult_le_mono1 [OF that(1), of ?q] by simp
    also have "\<dots> = S + ?q" using geo(4) by simp
    finally show ?thesis using that(2) by linarith
  qed
  have rs: "sendOffset (computeReduceScatterOffsets r ?q S L t j) = sg p r j * L" "recvOffset (computeReduceScatterOffsets r ?q S L t j) = rg p r j * L"
      "0 < sendLength (computeReduceScatterOffsets r ?q S L t j) \<longleftrightarrow> 0 < sl p (sg p r j)" "nat (sendLength (computeReduceScatterOffsets r ?q S L t j)) = sl p (sg p r j)"
      "0 < recvLength (computeReduceScatterOffsets r ?q S L t j) \<longleftrightarrow> 0 < sl p (rg p r j)" "nat (recvLength (computeReduceScatterOffsets r ?q S L t j)) = sl p (rg p r j)"
    if j: "j < S - ?q" for j
  proof -
    have b: "(r + 1) * ?q + j \<le> 2 * S" "(r + 1 + 1) * ?q + j \<le> 2 * S" using bound [OF _ j, of "r + 1"] bound [OF _ j, of "r + 1 + 1"] r by auto
    note o = offsets_exact [OF b S(4) S0 zero_less_numeral, of t]
    have e: "sg p r j = ((r + 1) * ?q + j) mod S" "rg p r j = ((r + 1 + 1) * ?q + j) mod S" "sl p g = ar_len L t g" for g
      using geo(1,2) by (simp_all add: sg_def rg_def) (simp add: sl_def ar_len_def pp ar_params_def)
    show "sendOffset (computeReduceScatterOffsets r ?q S L t j) = sg p r j * L" "recvOffset (computeReduceScatterOffsets r ?q S L t j) = rg p r j * L"
      "0 < sendLength (computeReduceScatterOffsets r ?q S L t j) \<longleftrightarrow> 0 < sl p (sg p r j)" "nat (sendLength (computeReduceScatterOffsets r ?q S L t j)) = sl p (sg p r j)"
      "0 < recvLength (computeReduceScatterOffsets r ?q S L t j) \<longleftrightarrow> 0 < sl p (rg p r j)" "nat (recvLength (computeReduceScatterOffsets r ?q S L t j)) = sl p (rg p r j)"
      unfolding computeReduceScatterOffsets_def e by (rule o)+
  qed
  have agr: "sendOffset (computeAllgatherOffsets r ?q S L t j) = ag p r j * L" "recvOffset (computeAllgatherOffsets r ?q S L t j) = sg p r j * L"
      "0 < sendLength (computeAllgatherOffsets r ?q S L t j) \<longleftrightarrow> 0 < sl p (ag p r j)" "nat (sendLength (computeAllgatherOffsets r ?q S L t j)) = sl p (ag p r j)"
      "0 < recvLength (computeAllgatherOffsets r ?q S L t j) \<longleftrightarrow> 0 < sl p (sg p r j)" "nat (recvLength (computeAllgatherOffsets r ?q S L t j)) = sl p (sg p r j)"
    if j: "j < S - ?q" for j
  proof -
    have b: "r * ?q + j \<le> 2 * S" "(r + 1) * ?q + j \<le> 2 * S" using bound [OF _ j, of r] bound [OF _ j, of "r + 1"] r by auto
    note o = offsets_exact [OF b S(4) S0 zero_less_numeral, of t]
    have e: "ag p r j = (r * ?q + j) mod S" "sg p r j = ((r + 1) * ?q + j) mod S" "sl p g = ar_len L t g" for g
      using geo(1,2) by (simp_all add: sg_def ag_def) (simp add: sl_def ar_len_def pp ar_params_def)
    show "sendOffset (computeAllgatherOffsets r ?q S L t j) = ag p r j * L" "recvOffset (computeAllgatherOffsets r ?q S L t j) = sg p r j * L"
      "0 < sendLength (computeAllgatherOffsets r ?q S L t j) \<longleftrightarrow> 0 < sl p (ag p r j)" "nat (sendLength (computeAllgatherOffsets r ?q S L t j)) = sl p (ag p r j)"
      "0 < recvLength (computeAllgatherOffsets r ?q S L t j) \<longleftrightarrow> 0 < sl p (sg p r j)" "nat (recvLength (computeAllgatherOffsets r ?q S L t j)) = sl p (sg p r j)"
      unfolding computeAllgatherOffsets_def e by (rule o)+
  qed
  have f: "rp_n p = n" "rp_slot p = slot" "rp_ib p = Out 0" "rp_es p = es" "rp_L p = L" "rp_prep p = genLocalReduceFunction nin nout es" "sbuf p j = Out 0" for j
    by (simp_all add: pp ar_params_def sbuf_def)
  have i2: "i - 2 < S - ?q" if "2 \<le> i" using i that by linarith
  show "reduceScatter_iter (genLocalReduceFunction nin nout es) slot \<lparr>ctx_rank = r, ctx_size = n\<rparr> es L S ?q
      (computeReduceScatterOffsets r ?q S L t) i = pipe_iter (S - ?q) (rs_wait p r) (rs_post p r) i"
    using rs [OF i2] rs [of i] segmentOffset_2 [of i L]
    by (simp add: reduceScatter_iter_def pipe_iter_def rs_wait_def rs_post_def Let_def f geo(2) next_rank_def prev_rank_def)
  show "allgatherPhase_iter (genLocalBroadcastFunction nout) slot \<lparr>ctx_rank = r, ctx_size = n\<rparr> S ?q
      (computeAllgatherOffsets r ?q S L t) i = pipe_iter (S - ?q) (ag_wait p nout r) (ag_post p nout r) i"
    using agr [OF i2] agr [of i]
    by (simp add: allgatherPhase_iter_def pipe_iter_def ag_wait_def ag_post_def Let_def f geo(2) next_rank_def prev_rank_def)
qed

section \<open>Correctness of allreduce with the ring algorithm\<close>

text \<open>
  The value of the result. A segment belongs to the rank \<open>c\<close> whose number is its position divided by
  the segments per rank; it is the reduction of the contributions of the ranks \<open>c\<close>, \<open>c + 1\<close>, and so on
  around the ring, from the right.
\<close>

fun ring_fold :: "('a list \<Rightarrow> 'a list \<Rightarrow> nat \<Rightarrow> 'a list) \<Rightarrow> nat \<Rightarrow> 'a list list \<Rightarrow> 'a list" where
  "ring_fold red k [] = []"
| "ring_fold red k [v] = v"
| "ring_fold red k (v # vs) = red v (ring_fold red k vs) k"

definition ring_result :: "('a list \<Rightarrow> 'a list \<Rightarrow> nat \<Rightarrow> 'a list) \<Rightarrow> nat \<Rightarrow> nat \<Rightarrow> nat \<Rightarrow> nat \<Rightarrow> nat \<Rightarrow> (nat \<Rightarrow> nat \<Rightarrow> 'a list) \<Rightarrow> 'a list" where
  "ring_result red n S L t es con =
     concat (map (\<lambda>g. ring_fold red (ar_len L t g div es) (map (\<lambda>k. con ((g div (S div n) + k) mod n) g) [0..<n])) [0..<S])"

lemma ring_fold_Cons: "vs \<noteq> [] \<Longrightarrow> ring_fold red k (v # vs) = red v (ring_fold red k vs) k"
  by (cases vs) simp_all

lemma partial_fold:
  assumes "r < rp_n p" "0 < rp_n p"
  shows "partial p r t g = ring_fold (rp_red p) (sl p g div rp_es p) (map (\<lambda>k. rp_loc p ((r + k) mod rp_n p) g) [0..<Suc t])"
  using assms(1)
proof (induction t arbitrary: r)
  case (Suc t)
  let ?n = "rp_n p" and ?r = "next_rank (rp_n p) r"
  have r: "?r = (r + 1) mod ?n" unfolding next_rank_def add.assoc mod_add_self1 ..
  have "[0..<Suc (Suc t)] = 0 # map Suc [0..<Suc t]" by (metis map_Suc_upt upt_conv_Cons zero_less_Suc)
  then have "map (\<lambda>k. rp_loc p ((r + k) mod ?n) g) [0..<Suc (Suc t)] = rp_loc p r g # map (\<lambda>k. rp_loc p ((r + Suc k) mod ?n) g) [0..<Suc t]"
    using Suc.prems by (simp del: upt_Suc)
  moreover have "(r + Suc k) mod ?n = (?r + k) mod ?n" for k unfolding r by (simp add: mod_add_left_eq)
  moreover have "?r < ?n" using assms(2) r by simp
  ultimately show ?case using Suc.IH [of ?r] by (simp add: ring_fold_Cons del: upt_Suc)
qed simp

lemma full_ring_result:
  assumes p: "ring_sizes p" and pp: "p = ar_params red n S L t es slot nin nout M" and S: "rp_S p = S"
  shows "concat (map (full p) [0..<rp_S p]) = ring_result red n S L t es (contribution_of red es L t nin nout M)"
  unfolding ring_result_def S
proof (intro arg_cong [of _ _ concat] map_cong refl)
  fix g assume "g \<in> set [0..<S]"
  then have g: "g div rp_q p < rp_n p" using S by (auto simp: rp_S_def less_mult_imp_div_less)
  have f: "rp_n p = n" "rp_q p = S div n" "rp_red p = red" "rp_es p = es" "rp_loc p = contribution_of red es L t nin nout M" "sl p g = ar_len L t g"
    by (simp_all add: pp ar_params_def sl_def ar_len_def)
  have "0 < n" using ring_sizesD(1) [OF p] f(1) by simp
  then show "full p g = ring_fold red (ar_len L t g div es) (map (\<lambda>k. contribution_of red es L t nin nout M ((g div (S div n) + k) mod n) g) [0..<n])"
    using partial_fold [OF g, of "n - 1" g] unfolding full_def f by simp
qed

lemma allreduce_ring_main:
  fixes M :: "nat \<Rightarrow> 'a mem"
  assumes "1 < n" "0 < es" "0 < elements" "algo = RING \<or> algo = UNSPECIFIED" "0 < nout"
    and fits: "4 * (elements * es) + 6 * n * es < u64_range" "mss < 2 ^ 63"
    and pairs: "\<forall>r < n. \<forall>j < n. j \<noteq> r \<longrightarrow> pairs r j"
    and red: "reducer es red"
    and S: "S = numSegments (elements * es) (maxSegmentBytes es mss) n" and L: "L = segmentBytes (elements * es) S es"
    and M: "\<forall>r < n. (\<forall>b < nout. length (M r (Out b)) = elements * es) \<and> (\<forall>b < nin. length (M r (In b)) = elements * es) \<and> length (M r Tmp) = 2 * L"
  shows "\<exists>P. (\<forall>r < n. allreduce (pairs r) True algo elements es mss tag (replicate nin (elements * es)) (replicate nout (elements * es))
        \<lparr>ctx_rank = r, ctx_size = n\<rparr> = Inr (Some (P r))) \<and>
    always_ends n P \<and>
    (\<forall>r < n. \<forall>b < nout. always_computes red n P M r (Out b)
      (ring_result red n S L (elements * es) es (contribution_of red es L (elements * es) nin nout M)))"
proof -
  let ?t = "elements * es" and ?slot = "slot_of kAllreduceSlotPrefix tag"
  define p where "p = ar_params red n S L ?t es ?slot nin nout M"
  have n0: "0 < n" using assms(1) by simp
  note geo = ring_geometry [OF n0 assms(2) fits(2,1) S L]
  note ag = ar_geometry [OF geo(1,2) assms(1) p_def]
  have t0: "0 < ?t" using assms(2,3) by simp
  have ge: "S div n \<le> S" by simp
  have f: "rp_n p = n" "rp_L p = L" "rp_total p = ?t" "rp_es p = es" "rp_red p = red" "rp_M p = M" "rp_ib p = Out 0"
    "rp_B p = In ` {..<nin} \<union> Out ` {..<nout}" "rp_loc p = contribution_of red es L ?t nin nout M"
    "rp_prep p = genLocalReduceFunction nin nout es" by (simp_all add: p_def ar_params_def)
  have sizes: "ring_sizes p"
    using assms(1,2) geo(3,4,6) t0 ag by (simp add: ring_sizes_def f)
  have prep: "prep_ok p val r" if "r < n" for val r using M that assms(5) by (intro ar_prep_ok [OF sizes red assms(5) that _ p_def]) simp
  have loc: "length (rp_loc p r g) = sl p g" if r: "r < n" and g: "g < rp_S p" for r g
  proof (cases "sl p g = 0")
    case True
    then have "ar_len L ?t g = 0" by (simp add: sl_def f ar_len_def)
    moreover have "length (red xs ys 0) = 0" for xs ys using red by (simp add: reducer_def)
    then have "fold (\<lambda>v a. red a v 0) vs [] = []" for vs by (induction vs) simp_all
    moreover have "local_sources nin nout \<noteq> []" using assms(5) by (simp add: local_sources_def)
    ultimately show ?thesis using True by (cases "local_sources nin nout") (simp_all add: f contribution_of_def local_reduction_def read_at_0)
  next
    case False
    let ?s = "sym_init (M r)"
    have len: "length (M r b) = ?t" if "b \<in> rp_B p" for b using M r that by (auto simp: f)
    have "has p (sy_mem ?s) b g (segment p r b g)" if "b \<in> rp_B p" for b
      using False len [OF that] by (intro initial_has [OF sizes]) (simp_all add: f(3,6) sym_init_def)
    then have "\<forall>b \<in> rp_B p. has p (sy_mem ?s) b g (segment p r b g)" by blast
    moreover have "apart (g * rp_L p) (sl p g) (sy_snd ?s (Out 0))" "apart (g * rp_L p) (sl p g) (sy_rcv ?s (Out 0))"
      by (simp_all add: sym_init_def apart_def)
    ultimately obtain C where "has p C (rp_ib p) g (rp_loc p r g)"
      using prep [OF r, of "\<lambda>_ _. []"] g False unfolding prep_ok_def by (metis gr0I)
    then show ?thesis by (simp add: cells_iff)
  qed
  have mem: "ring_mem p"
    using M assms(5) loc by (auto simp: ring_mem_def f ag)
  have amem: "ag_mem p nout" using M assms(5) by (simp add: ag_mem_def f ag)
  define P where "P = (\<lambda>r. pipe (rp_N p) (rs_wait p r) (rs_post p r) @ pipe (rp_N p) (ag_wait p nout r) (ag_post p nout r))"
  have prog: "allreduce (pairs r) True algo elements es mss tag (replicate nin ?t) (replicate nout ?t) \<lparr>ctx_rank = r, ctx_size = n\<rparr> = Inr (Some (P r))"
    if r: "r < n" for r
  proof -
    let ?c = "\<lparr>ctx_rank = r, ctx_size = n\<rparr>"
    note it = ar_iterations [OF geo(1,2) assms(1) geo(5) r _ p_def]
    have "concat (map (reduceScatter_iter (genLocalReduceFunction nin nout es) ?slot ?c es L S (S div n) (computeReduceScatterOffsets r (S div n) S L ?t)) [0..<S - S div n + 2]) =
        pipe (rp_N p) (rs_wait p r) (rs_post p r)" unfolding pipe_def ag(3) using it(1) by (intro arg_cong [of _ _ concat] map_cong) auto
    moreover have "concat (map (allgatherPhase_iter (genLocalBroadcastFunction nout) ?slot ?c S (S div n) (computeAllgatherOffsets r (S div n) S L ?t)) [0..<S - S div n + 2]) =
        pipe (rp_N p) (ag_wait p nout r) (ag_post p nout r)" unfolding pipe_def ag(3) using it(2) by (intro arg_cong [of _ _ concat] map_cong) auto
    moreover have "u64_mul elements es = ?t" using fits(1) by (intro u64_mul_exact) linarith
    moreover have "(n + r + 1) mod n < n" "(n + r - 1) mod n < n" "(n + r + 1) mod n \<noteq> r" "(n + r - 1) mod n \<noteq> r"
      using r assms(1) by (auto simp: mod_if)
    then have "pairs r ((n + r + 1) mod n)" "pairs r ((n + r - 1) mod n)" using pairs r by blast+
    moreover have "S mod n = 0" "n * 2 \<le> S" using geo(1,2) by auto
    ultimately have "ring (pairs r) elements es mss tag nin nout ?c = Inr (P r)"
      by (simp add: ring_def Let_def P_def S [symmetric] L [symmetric] del: upt_Suc)
    then show ?thesis using assms(1-5) fits(1) by (auto simp: allreduce_def Let_def u64_mul_exact)
  qed
  have ok: "\<forall>r < rp_n p. prep_ok p (ring_val p) r" using prep by (simp add: f)
  have lp: "local_only (rp_prep p off l)" for off l by (simp add: f)
  have red': "reducer (rp_es p) (rp_red p)" using red by (simp add: f)
  note correct = ring_machine_correct [OF sizes mem red' amem ok lp, of P]
  have "always_ends n P" using correct(1) by (simp add: P_def f)
  moreover have "always_computes red n P M r (Out b) (ring_result red n S L ?t es (contribution_of red es L ?t nin nout M))"
    if "r < n" "b < nout" for r b
    using correct(2) [of r b] that full_ring_result [OF sizes p_def ag(1)] by (simp add: P_def f)
  ultimately show ?thesis using prog by blast
qed

text \<open>
  C10: Allreduce with the ring algorithm. For any number of ranks greater than one, any number of
  elements, maximal segment size, inputs and outputs per rank, in place or not, and whatever the
  interleaving of the ranks and of the network: no check fails, the ranks neither deadlock nor run
  forever, and every rank ends with the same reduced buffer in every output, in which each segment
  is the reduction of the contributions of all ranks, taken in ring order from the segment's owner.
\<close>

theorem allreduce_ring_correct:
  fixes M :: "nat \<Rightarrow> 'a mem"
  assumes "1 < n" "0 < es" "0 < elements" "algo = RING \<or> algo = UNSPECIFIED" "0 < nout"
    and fits: "4 * (elements * es) + 6 * n * es < u64_range" "mss < 2 ^ 63"
    and pairs: "\<forall>r < n. \<forall>j < n. j \<noteq> r \<longrightarrow> pairs r j"
    and red: "reducer es red"
    and S: "S = numSegments (elements * es) (maxSegmentBytes es mss) n" and L: "L = segmentBytes (elements * es) S es"
    and M: "\<forall>r < n. (\<forall>b < nout. length (M r (Out b)) = elements * es) \<and> (\<forall>b < nin. length (M r (In b)) = elements * es) \<and> length (M r Tmp) = 2 * L"
  shows "\<exists>P. (\<forall>r < n. allreduce (pairs r) True algo elements es mss tag (replicate nin (elements * es)) (replicate nout (elements * es))
        \<lparr>ctx_rank = r, ctx_size = n\<rparr> = Inr (Some (P r))) \<and>
    always_ends n P \<and>
    (\<forall>r < n. \<forall>b < nout. always_computes red n P M r (Out b)
      (ring_result red n S L (elements * es) es (contribution_of red es L (elements * es) nin nout M)))"
  by (rule allreduce_ring_main [OF assms])

definition byte_mem :: "nat \<Rightarrow> nat mem" where
  "byte_mem r b = (if b = Tmp then replicate 4 0 else [r, 1, r + 2, 3])"

definition second :: "'a list \<Rightarrow> 'a list \<Rightarrow> nat \<Rightarrow> 'a list" where
  "second xs ys n = take (n * 2) ys"

theorem allreduce_ring_correct_witness:
  "\<exists>P. (\<forall>r < 2. allreduce (\<lambda>_. True) True UNSPECIFIED 2 2 100 5 (replicate 0 (2 * 2)) (replicate 1 (2 * 2)) \<lparr>ctx_rank = r, ctx_size = 2\<rparr> = Inr (Some (P r))) \<and>
    always_ends 2 P \<and>
    (\<forall>r < 2. \<forall>b < 1. always_computes second 2 P byte_mem r (Out b)
      (ring_result second 2 4 2 (2 * 2) 2 (contribution_of second 2 2 (2 * 2) 0 1 byte_mem)))"
proof -
  have S: "4 = numSegments (2 * 2) (maxSegmentBytes 2 100) 2"
    by (simp add: numSegments_def maxSegmentBytes_def u64_add_def u64_mul_def roundUp_def)
  have L: "2 = segmentBytes (2 * 2) 4 2" by (simp add: segmentBytes_def u64_add_def roundUp_def)
  have "reducer 2 (second :: nat list \<Rightarrow> nat list \<Rightarrow> nat \<Rightarrow> nat list)" by (simp add: reducer_def second_def)
  from allreduce_ring_correct [where n = 2 and pairs = "\<lambda>_ _. True" and nout = 1 and nin = 0 and M = byte_mem and algo = UNSPECIFIED and tag = 5,
      OF _ _ _ _ _ _ _ _ this S L]
  show ?thesis by (simp add: byte_mem_def)
qed

end
