(* ===== verification/Gloo_Sum.thy ===== *)
theory Gloo_Sum
  imports Gloo_Allreduce_Ring
begin

text \<open>
  Reductions by an associative and commutative operation on elements, such as those of
  \<open>gloo/math.h\<close> on integers: the order in which a collective combines the contributions of the ranks
  does not matter, and the result is the combination of all inputs, element by element.
\<close>

section \<open>Operations\<close>

fun fsum :: "('a \<Rightarrow> 'a \<Rightarrow> 'a) \<Rightarrow> 'a list \<Rightarrow> 'a" where
  "fsum f [] = undefined"
| "fsum f [x] = x"
| "fsum f (x # xs) = f x (fsum f xs)"

definition elementwise :: "('a \<Rightarrow> 'a \<Rightarrow> 'a) \<Rightarrow> 'a list \<Rightarrow> 'a list \<Rightarrow> nat \<Rightarrow> 'a list" where
  "elementwise f xs ys n = map2 f (take n xs) (take n ys)"

lemma fsum_Cons: "xs \<noteq> [] \<Longrightarrow> fsum f (x # xs) = f x (fsum f xs)"
  by (cases xs) simp_all

locale reduction_op =
  fixes f :: "'a \<Rightarrow> 'a \<Rightarrow> 'a"
  assumes assoc: "f (f x y) z = f x (f y z)" and comm: "f x y = f y x"
begin

lemma fsum_append: "xs \<noteq> [] \<Longrightarrow> ys \<noteq> [] \<Longrightarrow> fsum f (xs @ ys) = f (fsum f xs) (fsum f ys)"
proof (induction xs)
  case (Cons x xs)
  then show ?case by (cases "xs = []") (simp_all add: fsum_Cons assoc)
qed simp

lemma fsum_rotate: "fsum f (xs @ ys) = fsum f (ys @ xs)"
  by (cases "xs = []"; cases "ys = []") (simp_all add: fsum_append comm)

lemma fsum_fold: "fold (\<lambda>v a. f a v) xs x = fsum f (x # xs)"
proof (induction xs arbitrary: x)
  case (Cons y xs)
  then show ?case by (cases "xs = []") (simp_all add: fsum_Cons assoc)
qed simp

lemma fsum_concat: "xss \<noteq> [] \<Longrightarrow> \<forall>xs \<in> set xss. xs \<noteq> [] \<Longrightarrow> fsum f (map (fsum f) xss) = fsum f (concat xss)"
proof (induction xss)
  case (Cons xs xss)
  then show ?case by (cases "xss = []") (auto simp: fsum_Cons fsum_append)
qed simp

end

text \<open>The operations of \<open>gloo/math.h\<close> on unsigned 64-bit integers.\<close>

interpretation word_sum: reduction_op "(+) :: 64 word \<Rightarrow> 64 word \<Rightarrow> 64 word"
  by unfold_locales (simp_all add: ac_simps)

interpretation word_product: reduction_op "(*) :: 64 word \<Rightarrow> 64 word \<Rightarrow> 64 word"
  by unfold_locales (simp_all add: ac_simps)

interpretation word_max: reduction_op "std_max :: 64 word \<Rightarrow> 64 word \<Rightarrow> 64 word"
  by unfold_locales (auto simp: std_max_def)

interpretation word_min: reduction_op "std_min :: 64 word \<Rightarrow> 64 word \<Rightarrow> 64 word"
  by unfold_locales (auto simp: std_min_def)

section \<open>Element-wise reductions\<close>

lemma length_elementwise [simp]: "length (elementwise f xs ys n) = min n (min (length xs) (length ys))"
  by (simp add: elementwise_def)

lemma nth_elementwise: "i < n \<Longrightarrow> i < length xs \<Longrightarrow> i < length ys \<Longrightarrow> elementwise f xs ys n ! i = f (xs ! i) (ys ! i)"
  by (simp add: elementwise_def)

lemma reducer_elementwise: "reducer 1 (elementwise f)"
  by (simp add: reducer_def elementwise_def)

text \<open>The kernels of \<open>gloo/math.h\<close> are such reductions.\<close>

lemma kernel_elementwise:
  assumes "n \<le> length c" "n \<le> length a" "n \<le> length b"
  shows "kernel f 0 n c a b = Inr (elementwise f a b n @ drop n c)"
  using kernel_correct [of 0 n c a b f] assms by (simp add: elementwise_def read_at_def write_at_def)

lemma ring_fold_nth:
  assumes "vs \<noteq> []" "\<forall>v \<in> set vs. length v = k" "i < k"
  shows "ring_fold (elementwise f) k vs ! i = fsum f (map (\<lambda>v. v ! i) vs) \<and> length (ring_fold (elementwise f) k vs) = k"
  using assms
proof (induction vs)
  case (Cons v vs)
  then show ?case by (cases "vs = []") (simp_all add: ring_fold_Cons fsum_Cons nth_elementwise)
qed simp

lemma local_reduction_nth:
  assumes f: "reduction_op f" and v: "vs \<noteq> []" "\<forall>v \<in> set vs. length v = k" "i < k"
  shows "local_reduction (elementwise f) k vs ! i = fsum f (map (\<lambda>v. v ! i) vs) \<and> length (local_reduction (elementwise f) k vs) = k"
proof -
  have "fold (\<lambda>v a. elementwise f a v k) ws w ! i = fold (\<lambda>v a. f a v) (map (\<lambda>v. v ! i) ws) (w ! i) \<and> length (fold (\<lambda>v a. elementwise f a v k) ws w) = k"
    if "length w = k" "\<forall>v \<in> set ws. length v = k" for w ws
    using that v(3)
  proof (induction ws arbitrary: w)
    case (Cons u ws)
    then show ?case using Cons.IH [of "elementwise f w u k"] by (simp add: nth_elementwise)
  qed simp
  from this [of "hd vs" "tl vs"] v show ?thesis
    by (cases vs) (simp_all add: local_reduction_def reduction_op.fsum_fold [OF f])
qed

section \<open>Allreduce by element\<close>

lemma rotate_ranks:
  assumes "c < n"
  shows "map (\<lambda>k. h ((c + k) mod n)) [0..<n] = map h [c..<n] @ map h [0..<c]"
proof -
  have "[0..<n] = [0..<n - c] @ [n - c..<n]" using upt_add_eq_append [of 0 "n - c" c] assms by simp
  moreover have "map (\<lambda>k. h ((c + k) mod n)) [0..<n - c] = map h [c..<n]" by (rule nth_equalityI) simp_all
  moreover have "map (\<lambda>k. h ((c + k) mod n)) [n - c..<n] = map h [0..<c]" using assms by (intro nth_equalityI) simp_all
  ultimately show ?thesis by (metis map_append)
qed

definition all_inputs :: "nat \<Rightarrow> nat \<Rightarrow> nat \<Rightarrow> (nat \<Rightarrow> 'a mem) \<Rightarrow> nat \<Rightarrow> 'a list" where
  "all_inputs n nin nout M x = concat (map (\<lambda>r. map (\<lambda>b. M r b ! x) (local_sources nin nout)) [0..<n])"

lemma ring_result_elementwise:
  assumes f: "reduction_op f" and n: "0 < n" "0 < nout"
    and S: "n * (S div n) = S" "0 < S div n" "t \<le> S * L" "0 < L"
    and M: "\<forall>r < n. \<forall>b \<in> set (local_sources nin nout). length (M r b) = t"
  shows "ring_result (elementwise f) n S L t 1 (contribution_of (elementwise f) 1 L t nin nout M) =
    map (\<lambda>x. fsum f (all_inputs n nin nout M x)) [0..<t]"
proof -
  let ?src = "local_sources nin nout" and ?q = "S div n"
  let ?con = "contribution_of (elementwise f) 1 L t nin nout M"
  let ?D = "\<lambda>g. ring_fold (elementwise f) (ar_len L t g div 1) (map (\<lambda>k. ?con ((g div ?q + k) mod n) g) [0..<n])"
  have src: "?src \<noteq> []" using n(2) by (simp add: local_sources_def)
  have con: "?con r g ! i = fsum f (map (\<lambda>b. M r b ! (g * L + i)) ?src) \<and> length (?con r g) = ar_len L t g" if "r < n" "i < ar_len L t g" for r g i
  proof -
    let ?vs = "map (\<lambda>b. read_at (g * L) (ar_len L t g) (M r b)) ?src"
    have fit: "g * L + ar_len L t g \<le> t" using that(2) by (auto simp: ar_len_def)
    then have "length (read_at (g * L) (ar_len L t g) (M r b)) = ar_len L t g" if "b \<in> set ?src" for b
      using M \<open>r < n\<close> that by (simp add: length_read_at)
    then have "local_reduction (elementwise f) (ar_len L t g) ?vs ! i = fsum f (map (\<lambda>v. v ! i) ?vs) \<and> length (local_reduction (elementwise f) (ar_len L t g) ?vs) = ar_len L t g"
      using src that(2) by (intro local_reduction_nth [OF f]) auto
    moreover have eq: "map (\<lambda>v. v ! i) ?vs = map (\<lambda>b. M r b ! (g * L + i)) ?src"
      using M that fit by (auto simp: nth_read_at)
    ultimately show ?thesis unfolding contribution_of_def div_by_1 eq by blast
  qed
  have D: "?D g ! i = fsum f (all_inputs n nin nout M (g * L + i)) \<and> length (?D g) = ar_len L t g" if g: "g < S" "i < ar_len L t g" for g i
  proof -
    let ?h = "\<lambda>r. map (\<lambda>b. M r b ! (g * L + i)) ?src"
    have c: "g div ?q < n" using g(1) S(1) by (simp add: less_mult_imp_div_less mult.commute)
    have d: "?D g ! i = fsum f (map (\<lambda>v. v ! i) (map (\<lambda>k. ?con ((g div ?q + k) mod n) g) [0..<n])) \<and> length (?D g) = ar_len L t g"
      using ring_fold_nth [of "map (\<lambda>k. ?con ((g div ?q + k) mod n) g) [0..<n]" "ar_len L t g" i f] n(1) g(2) con [where g = g and i = i] by simp
    have e1: "map (\<lambda>v. v ! i) (map (\<lambda>k. ?con ((g div ?q + k) mod n) g) [0..<n]) = map (fsum f) (map (\<lambda>k. ?h ((g div ?q + k) mod n)) [0..<n])"
      using con [where g = g and i = i] n(1) g(2) by simp
    have e2: "fsum f (map (fsum f) (map (\<lambda>k. ?h ((g div ?q + k) mod n)) [0..<n])) = fsum f (concat (map (\<lambda>k. ?h ((g div ?q + k) mod n)) [0..<n]))"
      using src n(1) by (intro reduction_op.fsum_concat [OF f]) auto
    have e3: "concat (map (\<lambda>k. ?h ((g div ?q + k) mod n)) [0..<n]) = concat (map ?h [g div ?q..<n]) @ concat (map ?h [0..<g div ?q])"
      by (subst rotate_ranks [OF c]) simp
    have e4: "concat (map ?h [0..<n]) = concat (map ?h [0..<g div ?q]) @ concat (map ?h [g div ?q..<n])"
      using upt_add_eq_append [of 0 "g div ?q" "n - g div ?q"] c by simp
    have "fsum f (map (\<lambda>v. v ! i) (map (\<lambda>k. ?con ((g div ?q + k) mod n) g) [0..<n])) = fsum f (all_inputs n nin nout M (g * L + i))"
      unfolding e1 e2 e3 all_inputs_def e4 by (rule reduction_op.fsum_rotate [OF f])
    with d show ?thesis by (simp only:)
  qed
  have len: "length (?D g) = min L (t - g * L)" if "g < S" for g
  proof (cases "ar_len L t g = 0")
    case True
    have "ring_fold (elementwise f) 0 vs = []" if "\<forall>v \<in> set vs. v = []" for vs
      using that
    proof (induction vs)
      case (Cons v vs)
      then show ?case by (cases "vs = []") (simp_all add: ring_fold_Cons elementwise_def)
    qed simp
    moreover have "local_reduction (elementwise f) 0 (map (\<lambda>_. []) xs) = []" if "xs \<noteq> []" for xs :: "bufid list"
    proof -
      have "fold (\<lambda>v a. elementwise f a v 0) ys [] = []" for ys by (induction ys) (simp_all add: elementwise_def)
      then show ?thesis using that by (cases xs) (simp_all add: local_reduction_def)
    qed
    ultimately show ?thesis using True src by (simp add: ar_len_def contribution_of_def read_at_0)
  next
    case False
    then show ?thesis using D [OF that, of 0] by (simp add: ar_len_def)
  qed
  show ?thesis
    unfolding ring_result_def
  proof (rule nth_equalityI)
    show "length (concat (map ?D [0..<S])) = length (map (\<lambda>x. fsum f (all_inputs n nin nout M x)) [0..<t])"
      using segments_start [OF len, of S] S(3) by simp
    fix x assume "x < length (concat (map ?D [0..<S]))"
    then have x: "x < t" using segments_start [OF len, of S] S(3) by simp
    note g = segments_nth [OF len S(3) x S(4)]
    have "x - x div L * L < ar_len L t (x div L)" using g(4,5) unfolding ar_len_def by linarith
    from D [OF g(2) this] g(3,4) x show "concat (map ?D [0..<S]) ! x = map (\<lambda>x. fsum f (all_inputs n nin nout M x)) [0..<t] ! x"
      by simp
  qed
qed


definition sum_mem :: "nat \<Rightarrow> nat mem" where
  "sum_mem r b = (case b of In i \<Rightarrow> [r + 1, 10 * r, i + r] | Out i \<Rightarrow> [0, 0, 0] | Tmp \<Rightarrow> [0, 0])"


end
