(* ===== verification/Gloo_Fanin.thy ===== *)
theory Gloo_Fanin
  imports Gloo_Pipeline
begin

text \<open>
  Receives from several ranks into one buffer that are all posted before the first wait, as in the
  gather of \<open>reduce\<close> and in the steps of the bcube algorithm. A wait does not say which of them has
  completed; after as many waits as receives all have, whatever the order.
\<close>

section \<open>Waiting for all\<close>

lemma one_chan_tl: "one_chan F \<Longrightarrow> one_chan (tl F)"
  by (cases F; cases "tl F") (auto simp: one_chan_def)

lemma wait_some:
  assumes "\<not> one_chan F" "w < length F" "sy_rcv s b = F" "sy_rw s b = 0"
  shows "sym_run red es val len r (replicate w (WaitRecv b)) s = Some (s\<lparr>sy_rw := (sy_rw s)(b := w)\<rparr>)"
  using assms(2)
proof (induction w)
  case 0
  then show ?case using assms(4) by (simp add: fun_upd_idem)
next
  case (Suc w)
  have "replicate (Suc w) (WaitRecv b) = replicate w (WaitRecv b) @ [WaitRecv b]" by (simp add: replicate_append_same)
  moreover have "F \<noteq> []" using Suc.prems by auto
  then have "sym_do red es val len r (WaitRecv b) (s\<lparr>sy_rw := (sy_rw s)(b := w)\<rparr>) = Some (s\<lparr>sy_rw := (sy_rw s)(b := Suc w)\<rparr>)"
    using Suc.prems assms(1,3) by (simp add: retire_def fun_upd_idem)
  ultimately show ?case unfolding sym_run_append Suc.IH [OF Suc_lessD [OF Suc.prems]]
    by (simp only: sym_run_append Suc.IH [OF Suc_lessD [OF Suc.prems]] bind.bind_lunit sym_run.simps option.case)
qed

lemma wait_all:
  assumes "sy_rcv s b = F" "sy_rw s b = 0"
  shows "sym_run red es val len r (replicate (length F) (WaitRecv b)) s =
    Some (s\<lparr>sy_rcv := (sy_rcv s)(b := []), sy_rw := (sy_rw s)(b := 0), sy_mem := fold (learn val) F (sy_mem s)\<rparr>)"
proof (cases "one_chan F")
  case True
  then show ?thesis using assms
  proof (induction F arbitrary: s)
    case Nil
    then show ?case by (simp add: fun_upd_idem)
  next
    case (Cons e F)
    have "one_chan F" using one_chan_tl [OF Cons.prems(1)] by simp
    with Cons show ?case by (simp add: retire_def cong: if_cong)
  qed
next
  case False
  then have F: "F \<noteq> []" by (auto simp: one_chan_def)
  then obtain w where w: "length F = Suc w" by (cases F) auto
  have "replicate (Suc w) (WaitRecv b) = replicate w (WaitRecv b) @ [WaitRecv b]" by (simp add: replicate_append_same)
  moreover have "retire F w = (F, [], 0)" using False w by (simp add: retire_def)
  ultimately show ?thesis using wait_some [OF False _ assms, of w] w assms(1) F by (simp add: sym_run_append del: replicate.simps)
qed

section \<open>What is learnt\<close>

text \<open>If the payloads agree with \<open>w\<close>, so does the memory wherever one of them was written.\<close>

lemma fold_learn_agree:
  assumes "\<forall>e \<in> set F. f_buf e = b \<and> (\<forall>i < length (val (f_chan e) (f_no e)). val (f_chan e) (f_no e) ! i = w ! (f_off e + i))"
  shows "fold (learn val) F C b x =
    (if \<exists>e \<in> set F. f_off e \<le> x \<and> x < f_off e + length (val (f_chan e) (f_no e)) then Some (w ! x) else C b x)"
  using assms
proof (induction F rule: rev_induct)
  case (snoc e F)
  have "val (f_chan e) (f_no e) ! (x - f_off e) = w ! x" if "f_off e \<le> x" "x < f_off e + length (val (f_chan e) (f_no e))"
  proof -
    have "x - f_off e < length (val (f_chan e) (f_no e))" using that by linarith
    with snoc.prems that(1) show ?thesis by simp
  qed
  with snoc show ?case by (auto simp: learn_def put_def)
qed simp

section \<open>Posting receives from several ranks\<close>

text \<open>The receives of \<open>ln j\<close> bytes from rank \<open>j\<close> at position \<open>pl j\<close>, for the ranks \<open>js\<close>.\<close>

definition fan_in :: "bufid \<Rightarrow> 64 word \<Rightarrow> (nat \<Rightarrow> nat) \<Rightarrow> (nat \<Rightarrow> nat) \<Rightarrow> nat list \<Rightarrow> program" where
  "fan_in b slot pl ln js = map (\<lambda>j. Recv b j slot (pl j) (ln j)) js"

definition fan_flight :: "bufid \<Rightarrow> 64 word \<Rightarrow> nat \<Rightarrow> (chan \<Rightarrow> nat) \<Rightarrow> (nat \<Rightarrow> nat) \<Rightarrow> (nat \<Rightarrow> nat) \<Rightarrow> nat \<Rightarrow> flight" where
  "fan_flight b slot r nr pl ln j = flight (j, r, slot) (nr (j, r, slot)) (b, pl j, ln j)"

lemma fan_flight_simps [simp]:
  "f_buf (fan_flight b slot r nr pl ln j) = b" "f_off (fan_flight b slot r nr pl ln j) = pl j" "f_len (fan_flight b slot r nr pl ln j) = ln j"
  "f_chan (fan_flight b slot r nr pl ln j) = (j, r, slot)" "f_no (fan_flight b slot r nr pl ln j) = nr (j, r, slot)"
  by (simp_all add: fan_flight_def)

text \<open>The state that posting the receives leads to.\<close>

definition fan_state :: "bufid \<Rightarrow> 64 word \<Rightarrow> nat \<Rightarrow> (nat \<Rightarrow> nat) \<Rightarrow> (nat \<Rightarrow> nat) \<Rightarrow> nat list \<Rightarrow> 'a sym \<Rightarrow> 'a sym" where
  "fan_state b slot r pl ln js s = s\<lparr>sy_rcv := (sy_rcv s)(b := sy_rcv s b @ map (fan_flight b slot r (sy_nr s) pl ln) js),
     sy_nr := (\<lambda>k. if k \<in> (\<lambda>j. (j, r, slot)) ` set js then Suc (sy_nr s k) else sy_nr s k),
     sy_mem := fold (\<lambda>j. forget b (pl j) (ln j)) js (sy_mem s)\<rparr>"

lemma fan_in_run:
  assumes "distinct js"
    and "\<forall>j \<in> set js. length (val (j, r, slot) (sy_nr s (j, r, slot))) = ln j \<and> pl j + ln j \<le> len b \<and> apart (pl j) (ln j) (sy_snd s b) \<and> apart (pl j) (ln j) (sy_rcv s b)"
    and "\<forall>j \<in> set js. \<forall>k \<in> set js. j \<noteq> k \<longrightarrow> pl j + ln j \<le> pl k \<or> pl k + ln k \<le> pl j"
  shows "sym_run red es val len r (fan_in b slot pl ln js) s = Some (fan_state b slot r pl ln js s)"
  using assms
proof (induction js rule: rev_induct)
  case Nil
  then show ?case by (simp add: fan_in_def fan_state_def fun_upd_idem)
next
  case (snoc j js)
  let ?s = "fan_state b slot r pl ln js s" and ?k = "(j, r, slot)"
  have "fan_in b slot pl ln (js @ [j]) = fan_in b slot pl ln js @ [Recv b j slot (pl j) (ln j)]" by (simp add: fan_in_def)
  moreover have run: "sym_run red es val len r (fan_in b slot pl ln js) s = Some ?s" using snoc by simp
  moreover have nr: "sy_nr ?s ?k = sy_nr s ?k" using snoc.prems(1) by (auto simp: fan_state_def)
  moreover have "apart (pl j) (ln j) (sy_rcv ?s b)"
    unfolding apart_def
  proof
    fix e assume "e \<in> set (sy_rcv ?s b)"
    then consider "e \<in> set (sy_rcv s b)" | i where "i \<in> set js" "e = fan_flight b slot r (sy_nr s) pl ln i" by (auto simp: fan_state_def)
    then show "pl j + ln j \<le> f_off e \<or> f_off e + f_len e \<le> pl j"
    proof cases
      case 1
      then show ?thesis using snoc.prems(2) by (simp add: apart_def)
    next
      case 2
      moreover from this snoc.prems(1) have "j \<noteq> i" by auto
      ultimately show ?thesis using snoc.prems(3) by auto
    qed
  qed
  moreover have "sy_snd ?s b = sy_snd s b" by (simp add: fan_state_def)
  ultimately have "sym_run red es val len r (fan_in b slot pl ln (js @ [j])) s =
      Some (?s\<lparr>sy_rcv := (sy_rcv ?s)(b := sy_rcv ?s b @ [fan_flight b slot r (sy_nr s) pl ln j]), sy_nr := (sy_nr ?s)(?k := Suc (sy_nr ?s ?k)),
        sy_mem := forget b (pl j) (ln j) (sy_mem ?s)\<rparr>)"
    using snoc.prems(2) by (simp add: sym_run_append Let_def fan_flight_def)
  also have "\<dots> = Some (fan_state b slot r pl ln (js @ [j]) s)"
  proof -
    have "(\<lambda>k. if k \<in> (\<lambda>j. (j, r, slot)) ` set js then Suc (sy_nr s k) else sy_nr s k)(?k := Suc (sy_nr s ?k)) =
        (\<lambda>k. if k \<in> (\<lambda>j. (j, r, slot)) ` set (js @ [j]) then Suc (sy_nr s k) else sy_nr s k)" by (rule ext) auto
    then show ?thesis unfolding nr by (simp add: fan_state_def)
  qed
  finally show ?case .
qed

lemma fold_forget_other:
  assumes "\<forall>j \<in> set js. x < pl j \<or> pl j + ln j \<le> x"
  shows "fold (\<lambda>j. forget b (pl j) (ln j)) js C b x = C b x"
  using assms by (induction js arbitrary: C) (auto simp: forget_def)

lemma fold_forget_buf: "b' \<noteq> b \<Longrightarrow> fold (\<lambda>j. forget b (pl j) (ln j)) js C b' = C b'"
  by (induction js arbitrary: C) (auto simp: forget_def)

text \<open>
  Posting the receives and waiting for as many: the memory agrees with \<open>w\<close> where data was received
  and is as before elsewhere.
\<close>

lemma fan_in_waits:
  assumes js: "distinct js"
    and post: "\<forall>j \<in> set js. length (val (j, r, slot) (sy_nr s (j, r, slot))) = ln j \<and> pl j + ln j \<le> len b \<and> apart (pl j) (ln j) (sy_snd s b)"
    and free: "\<forall>j \<in> set js. \<forall>k \<in> set js. j \<noteq> k \<longrightarrow> pl j + ln j \<le> pl k \<or> pl k + ln k \<le> pl j"
    and idle: "sy_rcv s b = []" "sy_rw s b = 0"
    and w: "\<forall>j \<in> set js. \<forall>i < ln j. val (j, r, slot) (sy_nr s (j, r, slot)) ! i = w ! (pl j + i)"
  shows "\<exists>s'. sym_run red es val len r (fan_in b slot pl ln js @ replicate (length js) (WaitRecv b)) s = Some s' \<and>
    (\<forall>x. sy_mem s' b x = (if \<exists>j \<in> set js. pl j \<le> x \<and> x < pl j + ln j then Some (w ! x) else sy_mem s b x))"
proof -
  let ?s = "fan_state b slot r pl ln js s" and ?F = "map (fan_flight b slot r (sy_nr s) pl ln) js"
  have "\<forall>j \<in> set js. length (val (j, r, slot) (sy_nr s (j, r, slot))) = ln j \<and> pl j + ln j \<le> len b \<and> apart (pl j) (ln j) (sy_snd s b) \<and> apart (pl j) (ln j) (sy_rcv s b)"
    using post idle(1) by (simp add: apart_def)
  from fan_in_run [where val = val and len = len and pl = pl and ln = ln and s = s, OF js this free] have run: "sym_run red es val len r (fan_in b slot pl ln js) s = Some ?s" for red es .
  have F: "sy_rcv ?s b = ?F" "sy_rw ?s b = 0" using idle by (simp_all add: fan_state_def)
  let ?t = "?s\<lparr>sy_rcv := (sy_rcv ?s)(b := []), sy_rw := (sy_rw ?s)(b := 0), sy_mem := fold (learn val) ?F (sy_mem ?s)\<rparr>"
  have "sym_run red es val len r (fan_in b slot pl ln js @ replicate (length js) (WaitRecv b)) s = Some ?t"
    using run wait_all [OF F, of red es val len r] by (simp add: sym_run_append)
  moreover have "sy_mem ?t b x = (if \<exists>j \<in> set js. pl j \<le> x \<and> x < pl j + ln j then Some (w ! x) else sy_mem s b x)" for x
  proof -
    have "\<forall>e \<in> set ?F. f_buf e = b \<and> (\<forall>i < length (val (f_chan e) (f_no e)). val (f_chan e) (f_no e) ! i = w ! (f_off e + i))"
      using w post by auto
    from fold_learn_agree [OF this] have "sy_mem ?t b x = (if \<exists>j \<in> set js. pl j \<le> x \<and> x < pl j + ln j then Some (w ! x) else sy_mem ?s b x)"
      using post by auto
    moreover have "sy_mem ?s b x = sy_mem s b x" if "\<not> (\<exists>j \<in> set js. pl j \<le> x \<and> x < pl j + ln j)"
      using that unfolding fan_state_def by (simp add: fold_forget_other not_le not_less)
    ultimately show ?thesis by presburger
  qed
  ultimately show ?thesis by blast
qed

end
