(* ===== verification/Gloo_Reduce.thy ===== *)
theory Gloo_Reduce
  imports Gloo_Sum Gloo_Fanin
begin

text \<open>
  \<open>gloo/reduce.cc\<close>: the ring of \<open>Gloo_RingReduce\<close>, after which every rank has its chunk of the result,
  and a gather of the chunks at the root.
\<close>

section \<open>The program\<close>

text \<open>
  The size of the segments; unlike \<open>allreduce\<close> the limit has no lower bound of one element, so that it can
  be zero, and the number of segments is computed by dividing by it.
\<close>

definition reduce_segmentBytes :: "nat \<Rightarrow> nat \<Rightarrow> nat \<Rightarrow> nat \<Rightarrow> nat" where
  "reduce_segmentBytes totalBytes procs elementSize maxSegmentSize =
     (let maxSize = elementSize * (maxSegmentSize div elementSize)
      in roundUp (min (u64_add totalBytes (procs * 2 - 1) div (procs * 2)) maxSize) elementSize)"

definition reduce_numSegments :: "nat \<Rightarrow> nat \<Rightarrow> nat \<Rightarrow> nat" where
  "reduce_numSegments totalBytes segBytes procs =
     roundUp (max (u64_add totalBytes (segBytes - 1) div segBytes) (procs * 2)) procs"

definition reduce_iter :: "64 word \<Rightarrow> ctx \<Rightarrow> bufid \<Rightarrow> nat \<Rightarrow> nat \<Rightarrow> nat \<Rightarrow> nat \<Rightarrow> (nat \<Rightarrow> ring_offsets) \<Rightarrow> nat \<Rightarrow> program" where
  "reduce_iter slot c inb elementSize segBytes segments perRank offs i =
     (let recvRank = (ctx_size c + ctx_rank c + 1) mod ctx_size c; sendRank = (ctx_size c + ctx_rank c - 1) mod ctx_size c
      in (if i \<ge> 2
          then let prev = offs (i - 2)
               in (if recvLength prev > 0
                   then [WaitRecv Tmp,
                      Reduce (Out 0) (recvOffset prev) inb (recvOffset prev) Tmp (segmentOffset segBytes i)
                        (nat (recvLength prev) div elementSize)]
                   else []) @
                  (if sendLength prev > 0 then (if i - 2 < perRank then [WaitSend inb] else [WaitSend (Out 0)]) else [])
          else []) @
         (if i < segments - 2
          then let cur = offs i
               in (if recvLength cur > 0 then [Recv Tmp recvRank slot (segmentOffset segBytes i) (nat (recvLength cur))] else []) @
                  (if sendLength cur > 0
                   then (if i < perRank then [Send inb sendRank slot (sendOffset cur) (nat (sendLength cur))]
                         else [Send (Out 0) sendRank slot (sendOffset cur) (nat (sendLength cur))])
                   else [])
          else []))"

text \<open>The gather to the root; the chunks of the last ranks may be shorter or empty.\<close>

definition reduce_gather :: "64 word \<Rightarrow> ctx \<Rightarrow> nat \<Rightarrow> nat \<Rightarrow> nat \<Rightarrow> nat \<Rightarrow> program" where
  "reduce_gather slot c root totalBytes perRank segBytes =
     (let chunkBytes = perRank * segBytes;
          place = (\<lambda>rank. rank * perRank * segBytes);
          len = (\<lambda>rank. min (int chunkBytes) (int totalBytes - int (place rank)))
      in if ctx_rank c = root
         then let recvs = concat (map (\<lambda>rank. if rank = ctx_rank c then []
                            else if len rank > 0 then [Recv (Out 0) rank slot (place rank) (nat (len rank))] else []) [0..<ctx_size c])
              in recvs @ replicate (length recvs) (WaitRecv (Out 0))
         else (if len (ctx_rank c) > 0
               then [Send (Out 0) root slot (place (ctx_rank c)) (nat (len (ctx_rank c))), WaitSend (Out 0)] else []))"

definition reduce :: "(nat \<Rightarrow> bool) \<Rightarrow> bool \<Rightarrow> nat \<Rightarrow> nat \<Rightarrow> nat \<Rightarrow> nat \<Rightarrow> 32 word \<Rightarrow> nat option \<Rightarrow> nat \<Rightarrow> ctx \<Rightarrow> program result" where
  "reduce pairs hasReduce root elements elementSize maxSegmentSize tag insize outsize c =
     (if elements = 0 then Inr []
      else
        (let slot = slot_of kReduceSlotPrefix tag;
             recvRank = (ctx_size c + ctx_rank c + 1) mod ctx_size c;
             sendRank = (ctx_size c + ctx_rank c - 1) mod ctx_size c;
             inb = (case insize of None \<Rightarrow> Out 0 | Some _ \<Rightarrow> In 0);
             totalBytes = u64_mul elements elementSize
         in enforce (elementSize > 0) (enforce (root < ctx_size c) (enforce hasReduce
           (enforce (recvRank = ctx_rank c \<or> pairs recvRank) (enforce (sendRank = ctx_rank c \<or> pairs sendRank)
           (enforce ((case insize of None \<Rightarrow> outsize | Some isize \<Rightarrow> isize) = totalBytes) (enforce (outsize = totalBytes)
             (if ctx_size c = 1
              then Inr (if inb \<noteq> Out 0 then [Memcpy (Out 0) 0 inb 0 totalBytes] else [])
              else
                let segBytes = reduce_segmentBytes totalBytes (ctx_size c) elementSize maxSegmentSize;
                    segments = reduce_numSegments totalBytes segBytes (ctx_size c);
                    perRank = segments div ctx_size c
                in if segBytes = 0 then Inl UndefinedBehavior
                   else enforce (segments mod ctx_size c = 0) (enforce (segments \<ge> ctx_size c * 2)
                     (Inr (concat (map (reduce_iter slot c inb elementSize segBytes segments perRank
                                   (computeReduceScatterOffsets (ctx_rank c) perRank segments segBytes totalBytes)) [0..<segments]) @
                           reduce_gather slot c root totalBytes perRank segBytes))))))))))))"

section \<open>Sizes\<close>

lemma reduce_geometry:
  assumes n: "0 < n" and es: "0 < es" "es \<le> mss" and t: "0 < t" and fits: "5 * t + 9 * n * es < u64_range"
    and L: "L = reduce_segmentBytes t n es mss" and S: "S = reduce_numSegments t L n"
  shows "n dvd S" "n * 2 \<le> S" "es dvd L" "t \<le> S * L" "3 * (S * L) < u64_range" "0 < L"
proof -
  let ?c = "(t + (n * 2 - 1)) div (n * 2)"
  have n6: "9 * n \<le> 9 * n * es" using es(1) by simp
  then have "t + (n * 2 - 1) < u64_range" using fits by linarith
  then have c: "L = roundUp (min ?c (es * (mss div es))) es" by (simp add: L reduce_segmentBytes_def Let_def u64_add_exact)
  show "es dvd L" unfolding c by (rule roundUp_dvd [OF es(1)])
  have "0 < mss div es" using es by (simp add: div_greater_zero_iff)
  moreover have "0 < ?c" using t n by (simp add: div_greater_zero_iff)
  ultimately have "0 < min ?c (es * (mss div es))" using es(1) by simp
  then show L0: "0 < L" unfolding c using roundUp_ge [OF es(1)] by (rule less_le_trans)
  have "L < min ?c (es * (mss div es)) + es" unfolding c by (rule roundUp_less [OF es(1)])
  then have Lle: "L \<le> t div (n * 2) + es" using div_ceil [of "n * 2" t] n by simp
  have "n * 2 * (t div (n * 2)) \<le> t" by (rule times_div_less_eq_dividend)
  moreover have "n * 2 * L \<le> n * 2 * (t div (n * 2)) + n * 2 * es" using mult_le_mono2 [OF Lle, of "n * 2"] by (simp add: algebra_simps)
  ultimately have nL: "2 * (n * L) \<le> t + 2 * (n * es)" by linarith
  have "L \<le> n * L" using n by simp
  then have "t + (L - 1) < u64_range" using nL fits by linarith
  then have d: "S = roundUp (max ((t + (L - 1)) div L) (n * 2)) n" by (simp add: S reduce_numSegments_def u64_add_exact)
  show "n dvd S" unfolding d by (rule roundUp_dvd [OF n])
  have ge: "max ((t + (L - 1)) div L) (n * 2) \<le> S" unfolding d by (rule roundUp_ge [OF n])
  then show "n * 2 \<le> S" by simp
  have "(t + (L - 1)) div L \<le> S" using ge by simp
  then show "t \<le> S * L" using div_ceil_ge [OF L0, of t] mult_le_mono1 [of "(t + (L - 1)) div L" S L] by linarith
  have "S < max ((t + (L - 1)) div L) (n * 2) + n" unfolding d by (rule roundUp_less [OF n])
  then have "S \<le> t div L + n \<or> S \<le> 3 * n" using div_ceil [OF L0, of t] by (auto simp: max_def split: if_splits)
  then have "S * L \<le> t + n * L \<or> S * L \<le> 3 * (n * L)"
  proof
    assume "S \<le> t div L + n"
    then have "S * L \<le> t div L * L + n * L" using mult_le_mono1 [of S "t div L + n" L] by (simp add: algebra_simps)
    moreover have "t div L * L \<le> t" by (rule div_times_less_eq_dividend)
    ultimately show ?thesis by linarith
  next
    assume "S \<le> 3 * n"
    then show ?thesis using mult_le_mono1 [of S "3 * n" L] by (simp add: algebra_simps)
  qed
  then show "3 * (S * L) < u64_range" using nL fits by linarith
qed

section \<open>The ring of reduce\<close>

text \<open>
  Without inputs of its own the output is the input. The loop runs two iterations longer than there
  are posts, and posts all but two segments: with more than two segments per rank, more than a chunk
  needs; the surplus goes into parts of the output that nobody reads.
\<close>

definition rd_in :: "nat \<Rightarrow> bufid" where "rd_in nin = (if nin = 0 then Out 0 else In 0)"

definition rd_params :: "('a list \<Rightarrow> 'a list \<Rightarrow> nat \<Rightarrow> 'a list) \<Rightarrow> nat \<Rightarrow> nat \<Rightarrow> nat \<Rightarrow> nat \<Rightarrow> nat \<Rightarrow> 64 word \<Rightarrow> nat \<Rightarrow> (nat \<Rightarrow> 'a mem) \<Rightarrow> 'a ringp" where
  "rd_params red n S L t es slot nin M =
     \<lparr>rp_n = n, rp_q = S div n, rp_N = S - 2, rp_L = L, rp_total = t, rp_es = es, rp_slot = slot, rp_ib = rd_in nin, rp_prep = (\<lambda>_ _. []),
      rp_red = red, rp_M = M, rp_B = {Out 0, rd_in nin}, rp_loc = (\<lambda>r g. read_at (g * L) (ar_len L t g) (M r (rd_in nin))),
      rp_aft = (\<lambda>r g. read_at (g * L) (ar_len L t g) (M r (Out 0)))\<rparr>"

lemma rd_simps:
  assumes "p = rd_params red n S L t es slot nin M"
  shows "rp_n p = n" "rp_q p = S div n" "rp_N p = S - 2" "rp_L p = L" "rp_total p = t" "rp_es p = es" "rp_slot p = slot" "rp_ib p = rd_in nin"
    "rp_prep p off l = []" "rp_red p = red" "rp_M p = M" "rp_B p = {Out 0, rd_in nin}" "rp_loc p r g = read_at (g * L) (ar_len L t g) (M r (rd_in nin))"
    "rp_aft p r g = read_at (g * L) (ar_len L t g) (M r (Out 0))" "sl p g = ar_len L t g"
    "segment p r b g = read_at (g * L) (ar_len L t g) (M r b)"
  by (simp_all add: assms rd_params_def sl_def ar_len_def segment_def)

lemma rd_prep_ok:
  fixes M :: "nat \<Rightarrow> 'a mem"
  assumes "p = rd_params red n S L t es slot nin M"
  shows "prep_ok p val r"
  unfolding prep_ok_def rd_simps [OF assms]
proof (intro allI impI)
  fix g and s :: "'a sym"
  assume "\<forall>b \<in> {Out 0, rd_in nin}. cells (sy_mem s) b (g * L) (ar_len L t g) = map Some (read_at (g * L) (ar_len L t g) (M r b))"
  then show "\<exists>C. sym_run red es val (\<lambda>b. length (M r b)) r [] s = Some (s\<lparr>sy_mem := C\<rparr>) \<and>
      cells C (rd_in nin) (g * L) (ar_len L t g) = map Some (read_at (g * L) (ar_len L t g) (M r (rd_in nin))) \<and>
      cells C (Out 0) (g * L) (ar_len L t g) = map Some (read_at (g * L) (ar_len L t g) (M r (Out 0))) \<and>
      (\<forall>b x. \<not> (b = Out 0 \<and> g * L \<le> x \<and> x < g * L + ar_len L t g) \<longrightarrow> C b x = sy_mem s b x)"
    by (intro exI [of _ "sy_mem s"]) simp
qed

lemma rd_ring:
  assumes "1 < n" "0 < es" "n dvd S" "n * 2 \<le> S" "es dvd L" "es dvd t" "t \<le> S * L" "0 < L"
    and M: "\<forall>r < n. length (M r (Out 0)) = t \<and> length (M r (rd_in nin)) = t \<and> length (M r Tmp) = 2 * L"
    and pp: "p = rd_params red n S L t es slot nin M"
  shows "ring_sizes p" "ring_mem p" "rp_S p = S" "1 < S div n" "n * (S div n) = S"
proof -
  note f = rd_simps [OF pp]
  show S: "n * (S div n) = S" using assms(3) by simp
  then show S': "rp_S p = S" by (simp add: rp_S_def f)
  show q: "1 < S div n" using div_le_mono [OF assms(4), of n] assms(1) by simp
  show "ring_sizes p" using assms(1-8) q S' by (simp add: ring_sizes_def f)
  have "length (read_at (g * L) (ar_len L t g) (M r (rd_in nin))) = ar_len L t g" if "r < n" for r g
    using M that by (simp add: read_at_def ar_len_def min.commute)
  then show "ring_mem p" using M by (auto simp: ring_mem_def f rd_in_def)
qed

lemma rd_iterations:
  assumes S: "n dvd S" "n * 2 \<le> S" "1 < n" "3 * (S * L) < u64_range" and r: "r < n" and i: "i < S"
    and pp: "p = rd_params red n S L t es slot nin M"
  shows "reduce_iter slot \<lparr>ctx_rank = r, ctx_size = n\<rparr> (rd_in nin) es L S (S div n) (computeReduceScatterOffsets r (S div n) S L t) i =
    pipe_iter (S - 2) (rs_wait p r) (rs_post p r) i"
proof -
  let ?q = "S div n"
  note f = rd_simps [OF pp]
  have S0: "0 < S" using S(2,3) by linarith
  have nq: "n * ?q = S" using S(1) by simp
  then have S': "rp_S p = S" by (simp add: rp_S_def f)
  have bound: "base * ?q + j \<le> 3 * S" if "base \<le> n + 1" "j < S" for base j
  proof -
    have "base * ?q \<le> n * ?q + ?q" using mult_le_mono1 [OF that(1), of ?q] by simp
    also have "\<dots> \<le> S + S" using nq by simp
    finally show ?thesis using that(2) by linarith
  qed
  have rs: "sendOffset (computeReduceScatterOffsets r ?q S L t j) = sg p r j * L" "recvOffset (computeReduceScatterOffsets r ?q S L t j) = rg p r j * L"
      "0 < sendLength (computeReduceScatterOffsets r ?q S L t j) \<longleftrightarrow> 0 < sl p (sg p r j)" "nat (sendLength (computeReduceScatterOffsets r ?q S L t j)) = sl p (sg p r j)"
      "0 < recvLength (computeReduceScatterOffsets r ?q S L t j) \<longleftrightarrow> 0 < sl p (rg p r j)" "nat (recvLength (computeReduceScatterOffsets r ?q S L t j)) = sl p (rg p r j)"
    if j: "j < S" for j
  proof -
    have b: "(r + 1) * ?q + j \<le> 3 * S" "(r + 1 + 1) * ?q + j \<le> 3 * S" using bound [OF _ j, of "r + 1"] bound [OF _ j, of "r + 1 + 1"] r by auto
    note o = offsets_exact [OF b S(4) S0 zero_less_numeral, of t]
    have e: "sg p r j = ((r + 1) * ?q + j) mod S" "rg p r j = ((r + 1 + 1) * ?q + j) mod S" using S' by (simp_all add: sg_def rg_def f)
    show "sendOffset (computeReduceScatterOffsets r ?q S L t j) = sg p r j * L" "recvOffset (computeReduceScatterOffsets r ?q S L t j) = rg p r j * L"
      "0 < sendLength (computeReduceScatterOffsets r ?q S L t j) \<longleftrightarrow> 0 < sl p (sg p r j)" "nat (sendLength (computeReduceScatterOffsets r ?q S L t j)) = sl p (sg p r j)"
      "0 < recvLength (computeReduceScatterOffsets r ?q S L t j) \<longleftrightarrow> 0 < sl p (rg p r j)" "nat (recvLength (computeReduceScatterOffsets r ?q S L t j)) = sl p (rg p r j)"
      unfolding computeReduceScatterOffsets_def e f(15) by (rule o)+
  qed
  have i2: "i - 2 < S" using i by linarith
  show ?thesis
    unfolding reduce_iter_def pipe_iter_def rs_wait_def rs_post_def Let_def sbuf_def next_rank_def prev_rank_def ctx.select_convs rs [OF i2] rs [OF i]
    by (simp add: f segmentOffset_2)
qed

section \<open>The gather\<close>

text \<open>Place and length of the chunk of a rank, and its contents in the result.\<close>

definition rd_place :: "nat \<Rightarrow> nat \<Rightarrow> nat \<Rightarrow> nat" where "rd_place q L r = r * q * L"

definition rd_len :: "nat \<Rightarrow> nat \<Rightarrow> nat \<Rightarrow> nat \<Rightarrow> nat" where "rd_len q L t r = min (q * L) (t - r * q * L)"

definition whole :: "'a ringp \<Rightarrow> 'a list" where "whole p = concat (map (full p) [0..<rp_S p])"

definition chunk :: "'a ringp \<Rightarrow> nat \<Rightarrow> 'a list" where
  "chunk p r = read_at (rd_place (rp_q p) (rp_L p) r) (rd_len (rp_q p) (rp_L p) (rp_total p) r) (whole p)"

definition rd_sources :: "nat \<Rightarrow> nat \<Rightarrow> nat \<Rightarrow> nat \<Rightarrow> nat \<Rightarrow> nat list" where
  "rd_sources n q L t root = filter (\<lambda>j. j \<noteq> root \<and> 0 < rd_len q L t j) [0..<n]"

definition rd_posts :: "64 word \<Rightarrow> nat \<Rightarrow> nat \<Rightarrow> nat \<Rightarrow> nat \<Rightarrow> nat \<Rightarrow> nat \<Rightarrow> program" where
  "rd_posts slot n q L t root r =
     (if r = root then fan_in (Out 0) slot (rd_place q L) (rd_len q L t) (rd_sources n q L t root)
      else if 0 < rd_len q L t r then [Send (Out 0) root slot (rd_place q L r) (rd_len q L t r)] else [])"

definition rd_waits :: "nat \<Rightarrow> nat \<Rightarrow> nat \<Rightarrow> nat \<Rightarrow> nat \<Rightarrow> nat \<Rightarrow> program" where
  "rd_waits n q L t root r =
     (if r = root then replicate (length (rd_sources n q L t root)) (WaitRecv (Out 0))
      else if 0 < rd_len q L t r then [WaitSend (Out 0)] else [])"

lemma pipe_one: "pipe 1 (\<lambda>_. W) (\<lambda>_. Q) = Q @ W"
  by (simp add: pipe_def pipe_iter_def upt_rec)

lemma reduce_gather_eq:
  "reduce_gather slot \<lparr>ctx_rank = r, ctx_size = n\<rparr> root t q L = rd_posts slot n q L t root r @ rd_waits n q L t root r"
proof -
  have len: "0 < min (int (q * L)) (int t - int (j * q * L)) \<longleftrightarrow> 0 < rd_len q L t j" "nat (min (int (q * L)) (int t - int (j * q * L))) = rd_len q L t j" for j
    unfolding rd_len_def by (rule signed_length)+
  have "concat (map (\<lambda>j. if j = root then [] else if 0 < rd_len q L t j then [Recv (Out 0) j slot (j * q * L) (rd_len q L t j)] else []) js) =
      fan_in (Out 0) slot (rd_place q L) (rd_len q L t) (filter (\<lambda>j. j \<noteq> root \<and> 0 < rd_len q L t j) js)" for js
    by (induction js) (auto simp: fan_in_def rd_place_def)
  then show ?thesis
    unfolding reduce_gather_def Let_def ctx.select_convs len
    by (simp add: rd_posts_def rd_waits_def rd_sources_def rd_place_def fan_in_def)
qed

lemma fan_in_posts [simp]:
  "sends j (fan_in b slot pl ln js) = []" "wsend b' (fan_in b slot pl ln js) = 0" "wrecv b' (fan_in b slot pl ln js) = 0" "sposts r (fan_in b slot pl ln js) = []"
  "pending b' (fan_in b slot pl ln js) = (0, if b = b' then int (length js) else 0)"
  by (induction js) (simp_all add: fan_in_def)

lemma set_rposts_fan_in: "set (rposts r (fan_in b slot pl ln js)) = (\<lambda>j. ((j, r, slot), (b, pl j, ln j))) ` set js"
  by (induction js) (simp_all add: fan_in_def)

lemma waits_posts [simp]:
  "sposts r (replicate m (WaitRecv b)) = []" "rposts r (replicate m (WaitRecv b)) = []" "wsend b' (replicate m (WaitRecv b)) = 0"
  "wrecv b' (replicate m (WaitRecv b)) = (if b = b' then m else 0)"
  by (induction m) simp_all

lemma rd_gather_ok:
  assumes "root < n"
  shows "pipe_ok n 1 (\<lambda>r _. rd_waits n q L t root r) (\<lambda>r _. rd_posts slot n q L t root r)"
proof -
  let ?js = "rd_sources n q L t root"
  have js: "distinct ?js" "set ?js = {j. j < n \<and> j \<noteq> root \<and> 0 < rd_len q L t j}" by (auto simp: rd_sources_def)
  have "recvs i (rd_posts slot n q L t root root) = (if i \<in> set ?js then [(slot, rd_len q L t i)] else [])" for i
    unfolding rd_posts_def fan_in_def using recvs_map [OF js(1)] by simp
  then have "well_matched n (rd_posts slot n q L t root)"
    unfolding well_matched_def using js(2) by (auto simp: rd_posts_def)
  moreover have "addressed n r (rd_posts slot n q L t root r)" if "r < n" for r
    using js(2) assms by (auto simp: addressed_def rd_posts_def set_rposts_fan_in)
  moreover have "wsend b (rd_posts slot n q L t root r) = 0" "wrecv b (rd_posts slot n q L t root r) = 0" "sends j (rd_waits n q L t root r) = []"
    "recvs j (rd_waits n q L t root r) = []" "sposts r (rd_waits n q L t root r) = []" "rposts r (rd_waits n q L t root r) = []"
    "pending b (rd_posts slot n q L t root r) = (int (wsend b (rd_waits n q L t root r)), int (wrecv b (rd_waits n q L t root r)))" for b r j
    by (simp_all add: rd_posts_def rd_waits_def)
  ultimately show ?thesis by (simp add: pipe_ok_def)
qed

text \<open>The payloads: in the ring the partial reductions, afterwards the chunk of the sender.\<close>

definition rd_table :: "'a ringp \<Rightarrow> nat \<Rightarrow> 'a list list" where
  "rd_table p r = map (\<lambda>i. partial p r (i div rp_q p) (sg p r i)) (filter (acts p r) [0..<rp_N p])"

definition rd_val :: "'a ringp \<Rightarrow> chan \<Rightarrow> nat \<Rightarrow> 'a list" where
  "rd_val p k m = (let r = chan_src k in if k = sch p r \<and> m < length (rd_table p r) then rd_table p r ! m else chunk p r)"

lemma rd_vals: "rs_vals p (rd_val p)"
  unfolding rs_vals_def
proof (intro allI impI)
  fix r i assume "i < rp_N p" "acts p r i"
  note f = filter_cnt [where P = "acts p r", OF this]
  have "chan_src (sch p r) = r" by (simp add: sch_def)
  then show "rd_val p (sch p r) (cnt (acts p r) i) = partial p r (i div rp_q p) (sg p r i)"
    using f by (simp add: rd_val_def rd_table_def)
qed

lemma rd_val_chunk: "chan_src k = r \<Longrightarrow> m = (if k = sch p r then cnt (acts p r) (rp_N p) else 0) \<Longrightarrow> rd_val p k m = chunk p r"
  by (simp add: rd_val_def rd_table_def cnt_def Let_def)

text \<open>Chunks are disjoint, cover the buffer, and consist of whole segments.\<close>

lemma rd_apart: "j \<noteq> k \<Longrightarrow> rd_place q L j + rd_len q L t j \<le> rd_place q L k \<or> rd_place q L k + rd_len q L t k \<le> rd_place q L j"
proof -
  have "rd_place q L x + rd_len q L t x \<le> rd_place q L y" if "x < y" for x y
  proof -
    have "rd_place q L x + rd_len q L t x \<le> Suc x * q * L" by (simp add: rd_place_def rd_len_def algebra_simps)
    also have "\<dots> \<le> rd_place q L y" unfolding rd_place_def using that by (intro mult_le_mono1) simp
    finally show ?thesis .
  qed
  then show "j \<noteq> k \<Longrightarrow> ?thesis" by (cases j k rule: linorder_cases) auto
qed

lemma rd_cover:
  assumes "x < t" "t \<le> n * q * L"
  shows "x div (q * L) < n" "rd_place q L (x div (q * L)) \<le> x" "x < rd_place q L (x div (q * L)) + rd_len q L t (x div (q * L))"
proof -
  have "x < n * (q * L)" using assms by (simp add: mult.assoc)
  then show "x div (q * L) < n" by (simp add: less_mult_imp_div_less)
  have pl: "rd_place q L (x div (q * L)) = x div (q * L) * (q * L)" by (simp add: rd_place_def mult.assoc)
  then show le: "rd_place q L (x div (q * L)) \<le> x" by simp
  have "0 < q * L" using \<open>x < n * (q * L)\<close> by (cases "q * L") auto
  then have "x < x div (q * L) * (q * L) + q * L" by (metis div_mult_mod_eq mod_less_divisor nat_add_left_cancel_less)
  then show "x < rd_place q L (x div (q * L)) + rd_len q L t (x div (q * L))" using assms(1) le pl by (simp add: rd_len_def rd_place_def mult.assoc)
qed

lemma whole_nth:
  assumes p: "ring_sizes p" "ring_mem p" "reducer (rp_es p) (rp_red p)" and x: "x < rp_total p"
  shows "length (whole p) = rp_total p" "whole p ! x = full p (x div rp_L p) ! (x - x div rp_L p * rp_L p)"
    "x div rp_L p * rp_L p \<le> x" "x < x div rp_L p * rp_L p + sl p (x div rp_L p)"
proof -
  note z = ring_sizesD [OF p(1)]
  have len: "length (full p g) = min (rp_L p) (rp_total p - g * rp_L p)" if "g < rp_S p" for g
  proof -
    have "g div rp_q p < rp_n p" using that by (simp add: rp_S_def less_mult_imp_div_less)
    then show ?thesis unfolding full_def using length_partial [OF p _ that] by (simp add: sl_def)
  qed
  note g = segments_nth [OF len z(8) x z(3)]
  show "length (whole p) = rp_total p" "whole p ! x = full p (x div rp_L p) ! (x - x div rp_L p * rp_L p)"
    "x div rp_L p * rp_L p \<le> x" "x < x div rp_L p * rp_L p + sl p (x div rp_L p)"
    using g unfolding whole_def sl_def by simp_all
qed

lemma own_whole:
  assumes p: "ring_sizes p" "ring_mem p" "reducer (rp_es p) (rp_red p)" and N: "rp_S p - rp_q p \<le> rp_N p" and r: "r < rp_n p"
    and st: "rs_state p r (rp_N p) (rp_N p) (rp_N p) (rp_N p) s"
    and x: "rd_place (rp_q p) (rp_L p) r \<le> x" "x < rd_place (rp_q p) (rp_L p) r + rd_len (rp_q p) (rp_L p) (rp_total p) r"
  shows "sy_mem s (Out 0) x = Some (whole p ! x)"
proof -
  let ?g = "x div rp_L p"
  have xt: "x < rp_total p" using x by (auto simp: rd_place_def rd_len_def)
  note w = whole_nth [OF p xt]
  have L: "0 < rp_L p" using ring_sizesD(3) [OF p(1)] .
  have "r * rp_q p * rp_L p \<le> x" using x(1) by (simp add: rd_place_def)
  then have lo: "r * rp_q p \<le> ?g" using L div_le_mono [of "r * rp_q p * rp_L p" x "rp_L p"] by simp
  have "x < (r * rp_q p + rp_q p) * rp_L p" using x by (auto simp: rd_place_def rd_len_def algebra_simps)
  then have hi: "?g < r * rp_q p + rp_q p" by (simp add: less_mult_imp_div_less)
  define k where "k = ?g - r * rp_q p"
  have k: "k < rp_q p" "?g = r * rp_q p + k" using lo hi by (auto simp: k_def)
  have "0 < sl p ?g" using w(3,4) by linarith
  then have "has p (sy_mem s) (Out 0) ?g (full p ?g)" using own_chunk [OF p(1) N r st k(1)] k(2) by simp
  then have "sy_mem s (Out 0) (?g * rp_L p + (x - ?g * rp_L p)) = Some (full p ?g ! (x - ?g * rp_L p))"
    using w(3,4) unfolding cells_iff by (metis less_diff_conv2 add.commute)
  then show ?thesis using w(2,3) by simp
qed

lemma chunk_nth:
  assumes "length (whole p) = rp_total p"
  shows "length (chunk p r) = rd_len (rp_q p) (rp_L p) (rp_total p) r"
    "i < rd_len (rp_q p) (rp_L p) (rp_total p) r \<Longrightarrow> chunk p r ! i = whole p ! (rd_place (rp_q p) (rp_L p) r + i)"
  using assms by (auto simp: chunk_def read_at_def rd_len_def rd_place_def)

section \<open>Correctness\<close>

lemma rd_send_run:
  assumes p: "ring_sizes p" "ring_mem p" "reducer (rp_es p) (rp_red p)" and N: "rp_S p - rp_q p \<le> rp_N p" and r: "r < rp_n p" "r \<noteq> root" "0 < rp_total p"
    and st: "rs_state p r (rp_N p) (rp_N p) (rp_N p) (rp_N p) s"
    and g: "q = rp_q p" "L = rp_L p" "t = rp_total p" "slot = rp_slot p"
  shows "\<exists>s'. ring_run p (rd_val p) r (rd_posts slot n q L t root r @ rd_waits n q L t root r) s = Some s'"
proof (cases "0 < rd_len q L t r")
  case True
  let ?k = "(r, root, slot)"
  have "sy_ns s ?k = (if ?k = sch p r then cnt (acts p r) (rp_N p) else 0)" using rs_stateD(5) [OF st] by simp
  then have v: "rd_val p ?k (sy_ns s ?k) = chunk p r" by (intro rd_val_chunk) simp_all
  note w = whole_nth(1) [OF p r(3)]
  have "cells (sy_mem s) (Out 0) (rd_place q L r) (rd_len q L t r) = map Some (chunk p r)"
    using chunk_nth(1) [OF w, of r] chunk_nth(2) [OF w, of _ r] own_whole [OF p N r(1) st] unfolding cells_iff g by simp
  then show ?thesis using True r(2) v rs_stateD(1,2) [OF st] by (simp add: rd_posts_def rd_waits_def Let_def retire_def one_chan_def)
next
  case False
  then show ?thesis using r(2) by (simp add: rd_posts_def rd_waits_def)
qed

lemma rd_root_run:
  assumes p: "ring_sizes p" "ring_mem p" "reducer (rp_es p) (rp_red p)" and N: "rp_S p - rp_q p \<le> rp_N p" and r: "root < rp_n p" "0 < rp_total p"
    and st: "rs_state p root (rp_N p) (rp_N p) (rp_N p) (rp_N p) s"
    and g: "n = rp_n p" "q = rp_q p" "L = rp_L p" "t = rp_total p" "slot = rp_slot p"
  shows "\<exists>s'. ring_run p (rd_val p) root (rd_posts slot n q L t root root @ rd_waits n q L t root root) s = Some s' \<and>
    (\<forall>x < t. sy_mem s' (Out 0) x = Some (whole p ! x))"
proof -
  let ?js = "rd_sources n q L t root" and ?pl = "rd_place q L" and ?ln = "rd_len q L t"
  have js: "distinct ?js" "set ?js = {j. j < n \<and> j \<noteq> root \<and> 0 < ?ln j}" by (auto simp: rd_sources_def)
  note w = whole_nth(1) [OF p r(2)]
  have v: "rd_val p (j, root, slot) (sy_nr s (j, root, slot)) = chunk p j" if "j < n" for j
  proof (rule rd_val_chunk)
    have "sy_nr s (j, root, slot) = (if (j, root, slot) = rch p root then cnt (actr p root) (rp_N p) else 0)" using rs_stateD(6) [OF st] by simp
    moreover have "(j, root, slot) = sch p j \<longleftrightarrow> (j, root, slot) = rch p root"
      using ranks_inverse [OF that [unfolded g] ring_sizesD(1) [OF p(1)]] ranks_inverse [OF r(1) ring_sizesD(1) [OF p(1)]] by (auto simp: sch_def rch_def g)
    moreover have "actr p root = acts p j" if "(j, root, slot) = rch p root"
      using that chan_next(2) [OF p(1) r(1)] by (simp add: rch_def)
    ultimately show "sy_nr s (j, root, slot) = (if (j, root, slot) = sch p j then cnt (acts p j) (rp_N p) else 0)" by simp
  qed simp
  have "length (rp_M p root (Out 0)) = t" using p(2) r(1) g(4) by (simp add: ring_mem_def)
  moreover have "?pl j + ?ln j \<le> t" if "0 < ?ln j" for j using that by (auto simp: rd_place_def rd_len_def)
  ultimately have post: "\<forall>j \<in> set ?js. length (rd_val p (j, root, slot) (sy_nr s (j, root, slot))) = ?ln j \<and> ?pl j + ?ln j \<le> length (rp_M p root (Out 0)) \<and>
      apart (?pl j) (?ln j) (sy_snd s (Out 0))"
    using v chunk_nth(1) [OF w] rs_stateD(1) [OF st, of "Out 0"] js(2) g by (simp add: apart_def)
  have free: "\<forall>j \<in> set ?js. \<forall>k \<in> set ?js. j \<noteq> k \<longrightarrow> ?pl j + ?ln j \<le> ?pl k \<or> ?pl k + ?ln k \<le> ?pl j" using rd_apart by blast
  have "\<forall>j \<in> set ?js. \<forall>i < ?ln j. rd_val p (j, root, slot) (sy_nr s (j, root, slot)) ! i = whole p ! (?pl j + i)"
    using v chunk_nth(2) [OF w] js(2) g by simp
  from fan_in_waits [where len = "\<lambda>b. length (rp_M p root b)" and val = "rd_val p" and pl = ?pl and ln = ?ln and s = s and red = "rp_red p" and es = "rp_es p" and b = "Out 0" and w = "whole p",
      OF js(1) post free _ _ this]
  obtain s' where s': "ring_run p (rd_val p) root (rd_posts slot n q L t root root @ rd_waits n q L t root root) s = Some s'"
    "\<And>x. sy_mem s' (Out 0) x = (if \<exists>j \<in> set ?js. ?pl j \<le> x \<and> x < ?pl j + ?ln j then Some (whole p ! x) else sy_mem s (Out 0) x)"
    using rs_stateD(3,4) [OF st] by (auto simp: rd_posts_def rd_waits_def)
  have "sy_mem s' (Out 0) x = Some (whole p ! x)" if x: "x < t" for x
  proof (cases "\<exists>j \<in> set ?js. ?pl j \<le> x \<and> x < ?pl j + ?ln j")
    case False
    have "t \<le> n * q * L" using ring_sizesD(8) [OF p(1)] by (simp add: g rp_S_def)
    note c = rd_cover [OF x this]
    then have "0 < ?ln (x div (q * L))" by linarith
    with c False js(2) have "x div (q * L) = root" by blast
    with c(2,3) own_whole [OF p N r(1) st, of x] s'(2) [of x] False show ?thesis by (simp add: g)
  qed (simp add: s'(2))
  with s'(1) show ?thesis by blast
qed

lemma rd_machine_correct:
  assumes p: "ring_sizes p" "ring_mem p" "reducer (rp_es p) (rp_red p)" and N: "rp_S p - rp_q p \<le> rp_N p" and root: "root < rp_n p" and t: "0 < rp_total p"
    and prep: "\<And>off l. rp_prep p off l = []" and ok: "\<And>r. prep_ok p (rd_val p) r"
    and P: "\<forall>r < rp_n p. P r = pipe (rp_N p) (rs_wait p r) (rs_post p r) @
      rd_posts (rp_slot p) (rp_n p) (rp_q p) (rp_L p) (rp_total p) root r @ rd_waits (rp_n p) (rp_q p) (rp_L p) (rp_total p) root r"
  shows "always_ends (rp_n p) P" "always_computes (rp_red p) (rp_n p) P (rp_M p) root (Out 0) (whole p)"
proof -
  let ?W = "\<lambda>r (_ :: nat). rd_waits (rp_n p) (rp_q p) (rp_L p) (rp_total p) root r" and ?Q = "\<lambda>r (_ :: nat). rd_posts (rp_slot p) (rp_n p) (rp_q p) (rp_L p) (rp_total p) root r"
  let ?A = "\<lambda>r. pipe_iter (rp_N p) (rs_wait p r) (rs_post p r)" and ?B = "\<lambda>r. pipe_iter 1 (?W r) (?Q r)"
  have lp: "local_only (rp_prep p off l)" for off l by (simp add: prep local_only_def)
  note A = pipe_rounds [OF rs_pipe_ok [OF p(1) lp]] and B = pipe_rounds [OF rd_gather_ok [OF root]]
  have "rounds_ok (rp_n p) (rp_N p + 2 + (1 + 2)) (seq_rounds (rp_N p + 2) ?A ?B)"
    by (rule rounds_ok_seq [OF A(1) B(1)]) (unfold A(2), use A(3) in blast)
  moreover have "\<forall>r < rp_n p. P r = rounds (seq_rounds (rp_N p + 2) ?A ?B) (rp_N p + 2 + (1 + 2)) r"
    unfolding rounds_seq A(2) B(2) pipe_one by (rule P)
  ultimately show "always_ends (rp_n p) P" by (rule always_endsI)
  have ring: "\<exists>s. ring_run p (rd_val p) r (pipe (rp_N p) (rs_wait p r) (rs_post p r)) (sym_init (rp_M p r)) = Some s \<and>
      rs_state p r (rp_N p) (rp_N p) (rp_N p) (rp_N p) s" if r: "r < rp_n p" for r
    using rs_loop [OF p r ok rd_vals rs_state_init [OF p(1,2) r]] .
  have run: "ring_run p (rd_val p) r (P r) (sym_init (rp_M p r)) \<noteq> None" if r: "r < rp_n p" for r
    using ring [OF r] rd_send_run [OF p N r _ t _ refl refl refl refl] rd_root_run [OF p N root t _ refl refl refl refl refl] P r
    by (cases "r = root") (fastforce simp: sym_run_append)+
  from ring [OF root] rd_root_run [OF p N root t _ refl refl refl refl refl] P root
  obtain s where s: "ring_run p (rd_val p) root (P root) (sym_init (rp_M p root)) = Some s" "\<forall>x < rp_total p. sy_mem s (Out 0) x = Some (whole p ! x)"
    by (fastforce simp: sym_run_append)
  have "length (rp_M p root (Out 0)) = rp_total p" using p(2) root by (simp add: ring_mem_def)
  then show "always_computes (rp_red p) (rp_n p) P (rp_M p) root (Out 0) (whole p)"
    using run s(2) whole_nth(1) [OF p t] by (intro always_computesI [where M = "rp_M p" and P = P, OF p(3) root _ s(1)]) auto
qed

lemma rd_result:
  assumes p: "ring_sizes p" and pp: "p = rd_params red n S L t es slot nin M" and S: "rp_S p = S" and nin: "nin \<le> 1"
  shows "whole p = ring_result red n S L t es (contribution_of red es L t nin 1 M)"
  unfolding ring_result_def whole_def S
proof (intro arg_cong [of _ _ concat] map_cong refl)
  note f = rd_simps [OF pp]
  fix g assume "g \<in> set [0..<S]"
  then have g: "g div rp_q p < rp_n p" using S by (auto simp: rp_S_def less_mult_imp_div_less)
  have "local_sources nin 1 = [rd_in nin]" using nin by (cases nin) (simp_all add: local_sources_def rd_in_def)
  then have "rp_loc p r g = contribution_of red es L t nin 1 M r g" for r by (simp add: f contribution_of_def local_reduction_def)
  moreover have "0 < n" using ring_sizesD(1) [OF p] f(1) by simp
  ultimately show "full p g = ring_fold red (ar_len L t g div es) (map (\<lambda>k. contribution_of red es L t nin 1 M ((g div (S div n) + k) mod n) g) [0..<n])"
    using partial_fold [OF g, of "n - 1" g] unfolding full_def f by simp
qed

lemma reduce_main:
  fixes M :: "nat \<Rightarrow> 'a mem"
  assumes n: "1 < n" "root < n" and es: "0 < es" "es \<le> mss" and el: "0 < elements"
    and fits: "5 * (elements * es) + 9 * n * es < u64_range"
    and pairs: "\<forall>r < n. \<forall>j < n. j \<noteq> r \<longrightarrow> pairs r j" and red: "reducer es red"
    and L: "L = reduce_segmentBytes (elements * es) n es mss" and S: "S = reduce_numSegments (elements * es) L n"
    and nin: "nin \<le> 1" "insize = (if nin = 0 then None else Some (elements * es))"
    and M: "\<forall>r < n. length (M r (Out 0)) = elements * es \<and> length (M r (rd_in nin)) = elements * es \<and> length (M r Tmp) = 2 * L"
  shows "\<exists>P. (\<forall>r < n. reduce (pairs r) True root elements es mss tag insize (elements * es) \<lparr>ctx_rank = r, ctx_size = n\<rparr> = Inr (P r)) \<and>
    always_ends n P \<and> always_computes red n P M root (Out 0) (ring_result red n S L (elements * es) es (contribution_of red es L (elements * es) nin 1 M))"
proof -
  let ?t = "elements * es" and ?slot = "slot_of kReduceSlotPrefix tag"
  define p where "p = rd_params red n S L ?t es ?slot nin M"
  note f = rd_simps [OF p_def]
  have n0: "0 < n" and t0: "0 < ?t" using n(1) es(1) el by simp_all
  note geo = reduce_geometry [OF n0 es t0 fits L S]
  have "es dvd ?t" by simp
  note ring = rd_ring [OF n(1) es(1) geo(1-3) this geo(4,6) M p_def]
  define P where "P = (\<lambda>r. pipe (rp_N p) (rs_wait p r) (rs_post p r) @ rd_posts ?slot n (S div n) L ?t root r @ rd_waits n (S div n) L ?t root r)"
  have S2: "S - 2 + 2 = S" using geo(2) n(1) by linarith
  have prog: "reduce (pairs r) True root elements es mss tag insize ?t \<lparr>ctx_rank = r, ctx_size = n\<rparr> = Inr (P r)" if r: "r < n" for r
  proof -
    have "concat (map (reduce_iter ?slot \<lparr>ctx_rank = r, ctx_size = n\<rparr> (rd_in nin) es L S (S div n) (computeReduceScatterOffsets r (S div n) S L ?t)) [0..<S]) =
        pipe (rp_N p) (rs_wait p r) (rs_post p r)"
      unfolding pipe_def f(3) S2 using rd_iterations [OF geo(1,2) n(1) geo(5) r _ p_def] by (intro arg_cong [of _ _ concat] map_cong) auto
    moreover have "u64_mul elements es = ?t" using fits by (intro u64_mul_exact) linarith
    moreover have "(n + r + 1) mod n < n" "(n + r - 1) mod n < n" "(n + r + 1) mod n \<noteq> r" "(n + r - 1) mod n \<noteq> r" using r n(1) by (auto simp: mod_if)
    then have "pairs r ((n + r + 1) mod n)" "pairs r ((n + r - 1) mod n)" using pairs r by blast+
    moreover have "S mod n = 0" "n * 2 \<le> S" "L \<noteq> 0" using geo(1,2,6) by auto
    moreover have "(case insize of None \<Rightarrow> Out 0 | Some _ \<Rightarrow> In 0) = rd_in nin" "(case insize of None \<Rightarrow> ?t | Some isize \<Rightarrow> isize) = ?t"
      using nin(2) by (simp_all add: rd_in_def)
    ultimately show ?thesis using es(1) el n by (simp add: reduce_def Let_def P_def L [symmetric] S [symmetric] reduce_gather_eq)
  qed
  have red': "reducer (rp_es p) (rp_red p)" using red by (simp add: f)
  have N: "rp_S p - rp_q p \<le> rp_N p" using ring(3,4) by (simp add: f)
  have root: "root < rp_n p" "0 < rp_total p" using n(2) t0 by (simp_all add: f)
  have "\<forall>r < rp_n p. P r = pipe (rp_N p) (rs_wait p r) (rs_post p r) @
      rd_posts (rp_slot p) (rp_n p) (rp_q p) (rp_L p) (rp_total p) root r @ rd_waits (rp_n p) (rp_q p) (rp_L p) (rp_total p) root r"
    by (simp add: P_def f)
  note correct = rd_machine_correct [OF ring(1,2) red' N root f(9) rd_prep_ok [OF p_def] this]
  have "always_ends n P" "always_computes red n P M root (Out 0) (ring_result red n S L ?t es (contribution_of red es L ?t nin 1 M))"
    using correct rd_result [OF ring(1) p_def ring(3) nin(1)] by (simp_all add: f)
  with prog show ?thesis by blast
qed



section \<open>An element larger than the limit\<close>

text \<open>
  C36: A limit below the size of one element makes \<open>reduce\<close> divide by zero: all checks pass, and the number
  of segments is computed with a segment size of zero.
\<close>

theorem reduce_divides_by_zero:
  assumes "0 < elements" "mss < es" "1 < ctx_size c" "ctx_rank c < ctx_size c" "root < ctx_size c" "elements * es < u64_range"
    and "\<forall>j < ctx_size c. j \<noteq> ctx_rank c \<longrightarrow> pairs j"
  shows "reduce pairs True root elements es mss tag None (elements * es) c = Inl UndefinedBehavior"
proof -
  have "0 < es" using assms(2) by simp
  have "mss div es = 0" using assms(2) by simp
  then have "reduce_segmentBytes t n es mss = 0" for t n by (simp add: reduce_segmentBytes_def roundUp_def Let_def)
  moreover have p: "x mod ctx_size c = ctx_rank c \<or> pairs (x mod ctx_size c)" for x
  proof -
    have "x mod ctx_size c < ctx_size c" using assms(3) by (intro mod_less_divisor) simp
    then show ?thesis using assms(7) by blast
  qed
  ultimately show ?thesis
    using assms \<open>0 < es\<close> p [of "ctx_size c + ctx_rank c + 1"] p [of "ctx_size c + ctx_rank c - 1"]
    unfolding reduce_def Let_def by (simp add: u64_mul_exact enforce_def)
qed

theorem reduce_divides_by_zero_witness:
  "reduce (\<lambda>_. True) True 0 4 8 4 7 None (4 * 8) \<lparr>ctx_rank = 0, ctx_size = 2\<rparr> = Inl UndefinedBehavior"
  by (rule reduce_divides_by_zero) simp_all

end
