(* ===== verification/Gloo_Buffers.thy ===== *)
theory Gloo_Buffers
  imports Gloo_Pair
begin

text \<open>
  The buffers of the TCP transport: \<open>gloo/transport/tcp/unbound_buffer.cc\<close> and
  \<open>gloo/transport/tcp/buffer.cc\<close>. The transport counts completed operations in them, and the user
  waits for the counts. A wait on a condition variable is modelled by its outcome in a given state:
  it blocks, throws, times out, or returns.
\<close>

datatype 'a wait = Blocks | Throws gloo_error | TimesOut | Returns 'a

section \<open>Unbound buffers\<close>

record UnboundBuffer =
  ub_size :: nat
  ub_recvCompletions :: int
  ub_recvRank :: int
  ub_sendCompletions :: int
  ub_sendRank :: int
  ub_abortWaitRecv :: bool
  ub_abortWaitSend :: bool
  ub_ex :: "gloo_error option"

definition UnboundBuffer_new :: "nat \<Rightarrow> UnboundBuffer" where
  "UnboundBuffer_new sz = \<lparr>ub_size = sz, ub_recvCompletions = 0, ub_recvRank = -1, ub_sendCompletions = 0, ub_sendRank = -1,
     ub_abortWaitRecv = False, ub_abortWaitSend = False, ub_ex = None\<rparr>"

definition ub_handleRecvCompletion :: "rank_t \<Rightarrow> UnboundBuffer \<Rightarrow> UnboundBuffer" where
  "ub_handleRecvCompletion rank u = u\<lparr>ub_recvCompletions := ub_recvCompletions u + 1, ub_recvRank := int rank\<rparr>"

definition ub_handleSendCompletion :: "rank_t \<Rightarrow> UnboundBuffer \<Rightarrow> UnboundBuffer" where
  "ub_handleSendCompletion rank u = u\<lparr>ub_sendCompletions := ub_sendCompletions u + 1, ub_sendRank := int rank\<rparr>"

definition abortWaitRecv :: "UnboundBuffer \<Rightarrow> UnboundBuffer" where
  "abortWaitRecv u = u\<lparr>ub_abortWaitRecv := True\<rparr>"

definition abortWaitSend :: "UnboundBuffer \<Rightarrow> UnboundBuffer" where
  "abortWaitSend u = u\<lparr>ub_abortWaitSend := True\<rparr>"

definition ub_signalException :: "gloo_error \<Rightarrow> UnboundBuffer \<Rightarrow> UnboundBuffer" where
  "ub_signalException e u = u\<lparr>ub_ex := Some e\<rparr>"

text \<open>
  \<open>waitRecv\<close> returns whether the operation completed and the rank; \<open>elapsed\<close> says that the timeout has
  passed. The predicate of the condition variable, which throws a stored exception, is only evaluated
  when no completion is counted. On a timeout the caller signals all pairs of the context and throws.
\<close>

definition ub_waitRecv :: "bool \<Rightarrow> UnboundBuffer \<Rightarrow> (bool \<times> int option \<times> UnboundBuffer) wait" where
  "ub_waitRecv elapsed u =
     (let after = (if ub_abortWaitRecv u then Returns (False, None, u\<lparr>ub_abortWaitRecv := False\<rparr>)
                   else Returns (True, Some (ub_recvRank u), u\<lparr>ub_recvCompletions := ub_recvCompletions u - 1\<rparr>))
      in if ub_recvCompletions u = 0
         then (case ub_ex u of Some e \<Rightarrow> Throws e
               | None \<Rightarrow> if ub_abortWaitRecv u \<or> ub_recvCompletions u > 0 then after
                         else if elapsed then TimesOut else Blocks)
         else after)"

definition ub_waitSend :: "bool \<Rightarrow> UnboundBuffer \<Rightarrow> (bool \<times> int option \<times> UnboundBuffer) wait" where
  "ub_waitSend elapsed u =
     (let after = (if ub_abortWaitSend u then Returns (False, None, u\<lparr>ub_abortWaitSend := False\<rparr>)
                   else Returns (True, Some (ub_sendRank u), u\<lparr>ub_sendCompletions := ub_sendCompletions u - 1\<rparr>))
      in if ub_sendCompletions u = 0
         then (case ub_ex u of Some e \<Rightarrow> Throws e
               | None \<Rightarrow> if ub_abortWaitSend u \<or> ub_sendCompletions u > 0 then after
                         else if elapsed then TimesOut else Blocks)
         else after)"

text \<open>The default byte count, for \<open>send\<close> and \<open>recv\<close> from one rank and for \<open>recv\<close> from any of several ranks.\<close>

definition kUnspecifiedByteCount :: nat where
  "kUnspecifiedByteCount = u64_range - 1"

definition ub_byteCount :: "nat \<Rightarrow> nat \<Rightarrow> nat \<Rightarrow> nat result" where
  "ub_byteCount sz offset nbytes =
     (if nbytes = kUnspecifiedByteCount then enforce (offset \<le> sz) (Inr (sz - offset)) else Inr nbytes)"

definition ub_byteCount_any :: "nat \<Rightarrow> nat \<Rightarrow> nat \<Rightarrow> nat result" where
  "ub_byteCount_any sz offset nbytes =
     (if nbytes = kUnspecifiedByteCount then enforce (offset < sz) (Inr (sz - offset)) else Inr nbytes)"

text \<open>
  \<open>send\<close> and \<open>recv\<close> on the pair of the other rank, and \<open>recv\<close> from several ranks: the pairs are looked up
  in the context; a missing pair is dereferenced without a check.
\<close>

definition UnboundBuffer_send :: "bool \<times> bool \<Rightarrow> nat \<Rightarrow> UnboundBuffer \<Rightarrow> rank_t \<Rightarrow> slot_t \<Rightarrow> nat \<Rightarrow> nat \<Rightarrow>
    Context \<times> (rank_t \<rightharpoonup> Pair) \<Rightarrow> (Context \<times> (rank_t \<rightharpoonup> Pair)) result" where
  "UnboundBuffer_send ws buf u dstRank slot offset nbytes cps =
     rbind (ub_byteCount (ub_size u) offset nbytes)
       (\<lambda>nbytes. case snd cps dstRank of None \<Rightarrow> Inl UndefinedBehavior
         | Some p \<Rightarrow> rbind (Pair_send ws buf (ub_size u) slot offset nbytes (fst cps, p))
             (\<lambda>(ctx, p). Inr (ctx, (snd cps)(dstRank \<mapsto> p))))"

definition UnboundBuffer_recv :: "bool \<Rightarrow> nat \<Rightarrow> UnboundBuffer \<Rightarrow> rank_t \<Rightarrow> slot_t \<Rightarrow> nat \<Rightarrow> nat \<Rightarrow>
    Context \<times> (rank_t \<rightharpoonup> Pair) \<Rightarrow> (Context \<times> (rank_t \<rightharpoonup> Pair)) result" where
  "UnboundBuffer_recv w buf u srcRank slot offset nbytes cps =
     rbind (ub_byteCount (ub_size u) offset nbytes)
       (\<lambda>nbytes. case snd cps srcRank of None \<Rightarrow> Inl UndefinedBehavior
         | Some p \<Rightarrow> rbind (Pair_recv w buf (ub_size u) slot offset nbytes (fst cps, p))
             (\<lambda>(ctx, p). Inr (ctx, (snd cps)(srcRank \<mapsto> p))))"

text \<open>
  \<open>Context::recvFromAny\<close> loops until the buffer is registered or a receive from a candidate succeeded;
  between the two calls of an iteration other threads may take the candidate's send. Here they do not,
  and the list gives the outcomes of the writes of the iterations; \<open>None\<close> says that it ran out.
\<close>

fun recvFromAny :: "bool list \<Rightarrow> nat \<Rightarrow> nat \<Rightarrow> slot_t \<Rightarrow> nat \<Rightarrow> nat \<Rightarrow> rank_t list \<Rightarrow>
    Context \<times> (rank_t \<rightharpoonup> Pair) \<Rightarrow> (Context \<times> (rank_t \<rightharpoonup> Pair)) result option" where
  "recvFromAny ws buf tsize slot offset nbytes srcRanks cps =
     (case recvFromAnyFindRank \<lparr>uo_buf = buf, uo_offset = offset, uo_nbytes = nbytes\<rparr> slot srcRanks (fst cps) of
        (None, ctx) \<Rightarrow> Some (Inr (ctx, snd cps))
      | (Some rank, ctx) \<Rightarrow>
          (case snd cps rank of None \<Rightarrow> Some (Inl EnforceNotMet)
           | Some p \<Rightarrow>
               (case ws of [] \<Rightarrow> None
                | w # ws' \<Rightarrow>
                    (case Pair_tryRecv w buf tsize slot offset nbytes (ctx, p) of
                       Inl e \<Rightarrow> Some (Inl e)
                     | Inr (True, ctx, p) \<Rightarrow> Some (Inr (ctx, (snd cps)(rank \<mapsto> p)))
                     | Inr (False, ctx, p) \<Rightarrow> recvFromAny ws' buf tsize slot offset nbytes srcRanks (ctx, (snd cps)(rank \<mapsto> p))))))"

declare recvFromAny.simps [simp del]

definition UnboundBuffer_recvAny :: "bool list \<Rightarrow> nat \<Rightarrow> UnboundBuffer \<Rightarrow> rank_t list \<Rightarrow> slot_t \<Rightarrow> nat \<Rightarrow> nat \<Rightarrow>
    Context \<times> (rank_t \<rightharpoonup> Pair) \<Rightarrow> (Context \<times> (rank_t \<rightharpoonup> Pair)) result option" where
  "UnboundBuffer_recvAny ws buf u srcRanks slot offset nbytes cps =
     (case ub_byteCount_any (ub_size u) offset nbytes of Inl e \<Rightarrow> Some (Inl e)
      | Inr nbytes \<Rightarrow> recvFromAny ws buf (ub_size u) slot offset nbytes srcRanks cps)"

section \<open>Bound buffers\<close>

record Buffer =
  b_slot :: "32 word"
  b_size :: nat
  b_recvCompletions :: int
  b_sendCompletions :: int
  b_sendPending :: int
  b_ex :: "gloo_error option"

definition Buffer_new :: "32 word \<Rightarrow> nat \<Rightarrow> Buffer" where
  "Buffer_new slot sz = \<lparr>b_slot = slot, b_size = sz, b_recvCompletions = 0, b_sendCompletions = 0, b_sendPending = 0, b_ex = None\<rparr>"

definition b_handleRecvCompletion :: "Buffer \<Rightarrow> Buffer" where
  "b_handleRecvCompletion b = b\<lparr>b_recvCompletions := b_recvCompletions b + 1\<rparr>"

definition b_handleSendCompletion :: "Buffer \<Rightarrow> Buffer" where
  "b_handleSendCompletion b = b\<lparr>b_sendCompletions := b_sendCompletions b + 1, b_sendPending := b_sendPending b - 1\<rparr>"

definition b_signalException :: "gloo_error \<Rightarrow> Buffer \<Rightarrow> Buffer" where
  "b_signalException e b = b\<lparr>b_ex := Some e\<rparr>"

text \<open>
  \<open>waitRecv\<close> and \<open>waitSend\<close>; \<open>elapsed\<close> is \<open>None\<close> when no timeout is set. In synchronous mode \<open>waitRecv\<close> reads
  from the socket until a completion is counted, which here is the outcome \<open>Blocks\<close> while there is none.
\<close>

definition b_waitRecv :: "bool \<Rightarrow> bool option \<Rightarrow> Buffer \<Rightarrow> Buffer wait" where
  "b_waitRecv sync elapsed b =
     (let after = b\<lparr>b_recvCompletions := b_recvCompletions b - 1\<rparr>
      in if sync then (if b_recvCompletions b = 0 then Blocks else Returns after)
         else case b_ex b of Some e \<Rightarrow> Throws e
              | None \<Rightarrow> if b_recvCompletions b > 0 then Returns after
                        else if elapsed = Some True then TimesOut else Blocks)"

definition b_waitSend :: "bool \<Rightarrow> bool option \<Rightarrow> Buffer \<Rightarrow> Buffer wait" where
  "b_waitSend sync elapsed b =
     (let after = b\<lparr>b_sendCompletions := b_sendCompletions b - 1\<rparr>
      in if sync then (if 1 \<ge> b_sendCompletions b then Returns after else Throws EnforceNotMet)
         else if b_sendCompletions b = 0
              then (if b_sendPending b > 0
                    then (case b_ex b of Some e \<Rightarrow> Throws e
                          | None \<Rightarrow> if elapsed = Some True then TimesOut else Blocks)
                    else Throws EnforceNotMet)
              else Returns after)"

text \<open>The operation that \<open>Buffer::send\<close> hands to the pair.\<close>

definition Buffer_send :: "nat \<Rightarrow> nat \<Rightarrow> nat \<Rightarrow> nat \<Rightarrow> Buffer \<Rightarrow> (Op \<times> Buffer) result" where
  "Buffer_send buf offset len roffset b =
     enforce (u64_add offset len \<le> b_size b)
       (Inr (Op_new\<lparr>pre_nbytes := u64_add preamble_size len, pre_opcode := SEND_BUFFER, pre_slot := scast (b_slot b),
                    pre_offset := offset, pre_length := len, pre_roffset := roffset, op_buf := Some buf\<rparr>,
             b\<lparr>b_sendPending := b_sendPending b + 1\<rparr>))"

section \<open>Counting\<close>

text \<open>What happens to a buffer: completions by the transport, aborts, errors, and waits of the user.\<close>

datatype ub_event = RecvDone rank_t | SendDone rank_t | AbortRecv | AbortSend | Signal gloo_error | WaitR bool | WaitS bool

fun ub_do :: "ub_event \<Rightarrow> UnboundBuffer \<Rightarrow> UnboundBuffer option" where
  "ub_do (RecvDone r) u = Some (ub_handleRecvCompletion r u)"
| "ub_do (SendDone r) u = Some (ub_handleSendCompletion r u)"
| "ub_do AbortRecv u = Some (abortWaitRecv u)"
| "ub_do AbortSend u = Some (abortWaitSend u)"
| "ub_do (Signal e) u = Some (ub_signalException e u)"
| "ub_do (WaitR elapsed) u = (case ub_waitRecv elapsed u of Returns (_, _, u') \<Rightarrow> Some u' | _ \<Rightarrow> None)"
| "ub_do (WaitS elapsed) u = (case ub_waitSend elapsed u of Returns (_, _, u') \<Rightarrow> Some u' | _ \<Rightarrow> None)"

fun ub_run :: "ub_event list \<Rightarrow> UnboundBuffer \<Rightarrow> UnboundBuffer option" where
  "ub_run [] u = Some u"
| "ub_run (e # es) u = Option.bind (ub_do e u) (ub_run es)"

text \<open>The successful receives and sends among the waits of a run.\<close>

fun ub_won :: "ub_event list \<Rightarrow> UnboundBuffer \<Rightarrow> nat \<times> nat" where
  "ub_won [] u = (0, 0)"
| "ub_won (e # es) u =
     (case ub_do e u of None \<Rightarrow> (0, 0) | Some u' \<Rightarrow>
        let (r, s) = ub_won es u'
        in case e of WaitR _ \<Rightarrow> ((if ub_abortWaitRecv u then r else Suc r), s)
           | WaitS _ \<Rightarrow> (r, if ub_abortWaitSend u then s else Suc s) | _ \<Rightarrow> (r, s))"

definition is_recv_done :: "ub_event \<Rightarrow> bool" where "is_recv_done e \<longleftrightarrow> (\<exists>r. e = RecvDone r)"
definition is_send_done :: "ub_event \<Rightarrow> bool" where "is_send_done e \<longleftrightarrow> (\<exists>r. e = SendDone r)"

definition ub_ok :: "UnboundBuffer \<Rightarrow> bool" where
  "ub_ok u \<longleftrightarrow> 0 \<le> ub_recvCompletions u \<and> 0 \<le> ub_sendCompletions u"

lemmas ub_defs = ub_handleRecvCompletion_def ub_handleSendCompletion_def abortWaitRecv_def abortWaitSend_def ub_signalException_def
  ub_waitRecv_def ub_waitSend_def Let_def

lemma ub_do_count:
  assumes "ub_ok u" "ub_do e u = Some u'"
  shows "ub_ok u'"
    "ub_recvCompletions u' = ub_recvCompletions u + (if is_recv_done e then 1 else 0) - (case e of WaitR _ \<Rightarrow> (if ub_abortWaitRecv u then 0 else 1) | _ \<Rightarrow> 0)"
    "ub_sendCompletions u' = ub_sendCompletions u + (if is_send_done e then 1 else 0) - (case e of WaitS _ \<Rightarrow> (if ub_abortWaitSend u then 0 else 1) | _ \<Rightarrow> 0)"
  using assms by (cases e; auto simp: ub_defs ub_ok_def is_recv_done_def is_send_done_def split: if_splits option.splits)+

lemma ub_run_count:
  assumes "ub_ok u" "ub_run es u = Some u'"
  shows "ub_ok u' \<and> ub_recvCompletions u' + int (fst (ub_won es u)) = ub_recvCompletions u + int (length (filter is_recv_done es)) \<and>
    ub_sendCompletions u' + int (snd (ub_won es u)) = ub_sendCompletions u + int (length (filter is_send_done es))"
  using assms
proof (induction es arbitrary: u)
  case (Cons e es)
  then obtain v where v: "ub_do e u = Some v" "ub_run es v = Some u'" by (auto simp: bind_eq_Some_conv)
  note c = ub_do_count [OF Cons.prems(1) v(1)]
  from Cons.IH [OF c(1) v(2)] c(2,3) v(1) show ?case
    by (cases e) (auto simp: is_recv_done_def is_send_done_def split: prod.splits if_splits)
qed simp



text \<open>
  The check of \<open>waitSend\<close> in synchronous mode has its operands exchanged. A wait without any completed
  send succeeds and leaves a negative count, and a wait with two completed sends fails.
\<close>

theorem sync_waitSend_check:
  "b_waitSend True el (Buffer_new slot sz) = Returns ((Buffer_new slot sz)\<lparr>b_sendCompletions := -1\<rparr>) \<and>
   b_waitSend True el (b_handleSendCompletion (b_handleSendCompletion (Buffer_new slot sz))) = Throws EnforceNotMet"
  by (simp add: b_waitSend_def b_handleSendCompletion_def Buffer_new_def)

end
