(* ===== verification/Gloo_Wire.thy ===== *)
theory Gloo_Wire
  imports Gloo_Buffers Gloo_Packet
begin

text \<open>
  The pair of \<open>gloo/transport/tcp/pair.cc\<close> at the level of bytes: the preamble of an operation, the
  system calls that write and read parts of it, the dispatch of complete operations, the life cycle of
  the connection and the propagation of errors. The handlers of the notifications are those of
  \<open>Gloo_Pair\<close>. What the operating system does is an argument: the list of the outcomes of the successive
  calls. A function that runs out of outcomes is still in its loop; its value is \<open>None\<close>.
\<close>

section \<open>State\<close>

text \<open>
  The operation being received: the bytes of the preamble that have arrived, the number of bytes read,
  and the target once it is known, a bound buffer or a region of an unbound one.
\<close>

record Rx =
  rx_pre :: bytes
  rx_nread :: nat
  rx_buf :: "nat option"
  rx_ubuf :: "UnboundBufferOp option"

definition Rx_new :: Rx where
  "Rx_new = \<lparr>rx_pre = [], rx_nread = 0, rx_buf = None, rx_ubuf = None\<rparr>"

text \<open>
  A process, seen from one pair: the pair with its transmit queue \<open>p_tx\<close>, the fields of the class that
  concern the socket, the buffers with their memory, and the two directions of the socket.
\<close>

record Proc =
  pc_pair :: Pair
  pc_ctx :: Context
  pc_busyPoll :: bool
  pc_fd :: "nat option"
  pc_epoll :: "bool option" \<comment> \<open>registered with the loop; \<open>Some True\<close>: also for writability\<close>
  pc_rx :: Rx
  pc_buffers :: "32 word \<rightharpoonup> nat"
  pc_bufs :: "nat \<Rightarrow> Buffer"
  pc_ubufs :: "nat \<rightharpoonup> UnboundBuffer"
  pc_bmem :: "nat \<Rightarrow> bytes"
  pc_umem :: "nat \<Rightarrow> bytes"
  pc_sent :: bytes
  pc_in :: bytes

abbreviation set_pair :: "(Pair \<Rightarrow> Pair) \<Rightarrow> Proc \<Rightarrow> Proc" where
  "set_pair f pc \<equiv> pc\<lparr>pc_pair := f (pc_pair pc)\<rparr>"

text \<open>The loop refuses an invalid descriptor.\<close>

definition registerDescriptor :: "bool \<Rightarrow> Proc \<Rightarrow> Proc result" where
  "registerDescriptor out pc = enforce (pc_fd pc \<noteq> None) (Inr (pc\<lparr>pc_epoll := Some out\<rparr>))"

section \<open>Life cycle and errors\<close>

definition changeState :: "pair_state \<Rightarrow> Proc \<Rightarrow> Proc" where
  "changeState nextState pc =
     (let pc = (if nextState = CLOSED
                then (case p_state (pc_pair pc) of
                        INITIALIZING \<Rightarrow> pc
                      | CONNECTING \<Rightarrow> if pc_fd pc \<noteq> None then pc\<lparr>pc_epoll := None, pc_fd := None\<rparr> else pc
                      | CONNECTED \<Rightarrow> (if \<not> p_sync (pc_pair pc) then pc\<lparr>pc_epoll := None, pc_fd := None\<rparr> else pc\<lparr>pc_fd := None\<rparr>)
                      | CLOSED \<Rightarrow> pc)
                else pc)
      in set_pair (p_state_update (\<lambda>_. nextState)) pc)"

text \<open>The unbound buffers of the queues of pending operations, which are told about an error.\<close>

definition pending_bufs :: "(slot_t \<rightharpoonup> UnboundBufferOp list) \<Rightarrow> nat set" where
  "pending_bufs m = {uo_buf x | x s q. m s = Some q \<and> x \<in> set q}"

definition signalException :: "gloo_error \<Rightarrow> Proc \<Rightarrow> Proc result" where
  "signalException e pc =
     (let p = pc_pair pc;
          posted = {b. \<exists>op \<in> set (p_tx p). op_buf op = Some b};
          told = (\<lambda>b. b \<in> ran (pc_buffers pc) \<or> b \<in> posted);
          pending = (\<lambda>b. b \<in> pending_bufs (localPendingSend p) \<or> b \<in> pending_bufs (localPendingRecv p))
      in enforce (p_ex p = None)
           (Inr (changeState CLOSED
             (pc\<lparr>pc_bufs := (\<lambda>b. if told b then b_signalException e (pc_bufs pc b) else pc_bufs pc b),
                 pc_ubufs := (\<lambda>b. if pending b then map_option (ub_signalException e) (pc_ubufs pc b) else pc_ubufs pc b),
                 pc_pair := p\<lparr>p_ex := Some e\<rparr>\<rparr>))))"

definition signalExceptionExternal :: "Proc \<Rightarrow> Proc result" where
  "signalExceptionExternal pc = (if p_ex (pc_pair pc) = None then signalException IoException pc else Inr pc)"

definition Pair_close :: "Proc \<Rightarrow> Proc" where
  "Pair_close pc = (if p_state (pc_pair pc) \<noteq> CLOSED then changeState CLOSED pc else pc)"

text \<open>
  \<open>connect\<close> hands the addresses to the device and waits; the device calls \<open>connectCallback\<close> with a socket
  or an error. The wait ends when the pair is connected or closed, with the stored exception, or with
  a timeout.
\<close>

definition connect :: "Proc \<Rightarrow> Proc result" where
  "connect pc = enforce (p_state (pc_pair pc) = INITIALIZING) (Inr (set_pair (p_state_update (\<lambda>_. CONNECTING)) pc))"

definition connectCallback :: "nat option \<Rightarrow> Proc \<Rightarrow> Proc result" where
  "connectCallback sock pc =
     (case sock of
        None \<Rightarrow> signalException IoException pc
      | Some fd \<Rightarrow> Inr (changeState CONNECTED (pc\<lparr>pc_fd := Some fd, pc_epoll := Some False\<rparr>)))"

definition connected_or_later :: "pair_state \<Rightarrow> bool" where
  "connected_or_later st \<longleftrightarrow> st = CONNECTED \<or> st = CLOSED"

definition waitUntilConnected :: "bool \<Rightarrow> bool \<Rightarrow> Proc \<Rightarrow> Proc wait" where
  "waitUntilConnected useTimeout elapsed pc =
     (case p_ex (pc_pair pc) of Some e \<Rightarrow> Throws e
      | None \<Rightarrow> if connected_or_later (p_state (pc_pair pc)) then Returns pc
                else if useTimeout \<and> elapsed then TimesOut else Blocks)"

definition verifyConnected :: "Proc \<Rightarrow> Proc result" where
  "verifyConnected pc =
     enforce (connected_or_later (p_state (pc_pair pc)))
       (if p_state (pc_pair pc) = CLOSED then rbind (signalException IoException pc) (\<lambda>_. Inl IoException) else Inr pc)"

section \<open>Registration of bound buffers\<close>

definition getBuffer :: "slot_t \<Rightarrow> Proc \<Rightarrow> nat option" where
  "getBuffer slot pc = pc_buffers pc (ucast slot)"

definition registerBuffer :: "nat \<Rightarrow> Proc \<Rightarrow> Proc result" where
  "registerBuffer b pc =
     (let slot = b_slot (pc_bufs pc b)
      in enforce (pc_buffers pc slot = None) (Inr (pc\<lparr>pc_buffers := (pc_buffers pc)(slot \<mapsto> b)\<rparr>)))"

definition unregisterBuffer :: "nat \<Rightarrow> Proc \<Rightarrow> Proc" where
  "unregisterBuffer b pc = pc\<lparr>pc_buffers := (pc_buffers pc)(b_slot (pc_bufs pc b) := None)\<rparr>"

section \<open>Preambles\<close>

text \<open>A preamble is six \<open>size_t\<close> values in the byte order of the host.\<close>

fun opcode_nat :: "Opcode \<Rightarrow> nat" where
  "opcode_nat SEND_BUFFER = 0" | "opcode_nat SEND_UNBOUND_BUFFER = 1" | "opcode_nat NOTIFY_SEND_READY = 2" | "opcode_nat NOTIFY_RECV_READY = 3"

definition getOpcode :: "64 word \<Rightarrow> Opcode option" where
  "getOpcode w = (if w = 0 then Some SEND_BUFFER else if w = 1 then Some SEND_UNBOUND_BUFFER else if w = 2 then Some NOTIFY_SEND_READY
     else if w = 3 then Some NOTIFY_RECV_READY else None)"

definition preamble_words :: "Op \<Rightarrow> 64 word list" where
  "preamble_words op = [of_nat (pre_nbytes op), of_nat (opcode_nat (pre_opcode op)), pre_slot op, of_nat (pre_offset op),
     of_nat (pre_length op), of_nat (pre_roffset op)]"

definition preamble_bytes :: "bool \<Rightarrow> Op \<Rightarrow> bytes" where
  "preamble_bytes be op = concat (map (u64_bytes be) (preamble_words op))"

text \<open>The value of the \<open>i\<close>-th field of a received preamble; it is only used when all of it has arrived.\<close>

definition pre_field :: "bool \<Rightarrow> bytes \<Rightarrow> nat \<Rightarrow> 64 word" where
  "pre_field be bs i = (case get_u64 be bs (8 * i) of Inl _ \<Rightarrow> 0 | Inr w \<Rightarrow> w)"

section \<open>Writing\<close>

text \<open>
  The outcomes of \<open>writev\<close>: some bytes were taken, \<open>EAGAIN\<close>, \<open>ECONNRESET\<close>, \<open>EPIPE\<close>, \<open>EINTR\<close> or another error.
\<close>

datatype wcall = WTake nat | WAgain | WReset | WPipe | WIntr | WErr

definition payload_iov :: "nat \<Rightarrow> nat \<Rightarrow> nat \<Rightarrow> bytes \<Rightarrow> bytes result" where
  "payload_iov nwritten offset nbytes mem =
     (let (offset, nbytes) = (if nwritten > preamble_size
            then (u64_add offset (nwritten - preamble_size), u64_sub nbytes (nwritten - preamble_size)) else (offset, nbytes))
      in if offset + nbytes \<le> length mem then Inr (read_at offset nbytes mem) else Inl UndefinedBehavior)"

definition prepareWrite :: "bool \<Rightarrow> Proc \<Rightarrow> Op \<Rightarrow> bytes list result" where
  "prepareWrite be pc op =
     (let pre = (if op_nwritten op < preamble_size then [drop (op_nwritten op) (preamble_bytes be op)] else [])
      in case pre_opcode op of
           SEND_BUFFER \<Rightarrow>
             (case op_buf op of None \<Rightarrow> Inl UndefinedBehavior
              | Some b \<Rightarrow> rbind (payload_iov (op_nwritten op) (pre_offset op) (pre_length op) (pc_bmem pc b)) (\<lambda>bs. Inr (pre @ [bs])))
         | SEND_UNBOUND_BUFFER \<Rightarrow>
             (case op_ubuf op of None \<Rightarrow> Inl UndefinedBehavior
              | Some b \<Rightarrow> rbind (payload_iov (op_nwritten op) (op_offset op) (op_nbytes op) (pc_umem pc b)) (\<lambda>bs. Inr (pre @ [bs])))
         | _ \<Rightarrow> Inr pre)"

definition writeComplete :: "Op \<Rightarrow> Proc \<Rightarrow> Proc" where
  "writeComplete op pc =
     (case pre_opcode op of
        SEND_BUFFER \<Rightarrow> (case op_buf op of None \<Rightarrow> pc
          | Some b \<Rightarrow> pc\<lparr>pc_bufs := (pc_bufs pc)(b := b_handleSendCompletion (pc_bufs pc b))\<rparr>)
      | SEND_UNBOUND_BUFFER \<Rightarrow> (case op_ubuf op of None \<Rightarrow> pc
          | Some b \<Rightarrow> pc\<lparr>pc_ubufs := (pc_ubufs pc)(b := map_option (ub_handleSendCompletion (p_rank (pc_pair pc))) (pc_ubufs pc b))\<rparr>)
      | _ \<Rightarrow> pc)"

text \<open>The loop of \<open>write\<close>; it returns whether the operation is complete, and the operation with its progress.\<close>

fun write_loop :: "bool \<Rightarrow> wcall list \<Rightarrow> Op \<Rightarrow> Proc \<Rightarrow> (bool \<times> Op \<times> Proc) result option" where
  "write_loop be [] op pc = None"
| "write_loop be (c # cs) op pc =
     (case prepareWrite be pc op of
        Inl e \<Rightarrow> Some (Inl e)
      | Inr iov \<Rightarrow>
          (let data = concat iov; sync = p_sync (pc_pair pc); fail = Some (rbind (signalException IoException pc) (\<lambda>pc. Inr (False, op, pc)))
           in case c of
                WAgain \<Rightarrow> if sync then fail else Some (Inr (False, op, pc))
              | WReset \<Rightarrow> if sync then fail else Some (Inr (False, op, pc))
              | WPipe \<Rightarrow> if sync then fail else Some (Inr (False, op, pc))
              | WIntr \<Rightarrow> write_loop be cs op pc
              | WErr \<Rightarrow> fail
              | WTake k \<Rightarrow>
                  (let rv = min k (length data); op = op\<lparr>op_nwritten := op_nwritten op + rv\<rparr>; pc = pc\<lparr>pc_sent := pc_sent pc @ take rv data\<rparr>
                   in if rv < length data then write_loop be cs op pc
                      else Some (enforce (op_nwritten op = pre_nbytes op) (Inr (True, op, writeComplete op pc))))))"

definition Pair_write :: "bool \<Rightarrow> wcall list \<Rightarrow> Op \<Rightarrow> Proc \<Rightarrow> (bool \<times> Op \<times> Proc) result option" where
  "Pair_write be cs op pc =
     (if p_state (pc_pair pc) = CLOSED then Some (Inr (False, op, pc))
      else if pre_opcode op = SEND_UNBOUND_BUFFER \<and> (case op_ubuf op of None \<Rightarrow> True | Some b \<Rightarrow> pc_ubufs pc b = None)
           then Some (Inr (False, op, pc))
      else write_loop be cs op pc)"

text \<open>\<open>sendAsyncMode\<close> with the bytes; compare \<open>Gloo_Pair.sendAsyncMode\<close>, whose argument is the result of \<open>write\<close>.\<close>

definition sendAsync :: "bool \<Rightarrow> wcall list \<Rightarrow> Op \<Rightarrow> Proc \<Rightarrow> Proc result option" where
  "sendAsync be cs op pc =
     (if p_sync (pc_pair pc) then Some (Inl EnforceNotMet)
      else if p_tx (pc_pair pc) \<noteq> [] then Some (Inr (set_pair (p_tx_update (\<lambda>tx. tx @ [op])) pc))
      else map_option (\<lambda>r. rbind r (\<lambda>(ok, op, pc).
             if ok then Inr pc
             else throwIfException (pc_pair pc) (registerDescriptor True (set_pair (p_tx_update (\<lambda>tx. tx @ [op])) pc))))
           (Pair_write be cs op pc))"

definition sendSync :: "bool \<Rightarrow> wcall list \<Rightarrow> Op \<Rightarrow> Proc \<Rightarrow> Proc result option" where
  "sendSync be cs op pc =
     (if \<not> p_sync (pc_pair pc) then Some (Inl EnforceNotMet)
      else map_option (\<lambda>r. rbind r (\<lambda>(ok, op, pc). if ok then Inr pc
             else case p_ex (pc_pair pc) of None \<Rightarrow> Inl EnforceNotMet | Some e \<Rightarrow> Inl e))
           (Pair_write be cs op pc))"

text \<open>\<open>send(Op&)\<close> of bound buffers; the size of the send buffer of the socket is not modelled.\<close>

definition Pair_sendOp :: "bool \<Rightarrow> wcall list \<Rightarrow> Op \<Rightarrow> Proc \<Rightarrow> Proc result option" where
  "Pair_sendOp be cs op pc =
     (case throwIfException (pc_pair pc) (verifyConnected pc) of
        Inl e \<Rightarrow> Some (Inl e)
      | Inr pc \<Rightarrow> if p_sync (pc_pair pc) then sendSync be cs op pc else sendAsync be cs op pc)"

text \<open>
  The \<open>EPOLLOUT\<close> branch of \<open>handleReadWrite\<close>: operations are written until one is not complete; each has its
  own list of outcomes.
\<close>

fun flush_loop :: "bool \<Rightarrow> wcall list list \<Rightarrow> Proc \<Rightarrow> Proc result option" where
  "flush_loop be css pc =
     (case p_tx (pc_pair pc) of
        [] \<Rightarrow> Some (Inr pc)
      | op # tx \<Rightarrow>
          (case css of [] \<Rightarrow> None
           | cs # css' \<Rightarrow>
               (case Pair_write be cs op pc of
                  None \<Rightarrow> None
                | Some (Inl e) \<Rightarrow> Some (Inl e)
                | Some (Inr (ok, op', pc')) \<Rightarrow>
                    if ok then flush_loop be css' (set_pair (p_tx_update (\<lambda>_. tx)) pc')
                    else Some (Inr (set_pair (p_tx_update (\<lambda>_. op' # tx)) pc')))))"

definition handleWritable :: "bool \<Rightarrow> wcall list list \<Rightarrow> Proc \<Rightarrow> Proc result option" where
  "handleWritable be css pc =
     (if p_tx (pc_pair pc) = [] then Some (Inl EnforceNotMet)
      else map_option (\<lambda>r. rbind r (\<lambda>pc. if p_tx (pc_pair pc) = [] then registerDescriptor False pc else Inr pc)) (flush_loop be css pc))"

section \<open>Reading\<close>

text \<open>
  The outcomes of \<open>recv\<close>: at least one byte of those that have arrived, \<open>EAGAIN\<close> (with the information
  whether the timeout of the call has passed), \<open>EINTR\<close>, another error, or the end of the stream.
\<close>

datatype rcall = RTake nat | RAgain bool | RIntr | RErr | REof

datatype target = TPre | TBuf nat nat | TUbuf nat nat

text \<open>\<open>prepareRead\<close>: where the next bytes go and how many are missing; \<open>None\<close> is the result -1.\<close>

definition prepareRead :: "bool \<Rightarrow> Proc \<Rightarrow> (Proc \<times> (target \<times> nat) option) result" where
  "prepareRead be pc =
     (let rx = pc_rx pc; pre = rx_pre rx; slot = pre_field be pre 2; plen = unat (pre_field be pre 4); roffset = unat (pre_field be pre 5);
          offset = rx_nread rx - preamble_size
      in if rx_nread rx < preamble_size then Inr (pc, Some (TPre, preamble_size - rx_nread rx))
         else case getOpcode (pre_field be pre 1) of
           Some SEND_BUFFER \<Rightarrow>
             (case (if rx_buf rx = None then getBuffer slot pc else rx_buf rx) of
                None \<Rightarrow> Inr (pc, None)
              | Some b \<Rightarrow> enforce (u64_add roffset plen \<le> b_size (pc_bufs pc b))
                  (Inr (pc\<lparr>pc_rx := rx\<lparr>rx_buf := Some b\<rparr>\<rparr>, Some (TBuf b (offset + roffset), u64_sub plen offset))))
         | Some SEND_UNBOUND_BUFFER \<Rightarrow>
             rbind (case rx_ubuf rx of
                      Some x \<Rightarrow> Inr (x, pc)
                    | None \<Rightarrow>
                        (case localPendingRecv (pc_pair pc) slot of
                           None \<Rightarrow> Inl EnforceNotMet
                         | Some queue \<Rightarrow> rbind (queue_pop slot queue (localPendingRecv (pc_pair pc)))
                             (\<lambda>(x, m). Inr (x, (set_pair (localPendingRecv_update (\<lambda>_. m)) pc)\<lparr>pc_rx := rx\<lparr>rx_ubuf := Some x\<rparr>\<rparr>))))
               (\<lambda>(x, pc). if pc_ubufs pc (uo_buf x) = None then Inr (pc, None)
                          else enforce (plen \<le> uo_nbytes x) (Inr (pc, Some (TUbuf (uo_buf x) (uo_offset x + offset), u64_sub plen offset))))
         | _ \<Rightarrow> Inr (pc, Some (TPre, 0)))"

definition store_bytes :: "target \<Rightarrow> bytes \<Rightarrow> Proc \<Rightarrow> Proc result" where
  "store_bytes t bs pc =
     (let rx = pc_rx pc; pc = pc\<lparr>pc_rx := rx\<lparr>rx_nread := rx_nread rx + length bs\<rparr>\<rparr>
      in case t of
           TPre \<Rightarrow> Inr (pc\<lparr>pc_rx := (pc_rx pc)\<lparr>rx_pre := rx_pre rx @ bs\<rparr>\<rparr>)
         | TBuf b off \<Rightarrow> if off + length bs \<le> length (pc_bmem pc b)
             then Inr (pc\<lparr>pc_bmem := (pc_bmem pc)(b := write_at off bs (pc_bmem pc b))\<rparr>) else Inl UndefinedBehavior
         | TUbuf b off \<Rightarrow> if off + length bs \<le> length (pc_umem pc b)
             then Inr (pc\<lparr>pc_umem := (pc_umem pc)(b := write_at off bs (pc_umem pc b))\<rparr>) else Inl UndefinedBehavior)"

text \<open>
  The loop of \<open>read\<close> without the final dispatch: \<open>True\<close> when the operation is complete. Each element of the
  list is one call of \<open>recv\<close>; a call for bytes when none has arrived is \<open>EAGAIN\<close>.
\<close>

fun read_loop :: "bool \<Rightarrow> rcall list \<Rightarrow> Proc \<Rightarrow> (bool \<times> Proc) result option" where
  "read_loop be cs pc =
     (case prepareRead be pc of
        Inl e \<Rightarrow> Some (Inl e)
      | Inr (pc, None) \<Rightarrow> Some (Inr (False, pc))
      | Inr (pc, Some (t, 0)) \<Rightarrow> Some (Inr (True, pc))
      | Inr (pc, Some (t, Suc n)) \<Rightarrow>
          (let fail = Some (rbind (signalException IoException pc) (\<lambda>pc. Inr (False, pc)));
               again = (\<lambda>timedOut. if p_sync (pc_pair pc) then (if pc_busyPoll pc \<and> \<not> timedOut then None else Some fail)
                                   else Some (Some (Inr (False, pc))))
           in case cs of
                [] \<Rightarrow> None
              | RTake k # cs' \<Rightarrow>
                  if pc_in pc = [] then (case again False of None \<Rightarrow> read_loop be cs' pc | Some r \<Rightarrow> r)
                  else (let bs = take (min (Suc k) (Suc n)) (pc_in pc)
                        in case store_bytes t bs (pc\<lparr>pc_in := drop (length bs) (pc_in pc)\<rparr>) of
                             Inl e \<Rightarrow> Some (Inl e) | Inr pc \<Rightarrow> read_loop be cs' pc)
              | RAgain timedOut # cs' \<Rightarrow> (case again timedOut of None \<Rightarrow> read_loop be cs' pc | Some r \<Rightarrow> r)
              | RIntr # cs' \<Rightarrow> read_loop be cs' pc
              | RErr # cs' \<Rightarrow> fail
              | REof # cs' \<Rightarrow> fail))"

definition rx_op :: "bool \<Rightarrow> bytes \<Rightarrow> Opcode \<Rightarrow> Op" where
  "rx_op be pre opcode = Op_new\<lparr>pre_nbytes := unat (pre_field be pre 0), pre_opcode := opcode, pre_slot := pre_field be pre 2,
     pre_offset := unat (pre_field be pre 3), pre_length := unat (pre_field be pre 4), pre_roffset := unat (pre_field be pre 5)\<rparr>"

text \<open>
  The operations of the rendezvous protocol decide what is to be sent; the bytes go through \<open>sendAsync\<close>.
  The operation runs on a pair with empty queues, where everything it sends is written at once and ends up
  in \<open>p_sock\<close>; these operations are then sent, each with its own list of outcomes.
\<close>

fun send_ops :: "bool \<Rightarrow> wcall list list \<Rightarrow> Op list \<Rightarrow> Proc \<Rightarrow> Proc result option" where
  "send_ops be css [] pc = Some (Inr pc)"
| "send_ops be [] (op # ops) pc = None"
| "send_ops be (cs # css) (op # ops) pc =
     (case sendAsync be cs op pc of None \<Rightarrow> None | Some (Inl e) \<Rightarrow> Some (Inl e) | Some (Inr pc) \<Rightarrow> send_ops be css ops pc)"

definition run_protocol :: "(Context \<times> Pair \<Rightarrow> (Context \<times> Pair) result) \<Rightarrow> bool \<Rightarrow> wcall list list \<Rightarrow> Proc \<Rightarrow> Proc result option" where
  "run_protocol f be css pc =
     (let p = pc_pair pc
      in case f (pc_ctx pc, p\<lparr>p_tx := [], p_sock := []\<rparr>) of
           Inl e \<Rightarrow> Some (Inl e)
         | Inr (ctx, p') \<Rightarrow> send_ops be css (p_sock p') (pc\<lparr>pc_ctx := ctx, pc_pair := p'\<lparr>p_tx := p_tx p, p_sock := p_sock p\<rparr>\<rparr>))"

definition Proc_send :: "bool \<Rightarrow> wcall list list \<Rightarrow> nat \<Rightarrow> nat \<Rightarrow> slot_t \<Rightarrow> nat \<Rightarrow> nat \<Rightarrow> Proc \<Rightarrow> Proc result option" where
  "Proc_send be css tbuf tsize slot offset nbytes = run_protocol (Pair_send (True, True) tbuf tsize slot offset nbytes) be css"

definition Proc_recv :: "bool \<Rightarrow> wcall list list \<Rightarrow> nat \<Rightarrow> nat \<Rightarrow> slot_t \<Rightarrow> nat \<Rightarrow> nat \<Rightarrow> Proc \<Rightarrow> Proc result option" where
  "Proc_recv be css tbuf tsize slot offset nbytes = run_protocol (Pair_recv True tbuf tsize slot offset nbytes) be css"

definition readComplete :: "bool \<Rightarrow> wcall list list \<Rightarrow> Proc \<Rightarrow> Proc result option" where
  "readComplete be css pc =
     (let rx = pc_rx pc; reset = (\<lambda>pc. pc\<lparr>pc_rx := Rx_new\<rparr>)
      in case getOpcode (pre_field be (rx_pre rx) 1) of
           Some SEND_BUFFER \<Rightarrow> Some (case rx_buf rx of None \<Rightarrow> Inl UndefinedBehavior
             | Some b \<Rightarrow> Inr (reset (pc\<lparr>pc_bufs := (pc_bufs pc)(b := b_handleRecvCompletion (pc_bufs pc b))\<rparr>)))
         | Some SEND_UNBOUND_BUFFER \<Rightarrow> Some (case rx_ubuf rx of None \<Rightarrow> Inl UndefinedBehavior
             | Some x \<Rightarrow> Inr (reset (pc\<lparr>pc_ubufs := (pc_ubufs pc)(uo_buf x :=
                 map_option (ub_handleRecvCompletion (p_rank (pc_pair pc))) (pc_ubufs pc (uo_buf x)))\<rparr>)))
         | Some NOTIFY_SEND_READY \<Rightarrow>
             map_option (map_sum id reset) (run_protocol (handleRemotePendingSend True (rx_op be (rx_pre rx) NOTIFY_SEND_READY)) be css pc)
         | Some NOTIFY_RECV_READY \<Rightarrow>
             map_option (map_sum id reset) (run_protocol (handleRemotePendingRecv True (rx_op be (rx_pre rx) NOTIFY_RECV_READY)) be css pc)
         | None \<Rightarrow> Some (Inr (reset pc)))"

definition Pair_read :: "bool \<Rightarrow> wcall list list \<Rightarrow> rcall list \<Rightarrow> Proc \<Rightarrow> (bool \<times> Proc) result option" where
  "Pair_read be css cs pc =
     (if p_state (pc_pair pc) = CLOSED then Some (Inr (False, pc))
      else case read_loop be cs pc of
             None \<Rightarrow> None
           | Some (Inl e) \<Rightarrow> Some (Inl e)
           | Some (Inr (False, pc)) \<Rightarrow> Some (Inr (False, pc))
           | Some (Inr (True, pc)) \<Rightarrow> map_option (map_sum id (\<lambda>pc. (True, pc))) (readComplete be css pc))"

text \<open>The \<open>EPOLLIN\<close> branch of \<open>handleReadWrite\<close>, and \<open>handleEvents\<close>.\<close>

fun read_all :: "bool \<Rightarrow> (wcall list list \<times> rcall list) list \<Rightarrow> Proc \<Rightarrow> Proc result option" where
  "read_all be [] pc = None"
| "read_all be ((w, cs) # css) pc =
     (case Pair_read be w cs pc of
        None \<Rightarrow> None
      | Some (Inl e) \<Rightarrow> Some (Inl e)
      | Some (Inr (ok, pc)) \<Rightarrow> if ok then read_all be css pc else Some (Inr pc))"

definition handleReadWrite :: "bool \<Rightarrow> bool \<Rightarrow> bool \<Rightarrow> wcall list list \<Rightarrow> (wcall list list \<times> rcall list) list \<Rightarrow> Proc \<Rightarrow> Proc result option" where
  "handleReadWrite be out inp css rss pc =
     (case (if out then handleWritable be css pc else Some (Inr pc)) of
        None \<Rightarrow> None
      | Some (Inl e) \<Rightarrow> Some (Inl e)
      | Some (Inr pc) \<Rightarrow> if inp then read_all be rss pc else Some (Inr pc))"

definition handleEvents :: "bool \<Rightarrow> bool \<Rightarrow> bool \<Rightarrow> bool \<Rightarrow> wcall list list \<Rightarrow> (wcall list list \<times> rcall list) list \<Rightarrow> Proc \<Rightarrow> Proc result option" where
  "handleEvents be locked out inp css rss pc =
     (if \<not> locked then Some (Inr pc)
      else if p_state (pc_pair pc) = CLOSED \<or> p_ex (pc_pair pc) \<noteq> None \<or> p_state (pc_pair pc) \<noteq> CONNECTED then Some (Inl EnforceNotMet)
      else handleReadWrite be out inp css rss pc)"

text \<open>\<open>recv()\<close> in synchronous mode, and the switch to that mode.\<close>

definition Pair_recvSync :: "bool \<Rightarrow> wcall list list \<Rightarrow> rcall list \<Rightarrow> Proc \<Rightarrow> Proc result option" where
  "Pair_recvSync be w cs pc =
     (case throwIfException (pc_pair pc) (verifyConnected pc) of
        Inl e \<Rightarrow> Some (Inl e)
      | Inr pc \<Rightarrow> map_option (\<lambda>r. rbind r (\<lambda>(ok, pc). if ok then Inr pc
             else case p_ex (pc_pair pc) of None \<Rightarrow> Inl EnforceNotMet | Some e \<Rightarrow> Inl e))
           (Pair_read be w cs pc))"

fun flush_sync :: "bool \<Rightarrow> wcall list list \<Rightarrow> Op list \<Rightarrow> Proc \<Rightarrow> Proc result option" where
  "flush_sync be css [] pc = Some (Inr pc)"
| "flush_sync be [] (op # ops) pc = None"
| "flush_sync be (cs # css) (op # ops) pc =
     (case Pair_write be cs op pc of
        None \<Rightarrow> None
      | Some (Inl e) \<Rightarrow> Some (Inl e)
      | Some (Inr (ok, op', pc)) \<Rightarrow>
          if ok then flush_sync be css ops pc
          else Some (case p_ex (pc_pair pc) of None \<Rightarrow> Inl EnforceNotMet | Some e \<Rightarrow> Inl e))"

definition setSync :: "bool \<Rightarrow> bool \<Rightarrow> bool \<Rightarrow> wcall list list \<Rightarrow> Proc \<Rightarrow> Proc result option" where
  "setSync be sync busyPoll css pc =
     (if \<not> sync then Some (Inl InvalidOperationException)
      else case waitUntilConnected False False pc of
        Throws e \<Rightarrow> Some (Inl e)
      | Returns pc \<Rightarrow>
          if p_state (pc_pair pc) = CLOSED then Some (rbind (signalException IoException pc) (\<lambda>_. Inl IoException))
          else (let finish = (\<lambda>pc. (set_pair (p_sync_update (\<lambda>_. True)) pc)\<lparr>pc_busyPoll := busyPoll\<rparr>)
                in if p_sync (pc_pair pc) then Some (Inr (finish pc))
                   else map_option (\<lambda>r. rbind r (\<lambda>pc. Inr (finish (set_pair (p_tx_update (\<lambda>_. [])) pc))))
                          (flush_sync be css (p_tx (pc_pair pc)) (pc\<lparr>pc_epoll := None\<rparr>)))
      | _ \<Rightarrow> None)"

declare flush_loop.simps [simp del] read_loop.simps [simp del]

section \<open>Preambles survive the wire\<close>

lemma map_sum_Inr_conv: "map_sum f g r = Inr y \<longleftrightarrow> (\<exists>x. r = Inr x \<and> y = g x)"
  by (cases r) auto

lemma preamble_length [simp]: "length (preamble_bytes be op) = preamble_size"
  by (simp add: preamble_bytes_def preamble_words_def preamble_size_def)

lemma pre_field_bytes:
  assumes "i < 6"
  shows "pre_field be (preamble_bytes be op) i = preamble_words op ! i"
proof -
  let ?ws = "preamble_words op"
  have six: "length ?ws = 6" by (simp add: preamble_words_def)
  have "concat (map (u64_bytes be) ?ws) = concat (map (u64_bytes be) (take i ?ws)) @ u64_bytes be (?ws ! i) @ concat (map (u64_bytes be) (drop (Suc i) ?ws))"
    using id_take_nth_drop [of i ?ws] assms six by (metis concat.simps(2) concat_append list.simps(9) map_append)
  moreover have "length (concat (map (u64_bytes be) ws)) = 8 * length ws" for ws by (induction ws) simp_all
  ultimately show ?thesis
    using get_u64_mid [of "8 * i" "concat (map (u64_bytes be) (take i ?ws))" be "?ws ! i"] assms six by (simp add: pre_field_def preamble_bytes_def)
qed

section \<open>What is written\<close>

text \<open>The payload of an operation, its bytes on the wire, and the conditions under which it is sent.\<close>

definition op_payload :: "Proc \<Rightarrow> Op \<Rightarrow> bytes" where
  "op_payload pc op =
     (case pre_opcode op of
        SEND_BUFFER \<Rightarrow> (case op_buf op of None \<Rightarrow> [] | Some b \<Rightarrow> read_at (pre_offset op) (pre_length op) (pc_bmem pc b))
      | SEND_UNBOUND_BUFFER \<Rightarrow> (case op_ubuf op of None \<Rightarrow> [] | Some b \<Rightarrow> read_at (op_offset op) (op_nbytes op) (pc_umem pc b))
      | _ \<Rightarrow> [])"

definition op_stream :: "bool \<Rightarrow> Proc \<Rightarrow> Op \<Rightarrow> bytes" where
  "op_stream be pc op = preamble_bytes be op @ op_payload pc op"

definition op_wf :: "Proc \<Rightarrow> Op \<Rightarrow> bool" where
  "op_wf pc op \<longleftrightarrow> pre_nbytes op = preamble_size + length (op_payload pc op) \<and> op_nwritten op \<le> pre_nbytes op \<and>
     (case pre_opcode op of
        SEND_BUFFER \<Rightarrow> (\<exists>b. op_buf op = Some b \<and> pre_offset op + pre_length op \<le> length (pc_bmem pc b) \<and> pre_offset op + pre_length op < u64_range)
      | SEND_UNBOUND_BUFFER \<Rightarrow> (\<exists>b. op_ubuf op = Some b \<and> op_offset op + op_nbytes op \<le> length (pc_umem pc b) \<and>
          pre_length op = op_nbytes op \<and> op_offset op + op_nbytes op < u64_range)
      | _ \<Rightarrow> True)"

lemma payload_iov_drop:
  assumes "offset + n \<le> length mem" "offset + n < u64_range" "nw \<le> preamble_size + n"
  shows "payload_iov nw offset n mem = Inr (drop (nw - preamble_size) (read_at offset n mem))"
proof (cases "nw > preamble_size")
  case True
  let ?d = "nw - preamble_size"
  have d: "?d \<le> n" using assms(3) by linarith
  then have "u64_add offset ?d = offset + ?d" "u64_sub n ?d = n - ?d" using assms(2) by (simp_all add: u64_add_exact u64_sub_exact)
  moreover have "read_at (offset + ?d) (n - ?d) mem = drop ?d (read_at offset n mem)" using d by (simp add: read_at_def drop_take add.commute)
  ultimately show ?thesis using True d assms(1) by (simp add: payload_iov_def)
qed (use assms in \<open>simp add: payload_iov_def\<close>)

lemma prepareWrite_stream:
  assumes "op_wf pc op"
  shows "\<exists>iov. prepareWrite be pc op = Inr iov \<and> concat iov = drop (op_nwritten op) (op_stream be pc op)"
proof -
  let ?nw = "op_nwritten op"
  have split: "drop ?nw (op_stream be pc op) =
      concat (if ?nw < preamble_size then [drop ?nw (preamble_bytes be op)] else []) @ drop (?nw - preamble_size) (op_payload pc op)"
    by (simp add: op_stream_def)
  show ?thesis
  proof (cases "pre_opcode op")
    case SEND_BUFFER
    with assms obtain b where b: "op_buf op = Some b" "pre_offset op + pre_length op \<le> length (pc_bmem pc b)" "pre_offset op + pre_length op < u64_range"
      by (auto simp: op_wf_def)
    have "?nw \<le> preamble_size + pre_length op" using assms b SEND_BUFFER by (simp add: op_wf_def op_payload_def length_read_at)
    with payload_iov_drop [OF b(2,3)] b SEND_BUFFER show ?thesis by (simp add: prepareWrite_def split op_payload_def Let_def)
  next
    case SEND_UNBOUND_BUFFER
    with assms obtain b where b: "op_ubuf op = Some b" "op_offset op + op_nbytes op \<le> length (pc_umem pc b)" "op_offset op + op_nbytes op < u64_range"
      by (auto simp: op_wf_def)
    have "?nw \<le> preamble_size + op_nbytes op" using assms b SEND_UNBOUND_BUFFER by (simp add: op_wf_def op_payload_def length_read_at)
    with payload_iov_drop [OF b(2,3)] b SEND_UNBOUND_BUFFER show ?thesis by (simp add: prepareWrite_def split op_payload_def Let_def)
  qed (use split in \<open>simp_all add: prepareWrite_def Let_def op_payload_def\<close>)
qed

text \<open>What writing may change.\<close>

definition same_data :: "Proc \<Rightarrow> Proc \<Rightarrow> bool" where
  "same_data pc pc' \<longleftrightarrow> pc_bmem pc' = pc_bmem pc \<and> pc_umem pc' = pc_umem pc \<and> pc_in pc' = pc_in pc \<and> pc_rx pc' = pc_rx pc \<and>
     p_tx (pc_pair pc') = p_tx (pc_pair pc) \<and> p_rank (pc_pair pc') = p_rank (pc_pair pc)"

lemma same_data_trans: "same_data a b \<Longrightarrow> same_data b c \<Longrightarrow> same_data a c"
  by (simp add: same_data_def)

lemma same_data_refl [simp]: "same_data pc pc"
  by (simp add: same_data_def)

lemma same_data_op:
  assumes "same_data pc pc'"
  shows "op_payload pc' op = op_payload pc op" "op_stream be pc' op = op_stream be pc op" "op_wf pc' op \<longleftrightarrow> op_wf pc op"
proof -
  show p: "op_payload pc' op = op_payload pc op" using assms by (simp add: op_payload_def same_data_def split: Opcode.splits option.splits)
  then show "op_stream be pc' op = op_stream be pc op" by (simp add: op_stream_def)
  from p assms show "op_wf pc' op \<longleftrightarrow> op_wf pc op" by (simp add: op_wf_def same_data_def split: Opcode.splits)
qed

lemma same_data_changes [simp]:
  "same_data pc (changeState st pc)" "same_data pc (writeComplete op pc)" "same_data pc (pc\<lparr>pc_sent := x\<rparr>)"
  by (auto simp: same_data_def changeState_def Let_def writeComplete_def split: pair_state.splits Opcode.splits option.splits)

lemma sent_changes [simp]: "pc_sent (changeState st pc) = pc_sent pc" "pc_sent (writeComplete op pc) = pc_sent pc"
  by (auto simp: changeState_def Let_def writeComplete_def split: pair_state.splits Opcode.splits option.splits)

lemma signalException_same:
  assumes "signalException e pc = Inr pc'"
  shows "same_data pc pc'" "pc_sent pc' = pc_sent pc" "p_ex (pc_pair pc') = Some e" "p_state (pc_pair pc') = CLOSED"
  using assms by (auto simp: signalException_def Let_def enforce_Inr_conv changeState_def same_data_def split: pair_state.splits)

lemma op_nwritten_irrelevant [simp]:
  "op_payload pc (op\<lparr>op_nwritten := m\<rparr>) = op_payload pc op" "preamble_bytes be (op\<lparr>op_nwritten := m\<rparr>) = preamble_bytes be op"
  "op_stream be pc (op\<lparr>op_nwritten := m\<rparr>) = op_stream be pc op"
  by (simp_all add: op_payload_def preamble_bytes_def preamble_words_def op_stream_def split: Opcode.splits option.splits)

lemma op_wf_nwritten: "op_wf pc op \<Longrightarrow> m \<le> pre_nbytes op \<Longrightarrow> op_wf pc (op\<lparr>op_nwritten := m\<rparr>)"
  by (simp add: op_wf_def split: Opcode.splits)

lemma stream_length: "op_wf pc op \<Longrightarrow> length (op_stream be pc op) = pre_nbytes op"
  by (simp add: op_stream_def op_wf_def)

text \<open>One call of \<open>write\<close>: the bytes handed over are the next ones of the operation.\<close>

lemma write_loop_stream:
  assumes "op_wf pc op" "write_loop be cs op pc = Some (Inr (ok, op', pc'))"
  shows "\<exists>m. op' = op\<lparr>op_nwritten := m\<rparr> \<and> op_nwritten op \<le> m \<and> m \<le> pre_nbytes op \<and> (ok \<longrightarrow> m = pre_nbytes op) \<and> same_data pc pc' \<and>
    pc_sent pc' = pc_sent pc @ read_at (op_nwritten op) (m - op_nwritten op) (op_stream be pc op)"
  using assms
proof (induction cs arbitrary: op pc)
  case (Cons c cs)
  from prepareWrite_stream [OF Cons.prems(1)] obtain iov where
    iov: "prepareWrite be pc op = Inr iov" "concat iov = drop (op_nwritten op) (op_stream be pc op)" by blast
  let ?nw = "op_nwritten op"
  have nw: "?nw \<le> pre_nbytes op" using Cons.prems(1) by (simp add: op_wf_def)
  have stay: ?case if "same_data pc pc'" "pc_sent pc' = pc_sent pc" "op' = op" "\<not> ok"
    using that nw by (intro exI [of _ ?nw]) (simp add: read_at_0)
  have fail: ?case if "rbind (signalException IoException pc) (\<lambda>pc. Inr (False, op, pc)) = Inr (ok, op', pc')"
    by (rule stay) (use that signalException_same in \<open>auto simp: rbind_Inr_conv\<close>)
  show ?case
  proof (cases c)
    case (WTake k)
    define rv where "rv = min k (length (concat iov))"
    let ?op = "op\<lparr>op_nwritten := ?nw + rv\<rparr>" and ?pc = "pc\<lparr>pc_sent := pc_sent pc @ take rv (concat iov)\<rparr>"
    have len: "length (concat iov) = pre_nbytes op - ?nw" using iov(2) stream_length [OF Cons.prems(1)] by simp
    have rv: "?nw + rv \<le> pre_nbytes op" using nw by (simp add: rv_def len)
    have same: "same_data pc ?pc" by simp
    have step: "(if rv < length (concat iov) then write_loop be cs ?op ?pc
        else Some (enforce (?nw + rv = pre_nbytes op) (Inr (True, ?op, writeComplete ?op ?pc)))) = Some (Inr (ok, op', pc'))"
      using Cons.prems(2) unfolding WTake write_loop.simps iov(1) Let_def sum.case wcall.case rv_def [symmetric] by (auto split: if_splits)
    have data: "take rv (concat iov) = read_at ?nw rv (op_stream be pc op)" unfolding iov(2) by (simp add: read_at_def)
    show ?thesis
    proof (cases "rv < length (concat iov)")
      case True
      with step have run: "write_loop be cs ?op ?pc = Some (Inr (ok, op', pc'))" by simp
      have wf: "op_wf ?pc ?op"
      proof -
        have "op_wf ?pc op" using Cons.prems(1) by (simp only: same_data_op(3) [OF same])
        then show ?thesis using rv by (rule op_wf_nwritten)
      qed
      from Cons.IH [OF wf run] obtain m where m: "op' = op\<lparr>op_nwritten := m\<rparr>" "?nw + rv \<le> m" "m \<le> pre_nbytes op" "ok \<longrightarrow> m = pre_nbytes op"
        "same_data ?pc pc'" "pc_sent pc' = pc_sent ?pc @ read_at (?nw + rv) (m - (?nw + rv)) (op_stream be ?pc op)" by auto
      have "m - ?nw = rv + (m - (?nw + rv))" using m(2) by linarith
      then have "read_at ?nw (m - ?nw) (op_stream be pc op) = read_at ?nw rv (op_stream be pc op) @ read_at (?nw + rv) (m - (?nw + rv)) (op_stream be pc op)"
        by (simp only: read_at_add)
      then show ?thesis using m same_data_trans [OF same m(5)] data same_data_op(2) [OF same] by (intro exI [of _ m]) simp
    next
      case False
      then have full: "rv = length (concat iov)" by (simp add: rv_def)
      then have "?nw + rv = pre_nbytes op" "ok" "op' = ?op" "pc' = writeComplete ?op ?pc"
        using step False by (auto simp: enforce_Inr_conv)
      moreover from this have "pre_nbytes op - ?nw = rv" by linarith
      ultimately show ?thesis using data same_data_trans [OF same same_data_changes(2)] by (intro exI [of _ "?nw + rv"]) auto
    qed
  next
    case WIntr
    then show ?thesis using Cons iov(1) by (simp add: Let_def)
  next
    case WAgain
    show ?thesis
    proof (cases "p_sync (pc_pair pc)")
      case True
      then show ?thesis using Cons.prems(2) iov(1) WAgain by (intro fail) (simp add: Let_def)
    qed (use Cons.prems(2) iov(1) WAgain in \<open>intro stay; simp add: Let_def\<close>)
  next
    case WReset
    show ?thesis
    proof (cases "p_sync (pc_pair pc)")
      case True
      then show ?thesis using Cons.prems(2) iov(1) WReset by (intro fail) (simp add: Let_def)
    qed (use Cons.prems(2) iov(1) WReset in \<open>intro stay; simp add: Let_def\<close>)
  next
    case WPipe
    show ?thesis
    proof (cases "p_sync (pc_pair pc)")
      case True
      then show ?thesis using Cons.prems(2) iov(1) WPipe by (intro fail) (simp add: Let_def)
    qed (use Cons.prems(2) iov(1) WPipe in \<open>intro stay; simp add: Let_def\<close>)
  next
    case WErr
    then show ?thesis using Cons.prems(2) iov(1) by (intro fail) (simp add: Let_def)
  qed
qed simp

text \<open>Whatever happens to the bytes, a write does not touch the receiving side.\<close>

lemma writeComplete_rx [simp]: "pc_rx (writeComplete op pc) = pc_rx pc" "pc_in (writeComplete op pc) = pc_in pc"
  by (simp_all add: writeComplete_def split: Opcode.splits option.splits)

lemma signalException_rx: "signalException e pc = Inr pc' \<Longrightarrow> pc_rx pc' = pc_rx pc \<and> pc_in pc' = pc_in pc"
  by (auto simp: signalException_def Let_def enforce_Inr_conv changeState_def split: pair_state.splits)

lemma write_loop_rx: "write_loop be cs op pc = Some (Inr (ok, op', pc')) \<Longrightarrow> pc_rx pc' = pc_rx pc \<and> pc_in pc' = pc_in pc"
proof (induction be cs op pc rule: write_loop.induct)
  case (2 be c cs op pc)
  then show ?case
    by (auto simp: Let_def rbind_Inr_conv enforce_Inr_conv split: sum.splits wcall.splits if_splits dest!: signalException_rx)
qed simp

lemma Pair_write_rx: "Pair_write be cs op pc = Some (Inr (ok, op', pc')) \<Longrightarrow> pc_rx pc' = pc_rx pc \<and> pc_in pc' = pc_in pc"
  by (auto simp: Pair_write_def split: if_splits option.splits dest!: write_loop_rx)

text \<open>
  The outgoing stream of a process: what the kernel has and what the transmit queue still holds. Writing
  moves bytes from the second to the first part.
\<close>

definition tx_rest :: "bool \<Rightarrow> Proc \<Rightarrow> Op list \<Rightarrow> bytes" where
  "tx_rest be pc ops = concat (map (\<lambda>op. drop (op_nwritten op) (op_stream be pc op)) ops)"

definition out_stream :: "bool \<Rightarrow> Proc \<Rightarrow> bytes" where
  "out_stream be pc = pc_sent pc @ tx_rest be pc (p_tx (pc_pair pc))"

definition tx_wf :: "Proc \<Rightarrow> bool" where
  "tx_wf pc \<longleftrightarrow> (\<forall>op \<in> set (p_tx (pc_pair pc)). op_wf pc op)"

lemma tx_rest_same: "same_data pc pc' \<Longrightarrow> tx_rest be pc' ops = tx_rest be pc ops"
  by (simp add: tx_rest_def same_data_op)

lemma Pair_write_stream:
  assumes "op_wf pc op" "Pair_write be cs op pc = Some (Inr (ok, op', pc'))"
  shows "same_data pc pc'" "op_wf pc' op'" "op_stream be pc' op' = op_stream be pc op"
    "pc_sent pc' @ drop (op_nwritten op') (op_stream be pc op) = pc_sent pc @ drop (op_nwritten op) (op_stream be pc op)"
    "ok \<Longrightarrow> op_nwritten op' = pre_nbytes op"
proof -
  have "\<exists>m. op' = op\<lparr>op_nwritten := m\<rparr> \<and> op_nwritten op \<le> m \<and> m \<le> pre_nbytes op \<and> (ok \<longrightarrow> m = pre_nbytes op) \<and> same_data pc pc' \<and>
    pc_sent pc' = pc_sent pc @ read_at (op_nwritten op) (m - op_nwritten op) (op_stream be pc op)"
  proof (cases "p_state (pc_pair pc) = CLOSED \<or> pre_opcode op = SEND_UNBOUND_BUFFER \<and> (case op_ubuf op of None \<Rightarrow> True | Some b \<Rightarrow> pc_ubufs pc b = None)")
    case True
    then show ?thesis using assms
      by (intro exI [of _ "op_nwritten op"]) (auto simp: Pair_write_def op_wf_def read_at_0 split: if_splits)
  next
    case False
    then show ?thesis using write_loop_stream [OF assms(1)] assms(2) by (simp add: Pair_write_def split: if_splits)
  qed
  then obtain m where m: "op' = op\<lparr>op_nwritten := m\<rparr>" "op_nwritten op \<le> m" "m \<le> pre_nbytes op" "ok \<longrightarrow> m = pre_nbytes op" "same_data pc pc'"
    "pc_sent pc' = pc_sent pc @ read_at (op_nwritten op) (m - op_nwritten op) (op_stream be pc op)" by blast
  show "same_data pc pc'" by (rule m)
  show "op_wf pc' op'" unfolding m(1) same_data_op(3) [OF m(5)] using op_wf_nwritten [OF assms(1) m(3)] .
  show "op_stream be pc' op' = op_stream be pc op" by (simp add: m(1) same_data_op(2) [OF m(5)])
  show "pc_sent pc' @ drop (op_nwritten op') (op_stream be pc op) = pc_sent pc @ drop (op_nwritten op) (op_stream be pc op)"
  proof -
    have "drop (op_nwritten op) (op_stream be pc op) = take (m - op_nwritten op) (drop (op_nwritten op) (op_stream be pc op)) @ drop m (op_stream be pc op)"
      using m(2) append_take_drop_id [of "m - op_nwritten op" "drop (op_nwritten op) (op_stream be pc op)"] by simp
    then show ?thesis by (simp add: m(1,6) read_at_def)
  qed
  show "ok \<Longrightarrow> op_nwritten op' = pre_nbytes op" using m(1,4) by simp
qed

lemma set_pair_tx:
  "op_payload (set_pair (p_tx_update f) pc) op = op_payload pc op" "op_stream be (set_pair (p_tx_update f) pc) op = op_stream be pc op"
  "op_wf (set_pair (p_tx_update f) pc) op = op_wf pc op" "tx_rest be (set_pair (p_tx_update f) pc) ops = tx_rest be pc ops"
proof -
  show p: "op_payload (set_pair (p_tx_update f) pc) op = op_payload pc op" for op by (simp add: op_payload_def split: Opcode.splits option.splits)
  then show "op_stream be (set_pair (p_tx_update f) pc) op = op_stream be pc op" for op by (simp add: op_stream_def)
  then show "tx_rest be (set_pair (p_tx_update f) pc) ops = tx_rest be pc ops" by (simp add: tx_rest_def)
  show "op_wf (set_pair (p_tx_update f) pc) op = op_wf pc op" by (simp add: op_wf_def p split: Opcode.splits)
qed

lemma epoll_irrelevant [simp]:
  "op_stream be (pc\<lparr>pc_epoll := x\<rparr>) op = op_stream be pc op" "op_wf (pc\<lparr>pc_epoll := x\<rparr>) op = op_wf pc op"
  "out_stream be (pc\<lparr>pc_epoll := x\<rparr>) = out_stream be pc" "tx_wf (pc\<lparr>pc_epoll := x\<rparr>) = tx_wf pc"
proof -
  have p: "op_payload (pc\<lparr>pc_epoll := x\<rparr>) op = op_payload pc op" for op by (simp add: op_payload_def split: Opcode.splits option.splits)
  then show "op_stream be (pc\<lparr>pc_epoll := x\<rparr>) op = op_stream be pc op" for op by (simp add: op_stream_def)
  then show "out_stream be (pc\<lparr>pc_epoll := x\<rparr>) = out_stream be pc" by (simp add: out_stream_def tx_rest_def)
  show "op_wf (pc\<lparr>pc_epoll := x\<rparr>) op = op_wf pc op" for op by (simp add: op_wf_def p split: Opcode.splits)
  then show "tx_wf (pc\<lparr>pc_epoll := x\<rparr>) = tx_wf pc" by (simp add: tx_wf_def)
qed

lemma flush_loop_stream:
  assumes "tx_wf pc" "flush_loop be css pc = Some (Inr pc')"
  shows "out_stream be pc' = out_stream be pc \<and> tx_wf pc' \<and> pc_in pc' = pc_in pc \<and> pc_umem pc' = pc_umem pc \<and> pc_bmem pc' = pc_bmem pc"
  using assms
proof (induction be css pc rule: flush_loop.induct)
  case (1 be css pc)
  show ?case
  proof (cases "p_tx (pc_pair pc)")
    case Nil
    with 1 show ?thesis by (simp add: flush_loop.simps)
  next
    case (Cons op tx)
    note step = 1(3) [unfolded flush_loop.simps [of be css pc] Cons list.case]
    then obtain cs css' where css: "css = cs # css'" by (cases css) simp_all
    from step css obtain ok op' pc1 where w: "Pair_write be cs op pc = Some (Inr (ok, op', pc1))"
      by (auto split: option.splits sum.splits)
    have wf: "op_wf pc op" "\<forall>op \<in> set tx. op_wf pc op" using 1(2) Cons by (auto simp: tx_wf_def)
    note s = Pair_write_stream [OF wf(1) w]
    have len: "drop (pre_nbytes op) (op_stream be pc op) = []" using stream_length [OF wf(1), of be] by simp
    show ?thesis
    proof (cases ok)
      case True
      let ?pc = "set_pair (p_tx_update (\<lambda>_. tx)) pc1"
      have run: "flush_loop be css' ?pc = Some (Inr pc')" using step css w True by simp
      have "tx_wf ?pc" using wf(2) same_data_op(3) [OF s(1)] by (simp add: tx_wf_def set_pair_tx)
      from 1(1) [OF Cons css w refl refl refl True this run] have IH: "out_stream be pc' = out_stream be ?pc" "tx_wf pc'"
        "pc_in pc' = pc_in ?pc" "pc_umem pc' = pc_umem ?pc" "pc_bmem pc' = pc_bmem ?pc" by auto
      moreover have "out_stream be ?pc = out_stream be pc"
        using s(4,5) True Cons len tx_rest_same [OF s(1), of be tx] by (simp add: out_stream_def set_pair_tx) (simp add: tx_rest_def)
      ultimately show ?thesis using s(1) by (simp add: same_data_def)
    next
      case False
      then have pc': "pc' = set_pair (p_tx_update (\<lambda>_. op' # tx)) pc1" using step css w False by simp
      have "tx_wf pc'" unfolding pc' using wf(2) s(2) same_data_op(3) [OF s(1)] by (simp add: tx_wf_def set_pair_tx)
      moreover have "out_stream be pc' = out_stream be pc"
        using s(3,4) Cons tx_rest_same [OF s(1), of be tx] unfolding pc' by (simp add: out_stream_def set_pair_tx) (simp add: tx_rest_def)
      ultimately show ?thesis using s(1) by (simp add: same_data_def pc')
    qed
  qed
qed

lemma handleWritable_cases:
  assumes "handleWritable be css pc = Some (Inr pc')"
  shows "\<exists>pc1. flush_loop be css pc = Some (Inr pc1) \<and> (pc' = pc1 \<or> p_tx (pc_pair pc1) = [] \<and> pc_fd pc1 \<noteq> None \<and> pc' = pc1\<lparr>pc_epoll := Some False\<rparr>)"
proof -
  from assms obtain r where r: "flush_loop be css pc = Some r" "rbind r (\<lambda>pc. if p_tx (pc_pair pc) = [] then registerDescriptor False pc else Inr pc) = Inr pc'"
    by (auto simp: handleWritable_def split: if_splits)
  then show ?thesis by (auto simp: rbind_Inr_conv registerDescriptor_def enforce_Inr_conv split: if_splits)
qed

lemma sendAsync_cases:
  assumes "sendAsync be cs op pc = Some (Inr pc')" "p_tx (pc_pair pc) = []"
  shows "\<exists>ok op' pc1. Pair_write be cs op pc = Some (Inr (ok, op', pc1)) \<and> \<not> p_sync (pc_pair pc) \<and>
    (ok \<and> pc' = pc1 \<or> \<not> ok \<and> p_ex (pc_pair pc1) = None \<and> pc_fd pc1 \<noteq> None \<and> pc' = (set_pair (p_tx_update (\<lambda>tx. tx @ [op'])) pc1)\<lparr>pc_epoll := Some True\<rparr>)"
  using assms by (auto simp: sendAsync_def rbind_Inr_conv registerDescriptor_def enforce_Inr_conv throwIfException_def split: if_splits option.splits)

lemma handleWritable_stream:
  assumes "tx_wf pc" "handleWritable be css pc = Some (Inr pc')"
  shows "out_stream be pc' = out_stream be pc" "tx_wf pc'"
proof -
  from handleWritable_cases [OF assms(2)] obtain pc1 where "flush_loop be css pc = Some (Inr pc1)" "pc' = pc1 \<or> pc' = pc1\<lparr>pc_epoll := Some False\<rparr>" by blast
  with flush_loop_stream [OF assms(1)] show "out_stream be pc' = out_stream be pc" "tx_wf pc'" by auto
qed

lemma sendAsync_stream:
  assumes "tx_wf pc" "op_wf pc op" "op_nwritten op = 0" "sendAsync be cs op pc = Some (Inr pc')"
  shows "out_stream be pc' = out_stream be pc @ op_stream be pc op" "tx_wf pc'"
proof -
  have "out_stream be pc' = out_stream be pc @ op_stream be pc op \<and> tx_wf pc'"
  proof (cases "p_tx (pc_pair pc) = []")
    case False
    then have pc': "pc' = set_pair (p_tx_update (\<lambda>tx. tx @ [op])) pc" using assms(4) by (simp add: sendAsync_def split: if_splits)
    show ?thesis using assms(1-3) unfolding pc' by (simp add: out_stream_def tx_wf_def set_pair_tx) (simp add: tx_rest_def)
  next
    case True
    from sendAsync_cases [OF assms(4) True] obtain ok op' pc1 where w: "Pair_write be cs op pc = Some (Inr (ok, op', pc1))"
      and pc': "ok \<and> pc' = pc1 \<or> \<not> ok \<and> pc' = (set_pair (p_tx_update (\<lambda>tx. tx @ [op'])) pc1)\<lparr>pc_epoll := Some True\<rparr>" by blast
    note s = Pair_write_stream [OF assms(2) w]
    have tx: "p_tx (pc_pair pc1) = []" using s(1) True by (simp add: same_data_def)
    show ?thesis
    proof (cases ok)
      case ok: True
      then have "pc' = pc1" using pc' by simp
      then show ?thesis using s(4,5) ok tx True assms(3) stream_length [OF assms(2), of be] by (simp add: out_stream_def tx_rest_def tx_wf_def)
    next
      case False
      then have "pc' = (set_pair (p_tx_update (\<lambda>tx. tx @ [op'])) pc1)\<lparr>pc_epoll := Some True\<rparr>"
        using pc' by simp
      then have "out_stream be pc' = out_stream be (set_pair (p_tx_update (\<lambda>tx. tx @ [op'])) pc1)" "tx_wf pc' = tx_wf (set_pair (p_tx_update (\<lambda>tx. tx @ [op'])) pc1)"
        by (simp_all only: epoll_irrelevant)
      then show ?thesis using s(2,3,4) tx True assms(3)
        by (simp add: out_stream_def tx_wf_def set_pair_tx) (simp add: tx_rest_def set_pair_tx)
    qed
  qed
  then show "out_stream be pc' = out_stream be pc @ op_stream be pc op" "tx_wf pc'" by auto
qed

end
