(* ===== verification/Gloo_Wire_Read.thy ===== *)
theory Gloo_Wire_Read
  imports Gloo_Wire
begin

text \<open>
  The receiving side of the byte stream of \<open>Gloo_Wire\<close>: however the stream is cut into pieces by the
  network and the system calls, the pair reads the operations that the peer wrote, in their order, and
  stores each payload in its place.
\<close>

section \<open>An operation that is being read\<close>

definition wire_wf :: "Op \<Rightarrow> bytes \<Rightarrow> bool" where
  "wire_wf op d \<longleftrightarrow> pre_length op < u64_range \<and> pre_roffset op + pre_length op < u64_range \<and>
     (case pre_opcode op of SEND_BUFFER \<Rightarrow> pre_length op = length d | SEND_UNBOUND_BUFFER \<Rightarrow> pre_length op = length d | _ \<Rightarrow> d = [])"

definition wire_bytes :: "bool \<Rightarrow> Op \<Rightarrow> bytes \<Rightarrow> bytes" where
  "wire_bytes be op d = preamble_bytes be op @ d"

abbreviation nread :: "Proc \<Rightarrow> nat" where "nread pc \<equiv> rx_nread (pc_rx pc)"

text \<open>The first \<open>n\<close> bytes of the payload are stored at an offset of a memory.\<close>

definition stored :: "bytes \<Rightarrow> nat \<Rightarrow> nat \<Rightarrow> bytes \<Rightarrow> bool" where
  "stored d n off mem \<longleftrightarrow> off + n \<le> length mem \<and> read_at off n mem = take n d"

definition rx_ok :: "bool \<Rightarrow> Op \<Rightarrow> bytes \<Rightarrow> Proc \<Rightarrow> bool" where
  "rx_ok be op d pc \<longleftrightarrow> nread pc \<le> length (wire_bytes be op d) \<and> rx_pre (pc_rx pc) = take (nread pc) (preamble_bytes be op) \<and>
     (nread pc \<le> preamble_size \<or> (case pre_opcode op of
        SEND_BUFFER \<Rightarrow> (\<exists>b. rx_buf (pc_rx pc) = Some b \<and> stored d (nread pc - preamble_size) (pre_roffset op) (pc_bmem pc b))
      | SEND_UNBOUND_BUFFER \<Rightarrow> (\<exists>x. rx_ubuf (pc_rx pc) = Some x \<and> stored d (nread pc - preamble_size) (uo_offset x) (pc_umem pc (uo_buf x)))
      | _ \<Rightarrow> False))"

text \<open>The target that \<open>prepareRead\<close> chooses, and the number of bytes it asks for.\<close>

definition target_ok :: "Op \<Rightarrow> bytes \<Rightarrow> Proc \<Rightarrow> target \<Rightarrow> nat \<Rightarrow> bool" where
  "target_ok op d pc t n \<longleftrightarrow>
     (if nread pc < preamble_size then t = TPre \<and> n = preamble_size - nread pc
      else n = preamble_size + length d - nread pc \<and>
        (case pre_opcode op of
           SEND_BUFFER \<Rightarrow> (\<exists>b. rx_buf (pc_rx pc) = Some b \<and> t = TBuf b (pre_roffset op + (nread pc - preamble_size)))
         | SEND_UNBOUND_BUFFER \<Rightarrow> (\<exists>x. rx_ubuf (pc_rx pc) = Some x \<and> t = TUbuf (uo_buf x) (uo_offset x + (nread pc - preamble_size)))
         | _ \<Rightarrow> True))"

lemma stored_0 [simp]: "stored d 0 off mem \<longleftrightarrow> off \<le> length mem"
  by (simp add: stored_def read_at_def)

lemma stored_extend:
  assumes "stored d n off mem" "bs = take m (drop n d)" "off + n + length bs \<le> length mem"
  shows "stored d (n + length bs) off (write_at (off + n) bs mem)"
proof -
  have "read_at off n (write_at (off + n) bs mem) = read_at off n mem" using assms(1,3) by (intro read_write_disjoint) (simp_all add: stored_def)
  moreover have "read_at (off + n) (length bs) (write_at (off + n) bs mem) = bs" using assms(3) by (intro read_write_same)
  moreover have "take (length bs) (drop n d) = bs" unfolding assms(2) by (simp add: min_def)
  then have "take (n + length bs) d = take n d @ bs" by (simp add: take_add)
  ultimately show ?thesis using assms(1,3) by (simp add: stored_def read_at_add length_write_at)
qed

lemma rx_fields:
  assumes "rx_ok be op d pc" "preamble_size \<le> nread pc" "wire_wf op d"
  shows "getOpcode (pre_field be (rx_pre (pc_rx pc)) 1) = Some (pre_opcode op)" "pre_field be (rx_pre (pc_rx pc)) 2 = pre_slot op"
    "unat (pre_field be (rx_pre (pc_rx pc)) 4) = pre_length op" "unat (pre_field be (rx_pre (pc_rx pc)) 5) = pre_roffset op"
proof -
  have pre: "rx_pre (pc_rx pc) = preamble_bytes be op" using assms(1,2) by (simp add: rx_ok_def)
  have w: "preamble_words op ! Suc 0 = of_nat (opcode_nat (pre_opcode op))" "preamble_words op ! 2 = pre_slot op"
    "preamble_words op ! 4 = of_nat (pre_length op)" "preamble_words op ! 5 = of_nat (pre_roffset op)"
    by (simp_all add: preamble_words_def)
  show "getOpcode (pre_field be (rx_pre (pc_rx pc)) 1) = Some (pre_opcode op)"
    unfolding pre by (simp add: pre_field_bytes w getOpcode_def) (cases "pre_opcode op"; simp)
  show "pre_field be (rx_pre (pc_rx pc)) 2 = pre_slot op" unfolding pre by (simp add: pre_field_bytes w)
  show "unat (pre_field be (rx_pre (pc_rx pc)) 4) = pre_length op" "unat (pre_field be (rx_pre (pc_rx pc)) 5) = pre_roffset op"
    unfolding pre using assms(3) by (simp_all add: pre_field_bytes w wire_wf_def unat_of_nat)
qed

lemma rx_ok_length: "rx_ok be op d pc \<Longrightarrow> nread pc \<le> preamble_size + length d"
  by (simp add: rx_ok_def wire_bytes_def)

lemma prepareRead_ok:
  assumes ok: "rx_ok be op d pc" and wf: "wire_wf op d" and r: "prepareRead be pc = Inr (pc1, r)"
  shows "rx_ok be op d pc1" "pc_in pc1 = pc_in pc" "p_ex (pc_pair pc1) = p_ex (pc_pair pc)" "nread pc1 = nread pc"
    "r = Some (t, n) \<Longrightarrow> target_ok op d pc1 t n"
proof -
  have "rx_ok be op d pc1 \<and> pc_in pc1 = pc_in pc \<and> p_ex (pc_pair pc1) = p_ex (pc_pair pc) \<and> nread pc1 = nread pc \<and>
    (\<forall>t n. r = Some (t, n) \<longrightarrow> target_ok op d pc1 t n)"
  proof (cases "nread pc < preamble_size")
    case True
    then show ?thesis using r ok by (auto simp: prepareRead_def Let_def target_ok_def)
  next
    case False
    note f = rx_fields [OF ok _ wf]
    have le: "preamble_size \<le> nread pc" using False by simp
    have sub: "u64_sub (pre_length op) (nread pc - preamble_size) = preamble_size + length d - nread pc" if "pre_length op = length d"
      using wf rx_ok_length [OF ok] le that by (simp add: wire_wf_def u64_sub_exact)
    show ?thesis
    proof (cases "pre_opcode op")
      case SEND_BUFFER
      let ?b = "if rx_buf (pc_rx pc) = None then getBuffer (pre_slot op) pc else rx_buf (pc_rx pc)"
      have pl: "pre_length op = length d" using wf SEND_BUFFER by (simp add: wire_wf_def)
      have e: "prepareRead be pc = (case ?b of None \<Rightarrow> Inr (pc, None)
          | Some b \<Rightarrow> enforce (u64_add (pre_roffset op) (pre_length op) \<le> b_size (pc_bufs pc b))
              (Inr (pc\<lparr>pc_rx := (pc_rx pc)\<lparr>rx_buf := Some b\<rparr>\<rparr>, Some (TBuf b (nread pc - preamble_size + pre_roffset op),
                u64_sub (pre_length op) (nread pc - preamble_size)))))"
        unfolding prepareRead_def Let_def f(1) [OF le] f(2) [OF le] f(3) [OF le] f(4) [OF le] using False SEND_BUFFER by simp
      show ?thesis
      proof (cases ?b)
        case None
        then show ?thesis using r ok unfolding e None by simp
      next
        case (Some b)
        have pc1: "pc1 = pc\<lparr>pc_rx := (pc_rx pc)\<lparr>rx_buf := Some b\<rparr>\<rparr>"
          "r = Some (TBuf b (nread pc - preamble_size + pre_roffset op), u64_sub (pre_length op) (nread pc - preamble_size))"
          using r unfolding e Some by (auto simp: enforce_Inr_conv)
        have "rx_ok be op d pc1" using ok SEND_BUFFER Some unfolding pc1 rx_ok_def by (auto split: if_splits)
        then show ?thesis using SEND_BUFFER False sub [OF pl] by (simp add: pc1 target_ok_def add.commute)
      qed
    next
      case SEND_UNBOUND_BUFFER
      have pl: "pre_length op = length d" using wf SEND_UNBOUND_BUFFER by (simp add: wire_wf_def)
      let ?find = "case rx_ubuf (pc_rx pc) of Some x \<Rightarrow> Inr (x, pc) | None \<Rightarrow> (case localPendingRecv (pc_pair pc) (pre_slot op) of
          None \<Rightarrow> Inl EnforceNotMet | Some queue \<Rightarrow> rbind (queue_pop (pre_slot op) queue (localPendingRecv (pc_pair pc)))
            (\<lambda>(x, m). Inr (x, (set_pair (localPendingRecv_update (\<lambda>_. m)) pc)\<lparr>pc_rx := (pc_rx pc)\<lparr>rx_ubuf := Some x\<rparr>\<rparr>)))"
      from r have "rbind ?find (\<lambda>(x, pc'). if pc_ubufs pc' (uo_buf x) = None then Inr (pc', None)
          else enforce (pre_length op \<le> uo_nbytes x) (Inr (pc', Some (TUbuf (uo_buf x) (uo_offset x + (nread pc - preamble_size)),
            u64_sub (pre_length op) (nread pc - preamble_size))))) = Inr (pc1, r)"
        unfolding prepareRead_def Let_def f(1) [OF le] f(2) [OF le] f(3) [OF le] using False SEND_UNBOUND_BUFFER by simp
      then obtain x where x: "?find = Inr (x, pc1)"
        "r = None \<or> r = Some (TUbuf (uo_buf x) (uo_offset x + (nread pc - preamble_size)), u64_sub (pre_length op) (nread pc - preamble_size))"
        by (auto simp: rbind_Inr_conv enforce_Inr_conv split: if_splits)
      have pc1: "rx_ubuf (pc_rx pc1) = Some x" "nread pc1 = nread pc" "rx_pre (pc_rx pc1) = rx_pre (pc_rx pc)" "pc_umem pc1 = pc_umem pc"
        "pc_in pc1 = pc_in pc" "p_ex (pc_pair pc1) = p_ex (pc_pair pc)" "rx_ubuf (pc_rx pc) = None \<or> rx_ubuf (pc_rx pc) = Some x"
        using x(1) by (auto simp: rbind_Inr_conv split: option.splits)
      have "rx_ok be op d pc1" using ok pc1 SEND_UNBOUND_BUFFER unfolding rx_ok_def by auto
      then show ?thesis using SEND_UNBOUND_BUFFER False sub [OF pl] x(2) pc1 by (auto simp: target_ok_def)
    next
      case NOTIFY_SEND_READY
      then have "pc1 = pc" "r = Some (TPre, 0)" "d = []" using r wf f(1) [OF le] False by (auto simp: prepareRead_def Let_def wire_wf_def)
      then show ?thesis using NOTIFY_SEND_READY ok le rx_ok_length [OF ok] by (simp add: target_ok_def)
    next
      case NOTIFY_RECV_READY
      then have "pc1 = pc" "r = Some (TPre, 0)" "d = []" using r wf f(1) [OF le] False by (auto simp: prepareRead_def Let_def wire_wf_def)
      then show ?thesis using NOTIFY_RECV_READY ok le rx_ok_length [OF ok] by (simp add: target_ok_def)
    qed
  qed
  then show "rx_ok be op d pc1" "pc_in pc1 = pc_in pc" "p_ex (pc_pair pc1) = p_ex (pc_pair pc)" "nread pc1 = nread pc"
    "r = Some (t, n) \<Longrightarrow> target_ok op d pc1 t n" by blast+
qed

lemma rx_ok_in [simp]: "rx_ok be op d (pc\<lparr>pc_in := x\<rparr>) = rx_ok be op d pc" "target_ok op d (pc\<lparr>pc_in := x\<rparr>) t n = target_ok op d pc t n"
  by (simp_all add: rx_ok_def target_ok_def split: Opcode.splits)

lemma store_ok:
  assumes ok: "rx_ok be op d pc" and wf: "wire_wf op d" and t: "target_ok op d pc t n"
    and bs: "bs = take m (drop (nread pc) (wire_bytes be op d))" "length bs \<le> n" "bs \<noteq> []" and st: "store_bytes t bs pc = Inr pc'"
  shows "rx_ok be op d pc'" "nread pc' = nread pc + length bs" "pc_in pc' = pc_in pc" "p_ex (pc_pair pc') = p_ex (pc_pair pc)"
proof -
  let ?k = "nread pc - preamble_size"
  have len: "nread pc + length bs \<le> length (wire_bytes be op d)"
  proof -
    have "length bs \<le> length (wire_bytes be op d) - nread pc" using bs(1) by simp
    moreover have "nread pc \<le> length (wire_bytes be op d)" using ok by (simp add: rx_ok_def)
    ultimately show ?thesis by linarith
  qed
  have "rx_ok be op d pc' \<and> nread pc' = nread pc + length bs \<and> pc_in pc' = pc_in pc \<and> p_ex (pc_pair pc') = p_ex (pc_pair pc)"
  proof (cases "nread pc < preamble_size")
    case True
    then have n: "t = TPre" "nread pc + length bs \<le> preamble_size" using t bs(2) by (auto simp: target_ok_def)
    then have pc': "pc' = pc\<lparr>pc_rx := (pc_rx pc)\<lparr>rx_nread := nread pc + length bs, rx_pre := rx_pre (pc_rx pc) @ bs\<rparr>\<rparr>"
      using st by (simp add: store_bytes_def Let_def)
    have "bs = take (length bs) (drop (nread pc) (wire_bytes be op d))" unfolding bs(1) by (simp add: min_def)
    then have "bs = take (length bs) (drop (nread pc) (preamble_bytes be op))" using n(2) True by (simp add: wire_bytes_def)
    then have "take (nread pc + length bs) (preamble_bytes be op) = take (nread pc) (preamble_bytes be op) @ bs" by (simp add: take_add)
    then have "rx_ok be op d pc'" using ok n(2) len unfolding rx_ok_def by (simp add: pc')
    then show ?thesis by (simp add: pc')
  next
    case False
    have k: "bs = take m (drop ?k d)" unfolding bs(1) using False by (simp add: wire_bytes_def)
    have k': "nread pc + length bs - preamble_size = ?k + length bs" using False by simp
    have "0 < length bs" using bs(3) by simp
    then have big: "preamble_size < nread pc + length bs" using False by linarith
    have pre: "rx_pre (pc_rx pc) = take (nread pc + length bs) (preamble_bytes be op)" using ok False by (simp add: rx_ok_def)
    show ?thesis
    proof (cases "pre_opcode op")
      case SEND_BUFFER
      with t False obtain b where b: "rx_buf (pc_rx pc) = Some b" "t = TBuf b (pre_roffset op + ?k)" by (auto simp: target_ok_def)
      then have fit: "pre_roffset op + ?k + length bs \<le> length (pc_bmem pc b)"
        and pc': "pc' = pc\<lparr>pc_rx := (pc_rx pc)\<lparr>rx_nread := nread pc + length bs\<rparr>, pc_bmem := (pc_bmem pc)(b := write_at (pre_roffset op + ?k) bs (pc_bmem pc b))\<rparr>"
        using st by (auto simp: store_bytes_def Let_def split: if_splits)
      have "stored d ?k (pre_roffset op) (pc_bmem pc b)"
      proof (cases "?k = 0")
        case False
        then show ?thesis using ok SEND_BUFFER b(1) by (auto simp: rx_ok_def)
      qed (use fit in simp)
      from stored_extend [OF this k fit] have "rx_ok be op d pc'"
        unfolding rx_ok_def SEND_BUFFER Opcode.case pc' using len b(1) pre by (simp add: k')
      then show ?thesis by (simp add: pc')
    next
      case SEND_UNBOUND_BUFFER
      with t False obtain x where x: "rx_ubuf (pc_rx pc) = Some x" "t = TUbuf (uo_buf x) (uo_offset x + ?k)" by (auto simp: target_ok_def)
      then have fit: "uo_offset x + ?k + length bs \<le> length (pc_umem pc (uo_buf x))"
        and pc': "pc' = pc\<lparr>pc_rx := (pc_rx pc)\<lparr>rx_nread := nread pc + length bs\<rparr>, pc_umem := (pc_umem pc)(uo_buf x := write_at (uo_offset x + ?k) bs (pc_umem pc (uo_buf x)))\<rparr>"
        using st by (auto simp: store_bytes_def Let_def split: if_splits)
      have "stored d ?k (uo_offset x) (pc_umem pc (uo_buf x))"
      proof (cases "?k = 0")
        case False
        then show ?thesis using ok SEND_UNBOUND_BUFFER x(1) by (auto simp: rx_ok_def)
      qed (use fit in simp)
      from stored_extend [OF this k fit] have "rx_ok be op d pc'"
        unfolding rx_ok_def SEND_UNBOUND_BUFFER Opcode.case pc' using len x(1) pre by (simp add: k')
      then show ?thesis by (simp add: pc')
    qed (use k bs(3) wf in \<open>simp_all add: wire_wf_def\<close>)
  qed
  then show "rx_ok be op d pc'" "nread pc' = nread pc + length bs" "pc_in pc' = pc_in pc" "p_ex (pc_pair pc') = p_ex (pc_pair pc)" by simp_all
qed

text \<open>
  One call of the reading loop on a stream of which a part has arrived: unless an error is signalled, it
  consumes a part of the operation, and all of it when it reports the operation as complete.
\<close>

lemma read_loop_ok:
  assumes "wire_wf op d" "rx_ok be op d pc" "pc_in pc @ fut = drop (nread pc) (wire_bytes be op d) @ rest"
    and "read_loop be cs pc = Some (Inr (ok, pc'))"
  shows "p_ex (pc_pair pc') \<noteq> None \<and> p_state (pc_pair pc') = CLOSED \<and> \<not> ok \<or>
    rx_ok be op d pc' \<and> pc_in pc' @ fut = drop (nread pc') (wire_bytes be op d) @ rest \<and> p_ex (pc_pair pc') = p_ex (pc_pair pc) \<and>
    (ok \<longrightarrow> nread pc' = length (wire_bytes be op d) \<and> (\<exists>t. target_ok op d pc' t 0))"
  using assms(2-)
proof (induction cs arbitrary: pc)
  case Nil
  then obtain pc1 r where p: "prepareRead be pc = Inr (pc1, r)" by (auto simp: read_loop.simps split: sum.splits)
  note q = prepareRead_ok [OF Nil.prems(1) assms(1) p]
  from Nil.prems(3) consider "r = None" "pc' = pc1" "\<not> ok" | t where "r = Some (t, 0)" "pc' = pc1" "ok"
    by (auto simp: read_loop.simps [of be _ pc] p Let_def split: option.splits nat.splits)
  then show ?case
  proof cases
    case 2
    from q(5) [OF 2(1)] have "target_ok op d pc1 t 0" .
    moreover from this q(1) have "nread pc1 = length (wire_bytes be op d)" using rx_ok_length [OF q(1)] by (auto simp: target_ok_def wire_bytes_def split: if_splits)
    ultimately show ?thesis using q(1-4) Nil.prems(2) 2 by auto
  qed (use q Nil.prems in auto)
next
  case (Cons c cs)
  then obtain pc1 r where p: "prepareRead be pc = Inr (pc1, r)" by (auto simp: read_loop.simps [of be _ pc] split: sum.splits)
  note q = prepareRead_ok [OF Cons.prems(1) assms(1) p]
  have inp: "pc_in pc1 @ fut = drop (nread pc1) (wire_bytes be op d) @ rest" using q(2,4) Cons.prems(2) by simp
  consider "r = None" | t where "r = Some (t, 0)" | t n where "r = Some (t, Suc n)"
    by (metis not0_implies_Suc option.exhaust prod.exhaust)
  then show ?case
  proof cases
    case 1
    then show ?thesis using Cons.prems(3) q inp by (auto simp: read_loop.simps [of be _ pc] p)
  next
    case 2
    from q(5) [OF 2] have "target_ok op d pc1 t 0" .
    moreover from this q(1) have "nread pc1 = length (wire_bytes be op d)" using rx_ok_length [OF q(1)] by (auto simp: target_ok_def wire_bytes_def split: if_splits)
    moreover have "pc' = pc1" using Cons.prems(3) 2 by (auto simp: read_loop.simps [of be _ pc] p)
    ultimately show ?thesis using q(1-4) inp by auto
  next
    case (3 t n)
    note IH = Cons.IH [OF q(1) inp]
    have fail: ?thesis if "rbind (signalException IoException pc1) (\<lambda>pc. Inr (False, pc)) = Inr (ok, pc')"
      using that signalException_same(3,4) by (auto simp: rbind_Inr_conv)
    have stop: ?thesis if "pc' = pc1" "\<not> ok" using that q(1-4) inp by auto
    have loop: ?thesis if "read_loop be cs pc1 = Some (Inr (ok, pc'))" using IH [OF that] q(3) by auto
    have again: ?thesis if "(case (if p_sync (pc_pair pc1) then if pc_busyPoll pc1 \<and> \<not> timedOut then None
        else Some (Some (rbind (signalException IoException pc1) (\<lambda>pc. Inr (False, pc)))) else Some (Some (Inr (False, pc1)))) of
        None \<Rightarrow> read_loop be cs pc1 | Some r \<Rightarrow> r) = Some (Inr (ok, pc'))" for timedOut
      using that fail stop loop by (auto split: if_splits)
    show ?thesis
    proof (cases c)
      case (RTake k)
      show ?thesis
      proof (cases "pc_in pc1 = []")
        case True
        then show ?thesis using Cons.prems(3) 3 RTake by (intro again [of False]) (simp add: read_loop.simps [of be _ pc] p Let_def)
      next
        case False
        define bs where "bs = take (min (Suc k) (Suc n)) (pc_in pc1)"
        let ?pc = "pc1\<lparr>pc_in := drop (length bs) (pc_in pc1)\<rparr>"
        from Cons.prems(3) 3 RTake False obtain pc2 where st: "store_bytes t bs ?pc = Inr pc2" and run: "read_loop be cs pc2 = Some (Inr (ok, pc'))"
          by (auto simp: read_loop.simps [of be _ pc] p Let_def bs_def split: sum.splits)
        have t: "target_ok op d pc1 t (Suc n)" using q(5) [OF 3] .
        have rok: "rx_ok be op d ?pc" "target_ok op d ?pc t (Suc n)" using q(1) t by simp_all
        have "Suc n \<le> length (wire_bytes be op d) - nread pc1" using t rx_ok_length [OF q(1)] by (auto simp: target_ok_def wire_bytes_def split: if_splits)
        then have "length bs \<le> length (drop (nread pc1) (wire_bytes be op d))" by (simp add: bs_def)
        moreover have "bs = take (length bs) (drop (nread pc1) (wire_bytes be op d) @ rest)" unfolding inp [symmetric] by (simp add: bs_def min_def)
        ultimately have bs: "bs = take (length bs) (drop (nread ?pc) (wire_bytes be op d))" by simp
        have ne: "length bs \<le> Suc n" "bs \<noteq> []" using False by (auto simp: bs_def)
        note s = store_ok [OF rok(1) assms(1) rok(2) bs ne st]
        have "pc_in pc1 = bs @ pc_in ?pc" by (simp add: bs_def min_def)
        then have "bs @ pc_in ?pc @ fut = drop (nread pc1) (wire_bytes be op d) @ rest" using inp by (metis append_assoc)
        also have "drop (nread pc1) (wire_bytes be op d) = bs @ drop (nread pc1 + length bs) (wire_bytes be op d)"
          using bs append_take_drop_id [of "length bs" "drop (nread pc1) (wire_bytes be op d)"] by (simp add: add.commute)
        finally have "pc_in pc2 @ fut = drop (nread pc2) (wire_bytes be op d) @ rest" using s(2,3) by simp
        from Cons.IH [OF s(1) this run] s(4) q(3) show ?thesis by auto
      qed
    next
      case (RAgain timedOut)
      then show ?thesis using Cons.prems(3) 3 by (intro again [of timedOut]) (simp add: read_loop.simps [of be _ pc] p Let_def)
    next
      case RIntr
      then show ?thesis using Cons.prems(3) 3 by (intro loop) (simp add: read_loop.simps [of be _ pc] p Let_def)
    next
      case RErr
      then show ?thesis using Cons.prems(3) 3 by (intro fail) (simp add: read_loop.simps [of be _ pc] p Let_def)
    next
      case REof
      then show ?thesis using Cons.prems(3) 3 by (intro fail) (simp add: read_loop.simps [of be _ pc] p Let_def)
    qed
  qed
qed

section \<open>Runs of the receiver\<close>

text \<open>Bytes arrive from the network, and the loop calls the pair when the socket is readable.\<close>

datatype net_event = Arrive bytes | Readable "wcall list list" "rcall list"

text \<open>A complete operation as the pair sees it, with the payload in its memory.\<close>

definition received :: "bool \<Rightarrow> Proc \<Rightarrow> Opcode option \<times> slot_t \<times> nat \<times> bytes" where
  "received be pc =
     (let pre = rx_pre (pc_rx pc); opcode = getOpcode (pre_field be pre 1); plen = unat (pre_field be pre 4)
      in (opcode, pre_field be pre 2, plen,
          case opcode of
            Some SEND_BUFFER \<Rightarrow> (case rx_buf (pc_rx pc) of None \<Rightarrow> [] | Some b \<Rightarrow> read_at (unat (pre_field be pre 5)) plen (pc_bmem pc b))
          | Some SEND_UNBOUND_BUFFER \<Rightarrow> (case rx_ubuf (pc_rx pc) of None \<Rightarrow> [] | Some x \<Rightarrow> read_at (uo_offset x) plen (pc_umem pc (uo_buf x)))
          | _ \<Rightarrow> []))"

text \<open>The operations that a run of the receiver completes, at the moment of their dispatch, and its last state.\<close>

fun receive_run :: "bool \<Rightarrow> net_event list \<Rightarrow> Proc \<Rightarrow> ((Opcode option \<times> slot_t \<times> nat \<times> bytes) list \<times> Proc) result option" where
  "receive_run be [] pc = Some (Inr ([], pc))"
| "receive_run be (Arrive bs # es) pc = receive_run be es (pc\<lparr>pc_in := pc_in pc @ bs\<rparr>)"
| "receive_run be (Readable w cs # es) pc =
     (case Pair_read be w cs pc of
        None \<Rightarrow> None
      | Some (Inl e) \<Rightarrow> Some (Inl e)
      | Some (Inr (ok, pc')) \<Rightarrow>
          map_option (\<lambda>r. rbind r (\<lambda>(log, pc''). Inr ((if ok then (case read_loop be cs pc of Some (Inr (True, q)) \<Rightarrow> [received be q] | _ \<Rightarrow> []) else []) @ log, pc'')))
            (receive_run be es pc'))"

fun arrivals :: "net_event list \<Rightarrow> bytes" where
  "arrivals [] = []"
| "arrivals (Arrive bs # es) = bs @ arrivals es"
| "arrivals (Readable w cs # es) = arrivals es"

definition op_view :: "Op \<times> bytes \<Rightarrow> Opcode option \<times> slot_t \<times> nat \<times> bytes" where
  "op_view od = (Some (pre_opcode (fst od)), pre_slot (fst od), pre_length (fst od), snd od)"

definition stream_of :: "bool \<Rightarrow> (Op \<times> bytes) list \<Rightarrow> bytes" where
  "stream_of be ods = concat (map (\<lambda>(op, d). wire_bytes be op d) ods)"

lemma received_view:
  assumes "wire_wf op d" "rx_ok be op d pc" "nread pc = length (wire_bytes be op d)" "target_ok op d pc t 0"
  shows "received be pc = op_view (op, d)"
proof -
  have n: "nread pc - preamble_size = length d" "preamble_size \<le> nread pc" using assms(3) by (simp_all add: wire_bytes_def)
  note f = rx_fields [OF assms(2) n(2) assms(1)]
  have z: "d = [] \<or> \<not> nread pc \<le> preamble_size" using assms(3) by (cases d) (simp_all add: wire_bytes_def)
  have "(case Some (pre_opcode op) of
      Some SEND_BUFFER \<Rightarrow> (case rx_buf (pc_rx pc) of None \<Rightarrow> [] | Some b \<Rightarrow> read_at (pre_roffset op) (pre_length op) (pc_bmem pc b))
    | Some SEND_UNBOUND_BUFFER \<Rightarrow> (case rx_ubuf (pc_rx pc) of None \<Rightarrow> [] | Some x \<Rightarrow> read_at (uo_offset x) (pre_length op) (pc_umem pc (uo_buf x)))
    | _ \<Rightarrow> []) = d"
    using assms(1,2,4) n z by (cases "pre_opcode op") (auto simp: rx_ok_def wire_wf_def target_ok_def stored_def read_at_0)
  then show ?thesis unfolding received_def Let_def f op_view_def by simp
qed

lemma sendAsync_rx:
  assumes "sendAsync be cs op pc = Some (Inr pc')"
  shows "pc_rx pc' = pc_rx pc \<and> pc_in pc' = pc_in pc"
proof (cases "p_tx (pc_pair pc) = []")
  case True
  from sendAsync_cases [OF assms this] obtain ok op' pc1 where w: "Pair_write be cs op pc = Some (Inr (ok, op', pc1))"
    and pc': "pc' = pc1 \<or> pc' = (set_pair (p_tx_update (\<lambda>tx. tx @ [op'])) pc1)\<lparr>pc_epoll := Some True\<rparr>" by blast
  then show ?thesis using Pair_write_rx [OF w] by auto
qed (use assms in \<open>auto simp: sendAsync_def split: if_splits\<close>)

lemma send_ops_rx: "send_ops be css ops pc = Some (Inr pc') \<Longrightarrow> pc_rx pc' = pc_rx pc \<and> pc_in pc' = pc_in pc"
  by (induction be css ops pc rule: send_ops.induct) (auto split: option.splits sum.splits dest!: sendAsync_rx)

lemma run_protocol_rx: "run_protocol f be css pc = Some (Inr pc') \<Longrightarrow> pc_rx pc' = pc_rx pc \<and> pc_in pc' = pc_in pc"
  by (auto simp: run_protocol_def Let_def split: sum.splits prod.splits dest!: send_ops_rx)

lemma readComplete_fields: "readComplete be css pc = Some (Inr pc') \<Longrightarrow> pc_rx pc' = Rx_new \<and> pc_in pc' = pc_in pc"
  by (auto simp: readComplete_def Let_def map_sum_Inr_conv split: option.splits Opcode.splits dest!: run_protocol_rx)

text \<open>The receiver follows the stream: the operations to come, with the bytes that have not arrived.\<close>

fun follows :: "bool \<Rightarrow> (Op \<times> bytes) list \<Rightarrow> bytes \<Rightarrow> Proc \<Rightarrow> bool" where
  "follows be [] fut pc \<longleftrightarrow> nread pc = 0 \<and> rx_pre (pc_rx pc) = [] \<and> pc_in pc = [] \<and> fut = []"
| "follows be ((op, d) # ods) fut pc \<longleftrightarrow> rx_ok be op d pc \<and> pc_in pc @ fut = drop (nread pc) (wire_bytes be op d) @ stream_of be ods"

lemma follows_start: "pc_rx pc = Rx_new \<Longrightarrow> pc_in pc @ fut = stream_of be ods \<Longrightarrow> follows be ods fut pc"
  by (cases ods) (auto simp: stream_of_def rx_ok_def Rx_new_def)

lemma follows_read:
  assumes fol: "follows be ods fut pc" and wf: "\<forall>(op, d) \<in> set ods. wire_wf op d" and r: "Pair_read be w cs pc = Some (Inr (ok, pc'))"
    and open_: "p_state (pc_pair pc) \<noteq> CLOSED"
  shows "p_ex (pc_pair pc') \<noteq> None \<and> p_state (pc_pair pc') = CLOSED \<and> \<not> ok \<or> \<not> ok \<and> follows be ods fut pc' \<or>
    ok \<and> (\<exists>od ods'. ods = od # ods' \<and> follows be ods' fut pc' \<and> (\<exists>q. read_loop be cs pc = Some (Inr (True, q)) \<and> received be q = op_view od))"
proof -
  from r open_ obtain ok1 q where q: "read_loop be cs pc = Some (Inr (ok1, q))"
    "if ok1 then ok \<and> readComplete be w q = Some (Inr pc') else \<not> ok \<and> pc' = q"
    by (auto simp: Pair_read_def map_sum_Inr_conv split: option.splits sum.splits bool.splits)
  show ?thesis
  proof (cases ods)
    case Nil
    then have e: "nread pc = 0" "rx_pre (pc_rx pc) = []" "pc_in pc = []" "fut = []" using fol by auto
    define op where "op = Op_new\<lparr>pre_opcode := NOTIFY_SEND_READY\<rparr>"
    have wf': "wire_wf op []" by (simp add: op_def wire_wf_def Op_new_def)
    have "rx_ok be op [] pc" using e by (simp add: rx_ok_def)
    moreover have "pc_in pc @ wire_bytes be op [] = drop (nread pc) (wire_bytes be op []) @ []" using e by simp
    ultimately have "p_ex (pc_pair q) \<noteq> None \<and> p_state (pc_pair q) = CLOSED \<and> \<not> ok1 \<or>
        rx_ok be op [] q \<and> pc_in q @ wire_bytes be op [] = drop (nread q) (wire_bytes be op []) @ [] \<and> p_ex (pc_pair q) = p_ex (pc_pair pc) \<and>
        (ok1 \<longrightarrow> nread q = length (wire_bytes be op []) \<and> (\<exists>t. target_ok op [] q t 0))"
      by (rule read_loop_ok [OF wf' _ _ q(1)])
    moreover have "pc_in q = [] \<and> nread q = 0 \<and> \<not> ok1" if "pc_in q @ wire_bytes be op [] = drop (nread q) (wire_bytes be op []) @ []"
      "ok1 \<longrightarrow> nread q = length (wire_bytes be op [])"
    proof -
      have "length (pc_in q) + preamble_size = preamble_size - nread q" using arg_cong [OF that(1), of length] by (simp add: wire_bytes_def)
      moreover have "0 < preamble_size" by (simp add: preamble_size_def)
      ultimately have "length (pc_in q) = 0 \<and> nread q = 0" by arith
      with that(2) \<open>0 < preamble_size\<close> show ?thesis by (auto simp: wire_bytes_def)
    qed
    ultimately show ?thesis using q(2) Nil e(4) by (auto simp: rx_ok_def)
  next
    case (Cons od ods')
    obtain op d where od: "od = (op, d)" by (cases od)
    have f: "rx_ok be op d pc" "pc_in pc @ fut = drop (nread pc) (wire_bytes be op d) @ stream_of be ods'" using fol Cons od by auto
    have w: "wire_wf op d" using wf Cons od by auto
    from read_loop_ok [OF w f q(1)] consider "p_ex (pc_pair q) \<noteq> None" "p_state (pc_pair q) = CLOSED" "\<not> ok1"
      | "\<not> ok1" "rx_ok be op d q" "pc_in q @ fut = drop (nread q) (wire_bytes be op d) @ stream_of be ods'"
      | t where "ok1" "rx_ok be op d q" "pc_in q @ fut = drop (nread q) (wire_bytes be op d) @ stream_of be ods'"
          "nread q = length (wire_bytes be op d)" "target_ok op d q t 0" by blast
    then show ?thesis
    proof cases
      case 1
      then show ?thesis using q(2) by simp
    next
      case 2
      then show ?thesis using q(2) Cons od by simp
    next
      case (3 t)
      then have rc: "readComplete be w q = Some (Inr pc')" "ok" using q(2) by auto
      have "follows be ods' fut pc'" using readComplete_fields [OF rc(1)] 3(3,4) by (intro follows_start) simp_all
      moreover have "read_loop be cs pc = Some (Inr (True, q))" "received be q = op_view od"
        using q(1) 3(1) received_view [OF w 3(2,4,5)] od by simp_all
      ultimately show ?thesis using rc(2) Cons by (intro disjI2 conjI exI [of _ od] exI [of _ ods'] exI [of _ q])
    qed
  qed
qed

lemma closed_run:
  assumes "p_state (pc_pair pc) = CLOSED" "receive_run be es pc = Some (Inr (log, pc'))"
  shows "log = []" "pc_pair pc' = pc_pair pc"
proof -
  have "log = [] \<and> pc_pair pc' = pc_pair pc"
    using assms
  proof (induction es arbitrary: pc log)
    case (Cons e es)
    have r: "Pair_read be w cs pc = Some (Inr (False, pc))" for w cs using Cons.prems(1) by (simp add: Pair_read_def)
    show ?case
    proof (cases e)
      case (Arrive bs)
      then show ?thesis using Cons.IH [of "pc\<lparr>pc_in := pc_in pc @ bs\<rparr>" log] Cons.prems by simp
    next
      case (Readable w cs)
      then have "receive_run be es pc = Some (Inr (log, pc'))" using Cons.prems(2) r by (auto simp: rbind_Inr_conv)
      then show ?thesis using Cons.IH Cons.prems(1) by blast
    qed
  qed simp
  then show "log = []" "pc_pair pc' = pc_pair pc" by auto
qed

lemma length_stream_take:
  "n \<le> length ods \<Longrightarrow> n * preamble_size \<le> length (stream_of be (take n ods))"
proof (induction n)
  case (Suc n)
  then have "take (Suc n) ods = take n ods @ [ods ! n]" by (simp add: take_Suc_conv_app_nth)
  with Suc show ?case by (simp add: stream_of_def wire_bytes_def split: prod.splits)
qed simp

lemma receive_follows:
  assumes "follows be ods (arrivals es @ fut) pc" "\<forall>(op, d) \<in> set ods. wire_wf op d" "receive_run be es pc = Some (Inr (log, pc'))"
  shows "\<exists>n \<le> length ods. log = map op_view (take n ods) \<and> (p_ex (pc_pair pc') \<noteq> None \<or> p_state (pc_pair pc') = CLOSED \<or> follows be (drop n ods) fut pc')"
  using assms
proof (induction be es pc arbitrary: ods log rule: receive_run.induct)
  case (1 be pc)
  then show ?case by (intro exI [of _ 0]) simp
next
  case (2 be bs es pc)
  have "follows be ods (arrivals es @ fut) (pc\<lparr>pc_in := pc_in pc @ bs\<rparr>)" using 2(2) by (cases ods) auto
  with 2 show ?case by simp
next
  case (3 be w cs es pc)
  from 3(4) obtain ok pc1 log1 where r: "Pair_read be w cs pc = Some (Inr (ok, pc1))" and run: "receive_run be es pc1 = Some (Inr (log1, pc'))"
    and log: "log = (if ok then (case read_loop be cs pc of Some (Inr (True, q)) \<Rightarrow> [received be q] | _ \<Rightarrow> []) else []) @ log1"
    by (auto simp: rbind_Inr_conv split: option.splits sum.splits)
  show ?case
  proof (cases "p_state (pc_pair pc) = CLOSED")
    case True
    then show ?thesis using closed_run [OF True 3(4)] by (intro exI [of _ 0]) simp
  next
    case False
    have fol: "follows be ods (arrivals es @ fut) pc" using 3(2) by simp
    from follows_read [OF fol 3(3) r False] consider "p_ex (pc_pair pc1) \<noteq> None" "p_state (pc_pair pc1) = CLOSED" "\<not> ok"
      | "\<not> ok" "follows be ods (arrivals es @ fut) pc1"
      | od ods' q where "ok" "ods = od # ods'" "follows be ods' (arrivals es @ fut) pc1" "read_loop be cs pc = Some (Inr (True, q))" "received be q = op_view od"
      by blast
    then show ?thesis
    proof cases
      case 1
      then show ?thesis using closed_run [OF 1(2) run] log by (intro exI [of _ 0]) simp
    next
      case 2
      from 3(1) [OF r refl refl 2(2) 3(3) run] log 2(1) show ?thesis by simp
    next
      case (3 od ods' q)
      have "\<forall>(op, d) \<in> set ods'. wire_wf op d" using \<open>\<forall>(op, d) \<in> set ods. wire_wf op d\<close> 3(2) by auto
      from "3.IH" [OF r refl refl 3(3) this run] obtain n where "n \<le> length ods'" "log1 = map op_view (take n ods')"
        "p_ex (pc_pair pc') \<noteq> None \<or> p_state (pc_pair pc') = CLOSED \<or> follows be (drop n ods') fut pc'" by blast
      then show ?thesis using log 3 by (intro exI [of _ "Suc n"]) simp
    qed
  qed
qed

text \<open>What the receiver completes, and where the bytes are that have arrived.\<close>

lemma wire_delivers_operations:
  assumes "\<forall>(op, d) \<in> set ods. wire_wf op d" "pc_rx pc = Rx_new" "pc_in pc = []" "arrivals es @ fut = stream_of be ods"
    and "receive_run be es pc = Some (Inr (log, pc'))"
  shows "\<exists>n \<le> length ods. log = map op_view (take n ods) \<and>
    (p_ex (pc_pair pc') = None \<and> p_state (pc_pair pc') \<noteq> CLOSED \<longrightarrow>
       length (arrivals es) = length (stream_of be (take n ods)) + nread pc' + length (pc_in pc') \<and>
       (fut = [] \<and> pc_in pc' = [] \<and> nread pc' = 0 \<longrightarrow> n = length ods))"
proof -
  have "follows be ods (arrivals es @ fut) pc" using assms(2-4) by (intro follows_start) simp_all
  from receive_follows [OF this assms(1,5)] obtain n where n: "n \<le> length ods" "log = map op_view (take n ods)"
    "p_ex (pc_pair pc') \<noteq> None \<or> p_state (pc_pair pc') = CLOSED \<or> follows be (drop n ods) fut pc'" by blast
  have cut: "stream_of be ods = stream_of be (take n ods) @ stream_of be (drop n ods)"
    unfolding stream_of_def by (metis append_take_drop_id concat_append map_append)
  have "length (arrivals es) = length (stream_of be (take n ods)) + nread pc' + length (pc_in pc') \<and>
      (fut = [] \<and> pc_in pc' = [] \<and> nread pc' = 0 \<longrightarrow> n = length ods)" if "follows be (drop n ods) fut pc'"
  proof (cases "drop n ods")
    case Nil
    with that n(1) cut assms(4) show ?thesis by (auto simp: stream_of_def)
  next
    case (Cons od ods')
    obtain op d where od: "od = (op, d)" by (cases od)
    have f: "nread pc' \<le> length (wire_bytes be op d)" "pc_in pc' @ fut = drop (nread pc') (wire_bytes be op d) @ stream_of be ods'"
      using that Cons od by (auto simp: rx_ok_def)
    have "length (pc_in pc') + length fut = length (wire_bytes be op d) - nread pc' + length (stream_of be ods')"
      using arg_cong [OF f(2), of length] by simp
    moreover have "length (arrivals es) + length fut = length (stream_of be (take n ods)) + length (wire_bytes be op d) + length (stream_of be ods')"
      using arg_cong [OF assms(4), of length] cut Cons od by (simp add: stream_of_def)
    ultimately have eq: "length (arrivals es) = length (stream_of be (take n ods)) + nread pc' + length (pc_in pc')"
      "length (pc_in pc') + length fut + nread pc' = length (wire_bytes be op d) + length (stream_of be ods')" using f(1) by linarith+
    moreover have "0 < length (wire_bytes be op d)" by (simp add: wire_bytes_def preamble_size_def)
    ultimately have "\<not> (fut = [] \<and> pc_in pc' = [] \<and> nread pc' = 0)" by auto
    with eq(1) show ?thesis by blast
  qed
  note acc = this
  show ?thesis
  proof (intro exI [of _ n] conjI n(1,2) impI; elim conjE)
    assume e: "p_ex (pc_pair pc') = None" "p_state (pc_pair pc') \<noteq> CLOSED"
    then have "follows be (drop n ods) fut pc'" using n(3) by simp
    note a = acc [OF this]
    show "length (arrivals es) = length (stream_of be (take n ods)) + nread pc' + length (pc_in pc')" by (rule conjunct1 [OF a])
    assume "fut = []" "pc_in pc' = []" "nread pc' = 0"
    then show "n = length ods" using conjunct2 [OF a] by simp
  qed
qed

section \<open>From pair to pair\<close>

text \<open>The sender posts operations and is called when the socket is writable.\<close>

datatype tx_event = Post "wcall list" Op | Writable "wcall list list"

fun send_run :: "bool \<Rightarrow> tx_event list \<Rightarrow> Proc \<Rightarrow> Proc result option" where
  "send_run be [] pc = Some (Inr pc)"
| "send_run be (e # es) pc =
     (case (case e of Post cs op \<Rightarrow> sendAsync be cs op pc | Writable css \<Rightarrow> handleWritable be css pc) of
        None \<Rightarrow> None | Some (Inl err) \<Rightarrow> Some (Inl err) | Some (Inr pc') \<Rightarrow> send_run be es pc')"

fun posted :: "tx_event list \<Rightarrow> Op list" where
  "posted [] = []"
| "posted (Post cs op # es) = op # posted es"
| "posted (Writable css # es) = posted es"

definition same_mem :: "Proc \<Rightarrow> Proc \<Rightarrow> bool" where
  "same_mem pc pc' \<longleftrightarrow> pc_bmem pc' = pc_bmem pc \<and> pc_umem pc' = pc_umem pc"

lemma same_mem_op:
  assumes "same_mem pc pc'"
  shows "op_payload pc' op = op_payload pc op" "op_stream be pc' op = op_stream be pc op" "op_wf pc' op \<longleftrightarrow> op_wf pc op"
proof -
  show p: "op_payload pc' op = op_payload pc op" using assms by (simp add: op_payload_def same_mem_def split: Opcode.splits option.splits)
  then show "op_stream be pc' op = op_stream be pc op" by (simp add: op_stream_def)
  from p assms show "op_wf pc' op \<longleftrightarrow> op_wf pc op" by (simp add: op_wf_def same_mem_def split: Opcode.splits)
qed

lemma sendAsync_mem:
  assumes "op_wf pc op" "sendAsync be cs op pc = Some (Inr pc')"
  shows "same_mem pc pc'"
proof (cases "p_tx (pc_pair pc) = []")
  case True
  from sendAsync_cases [OF assms(2) this] obtain ok op' pc1 where w: "Pair_write be cs op pc = Some (Inr (ok, op', pc1))"
    and pc': "pc' = pc1 \<or> pc' = (set_pair (p_tx_update (\<lambda>tx. tx @ [op'])) pc1)\<lparr>pc_epoll := Some True\<rparr>" by blast
  then show ?thesis using Pair_write_stream(1) [OF assms(1) w] by (auto simp: same_data_def same_mem_def)
qed (use assms(2) in \<open>auto simp: sendAsync_def same_mem_def split: if_splits\<close>)

lemma handleWritable_mem:
  assumes "tx_wf pc" "handleWritable be css pc = Some (Inr pc')"
  shows "same_mem pc pc'"
proof -
  from handleWritable_cases [OF assms(2)] obtain pc1 where "flush_loop be css pc = Some (Inr pc1)" "pc' = pc1 \<or> pc' = pc1\<lparr>pc_epoll := Some False\<rparr>" by blast
  with flush_loop_stream [OF assms(1)] show ?thesis by (auto simp: same_mem_def)
qed

lemma send_run_stream:
  assumes "tx_wf pc" "\<forall>op \<in> set (posted es). op_wf pc op \<and> op_nwritten op = 0" "send_run be es pc = Some (Inr pc')"
  shows "out_stream be pc' = out_stream be pc @ concat (map (op_stream be pc) (posted es)) \<and> tx_wf pc'"
  using assms
proof (induction es arbitrary: pc)
  case (Cons e es)
  then obtain pc1 where step: "(case e of Post cs op \<Rightarrow> sendAsync be cs op pc | Writable css \<Rightarrow> handleWritable be css pc) = Some (Inr pc1)"
    and run: "send_run be es pc1 = Some (Inr pc')" by (auto split: option.splits sum.splits)
  have one: "tx_wf pc1 \<and> same_mem pc pc1 \<and> out_stream be pc1 @ concat (map (op_stream be pc) (posted es)) = out_stream be pc @ concat (map (op_stream be pc) (posted (e # es)))"
  proof (cases e)
    case (Post cs op)
    then have op: "op_wf pc op" "op_nwritten op = 0" and s: "sendAsync be cs op pc = Some (Inr pc1)" using Cons.prems(2) step by auto
    from sendAsync_stream [OF Cons.prems(1) op s] sendAsync_mem [OF op(1) s] show ?thesis by (simp add: Post)
  next
    case (Writable css)
    then have s: "handleWritable be css pc = Some (Inr pc1)" using step by simp
    from handleWritable_stream [OF Cons.prems(1) s] handleWritable_mem [OF Cons.prems(1) s] show ?thesis by (simp add: Writable)
  qed
  have "posted es = posted (e # es) \<or> (\<exists>op. posted (e # es) = op # posted es)" by (cases e) auto
  then have "\<forall>op \<in> set (posted es). op_wf pc1 op \<and> op_nwritten op = 0" using Cons.prems(2) same_mem_op(3) one by auto
  moreover have "op_stream be pc1 = op_stream be pc" using same_mem_op(2) one by (intro ext) blast
  ultimately show ?case using Cons.IH [OF _ _ run] one by simp
qed simp


definition demo_pair :: Pair where
  "demo_pair = \<lparr>p_rank = 1, p_state = CONNECTED, p_sync = False, p_ex = None, localPendingSend = (\<lambda>_. None), localPendingRecv = (\<lambda>_. None),
     p_tx = [], p_sock = []\<rparr>"

definition demo_proc :: "bytes \<Rightarrow> Proc" where
  "demo_proc mem = \<lparr>pc_pair = demo_pair, pc_ctx = \<lparr>ctx_tallies = \<lparr>pendingOperations = [], expectedNotifications = []\<rparr>, pendingRecv = (\<lambda>_. None)\<rparr>,
     pc_busyPoll = False, pc_fd = Some 3, pc_epoll = Some False, pc_rx = Rx_new, pc_buffers = [7 \<mapsto> 0],
     pc_bufs = (\<lambda>_. Buffer_new 7 4), pc_ubufs = (\<lambda>_. None), pc_bmem = (\<lambda>_. mem), pc_umem = (\<lambda>_. []), pc_sent = [], pc_in = []\<rparr>"

definition demo_op :: Op where
  "demo_op = Op_new\<lparr>pre_nbytes := 50, pre_opcode := SEND_BUFFER, pre_slot := 7, pre_offset := 1, pre_length := 2, pre_roffset := 2, op_buf := Some 0\<rparr>"

lemma demo_bytes: "preamble_bytes False demo_op = [50, 0, 0, 0, 0, 0, 0, 0, 0, 0, 0, 0, 0, 0, 0, 0, 7, 0, 0, 0, 0, 0, 0, 0,
    1, 0, 0, 0, 0, 0, 0, 0, 2, 0, 0, 0, 0, 0, 0, 0, 2, 0, 0, 0, 0, 0, 0, 0]"
  by code_simp

lemma demo_op_fields: "pre_nbytes demo_op = 50" "pre_opcode demo_op = SEND_BUFFER" "pre_slot demo_op = 7" "pre_offset demo_op = 1" "pre_length demo_op = 2"
  "pre_roffset demo_op = 2" "op_buf demo_op = Some 0" "op_nwritten demo_op = 0"
  by (simp_all add: demo_op_def Op_new_def)

lemma demo_send:
  "case send_run False [Post [WTake 30, WIntr, WAgain] demo_op, Writable [[WTake 100]]] (demo_proc [4, 5, 6, 8]) of
     Some (Inr s) \<Rightarrow> p_tx (pc_pair s) = [] \<and> pc_sent s = preamble_bytes False demo_op @ [5, 6] | _ \<Rightarrow> False"
  by (simp add: sendAsync_def Pair_write_def handleWritable_def flush_loop.simps demo_proc_def demo_pair_def prepareWrite_def demo_bytes demo_op_fields
      payload_iov_def preamble_size_def throwIfException_def writeComplete_def registerDescriptor_def read_at_def Let_def u64_add_def u64_sub_def)

lemma demo_recv:
  "case receive_run False [Arrive (take 20 (preamble_bytes False demo_op @ [5, 6])), Readable [] [RTake 100, RAgain False],
      Arrive (drop 20 (preamble_bytes False demo_op @ [5, 6])), Readable [] [RTake 3, RIntr, RTake 99, RTake 99]] (demo_proc [0, 0, 0, 0]) of
     Some (Inr (log, pc)) \<Rightarrow> p_ex (pc_pair pc) = None \<and> p_state (pc_pair pc) \<noteq> CLOSED \<and> pc_in pc = [] \<and> nread pc = 0 | _ \<Rightarrow> False"
  by (simp add: demo_bytes Pair_read_def read_loop.simps prepareRead_def demo_proc_def demo_pair_def Rx_new_def preamble_size_def Let_def store_bytes_def
      readComplete_def pre_field_def getOpcode_def get_u64_def getBuffer_def upt_rec u64_shift_def read_at_def Buffer_new_def u64_add_def u64_sub_def)


end
