(* ===== verification/Gloo_Lifecycle.thy ===== *)
theory Gloo_Lifecycle
  imports Gloo_Wire
begin

text \<open>
  The life cycle of a TCP pair (\<open>gloo/transport/tcp/pair.cc\<close>): every operation a thread can perform on a
  pair as a step, the invariant that ties the state, the socket, the registration with the event loop, the
  transmit queue and the stored exception together, and two places where the code leaves the cycle.
\<close>

section \<open>The invariant\<close>

fun state_rank :: "pair_state \<Rightarrow> nat" where
  "state_rank INITIALIZING = 0" | "state_rank CONNECTING = 1" | "state_rank CONNECTED = 2" | "state_rank CLOSED = 3"

text \<open>
  A pair with an exception is closed. It has a socket exactly when it is connected. In asynchronous mode it
  is registered with the loop exactly when it is connected, in synchronous mode it never is.
\<close>

definition life_core :: "Proc \<Rightarrow> bool" where
  "life_core pc \<longleftrightarrow>
     (let p = pc_pair pc; st = p_state p
      in (p_ex p \<noteq> None \<longrightarrow> st = CLOSED) \<and> (pc_fd pc \<noteq> None \<longleftrightarrow> st = CONNECTED) \<and>
         (if p_sync p then pc_epoll pc = None \<and> state_rank st \<ge> 2 else pc_epoll pc \<noteq> None \<longleftrightarrow> st = CONNECTED))"

text \<open>
  Nothing is queued before the pair is connected, and a connected pair in asynchronous mode waits for
  writability exactly when something is queued.
\<close>

definition tx_registered :: "Proc \<Rightarrow> bool" where
  "tx_registered pc \<longleftrightarrow> (state_rank (p_state (pc_pair pc)) < 2 \<longrightarrow> p_tx (pc_pair pc) = []) \<and>
     (p_state (pc_pair pc) = CONNECTED \<and> \<not> p_sync (pc_pair pc) \<longrightarrow> (pc_epoll pc = Some True \<longleftrightarrow> p_tx (pc_pair pc) \<noteq> []))"

definition life_ok :: "Proc \<Rightarrow> bool" where
  "life_ok pc \<longleftrightarrow> life_core pc \<and> tx_registered pc"

text \<open>The part of the process that the invariant is about.\<close>

definition life_of :: "Proc \<Rightarrow> pair_state \<times> gloo_error option \<times> bool \<times> nat option \<times> bool option" where
  "life_of pc = (p_state (pc_pair pc), p_ex (pc_pair pc), p_sync (pc_pair pc), pc_fd pc, pc_epoll pc)"

lemma life_core_of: "life_of pc' = life_of pc \<Longrightarrow> life_core pc' = life_core pc"
  by (simp add: life_core_def life_of_def Let_def)

lemma life_ok_of: "life_of pc' = life_of pc \<Longrightarrow> p_tx (pc_pair pc') = p_tx (pc_pair pc) \<Longrightarrow> life_ok pc' = life_ok pc"
  by (simp add: life_ok_def tx_registered_def life_core_def life_of_def Let_def)

text \<open>A pair on which an error has been signalled.\<close>

definition failed :: "Proc \<Rightarrow> bool" where
  "failed pc \<longleftrightarrow> life_core pc \<and> p_state (pc_pair pc) = CLOSED \<and> p_ex (pc_pair pc) \<noteq> None"

lemma failed_ok: "failed pc \<Longrightarrow> life_ok pc"
  by (simp add: failed_def life_ok_def tx_registered_def)

lemma changeState_CLOSED:
  assumes "life_core (pc\<lparr>pc_pair := (pc_pair pc)\<lparr>p_ex := None\<rparr>\<rparr>)"
  shows "life_core (changeState CLOSED pc)" "p_state (pc_pair (changeState CLOSED pc)) = CLOSED"
    "p_ex (pc_pair (changeState CLOSED pc)) = p_ex (pc_pair pc)" "p_tx (pc_pair (changeState CLOSED pc)) = p_tx (pc_pair pc)"
    "p_sync (pc_pair (changeState CLOSED pc)) = p_sync (pc_pair pc)"
  using assms by (auto simp: changeState_def life_core_def Let_def split: pair_state.splits if_splits)

lemma signalException_failed:
  assumes "life_core pc" "signalException e pc = Inr pc'"
  shows "failed pc'"
proof -
  from assms(2) obtain bs ubs where pc': "p_ex (pc_pair pc) = None"
    "pc' = changeState CLOSED (pc\<lparr>pc_bufs := bs, pc_ubufs := ubs, pc_pair := (pc_pair pc)\<lparr>p_ex := Some e\<rparr>\<rparr>)"
    by (auto simp: signalException_def Let_def enforce_Inr_conv)
  have "life_core (pc\<lparr>pc_bufs := bs, pc_ubufs := ubs, pc_pair := (pc_pair pc)\<lparr>p_ex := None\<rparr>\<rparr>)"
    using assms(1) pc'(1) by (auto simp: life_core_def Let_def)
  then show ?thesis unfolding pc'(2) failed_def by (simp add: changeState_CLOSED)
qed

section \<open>Writing\<close>

lemma writeComplete_life [simp]: "life_of (writeComplete op pc) = life_of pc" "pc_pair (writeComplete op pc) = pc_pair pc"
  by (auto simp: writeComplete_def life_of_def split: Opcode.splits option.splits)

lemma write_loop_life:
  "life_core pc \<Longrightarrow> write_loop be cs op pc = Some (Inr (ok, op', pc')) \<Longrightarrow>
     (life_of pc' = life_of pc \<and> pc_pair pc' = pc_pair pc) \<or> \<not> ok \<and> failed pc'"
proof (induction be cs op pc rule: write_loop.induct)
  case (2 be c cs op pc)
  have sent: "life_of (pc\<lparr>pc_sent := x\<rparr>) = life_of pc" for x by (simp add: life_of_def)
  have core: "life_core (pc\<lparr>pc_sent := x\<rparr>)" for x using 2(3) life_core_of [OF sent] by blast
  show ?case
    using 2(1,2) 2(4) 2(3) core sent
    by (auto simp: Let_def rbind_Inr_conv enforce_Inr_conv split: sum.splits wcall.splits if_splits dest: signalException_failed)
qed simp

lemma Pair_write_life:
  "life_core pc \<Longrightarrow> Pair_write be cs op pc = Some (Inr (ok, op', pc')) \<Longrightarrow>
     (life_of pc' = life_of pc \<and> pc_pair pc' = pc_pair pc) \<or> \<not> ok \<and> failed pc'"
  by (auto simp: Pair_write_def split: if_splits option.splits dest!: write_loop_life)

lemma sendAsync_life:
  assumes "life_ok pc" "sendAsync be cs op pc = Some (Inr pc')"
  shows "life_ok pc' \<and> p_state (pc_pair pc') = p_state (pc_pair pc)"
proof (cases "p_tx (pc_pair pc) = []")
  case False
  then have pc': "pc' = set_pair (p_tx_update (\<lambda>tx. tx @ [op])) pc" using assms(2) by (simp add: sendAsync_def split: if_splits)
  show ?thesis using assms(1) False unfolding pc' by (auto simp: life_ok_def life_core_def tx_registered_def Let_def)
next
  case True
  have core: "life_core pc" using assms(1) by (simp add: life_ok_def)
  from sendAsync_cases [OF assms(2) True] obtain ok op' pc1 where w: "Pair_write be cs op pc = Some (Inr (ok, op', pc1))" and async: "\<not> p_sync (pc_pair pc)"
    and pc': "ok \<and> pc' = pc1 \<or> \<not> ok \<and> p_ex (pc_pair pc1) = None \<and> pc_fd pc1 \<noteq> None \<and> pc' = (set_pair (p_tx_update (\<lambda>tx. tx @ [op'])) pc1)\<lparr>pc_epoll := Some True\<rparr>"
    by blast
  have same: "life_of pc1 = life_of pc" "pc_pair pc1 = pc_pair pc" using Pair_write_life [OF core w] pc' by (auto simp: failed_def)
  from pc' show ?thesis
  proof
    assume "ok \<and> pc' = pc1"
    then show ?thesis using same assms(1) life_ok_of [OF same(1)] by simp
  next
    assume "\<not> ok \<and> p_ex (pc_pair pc1) = None \<and> pc_fd pc1 \<noteq> None \<and> pc' = (set_pair (p_tx_update (\<lambda>tx. tx @ [op'])) pc1)\<lparr>pc_epoll := Some True\<rparr>"
    then show ?thesis using same core async by (auto simp: life_of_def life_ok_def life_core_def tx_registered_def Let_def)
  qed
qed

lemma flush_loop_life:
  assumes "life_core pc" "flush_loop be css pc = Some (Inr pc')"
  shows "failed pc' \<or> life_of pc' = life_of pc"
  using assms
proof (induction be css pc rule: flush_loop.induct)
  case (1 be css pc)
  show ?case
  proof (cases "p_tx (pc_pair pc)")
    case Nil
    with 1 show ?thesis by (simp add: flush_loop.simps)
  next
    case (Cons op tx)
    note step = 1(3) [unfolded flush_loop.simps [of be css pc] Cons list.case]
    then obtain cs css' where css: "css = cs # css'" by (cases css) simp_all
    from step css obtain ok op' pc1 where w: "Pair_write be cs op pc = Some (Inr (ok, op', pc1))"
      by (auto split: option.splits sum.splits)
    have same: "life_of (set_pair (p_tx_update f) pc1) = life_of pc1" for f by (simp add: life_of_def)
    show ?thesis
    proof (cases ok)
      case True
      with Pair_write_life [OF 1(2) w] have l: "life_of pc1 = life_of pc" by simp
      let ?pc = "set_pair (p_tx_update (\<lambda>_. tx)) pc1"
      have "flush_loop be css' ?pc = Some (Inr pc')" using step css w True by simp
      from 1(1) [OF Cons css w refl refl refl True _ this] show ?thesis using same l life_core_of [of ?pc pc] 1(2) by simp
    next
      case False
      then have pc': "pc' = set_pair (p_tx_update (\<lambda>_. op' # tx)) pc1" using step css w by simp
      from Pair_write_life [OF 1(2) w] False show ?thesis unfolding pc' using same life_core_of [OF same] by (auto simp: failed_def)
    qed
  qed
qed

lemma handleWritable_life:
  assumes "life_ok pc" "p_state (pc_pair pc) = CONNECTED" "\<not> p_sync (pc_pair pc)" "handleWritable be css pc = Some (Inr pc')"
  shows "life_ok pc' \<and> (p_state (pc_pair pc') = CONNECTED \<longrightarrow> \<not> p_sync (pc_pair pc')) \<and> state_rank (p_state (pc_pair pc')) \<ge> 2"
proof -
  have core: "life_core pc" and tx: "p_tx (pc_pair pc) \<noteq> []" using assms by (auto simp: life_ok_def handleWritable_def split: if_splits)
  have reg: "pc_epoll pc = Some True" using assms(1-3) tx by (simp add: life_ok_def tx_registered_def)
  from handleWritable_cases [OF assms(4)] obtain pc1 where f: "flush_loop be css pc = Some (Inr pc1)"
    and pc': "pc' = pc1 \<and> (p_tx (pc_pair pc1) \<noteq> [] \<or> failed pc1) \<or> p_tx (pc_pair pc1) = [] \<and> pc_fd pc1 \<noteq> None \<and> pc' = pc1\<lparr>pc_epoll := Some False\<rparr>"
    using assms(4) by (auto simp: handleWritable_def rbind_Inr_conv registerDescriptor_def enforce_Inr_conv split: if_splits)
  from flush_loop_life [OF core f] show ?thesis
  proof
    assume fl: "failed pc1"
    then have "pc_fd pc1 = None" by (auto simp: failed_def life_core_def Let_def)
    with pc' fl failed_ok [OF fl] show ?thesis by (auto simp: failed_def)
  next
    assume l: "life_of pc1 = life_of pc"
    then have "life_core pc1" "p_state (pc_pair pc1) = CONNECTED" "\<not> p_sync (pc_pair pc1)" "pc_epoll pc1 = Some True"
      using core assms(2,3) reg life_core_of [OF l] by (auto simp: life_of_def)
    with pc' show ?thesis by (auto simp: life_ok_def tx_registered_def life_core_def Let_def failed_def)
  qed
qed

section \<open>Reading\<close>

lemma store_bytes_life: "store_bytes t bs pc = Inr pc' \<Longrightarrow> life_of pc' = life_of pc \<and> pc_pair pc' = pc_pair pc"
  by (auto simp: store_bytes_def life_of_def Let_def split: target.splits if_splits)

lemma prepareRead_life:
  assumes "prepareRead be pc = Inr (pc', r)"
  shows "life_of pc' = life_of pc \<and> p_tx (pc_pair pc') = p_tx (pc_pair pc)"
  using assms unfolding prepareRead_def Let_def life_of_def
  by (simp add: enforce_Inr_conv rbind_Inr_conv split: option.splits Opcode.splits if_splits) auto

text \<open>What reading may do to a pair: nothing, or end it with an exception.\<close>

definition reads_to :: "bool \<Rightarrow> Proc \<Rightarrow> Proc \<Rightarrow> bool" where
  "reads_to ok pc pc' \<longleftrightarrow> \<not> ok \<and> failed pc' \<or> life_of pc' = life_of pc \<and> p_tx (pc_pair pc') = p_tx (pc_pair pc)"

lemma reads_to_same: "life_of pc' = life_of pc \<Longrightarrow> p_tx (pc_pair pc') = p_tx (pc_pair pc) \<Longrightarrow> reads_to ok pc pc'"
  by (simp add: reads_to_def)

lemma reads_to_step: "life_of pc1 = life_of pc \<Longrightarrow> p_tx (pc_pair pc1) = p_tx (pc_pair pc) \<Longrightarrow> reads_to ok pc1 pc' \<Longrightarrow> reads_to ok pc pc'"
  by (auto simp: reads_to_def)

lemma read_loop_life:
  assumes "life_core pc" "read_loop be cs pc = Some (Inr (ok, pc'))"
  shows "reads_to ok pc pc'"
  using assms
proof (induction cs arbitrary: pc)
  case Nil
  then obtain r where "prepareRead be pc = Inr (pc', r)"
    by (auto simp: read_loop.simps [of be "[]" pc] Let_def split: sum.splits option.splits nat.splits)
  from prepareRead_life [OF this] show ?case by (simp add: reads_to_same)
next
  case (Cons c cs)
  from Cons.prems(2) obtain pc1 r where p: "prepareRead be pc = Inr (pc1, r)"
    by (auto simp: read_loop.simps [of be "c # cs" pc] split: sum.splits prod.splits)
  note l = prepareRead_life [OF p]
  have core: "life_core pc1" using life_core_of l Cons.prems(1) by blast
  have rest: ?case if "life_of pc2 = life_of pc" "p_tx (pc_pair pc2) = p_tx (pc_pair pc)" "read_loop be cs pc2 = Some (Inr (ok, pc'))" for pc2
    using Cons.IH [of pc2] that life_core_of [OF that(1)] Cons.prems(1) reads_to_step [OF that(1,2)] by auto
  have stop: ?case if "pc' = pc1" using l that by (simp add: reads_to_same)
  have fail: ?case if "rbind (signalException IoException pc1) (\<lambda>pc. Inr (False, pc)) = Inr (ok, pc')"
    using that signalException_failed [OF core] by (auto simp: rbind_Inr_conv reads_to_def)
  have again: ?case if "(case (if p_sync (pc_pair pc1) then (if pc_busyPoll pc1 \<and> \<not> t then None
        else Some (Some (rbind (signalException IoException pc1) (\<lambda>pc. Inr (False, pc))))) else Some (Some (Inr (False, pc1)))) of
      None \<Rightarrow> read_loop be cs pc1 | Some r \<Rightarrow> r) = Some (Inr (ok, pc'))" for t
    using that l by (auto split: if_splits intro: rest stop fail reads_to_same)
  have arrived: ?case if "store_bytes t bs (pc1\<lparr>pc_in := x\<rparr>) = Inr pc2" "read_loop be cs pc2 = Some (Inr (ok, pc'))" for t bs x pc2
    using store_bytes_life [OF that(1)] that(2) l by (intro rest) (auto simp: life_of_def)
  show ?case
  proof (cases "r = None \<or> (\<exists>t. r = Some (t, 0))")
    case True
    then show ?thesis using Cons.prems(2) by (intro stop) (auto simp: read_loop.simps [of be "c # cs" pc] p)
  next
    case False
    then obtain t n where r: "r = Some (t, Suc n)" by (metis not0_implies_Suc old.prod.exhaust option.exhaust)
    note run = Cons.prems(2) [unfolded read_loop.simps [of be "c # cs" pc] p r sum.case prod.case option.case nat.case Let_def list.case]
    show ?thesis
    proof (cases c)
      case (RTake k)
      then show ?thesis using run again [of False] by (auto split: sum.splits if_splits intro: arrived)
    next
      case (RAgain b)
      then show ?thesis using run by (intro again [of b]) simp
    next
      case RIntr
      then show ?thesis using run l by (intro rest [of pc1]) simp_all
    qed (use run fail in simp_all)
  qed
qed

section \<open>Operations of the protocol\<close>

text \<open>No operation of the rendezvous protocol changes the state, the mode or the exception of its pair.\<close>

definition keeps_life :: "(Context \<times> Pair \<Rightarrow> (Context \<times> Pair) result) \<Rightarrow> bool" where
  "keeps_life f \<longleftrightarrow> (\<forall>ctx p ctx' p'. f (ctx, p) = Inr (ctx', p') \<longrightarrow> p_state p' = p_state p \<and> p_ex p' = p_ex p \<and> p_sync p' = p_sync p)"

lemma sendAsyncMode_life: "sendAsyncMode w op p = Inr p' \<Longrightarrow> p_state p' = p_state p \<and> p_ex p' = p_ex p \<and> p_sync p' = p_sync p"
  by (auto simp: sendAsyncMode_def enforce_Inr_conv throwIfException_def split: if_splits option.splits)

lemmas send_defs = sendUnboundBuffer_def sendNotifyRecvReady_def sendNotifySendReady_def

lemma protocol_keeps_life:
  "keeps_life (Pair_send ws tbuf tsize slot offset nbytes)" "keeps_life (Pair_recv w tbuf tsize slot offset nbytes)"
  "keeps_life (handleRemotePendingSend w op)" "keeps_life (handleRemotePendingRecv w op)"
proof -
  show "keeps_life (Pair_send ws tbuf tsize slot offset nbytes)"
    unfolding keeps_life_def Pair_send_def Let_def send_defs
    by (auto simp: enforce_Inr_conv throwIfException_def rbind_Inr_conv split: option.splits prod.splits if_splits dest!: sendAsyncMode_life)
  show "keeps_life (Pair_recv w tbuf tsize slot offset nbytes)"
    unfolding keeps_life_def Pair_recv_def Let_def send_defs
    by (auto simp: enforce_Inr_conv throwIfException_def rbind_Inr_conv split: option.splits prod.splits if_splits dest!: sendAsyncMode_life)
  show "keeps_life (handleRemotePendingSend w op)"
    unfolding keeps_life_def handleRemotePendingSend_def Let_def send_defs
    by (auto simp: rbind_Inr_conv split: option.splits prod.splits if_splits dest!: sendAsyncMode_life)
  show "keeps_life (handleRemotePendingRecv w op)"
    unfolding keeps_life_def handleRemotePendingRecv_def Let_def send_defs
    by (auto simp: rbind_Inr_conv split: option.splits prod.splits if_splits dest!: sendAsyncMode_life)
qed

lemma send_ops_life:
  "life_ok pc \<Longrightarrow> send_ops be css ops pc = Some (Inr pc') \<Longrightarrow> life_ok pc' \<and> p_state (pc_pair pc') = p_state (pc_pair pc)"
proof (induction be css ops pc rule: send_ops.induct)
  case (3 be cs css op ops pc)
  from 3(3) obtain pc1 where s: "sendAsync be cs op pc = Some (Inr pc1)" "send_ops be css ops pc1 = Some (Inr pc')"
    by (auto split: option.splits sum.splits)
  from sendAsync_life [OF 3(2) s(1)] 3(1) [OF s(1) refl] s(2) show ?case by simp
qed simp_all

lemma run_protocol_life:
  assumes "keeps_life f" "life_ok pc" "run_protocol f be css pc = Some (Inr pc')"
  shows "life_ok pc' \<and> p_state (pc_pair pc') = p_state (pc_pair pc)"
proof -
  let ?p = "pc_pair pc"
  from assms(3) obtain ctx p' where f: "f (pc_ctx pc, ?p\<lparr>p_tx := [], p_sock := []\<rparr>) = Inr (ctx, p')"
    and s: "send_ops be css (p_sock p') (pc\<lparr>pc_ctx := ctx, pc_pair := p'\<lparr>p_tx := p_tx ?p, p_sock := p_sock ?p\<rparr>\<rparr>) = Some (Inr pc')"
    by (auto simp: run_protocol_def Let_def split: sum.splits)
  let ?pc = "pc\<lparr>pc_ctx := ctx, pc_pair := p'\<lparr>p_tx := p_tx ?p, p_sock := p_sock ?p\<rparr>\<rparr>"
  have "p_state p' = p_state ?p" "p_ex p' = p_ex ?p" "p_sync p' = p_sync ?p" using assms(1) f by (auto simp: keeps_life_def)
  then have l: "life_of ?pc = life_of pc" "p_tx (pc_pair ?pc) = p_tx ?p" by (simp_all add: life_of_def)
  have "life_ok ?pc" using life_ok_of [OF l] assms(2) by simp
  from send_ops_life [OF this s] l show ?thesis by (simp add: life_of_def)
qed

lemma readComplete_life:
  assumes "life_ok pc" "readComplete be css pc = Some (Inr pc')"
  shows "life_ok pc' \<and> p_state (pc_pair pc') = p_state (pc_pair pc)"
proof -
  have rx: "life_ok (pc\<lparr>pc_rx := x\<rparr>) = life_ok pc" for pc x by (rule life_ok_of) (simp_all add: life_of_def)
  have b: "life_ok (pc\<lparr>pc_bufs := x\<rparr>) = life_ok pc" for x by (rule life_ok_of) (simp_all add: life_of_def)
  have u: "life_ok (pc\<lparr>pc_ubufs := x\<rparr>) = life_ok pc" for x by (rule life_ok_of) (simp_all add: life_of_def)
  show ?thesis
    using assms run_protocol_life [OF protocol_keeps_life(3) assms(1)] run_protocol_life [OF protocol_keeps_life(4) assms(1)]
    by (auto simp: readComplete_def Let_def map_sum_Inr_conv rx b u split: option.splits Opcode.splits)
qed

lemma Pair_read_life:
  assumes "life_ok pc" "Pair_read be css cs pc = Some (Inr (ok, pc'))"
  shows "life_ok pc' \<and> state_rank (p_state (pc_pair pc)) \<le> state_rank (p_state (pc_pair pc'))"
proof (cases "p_state (pc_pair pc) = CLOSED")
  case True
  then show ?thesis using assms by (auto simp: Pair_read_def)
next
  case False
  from assms(2) False obtain ok1 q where q: "read_loop be cs pc = Some (Inr (ok1, q))"
    "if ok1 then ok \<and> readComplete be css q = Some (Inr pc') else \<not> ok \<and> pc' = q"
    by (auto simp: Pair_read_def map_sum_Inr_conv split: option.splits sum.splits bool.splits)
  have core: "life_core pc" using assms(1) by (simp add: life_ok_def)
  from read_loop_life [OF core q(1)] consider "\<not> ok1" "failed q" | "life_of q = life_of pc" "p_tx (pc_pair q) = p_tx (pc_pair pc)"
    by (auto simp: reads_to_def)
  then show ?thesis
  proof cases
    case 1
    have "state_rank (p_state (pc_pair pc)) \<le> 3" by (cases "p_state (pc_pair pc)") simp_all
    with 1 q(2) failed_ok show ?thesis by (auto simp: failed_def)
  next
    case 2
    have "life_ok q" using life_ok_of [OF 2] assms(1) by simp
    with 2(1) q(2) readComplete_life [of q] show ?thesis by (cases ok1) (auto simp: life_of_def)
  qed
qed

lemma read_all_life:
  "life_ok pc \<Longrightarrow> read_all be rss pc = Some (Inr pc') \<Longrightarrow> life_ok pc' \<and> state_rank (p_state (pc_pair pc)) \<le> state_rank (p_state (pc_pair pc'))"
proof (induction be rss pc rule: read_all.induct)
  case (2 be w cs css pc)
  from 2(3) obtain ok pc1 where r: "Pair_read be w cs pc = Some (Inr (ok, pc1))" "if ok then read_all be css pc1 = Some (Inr pc') else pc1 = pc'"
    by (auto split: option.splits sum.splits if_splits)
  note l = Pair_read_life [OF 2(2) r(1)]
  show ?case using 2(1) [OF r(1) refl refl] l r(2) by (cases ok) fastforce+
qed simp

section \<open>Changing the mode\<close>

text \<open>A write that completes leaves the pair as it is, whatever the registration.\<close>

lemma write_loop_complete:
  "write_loop be cs op pc = Some (Inr (True, op', pc')) \<Longrightarrow> life_of pc' = life_of pc \<and> pc_pair pc' = pc_pair pc"
proof (induction be cs op pc rule: write_loop.induct)
  case (2 be c cs op pc)
  have sent: "life_of (pc\<lparr>pc_sent := x\<rparr>) = life_of pc" for x by (simp add: life_of_def)
  show ?case
    using 2(1,2) 2(3) sent by (auto simp: Let_def rbind_Inr_conv enforce_Inr_conv split: sum.splits wcall.splits if_splits)
qed simp

lemma flush_sync_complete:
  "flush_sync be css ops pc = Some (Inr pc') \<Longrightarrow> life_of pc' = life_of pc \<and> pc_pair pc' = pc_pair pc"
proof (induction be css ops pc rule: flush_sync.induct)
  case (3 be cs css op ops pc)
  from 3(2) obtain op' pc1 where w: "Pair_write be cs op pc = Some (Inr (True, op', pc1))" "flush_sync be css ops pc1 = Some (Inr pc')"
    by (auto split: option.splits sum.splits if_splits)
  have "life_of pc1 = life_of pc \<and> pc_pair pc1 = pc_pair pc"
    using w(1) write_loop_complete by (auto simp: Pair_write_def split: if_splits)
  with 3(1) [OF w(1) refl refl refl _ w(2)] show ?case by simp
qed simp_all

lemma setSync_life:
  assumes "life_ok pc" "setSync be sync busyPoll css pc = Some (Inr pc')"
  shows "life_ok pc' \<and> p_state (pc_pair pc') = p_state (pc_pair pc)"
proof -
  from assms(2) have st: "p_state (pc_pair pc) = CONNECTED"
    by (auto simp: setSync_def waitUntilConnected_def connected_or_later_def rbind_def split: if_splits option.splits sum.splits)
  let ?fin = "\<lambda>pc. (set_pair (p_sync_update (\<lambda>_. True)) pc)\<lparr>pc_busyPoll := busyPoll\<rparr>"
  consider "p_sync (pc_pair pc)" "pc' = ?fin pc"
    | pc1 where "flush_sync be css (p_tx (pc_pair pc)) (pc\<lparr>pc_epoll := None\<rparr>) = Some (Inr pc1)"
        "pc' = ?fin (set_pair (p_tx_update (\<lambda>_. [])) pc1)"
    using assms(2) st by (auto simp: setSync_def waitUntilConnected_def connected_or_later_def rbind_Inr_conv Let_def split: if_splits option.splits)
  then show ?thesis
  proof cases
    case 1
    then show ?thesis using assms(1) st by (simp add: life_ok_def life_core_def tx_registered_def Let_def)
  next
    case 2
    from flush_sync_complete [OF 2(1)] st assms(1) show ?thesis
      by (auto simp: 2(2) life_of_def life_ok_def life_core_def tx_registered_def Let_def)
  qed
qed

section \<open>Steps\<close>

text \<open>
  What threads can do with a pair. The device calls back once per connection attempt, while the pair waits
  for it; the loop reports the events a descriptor is registered for; \<open>recv()\<close> is called in synchronous
  mode. A call that throws is not a step here, as its caller gets the error.
\<close>

inductive pair_step :: "bool \<Rightarrow> Proc \<Rightarrow> Proc \<Rightarrow> bool" for be where
  step_connect: "connect pc = Inr pc' \<Longrightarrow> pair_step be pc pc'"
| step_callback: "p_state (pc_pair pc) = CONNECTING \<Longrightarrow> connectCallback sock pc = Inr pc' \<Longrightarrow> pair_step be pc pc'"
| step_close: "pair_step be pc (Pair_close pc)"
| step_timeout: "signalExceptionExternal pc = Inr pc' \<Longrightarrow> pair_step be pc pc'"
| step_send: "Proc_send be css tbuf tsize slot offset nbytes pc = Some (Inr pc') \<Longrightarrow> pair_step be pc pc'"
| step_recv: "Proc_recv be css tbuf tsize slot offset nbytes pc = Some (Inr pc') \<Longrightarrow> pair_step be pc pc'"
| step_sendOp: "Pair_sendOp be cs op pc = Some (Inr pc') \<Longrightarrow> pair_step be pc pc'"
| step_events: "pc_epoll pc = Some reg \<Longrightarrow> (out \<Longrightarrow> reg) \<Longrightarrow> handleEvents be locked out inp css rss pc = Some (Inr pc') \<Longrightarrow> pair_step be pc pc'"
| step_recvSync: "p_sync (pc_pair pc) \<Longrightarrow> Pair_recvSync be css cs pc = Some (Inr pc') \<Longrightarrow> pair_step be pc pc'"
| step_setSync: "setSync be sync busyPoll css pc = Some (Inr pc') \<Longrightarrow> pair_step be pc pc'"
| step_register: "registerBuffer b pc = Inr pc' \<Longrightarrow> pair_step be pc pc'"
| step_unregister: "pair_step be pc (unregisterBuffer b pc)"
| step_arrive: "pair_step be pc (pc\<lparr>pc_in := pc_in pc @ bs\<rparr>)"

definition fresh_pair :: "Proc \<Rightarrow> bool" where
  "fresh_pair pc \<longleftrightarrow> p_state (pc_pair pc) = INITIALIZING \<and> p_ex (pc_pair pc) = None \<and> \<not> p_sync (pc_pair pc) \<and>
     p_tx (pc_pair pc) = [] \<and> pc_fd pc = None \<and> pc_epoll pc = None"

text \<open>The invariant holds afterwards and the state has not moved backwards.\<close>

definition forward :: "Proc \<Rightarrow> Proc \<Rightarrow> bool" where
  "forward pc pc' \<longleftrightarrow> life_ok pc' \<and> state_rank (p_state (pc_pair pc)) \<le> state_rank (p_state (pc_pair pc'))"

lemma rank_le_3 [simp]: "state_rank st \<le> 3"
  by (cases st) simp_all

lemma forward_failed: "failed pc' \<Longrightarrow> forward pc pc'"
  by (simp add: forward_def failed_ok) (simp add: failed_def)

lemma forward_same:
  assumes "life_ok pc" "life_of pc' = life_of pc" "p_tx (pc_pair pc') = p_tx (pc_pair pc)"
  shows "forward pc pc'"
proof -
  have "p_state (pc_pair pc') = p_state (pc_pair pc)" using assms(2) by (simp add: life_of_def)
  with life_ok_of [OF assms(2,3)] assms(1) show ?thesis by (simp add: forward_def)
qed

lemma forward_close: assumes "life_ok pc" shows "forward pc (Pair_close pc)"
proof (cases "p_state (pc_pair pc) = CLOSED")
  case False
  then have "life_core (pc\<lparr>pc_pair := (pc_pair pc)\<lparr>p_ex := None\<rparr>\<rparr>)" using assms by (auto simp: life_ok_def life_core_def Let_def)
  note c = changeState_CLOSED [OF this]
  show ?thesis using False c(1,2) by (simp add: Pair_close_def forward_def life_ok_def tx_registered_def)
qed (use assms in \<open>simp add: Pair_close_def forward_def\<close>)

lemma forward_callback:
  assumes "life_ok pc" "p_state (pc_pair pc) = CONNECTING" "connectCallback sock pc = Inr pc'"
  shows "forward pc pc'"
proof (cases sock)
  case None
  then show ?thesis using assms(1,3) signalException_failed [of pc] by (auto simp: connectCallback_def life_ok_def intro: forward_failed)
next
  case (Some fd)
  then have pc': "pc' = changeState CONNECTED (pc\<lparr>pc_fd := Some fd, pc_epoll := Some False\<rparr>)" using assms(3) by (simp add: connectCallback_def)
  have "p_ex (pc_pair pc) = None" "\<not> p_sync (pc_pair pc)" "p_tx (pc_pair pc) = []"
    using assms(1,2) by (auto simp: life_ok_def life_core_def tx_registered_def Let_def)
  then show ?thesis using assms(2) by (simp add: pc' changeState_def forward_def life_ok_def life_core_def tx_registered_def)
qed

lemma forward_handleEvents:
  assumes "life_ok pc" "handleEvents be locked out inp css rss pc = Some (Inr pc')" "pc_epoll pc = Some reg"
  shows "forward pc pc'"
proof (cases locked)
  case False
  then show ?thesis using assms by (auto simp: handleEvents_def forward_def)
next
  case True
  then have st: "p_state (pc_pair pc) = CONNECTED" using assms(2) by (simp add: handleEvents_def split: if_splits)
  have async: "\<not> p_sync (pc_pair pc)" using assms(1,3) by (auto simp: life_ok_def life_core_def Let_def split: if_splits)
  from assms(2) True have hrw: "handleReadWrite be out inp css rss pc = Some (Inr pc')" by (simp add: handleEvents_def split: if_splits)
  then obtain pc1 where w: "(if out then handleWritable be css pc else Some (Inr pc)) = Some (Inr pc1)"
    and r: "if inp then read_all be rss pc1 = Some (Inr pc') else pc1 = pc'"
    by (simp add: handleReadWrite_def split: option.splits sum.splits if_splits)
  have 1: "forward pc pc1"
    using w handleWritable_life [OF assms(1) st async] assms(1) st by (auto simp: forward_def split: if_splits)
  then have "life_ok pc1" by (simp add: forward_def)
  note rd = read_all_life [OF this, of be rss pc']
  show ?thesis
  proof (cases inp)
    case True
    then show ?thesis using rd r 1 order_trans by (auto simp: forward_def)
  qed (use r 1 in simp)
qed

lemma verifyConnected_same: "verifyConnected pc = Inr pc' \<Longrightarrow> pc' = pc"
  by (auto simp: verifyConnected_def enforce_Inr_conv rbind_def split: if_splits sum.splits)

lemma forward_sendOp:
  assumes "life_ok pc" "Pair_sendOp be cs op pc = Some (Inr pc')"
  shows "forward pc pc'"
proof -
  have s: "(if p_sync (pc_pair pc) then sendSync be cs op pc else sendAsync be cs op pc) = Some (Inr pc')"
    using assms(2) verifyConnected_same [of pc] by (auto simp: Pair_sendOp_def throwIfException_def split: option.splits sum.splits)
  show ?thesis
  proof (cases "p_sync (pc_pair pc)")
    case True
    then obtain op' where w: "Pair_write be cs op pc = Some (Inr (True, op', pc'))"
      using s by (auto simp: sendSync_def rbind_Inr_conv split: if_splits option.splits)
    have "life_core pc" using assms(1) by (simp add: life_ok_def)
    from Pair_write_life [OF this w] assms(1) show ?thesis by (intro forward_same) simp_all
  qed (use s sendAsync_life [OF assms(1)] in \<open>auto simp: forward_def\<close>)
qed

lemma forward_recvSync:
  assumes "life_ok pc" "Pair_recvSync be css cs pc = Some (Inr pc')"
  shows "forward pc pc'"
proof -
  have "\<exists>ok. Pair_read be css cs pc = Some (Inr (ok, pc'))"
    using assms(2) verifyConnected_same [of pc]
    by (auto simp: Pair_recvSync_def throwIfException_def rbind_Inr_conv split: option.splits sum.splits if_splits)
  then show ?thesis using Pair_read_life [OF assms(1)] by (auto simp: forward_def)
qed

lemma step_forward:
  assumes "pair_step be pc pc'" "life_ok pc"
  shows "forward pc pc'"
  using assms
proof (induction rule: pair_step.induct)
  case (step_connect pc pc')
  then have "pc' = set_pair (p_state_update (\<lambda>_. CONNECTING)) pc" "p_state (pc_pair pc) = INITIALIZING" by (auto simp: connect_def enforce_Inr_conv)
  with step_connect(2) show ?case by (auto simp: forward_def life_ok_def life_core_def tx_registered_def Let_def split: if_splits)
next
  case (step_callback pc sock pc')
  then show ?case by (intro forward_callback)
next
  case (step_close pc)
  then show ?case by (rule forward_close)
next
  case (step_timeout pc pc')
  then have "failed pc' \<or> pc' = pc"
    using signalException_failed [of pc] by (auto simp: signalExceptionExternal_def life_ok_def split: if_splits)
  then show ?case using forward_failed step_timeout(2) by (auto simp: forward_def [of pc pc])
next
  case (step_send css tbuf tsize slot offset nbytes pc pc')
  from run_protocol_life [OF protocol_keeps_life(1) step_send(2) step_send(1) [unfolded Proc_send_def]] show ?case by (simp add: forward_def)
next
  case (step_recv css tbuf tsize slot offset nbytes pc pc')
  from run_protocol_life [OF protocol_keeps_life(2) step_recv(2) step_recv(1) [unfolded Proc_recv_def]] show ?case by (simp add: forward_def)
next
  case (step_sendOp cs op pc pc')
  then show ?case by (intro forward_sendOp)
next
  case (step_events pc reg out locked inp css rss pc')
  then show ?case by (intro forward_handleEvents)
next
  case (step_recvSync pc css cs pc')
  then show ?case by (intro forward_recvSync)
next
  case (step_setSync sync busyPoll css pc pc')
  from setSync_life [OF step_setSync(2,1)] show ?case by (simp add: forward_def)
next
  case (step_register b pc pc')
  then show ?case by (intro forward_same) (auto simp: registerBuffer_def Let_def enforce_Inr_conv life_of_def)
next
  case (step_unregister pc b)
  then show ?case by (rule forward_same) (simp_all add: unregisterBuffer_def life_of_def)
next
  case (step_arrive pc bs)
  then show ?case by (rule forward_same) (simp_all add: life_of_def)
qed

lemma steps_forward: "(pair_step be)\<^sup>*\<^sup>* pc pc' \<Longrightarrow> life_ok pc \<Longrightarrow> forward pc pc'"
proof (induction rule: rtranclp_induct)
  case base
  then show ?case by (simp add: forward_def)
next
  case (step y z)
  then have "forward pc y" by blast
  then have "life_ok y" by (simp add: forward_def)
  from step_forward [OF step(2) this] \<open>forward pc y\<close> show ?case by (simp add: forward_def)
qed

section \<open>The life cycle\<close>

lemma fresh_ok: "fresh_pair pc \<Longrightarrow> life_ok pc"
  by (simp add: fresh_pair_def life_ok_def life_core_def tx_registered_def)


definition new_pair :: Pair where
  "new_pair = \<lparr>p_rank = 1, p_state = INITIALIZING, p_sync = False, p_ex = None, localPendingSend = (\<lambda>_. None), localPendingRecv = (\<lambda>_. None),
     p_tx = [], p_sock = []\<rparr>"

definition new_proc :: Proc where
  "new_proc = \<lparr>pc_pair = new_pair, pc_ctx = \<lparr>ctx_tallies = \<lparr>pendingOperations = [], expectedNotifications = []\<rparr>, pendingRecv = (\<lambda>_. None)\<rparr>,
     pc_busyPoll = False, pc_fd = None, pc_epoll = None, pc_rx = Rx_new, pc_buffers = (\<lambda>_. None), pc_bufs = (\<lambda>_. Buffer_new 0 0),
     pc_ubufs = (\<lambda>_. None), pc_bmem = (\<lambda>_. []), pc_umem = (\<lambda>_. []), pc_sent = [], pc_in = []\<rparr>"

lemma new_run:
  "connect new_proc = Inr (new_proc\<lparr>pc_pair := new_pair\<lparr>p_state := CONNECTING\<rparr>\<rparr>)"
  "connectCallback (Some 5) (new_proc\<lparr>pc_pair := new_pair\<lparr>p_state := CONNECTING\<rparr>\<rparr>) =
     Inr (new_proc\<lparr>pc_pair := new_pair\<lparr>p_state := CONNECTED\<rparr>, pc_fd := Some 5, pc_epoll := Some False\<rparr>)"
  by (simp_all add: connect_def connectCallback_def changeState_def new_proc_def new_pair_def enforce_def)


text \<open>
  C39: The state of a pair does not only move forward. \<open>connectCallback\<close> does not look at the state: when the
  connection is established after the pair gave up waiting, the callback makes the closed pair a connected
  one again, registered with the loop, with the exception of the timeout still stored. Every event on that
  socket then fails the check of \<open>handleEvents\<close>, in the thread of the loop.
\<close>

theorem late_connection_reopens:
  assumes "life_ok pc" "p_state (pc_pair pc) = CONNECTING" "signalExceptionExternal pc = Inr pc1"
  shows "p_state (pc_pair pc1) = CLOSED \<and>
    (\<exists>pc2. connectCallback (Some fd) pc1 = Inr pc2 \<and> p_state (pc_pair pc2) = CONNECTED \<and> pc_epoll pc2 = Some False \<and>
       p_ex (pc_pair pc2) = Some IoException \<and> handleEvents be True out inp css rss pc2 = Some (Inl EnforceNotMet))"
proof -
  have ex: "p_ex (pc_pair pc) = None" "life_core pc" using assms(1,2) by (auto simp: life_ok_def life_core_def Let_def)
  then have s: "signalException IoException pc = Inr pc1" using assms(3) by (simp add: signalExceptionExternal_def)
  have st: "p_state (pc_pair pc1) = CLOSED" using signalException_failed [OF ex(2) s] by (simp add: failed_def)
  have "p_ex (pc_pair pc1) = Some IoException"
    using s by (auto simp: signalException_def Let_def enforce_Inr_conv changeState_def split: pair_state.splits if_splits)
  then show ?thesis using st by (simp add: connectCallback_def changeState_def handleEvents_def)
qed

theorem late_connection_reopens_witness:
  "\<exists>pc1 pc2. signalExceptionExternal (new_proc\<lparr>pc_pair := new_pair\<lparr>p_state := CONNECTING\<rparr>\<rparr>) = Inr pc1 \<and>
     connectCallback (Some 5) pc1 = Inr pc2 \<and> handleEvents False True False True [] [] pc2 = Some (Inl EnforceNotMet)"
proof -
  let ?pc = "new_proc\<lparr>pc_pair := new_pair\<lparr>p_state := CONNECTING\<rparr>\<rparr>"
  have ok: "life_ok ?pc" "p_state (pc_pair ?pc) = CONNECTING"
    by (simp_all add: life_ok_def life_core_def tx_registered_def new_proc_def new_pair_def)
  obtain pc1 where s: "signalExceptionExternal ?pc = Inr pc1"
    by (simp add: signalExceptionExternal_def signalException_def enforce_def new_proc_def new_pair_def Let_def)
  from late_connection_reopens [OF ok s, of 5 False False True "[]" "[]"] s show ?thesis by blast
qed

section \<open>Operations without a receiver of the error\<close>

text \<open>
  C40: An error of the connection is not told to the unbound buffer of an operation that is already in the
  transmit queue. When such a buffer has no other operation pending on the pair, \<open>signalException\<close> leaves it
  as it was: a thread in \<open>waitSend\<close> for that operation keeps waiting until its own timeout,
  although the pair is closed and the operation will never complete.
\<close>

theorem queued_send_not_told:
  assumes "signalException e pc = Inr pc'" "op \<in> set (p_tx (pc_pair pc))" "op_ubuf op = Some b" "pc_ubufs pc b = Some ub"
    and "b \<notin> pending_bufs (localPendingSend (pc_pair pc))" "b \<notin> pending_bufs (localPendingRecv (pc_pair pc))"
    and "ub_ex ub = None" "ub_waitSend False ub = Blocks"
  shows "p_state (pc_pair pc') = CLOSED \<and> op \<in> set (p_tx (pc_pair pc')) \<and>
    (\<exists>ub'. pc_ubufs pc' b = Some ub' \<and> ub_waitSend False ub' = Blocks)"
  using assms by (auto simp: signalException_def Let_def enforce_Inr_conv changeState_def split: pair_state.splits if_splits)

definition stuck_proc :: Proc where
  "stuck_proc = new_proc\<lparr>pc_pair := new_pair\<lparr>p_state := CONNECTED, p_tx := [Op_new\<lparr>pre_opcode := SEND_UNBOUND_BUFFER, op_ubuf := Some 0\<rparr>]\<rparr>,
     pc_fd := Some 5, pc_epoll := Some True, pc_ubufs := [0 \<mapsto> UnboundBuffer_new 0]\<rparr>"

theorem queued_send_not_told_witness:
  "\<exists>pc' ub'. signalException IoException stuck_proc = Inr pc' \<and> pc_ubufs pc' 0 = Some ub' \<and> ub_waitSend False ub' = Blocks"
proof -
  obtain pc' where s: "signalException IoException stuck_proc = Inr pc'"
    by (simp add: signalException_def enforce_def stuck_proc_def new_pair_def Let_def)
  have "\<exists>ub'. pc_ubufs pc' 0 = Some ub' \<and> ub_waitSend False ub' = Blocks"
    by (rule conjunct2 [OF conjunct2 [OF queued_send_not_told [OF s]]])
      (auto simp: stuck_proc_def new_pair_def pending_bufs_def UnboundBuffer_new_def ub_waitSend_def Op_new_def)
  with s show ?thesis by blast
qed

end
