(* ===== verification/Gloo_Store.thy ===== *)
theory Gloo_Store
  imports Gloo_Buffers Gloo_Packet
begin

text \<open>
  The key-value stores of \<open>gloo/rendezvous\<close>: the interface \<open>Store\<close> with its default implementations, the
  store in memory, the store in a directory and the store that puts a prefix before the keys of another
  one. The contract that a user of a store relies on is the locale \<open>kv_store\<close>; each of the three stores is
  an instance of it.
\<close>

section \<open>Decimal numbers\<close>

definition digit_char :: "nat \<Rightarrow> char" where
  "digit_char d = char_of (48 + d)"

text \<open>\<open>std::to_string\<close> and the output operator on numbers that are not negative.\<close>

fun to_string :: "nat \<Rightarrow> string" where
  "to_string n = (if n < 10 then [digit_char n] else to_string (n div 10) @ [digit_char (n mod 10)])"

declare to_string.simps [simp del]

definition digit_value :: "char \<Rightarrow> nat" where
  "digit_value c = of_char c - 48"

definition string_value :: "string \<Rightarrow> nat" where
  "string_value s = fold (\<lambda>c v. 10 * v + digit_value c) s 0"

lemma digit_value_char: "d < 10 \<Longrightarrow> digit_value (digit_char d) = d"
  by (simp add: digit_value_def digit_char_def)

lemma string_value_to_string: "string_value (to_string n) = n"
proof (induction n rule: to_string.induct)
  case (1 n)
  show ?case
  proof (cases "n < 10")
    case True
    then show ?thesis by (subst to_string.simps) (simp add: string_value_def digit_value_char)
  next
    case False
    with 1 have "string_value (to_string (n div 10)) = n div 10" by simp
    then show ?thesis using False by (subst to_string.simps) (simp add: string_value_def digit_value_char)
  qed
qed

lemma to_string_inj: "to_string m = to_string n \<longleftrightarrow> m = n"
  by (metis string_value_to_string)

definition digits :: "char set" where
  "digits = digit_char ` {..<10}"

lemma to_string_digits: "to_string n \<noteq> [] \<and> set (to_string n) \<subseteq> digits"
proof (induction n rule: to_string.induct)
  case (1 n)
  show ?case
  proof (cases "n < 10")
    case False
    with 1 show ?thesis by (subst (1 2) to_string.simps) (simp add: digits_def)
  qed (subst (1 2) to_string.simps, simp add: digits_def)
qed

lemma digits_code: "c \<in> digits \<Longrightarrow> 48 \<le> (of_char c :: nat) \<and> (of_char c :: nat) < 58"
  by (auto simp: digits_def digit_char_def)

lemma digits_simps: "CHR ''r'' \<notin> digits" "CHR ''.'' \<notin> digits" "CHR ''/'' \<notin> digits"
  by (auto dest: digits_code)

section \<open>The interface\<close>

text \<open>
  The virtual functions of \<open>Store\<close>, for states of type \<open>'s\<close>. The boolean argument of \<open>so_get\<close> and \<open>so_wait\<close>
  says whether the timeout passes before the condition holds. The second part of the interface has default
  implementations that throw.
\<close>

record 's Store =
  so_set :: "string \<Rightarrow> bytes \<Rightarrow> 's \<Rightarrow> 's result"
  so_get :: "bool \<Rightarrow> string \<Rightarrow> 's \<Rightarrow> bytes wait"
  so_wait :: "bool \<Rightarrow> string list \<Rightarrow> 's \<Rightarrow> unit wait"
  so_has_v2_support :: bool
  so_multi_get :: "string list \<Rightarrow> 's \<Rightarrow> bytes list result"
  so_multi_set :: "string list \<Rightarrow> bytes list \<Rightarrow> 's \<Rightarrow> 's result"
  so_append :: "string \<Rightarrow> bytes \<Rightarrow> 's \<Rightarrow> 's result"
  so_add :: "string \<Rightarrow> int \<Rightarrow> 's \<Rightarrow> (int \<times> 's) result"

definition Store_base :: "(string \<Rightarrow> bytes \<Rightarrow> 's \<Rightarrow> 's result) \<Rightarrow> (bool \<Rightarrow> string \<Rightarrow> 's \<Rightarrow> bytes wait) \<Rightarrow>
    (bool \<Rightarrow> string list \<Rightarrow> 's \<Rightarrow> unit wait) \<Rightarrow> 's Store" where
  "Store_base st get wt =
     \<lparr>so_set = st, so_get = get, so_wait = wt, so_has_v2_support = False,
      so_multi_get = (\<lambda>keys s. Inl InvalidOperationException), so_multi_set = (\<lambda>keys values s. Inl InvalidOperationException),
      so_append = (\<lambda>key data s. Inl InvalidOperationException), so_add = (\<lambda>key v s. Inl InvalidOperationException)\<rparr>"

section \<open>The store in memory\<close>

definition HashStore_set :: "string \<Rightarrow> bytes \<Rightarrow> (string \<rightharpoonup> bytes) \<Rightarrow> (string \<rightharpoonup> bytes) result" where
  "HashStore_set key data m = enforce (m key = None) (Inr (m(key \<mapsto> data)))"

definition HashStore_get :: "bool \<Rightarrow> string \<Rightarrow> (string \<rightharpoonup> bytes) \<Rightarrow> bytes wait" where
  "HashStore_get elapsed key m = Returns (case m key of None \<Rightarrow> [] | Some data \<Rightarrow> data)"

definition HashStore_wait :: "bool \<Rightarrow> string list \<Rightarrow> (string \<rightharpoonup> bytes) \<Rightarrow> unit wait" where
  "HashStore_wait elapsed keys m =
     (if list_all (\<lambda>key. m key \<noteq> None) keys then Returns () else if elapsed then Throws IoException else Blocks)"

definition HashStore :: "(string \<rightharpoonup> bytes) Store" where
  "HashStore = Store_base HashStore_set HashStore_get HashStore_wait"

section \<open>The store in a directory\<close>

text \<open>
  The state is the file system; the standard library's hash function for strings, \<open>hashFn\<close>, and the
  directory are arguments. A temporary file is written and renamed. Failures of the file system itself
  (no permission, no space) are not modelled, and a call of \<open>set\<close> is one step: the source says itself that
  the test for an existing file is not free of races.
\<close>

definition encodeName :: "(string \<Rightarrow> nat) \<Rightarrow> string \<Rightarrow> string" where
  "encodeName hashFn name = to_string (hashFn name)"

definition tmpPath :: "string \<Rightarrow> (string \<Rightarrow> nat) \<Rightarrow> string \<Rightarrow> string" where
  "tmpPath basePath hashFn name = basePath @ ''/.'' @ encodeName hashFn name"

definition objectPath :: "string \<Rightarrow> (string \<Rightarrow> nat) \<Rightarrow> string \<Rightarrow> string" where
  "objectPath basePath hashFn name = basePath @ ''/'' @ encodeName hashFn name"

definition FileStore_set :: "string \<Rightarrow> (string \<Rightarrow> nat) \<Rightarrow> string \<Rightarrow> bytes \<Rightarrow> (string \<rightharpoonup> bytes) \<Rightarrow> (string \<rightharpoonup> bytes) result" where
  "FileStore_set basePath hashFn key data fs =
     (let tmp = tmpPath basePath hashFn key; path = objectPath basePath hashFn key
      in enforce (fs path = None)
           (let fs = fs(tmp \<mapsto> data) in Inr ((fs(path := fs tmp))(tmp := None))))"

definition FileStore_check :: "string \<Rightarrow> (string \<Rightarrow> nat) \<Rightarrow> string list \<Rightarrow> (string \<rightharpoonup> bytes) \<Rightarrow> bool" where
  "FileStore_check basePath hashFn keys fs = list_all (\<lambda>key. fs (objectPath basePath hashFn key) \<noteq> None) keys"

definition FileStore_wait :: "string \<Rightarrow> (string \<Rightarrow> nat) \<Rightarrow> bool \<Rightarrow> string list \<Rightarrow> (string \<rightharpoonup> bytes) \<Rightarrow> unit wait" where
  "FileStore_wait basePath hashFn elapsed keys fs =
     (if FileStore_check basePath hashFn keys fs then Returns () else if elapsed then Throws IoException else Blocks)"

definition FileStore_get :: "string \<Rightarrow> (string \<Rightarrow> nat) \<Rightarrow> bool \<Rightarrow> string \<Rightarrow> (string \<rightharpoonup> bytes) \<Rightarrow> bytes wait" where
  "FileStore_get basePath hashFn elapsed key fs =
     (case FileStore_wait basePath hashFn elapsed [key] fs of
        Returns _ \<Rightarrow>
          (case fs (objectPath basePath hashFn key) of
             None \<Rightarrow> Throws EnforceNotMet
           | Some data \<Rightarrow> if length data > 0 then Returns data else Throws EnforceNotMet)
      | Blocks \<Rightarrow> Blocks | TimesOut \<Rightarrow> TimesOut | Throws e \<Rightarrow> Throws e)"

definition FileStore :: "string \<Rightarrow> (string \<Rightarrow> nat) \<Rightarrow> (string \<rightharpoonup> bytes) Store" where
  "FileStore basePath hashFn =
     Store_base (FileStore_set basePath hashFn) (FileStore_get basePath hashFn) (FileStore_wait basePath hashFn)"

section \<open>The store with a prefix\<close>

definition joinKey :: "string \<Rightarrow> string \<Rightarrow> string" where
  "joinKey prefix key = prefix @ ''/'' @ key"

definition v2_checked :: "'s Store \<Rightarrow> 'a result \<Rightarrow> 'a result" where
  "v2_checked store r = (if \<not> so_has_v2_support store then Inl InvalidOperationException else r)"

definition PrefixStore :: "string \<Rightarrow> 's Store \<Rightarrow> 's Store" where
  "PrefixStore prefix store =
     \<lparr>so_set = (\<lambda>key data s. so_set store (joinKey prefix key) data s),
      so_get = (\<lambda>elapsed key s. so_get store elapsed (joinKey prefix key) s),
      so_wait = (\<lambda>elapsed keys s. so_wait store elapsed (map (joinKey prefix) keys) s),
      so_has_v2_support = so_has_v2_support store,
      so_multi_get = (\<lambda>keys s. v2_checked store (so_multi_get store (map (joinKey prefix) keys) s)),
      so_multi_set = (\<lambda>keys values s. v2_checked store (so_multi_set store (map (joinKey prefix) keys) values s)),
      so_append = (\<lambda>key data s. v2_checked store (so_append store (joinKey prefix key) data s)),
      so_add = (\<lambda>key v s. v2_checked store (so_add store (joinKey prefix key) v s))\<rparr>"

section \<open>The contract\<close>

text \<open>
  What a user of a store relies on, for the keys that are \<open>good\<close> and values that are not empty: a key can be
  set once, a key that is set has the value that was set, \<open>wait\<close> returns exactly when all keys are set, and
  setting a key does not change another one. What \<open>get\<close> does for a key that is not set is left open: it may
  wait for the key, or return some value at once.
\<close>

locale kv_store =
  fixes S :: "'s Store" and ok :: "'s \<Rightarrow> bool" and view :: "'s \<Rightarrow> string \<Rightarrow> bytes option" and good :: "string \<Rightarrow> bool"
  assumes set_new: "ok s \<Longrightarrow> good k \<Longrightarrow> d \<noteq> [] \<Longrightarrow> view s k = None \<Longrightarrow>
      \<exists>s'. so_set S k d s = Inr s' \<and> ok s' \<and> (\<forall>k'. good k' \<longrightarrow> view s' k' = (if k' = k then Some d else view s k'))"
    and set_old: "ok s \<Longrightarrow> good k \<Longrightarrow> view s k \<noteq> None \<Longrightarrow> so_set S k d s = Inl EnforceNotMet"
    and get_set: "ok s \<Longrightarrow> good k \<Longrightarrow> view s k = Some d \<Longrightarrow> so_get S elapsed k s = Returns d"
    and get_unset: "ok s \<Longrightarrow> good k \<Longrightarrow> view s k = None \<Longrightarrow>
      (\<exists>d. so_get S elapsed k s = Returns d) \<or> so_get S elapsed k s = (if elapsed then Throws IoException else Blocks)"
    and wait_set: "ok s \<Longrightarrow> (\<And>k. k \<in> set ks \<Longrightarrow> good k) \<Longrightarrow>
      so_wait S elapsed ks s = (if \<forall>k \<in> set ks. view s k \<noteq> None then Returns () else if elapsed then Throws IoException else Blocks)"
begin

text \<open>A store with a prefix keeps the contract of the store below.\<close>

lemma prefix_kv_store:
  "kv_store (PrefixStore p S) ok (\<lambda>s k. view s (joinKey p k)) (\<lambda>k. good (joinKey p k))"
proof (unfold_locales, goal_cases)
  case (1 s k d)
  from set_new [OF 1] obtain s' where s': "so_set S (joinKey p k) d s = Inr s'" "ok s'"
    "\<forall>k'. good k' \<longrightarrow> view s' k' = (if k' = joinKey p k then Some d else view s k')" by blast
  then show ?case by (intro exI [of _ s']) (auto simp: PrefixStore_def joinKey_def)
next
  case (2 s k d)
  then show ?case by (simp add: PrefixStore_def set_old)
next
  case (3 s k d elapsed)
  then show ?case by (simp add: PrefixStore_def get_set)
next
  case (4 s k elapsed)
  then show ?case using get_unset [OF 4, of elapsed] by (simp add: PrefixStore_def)
next
  case (5 s ks elapsed)
  then have "\<And>k. k \<in> set (map (joinKey p) ks) \<Longrightarrow> good k" by auto
  from wait_set [of s "map (joinKey p) ks" elapsed, OF 5(1) this] show ?case by (simp add: PrefixStore_def)
qed

end

text \<open>A store whose \<open>get\<close> waits for the key.\<close>

locale blocking_store = kv_store +
  assumes get_waits: "ok s \<Longrightarrow> good k \<Longrightarrow> view s k = None \<Longrightarrow> so_get S elapsed k s = (if elapsed then Throws IoException else Blocks)"

definition hash_view :: "(string \<rightharpoonup> bytes) \<Rightarrow> string \<Rightarrow> bytes option" where
  "hash_view m k = m k"

interpretation hs: kv_store HashStore "\<lambda>_. True" hash_view "\<lambda>_. True"
  by unfold_locales (auto simp: HashStore_def Store_base_def HashStore_set_def HashStore_get_def HashStore_wait_def hash_view_def
      enforce_def list_all_iff)

text \<open>The store in a directory keeps the contract for sets of keys without collisions of their hash values.\<close>

definition fs_ok :: "string \<Rightarrow> (string \<Rightarrow> nat) \<Rightarrow> (string \<rightharpoonup> bytes) \<Rightarrow> bool" where
  "fs_ok basePath hashFn fs \<longleftrightarrow> (\<forall>k. fs (objectPath basePath hashFn k) \<noteq> Some [])"

definition fs_view :: "string \<Rightarrow> (string \<Rightarrow> nat) \<Rightarrow> (string \<rightharpoonup> bytes) \<Rightarrow> string \<Rightarrow> bytes option" where
  "fs_view basePath hashFn fs k = fs (objectPath basePath hashFn k)"

definition fs_good :: "(string \<Rightarrow> nat) \<Rightarrow> string set \<Rightarrow> string \<Rightarrow> bool" where
  "fs_good hashFn K k \<longleftrightarrow> inj_on hashFn K \<and> k \<in> K"

lemma objectPath_eq: "objectPath b h k = objectPath b h k' \<longleftrightarrow> h k = h k'"
  by (simp add: objectPath_def encodeName_def to_string_inj)

lemma objectPath_tmpPath: "objectPath b h k \<noteq> tmpPath b h k'"
proof -
  have "CHR ''.'' \<notin> set (to_string (h k))" using to_string_digits digits_simps by blast
  then show ?thesis by (auto simp: objectPath_def tmpPath_def encodeName_def)
qed

lemma fs_set_simp:
  assumes "fs (objectPath b h k) = None"
  shows "\<exists>fs'. FileStore_set b h k d fs = Inr fs' \<and>
    (\<forall>k'. fs' (objectPath b h k') = (if h k' = h k then Some d else fs (objectPath b h k')))"
  using assms objectPath_tmpPath by (auto simp: FileStore_set_def Let_def objectPath_eq)

interpretation fs: blocking_store "FileStore b h" "fs_ok b h" "fs_view b h" "fs_good h K"
  for b :: string and h :: "string \<Rightarrow> nat" and K :: "string set"
proof (unfold_locales, goal_cases)
  case (1 s k d)
  then have "s (objectPath b h k) = None" by (simp add: fs_view_def)
  from fs_set_simp [of s b h k d, OF this] obtain s' where s': "FileStore_set b h k d s = Inr s'"
    "\<forall>k'. s' (objectPath b h k') = (if h k' = h k then Some d else s (objectPath b h k'))" by blast
  moreover have "h k' = h k \<longleftrightarrow> k' = k" if "fs_good h K k'" for k' using that 1(2) by (auto simp: fs_good_def inj_on_def)
  ultimately show ?case using 1(1,3) by (intro exI [of _ s']) (simp add: FileStore_def Store_base_def fs_ok_def fs_view_def)
next
  case (2 s k d)
  then show ?case by (auto simp: FileStore_def Store_base_def FileStore_set_def fs_view_def Let_def enforce_def)
next
  case (3 s k d elapsed)
  then show ?case
    by (auto simp: FileStore_def Store_base_def FileStore_get_def FileStore_wait_def FileStore_check_def fs_view_def fs_ok_def)
next
  case (4 s k elapsed)
  then show ?case by (simp add: FileStore_def Store_base_def FileStore_get_def FileStore_wait_def FileStore_check_def fs_view_def)
next
  case (5 s ks elapsed)
  then show ?case by (simp add: FileStore_def Store_base_def FileStore_wait_def FileStore_check_def fs_view_def list_all_iff)
next
  case (6 s k elapsed)
  then show ?case by (simp add: FileStore_def Store_base_def FileStore_get_def FileStore_wait_def FileStore_check_def fs_view_def)
qed

interpretation ps: kv_store "PrefixStore p HashStore" "\<lambda>_. True" "\<lambda>s k. hash_view s (joinKey p k)" "\<lambda>k. True"
  for p :: string
  by (rule hs.prefix_kv_store)

end
