(* ===== verification/Gloo_Mesh.thy ===== *)
theory Gloo_Mesh
  imports Gloo_Store
begin

text \<open>
  \<open>gloo/rendezvous/context.cc\<close>: \<open>connectFullMesh\<close>, by which the processes of a group find each other through
  a store and connect every pair of them. The processes run concurrently on one store. The host names and
  the addresses of the pairs, which the operating system and the device provide, are arguments.
\<close>

section \<open>The program of a process\<close>

datatype mesh_op = SetHost | GetHost nat | SetAddrs | WaitAddr nat | ConnectPair nat | AwaitPair nat

definition rankKey :: "nat \<Rightarrow> string" where
  "rankKey i = ''rank_'' @ to_string i"

definition peers :: "nat \<Rightarrow> nat \<Rightarrow> nat list" where
  "peers n rank = filter (\<lambda>i. i \<noteq> rank) [0..<n]"

definition link_ops :: "nat \<Rightarrow> mesh_op list" where
  "link_ops i = [WaitAddr i, ConnectPair i, AwaitPair i]"

text \<open>
  \<open>connectFullMesh\<close>: publish the host name, read those of the lower ranks, create the pairs and publish
  their addresses, and for every peer wait for its addresses and connect. The loop over the host names is
  left at the own rank.
\<close>

definition connectFullMesh :: "nat \<Rightarrow> nat \<Rightarrow> mesh_op list" where
  "connectFullMesh n rank = SetHost # map GetHost [0..<rank] @ SetAddrs # concat (map link_ops (peers n rank))"

definition extractAddress :: "nat \<Rightarrow> nat \<Rightarrow> bytes \<Rightarrow> nat \<Rightarrow> bytes result" where
  "extractAddress rank n allAddrs i =
     (let adjRank = (if rank > i then rank - 1 else rank); addrSize = length allAddrs div (n - 1)
      in if (adjRank + 1) * addrSize \<le> length allAddrs then Inr (read_at (adjRank * addrSize) addrSize allAddrs) else Inl UndefinedBehavior)"

text \<open>The addresses of the pairs of a rank, in the order of the peers.\<close>

definition allBytes :: "nat \<Rightarrow> (nat \<Rightarrow> nat \<Rightarrow> bytes) \<Rightarrow> nat \<Rightarrow> bytes" where
  "allBytes n addr rank = concat (map (addr rank) (peers n rank))"

record Mesh =
  m_todo :: "mesh_op list"
  m_localRank :: nat
  m_conn :: "nat \<rightharpoonup> bytes" \<comment> \<open>the address that \<open>connect\<close> of the pair was called with\<close>

record 's World =
  mw_store :: 's
  mw_proc :: "nat \<Rightarrow> Mesh"

text \<open>
  One operation of a process. \<open>addr j i\<close> is the address of the pair for \<open>i\<close> that rank \<open>j\<close> created. \<open>connect\<close>
  returns when the connection is made; for that the other process has to call \<open>connect\<close> too, unless this side
  is the active one (\<open>active\<close>), whose connection the listener of the other side accepts in any case.
\<close>

definition mesh_exec :: "'s Store \<Rightarrow> nat \<Rightarrow> (nat \<Rightarrow> bytes) \<Rightarrow> (nat \<Rightarrow> nat \<Rightarrow> bytes) \<Rightarrow> (nat \<Rightarrow> nat \<Rightarrow> bool) \<Rightarrow> bool \<Rightarrow> nat \<Rightarrow> mesh_op \<Rightarrow>
    's World \<Rightarrow> ('s \<times> Mesh) wait" where
  "mesh_exec S n host addr active elapsed r oper w =
     (let s = mw_store w; m = mw_proc w r
      in case oper of
           SetHost \<Rightarrow> (case so_set S (rankKey r) (host r) s of Inl e \<Rightarrow> Throws e | Inr s \<Rightarrow> Returns (s, m))
         | GetHost i \<Rightarrow>
             (case so_get S elapsed (rankKey i) s of
                Returns hostName \<Rightarrow> Returns (s, if hostName = host r then m\<lparr>m_localRank := m_localRank m + 1\<rparr> else m)
              | Blocks \<Rightarrow> Blocks | TimesOut \<Rightarrow> TimesOut | Throws e \<Rightarrow> Throws e)
         | SetAddrs \<Rightarrow> (case so_set S (to_string r) (allBytes n addr r) s of Inl e \<Rightarrow> Throws e | Inr s \<Rightarrow> Returns (s, m))
         | WaitAddr i \<Rightarrow>
             (case so_wait S elapsed [to_string i] s of
                Returns _ \<Rightarrow> Returns (s, m) | Blocks \<Rightarrow> Blocks | TimesOut \<Rightarrow> TimesOut | Throws e \<Rightarrow> Throws e)
         | ConnectPair i \<Rightarrow>
             (case so_get S elapsed (to_string i) s of
                Returns allAddrs \<Rightarrow>
                  (case extractAddress r n allAddrs i of Inl e \<Rightarrow> Throws e | Inr a \<Rightarrow> Returns (s, m\<lparr>m_conn := (m_conn m)(i \<mapsto> a)\<rparr>))
              | Blocks \<Rightarrow> Blocks | TimesOut \<Rightarrow> TimesOut | Throws e \<Rightarrow> Throws e)
         | AwaitPair i \<Rightarrow>
             if active r i \<or> m_conn (mw_proc w i) r \<noteq> None then Returns (s, m) else if elapsed then Throws IoException else Blocks)"

definition mesh_run1 :: "'s Store \<Rightarrow> nat \<Rightarrow> (nat \<Rightarrow> bytes) \<Rightarrow> (nat \<Rightarrow> nat \<Rightarrow> bytes) \<Rightarrow> (nat \<Rightarrow> nat \<Rightarrow> bool) \<Rightarrow> bool \<Rightarrow> nat \<Rightarrow>
    's World \<Rightarrow> 's World wait" where
  "mesh_run1 S n host addr active elapsed r w =
     (case m_todo (mw_proc w r) of
        [] \<Rightarrow> Blocks
      | oper # rest \<Rightarrow>
          (case mesh_exec S n host addr active elapsed r oper w of
             Returns (s, m) \<Rightarrow> Returns (w\<lparr>mw_store := s, mw_proc := (mw_proc w)(r := m\<lparr>m_todo := rest\<rparr>)\<rparr>)
           | Blocks \<Rightarrow> Blocks | TimesOut \<Rightarrow> TimesOut | Throws e \<Rightarrow> Throws e))"

definition mesh_start :: "nat \<Rightarrow> 's \<Rightarrow> 's World" where
  "mesh_start n s = \<lparr>mw_store = s, mw_proc = (\<lambda>r. \<lparr>m_todo = connectFullMesh n r, m_localRank = 0, m_conn = Map.empty\<rparr>)\<rparr>"

text \<open>A run is a schedule: which process does its next operation. It fails when that process blocks or throws.\<close>

fun mesh_run :: "'s Store \<Rightarrow> nat \<Rightarrow> (nat \<Rightarrow> bytes) \<Rightarrow> (nat \<Rightarrow> nat \<Rightarrow> bytes) \<Rightarrow> (nat \<Rightarrow> nat \<Rightarrow> bool) \<Rightarrow> nat list \<Rightarrow> 's World \<Rightarrow> 's World option" where
  "mesh_run S n host addr active [] w = Some w"
| "mesh_run S n host addr active (r # rs) w =
     (if r < n then case mesh_run1 S n host addr active False r w of Returns w' \<Rightarrow> mesh_run S n host addr active rs w' | _ \<Rightarrow> None
      else None)"

section \<open>Addresses\<close>

lemma upt_split: "r < n \<Longrightarrow> [0..<n] = [0..<r] @ r # [Suc r..<n]"
  using upt_add_eq_append [of 0 r "n - r"] upt_conv_Cons [of r n] by simp

lemma peers_split: "r < n \<Longrightarrow> peers n r = [0..<r] @ [Suc r..<n]"
  by (simp add: peers_def upt_split)

lemma length_peers: "r < n \<Longrightarrow> length (peers n r) = n - 1"
  by (simp add: peers_split)

lemma set_peers: "set (peers n r) = {i. i < n \<and> i \<noteq> r}"
  by (auto simp: peers_def)

lemma distinct_peers: "distinct (peers n r)"
  by (simp add: peers_def)

lemma peers_nth:
  assumes "r < n" "i < n" "i \<noteq> r"
  shows "peers n i ! (if r > i then r - 1 else r) = r" "(if r > i then r - 1 else r) < n - 1"
  using assms by (auto simp: peers_split nth_append)

lemma read_addr_block:
  "(\<And>x. x \<in> set xs \<Longrightarrow> length x = A) \<Longrightarrow> k < length xs \<Longrightarrow> read_at (k * A) A (concat xs) = xs ! k"
proof (induction xs arbitrary: k)
  case (Cons x xs)
  then show ?case by (cases k) (simp_all add: read_at_def)
qed simp

lemma length_addr_blocks: "(\<And>x. x \<in> set xs \<Longrightarrow> length x = A) \<Longrightarrow> length (concat xs) = length xs * A"
  by (induction xs) simp_all

text \<open>A process finds in the addresses of a peer the one that the peer made for it.\<close>

lemma extractAddress_peer:
  assumes "r < n" "i < n" "i \<noteq> r" "\<And>j k. length (addr j k) = A"
  shows "extractAddress r n (allBytes n addr i) i = Inr (addr i r)"
proof -
  let ?xs = "map (addr i) (peers n i)" and ?k = "if r > i then r - 1 else r"
  have A: "\<And>x. x \<in> set ?xs \<Longrightarrow> length x = A" using assms(4) by auto
  have k: "?k < length ?xs" "?xs ! ?k = addr i r" using peers_nth [OF assms(1-3)] length_peers [OF assms(2)] by auto
  have len: "length (allBytes n addr i) = (n - 1) * A" using length_addr_blocks [of ?xs, OF A] length_peers [OF assms(2)] by (simp add: allBytes_def)
  have "n - 1 > 0" using assms(1-3) by linarith
  then have "length (allBytes n addr i) div (n - 1) = A" using len by simp
  moreover have "(?k + 1) * A \<le> (n - 1) * A" using k(1) length_peers [OF assms(2)] by (intro mult_le_mono1) simp
  moreover have "read_at (?k * A) A (allBytes n addr i) = addr i r" using read_addr_block [OF A k(1)] k(2) by (simp add: allBytes_def)
  ultimately show ?thesis using len by (simp only: extractAddress_def Let_def if_True)
qed

lemma allBytes_nonempty:
  assumes "r < n" "1 < n" "\<And>j k. length (addr j k) = A" "A > 0"
  shows "allBytes n addr r \<noteq> []"
proof -
  have "length (allBytes n addr r) = (n - 1) * A"
    using length_addr_blocks [of "map (addr r) (peers n r)" A] assms(3) length_peers [OF assms(1)] by (auto simp: allBytes_def)
  then show ?thesis using assms(2,4) by auto
qed

section \<open>The order of the operations\<close>

lemma distinct_prog: "distinct (connectFullMesh n r)"
proof -
  have "distinct (concat (map link_ops xs))" if "distinct xs" for xs
    using that by (induction xs) (auto simp: link_ops_def)
  from this [OF distinct_peers] show ?thesis
    by (auto simp: connectFullMesh_def distinct_map inj_on_def link_ops_def)
qed

lemma split_unique: "x \<notin> set as \<Longrightarrow> x \<notin> set cs \<Longrightarrow> as @ x # bs = cs @ x # ds \<Longrightarrow> as = cs"
proof (induction as arbitrary: cs)
  case Nil
  then show ?case by (cases cs) auto
next
  case (Cons a as)
  then show ?case by (cases cs) auto
qed

lemma prog_split_unique:
  assumes "ds @ x # rest = connectFullMesh n r" "connectFullMesh n r = cs @ x # es"
  shows "ds = cs"
proof (rule split_unique)
  show "ds @ x # rest = cs @ x # es" using assms by simp
  show "x \<notin> set ds" using distinct_prog [of n r] unfolding assms(1) [symmetric] by simp
  show "x \<notin> set cs" using distinct_prog [of n r] unfolding assms(2) by simp
qed

definition prelude_ops :: "nat \<Rightarrow> mesh_op list" where
  "prelude_ops r = SetHost # map GetHost [0..<r] @ [SetAddrs]"

text \<open>What has been done when a process is at an operation for peer \<open>j\<close>.\<close>

lemma prog_at_peer:
  assumes "j < n" "j \<noteq> r"
  shows "connectFullMesh n r =
    prelude_ops r @ concat (map link_ops (filter (\<lambda>i. i \<noteq> r) [0..<j])) @ link_ops j @ concat (map link_ops (filter (\<lambda>i. i \<noteq> r) [Suc j..<n]))"
proof -
  have "peers n r = filter (\<lambda>i. i \<noteq> r) [0..<j] @ j # filter (\<lambda>i. i \<noteq> r) [Suc j..<n]"
    using assms upt_split [OF assms(1)] by (simp add: peers_def)
  then show ?thesis by (simp add: connectFullMesh_def prelude_ops_def)
qed

lemma done_at_peer:
  assumes "ds @ x # rest = connectFullMesh n r" "j < n" "j \<noteq> r" "x \<in> set (link_ops j)"
  shows "SetHost \<in> set ds" "SetAddrs \<in> set ds" "\<And>i. i < j \<Longrightarrow> i \<noteq> r \<Longrightarrow> ConnectPair i \<in> set ds"
    "x = AwaitPair j \<Longrightarrow> ConnectPair j \<in> set ds" "x = ConnectPair j \<Longrightarrow> WaitAddr j \<in> set ds"
proof -
  obtain as bs where l: "link_ops j = as @ x # bs" using assms(4) by (meson split_list)
  let ?c = "concat (map link_ops (filter (\<lambda>i. i \<noteq> r) [0..<j]))"
  have "ds = prelude_ops r @ ?c @ as"
    by (rule prog_split_unique [OF assms(1)]) (simp add: prog_at_peer [OF assms(2,3)] l)
  then show "SetHost \<in> set ds" "SetAddrs \<in> set ds" "\<And>i. i < j \<Longrightarrow> i \<noteq> r \<Longrightarrow> ConnectPair i \<in> set ds"
    by (auto simp: prelude_ops_def link_ops_def)
  show "ConnectPair j \<in> set ds" if "x = AwaitPair j"
  proof -
    have "as = [WaitAddr j, ConnectPair j]"
      by (rule split_unique [of x _ _ bs "[]"]) (use l that distinct_prog [of n r] in \<open>auto simp: prog_at_peer [OF assms(2,3)] link_ops_def\<close>)
    with \<open>ds = prelude_ops r @ ?c @ as\<close> show ?thesis by simp
  qed
  show "WaitAddr j \<in> set ds" if "x = ConnectPair j"
  proof -
    have "as = [WaitAddr j]"
      by (rule split_unique [of x _ _ bs "[AwaitPair j]"]) (use l that distinct_prog [of n r] in \<open>auto simp: prog_at_peer [OF assms(2,3)] link_ops_def\<close>)
    with \<open>ds = prelude_ops r @ ?c @ as\<close> show ?thesis by simp
  qed
qed

lemma prog_ops:
  assumes "ds @ x # rest = connectFullMesh n r" "r < n"
  shows "x = SetHost \<or> (\<exists>i < r. x = GetHost i \<and> SetHost \<in> set ds) \<or> x = SetAddrs \<and> SetHost \<in> set ds \<or>
    (\<exists>j < n. j \<noteq> r \<and> x \<in> set (link_ops j))"
proof -
  have "x \<in> set (connectFullMesh n r)" unfolding assms(1) [symmetric] by simp
  moreover have "SetHost \<in> set ds" if "x \<noteq> SetHost" using that assms(1) by (cases ds) (auto simp: connectFullMesh_def)
  ultimately show ?thesis by (auto simp: connectFullMesh_def set_peers)
qed

section \<open>Runs\<close>

lemma mesh_run1_todo:
  assumes "mesh_run1 S n host addr active elapsed r w = Returns w'"
  shows "m_todo (mw_proc w r) = hd (m_todo (mw_proc w r)) # m_todo (mw_proc w' r)" "q \<noteq> r \<Longrightarrow> mw_proc w' q = mw_proc w q"
  using assms by (auto simp: mesh_run1_def split: list.splits wait.splits)

lemma mesh_run_length:
  "mesh_run S n host addr active rs w = Some w' \<Longrightarrow>
   length rs + (\<Sum>r < n. length (m_todo (mw_proc w' r))) = (\<Sum>r < n. length (m_todo (mw_proc w r)))"
proof (induction rs arbitrary: w)
  case (Cons r rs)
  from Cons.prems obtain w1 where w1: "r < n" "mesh_run1 S n host addr active False r w = Returns w1" "mesh_run S n host addr active rs w1 = Some w'"
    by (auto split: if_splits wait.splits)
  have split: "(\<Sum>q < n. f q) = f r + (\<Sum>q \<in> {..<n} - {r}. f q)" for f :: "nat \<Rightarrow> nat"
    using w1(1) by (simp add: sum.remove)
  have "length (m_todo (mw_proc w r)) = Suc (length (m_todo (mw_proc w1 r)))"
    using arg_cong [OF mesh_run1_todo(1) [OF w1(2)], of length] by simp
  moreover have "(\<Sum>q \<in> {..<n} - {r}. length (m_todo (mw_proc w1 q))) = (\<Sum>q \<in> {..<n} - {r}. length (m_todo (mw_proc w q)))"
    using mesh_run1_todo(2) [OF w1(2)] by (intro sum.cong) auto
  ultimately show ?case using Cons.IH [OF w1(3)] split [of "\<lambda>q. length (m_todo (mw_proc w1 q))"] split [of "\<lambda>q. length (m_todo (mw_proc w q))"] by simp
qed simp

section \<open>The invariant\<close>

lemma key_neq: "rankKey i \<noteq> to_string j" "to_string j \<noteq> rankKey i" "rankKey i = rankKey j \<longleftrightarrow> i = j"
proof -
  have "CHR ''r'' \<notin> set (to_string j)" using to_string_digits digits_simps by blast
  then show "rankKey i \<noteq> to_string j" unfolding rankKey_def by (metis append_Cons list.set_intros(1))
  then show "to_string j \<noteq> rankKey i" by metis
qed (simp add: rankKey_def to_string_inj)

text \<open>
  What is assumed of the group: at least two processes, host names that are not empty, addresses of one
  size, and keys that the store can hold.
\<close>

definition mesh_setup :: "nat \<Rightarrow> (nat \<Rightarrow> bytes) \<Rightarrow> (nat \<Rightarrow> nat \<Rightarrow> bytes) \<Rightarrow> (string \<Rightarrow> bool) \<Rightarrow> bool" where
  "mesh_setup n host addr good \<longleftrightarrow> 1 < n \<and> (\<forall>r < n. host r \<noteq> []) \<and> (\<exists>A > 0. \<forall>j k. length (addr j k) = A) \<and>
     (\<forall>r < n. good (rankKey r) \<and> good (to_string r))"

definition mesh_ok :: "nat \<Rightarrow> (nat \<Rightarrow> bytes) \<Rightarrow> (nat \<Rightarrow> nat \<Rightarrow> bytes) \<Rightarrow> (string \<Rightarrow> bytes option) \<Rightarrow> nat \<Rightarrow> Mesh \<Rightarrow> mesh_op list \<Rightarrow> bool" where
  "mesh_ok n host addr v r m ds \<longleftrightarrow> ds @ m_todo m = connectFullMesh n r \<and>
     v (rankKey r) = (if SetHost \<in> set ds then Some (host r) else None) \<and>
     v (to_string r) = (if SetAddrs \<in> set ds then Some (allBytes n addr r) else None) \<and>
     m_conn m = (\<lambda>i. if ConnectPair i \<in> set ds then Some (addr i r) else None) \<and>
     (\<forall>j < n. WaitAddr j \<in> set ds \<longrightarrow> v (to_string j) \<noteq> None)"

definition mesh_inv :: "nat \<Rightarrow> (nat \<Rightarrow> bytes) \<Rightarrow> (nat \<Rightarrow> nat \<Rightarrow> bytes) \<Rightarrow> ('s \<Rightarrow> bool) \<Rightarrow> ('s \<Rightarrow> string \<Rightarrow> bytes option) \<Rightarrow> 's World \<Rightarrow> bool" where
  "mesh_inv n host addr ok view w \<longleftrightarrow> ok (mw_store w) \<and> (\<forall>r < n. \<exists>ds. mesh_ok n host addr (view (mw_store w)) r (mw_proc w r) ds)"

lemma mesh_ok_cong:
  assumes "v' (rankKey r) = v (rankKey r)" "v' (to_string r) = v (to_string r)" "\<And>j. j < n \<Longrightarrow> v (to_string j) \<noteq> None \<Longrightarrow> v' (to_string j) \<noteq> None"
    and "mesh_ok n host addr v r m ds"
  shows "mesh_ok n host addr v' r m ds"
  using assms(1,2,4) assms(3) unfolding mesh_ok_def by (elim conjE) (intro conjI allI impI; simp)

definition set_proc :: "nat \<Rightarrow> 's \<Rightarrow> Mesh \<Rightarrow> 's World \<Rightarrow> 's World" where
  "set_proc r s m w = w\<lparr>mw_store := s, mw_proc := (mw_proc w)(r := m)\<rparr>"

lemma set_proc_simps [simp]: "mw_store (set_proc r s m w) = s" "mw_proc (set_proc r s m w) r' = (if r' = r then m else mw_proc w r')"
  by (simp_all add: set_proc_def)

lemma mesh_ok_now:
  assumes "mesh_ok n host addr v r m ds" "m_todo m = x # rest"
  shows "x \<notin> set ds" "ds @ x # rest = connectFullMesh n r"
proof -
  show d: "ds @ x # rest = connectFullMesh n r" using assms by (simp add: mesh_ok_def)
  show "x \<notin> set ds" using distinct_prog [of n r] unfolding d [symmetric] by simp
qed

text \<open>The result of a step satisfies \<open>P\<close>, and an error is due to a timeout.\<close>

definition fine :: "bool \<Rightarrow> ('s World \<Rightarrow> bool) \<Rightarrow> 's World wait \<Rightarrow> bool" where
  "fine elapsed P x \<longleftrightarrow> (case x of Returns w' \<Rightarrow> P w' | Blocks \<Rightarrow> True | TimesOut \<Rightarrow> False | Throws e \<Rightarrow> elapsed)"

context kv_store
begin

text \<open>An operation that leaves the store alone.\<close>

lemma inv_local:
  assumes inv: "mesh_inv n host addr ok view w" and m: "m_todo (mw_proc w r) = x # rest" "x \<noteq> SetHost" "x \<noteq> SetAddrs"
    and wt: "\<And>j. x = WaitAddr j \<Longrightarrow> j < n \<Longrightarrow> view (mw_store w) (to_string j) \<noteq> None"
    and m': "m_todo m' = rest" "m_conn m' = (case x of ConnectPair i \<Rightarrow> (m_conn (mw_proc w r))(i \<mapsto> addr i r) | _ \<Rightarrow> m_conn (mw_proc w r))"
  shows "mesh_inv n host addr ok view (set_proc r (mw_store w) m' w)"
proof -
  have "\<exists>ds. mesh_ok n host addr (view (mw_store w)) r m' ds" if r: "r < n"
  proof -
    from inv r obtain ds where ds: "mesh_ok n host addr (view (mw_store w)) r (mw_proc w r) ds" by (auto simp: mesh_inv_def)
    have "m_conn m' = (\<lambda>i. if ConnectPair i \<in> set (ds @ [x]) then Some (addr i r) else None)"
      using ds m' by (cases x) (auto simp: mesh_ok_def)
    then have "mesh_ok n host addr (view (mw_store w)) r m' (ds @ [x])" using ds m m' wt by (auto simp: mesh_ok_def)
    then show ?thesis ..
  qed
  then show ?thesis using inv by (auto simp: mesh_inv_def)
qed

text \<open>An operation that publishes a value under one of the keys of the process.\<close>

lemma inv_publish:
  assumes cfg: "mesh_setup n host addr good" and inv: "mesh_inv n host addr ok view w" and r: "r < n"
    and m: "m_todo (mw_proc w r) = x # rest" and m': "m' = (mw_proc w r)\<lparr>m_todo := rest\<rparr>"
    and x: "x = SetHost \<and> key = rankKey r \<and> d = host r \<or> x = SetAddrs \<and> key = to_string r \<and> d = allBytes n addr r"
  shows "\<exists>s'. so_set S key d (mw_store w) = Inr s' \<and> mesh_inv n host addr ok view (set_proc r s' m' w)"
proof -
  let ?s = "mw_store w"
  from inv r obtain ds where ds: "mesh_ok n host addr (view ?s) r (mw_proc w r) ds" by (auto simp: mesh_inv_def)
  note now = mesh_ok_now [OF ds m]
  have good: "good (rankKey i)" "good (to_string i)" if "i < n" for i using cfg that by (simp_all add: mesh_setup_def)
  obtain A where A: "\<And>j k. length (addr j k) = A" "A > 0" using cfg by (auto simp: mesh_setup_def)
  have "1 < n" using cfg by (simp add: mesh_setup_def)
  have "d \<noteq> []" using x allBytes_nonempty [of r n addr A, OF r \<open>1 < n\<close> A] cfg r by (auto simp: mesh_setup_def)
  moreover have "good key" "view ?s key = None" using x good [OF r] ds now(1) by (auto simp: mesh_ok_def)
  moreover have "ok ?s" using inv by (simp add: mesh_inv_def)
  ultimately obtain s' where s': "so_set S key d ?s = Inr s'" "ok s'" "\<And>k'. good k' \<Longrightarrow> view s' k' = (if k' = key then Some d else view ?s k')"
    using set_new by blast
  have mono: "view s' (to_string j) \<noteq> None" if "j < n" "view ?s (to_string j) \<noteq> None" for j
    using s'(3) [OF good(2) [OF that(1)]] that(2) by auto
  have "\<exists>ds. mesh_ok n host addr (view s') i (if i = r then m' else mw_proc w i) ds" if i: "i < n" for i
  proof (cases "i = r")
    case True
    have "mesh_ok n host addr (view s') r m' (ds @ [x])"
      using ds x m s'(3) [OF good(1) [OF r]] s'(3) [OF good(2) [OF r]] mono by (auto simp: mesh_ok_def m' key_neq)
    then show ?thesis using True by auto
  next
    case False
    from inv i obtain di where di: "mesh_ok n host addr (view ?s) i (mw_proc w i) di" by (auto simp: mesh_inv_def)
    have "view s' (rankKey i) = view ?s (rankKey i)" "view s' (to_string i) = view ?s (to_string i)"
      using s'(3) [OF good(1) [OF i]] s'(3) [OF good(2) [OF i]] x False by (auto simp: key_neq to_string_inj)
    from mesh_ok_cong [OF this mono di] show ?thesis using False by auto
  qed
  then show ?thesis using s' by (auto simp: mesh_inv_def)
qed

lemma wait_key: "ok s \<Longrightarrow> good k \<Longrightarrow> so_wait S elapsed [k] s = (if view s k \<noteq> None then Returns () else if elapsed then Throws IoException else Blocks)"
  using wait_set [of s "[k]" elapsed] by simp

text \<open>Every operation of a process keeps the invariant, and none throws unless a timeout passes.\<close>

lemma mesh_step_inv:
  assumes cfg: "mesh_setup n host addr good" and inv: "mesh_inv n host addr ok view w" and r: "r < n"
  shows "fine elapsed (mesh_inv n host addr ok view) (mesh_run1 S n host addr active elapsed r w)"
proof (cases "m_todo (mw_proc w r)")
  case Nil
  then show ?thesis by (simp add: mesh_run1_def fine_def)
next
  case (Cons x rest)
  let ?s = "mw_store w" and ?m = "mw_proc w r"
  have run: "mesh_run1 S n host addr active elapsed r w = (case mesh_exec S n host addr active elapsed r x w of
      Returns (s, m) \<Rightarrow> Returns (set_proc r s (m\<lparr>m_todo := rest\<rparr>) w) | Blocks \<Rightarrow> Blocks | TimesOut \<Rightarrow> TimesOut | Throws e \<Rightarrow> Throws e)"
    by (simp add: mesh_run1_def Cons set_proc_def split: wait.split)
  have okw: "ok ?s" using inv by (simp add: mesh_inv_def)
  have good: "good (rankKey i)" "good (to_string i)" if "i < n" for i using cfg that by (simp_all add: mesh_setup_def)
  obtain A where A: "\<And>j k. length (addr j k) = A" "A > 0" using cfg by (auto simp: mesh_setup_def)
  from inv r obtain ds where ds: "mesh_ok n host addr (view ?s) r ?m ds" by (auto simp: mesh_inv_def)
  note loc = inv_local [OF inv Cons]
  note pub = inv_publish [OF cfg inv r Cons refl]
  from prog_ops [OF mesh_ok_now(2) [OF ds Cons] r] consider "x = SetHost" | i where "i < r" "x = GetHost i" | "x = SetAddrs"
    | j where "j < n" "j \<noteq> r" "x \<in> set (link_ops j)" by blast
  then show ?thesis
  proof cases
    case 1
    with pub [of "rankKey r" "host r"] obtain s' where "so_set S (rankKey r) (host r) ?s = Inr s'"
      "mesh_inv n host addr ok view (set_proc r s' (?m\<lparr>m_todo := rest\<rparr>) w)" by auto
    then show ?thesis by (simp add: run 1 mesh_exec_def fine_def)
  next
    case (2 i)
    have g: "good (rankKey i)" using good 2 r by simp
    have keep: "mesh_inv n host addr ok view (set_proc r ?s (m'\<lparr>m_todo := rest\<rparr>) w)" if "m_conn m' = m_conn ?m" for m'
      by (rule loc) (simp_all add: 2 that)
    have "(\<exists>d. so_get S elapsed (rankKey i) ?s = Returns d) \<or> so_get S elapsed (rankKey i) ?s = (if elapsed then Throws IoException else Blocks)"
      using get_unset [OF okw g] get_set [OF okw g] by (cases "view ?s (rankKey i)") auto
    then show ?thesis using keep by (auto simp: run 2 mesh_exec_def fine_def Let_def split: if_splits)
  next
    case 3
    with pub [of "to_string r" "allBytes n addr r"] obtain s' where "so_set S (to_string r) (allBytes n addr r) ?s = Inr s'"
      "mesh_inv n host addr ok view (set_proc r s' (?m\<lparr>m_todo := rest\<rparr>) w)" by auto
    then show ?thesis by (simp add: run 3 mesh_exec_def fine_def)
  next
    case (4 j)
    from 4(3) consider "x = WaitAddr j" | "x = ConnectPair j" | "x = AwaitPair j" by (auto simp: link_ops_def)
    then show ?thesis
    proof cases
      case w: 1
      have "mesh_inv n host addr ok view (set_proc r ?s (?m\<lparr>m_todo := rest\<rparr>) w)" if "view ?s (to_string j) \<noteq> None"
        by (rule loc) (use that w in auto)
      then show ?thesis using wait_key [OF okw good(2) [OF 4(1)], of elapsed]
        by (cases "view ?s (to_string j)") (simp_all add: run w mesh_exec_def fine_def Let_def)
    next
      case w: 2
      have c: "mesh_inv n host addr ok view (set_proc r ?s (?m\<lparr>m_conn := (m_conn ?m)(j \<mapsto> addr j r), m_todo := rest\<rparr>) w)"
        by (rule loc) (simp_all add: w)
      from inv 4(1) obtain dj where dj: "mesh_ok n host addr (view ?s) j (mw_proc w j) dj" by (auto simp: mesh_inv_def)
      have "WaitAddr j \<in> set ds" using done_at_peer(5) [OF mesh_ok_now(2) [OF ds Cons] 4] w by simp
      then have d: "view ?s (to_string j) = Some (allBytes n addr j)" using ds dj 4(1) by (auto simp: mesh_ok_def split: if_splits)
      show ?thesis using c get_set [OF okw good(2) [OF 4(1)] d] extractAddress_peer [of r n j addr A, OF r 4(1,2) A(1)]
        by (simp add: run w mesh_exec_def fine_def Let_def)
    next
      case w: 3
      have "mesh_inv n host addr ok view (set_proc r ?s (?m\<lparr>m_todo := rest\<rparr>) w)" by (rule loc) (simp_all add: w)
      then show ?thesis by (simp add: run w mesh_exec_def fine_def)
    qed
  qed
qed

lemma mesh_run_inv:
  "mesh_setup n host addr good \<Longrightarrow> mesh_inv n host addr ok view w \<Longrightarrow> mesh_run S n host addr active rs w = Some w' \<Longrightarrow>
   mesh_inv n host addr ok view w'"
proof (induction rs arbitrary: w)
  case (Cons r rs)
  from Cons.prems(3) obtain w1 where w1: "r < n" "mesh_run1 S n host addr active False r w = Returns w1" "mesh_run S n host addr active rs w1 = Some w'"
    by (auto split: if_splits wait.splits)
  from mesh_step_inv [OF Cons.prems(1,2) w1(1), of False active] w1(2) have "mesh_inv n host addr ok view w1" by (simp add: fine_def)
  from Cons.IH [OF Cons.prems(1) this w1(3)] show ?case .
qed simp

text \<open>
  No deadlock. A process can only be stuck when it waits for a peer to ask for the connection, and then
  that peer waits itself, for a third process whose number is less than that of the first.
\<close>

lemma mesh_stuck:
  assumes cfg: "mesh_setup n host addr good" and inv: "mesh_inv n host addr ok view w" and r: "r < n"
    and todo: "m_todo (mw_proc w r) \<noteq> []" and none: "\<And>q. q < n \<Longrightarrow> m_todo (mw_proc w q) \<noteq> [] \<Longrightarrow> mesh_run1 S n host addr active False q w = Blocks"
  shows "\<exists>j < n. j \<noteq> r \<and> (\<exists>rest. m_todo (mw_proc w r) = AwaitPair j # rest) \<and> m_conn (mw_proc w j) r = None"
proof -
  let ?s = "mw_store w"
  have okw: "ok ?s" using inv by (simp add: mesh_inv_def)
  have good: "good (rankKey i)" "good (to_string i)" if "i < n" for i using cfg that by (simp_all add: mesh_setup_def)
  have state: "\<exists>ds. mesh_ok n host addr (view ?s) q (mw_proc w q) ds" if "q < n" for q using inv that by (auto simp: mesh_inv_def)
  have exec: "mesh_exec S n host addr active False q x w = Blocks" if "q < n" "m_todo (mw_proc w q) = x # rest" for q x rest
    using none [OF that(1)] that(2) mesh_step_inv [OF cfg inv that(1), of False active]
    by (auto simp: mesh_run1_def fine_def split: wait.splits)
  have not_pub: "x \<noteq> SetHost \<and> x \<noteq> SetAddrs" if "q < n" "m_todo (mw_proc w q) = x # rest" for q x rest
    using exec [OF that] by (auto simp: mesh_exec_def Let_def split: sum.splits)
  have host: "view ?s (rankKey q) \<noteq> None" if q: "q < n" for q
  proof -
    from state [OF q] obtain ds where ds: "mesh_ok n host addr (view ?s) q (mw_proc w q) ds" ..
    have "SetHost \<in> set ds"
    proof (cases "m_todo (mw_proc w q)")
      case Nil
      then show ?thesis using ds by (simp add: mesh_ok_def connectFullMesh_def)
    next
      case (Cons x rest)
      from prog_ops [OF mesh_ok_now(2) [OF ds Cons] q] not_pub [OF q Cons] done_at_peer(1) [OF mesh_ok_now(2) [OF ds Cons]] show ?thesis by blast
    qed
    then show ?thesis using ds by (simp add: mesh_ok_def)
  qed
  have at_peer: "\<exists>j < n. j \<noteq> q \<and> x \<in> set (link_ops j)" if "q < n" "m_todo (mw_proc w q) = x # rest" for q x rest
  proof -
    from state [OF that(1)] obtain ds where ds: "mesh_ok n host addr (view ?s) q (mw_proc w q) ds" ..
    have "x \<noteq> GetHost i" if "i < q" for i
    proof
      assume x: "x = GetHost i"
      have i: "i < n" using that \<open>q < n\<close> by simp
      then obtain d where "view ?s (rankKey i) = Some d" using host by blast
      from get_set [OF okw good(1) [OF i] this, of False] exec [OF \<open>q < n\<close> \<open>m_todo (mw_proc w q) = x # rest\<close>] show False
        by (simp add: x mesh_exec_def Let_def)
    qed
    with prog_ops [OF mesh_ok_now(2) [OF ds that(2)] that(1)] not_pub [OF that] show ?thesis by blast
  qed
  have addrs: "view ?s (to_string q) \<noteq> None" if q: "q < n" for q
  proof -
    from state [OF q] obtain ds where ds: "mesh_ok n host addr (view ?s) q (mw_proc w q) ds" ..
    have "SetAddrs \<in> set ds"
    proof (cases "m_todo (mw_proc w q)")
      case Nil
      then show ?thesis using ds by (simp add: mesh_ok_def connectFullMesh_def)
    next
      case (Cons x rest)
      from at_peer [OF q Cons] done_at_peer(2) [OF mesh_ok_now(2) [OF ds Cons]] show ?thesis by blast
    qed
    then show ?thesis using ds by (simp add: mesh_ok_def)
  qed
  obtain x rest where x: "m_todo (mw_proc w r) = x # rest" using todo by (cases "m_todo (mw_proc w r)") auto
  from at_peer [OF r x] obtain j where j: "j < n" "j \<noteq> r" "x \<in> set (link_ops j)" by blast
  note blocked = exec [OF r x]
  have "x \<noteq> WaitAddr j" using blocked wait_key [OF okw good(2) [OF j(1)], of False] addrs [OF j(1)] by (auto simp: mesh_exec_def Let_def)
  moreover have "x \<noteq> ConnectPair j"
  proof
    assume "x = ConnectPair j"
    obtain d where "view ?s (to_string j) = Some d" using addrs [OF j(1)] by blast
    from get_set [OF okw good(2) [OF j(1)] this, of False] blocked \<open>x = ConnectPair j\<close> show False
      by (simp add: mesh_exec_def Let_def split: sum.splits)
  qed
  ultimately have "x = AwaitPair j" using j(3) by (auto simp: link_ops_def)
  with blocked x j show ?thesis by (auto simp: mesh_exec_def Let_def split: if_splits)
qed

lemma mesh_progress:
  assumes cfg: "mesh_setup n host addr good" and inv: "mesh_inv n host addr ok view w"
    and todo: "\<exists>r < n. m_todo (mw_proc w r) \<noteq> []"
  shows "\<exists>r < n. \<exists>w'. mesh_run1 S n host addr active False r w = Returns w'"
proof (rule ccontr)
  assume "\<not> ?thesis"
  then have none: "mesh_run1 S n host addr active False q w = Blocks" if "q < n" for q
    using that mesh_step_inv [OF cfg inv that, of False active] by (auto simp: fine_def split: wait.splits)
  note stuck = mesh_stuck [OF cfg inv _ _ none]
  define r where "r = (LEAST r. r < n \<and> m_todo (mw_proc w r) \<noteq> [])"
  have r: "r < n \<and> m_todo (mw_proc w r) \<noteq> []" unfolding r_def by (rule LeastI_ex) (use todo in blast)
  have least: "r \<le> q" if "q < n" "m_todo (mw_proc w q) \<noteq> []" for q unfolding r_def by (rule Least_le) (use that in blast)
  from stuck [of r] r obtain j where j: "j < n" "j \<noteq> r" "m_conn (mw_proc w j) r = None" by blast
  from inv j(1) obtain dj where dj: "mesh_ok n host addr (view (mw_store w)) j (mw_proc w j) dj" by (auto simp: mesh_inv_def)
  have nc: "ConnectPair r \<notin> set dj" using j(3) dj by (auto simp: mesh_ok_def split: if_splits)
  have "m_todo (mw_proc w j) \<noteq> []"
  proof
    assume "m_todo (mw_proc w j) = []"
    then have "dj = connectFullMesh n j" using dj by (simp add: mesh_ok_def)
    then have "ConnectPair r \<in> set dj" using r j(2) by (auto simp: connectFullMesh_def set_peers link_ops_def)
    with nc show False by simp
  qed
  from stuck [of j] j(1) this obtain k rest where k: "k < n" "k \<noteq> j" "m_todo (mw_proc w j) = AwaitPair k # rest" by blast
  note dp = done_at_peer [OF mesh_ok_now(2) [OF dj k(3)] k(1,2)]
  have "r \<noteq> k" using dp(4) nc by (auto simp: link_ops_def)
  moreover have "\<not> r < k" using dp(3) [of r] nc j(2) by (auto simp: link_ops_def)
  ultimately have "k < r" by simp
  moreover have "m_todo (mw_proc w k) \<noteq> []"
  proof
    assume "m_todo (mw_proc w k) = []"
    from inv k(1) obtain dk where dk: "mesh_ok n host addr (view (mw_store w)) k (mw_proc w k) dk" by (auto simp: mesh_inv_def)
    then have "dk = connectFullMesh n k" using \<open>m_todo (mw_proc w k) = []\<close> by (simp add: mesh_ok_def)
    then have "ConnectPair j \<in> set dk" using j(1) k(2) by (auto simp: connectFullMesh_def set_peers link_ops_def)
    then have "m_conn (mw_proc w k) j \<noteq> None" using dk by (simp add: mesh_ok_def)
    then show False using none [OF j(1)] k(3) by (simp add: mesh_run1_def mesh_exec_def Let_def)
  qed
  ultimately show False using least k(1) by fastforce
qed

lemma mesh_start_inv:
  "ok s \<Longrightarrow> (\<And>k. view s k = None) \<Longrightarrow> mesh_inv n host addr ok view (mesh_start n s)"
  by (auto simp: mesh_inv_def mesh_start_def mesh_ok_def)

text \<open>What a group of processes achieves with any store that keeps the contract.\<close>

lemma mesh_correct:
  assumes cfg: "mesh_setup n host addr good" and start: "ok s" "\<And>k. view s k = None"
    and run: "mesh_run S n host addr active rs (mesh_start n s) = Some w"
  shows "(\<forall>r < n. \<forall>i a. m_conn (mw_proc w r) i = Some a \<longrightarrow> a = addr i r) \<and>
    length rs + (\<Sum>r < n. length (m_todo (mw_proc w r))) = (\<Sum>r < n. length (connectFullMesh n r)) \<and>
    (if \<exists>r < n. m_todo (mw_proc w r) \<noteq> [] then \<exists>r < n. \<exists>w'. mesh_run1 S n host addr active False r w = Returns w'
     else \<forall>r < n. \<forall>i < n. i \<noteq> r \<longrightarrow> m_conn (mw_proc w r) i = Some (addr i r))"
proof -
  have inv: "mesh_inv n host addr ok view w" using mesh_run_inv [OF cfg mesh_start_inv run] start by blast
  have conn: "\<exists>ds. ds @ m_todo (mw_proc w r) = connectFullMesh n r \<and> m_conn (mw_proc w r) = (\<lambda>i. if ConnectPair i \<in> set ds then Some (addr i r) else None)"
    if "r < n" for r using inv that by (auto simp: mesh_inv_def mesh_ok_def)
  have 1: "a = addr i r" if "r < n" "m_conn (mw_proc w r) i = Some a" for r i a
    using conn [OF that(1)] that(2) by (auto split: if_splits)
  have "length rs + (\<Sum>r < n. length (m_todo (mw_proc w r))) = (\<Sum>r < n. length (m_todo (mw_proc (mesh_start n s) r)))"
    using mesh_run_length [OF run] .
  then have 2: "length rs + (\<Sum>r < n. length (m_todo (mw_proc w r))) = (\<Sum>r < n. length (connectFullMesh n r))"
    by (simp add: mesh_start_def)
  have 3: "m_conn (mw_proc w r) i = Some (addr i r)" if "r < n" "i < n" "i \<noteq> r" "m_todo (mw_proc w r) = []" for r i
    using conn [OF that(1)] that(2-4) by (auto simp: connectFullMesh_def set_peers link_ops_def)
  show ?thesis
  proof (intro conjI allI impI 2)
    show "a = addr i r" if "r < n" "m_conn (mw_proc w r) i = Some a" for r i a by (rule 1 [OF that])
    show "if \<exists>r < n. m_todo (mw_proc w r) \<noteq> [] then \<exists>r < n. \<exists>w'. mesh_run1 S n host addr active False r w = Returns w'
       else \<forall>r < n. \<forall>i < n. i \<noteq> r \<longrightarrow> m_conn (mw_proc w r) i = Some (addr i r)"
    proof (cases "\<exists>r < n. m_todo (mw_proc w r) \<noteq> []")
      case True
      then show ?thesis using mesh_progress [OF cfg inv True, of active] by (simp only: if_True)
    next
      case False
      then have "\<forall>r < n. \<forall>i < n. i \<noteq> r \<longrightarrow> m_conn (mw_proc w r) i = Some (addr i r)" using 3 by blast
      then show ?thesis by (simp only: False if_False)
    qed
  qed
qed

end

section \<open>Local ranks\<close>

definition same_host :: "(nat \<Rightarrow> bytes) \<Rightarrow> nat \<Rightarrow> nat set" where
  "same_host host r = {i. i < r \<and> host i = host r}"

definition rank_inv :: "nat \<Rightarrow> (nat \<Rightarrow> bytes) \<Rightarrow> 's World \<Rightarrow> bool" where
  "rank_inv n host w \<longleftrightarrow> (\<forall>r < n. m_localRank (mw_proc w r) = card (same_host host r \<inter> {i. GetHost i \<notin> set (m_todo (mw_proc w r))}))"

context blocking_store
begin

lemma rank_step:
  assumes cfg: "mesh_setup n host addr good" and inv: "mesh_inv n host addr ok view w" and rinv: "rank_inv n host w" and r: "r < n"
    and step: "mesh_run1 S n host addr active elapsed r w = Returns w'"
  shows "rank_inv n host w'"
proof -
  let ?s = "mw_store w" and ?m = "mw_proc w r" and ?m' = "mw_proc w' r"
  from step obtain x rest where x: "m_todo ?m = x # rest" by (auto simp: mesh_run1_def split: list.splits)
  have rest: "m_todo ?m' = rest" using mesh_run1_todo(1) [OF step] x by simp
  from inv r obtain ds where ds: "mesh_ok n host addr (view ?s) r ?m ds" by (auto simp: mesh_inv_def)
  have dist: "distinct (x # rest)" using distinct_prog [of n r] unfolding mesh_ok_now(2) [OF ds x, symmetric] by simp
  have fin: "finite (same_host host r)" by (simp add: same_host_def)
  have "m_localRank ?m' = card (same_host host r \<inter> {i. GetHost i \<notin> set rest})"
  proof (cases "\<exists>i. x = GetHost i")
    case False
    then have "m_localRank ?m' = m_localRank ?m" using step x
      by (cases x) (auto simp: mesh_run1_def mesh_exec_def Let_def split: wait.splits sum.splits if_splits)
    moreover have "{i. GetHost i \<notin> set (x # rest)} = {i. GetHost i \<notin> set rest}" using False by auto
    ultimately show ?thesis using rinv r x by (simp add: rank_inv_def)
  next
    case True
    then obtain i where i: "x = GetHost i" by blast
    from prog_ops [OF mesh_ok_now(2) [OF ds x] r] i have ir: "i < r" by (auto simp: link_ops_def)
    then have "i < n" using r by simp
    then have g: "good (rankKey i)" using cfg by (simp add: mesh_setup_def)
    have okw: "ok ?s" using inv by (simp add: mesh_inv_def)
    from inv \<open>i < n\<close> obtain di where di: "mesh_ok n host addr (view ?s) i (mw_proc w i) di" by (auto simp: mesh_inv_def)
    have "view ?s (rankKey i) \<noteq> None"
    proof
      assume "view ?s (rankKey i) = None"
      from get_waits [OF okw g this, of elapsed] step x i show False by (auto simp: mesh_run1_def mesh_exec_def Let_def split: if_splits)
    qed
    then have "view ?s (rankKey i) = Some (host i)" using di by (auto simp: mesh_ok_def split: if_splits)
    from get_set [OF okw g this, of elapsed] step x i
    have lr: "m_localRank ?m' = (if host i = host r then Suc (m_localRank ?m) else m_localRank ?m)"
      by (auto simp: mesh_run1_def mesh_exec_def Let_def)
    let ?A = "same_host host r \<inter> {i. GetHost i \<notin> set (x # rest)}"
    have "same_host host r \<inter> {i. GetHost i \<notin> set rest} = (if host i = host r then insert i ?A else ?A)"
      using dist i ir by (auto simp: same_host_def)
    moreover have "i \<notin> ?A" "finite ?A" using i fin by auto
    ultimately show ?thesis using lr rinv r x by (simp add: rank_inv_def)
  qed
  then show ?thesis unfolding rank_inv_def using rinv rest mesh_run1_todo(2) [OF step]
    by (intro allI impI, case_tac "ra = r") (simp_all add: rank_inv_def)
qed

lemma rank_run:
  "mesh_setup n host addr good \<Longrightarrow> mesh_inv n host addr ok view w \<Longrightarrow> rank_inv n host w \<Longrightarrow>
   mesh_run S n host addr active rs w = Some w' \<Longrightarrow> rank_inv n host w'"
proof (induction rs arbitrary: w)
  case (Cons r rs)
  from Cons.prems(4) obtain w1 where w1: "r < n" "mesh_run1 S n host addr active False r w = Returns w1" "mesh_run S n host addr active rs w1 = Some w'"
    by (auto split: if_splits wait.splits)
  from mesh_step_inv [OF Cons.prems(1,2) w1(1), of False active] w1(2) have "mesh_inv n host addr ok view w1" by (simp add: fine_def)
  from Cons.IH [OF Cons.prems(1) this rank_step [OF Cons.prems(1,2,3) w1(1,2)] w1(3)] show ?case .
qed simp

text \<open>With a store whose \<open>get\<close> waits, the local rank is the number of lower ranks on the same host.\<close>

lemma local_rank_correct:
  assumes cfg: "mesh_setup n host addr good" and start: "ok s" "\<And>k. view s k = None"
    and run: "mesh_run S n host addr active rs (mesh_start n s) = Some w" and r: "r < n" "m_todo (mw_proc w r) = []"
  shows "m_localRank (mw_proc w r) = card (same_host host r)"
proof -
  have "rank_inv n host (mesh_start n s)"
    by (auto simp: rank_inv_def mesh_start_def same_host_def connectFullMesh_def)
  from rank_run [OF cfg mesh_start_inv this run] start r show ?thesis by (simp add: rank_inv_def)
qed

end

section \<open>The stores of the library\<close>

text \<open>
  C23: Full mesh on a store in memory. Processes that call \<open>connectFullMesh\<close> on one \<open>HashStore\<close>, in any
  interleaving, connect every pair to the address that the peer created for exactly this pair, and to no
  other. As long as a process has not finished, some process can go on, so the group never deadlocks; every
  run has at most as many operations as the programs, and at its end all pairs of all processes are
  connected.
\<close>

theorem full_mesh_hash_store:
  assumes "mesh_setup n host addr (\<lambda>_. True)" "mesh_run HashStore n host addr active rs (mesh_start n Map.empty) = Some w"
  shows "(\<forall>r < n. \<forall>i a. m_conn (mw_proc w r) i = Some a \<longrightarrow> a = addr i r) \<and>
    length rs + (\<Sum>r < n. length (m_todo (mw_proc w r))) = (\<Sum>r < n. length (connectFullMesh n r)) \<and>
    (if \<exists>r < n. m_todo (mw_proc w r) \<noteq> [] then \<exists>r < n. \<exists>w'. mesh_run1 HashStore n host addr active False r w = Returns w'
     else \<forall>r < n. \<forall>i < n. i \<noteq> r \<longrightarrow> m_conn (mw_proc w r) i = Some (addr i r))"
  by (rule hs.mesh_correct [OF assms(1) _ _ assms(2)]) (simp_all add: hash_view_def)

definition demo_host :: "nat \<Rightarrow> bytes" where
  "demo_host r = [104]"

definition demo_addr :: "nat \<Rightarrow> nat \<Rightarrow> bytes" where
  "demo_addr r i = [of_nat r, of_nat i]"

lemma demo_keys: "rankKey 0 = ''rank_0''" "rankKey 1 = ''rank_1''" "to_string 0 = ''0''" "to_string 1 = ''1''"
  by code_simp+

lemma demo_setup: "good ''rank_0'' \<Longrightarrow> good ''rank_1'' \<Longrightarrow> good ''0'' \<Longrightarrow> good ''1'' \<Longrightarrow> mesh_setup 2 demo_host demo_addr good"
  using demo_keys by (auto simp: mesh_setup_def demo_host_def demo_addr_def dest!: less_2_cases)

lemmas demo_simps = mesh_run1_def mesh_exec_def mesh_start_def connectFullMesh_def peers_def link_ops_def upt_rec [of _ "numeral _"] upt_rec [of _ "Suc 0"]
  rankKey_def to_string.simps digit_char_def demo_host_def demo_addr_def allBytes_def extractAddress_def read_at_def Let_def

theorem full_mesh_hash_store_witness:
  "\<exists>w. mesh_run HashStore 2 demo_host demo_addr (\<lambda>_ _. False) [1, 1, 0, 0, 1, 0, 0, 1, 1, 1, 0] (mesh_start 2 Map.empty) = Some w \<and>
    m_conn (mw_proc w 0) 1 = Some [1, 0] \<and> m_conn (mw_proc w 1) 0 = Some [0, 1]"
proof -
  let ?rs = "[1, 1, 0, 0, 1, 0, 0, 1, 1, 1, 0] :: nat list"
  obtain w where w: "mesh_run HashStore 2 demo_host demo_addr (\<lambda>_ _. False) ?rs (mesh_start 2 Map.empty) = Some w"
    and fin: "m_todo (mw_proc w 0) = []" "m_todo (mw_proc w 1) = []"
    by (simp add: demo_simps HashStore_def Store_base_def HashStore_set_def HashStore_get_def HashStore_wait_def)
  have all: "\<not> (\<exists>r < 2. m_todo (mw_proc w r) \<noteq> [])" using fin by (auto dest!: less_2_cases)
  have "\<forall>r < 2. \<forall>i < 2. i \<noteq> r \<longrightarrow> m_conn (mw_proc w r) i = Some (demo_addr i r)"
    by (rule conjunct2 [OF conjunct2 [OF full_mesh_hash_store [OF _ w]], unfolded if_not_P [OF all]]) (simp add: demo_setup)
  from this [rule_format, of 0 1] this [rule_format, of 1 0] w show ?thesis by (simp add: demo_addr_def)
qed

text \<open>
  C24: Full mesh on a store in a directory, below a prefix: the same holds for processes that use
  \<open>PrefixStore\<close> on top of \<open>FileStore\<close>, provided that the hash values of the keys they use are different.
\<close>

theorem full_mesh_file_store:
  assumes "mesh_setup n host addr (\<lambda>k. fs_good h K (joinKey p k))"
    and "mesh_run (PrefixStore p (FileStore b h)) n host addr active rs (mesh_start n Map.empty) = Some w"
  shows "(\<forall>r < n. \<forall>i a. m_conn (mw_proc w r) i = Some a \<longrightarrow> a = addr i r) \<and>
    length rs + (\<Sum>r < n. length (m_todo (mw_proc w r))) = (\<Sum>r < n. length (connectFullMesh n r)) \<and>
    (if \<exists>r < n. m_todo (mw_proc w r) \<noteq> [] then \<exists>r < n. \<exists>w'. mesh_run1 (PrefixStore p (FileStore b h)) n host addr active False r w = Returns w'
     else \<forall>r < n. \<forall>i < n. i \<noteq> r \<longrightarrow> m_conn (mw_proc w r) i = Some (addr i r))"
proof (rule kv_store.mesh_correct [OF fs.prefix_kv_store assms(1) _ _ assms(2)])
  show "fs_ok b h Map.empty" by (simp add: fs_ok_def)
  show "fs_view b h Map.empty (joinKey p k) = None" for k by (simp add: fs_view_def)
qed

definition demo_hash :: "string \<Rightarrow> nat" where
  "demo_hash k = (if length k > 3 then 2 else 0) + (if last k = CHR ''1'' then 1 else 0)"

definition mesh_finished :: "'s World option \<Rightarrow> bool" where
  "mesh_finished w = (case w of None \<Rightarrow> False | Some w \<Rightarrow> m_todo (mw_proc w 0) = [] \<and> m_todo (mw_proc w 1) = [])"

lemma demo_file_runs:
  "mesh_finished (mesh_run (PrefixStore ''p'' (FileStore ''/d'' demo_hash)) 2 demo_host demo_addr (\<lambda>_ _. False) [1, 0, 1, 0, 1, 0, 0, 1, 1, 1, 0]
     (mesh_start 2 Map.empty))"
  "mesh_finished (mesh_run (FileStore ''/d'' demo_hash) 2 demo_host demo_addr (\<lambda>_ _. True) [0, 1, 1, 1, 0, 1, 1, 1, 0, 0, 0] (mesh_start 2 Map.empty))"
  by code_simp+

theorem full_mesh_file_store_witness:
  "\<exists>w. mesh_run (PrefixStore ''p'' (FileStore ''/d'' demo_hash)) 2 demo_host demo_addr (\<lambda>_ _. False) [1, 0, 1, 0, 1, 0, 0, 1, 1, 1, 0]
      (mesh_start 2 Map.empty) = Some w \<and> m_conn (mw_proc w 0) 1 = Some [1, 0] \<and> m_conn (mw_proc w 1) 0 = Some [0, 1]"
proof -
  let ?rs = "[1, 0, 1, 0, 1, 0, 0, 1, 1, 1, 0] :: nat list" and ?S = "PrefixStore ''p'' (FileStore ''/d'' demo_hash)"
  let ?K = "{''p/rank_0'', ''p/rank_1'', ''p/0'', ''p/1''}"
  have cfg: "mesh_setup 2 demo_host demo_addr (\<lambda>k. fs_good demo_hash ?K (joinKey ''p'' k))"
    by (rule demo_setup) (simp_all add: fs_good_def joinKey_def demo_hash_def)
  obtain w where w: "mesh_run ?S 2 demo_host demo_addr (\<lambda>_ _. False) ?rs (mesh_start 2 Map.empty) = Some w"
    and fin: "m_todo (mw_proc w 0) = []" "m_todo (mw_proc w 1) = []"
    using demo_file_runs(1) by (auto simp: mesh_finished_def split: option.splits)
  have all: "\<not> (\<exists>r < 2. m_todo (mw_proc w r) \<noteq> [])" using fin by (auto dest!: less_2_cases)
  have "\<forall>r < 2. \<forall>i < 2. i \<noteq> r \<longrightarrow> m_conn (mw_proc w r) i = Some (demo_addr i r)"
    by (rule conjunct2 [OF conjunct2 [OF full_mesh_file_store [OF cfg w]], unfolded if_not_P [OF all]])
  from this [rule_format, of 0 1] this [rule_format, of 1 0] w show ?thesis by (simp add: demo_addr_def)
qed

text \<open>
  Local ranks with a store in a directory. When a process has finished, its local rank is the number of
  processes with a lower rank on the same host, because the \<open>get\<close> of this store waits for the host names.
\<close>

theorem local_rank_file_store:
  assumes "mesh_setup n host addr (fs_good h K)" "mesh_run (FileStore b h) n host addr active rs (mesh_start n Map.empty) = Some w"
    and "r < n" "m_todo (mw_proc w r) = []"
  shows "m_localRank (mw_proc w r) = card {i. i < r \<and> host i = host r}"
  using fs.local_rank_correct [OF assms(1) _ _ assms(2-4)] by (simp add: fs_ok_def fs_view_def same_host_def)


theorem local_rank_file_store_witness:
  "\<exists>w. mesh_run (FileStore ''/d'' demo_hash) 2 demo_host demo_addr (\<lambda>_ _. True) [0, 1, 1, 1, 0, 1, 1, 1, 0, 0, 0] (mesh_start 2 Map.empty) = Some w \<and>
    m_localRank (mw_proc w 1) = 1"
proof -
  let ?K = "{''rank_0'', ''rank_1'', ''0'', ''1''}"
  have cfg: "mesh_setup 2 demo_host demo_addr (fs_good demo_hash ?K)"
    by (rule demo_setup) (simp_all add: fs_good_def demo_hash_def)
  obtain w where w: "mesh_run (FileStore ''/d'' demo_hash) 2 demo_host demo_addr (\<lambda>_ _. True) [0, 1, 1, 1, 0, 1, 1, 1, 0, 0, 0] (mesh_start 2 Map.empty) = Some w"
    and fin: "m_todo (mw_proc w 1) = []"
    using demo_file_runs(2) by (auto simp: mesh_finished_def split: option.splits)
  have "{i. i < 1 \<and> demo_host i = demo_host 1} = {0}" by (auto simp: demo_host_def)
  with local_rank_file_store [OF cfg w _ fin] w show ?thesis by simp
qed

text \<open>
  C38: Local ranks with a store in memory can be wrong. \<open>connectFullMesh\<close> reads the host names of the lower
  ranks without waiting for them, and the \<open>get\<close> of \<open>HashStore\<close> returns an empty value for a key that is not
  set. A process that is faster than a lower rank on the same host does not count it: both finish with local
  rank 0.
\<close>

theorem local_rank_race:
  assumes "host 0 = host 1" "host 1 \<noteq> []" "\<And>j k. length (addr j k) = A"
  shows "\<exists>w. mesh_run HashStore 2 host addr (\<lambda>_ _. False) [1, 1, 0, 0, 1, 0, 0, 1, 1, 1, 0] (mesh_start 2 Map.empty) = Some w \<and>
    (\<forall>r < 2. m_todo (mw_proc w r) = [] \<and> m_localRank (mw_proc w r) = 0)"
  using assms by (auto simp: demo_simps HashStore_def Store_base_def HashStore_set_def HashStore_get_def HashStore_wait_def dest!: less_2_cases)

theorem local_rank_race_witness:
  "\<exists>w. mesh_run HashStore 2 demo_host demo_addr (\<lambda>_ _. False) [1, 1, 0, 0, 1, 0, 0, 1, 1, 1, 0] (mesh_start 2 Map.empty) = Some w \<and>
    (\<forall>r < 2. m_localRank (mw_proc w r) = 0) \<and> card {i. i < 1 \<and> demo_host i = demo_host 1} = 1"
proof -
  have "{i. i < 1 \<and> demo_host i = demo_host 1} = {0}" by (auto simp: demo_host_def)
  moreover have "demo_host 0 = demo_host 1" "demo_host 1 \<noteq> []" "\<And>j k. length (demo_addr j k) = 2"
    by (simp_all add: demo_host_def demo_addr_def)
  ultimately show ?thesis using local_rank_race [of demo_host demo_addr 2] by auto
qed

end
