(* ===== verification/Gloo_Bound.thy ===== *)
theory Gloo_Bound
  imports Gloo_Buffers Gloo_Collective
begin

text \<open>
  Execution of the older collectives, which use bound buffers (\<open>createSendBuffer\<close>, \<open>createRecvBuffer\<close>). Here
  the sender decides when and where the receiver's memory is written: a message lands in the buffer that
  the receiver registered for its slot, at any time after the send, whatever the receiver is doing. The
  algorithms protect themselves by notifications.

  A pair delivers the messages of one direction in the order of the sends (\<open>Gloo_Wire_Read\<close>). The payload is
  read from the sender's memory at some time between the send and its completion. \<open>waitRecv\<close> waits for one
  more message for the buffer, \<open>waitSend\<close> for one more completed send of it (\<open>Gloo_Buffers\<close>).

  Memory is counted in elements of the type of the algorithm. The content of the integers that are sent as
  notifications is never read; notifications carry no elements here. A message for a buffer that is not
  registered yet stays in the socket (\<open>Gloo_Wire.prepareRead\<close>), so registration can be taken to precede the
  runs.
\<close>

section \<open>Programs\<close>

datatype bbuf = Ptr nat | InPtr nat | OutPtr | Inbox nat | Outbox | Dummy

text \<open>
  \<open>BSend peer slot buf offset length roffset\<close>, the waits for the buffers of a peer and slot,
  \<open>BMemcpy dst doff src soff n\<close>, \<open>BReduce x xoff y yoff n\<close> for the call of the reduction function, and a
  check that fails.
\<close>

datatype bcmd =
    BSend nat nat bbuf nat nat nat
  | BWaitSend nat nat
  | BWaitRecv nat nat
  | BMemcpy bbuf nat bbuf nat nat
  | BReduce bbuf nat bbuf nat nat
  | BFail gloo_error

type_synonym bprog = "bcmd list"

section \<open>Messages\<close>

fun post_of :: "nat \<Rightarrow> bcmd \<Rightarrow> (nat \<times> bbuf \<times> nat \<times> nat \<times> nat) list" where
  "post_of j (BSend j' s b off len roff) = (if j' = j then [(s, b, off, len, roff)] else [])"
| "post_of j _ = []"

definition posts :: "nat \<Rightarrow> bprog \<Rightarrow> (nat \<times> bbuf \<times> nat \<times> nat \<times> nat) list" where
  "posts j p = concat (map (post_of j) p)"

text \<open>The number of messages for a slot, and of waits for it.\<close>

definition on_slot :: "nat \<Rightarrow> (nat \<times> 'b) list \<Rightarrow> nat" where
  "on_slot s xs = length (filter (\<lambda>x. fst x = s) xs)"

definition waitsR :: "nat \<Rightarrow> nat \<Rightarrow> bprog \<Rightarrow> nat" where
  "waitsR i s p = count_list p (BWaitRecv i s)"

definition waitsS :: "nat \<Rightarrow> nat \<Rightarrow> bprog \<Rightarrow> nat" where
  "waitsS j s p = count_list p (BWaitSend j s)"

lemma posts_simps [simp]: "posts j [] = []" "posts j (p @ q) = posts j p @ posts j q" "posts j (c # p) = post_of j c @ posts j p"
  by (simp_all add: posts_def)

lemma on_slot_simps [simp]: "on_slot s [] = 0" "on_slot s (x # xs) = (if fst x = s then Suc (on_slot s xs) else on_slot s xs)"
  "on_slot s (xs @ ys) = on_slot s xs + on_slot s ys"
  by (simp_all add: on_slot_def)

lemma waits_simps [simp]:
  "waitsR i s [] = 0" "waitsR i s (c # p) = (if c = BWaitRecv i s then Suc (waitsR i s p) else waitsR i s p)"
  "waitsR i s (p @ q) = waitsR i s p + waitsR i s q"
  "waitsS i s [] = 0" "waitsS i s (c # p) = (if c = BWaitSend i s then Suc (waitsS i s p) else waitsS i s p)"
  "waitsS i s (p @ q) = waitsS i s p + waitsS i s q"
  by (simp_all add: waitsR_def waitsS_def)

section \<open>The machine\<close>

text \<open>
  \<open>bw_sent i j\<close> and \<open>bw_recvd i j\<close> are the numbers of messages from \<open>i\<close> to \<open>j\<close> whose payload was read and that
  were written to the receiver's memory; the payloads in between are in \<open>bw_wire\<close>.
\<close>

record 'a bworld =
  bw_done :: "nat \<Rightarrow> bprog"
  bw_todo :: "nat \<Rightarrow> bprog"
  bw_mem :: "nat \<Rightarrow> bbuf \<Rightarrow> nat \<Rightarrow> 'a"
  bw_sent :: "nat \<Rightarrow> nat \<Rightarrow> nat"
  bw_recvd :: "nat \<Rightarrow> nat \<Rightarrow> nat"
  bw_wire :: "nat \<Rightarrow> nat \<Rightarrow> 'a list list"

definition rd :: "(nat \<Rightarrow> 'a) \<Rightarrow> nat \<Rightarrow> nat \<Rightarrow> 'a list" where
  "rd m off n = map m [off..<off + n]"

definition wr :: "nat \<Rightarrow> 'a list \<Rightarrow> (nat \<Rightarrow> 'a) \<Rightarrow> nat \<Rightarrow> 'a" where
  "wr off xs m = (\<lambda>x. if off \<le> x \<and> x < off + length xs then xs ! (x - off) else m x)"

text \<open>
  The static part of a world: the sizes of the buffers, the registered receive buffers of every rank by peer
  and slot, each with its place and size, and the reduction function.
\<close>

record 'a bconf =
  bc_n :: nat
  bc_size :: "nat \<Rightarrow> bbuf \<Rightarrow> nat"
  bc_reg :: "nat \<Rightarrow> nat \<Rightarrow> nat \<Rightarrow> (bbuf \<times> nat \<times> nat) option"
  bc_fn :: "'a list \<Rightarrow> 'a list \<Rightarrow> 'a list"

definition in_buf :: "'a bconf \<Rightarrow> nat \<Rightarrow> bbuf \<Rightarrow> nat \<Rightarrow> nat \<Rightarrow> bool" where
  "in_buf cf r b off n \<longleftrightarrow> n = 0 \<or> off + n \<le> bc_size cf r b"

definition set_bmem :: "nat \<Rightarrow> bbuf \<Rightarrow> nat \<Rightarrow> 'a list \<Rightarrow> 'a bworld \<Rightarrow> 'a bworld" where
  "set_bmem r b off xs w = w\<lparr>bw_mem := (bw_mem w)(r := (bw_mem w r)(b := wr off xs (bw_mem w r b)))\<rparr>"

text \<open>One command. Reading or writing outside a buffer is an error, as is a wait without end blocking.\<close>

definition bexec :: "'a bconf \<Rightarrow> nat \<Rightarrow> bcmd \<Rightarrow> 'a bworld \<Rightarrow> 'a bworld wait" where
  "bexec cf r c w =
     (let m = bw_mem w r
      in case c of
           BSend j s b off n roff \<Rightarrow> if in_buf cf r b off n then Returns w else Throws UndefinedBehavior
         | BWaitSend j s \<Rightarrow>
             if waitsS j s (bw_done w r) < on_slot s (take (bw_sent w r j) (posts j (bw_done w r))) then Returns w else Blocks
         | BWaitRecv i s \<Rightarrow>
             if waitsR i s (bw_done w r) < on_slot s (take (bw_recvd w i r) (posts r (bw_done w i))) then Returns w else Blocks
         | BMemcpy d doff b soff n \<Rightarrow>
             if in_buf cf r d doff n \<and> in_buf cf r b soff n then Returns (set_bmem r d doff (rd (m b) soff n) w) else Throws UndefinedBehavior
         | BReduce d doff b soff n \<Rightarrow>
             if in_buf cf r d doff n \<and> in_buf cf r b soff n
             then Returns (set_bmem r d doff (bc_fn cf (rd (m d) doff n) (rd (m b) soff n)) w) else Throws UndefinedBehavior
         | BFail e \<Rightarrow> Throws e)"

datatype bact = Run nat | Xmit nat nat | Deliver nat nat

text \<open>
  Running a rank, reading the payload of the next send of a pair, and writing the next message of a pair,
  which fails when the message does not fit into the registered buffer. A buffer may be registered with more
  than the memory that was allocated for it; a write behind that memory is an error.
\<close>

fun bact_exec :: "'a bconf \<Rightarrow> bact \<Rightarrow> 'a bworld \<Rightarrow> 'a bworld wait" where
  "bact_exec cf (Run r) w =
     (if r < bc_n cf
      then case bw_todo w r of
             [] \<Rightarrow> Blocks
           | c # p \<Rightarrow> (case bexec cf r c w of
               Returns w' \<Rightarrow> Returns (w'\<lparr>bw_done := (bw_done w)(r := bw_done w r @ [c]), bw_todo := (bw_todo w)(r := p)\<rparr>)
             | Blocks \<Rightarrow> Blocks | TimesOut \<Rightarrow> TimesOut | Throws e \<Rightarrow> Throws e)
      else Blocks)"
| "bact_exec cf (Xmit i j) w =
     (if i < bc_n cf \<and> j < bc_n cf \<and> bw_sent w i j < length (posts j (bw_done w i))
      then case posts j (bw_done w i) ! bw_sent w i j of
             (s, b, off, n, roff) \<Rightarrow>
               Returns (w\<lparr>bw_sent := (bw_sent w)(i := (bw_sent w i)(j := Suc (bw_sent w i j))),
                          bw_wire := (bw_wire w)(i := (bw_wire w i)(j := bw_wire w i j @ [rd (bw_mem w i b) off n]))\<rparr>)
      else Blocks)"
| "bact_exec cf (Deliver i j) w =
     (if i < bc_n cf \<and> j < bc_n cf
      then case bw_wire w i j of
             [] \<Rightarrow> Blocks
           | xs # rest \<Rightarrow>
               (case posts j (bw_done w i) ! bw_recvd w i j of
                  (s, b, off, n, roff) \<Rightarrow>
                    (case bc_reg cf j i s of
                       None \<Rightarrow> Blocks
                     | Some (d, base, sz) \<Rightarrow>
                         if \<not> roff + n \<le> sz then Throws EnforceNotMet
                         else if in_buf cf j d (base + roff) n
                         then Returns ((set_bmem j d (base + roff) xs w)\<lparr>bw_recvd := (bw_recvd w)(i := (bw_recvd w i)(j := Suc (bw_recvd w i j))),
                                bw_wire := (bw_wire w)(i := (bw_wire w i)(j := rest))\<rparr>)
                         else Throws UndefinedBehavior))
      else Blocks)"

text \<open>A run: a sequence of actions none of which blocks or fails.\<close>

fun brun :: "'a bconf \<Rightarrow> bact list \<Rightarrow> 'a bworld \<Rightarrow> 'a bworld option" where
  "brun cf [] w = Some w"
| "brun cf (a # as) w = (case bact_exec cf a w of Returns w' \<Rightarrow> brun cf as w' | _ \<Rightarrow> None)"

definition bstart :: "(nat \<Rightarrow> bprog) \<Rightarrow> (nat \<Rightarrow> bbuf \<Rightarrow> nat \<Rightarrow> 'a) \<Rightarrow> 'a bworld" where
  "bstart P m = \<lparr>bw_done = (\<lambda>_. []), bw_todo = P, bw_mem = m, bw_sent = (\<lambda>_ _. 0), bw_recvd = (\<lambda>_ _. 0), bw_wire = (\<lambda>_ _. [])\<rparr>"

section \<open>Progress\<close>

text \<open>The bookkeeping that holds in every reachable world.\<close>

definition bcounts :: "'a bconf \<Rightarrow> (nat \<Rightarrow> bprog) \<Rightarrow> 'a bworld \<Rightarrow> bool" where
  "bcounts cf P w \<longleftrightarrow> (\<forall>r. bw_done w r @ bw_todo w r = P r) \<and>
     (\<forall>i j. bw_recvd w i j \<le> bw_sent w i j \<and> bw_sent w i j \<le> length (posts j (bw_done w i)) \<and>
        length (bw_wire w i j) = bw_sent w i j - bw_recvd w i j)"

lemma set_bmem_simps [simp]:
  "bw_done (set_bmem r b off xs w) = bw_done w" "bw_todo (set_bmem r b off xs w) = bw_todo w" "bw_sent (set_bmem r b off xs w) = bw_sent w"
  "bw_recvd (set_bmem r b off xs w) = bw_recvd w" "bw_wire (set_bmem r b off xs w) = bw_wire w"
  by (simp_all add: set_bmem_def)

lemma bexec_counts:
  assumes "bexec cf r c w = Returns w'"
  shows "bw_done w' = bw_done w" "bw_todo w' = bw_todo w" "bw_sent w' = bw_sent w" "bw_recvd w' = bw_recvd w" "bw_wire w' = bw_wire w"
  using assms by (auto simp: bexec_def Let_def split: bcmd.splits if_splits)

lemma bact_counts:
  assumes "bcounts cf P w" "bact_exec cf a w = Returns w'"
  shows "bcounts cf P w'"
proof (cases a)
  case (Run r)
  with assms(2) obtain c p w1 where c: "bw_todo w r = c # p" and e: "bexec cf r c w = Returns w1"
    and w': "w' = w1\<lparr>bw_done := (bw_done w)(r := bw_done w r @ [c]), bw_todo := (bw_todo w)(r := p)\<rparr>"
    by (auto split: if_splits list.splits wait.splits)
  have "bw_done w' x @ bw_todo w' x = P x" for x
    using assms(1) c by (cases "x = r") (auto simp: bcounts_def w', metis)
  moreover have "posts j (bw_done w' i) = posts j (bw_done w i) \<or> i = r \<and> posts j (bw_done w' i) = posts j (bw_done w i) @ post_of j c" for i j
    by (auto simp: w')
  then have "length (posts j (bw_done w i)) \<le> length (posts j (bw_done w' i))" for i j by (metis le_add1 length_append order_refl)
  ultimately show ?thesis using assms(1) bexec_counts [OF e] unfolding bcounts_def w' by (auto intro: order_trans trans_le_add1)
next
  case (Xmit i j)
  have "bw_recvd w i j \<le> bw_sent w i j" "length (bw_wire w i j) = bw_sent w i j - bw_recvd w i j" using assms(1) by (auto simp: bcounts_def)
  then show ?thesis using assms Xmit by (auto simp: bcounts_def Suc_diff_le le_SucI split: if_splits prod.splits)
next
  case (Deliver i j)
  from assms(2) Deliver obtain xs rest d off where w: "bw_wire w i j = xs # rest"
    "w' = (set_bmem j d off xs w)\<lparr>bw_recvd := (bw_recvd w)(i := (bw_recvd w i)(j := Suc (bw_recvd w i j))), bw_wire := (bw_wire w)(i := (bw_wire w i)(j := rest))\<rparr>"
    by (auto split: if_splits list.splits prod.splits option.splits)
  have "length (bw_wire w i j) = bw_sent w i j - bw_recvd w i j" using assms(1) by (auto simp: bcounts_def)
  then have "length rest = bw_sent w i j - Suc (bw_recvd w i j)" "Suc (bw_recvd w i j) \<le> bw_sent w i j" using w(1) by simp_all
  then show ?thesis using assms(1) unfolding w(2) by (auto simp: bcounts_def)
qed

lemma brun_counts: "bcounts cf P w \<Longrightarrow> brun cf as w = Some w' \<Longrightarrow> bcounts cf P w'"
proof (induction as arbitrary: w)
  case (Cons a as)
  then obtain w1 where w1: "bact_exec cf a w = Returns w1" "brun cf as w1 = Some w'" by (auto split: wait.splits)
  from Cons.IH [OF bact_counts [OF Cons.prems(1) w1(1)] w1(2)] show ?case .
qed simp

lemma bstart_counts: "bcounts cf P (bstart P m)"
  by (simp add: bcounts_def bstart_def)

text \<open>
  A program with levels. The levels do not decrease along a program, and the message a wait is for is sent
  on a lower level. Then the process that is on the lowest level can always go on.
\<close>

type_synonym lprog = "(nat \<times> bcmd) list"

definition wait_ok :: "'a bconf \<Rightarrow> (nat \<Rightarrow> lprog) \<Rightarrow> nat \<Rightarrow> lprog \<Rightarrow> nat \<Rightarrow> bcmd \<Rightarrow> bool" where
  "wait_ok cf A r p l c \<longleftrightarrow>
     (case c of
        BWaitRecv i s \<Rightarrow> i < bc_n cf \<and> waitsR i s (map snd p) < on_slot s (posts r (map snd (filter (\<lambda>x. fst x < l) (A i))))
      | BWaitSend j s \<Rightarrow> j < bc_n cf \<and> waitsS j s (map snd p) < on_slot s (posts j (map snd p))
      | BSend j s b off n roff \<Rightarrow> j < bc_n cf \<and> bc_reg cf j r s \<noteq> None
      | _ \<Rightarrow> True)"

definition levels_ok :: "'a bconf \<Rightarrow> (nat \<Rightarrow> lprog) \<Rightarrow> bool" where
  "levels_ok cf A \<longleftrightarrow> (\<forall>r < bc_n cf. sorted (map fst (A r)) \<and> (\<forall>p l c q. A r = p @ (l, c) # q \<longrightarrow> wait_ok cf A r p l c))"

definition bfinished :: "'a bconf \<Rightarrow> 'a bworld \<Rightarrow> bool" where
  "bfinished cf w \<longleftrightarrow> (\<forall>r < bc_n cf. bw_todo w r = [])"

lemma posts_filter_le: "on_slot s (posts j (map snd (filter Q A))) \<le> on_slot s (posts j (map snd A))"
  by (induction A) auto

lemma posts_in: "posts j p ! q = (s, b, off, n, roff) \<Longrightarrow> q < length (posts j p) \<Longrightarrow> BSend j s b off n roff \<in> set p"
proof -
  assume a: "posts j p ! q = (s, b, off, n, roff)" "q < length (posts j p)"
  then have "(s, b, off, n, roff) \<in> set (posts j p)" by (metis nth_mem)
  then obtain c where "c \<in> set p" "(s, b, off, n, roff) \<in> set (post_of j c)" by (auto simp: posts_def)
  moreover from this(2) have "c = BSend j s b off n roff" by (cases c) (simp_all split: if_splits)
  ultimately show ?thesis by simp
qed

lemma bprogress:
  assumes lv: "levels_ok cf A" and cnt: "bcounts cf (\<lambda>r. map snd (A r)) w" and nf: "\<not> bfinished cf w"
  shows "\<exists>a. bact_exec cf a w \<noteq> Blocks"
proof (rule ccontr)
  assume "\<not> ?thesis"
  then have stuck: "bact_exec cf a w = Blocks" for a by blast
  have cur: "\<exists>p l c q. A r = p @ (l, c) # q \<and> map snd p = bw_done w r \<and> bw_todo w r = c # map snd q" if "bw_todo w r \<noteq> []" for r
  proof -
    have eq: "map snd (A r) = bw_done w r @ bw_todo w r" using cnt by (simp add: bcounts_def)
    then obtain p x where px: "A r = p @ x" "map snd p = bw_done w r" "map snd x = bw_todo w r" by (metis map_eq_append_conv)
    have "x \<noteq> []" using px(3) that by auto
    then obtain lc q where "x = lc # q" by (cases x) auto
    then show ?thesis using px by (intro exI [of _ p] exI [of _ "fst lc"] exI [of _ "snd lc"] exI [of _ q]) auto
  qed
  have sent: "bw_recvd w i j = length (posts j (bw_done w i))" "bw_sent w i j = length (posts j (bw_done w i))" if i: "i < bc_n cf" and j: "j < bc_n cf" for i j
  proof -
    have c: "bw_recvd w i j \<le> bw_sent w i j" "bw_sent w i j \<le> length (posts j (bw_done w i))" "length (bw_wire w i j) = bw_sent w i j - bw_recvd w i j"
      using cnt by (auto simp: bcounts_def)
    show s: "bw_sent w i j = length (posts j (bw_done w i))"
      using stuck [of "Xmit i j"] i j c(2) by (auto split: if_splits prod.splits)
    show "bw_recvd w i j = length (posts j (bw_done w i))"
    proof (rule ccontr)
      assume "bw_recvd w i j \<noteq> length (posts j (bw_done w i))"
      then have q: "bw_recvd w i j < length (posts j (bw_done w i))" "bw_wire w i j \<noteq> []" using c s by auto
      obtain s b off n roff where po: "posts j (bw_done w i) ! bw_recvd w i j = (s, b, off, n, roff)" by (metis prod_cases5)
      from posts_in [OF this q(1)] have "BSend j s b off n roff \<in> set (bw_done w i)" .
      moreover have "map snd (A i) = bw_done w i @ bw_todo w i" using cnt by (simp add: bcounts_def)
      ultimately have "BSend j s b off n roff \<in> set (map snd (A i))" by simp
      then obtain l where "(l, BSend j s b off n roff) \<in> set (A i)" by auto
      then obtain pp qq where "A i = pp @ (l, BSend j s b off n roff) # qq" by (meson split_list)
      then have "wait_ok cf A i pp l (BSend j s b off n roff)" using lv i unfolding levels_ok_def by blast
      then have "bc_reg cf j i s \<noteq> None" by (simp add: wait_ok_def)
      then show False using stuck [of "Deliver i j"] i j q po by (auto split: list.splits option.splits if_splits)
    qed
  qed
  define lvl where "lvl r = (SOME l. \<exists>p c q. A r = p @ (l, c) # q \<and> map snd p = bw_done w r)" for r
  have lvl: "lvl r = l" if "A r = p @ (l, c) # q" "map snd p = bw_done w r" for r p l c q
  proof -
    have "l' = l" if a: "A r = p' @ (l', c') # q'" "map snd p' = bw_done w r" for p' l' c' q'
    proof -
      have "length p' = length p" using \<open>map snd p = bw_done w r\<close> a(2) by (metis length_map)
      then show ?thesis using \<open>A r = p @ (l, c) # q\<close> a(1) by (metis nth_append_length prod.inject)
    qed
    then show ?thesis unfolding lvl_def using that by (intro some_equality) blast+
  qed
  obtain r where r: "r < bc_n cf" "bw_todo w r \<noteq> []" and least: "\<And>i. i < bc_n cf \<Longrightarrow> bw_todo w i \<noteq> [] \<Longrightarrow> lvl r \<le> lvl i"
  proof -
    let ?Q = "\<lambda>l. \<exists>i. i < bc_n cf \<and> bw_todo w i \<noteq> [] \<and> lvl i = l"
    have "\<exists>l. ?Q l" using nf by (auto simp: bfinished_def)
    from LeastI_ex [OF this] obtain r where r: "r < bc_n cf" "bw_todo w r \<noteq> []" "lvl r = (LEAST l. ?Q l)" by blast
    have "lvl r \<le> lvl i" if "i < bc_n cf" "bw_todo w i \<noteq> []" for i
      unfolding r(3) by (rule Least_le) (use that in blast)
    then show ?thesis using that r(1,2) by blast
  qed
  from cur [OF r(2)] obtain p l c q where A: "A r = p @ (l, c) # q" and d: "map snd p = bw_done w r" and t: "bw_todo w r = c # map snd q" by blast
  have wok: "wait_ok cf A r p l c" using lv r(1) A by (auto simp: levels_ok_def)
  have blocked: "bexec cf r c w = Blocks" using stuck [of "Run r"] r(1) t by (auto split: wait.splits)
  show False
  proof (cases c)
    case (BWaitRecv i s)
    then have i: "i < bc_n cf" and need: "waitsR i s (bw_done w r) < on_slot s (posts r (map snd (filter (\<lambda>x. fst x < l) (A i))))"
      using wok d by (auto simp: wait_ok_def)
    have "on_slot s (posts r (map snd (filter (\<lambda>x. fst x < l) (A i)))) \<le> on_slot s (posts r (bw_done w i))"
    proof (cases "bw_todo w i = []")
      case True
      then have "bw_done w i = map snd (A i)" using cnt by (metis append_Nil2 bcounts_def)
      then show ?thesis using posts_filter_le by metis
    next
      case False
      from cur [OF this] obtain pi li ci qi where Ai: "A i = pi @ (li, ci) # qi" "map snd pi = bw_done w i" by blast
      have "l \<le> li" using least [OF i False] lvl [OF A d] lvl [OF Ai] by simp
      moreover have "sorted (map fst (A i))" using lv i by (simp add: levels_ok_def)
      then have "\<forall>x \<in> set qi. li \<le> fst x" by (auto simp: Ai(1) sorted_append)
      ultimately have "filter (\<lambda>x. fst x < l) (A i) = filter (\<lambda>x. fst x < l) pi" by (auto simp: Ai(1) filter_empty_conv)
      then show ?thesis using posts_filter_le Ai(2) by metis
    qed
    then show False using blocked need sent(1) [OF i r(1)] by (simp add: bexec_def BWaitRecv)
  next
    case (BWaitSend j s)
    then show False using blocked wok d sent(2) [OF r(1)] by (auto simp: bexec_def wait_ok_def)
  qed (use blocked in \<open>auto simp: bexec_def Let_def split: if_splits\<close>)
qed

text \<open>Every run is finite: it executes each command once and transmits and delivers each message once.\<close>

definition bwork :: "'a bconf \<Rightarrow> 'a bworld \<Rightarrow> nat" where
  "bwork cf w = (\<Sum>r < bc_n cf. length (bw_done w r) + (\<Sum>j < bc_n cf. bw_sent w r j + bw_recvd w r j))"

lemma sum_Suc_at:
  fixes f g :: "nat \<Rightarrow> nat"
  assumes "r < n" "g r = Suc (f r)" "\<And>i. i \<noteq> r \<Longrightarrow> g i = f i"
  shows "(\<Sum>i < n. g i) = Suc (\<Sum>i < n. f i)"
proof -
  have "(\<Sum>i < n. g i) = g r + (\<Sum>i \<in> {..<n} - {r}. g i)" "(\<Sum>i < n. f i) = f r + (\<Sum>i \<in> {..<n} - {r}. f i)"
    using assms(1) by (simp_all add: sum.remove)
  moreover have "(\<Sum>i \<in> {..<n} - {r}. g i) = (\<Sum>i \<in> {..<n} - {r}. f i)" using assms(3) by (intro sum.cong) auto
  ultimately show ?thesis using assms(2) by simp
qed

lemma bact_work:
  assumes "bact_exec cf a w = Returns w'"
  shows "bwork cf w' = Suc (bwork cf w)"
proof (cases a)
  case (Run r)
  with assms obtain c p w1 where r: "r < bc_n cf" and e: "bexec cf r c w = Returns w1"
    and w': "w' = w1\<lparr>bw_done := (bw_done w)(r := bw_done w r @ [c]), bw_todo := (bw_todo w)(r := p)\<rparr>"
    by (auto split: if_splits list.splits wait.splits)
  show ?thesis unfolding bwork_def using bexec_counts [OF e] by (intro sum_Suc_at [OF r]) (auto simp: w')
next
  case (Xmit i j)
  with assms obtain x where ij: "i < bc_n cf" "j < bc_n cf" and w': "w' = w\<lparr>bw_sent := (bw_sent w)(i := (bw_sent w i)(j := Suc (bw_sent w i j))),
      bw_wire := (bw_wire w)(i := (bw_wire w i)(j := x))\<rparr>"
    by (auto split: if_splits prod.splits)
  have "(\<Sum>k < bc_n cf. bw_sent w' i k + bw_recvd w' i k) = Suc (\<Sum>k < bc_n cf. bw_sent w i k + bw_recvd w i k)"
    by (rule sum_Suc_at [OF ij(2)]) (simp_all add: w')
  then show ?thesis unfolding bwork_def by (intro sum_Suc_at [OF ij(1)]) (simp_all add: w')
next
  case (Deliver i j)
  from assms Deliver obtain xs rest d off where ij: "i < bc_n cf" "j < bc_n cf" and w': "w' = (set_bmem j d off xs w)\<lparr>bw_recvd := (bw_recvd w)(i := (bw_recvd w i)(j := Suc (bw_recvd w i j))), bw_wire := (bw_wire w)(i := (bw_wire w i)(j := rest))\<rparr>"
    by (auto split: if_splits list.splits prod.splits option.splits)
  have "(\<Sum>k < bc_n cf. bw_sent w' i k + bw_recvd w' i k) = Suc (\<Sum>k < bc_n cf. bw_sent w i k + bw_recvd w i k)"
    by (rule sum_Suc_at [OF ij(2)]) (simp_all add: w')
  then show ?thesis unfolding bwork_def by (intro sum_Suc_at [OF ij(1)]) (simp_all add: w')
qed

lemma brun_work: "brun cf as w = Some w' \<Longrightarrow> bwork cf w' = bwork cf w + length as"
proof (induction as arbitrary: w)
  case (Cons a as)
  then obtain w1 where "bact_exec cf a w = Returns w1" "brun cf as w1 = Some w'" by (auto split: wait.splits)
  with Cons.IH bact_work show ?case by fastforce
qed simp

definition bound_work :: "'a bconf \<Rightarrow> (nat \<Rightarrow> bprog) \<Rightarrow> nat" where
  "bound_work cf P = (\<Sum>r < bc_n cf. length (P r) + 2 * (\<Sum>j < bc_n cf. length (posts j (P r))))"

lemma bwork_bound:
  assumes "bcounts cf P w"
  shows "bwork cf w \<le> bound_work cf P"
proof -
  have "length (bw_done w r) + (\<Sum>j < bc_n cf. bw_sent w r j + bw_recvd w r j) \<le> length (P r) + 2 * (\<Sum>j < bc_n cf. length (posts j (P r)))" for r
  proof (rule add_mono)
    have P: "P r = bw_done w r @ bw_todo w r" using assms by (simp add: bcounts_def)
    then show "length (bw_done w r) \<le> length (P r)" by simp
    have "bw_sent w r j + bw_recvd w r j \<le> 2 * length (posts j (P r))" for j
    proof -
      have "bw_recvd w r j \<le> bw_sent w r j" "bw_sent w r j \<le> length (posts j (bw_done w r))" using assms by (auto simp: bcounts_def)
      then show ?thesis using P by simp
    qed
    then show "(\<Sum>j < bc_n cf. bw_sent w r j + bw_recvd w r j) \<le> 2 * (\<Sum>j < bc_n cf. length (posts j (P r)))"
      unfolding sum_distrib_left by (intro sum_mono)
  qed
  then show ?thesis unfolding bwork_def bound_work_def by (intro sum_mono)
qed

lemma brun_bound:
  assumes "brun cf as (bstart P m) = Some w"
  shows "length as \<le> bound_work cf P"
  using brun_work [OF assms] bwork_bound [OF brun_counts [OF bstart_counts assms]] by (simp add: bwork_def bstart_def)

end
