(* ===== verification/Gloo_Ownership.thy ===== *)
theory Gloo_Ownership
  imports Gloo_Bound
begin

text \<open>
  A logic for programs on bound buffers. Every cell of memory is owned by one process or by one message. A
  process may only touch cells that it owns. To send a message it must own the cells that the message will be
  written to, on the other side, and it loses them; the process that waits for the message gets them, with
  the contents of the message. A message can carry the right to use further cells: a notification hands back
  the receive buffer. Cells that are being sent may not be changed until the send has completed.

  The rules are checked on each program alone. The theory shows that programs that keep them behave as the
  rules say under every interleaving.
\<close>

type_synonym loc = "nat \<times> bbuf \<times> nat"

text \<open>What a process knows: the cells that it owns, with their contents if these are known.\<close>

type_synonym 'a know = "loc \<Rightarrow> 'a option option"

definition region :: "nat \<Rightarrow> bbuf \<Rightarrow> nat \<Rightarrow> nat \<Rightarrow> loc set" where
  "region r b off n = {(r, b, x) | x. off \<le> x \<and> x < off + n}"

lemma in_region [simp]: "(r', b', x) \<in> region r b off n \<longleftrightarrow> r' = r \<and> b' = b \<and> off \<le> x \<and> x < off + n"
  by (auto simp: region_def)

text \<open>
  The specification of the messages: contents, source, destination, and the cells handed over, for the
  \<open>k\<close>-th message from \<open>i\<close> to \<open>j\<close> on a slot.
\<close>

record 'a bspec =
  sp_val :: "nat \<Rightarrow> nat \<Rightarrow> nat \<Rightarrow> nat \<Rightarrow> 'a list"
  sp_src :: "nat \<Rightarrow> nat \<Rightarrow> nat \<Rightarrow> nat \<Rightarrow> bbuf \<times> nat"
  sp_dst :: "nat \<Rightarrow> nat \<Rightarrow> nat \<Rightarrow> nat \<Rightarrow> bbuf \<times> nat"
  sp_gives :: "nat \<Rightarrow> nat \<Rightarrow> nat \<Rightarrow> nat \<Rightarrow> loc set"

definition src_locs :: "'a bspec \<Rightarrow> nat \<Rightarrow> nat \<Rightarrow> nat \<Rightarrow> nat \<Rightarrow> loc set" where
  "src_locs sp i j s k = region i (fst (sp_src sp i j s k)) (snd (sp_src sp i j s k)) (length (sp_val sp i j s k))"

definition dst_locs :: "'a bspec \<Rightarrow> nat \<Rightarrow> nat \<Rightarrow> nat \<Rightarrow> nat \<Rightarrow> loc set" where
  "dst_locs sp i j s k = region j (fst (sp_dst sp i j s k)) (snd (sp_dst sp i j s k)) (length (sp_val sp i j s k))"

definition moves :: "'a bspec \<Rightarrow> nat \<Rightarrow> nat \<Rightarrow> nat \<Rightarrow> nat \<Rightarrow> loc set" where
  "moves sp i j s k = dst_locs sp i j s k \<union> sp_gives sp i j s k"

text \<open>The sources of sends that are not known to be completed.\<close>

definition frozen :: "'a bspec \<Rightarrow> nat \<Rightarrow> bprog \<Rightarrow> loc set" where
  "frozen sp r p = \<Union> {src_locs sp r j s k | j s k. waitsS j s p \<le> k \<and> k < on_slot s (posts j p)}"

definition krd :: "'a know \<Rightarrow> nat \<Rightarrow> bbuf \<Rightarrow> nat \<Rightarrow> nat \<Rightarrow> 'a list" where
  "krd K r b off n = map (\<lambda>x. the (the (K (r, b, x)))) [off..<off + n]"

definition kwr :: "nat \<Rightarrow> bbuf \<Rightarrow> nat \<Rightarrow> 'a list \<Rightarrow> 'a know \<Rightarrow> 'a know" where
  "kwr r b off xs K = (\<lambda>(r', b', x). if r' = r \<and> b' = b \<and> off \<le> x \<and> x < off + length xs then Some (Some (xs ! (x - off))) else K (r', b', x))"

definition known :: "'a know \<Rightarrow> nat \<Rightarrow> bbuf \<Rightarrow> nat \<Rightarrow> 'a list \<Rightarrow> bool" where
  "known K r b off xs \<longleftrightarrow> (\<forall>x < length xs. K (r, b, off + x) = Some (Some (xs ! x)))"

definition readable :: "'a know \<Rightarrow> nat \<Rightarrow> bbuf \<Rightarrow> nat \<Rightarrow> nat \<Rightarrow> bool" where
  "readable K r b off n \<longleftrightarrow> (\<forall>x. off \<le> x \<and> x < off + n \<longrightarrow> (\<exists>v. K (r, b, x) = Some (Some v)))"

section \<open>The rules\<close>

definition sym_ok :: "'a bconf \<Rightarrow> 'a bspec \<Rightarrow> nat \<Rightarrow> bprog \<Rightarrow> bcmd \<Rightarrow> 'a know \<Rightarrow> bool" where
  "sym_ok cf sp r p c K \<longleftrightarrow>
     (case c of
        BSend j s b off n roff \<Rightarrow>
          (let k = on_slot s (posts j p); v = sp_val sp r j s k
           in j < bc_n cf \<and> length v = n \<and> sp_src sp r j s k = (b, off) \<and> known K r b off v \<and>
              (case bc_reg cf j r s of
                 None \<Rightarrow> False
               | Some (d, base, sz) \<Rightarrow> roff + n \<le> sz \<and> sp_dst sp r j s k = (d, base + roff)) \<and>
              moves sp r j s k \<subseteq> dom K \<and> dst_locs sp r j s k \<inter> sp_gives sp r j s k = {} \<and>
              moves sp r j s k \<inter> (frozen sp r p \<union> region r b off n) = {})
      | BWaitSend j s \<Rightarrow> True
      | BWaitRecv i s \<Rightarrow> i < bc_n cf
      | BMemcpy d doff b soff n \<Rightarrow>
          readable K r b soff n \<and> region r d doff n \<subseteq> dom K \<and> region r d doff n \<inter> frozen sp r p = {}
      | BReduce d doff b soff n \<Rightarrow>
          readable K r b soff n \<and> readable K r d doff n \<and> region r d doff n \<inter> frozen sp r p = {}
      | BFail e \<Rightarrow> False)"

definition sym_next :: "'a bconf \<Rightarrow> 'a bspec \<Rightarrow> nat \<Rightarrow> bprog \<Rightarrow> bcmd \<Rightarrow> 'a know \<Rightarrow> 'a know" where
  "sym_next cf sp r p c K =
     (case c of
        BSend j s b off n roff \<Rightarrow> (\<lambda>l. if l \<in> moves sp r j s (on_slot s (posts j p)) then None else K l)
      | BWaitSend j s \<Rightarrow> K
      | BWaitRecv i s \<Rightarrow>
          (let k = waitsR i s p; (d, start) = sp_dst sp i r s k
           in kwr r d start (sp_val sp i r s k) (\<lambda>l. if l \<in> sp_gives sp i r s k then Some None else K l))
      | BMemcpy d doff b soff n \<Rightarrow> kwr r d doff (krd K r b soff n) K
      | BReduce d doff b soff n \<Rightarrow> kwr r d doff (bc_fn cf (krd K r d doff n) (krd K r b soff n)) K
      | BFail e \<Rightarrow> K)"

fun symK :: "'a bconf \<Rightarrow> 'a bspec \<Rightarrow> nat \<Rightarrow> bprog \<Rightarrow> bprog \<Rightarrow> 'a know \<Rightarrow> 'a know" where
  "symK cf sp r p [] K = K"
| "symK cf sp r p (c # cs) K = symK cf sp r (p @ [c]) cs (sym_next cf sp r p c K)"

fun sym_all :: "'a bconf \<Rightarrow> 'a bspec \<Rightarrow> nat \<Rightarrow> bprog \<Rightarrow> bprog \<Rightarrow> 'a know \<Rightarrow> bool" where
  "sym_all cf sp r p [] K = True"
| "sym_all cf sp r p (c # cs) K \<longleftrightarrow> sym_ok cf sp r p c K \<and> sym_all cf sp r (p @ [c]) cs (sym_next cf sp r p c K)"

lemma symK_append: "symK cf sp r p (a @ b) K = symK cf sp r (p @ a) b (symK cf sp r p a K)"
  by (induction a arbitrary: p K) simp_all

lemma sym_all_append: "sym_all cf sp r p (a @ b) K \<longleftrightarrow> sym_all cf sp r p a K \<and> sym_all cf sp r (p @ a) b (symK cf sp r p a K)"
  by (induction a arbitrary: p K) simp_all

text \<open>
  What the rules need of the start: ownership is exclusive, owned cells exist, and what is known is true.
\<close>

definition start_ok :: "'a bconf \<Rightarrow> (nat \<Rightarrow> 'a know) \<Rightarrow> (nat \<Rightarrow> bbuf \<Rightarrow> nat \<Rightarrow> 'a) \<Rightarrow> bool" where
  "start_ok cf K0 m \<longleftrightarrow>
     (\<forall>r < bc_n cf. \<forall>q < bc_n cf. r \<noteq> q \<longrightarrow> dom (K0 r) \<inter> dom (K0 q) = {}) \<and>
     (\<forall>r < bc_n cf. \<forall>q b x. (q, b, x) \<in> dom (K0 r) \<longrightarrow> x < bc_size cf q b) \<and>
     (\<forall>r < bc_n cf. \<forall>q b x v. K0 r (q, b, x) = Some (Some v) \<longrightarrow> m q b x = v) \<and>
     (\<forall>xs ys. length xs = length ys \<longrightarrow> length (bc_fn cf xs ys) = length xs)"

definition verified :: "'a bconf \<Rightarrow> 'a bspec \<Rightarrow> (nat \<Rightarrow> 'a know) \<Rightarrow> (nat \<Rightarrow> bprog) \<Rightarrow> bool" where
  "verified cf sp K0 P \<longleftrightarrow> (\<forall>r < bc_n cf. sym_all cf sp r [] (P r) (K0 r))"

section \<open>Small facts\<close>

lemma dom_kwr: "dom (kwr r b off xs K) = dom K \<union> region r b off (length xs)"
  by (auto simp: kwr_def dom_def split: if_splits)

lemma kwr_known: "known (kwr r b off xs K) r b off xs"
  by (simp add: known_def kwr_def)

lemma known_mono: "known K r b off xs \<Longrightarrow> (\<And>x. off \<le> x \<Longrightarrow> x < off + length xs \<Longrightarrow> K' (r, b, x) = K (r, b, x)) \<Longrightarrow> known K' r b off xs"
  by (simp add: known_def)

lemma length_krd [simp]: "length (krd K r b off n) = n"
  by (simp add: krd_def)

lemma krd_known: "known K r b off xs \<Longrightarrow> krd K r b off (length xs) = xs"
  by (auto simp: krd_def known_def intro!: nth_equalityI)

lemma known_readable: "known K r b off xs \<Longrightarrow> readable K r b off (length xs)"
  unfolding readable_def known_def
proof (intro allI impI)
  fix x assume k: "\<forall>x < length xs. K (r, b, off + x) = Some (Some (xs ! x))" and x: "off \<le> x \<and> x < off + length xs"
  have "x - off < length xs" using x by linarith
  with k have "K (r, b, off + (x - off)) = Some (Some (xs ! (x - off)))" by blast
  then show "\<exists>v. K (r, b, x) = Some (Some v)" using x by simp
qed

lemma readable_dom: "readable K r b off n \<Longrightarrow> region r b off n \<subseteq> dom K"
  by (auto simp: readable_def region_def)

lemma region_in_buf: "region r b off n \<subseteq> D \<Longrightarrow> (\<And>q b x. (q, b, x) \<in> D \<Longrightarrow> x < bc_size cf q b) \<Longrightarrow> in_buf cf r b off n"
proof (cases n)
  case (Suc k)
  assume a: "region r b off n \<subseteq> D" "\<And>q b x. (q, b, x) \<in> D \<Longrightarrow> x < bc_size cf q b"
  have "(r, b, off + k) \<in> region r b off n" using Suc by simp
  then have "off + k < bc_size cf r b" using a by blast
  then show ?thesis using Suc by (simp add: in_buf_def)
qed (simp add: in_buf_def)

lemma krd_mem:
  assumes "readable K r b off n" "\<And>q b x v. K (q, b, x) = Some (Some v) \<Longrightarrow> m q b x = v"
  shows "rd (m r b) off n = krd K r b off n"
  unfolding rd_def krd_def
proof (rule map_cong [OF refl])
  fix x assume "x \<in> set [off..<off + n]"
  then obtain v where v: "K (r, b, x) = Some (Some v)" using assms(1) by (auto simp: readable_def)
  then show "m r b x = the (the (K (r, b, x)))" using assms(2) [OF v] by simp
qed

section \<open>The invariant\<close>

definition flight :: "'a bconf \<Rightarrow> 'a bworld \<Rightarrow> nat \<Rightarrow> nat \<Rightarrow> nat \<Rightarrow> nat \<Rightarrow> bool" where
  "flight cf w i j s k \<longleftrightarrow> i < bc_n cf \<and> j < bc_n cf \<and> waitsR i s (bw_done w j) \<le> k \<and> k < on_slot s (posts j (bw_done w i))"

text \<open>The contents of the \<open>q\<close>-th message of a pair.\<close>

definition msg_val :: "'a bspec \<Rightarrow> nat \<Rightarrow> nat \<Rightarrow> (nat \<times> bbuf \<times> nat \<times> nat \<times> nat) list \<Rightarrow> nat \<Rightarrow> 'a list" where
  "msg_val sp i j ps q = sp_val sp i j (fst (ps ! q)) (on_slot (fst (ps ! q)) (take q ps))"

text \<open>Ownership, for the knowledge \<open>K\<close> of the processes.\<close>

definition own_ok :: "'a bconf \<Rightarrow> 'a bspec \<Rightarrow> (nat \<Rightarrow> 'a know) \<Rightarrow> 'a bworld \<Rightarrow> bool" where
  "own_ok cf sp K w \<longleftrightarrow>
     (\<forall>r < bc_n cf. \<forall>q < bc_n cf. r \<noteq> q \<longrightarrow> dom (K r) \<inter> dom (K q) = {}) \<and>
     (\<forall>i j s k r. flight cf w i j s k \<longrightarrow> r < bc_n cf \<longrightarrow> moves sp i j s k \<inter> dom (K r) = {}) \<and>
     (\<forall>i j s k i' j' s' k'. flight cf w i j s k \<longrightarrow> flight cf w i' j' s' k' \<longrightarrow> (i, j, s, k) \<noteq> (i', j', s', k') \<longrightarrow>
        moves sp i j s k \<inter> moves sp i' j' s' k' = {}) \<and>
     (\<forall>r < bc_n cf. \<forall>q b x. (q, b, x) \<in> dom (K r) \<longrightarrow> x < bc_size cf q b) \<and>
     (\<forall>i j s k q b x. flight cf w i j s k \<longrightarrow> (q, b, x) \<in> moves sp i j s k \<longrightarrow> x < bc_size cf q b) \<and>
     (\<forall>i j s k. flight cf w i j s k \<longrightarrow> dst_locs sp i j s k \<inter> sp_gives sp i j s k = {})"

definition val_ok :: "'a bconf \<Rightarrow> 'a bspec \<Rightarrow> (nat \<Rightarrow> 'a know) \<Rightarrow> 'a bworld \<Rightarrow> bool" where
  "val_ok cf sp K w \<longleftrightarrow>
     (\<forall>r < bc_n cf. \<forall>q b x v. K r (q, b, x) = Some (Some v) \<longrightarrow> bw_mem w q b x = v) \<and>
     (\<forall>i < bc_n cf. \<forall>j s k. waitsS j s (bw_done w i) \<le> k \<longrightarrow> k < on_slot s (posts j (bw_done w i)) \<longrightarrow>
        known (K i) i (fst (sp_src sp i j s k)) (snd (sp_src sp i j s k)) (sp_val sp i j s k)) \<and>
     (\<forall>i j s k. flight cf w i j s k \<longrightarrow> k < on_slot s (take (bw_recvd w i j) (posts j (bw_done w i))) \<longrightarrow>
        (\<forall>x < length (sp_val sp i j s k). bw_mem w j (fst (sp_dst sp i j s k)) (snd (sp_dst sp i j s k) + x) = sp_val sp i j s k ! x))"

definition net_ok :: "'a bconf \<Rightarrow> 'a bspec \<Rightarrow> 'a bworld \<Rightarrow> bool" where
  "net_ok cf sp w \<longleftrightarrow>
     (\<forall>i < bc_n cf. \<forall>j < bc_n cf. bw_wire w i j = map (msg_val sp i j (posts j (bw_done w i))) [bw_recvd w i j..<bw_sent w i j]) \<and>
     (\<forall>i < bc_n cf. \<forall>j s. waitsS j s (bw_done w i) \<le> on_slot s (take (bw_sent w i j) (posts j (bw_done w i)))) \<and>
     (\<forall>j < bc_n cf. \<forall>i s. waitsR i s (bw_done w j) \<le> on_slot s (take (bw_recvd w i j) (posts j (bw_done w i))))"

definition knows :: "'a bconf \<Rightarrow> 'a bspec \<Rightarrow> (nat \<Rightarrow> 'a know) \<Rightarrow> 'a bworld \<Rightarrow> nat \<Rightarrow> 'a know" where
  "knows cf sp K0 w r = symK cf sp r [] (bw_done w r) (K0 r)"

definition binv :: "'a bconf \<Rightarrow> 'a bspec \<Rightarrow> (nat \<Rightarrow> 'a know) \<Rightarrow> (nat \<Rightarrow> bprog) \<Rightarrow> 'a bworld \<Rightarrow> bool" where
  "binv cf sp K0 P w \<longleftrightarrow> bcounts cf P w \<and> own_ok cf sp (knows cf sp K0 w) w \<and> val_ok cf sp (knows cf sp K0 w) w \<and> net_ok cf sp w"

lemma own_okD:
  assumes "own_ok cf sp K w"
  shows "r < bc_n cf \<Longrightarrow> q < bc_n cf \<Longrightarrow> r \<noteq> q \<Longrightarrow> dom (K r) \<inter> dom (K q) = {}"
    "flight cf w i j s k \<Longrightarrow> r < bc_n cf \<Longrightarrow> moves sp i j s k \<inter> dom (K r) = {}"
    "flight cf w i j s k \<Longrightarrow> flight cf w i' j' s' k' \<Longrightarrow> (i, j, s, k) \<noteq> (i', j', s', k') \<Longrightarrow> moves sp i j s k \<inter> moves sp i' j' s' k' = {}"
    "r < bc_n cf \<Longrightarrow> (q', b, x) \<in> dom (K r) \<Longrightarrow> x < bc_size cf q' b"
    "flight cf w i j s k \<Longrightarrow> (q', b, x) \<in> moves sp i j s k \<Longrightarrow> x < bc_size cf q' b"
    "flight cf w i j s k \<Longrightarrow> dst_locs sp i j s k \<inter> sp_gives sp i j s k = {}"
  using assms unfolding own_ok_def by (elim conjE; meson)+

lemma val_okD:
  assumes "val_ok cf sp K w"
  shows "r < bc_n cf \<Longrightarrow> K r (q, b, x) = Some (Some v) \<Longrightarrow> bw_mem w q b x = v"
    "i < bc_n cf \<Longrightarrow> waitsS j s (bw_done w i) \<le> k \<Longrightarrow> k < on_slot s (posts j (bw_done w i)) \<Longrightarrow>
        known (K i) i (fst (sp_src sp i j s k)) (snd (sp_src sp i j s k)) (sp_val sp i j s k)"
    "flight cf w i j s k \<Longrightarrow> k < on_slot s (take (bw_recvd w i j) (posts j (bw_done w i))) \<Longrightarrow> x < length (sp_val sp i j s k) \<Longrightarrow>
        bw_mem w j (fst (sp_dst sp i j s k)) (snd (sp_dst sp i j s k) + x) = sp_val sp i j s k ! x"
  using assms unfolding val_ok_def by (elim conjE; meson)+

text \<open>The attributes of the messages that a verified program sends.\<close>

lemma posts_attr:
  assumes "sym_all cf sp r p0 p K" "q < length (posts j p)" "posts j p ! q = (s, b, off, n, roff)"
  shows "j < bc_n cf \<and> (let k = on_slot s (posts j p0) + on_slot s (take q (posts j p)) in length (sp_val sp r j s k) = n \<and> sp_src sp r j s k = (b, off) \<and>
    (\<exists>d base sz. bc_reg cf j r s = Some (d, base, sz) \<and> roff + n \<le> sz \<and> sp_dst sp r j s k = (d, base + roff)))"
  using assms
proof (induction p arbitrary: p0 K q)
  case (Cons c cs)
  note IH = Cons.IH and prems = Cons.prems
  have rest: "sym_all cf sp r (p0 @ [c]) cs (sym_next cf sp r p0 c K)" and now: "sym_ok cf sp r p0 c K" using prems(1) by simp_all
  show ?case
  proof (cases "post_of j c")
    case Nil
    then show ?thesis using IH [OF rest, of q] prems(2,3) by simp
  next
    case (Cons x xs)
    then obtain s' b' off' n' roff' where c: "c = BSend j s' b' off' n' roff'" "post_of j c = [(s', b', off', n', roff')]"
      by (cases c) (auto split: if_splits)
    show ?thesis
    proof (cases q)
      case 0
      then have "(s, b, off, n, roff) = (s', b', off', n', roff')" using prems(3) c(2) by simp
      then show ?thesis using now 0 c(1) by (auto simp: sym_ok_def Let_def split: option.splits)
    next
      case (Suc q')
      then show ?thesis using IH [OF rest, of q'] prems(2,3) c(2) by (auto simp: c(1) Let_def split: if_splits)
    qed
  qed
qed simp

section \<open>Preservation\<close>

definition inv3 :: "'a bconf \<Rightarrow> 'a bspec \<Rightarrow> (nat \<Rightarrow> 'a know) \<Rightarrow> 'a bworld \<Rightarrow> bool" where
  "inv3 cf sp K w \<longleftrightarrow> own_ok cf sp K w \<and> val_ok cf sp K w \<and> net_ok cf sp w"

lemma net_okD:
  assumes "net_ok cf sp w"
  shows "i < bc_n cf \<Longrightarrow> j < bc_n cf \<Longrightarrow> bw_wire w i j = map (msg_val sp i j (posts j (bw_done w i))) [bw_recvd w i j..<bw_sent w i j]"
    "i < bc_n cf \<Longrightarrow> waitsS j s (bw_done w i) \<le> on_slot s (take (bw_sent w i j) (posts j (bw_done w i)))"
    "j < bc_n cf \<Longrightarrow> waitsR i s (bw_done w j) \<le> on_slot s (take (bw_recvd w i j) (posts j (bw_done w i)))"
  using assms unfolding net_ok_def by (elim conjE; meson)+

lemma frozenI: "waitsS j s p \<le> k \<Longrightarrow> k < on_slot s (posts j p) \<Longrightarrow> src_locs sp r j s k \<subseteq> frozen sp r p"
  unfolding frozen_def by blast

lemma on_slot_take_le: "on_slot s (take q xs) \<le> on_slot s xs"
proof -
  have "on_slot s xs = on_slot s (take q xs) + on_slot s (drop q xs)" by (metis append_take_drop_id on_slot_simps(3))
  then show ?thesis by simp
qed

lemma on_slot_take_Suc: "q < length xs \<Longrightarrow> on_slot s (take (Suc q) xs) = on_slot s (take q xs) + (if fst (xs ! q) = s then 1 else 0)"
  by (simp add: take_Suc_conv_app_nth)

lemma on_slot_nth_less: "q < length xs \<Longrightarrow> fst (xs ! q) = s \<Longrightarrow> on_slot s (take q xs) < on_slot s xs"
  using on_slot_take_Suc [of q xs s] on_slot_take_le [of s "Suc q" xs] by simp

lemma known_frozen_mono:
  assumes "known K r (fst (sp_src sp r j s k)) (snd (sp_src sp r j s k)) (sp_val sp r j s k)"
    and "\<And>l. l \<in> src_locs sp r j s k \<Longrightarrow> K' l = K l"
  shows "known K' r (fst (sp_src sp r j s k)) (snd (sp_src sp r j s k)) (sp_val sp r j s k)"
  using assms(1) by (rule known_mono) (rule assms(2), simp add: src_locs_def)

text \<open>A command that writes memory of its process.\<close>

lemma inv3_write:
  assumes inv: "inv3 cf sp K w" and r: "r < bc_n cf"
    and own: "region r d off (length xs) \<subseteq> dom (K r)" and fr: "region r d off (length xs) \<inter> frozen sp r (bw_done w r) = {}"
    and w': "w' = (set_bmem r d off xs w)\<lparr>bw_done := (bw_done w)(r := bw_done w r @ [c]), bw_todo := t\<rparr>"
    and c: "\<And>j. post_of j c = []" "\<And>j s. c \<noteq> BWaitRecv j s" "\<And>j s. c \<noteq> BWaitSend j s"
  shows "inv3 cf sp (K(r := kwr r d off xs (K r))) w'"
proof -
  let ?K = "K(r := kwr r d off xs (K r))"
  have o: "own_ok cf sp K w" and v: "val_ok cf sp K w" and n: "net_ok cf sp w" using inv by (simp_all add: inv3_def)
  have ps: "posts j (bw_done w' i) = posts j (bw_done w i)" "waitsR j s (bw_done w' i) = waitsR j s (bw_done w i)"
    "waitsS j s (bw_done w' i) = waitsS j s (bw_done w i)" for i j s
    using c by (auto simp: w')
  have fl: "flight cf w' = flight cf w" by (auto simp: flight_def ps fun_eq_iff)
  have dm: "dom (?K i) = dom (K i)" for i using own by (auto simp: dom_kwr)
  have "own_ok cf sp ?K w'" using o unfolding own_ok_def fl dm .
  moreover have "net_ok cf sp w'" using n unfolding net_ok_def ps by (simp add: w')
  moreover have "val_ok cf sp ?K w'" unfolding val_ok_def fl ps
  proof (intro conjI allI impI)
    fix i q b x v assume i: "i < bc_n cf" and k: "?K i (q, b, x) = Some (Some v)"
    show "bw_mem w' q b x = v"
    proof (cases "(q, b, x) \<in> region r d off (length xs)")
      case True
      have "i = r"
      proof (rule ccontr)
        assume "i \<noteq> r"
        then have "(q, b, x) \<in> dom (K i)" using k by auto
        moreover have "(q, b, x) \<in> dom (K r)" using own True by blast
        ultimately have "(q, b, x) \<in> dom (K i) \<inter> dom (K r)" by blast
        then show False using own_okD(1) [OF o i r \<open>i \<noteq> r\<close>] by simp
      qed
      then show ?thesis using k True by (simp add: kwr_def w' set_bmem_def wr_def)
    next
      case False
      then have "K i (q, b, x) = Some (Some v)" using k by (cases "i = r") (auto simp: kwr_def)
      then show ?thesis using val_okD(1) [OF v i] False by (auto simp: w' set_bmem_def wr_def)
    qed
  next
    fix i j s k assume i: "i < bc_n cf" and k: "waitsS j s (bw_done w i) \<le> k" "k < on_slot s (posts j (bw_done w i))"
    show "known (?K i) i (fst (sp_src sp i j s k)) (snd (sp_src sp i j s k)) (sp_val sp i j s k)"
    proof (rule known_frozen_mono [OF val_okD(2) [OF v i k]])
      fix l assume "l \<in> src_locs sp i j s k"
      then have "l \<in> frozen sp i (bw_done w i)" using frozenI [OF k] by blast
      then have "i = r \<longrightarrow> l \<notin> region r d off (length xs)" using fr by blast
      then show "?K i l = K i l" by (cases l) (auto simp: kwr_def)
    qed
  next
    fix i j s k x assume f: "flight cf w i j s k" and a: "k < on_slot s (take (bw_recvd w' i j) (posts j (bw_done w i)))" and x: "x < length (sp_val sp i j s k)"
    let ?l = "(j, fst (sp_dst sp i j s k), snd (sp_dst sp i j s k) + x)"
    have "?l \<in> moves sp i j s k" using x by (simp add: moves_def dst_locs_def)
    then have "?l \<notin> region r d off (length xs)" using own_okD(2) [OF o f r] own by blast
    then show "bw_mem w' j (fst (sp_dst sp i j s k)) (snd (sp_dst sp i j s k) + x) = sp_val sp i j s k ! x"
      using val_okD(3) [OF v f _ x] a by (auto simp: w' set_bmem_def wr_def)
  qed
  ultimately show ?thesis by (simp add: inv3_def)
qed

lemma inv3_send:
  assumes inv: "inv3 cf sp K w" and r: "r < bc_n cf" and cnt: "bcounts cf P w"
    and ok: "sym_ok cf sp r (bw_done w r) (BSend j s b off n roff) (K r)"
    and w': "w' = w\<lparr>bw_done := (bw_done w)(r := bw_done w r @ [BSend j s b off n roff]), bw_todo := t\<rparr>"
  shows "inv3 cf sp (K(r := \<lambda>l. if l \<in> moves sp r j s (on_slot s (posts j (bw_done w r))) then None else K r l)) w'"
proof -
  define k0 where "k0 = on_slot s (posts j (bw_done w r))"
  define M where "M = moves sp r j s k0"
  let ?K = "K(r := \<lambda>l. if l \<in> M then None else K r l)"
  have o: "own_ok cf sp K w" and v: "val_ok cf sp K w" and nt: "net_ok cf sp w" using inv by (simp_all add: inv3_def)
  have j: "j < bc_n cf" and len: "length (sp_val sp r j s k0) = n" and src: "sp_src sp r j s k0 = (b, off)" and kn: "known (K r) r b off (sp_val sp r j s k0)"
    and Md: "M \<subseteq> dom (K r)" and dg: "dst_locs sp r j s k0 \<inter> sp_gives sp r j s k0 = {}" and Mf: "M \<inter> frozen sp r (bw_done w r) = {}" "M \<inter> region r b off n = {}"
    using ok by (auto simp: sym_ok_def Let_def k0_def M_def)
  have ps: "posts q (bw_done w' i) = posts q (bw_done w i) @ (if i = r \<and> q = j then [(s, b, off, n, roff)] else [])"
    "waitsR q t (bw_done w' i) = waitsR q t (bw_done w i)" "waitsS q t (bw_done w' i) = waitsS q t (bw_done w i)" for i q t
    by (auto simp: w')
  have tk: "take (bw_recvd w i q) (posts q (bw_done w' i)) = take (bw_recvd w i q) (posts q (bw_done w i))"
    "take (bw_sent w i q) (posts q (bw_done w' i)) = take (bw_sent w i q) (posts q (bw_done w i))" for i q
  proof -
    have "bw_recvd w i q \<le> length (posts q (bw_done w i))" "bw_sent w i q \<le> length (posts q (bw_done w i))"
      using cnt unfolding bcounts_def by (meson order_trans)+
    then show "take (bw_recvd w i q) (posts q (bw_done w' i)) = take (bw_recvd w i q) (posts q (bw_done w i))"
      "take (bw_sent w i q) (posts q (bw_done w' i)) = take (bw_sent w i q) (posts q (bw_done w i))" by (simp_all add: ps)
  qed
  have w0: "bw_mem w' = bw_mem w" "bw_recvd w' = bw_recvd w" "bw_sent w' = bw_sent w" "bw_wire w' = bw_wire w" by (simp_all add: w')
  have fl: "flight cf w' i q t k \<longleftrightarrow> flight cf w i q t k \<or> (i, q, t, k) = (r, j, s, k0)" for i q t k
  proof -
    have "waitsR r s (bw_done w j) \<le> k0" using net_okD(3) [OF nt j, of r s] on_slot_take_le unfolding k0_def by (metis order_trans)
    then show ?thesis using r j by (auto simp: flight_def ps k0_def)
  qed
  have new: "\<not> flight cf w r j s k0" by (simp add: flight_def k0_def)
  have dm: "dom (?K i) = (if i = r then dom (K r) - M else dom (K i))" for i by (auto simp: dom_def)
  have own: "own_ok cf sp ?K w'" unfolding own_ok_def
  proof (intro conjI allI impI)
    show "dom (?K i) \<inter> dom (?K q) = {}" if "i < bc_n cf" "q < bc_n cf" "i \<noteq> q" for i q
      using own_okD(1) [OF o that] unfolding dm by (auto split: if_splits)
    show "moves sp i q t k \<inter> dom (?K p) = {}" if f: "flight cf w' i q t k" and p: "p < bc_n cf" for i q t k p
    proof (cases "flight cf w i q t k")
      case True
      show ?thesis using own_okD(2) [OF o True p] own_okD(2) [OF o True r] unfolding dm by auto
    next
      case False
      then have eq: "moves sp i q t k = M" using f by (simp add: fl M_def)
      show ?thesis
      proof (cases "p = r")
        case np: False
        then have "dom (K p) \<inter> dom (K r) = {}" by (rule own_okD(1) [OF o p r])
        then show ?thesis using Md np unfolding eq dm by (simp add: disjoint_iff subset_iff) blast
      qed (auto simp: eq dm)
    qed
    show "moves sp i q t k \<inter> moves sp i' q' t' k' = {}"
      if f: "flight cf w' i q t k" "flight cf w' i' q' t' k'" "(i, q, t, k) \<noteq> (i', q', t', k')" for i q t k i' q' t' k'
    proof -
      have M: "moves sp i q t k \<inter> M = {}" if "flight cf w i q t k" for i q t k using own_okD(2) [OF o that r] Md by blast
      show ?thesis using f own_okD(3) [OF o, of i q t k i' q' t' k'] M [of i q t k] M [of i' q' t' k'] unfolding fl M_def by auto
    qed
    show "x < bc_size cf q b" if i: "i < bc_n cf" and k: "(q, b, x) \<in> dom (?K i)" for i q b x
      using own_okD(4) [OF o i, of q b x] k unfolding dm by (auto split: if_splits)
    show "x < bc_size cf q' b" if f: "flight cf w' i q t k" and l: "(q', b, x) \<in> moves sp i q t k" for i q t k q' b x
    proof (cases "flight cf w i q t k")
      case False
      then have "(q', b, x) \<in> M" using f l by (simp add: fl M_def)
      then show ?thesis using own_okD(4) [OF o r] Md by blast
    qed (rule own_okD(5) [OF o _ l])
    show "dst_locs sp i q t k \<inter> sp_gives sp i q t k = {}" if f: "flight cf w' i q t k" for i q t k
      using f own_okD(6) [OF o, of i q t k] dg unfolding fl by auto
  qed
  have val: "val_ok cf sp ?K w'" unfolding val_ok_def w0 tk
  proof (intro conjI allI impI)
    show "bw_mem w q b x = v'" if i: "i < bc_n cf" and k: "?K i (q, b, x) = Some (Some v')" for i q b x v'
      using val_okD(1) [OF v i] k by (auto split: if_splits)
  next
    fix i q t k assume i: "i < bc_n cf" and k: "waitsS q t (bw_done w' i) \<le> k" "k < on_slot t (posts q (bw_done w' i))"
    show "known (?K i) i (fst (sp_src sp i q t k)) (snd (sp_src sp i q t k)) (sp_val sp i q t k)"
    proof (cases "k < on_slot t (posts q (bw_done w i))")
      case True
      have k': "waitsS q t (bw_done w i) \<le> k" using k(1) by (simp add: ps)
      show ?thesis
      proof (rule known_frozen_mono [OF val_okD(2) [OF v i k' True]])
        fix l assume "l \<in> src_locs sp i q t k"
        then have "l \<in> frozen sp i (bw_done w i)" using frozenI [OF k' True] by blast
        then show "?K i l = K i l" using Mf(1) by auto
      qed
    next
      case False
      then have e: "i = r" "q = j" "t = s" "k = k0" using k(2) by (auto simp: ps k0_def split: if_splits)
      have "known (K r) r (fst (sp_src sp r j s k0)) (snd (sp_src sp r j s k0)) (sp_val sp r j s k0)" using kn src by simp
      then show ?thesis unfolding e
        by (rule known_frozen_mono) (use Mf(2) in \<open>auto simp: src_locs_def src len\<close>)
    qed
  next
    fix i q t k x assume f: "flight cf w' i q t k" and a: "k < on_slot t (take (bw_recvd w i q) (posts q (bw_done w i)))" and x: "x < length (sp_val sp i q t k)"
    have "flight cf w i q t k"
    proof (rule ccontr)
      assume "\<not> flight cf w i q t k"
      then have "(i, q, t, k) = (r, j, s, k0)" using f fl by blast
      then show False using a on_slot_take_le [of s "bw_recvd w r j" "posts j (bw_done w r)"] by (simp add: k0_def)
    qed
    from val_okD(3) [OF v this a x]
    show "bw_mem w q (fst (sp_dst sp i q t k)) (snd (sp_dst sp i q t k) + x) = sp_val sp i q t k ! x" .
  qed
  have net: "net_ok cf sp w'" unfolding net_ok_def w0 tk ps(2,3)
  proof (intro conjI allI impI)
    fix i q assume i: "i < bc_n cf" and q: "q < bc_n cf"
    have "bw_sent w i q \<le> length (posts q (bw_done w i))" using cnt by (simp add: bcounts_def)
    then have "msg_val sp i q (posts q (bw_done w' i)) x = msg_val sp i q (posts q (bw_done w i)) x" if "x < bw_sent w i q" for x
      using that by (simp add: msg_val_def ps nth_append)
    then show "bw_wire w i q = map (msg_val sp i q (posts q (bw_done w' i))) [bw_recvd w i q..<bw_sent w i q]"
      using net_okD(1) [OF nt i q] by simp
  qed (use net_okD(2,3) [OF nt] in blast)+
  show ?thesis using own val net unfolding inv3_def M_def k0_def by blast
qed

lemma inv3_waitSend:
  assumes inv: "inv3 cf sp K w" and r: "r < bc_n cf"
    and g: "waitsS j s (bw_done w r) < on_slot s (take (bw_sent w r j) (posts j (bw_done w r)))"
    and w': "w' = w\<lparr>bw_done := (bw_done w)(r := bw_done w r @ [BWaitSend j s]), bw_todo := t\<rparr>"
  shows "inv3 cf sp K w'"
proof -
  have o: "own_ok cf sp K w" and v: "val_ok cf sp K w" and nt: "net_ok cf sp w" using inv by (simp_all add: inv3_def)
  have ps: "posts q (bw_done w' i) = posts q (bw_done w i)" "waitsR q u (bw_done w' i) = waitsR q u (bw_done w i)"
    "waitsS q u (bw_done w' i) = waitsS q u (bw_done w i) + (if i = r \<and> q = j \<and> u = s then 1 else 0)" for i q u
    by (auto simp: w')
  have w0: "bw_mem w' = bw_mem w" "bw_recvd w' = bw_recvd w" "bw_sent w' = bw_sent w" "bw_wire w' = bw_wire w" by (simp_all add: w')
  have fl: "flight cf w' = flight cf w" by (auto simp: flight_def ps fun_eq_iff)
  have "own_ok cf sp K w'" using o unfolding own_ok_def fl .
  moreover have "val_ok cf sp K w'" unfolding val_ok_def w0 fl ps(1)
  proof (intro conjI allI impI)
    fix i q u k assume i: "i < bc_n cf" and k: "waitsS q u (bw_done w' i) \<le> k" "k < on_slot u (posts q (bw_done w i))"
    have "waitsS q u (bw_done w i) \<le> k" using k(1) by (simp add: ps)
    from val_okD(2) [OF v i this k(2)] show "known (K i) i (fst (sp_src sp i q u k)) (snd (sp_src sp i q u k)) (sp_val sp i q u k)" .
  qed (use val_okD [OF v] in blast)+
  moreover have "net_ok cf sp w'" unfolding net_ok_def w0 ps(1,2)
  proof (intro conjI allI impI)
    fix i q u assume "i < bc_n cf"
    from net_okD(2) [OF nt this, of q u] show "waitsS q u (bw_done w' i) \<le> on_slot u (take (bw_sent w i q) (posts q (bw_done w i)))"
      using g by (simp add: ps)
  qed (use net_okD(1,3) [OF nt] in blast)+
  ultimately show ?thesis by (simp add: inv3_def)
qed

lemma inv3_waitRecv:
  assumes inv: "inv3 cf sp K w" and r: "r < bc_n cf" and i0: "i0 < bc_n cf"
    and g: "waitsR i0 s (bw_done w r) < on_slot s (take (bw_recvd w i0 r) (posts r (bw_done w i0)))"
    and w': "w' = w\<lparr>bw_done := (bw_done w)(r := bw_done w r @ [BWaitRecv i0 s]), bw_todo := t\<rparr>"
  shows "inv3 cf sp (K(r := sym_next cf sp r (bw_done w r) (BWaitRecv i0 s) (K r))) w'"
proof -
  define k0 where "k0 = waitsR i0 s (bw_done w r)"
  define M where "M = moves sp i0 r s k0"
  define d where "d = fst (sp_dst sp i0 r s k0)"
  define st where "st = snd (sp_dst sp i0 r s k0)"
  define v0 where "v0 = sp_val sp i0 r s k0"
  define Kr where "Kr = sym_next cf sp r (bw_done w r) (BWaitRecv i0 s) (K r)"
  let ?K = "K(r := Kr)"
  have Kr: "Kr = kwr r d st v0 (\<lambda>l. if l \<in> sp_gives sp i0 r s k0 then Some None else K r l)"
    by (simp add: Kr_def sym_next_def Let_def d_def st_def v0_def k0_def split_beta)
  have o: "own_ok cf sp K w" and v: "val_ok cf sp K w" and nt: "net_ok cf sp w" using inv by (simp_all add: inv3_def)
  have f0: "flight cf w i0 r s k0" using r i0 g on_slot_take_le [of s "bw_recvd w i0 r" "posts r (bw_done w i0)"] by (simp add: flight_def k0_def)
  have dst: "dst_locs sp i0 r s k0 = region r d st (length v0)" by (simp add: dst_locs_def d_def st_def v0_def)
  have domr: "dom Kr = dom (K r) \<union> M" unfolding Kr dom_kwr M_def moves_def dst by (auto simp: dom_def)
  have same: "Kr l = K r l" if "l \<notin> M" for l
    using that unfolding M_def moves_def dst Kr by (cases l) (auto simp: kwr_def)
  have ps: "posts q (bw_done w' i) = posts q (bw_done w i)" "waitsS q u (bw_done w' i) = waitsS q u (bw_done w i)"
    "waitsR q u (bw_done w' i) = waitsR q u (bw_done w i) + (if i = r \<and> q = i0 \<and> u = s then 1 else 0)" for i q u
    by (auto simp: w')
  have w0: "bw_mem w' = bw_mem w" "bw_recvd w' = bw_recvd w" "bw_sent w' = bw_sent w" "bw_wire w' = bw_wire w" by (simp_all add: w')
  have fl: "flight cf w' i q u k \<Longrightarrow> flight cf w i q u k \<and> (i, q, u, k) \<noteq> (i0, r, s, k0)" for i q u k
    by (auto simp: flight_def ps k0_def)
  have apart: "moves sp i q u k \<inter> M = {}" if "flight cf w' i q u k" for i q u k
    using own_okD(3) [OF o conjunct1 [OF fl [OF that]] f0 conjunct2 [OF fl [OF that]]] by (simp add: M_def)
  have MK: "M \<inter> dom (K i) = {}" if "i < bc_n cf" for i using own_okD(2) [OF o f0 that] by (simp add: M_def)
  have "own_ok cf sp ?K w'" unfolding own_ok_def
  proof (intro conjI allI impI)
    fix p q assume a: "p < bc_n cf" "q < bc_n cf" "p \<noteq> q"
    show "dom (?K p) \<inter> dom (?K q) = {}"
      using own_okD(1) [OF o a] MK [OF a(1)] MK [OF a(2)] a(3) domr by (auto simp del: dom_eq_empty_conv)
  next
    fix i q u k p assume f: "flight cf w' i q u k" and p: "p < bc_n cf"
    show "moves sp i q u k \<inter> dom (?K p) = {}"
      using own_okD(2) [OF o conjunct1 [OF fl [OF f]] p] apart [OF f] domr by (auto simp del: dom_eq_empty_conv)
  next
    fix i q u k i' q' u' k' assume f: "flight cf w' i q u k" "flight cf w' i' q' u' k'" "(i, q, u, k) \<noteq> (i', q', u', k')"
    from own_okD(3) [OF o conjunct1 [OF fl [OF f(1)]] conjunct1 [OF fl [OF f(2)]] f(3)]
    show "moves sp i q u k \<inter> moves sp i' q' u' k' = {}" .
  next
    fix p q b x assume p: "p < bc_n cf" and l: "(q, b, x) \<in> dom (?K p)"
    show "x < bc_size cf q b"
    proof (cases "(q, b, x) \<in> M")
      case True
      then show ?thesis using own_okD(5) [OF o f0] by (simp add: M_def)
    next
      case False
      then have "(q, b, x) \<in> dom (K p)" using l domr by (cases "p = r") (metis UnE fun_upd_same, metis fun_upd_other)
      then show ?thesis by (rule own_okD(4) [OF o p])
    qed
  qed (use own_okD(5,6) [OF o] fl in blast)+
  moreover have "val_ok cf sp ?K w'" unfolding val_ok_def w0 ps(1,2)
  proof (intro conjI allI impI)
    fix p q b x v' assume p: "p < bc_n cf" and k: "?K p (q, b, x) = Some (Some v')"
    show "bw_mem w q b x = v'"
    proof (cases "p = r \<and> (q, b, x) \<in> M")
      case False
      then have "K p (q, b, x) = Some (Some v')" using k same by (cases "p = r") auto
      then show ?thesis by (rule val_okD(1) [OF v p])
    next
      case True
      then have kr: "Kr (q, b, x) = Some (Some v')" using k by simp
      then have l: "(q, b, x) \<in> region r d st (length v0)"
        using True MK [OF r] unfolding M_def moves_def dst Kr by (auto simp: kwr_def split: if_splits)
      have e: "q = r" "b = d" "x = st + (x - st)" "x - st < length v0" "v' = v0 ! (x - st)" using l kr unfolding Kr by (auto simp: kwr_def)
      from val_okD(3) [OF v f0 g [folded k0_def], of "x - st"] e(4)
      have "bw_mem w r d (st + (x - st)) = v0 ! (x - st)" by (simp add: d_def st_def v0_def)
      then show ?thesis using e by simp
    qed
  next
    fix i q u k assume i: "i < bc_n cf" and k: "waitsS q u (bw_done w i) \<le> k" "k < on_slot u (posts q (bw_done w i))"
    note kn = val_okD(2) [OF v i k]
    show "known (?K i) i (fst (sp_src sp i q u k)) (snd (sp_src sp i q u k)) (sp_val sp i q u k)"
    proof (rule known_frozen_mono [OF kn])
      fix l assume "l \<in> src_locs sp i q u k"
      then have "l \<in> dom (K i)" using readable_dom [OF known_readable [OF kn]] by (auto simp: src_locs_def)
      then have "l \<notin> M" using MK [OF i] by blast
      then show "?K i l = K i l" using same by simp
    qed
  qed (use val_okD(3) [OF v] fl in blast)
  moreover have "net_ok cf sp w'" unfolding net_ok_def w0 ps(1,2)
  proof (intro conjI allI impI)
    fix q i u assume "q < bc_n cf"
    from net_okD(3) [OF nt this, of i u] show "waitsR i u (bw_done w' q) \<le> on_slot u (take (bw_recvd w i q) (posts q (bw_done w i)))"
      using g by (auto simp: ps)
  qed (use net_okD(1,2) [OF nt] in blast)+
  ultimately show ?thesis by (simp add: inv3_def Kr_def)
qed

text \<open>Reading the payload of a message, and writing it to the other side.\<close>

definition post_ok :: "'a bconf \<Rightarrow> 'a bspec \<Rightarrow> nat \<Rightarrow> nat \<Rightarrow> (nat \<times> bbuf \<times> nat \<times> nat \<times> nat) list \<Rightarrow> bool" where
  "post_ok cf sp i j ps \<longleftrightarrow> (\<forall>q < length ps. case ps ! q of (s, b, off, n, roff) \<Rightarrow>
     (let k = on_slot s (take q ps) in length (sp_val sp i j s k) = n \<and> sp_src sp i j s k = (b, off) \<and>
       (\<exists>d base sz. bc_reg cf j i s = Some (d, base, sz) \<and> roff + n \<le> sz \<and> sp_dst sp i j s k = (d, base + roff))))"

lemma inv3_xmit:
  assumes inv: "inv3 cf sp K w" and cnt: "bcounts cf P w" and po: "post_ok cf sp i j (posts j (bw_done w i))"
    and e: "bact_exec cf (Xmit i j) w = Returns w'"
  shows "inv3 cf sp K w'"
proof -
  have o: "own_ok cf sp K w" and v: "val_ok cf sp K w" and nt: "net_ok cf sp w" using inv by (simp_all add: inv3_def)
  let ?q = "bw_sent w i j" and ?ps = "posts j (bw_done w i)"
  obtain s b off n roff where x: "?ps ! ?q = (s, b, off, n, roff)" by (metis prod_cases5)
  have ij: "i < bc_n cf" "j < bc_n cf" and q: "?q < length ?ps"
    and w': "w' = w\<lparr>bw_sent := (bw_sent w)(i := (bw_sent w i)(j := Suc ?q)),
                  bw_wire := (bw_wire w)(i := (bw_wire w i)(j := bw_wire w i j @ [rd (bw_mem w i b) off n]))\<rparr>"
    using e x by (auto split: if_splits)
  define k where "k = on_slot s (take ?q ?ps)"
  have at: "length (sp_val sp i j s k) = n" "sp_src sp i j s k = (b, off)" using po q x by (auto simp: post_ok_def Let_def k_def)
  have kk: "waitsS j s (bw_done w i) \<le> k" "k < on_slot s ?ps" using net_okD(2) [OF nt ij(1)] on_slot_nth_less [OF q] x by (simp_all add: k_def)
  have kn: "known (K i) i b off (sp_val sp i j s k)" using val_okD(2) [OF v ij(1) kk] at by simp
  have "rd (bw_mem w i b) off n = krd (K i) i b off n"
    using krd_mem [of "K i" i b off n "bw_mem w"] known_readable [OF kn] val_okD(1) [OF v ij(1)] at by blast
  also have "\<dots> = sp_val sp i j s k" using krd_known [OF kn] at by simp
  finally have pay: "rd (bw_mem w i b) off n = msg_val sp i j ?ps ?q" by (simp add: msg_val_def x k_def)
  have le: "bw_recvd w i j \<le> ?q" using cnt by (simp add: bcounts_def)
  have w0: "bw_mem w' = bw_mem w" "bw_recvd w' = bw_recvd w" "bw_done w' = bw_done w" by (simp_all add: w')
  have fl: "flight cf w' = flight cf w" by (simp add: flight_def w0 fun_eq_iff)
  have "own_ok cf sp K w'" using o unfolding own_ok_def fl .
  moreover have "val_ok cf sp K w'" using v unfolding val_ok_def w0 fl .
  moreover have "net_ok cf sp w'" unfolding net_ok_def w0
  proof (intro conjI allI impI)
    fix i' j' assume a: "i' < bc_n cf" "j' < bc_n cf"
    show "bw_wire w' i' j' = map (msg_val sp i' j' (posts j' (bw_done w i'))) [bw_recvd w i' j'..<bw_sent w' i' j']"
      using net_okD(1) [OF nt a] pay le by (auto simp: w')
  next
    fix i' j' s' assume a: "i' < bc_n cf"
    have "on_slot s' (take (bw_sent w i' j') (posts j' (bw_done w i'))) \<le> on_slot s' (take (bw_sent w' i' j') (posts j' (bw_done w i')))"
      using on_slot_take_Suc [OF q, of s'] by (auto simp: w')
    then show "waitsS j' s' (bw_done w i') \<le> on_slot s' (take (bw_sent w' i' j') (posts j' (bw_done w i')))"
      using net_okD(2) [OF nt a, of j' s'] by linarith
  qed (use net_okD(3) [OF nt] in blast)
  ultimately show ?thesis by (simp add: inv3_def)
qed

lemma inv3_deliver:
  assumes inv: "inv3 cf sp K w" and cnt: "bcounts cf P w" and po: "post_ok cf sp i j (posts j (bw_done w i))"
    and ij: "i < bc_n cf" "j < bc_n cf"
  shows "case bact_exec cf (Deliver i j) w of Returns w' \<Rightarrow> inv3 cf sp K w' | Blocks \<Rightarrow> True | _ \<Rightarrow> False"
proof (cases "bw_wire w i j")
  case (Cons xs rest)
  have o: "own_ok cf sp K w" and v: "val_ok cf sp K w" and nt: "net_ok cf sp w" using inv by (simp_all add: inv3_def)
  let ?q = "bw_recvd w i j" and ?ps = "posts j (bw_done w i)"
  have wire: "xs # rest = map (msg_val sp i j ?ps) [?q..<bw_sent w i j]" using net_okD(1) [OF nt ij] Cons by simp
  then have q1: "?q < bw_sent w i j" by (cases "?q < bw_sent w i j") auto
  then have xs: "xs = msg_val sp i j ?ps ?q" and rest: "rest = map (msg_val sp i j ?ps) [Suc ?q..<bw_sent w i j]" using wire by (simp_all add: upt_conv_Cons)
  have q: "?q < length ?ps" using q1 cnt by (meson bcounts_def order_less_le_trans)
  obtain s b off n roff where x: "?ps ! ?q = (s, b, off, n, roff)" by (metis prod_cases5)
  define k where "k = on_slot s (take ?q ?ps)"
  obtain d base sz where at: "length (sp_val sp i j s k) = n" "bc_reg cf j i s = Some (d, base, sz)" "roff + n \<le> sz"
    "sp_dst sp i j s k = (d, base + roff)"
    using po q x by (auto simp: post_ok_def Let_def k_def)
  have xs': "xs = sp_val sp i j s k" by (simp add: xs msg_val_def x k_def)
  define w' where "w' = (set_bmem j d (base + roff) xs w)\<lparr>bw_recvd := (bw_recvd w)(i := (bw_recvd w i)(j := Suc ?q)),
                                bw_wire := (bw_wire w)(i := (bw_wire w i)(j := rest))\<rparr>"
  have f0: "flight cf w i j s k" using ij net_okD(3) [OF nt ij(2)] on_slot_nth_less [OF q] x by (simp add: flight_def k_def)
  have w0: "bw_sent w' = bw_sent w" "bw_done w' = bw_done w" by (simp_all add: w'_def)
  have fl: "flight cf w' = flight cf w" by (simp add: flight_def w0 fun_eq_iff)
  have dst: "dst_locs sp i j s k = region j d (base + roff) (length xs)" by (simp add: dst_locs_def at(4) xs')
  have "in_buf cf j d (base + roff) n"
  proof (rule region_in_buf [OF _ own_okD(5) [OF o f0]])
    show "region j d (base + roff) n \<subseteq> moves sp i j s k" using dst at(1) xs' by (auto simp: moves_def)
  qed
  then have ex: "bact_exec cf (Deliver i j) w = Returns w'" using ij Cons x at by (simp add: w'_def)
  have mem: "bw_mem w' q' b' x' = (if (q', b', x') \<in> dst_locs sp i j s k then xs ! (x' - (base + roff)) else bw_mem w q' b' x')" for q' b' x'
    unfolding dst by (auto simp: w'_def set_bmem_def wr_def)
  have far: "l \<notin> dst_locs sp i j s k" if "l \<in> moves sp i' j' s' k'" "flight cf w i' j' s' k'" "(i', j', s', k') \<noteq> (i, j, s, k)" for l i' j' s' k'
    using own_okD(3) [OF o that(2) f0 that(3)] that(1) by (auto simp: moves_def)
  have "own_ok cf sp K w'" using o unfolding own_ok_def fl .
  moreover have "val_ok cf sp K w'" unfolding val_ok_def w0 fl
  proof (intro conjI allI impI)
    fix r q' b' x' v' assume r: "r < bc_n cf" and k': "K r (q', b', x') = Some (Some v')"
    then have "(q', b', x') \<notin> dst_locs sp i j s k" using own_okD(2) [OF o f0 r] by (auto simp: moves_def)
    then show "bw_mem w' q' b' x' = v'" using val_okD(1) [OF v r k'] by (simp add: mem)
  next
    fix i' j' s' k' x' assume f: "flight cf w i' j' s' k'" and a: "k' < on_slot s' (take (bw_recvd w' i' j') (posts j' (bw_done w i')))"
      and x': "x' < length (sp_val sp i' j' s' k')"
    show "bw_mem w' j' (fst (sp_dst sp i' j' s' k')) (snd (sp_dst sp i' j' s' k') + x') = sp_val sp i' j' s' k' ! x'"
    proof (cases "(i', j', s', k') = (i, j, s, k)")
      case True
      then show ?thesis using x' by (simp add: mem dst at(4) xs')
    next
      case False
      have l: "(j', fst (sp_dst sp i' j' s' k'), snd (sp_dst sp i' j' s' k') + x') \<in> moves sp i' j' s' k'" using x' by (simp add: moves_def dst_locs_def)
      have "k' < on_slot s' (take (bw_recvd w i' j') (posts j' (bw_done w i')))"
        using a False on_slot_take_Suc [OF q, of s'] x by (auto simp: w'_def k_def split: if_splits)
      then show ?thesis using val_okD(3) [OF v f _ x'] far [OF l f False] by (simp add: mem)
    qed
  qed (use val_okD(2) [OF v] in blast)
  moreover have "net_ok cf sp w'" unfolding net_ok_def w0
  proof (intro conjI allI impI)
    fix i' j' assume a: "i' < bc_n cf" "j' < bc_n cf"
    show "bw_wire w' i' j' = map (msg_val sp i' j' (posts j' (bw_done w i'))) [bw_recvd w' i' j'..<bw_sent w i' j']"
      using net_okD(1) [OF nt a] rest by (auto simp: w'_def)
  next
    fix j' i' s' assume a: "j' < bc_n cf"
    have "on_slot s' (take (bw_recvd w i' j') (posts j' (bw_done w i'))) \<le> on_slot s' (take (bw_recvd w' i' j') (posts j' (bw_done w i')))"
      using on_slot_take_Suc [OF q, of s'] by (auto simp: w'_def)
    then show "waitsR i' s' (bw_done w j') \<le> on_slot s' (take (bw_recvd w' i' j') (posts j' (bw_done w i')))"
      using net_okD(3) [OF nt a, of i' s'] by linarith
  qed (use net_okD(2) [OF nt] in blast)
  ultimately show ?thesis unfolding ex by (simp add: inv3_def)
qed simp

lemma verified_post_ok:
  assumes "verified cf sp K0 P" "bcounts cf P w" "i < bc_n cf"
  shows "post_ok cf sp i j (posts j (bw_done w i))"
  unfolding post_ok_def
proof (intro allI impI)
  fix q assume q: "q < length (posts j (bw_done w i))"
  obtain s b off n roff where x: "posts j (bw_done w i) ! q = (s, b, off, n, roff)" by (metis prod_cases5)
  have P: "posts j (P i) = posts j (bw_done w i) @ posts j (bw_todo w i)" using assms(2) unfolding bcounts_def by (metis posts_simps(2))
  have "sym_all cf sp i [] (P i) (K0 i)" using assms(1,3) by (simp add: verified_def)
  from posts_attr [OF this, of q j s b off n roff] q x
  show "case posts j (bw_done w i) ! q of (s, b, off, n, roff) \<Rightarrow>
     (let k = on_slot s (take q (posts j (bw_done w i))) in length (sp_val sp i j s k) = n \<and> sp_src sp i j s k = (b, off) \<and>
       (\<exists>d base sz. bc_reg cf j i s = Some (d, base, sz) \<and> roff + n \<le> sz \<and> sp_dst sp i j s k = (d, base + roff)))"
    by (simp add: P nth_append Let_def)
qed

lemma run_sym:
  assumes "verified cf sp K0 P" "bcounts cf P w" "r < bc_n cf" "bw_todo w r = c # p"
  shows "sym_ok cf sp r (bw_done w r) c (knows cf sp K0 w r)"
proof -
  have "P r = bw_done w r @ c # p" using assms(2,4) unfolding bcounts_def by metis
  moreover have "sym_all cf sp r [] (P r) (K0 r)" using assms(1,3) by (simp add: verified_def)
  ultimately show ?thesis by (simp add: sym_all_append knows_def)
qed

lemma run_inv3:
  assumes inv: "inv3 cf sp K w" and cnt: "bcounts cf P w" and r: "r < bc_n cf" and todo: "bw_todo w r = c # p"
    and ok: "sym_ok cf sp r (bw_done w r) c (K r)"
    and fn: "\<And>xs ys. length xs = length ys \<Longrightarrow> length (bc_fn cf xs ys) = length xs"
  shows "case bact_exec cf (Run r) w of
           Returns w' \<Rightarrow> inv3 cf sp (K(r := sym_next cf sp r (bw_done w r) c (K r))) w' \<and> bw_done w' = (bw_done w)(r := bw_done w r @ [c])
         | Blocks \<Rightarrow> True | _ \<Rightarrow> False"
proof -
  have o: "own_ok cf sp K w" and v: "val_ok cf sp K w" using inv by (simp_all add: inv3_def)
  note buf = region_in_buf [OF _ own_okD(4) [OF o r]]
  note mem = krd_mem [of "K r" r _ _ _ "bw_mem w", OF _ val_okD(1) [OF v r]]
  show ?thesis
  proof (cases c)
    case (BSend j s b off n roff)
    have "known (K r) r b off (sp_val sp r j s (on_slot s (posts j (bw_done w r))))" "length (sp_val sp r j s (on_slot s (posts j (bw_done w r)))) = n"
      using ok by (auto simp: sym_ok_def BSend Let_def)
    then have "in_buf cf r b off n" using buf [OF readable_dom [OF known_readable]] by blast
    then show ?thesis using r todo inv3_send [OF inv r cnt ok [unfolded BSend] refl] by (simp add: bexec_def BSend sym_next_def)
  next
    case (BWaitSend j s)
    then show ?thesis using r todo inv3_waitSend [OF inv r _ refl, of j s] by (simp add: bexec_def sym_next_def)
  next
    case (BWaitRecv i s)
    then have "i < bc_n cf" using ok by (simp add: sym_ok_def)
    then show ?thesis using r todo inv3_waitRecv [OF inv r _ _ refl, of i s] BWaitRecv by (simp add: bexec_def)
  next
    case (BMemcpy d doff b soff n)
    then have k: "readable (K r) r b soff n" "region r d doff n \<subseteq> dom (K r)" "region r d doff n \<inter> frozen sp r (bw_done w r) = {}" using ok by (simp_all add: sym_ok_def)
    show ?thesis using r todo buf [OF readable_dom [OF k(1)]] buf [OF k(2)] mem [OF k(1)] k inv3_write [OF inv r, of d doff "krd (K r) r b soff n", OF _ _ refl]
      by (simp add: bexec_def BMemcpy sym_next_def)
  next
    case (BReduce d doff b soff n)
    then have k: "readable (K r) r b soff n" "readable (K r) r d doff n" "region r d doff n \<inter> frozen sp r (bw_done w r) = {}" using ok by (simp_all add: sym_ok_def)
    have len: "length (bc_fn cf (krd (K r) r d doff n) (krd (K r) r b soff n)) = n" by (subst fn) simp_all
    show ?thesis using r todo buf [OF readable_dom [OF k(1)]] buf [OF readable_dom [OF k(2)]] mem [OF k(1)] mem [OF k(2)] k readable_dom [OF k(2)] len
        inv3_write [OF inv r, of d doff "bc_fn cf (krd (K r) r d doff n) (krd (K r) r b soff n)", OF _ _ refl]
      by (simp add: bexec_def BReduce sym_next_def)
  next
    case (BFail e)
    then show ?thesis using ok by (simp add: sym_ok_def)
  qed
qed

text \<open>Every action of a world with the invariant keeps it, and none of them fails.\<close>

lemma bact_inv:
  assumes vf: "verified cf sp K0 P" and so: "start_ok cf K0 m" and inv: "inv3 cf sp (knows cf sp K0 w) w" and cnt: "bcounts cf P w"
  shows "case bact_exec cf a w of Returns w' \<Rightarrow> inv3 cf sp (knows cf sp K0 w') w' | Blocks \<Rightarrow> True | _ \<Rightarrow> False"
proof (cases a)
  case (Run r)
  show ?thesis
  proof (cases "r < bc_n cf \<and> bw_todo w r \<noteq> []")
    case True
    then obtain c p where r: "r < bc_n cf" and todo: "bw_todo w r = c # p" by (cases "bw_todo w r") auto
    have fn: "length (bc_fn cf xs ys) = length xs" if "length xs = length ys" for xs ys using so that by (simp add: start_ok_def)
    have step: "knows cf sp K0 w' = (knows cf sp K0 w)(r := sym_next cf sp r (bw_done w r) c (knows cf sp K0 w r))"
      if "bw_done w' = (bw_done w)(r := bw_done w r @ [c])" for w' :: "'a bworld"
      by (rule ext) (simp add: knows_def that symK_append)
    show ?thesis using run_inv3 [OF inv cnt r todo run_sym [OF vf cnt r todo] fn] step unfolding Run
      by (cases "bact_exec cf (Run r) w") (simp_all del: bact_exec.simps)
  qed (auto simp: Run)
next
  case (Xmit i j)
  show ?thesis
  proof (cases "bact_exec cf (Xmit i j) w")
    case (Returns w')
    then have "i < bc_n cf" and d: "bw_done w' = bw_done w" by (auto split: if_splits prod.splits)
    moreover have "knows cf sp K0 w' = knows cf sp K0 w" using d by (simp add: knows_def fun_eq_iff)
    ultimately show ?thesis using inv3_xmit [OF inv cnt verified_post_ok [OF vf cnt] Returns] Returns Xmit by (simp del: bact_exec.simps)
  qed (auto simp: Xmit split: if_splits prod.splits)
next
  case (Deliver i j)
  show ?thesis
  proof (cases "i < bc_n cf \<and> j < bc_n cf")
    case True
    have d: "bw_done w' = bw_done w" if "bact_exec cf (Deliver i j) w = Returns w'" for w'
      using that by (auto split: if_splits list.splits prod.splits option.splits)
    have "knows cf sp K0 w' = knows cf sp K0 w" if "bact_exec cf (Deliver i j) w = Returns w'" for w'
      using d [OF that] by (simp add: knows_def fun_eq_iff)
    then show ?thesis using inv3_deliver [OF inv cnt verified_post_ok [OF vf cnt], of i j] True Deliver
      by (cases "bact_exec cf (Deliver i j) w") (simp_all del: bact_exec.simps)
  qed (auto simp: Deliver)
qed

lemma bstart_inv3:
  assumes "start_ok cf K0 m"
  shows "inv3 cf sp (knows cf sp K0 (bstart P m)) (bstart P m)"
proof -
  have nf: "\<not> flight cf (bstart P m) i j s k" for i j s k by (simp add: flight_def bstart_def)
  have K: "knows cf sp K0 (bstart P m) = K0" by (simp add: knows_def bstart_def fun_eq_iff)
  have "own_ok cf sp K0 (bstart P m)" using assms unfolding own_ok_def start_ok_def by (simp add: nf)
  moreover have "val_ok cf sp K0 (bstart P m)" using assms unfolding val_ok_def start_ok_def by (simp add: nf bstart_def)
  moreover have "net_ok cf sp (bstart P m)" by (simp add: net_ok_def bstart_def)
  ultimately show ?thesis by (simp add: inv3_def K)
qed

lemma brun_inv3:
  assumes vf: "verified cf sp K0 P" and so: "start_ok cf K0 m"
  shows "brun cf as w = Some w' \<Longrightarrow> inv3 cf sp (knows cf sp K0 w) w \<Longrightarrow> bcounts cf P w \<Longrightarrow> inv3 cf sp (knows cf sp K0 w') w'"
proof (induction as arbitrary: w)
  case (Cons a as)
  then obtain w1 where w1: "bact_exec cf a w = Returns w1" "brun cf as w1 = Some w'" by (auto split: wait.splits)
  have "inv3 cf sp (knows cf sp K0 w1) w1" using bact_inv [OF vf so Cons.prems(2,3), of a] w1(1) by simp
  from Cons.IH [OF w1(2) this bact_counts [OF Cons.prems(3) w1(1)]] show ?case .
qed simp

text \<open>
  The outcome of a run of verified programs: no action ever fails; a run that is not finished can be
  continued, and no run is longer than a bound, so every run can be continued to a finished one; and a process
  that has finished finds in its memory what the rules say.
\<close>

definition bound_safe :: "'a bconf \<Rightarrow> 'a bworld \<Rightarrow> bool" where
  "bound_safe cf w \<longleftrightarrow> (\<forall>a. case bact_exec cf a w of Returns _ \<Rightarrow> True | Blocks \<Rightarrow> True | _ \<Rightarrow> False)"

definition bound_live :: "'a bconf \<Rightarrow> 'a bworld \<Rightarrow> bool" where
  "bound_live cf w \<longleftrightarrow> bfinished cf w \<or> (\<exists>a w'. bact_exec cf a w = Returns w')"

lemma bound_verified:
  assumes vf: "verified cf sp K0 P" and so: "start_ok cf K0 m" and lv: "levels_ok cf A" and P: "\<And>r. P r = map snd (A r)"
    and run: "brun cf as (bstart P m) = Some w"
  shows "bound_safe cf w" "bound_live cf w" "length as \<le> bound_work cf P"
    "\<And>r q b x v. r < bc_n cf \<Longrightarrow> bw_todo w r = [] \<Longrightarrow> symK cf sp r [] (P r) (K0 r) (q, b, x) = Some (Some v) \<Longrightarrow> bw_mem w q b x = v"
proof -
  have cnt: "bcounts cf P w" by (rule brun_counts [OF bstart_counts run])
  have inv: "inv3 cf sp (knows cf sp K0 w) w" by (rule brun_inv3 [OF vf so run bstart_inv3 [OF so] bstart_counts])
  have safe: "case bact_exec cf a w of Returns _ \<Rightarrow> True | Blocks \<Rightarrow> True | _ \<Rightarrow> False" for a
    using bact_inv [OF vf so inv cnt, of a] by (cases "bact_exec cf a w") auto
  then show "bound_safe cf w" by (simp add: bound_safe_def)
  have "P = (\<lambda>r. map snd (A r))" using P by blast
  then have cntA: "bcounts cf (\<lambda>r. map snd (A r)) w" using cnt by simp
  show "bound_live cf w" unfolding bound_live_def
  proof (cases "bfinished cf w")
    case False
    from bprogress [OF lv cntA False] obtain a where "bact_exec cf a w \<noteq> Blocks" by blast
    then show "bfinished cf w \<or> (\<exists>a w'. bact_exec cf a w = Returns w')" using safe [of a] by (cases "bact_exec cf a w") auto
  qed simp
  show "length as \<le> bound_work cf P" by (rule brun_bound [OF run])
  fix r q b x v assume r: "r < bc_n cf" "bw_todo w r = []" and k: "symK cf sp r [] (P r) (K0 r) (q, b, x) = Some (Some v)"
  have "bw_done w r = P r" using cnt r(2) unfolding bcounts_def by (metis append_Nil2)
  then have "knows cf sp K0 w r (q, b, x) = Some (Some v)" using k by (simp add: knows_def)
  then show "bw_mem w q b x = v" using val_okD(1) [of cf sp "knows cf sp K0 w" w r q b x v] inv r(1) by (simp add: inv3_def)
qed

text \<open>The run can always be finished.\<close>

lemma bound_completes:
  assumes vf: "verified cf sp K0 P" and so: "start_ok cf K0 m" and lv: "levels_ok cf A" and P: "\<And>r. P r = map snd (A r)"
    and run: "brun cf as (bstart P m) = Some w"
  shows "\<exists>bs w'. brun cf bs w = Some w' \<and> bfinished cf w'"
  using run
proof (induction "bound_work cf P - length as" arbitrary: as w rule: less_induct)
  case less
  note v = bound_verified [OF vf so lv P less.prems]
  show ?case
  proof (cases "bfinished cf w")
    case False
    then obtain a w1 where a: "bact_exec cf a w = Returns w1" using v(2) by (auto simp: bound_live_def)
    have app: "brun cf (xs @ [a]) u = Some w1" if "brun cf xs u = Some w" for xs u
      using that a by (induction xs arbitrary: u) (auto split: wait.splits)
    note run1 = app [OF less.prems]
    have "length (as @ [a]) \<le> bound_work cf P" by (rule bound_verified(3) [OF vf so lv P run1])
    then obtain bs w' where "brun cf bs w1 = Some w'" "bfinished cf w'" using less.hyps [OF _ run1] by fastforce
    then show ?thesis using a by (intro exI [of _ "a # bs"] exI [of _ w']) simp
  qed (auto intro!: exI [of _ "[]"])
qed

end
