(* ===== verification/Gloo_Algorithm.thy ===== *)
theory Gloo_Algorithm
  imports Gloo_Ownership "HOL-Library.Word" "HOL-Library.Signed_Division"
begin

unbundle bit_operations_syntax

text \<open>
  The context of \<open>gloo/context.cc\<close>, the base class of \<open>gloo/algorithm.cc\<close>, and the collectives that are written as
  classes on bound buffers: \<open>barrier_all_to_all.h\<close>, \<open>barrier_all_to_one.h\<close>, \<open>broadcast_one_to_all.h\<close>,
  \<open>pairwise_exchange.h\<close>, \<open>allreduce_local.cc\<close>, \<open>allgather_ring.h\<close>, \<open>allreduce_ring.h\<close> and
  \<open>allreduce_ring_chunked.h\<close>. A constructor creates the buffers, which are handles for the peer, the slot and the
  memory; \<open>run\<close> is the sequence of commands that the process executes. Sizes count elements. The integers that
  are sent as notifications are never read; they are buffers of no elements.
\<close>

section \<open>The context\<close>

record gctx =
  cx_rank :: nat
  cx_size :: nat
  cx_base :: int
  cx_slot :: nat
  cx_timeout :: int
  cx_transport :: bool
  cx_pairs :: "nat \<Rightarrow> bool"

definition Context_new :: "int \<Rightarrow> int \<Rightarrow> int \<Rightarrow> gctx result" where
  "Context_new rank csize base =
     enforce (rank \<ge> 0) (enforce (rank < csize) (enforce (csize \<ge> 1)
       (Inr \<lparr>cx_rank = nat rank, cx_size = nat csize, cx_base = base, cx_slot = 0, cx_timeout = 30000,
             cx_transport = False, cx_pairs = (\<lambda>_. False)\<rparr>)))"

text \<open>Whether the pair exists; the vector of pairs has one entry per rank and checks its index.\<close>

definition getPair :: "gctx \<Rightarrow> int \<Rightarrow> bool result" where
  "getPair cx i = enforce (cx_transport cx) (if 0 \<le> i \<and> i < int (cx_size cx) then Inr (cx_pairs cx (nat i)) else Inl OutOfRange)"

text \<open>The slots of a context are numbered by an \<open>int\<close>.\<close>

definition nextSlot :: "int \<Rightarrow> gctx \<Rightarrow> (nat \<times> gctx) result" where
  "nextSlot numToSkip cx =
     enforce (numToSkip > 0)
       (if int (cx_slot cx) + numToSkip < 2 ^ 31
        then Inr (cx_slot cx, cx\<lparr>cx_slot := cx_slot cx + nat numToSkip\<rparr>) else Inl UndefinedBehavior)"

text \<open>The ranks whose pairs are closed, in order.\<close>

fun close_loop :: "gctx \<Rightarrow> nat list \<Rightarrow> nat list result" where
  "close_loop cx [] = Inr []"
| "close_loop cx (i # is) = rbind (getPair cx (int i)) (\<lambda>p. rbind (close_loop cx is) (\<lambda>cs. Inr (if p then i # cs else cs)))"

definition closeConnections :: "gctx \<Rightarrow> nat list result" where
  "closeConnections cx = close_loop cx [0..<cx_size cx]"

definition setTimeout :: "int \<Rightarrow> gctx \<Rightarrow> gctx result" where
  "setTimeout timeout cx = enforce (timeout \<ge> 0) (Inr (cx\<lparr>cx_timeout := timeout\<rparr>))"

section \<open>The base class\<close>

text \<open>The neighbours in a ring, whose pairs must exist.\<close>

definition getLeftPair :: "gctx \<Rightarrow> nat result" where
  "getLeftPair cx = (let rank = (cx_size cx + cx_rank cx - 1) mod cx_size cx in rbind (getPair cx (int rank)) (\<lambda>p. enforce p (Inr rank)))"

definition getRightPair :: "gctx \<Rightarrow> nat result" where
  "getRightPair cx = (let rank = (cx_rank cx + 1) mod cx_size cx in rbind (getPair cx (int rank)) (\<lambda>p. enforce p (Inr rank)))"

text \<open>A pair that is used without a check.\<close>

definition pair_ref :: "gctx \<Rightarrow> int \<Rightarrow> nat result" where
  "pair_ref cx i = rbind (getPair cx i) (\<lambda>p. if p then Inr (nat i) else Inl UndefinedBehavior)"

section \<open>Buffer handles\<close>

record bh =
  bh_peer :: nat
  bh_slot :: nat
  bh_buf :: bbuf
  bh_off :: nat
  bh_len :: nat

definition createBuffer :: "nat \<Rightarrow> nat \<Rightarrow> bbuf \<Rightarrow> nat \<Rightarrow> nat \<Rightarrow> bh" where
  "createBuffer peer slot buf off n = \<lparr>bh_peer = peer, bh_slot = slot, bh_buf = buf, bh_off = off, bh_len = n\<rparr>"

definition h_sendAt :: "bh \<Rightarrow> nat \<Rightarrow> nat \<Rightarrow> nat \<Rightarrow> bcmd" where
  "h_sendAt h offset n roffset =
     (if offset + n \<le> bh_len h then BSend (bh_peer h) (bh_slot h) (bh_buf h) (bh_off h + offset) n roffset else BFail EnforceNotMet)"

definition h_send :: "bh \<Rightarrow> bcmd" where
  "h_send h = h_sendAt h 0 (bh_len h) 0"

definition h_waitRecv :: "bh \<Rightarrow> bcmd" where
  "h_waitRecv h = BWaitRecv (bh_peer h) (bh_slot h)"

definition h_waitSend :: "bh \<Rightarrow> bcmd" where
  "h_waitSend h = BWaitSend (bh_peer h) (bh_slot h)"

lemmas h_defs = h_send_def h_sendAt_def h_waitRecv_def h_waitSend_def createBuffer_def

text \<open>The handle of a buffer that was never created is a null pointer.\<close>

definition on_h :: "(bh \<Rightarrow> bcmd) \<Rightarrow> bh option \<Rightarrow> bcmd" where
  "on_h f h = (case h of None \<Rightarrow> BFail UndefinedBehavior | Some h \<Rightarrow> f h)"

lemma on_h_simps [simp]: "on_h f None = BFail UndefinedBehavior" "on_h f (Some h) = f h"
  by (simp_all add: on_h_def)

section \<open>Barriers\<close>

record BarrierObj =
  ba_sendBuffers :: "bh list"
  ba_recvBuffers :: "bh list"

fun peer_buffers :: "gctx \<Rightarrow> nat \<Rightarrow> nat list \<Rightarrow> (bh \<times> bh) list result" where
  "peer_buffers cx slot [] = Inr []"
| "peer_buffers cx slot (i # is) =
     (if i = cx_rank cx then peer_buffers cx slot is
      else rbind (pair_ref cx (int i)) (\<lambda>p. rbind (peer_buffers cx slot is)
             (\<lambda>bs. Inr ((createBuffer p slot Dummy 0 0, createBuffer p slot Dummy 0 0) # bs))))"

definition BarrierAllToAll_new :: "gctx \<Rightarrow> (BarrierObj \<times> gctx) result" where
  "BarrierAllToAll_new cx =
     rbind (nextSlot 1 cx) (\<lambda>(slot, cx).
     rbind (peer_buffers cx slot [0..<cx_size cx]) (\<lambda>bs.
     Inr (\<lparr>ba_sendBuffers = map fst bs, ba_recvBuffers = map snd bs\<rparr>, cx)))"

definition BarrierAllToAll_run :: "BarrierObj \<Rightarrow> bprog" where
  "BarrierAllToAll_run ba = map h_send (ba_sendBuffers ba) @ map h_waitRecv (ba_recvBuffers ba)"

definition BarrierAllToOne_new :: "gctx \<Rightarrow> int \<Rightarrow> (BarrierObj \<times> gctx) result" where
  "BarrierAllToOne_new cx rootRank =
     rbind (nextSlot 1 cx) (\<lambda>(slot, cx).
     if int (cx_rank cx) = rootRank
     then rbind (peer_buffers cx slot [0..<cx_size cx]) (\<lambda>bs.
          Inr (\<lparr>ba_sendBuffers = map fst bs, ba_recvBuffers = map snd bs\<rparr>, cx))
     else rbind (pair_ref cx rootRank) (\<lambda>p.
          Inr (\<lparr>ba_sendBuffers = [createBuffer p slot Dummy 0 0], ba_recvBuffers = [createBuffer p slot Dummy 0 0]\<rparr>, cx)))"

definition BarrierAllToOne_run :: "gctx \<Rightarrow> int \<Rightarrow> BarrierObj \<Rightarrow> bprog" where
  "BarrierAllToOne_run cx rootRank ba =
     (if int (cx_rank cx) = rootRank
      then map h_waitRecv (ba_recvBuffers ba) @ map h_send (ba_sendBuffers ba)
      else [h_send (ba_sendBuffers ba ! 0), h_waitRecv (ba_recvBuffers ba ! 0)])"

section \<open>Local reduction and broadcast\<close>

definition local_reduce :: "nat \<Rightarrow> nat \<Rightarrow> bprog" where
  "local_reduce nptrs count = map (\<lambda>i. BReduce (Ptr 0) 0 (Ptr i) 0 count) [1..<nptrs]"

definition local_bcast :: "nat \<Rightarrow> nat \<Rightarrow> bprog" where
  "local_bcast nptrs count = map (\<lambda>i. BMemcpy (Ptr i) 0 (Ptr 0) 0 count) [1..<nptrs]"

definition AllreduceLocal_run :: "nat \<Rightarrow> nat \<Rightarrow> bprog" where
  "AllreduceLocal_run nptrs count = local_reduce nptrs count @ local_bcast nptrs count"

section \<open>Broadcast from one to all\<close>

record BroadcastObj =
  bo_nptrs :: nat
  bo_count :: nat
  bo_rootRank :: nat
  bo_rootPointerRank :: nat
  bo_sender :: "(bh \<times> bh) list"
  bo_receiver :: "(bh \<times> bh) option"

text \<open>The buffers for the clear-to-send notification and for the data, on both sides.\<close>

fun sender_buffers :: "gctx \<Rightarrow> nat \<Rightarrow> nat \<Rightarrow> nat \<Rightarrow> nat list \<Rightarrow> (bh \<times> bh) list result" where
  "sender_buffers cx slot ptr count [] = Inr []"
| "sender_buffers cx slot ptr count (i # is) =
     (if i = cx_rank cx then sender_buffers cx slot ptr count is
      else rbind (pair_ref cx (int i)) (\<lambda>p. rbind (sender_buffers cx slot ptr count is)
             (\<lambda>bs. Inr ((createBuffer p slot Dummy 0 0, createBuffer p slot (Ptr ptr) 0 count) # bs))))"

definition BroadcastOneToAll_new :: "gctx \<Rightarrow> nat \<Rightarrow> nat \<Rightarrow> int \<Rightarrow> int \<Rightarrow> (BroadcastObj \<times> gctx) result" where
  "BroadcastOneToAll_new cx nptrs count rootRank rootPointerRank =
     enforce (rootRank \<ge> 0) (enforce (rootRank < int (cx_size cx)) (enforce (rootPointerRank \<ge> 0) (enforce (rootPointerRank < int nptrs)
       (let b = \<lparr>bo_nptrs = nptrs, bo_count = count, bo_rootRank = nat rootRank, bo_rootPointerRank = nat rootPointerRank, bo_sender = [], bo_receiver = None\<rparr>
        in if cx_size cx > 1
           then rbind (nextSlot 1 cx) (\<lambda>(slot, cx).
                if int (cx_rank cx) = rootRank
                then rbind (sender_buffers cx slot (nat rootPointerRank) count [0..<cx_size cx]) (\<lambda>bs. Inr (b\<lparr>bo_sender := bs\<rparr>, cx))
                else rbind (pair_ref cx rootRank) (\<lambda>p.
                     Inr (b\<lparr>bo_receiver := Some (createBuffer p slot Dummy 0 0, createBuffer p slot (Ptr (nat rootPointerRank)) 0 count)\<rparr>, cx)))
           else Inr (b, cx)))))"

definition broadcastLocally :: "BroadcastObj \<Rightarrow> bprog" where
  "broadcastLocally b =
     map (\<lambda>i. BMemcpy (Ptr i) 0 (Ptr (bo_rootPointerRank b)) 0 (bo_count b)) (filter (\<lambda>i. i \<noteq> bo_rootPointerRank b) [0..<bo_nptrs b])"

definition BroadcastOneToAll_run :: "gctx \<Rightarrow> BroadcastObj \<Rightarrow> bprog" where
  "BroadcastOneToAll_run cx b =
     (if cx_size cx = 1 then broadcastLocally b
      else if cx_rank cx = bo_rootRank b
      then concat (map (\<lambda>(cts, dat). [h_waitRecv cts, h_send dat]) (bo_sender b)) @ broadcastLocally b @
           map (\<lambda>(cts, dat). h_waitSend dat) (bo_sender b)
      else [on_h h_send (map_option fst (bo_receiver b)), on_h h_waitRecv (map_option snd (bo_receiver b))] @ broadcastLocally b)"

section \<open>Pairwise exchange\<close>

record PairwiseObj =
  po_bytesPerMsg :: nat
  po_data :: "(bh \<times> bh) list"
  po_notif :: "(bh \<times> bh) list"

fun exchange_buffers :: "nat \<Rightarrow> nat list \<Rightarrow> gctx \<Rightarrow> (((bh \<times> bh) \<times> (bh \<times> bh)) list \<times> gctx) result" where
  "exchange_buffers n [] cx = Inr ([], cx)"
| "exchange_buffers n (i # is) cx =
     rbind (nextSlot 1 cx) (\<lambda>(slot, cx).
     rbind (pair_ref cx (int (cx_rank cx XOR 2 ^ i))) (\<lambda>p.
     rbind (nextSlot 1 cx) (\<lambda>(slot', cx).
     rbind (exchange_buffers n is cx) (\<lambda>(bs, cx).
     Inr (((createBuffer p slot Outbox (i * n) n, createBuffer p slot (Inbox 0) (i * n) n),
           (createBuffer p slot' Dummy 0 0, createBuffer p slot' Dummy 0 0)) # bs, cx)))))"

text \<open>The quotient is computed before its divisor is checked.\<close>

definition PairwiseExchange_new :: "gctx \<Rightarrow> int \<Rightarrow> int \<Rightarrow> (PairwiseObj \<times> gctx) result" where
  "PairwiseExchange_new cx numBytes numDestinations =
     (if numDestinations = 0 then Inl UndefinedBehavior
      else if numBytes < 0 then Inl RuntimeError
      else let bytesPerMsg = numBytes sdiv numDestinations
           in enforce (cx_size cx mod 2 = 0) (enforce (bytesPerMsg > 0) (enforce (numDestinations > 0)
              (enforce (2 ^ nat numDestinations \<le> cx_size cx)
                (rbind (exchange_buffers (nat bytesPerMsg) [0..<nat numDestinations] cx) (\<lambda>(bs, cx).
                 Inr (\<lparr>po_bytesPerMsg = nat bytesPerMsg, po_data = map fst bs, po_notif = map snd bs\<rparr>, cx)))))))"

definition PairwiseExchange_run :: "PairwiseObj \<Rightarrow> bprog" where
  "PairwiseExchange_run po =
     concat (map (\<lambda>(d, q). [h_send (fst d), h_waitRecv (snd d), h_send (fst q), h_waitRecv (snd q)]) (zip (po_data po) (po_notif po)))"

section \<open>Rings\<close>

record RingBufs =
  rb_sendData :: "bh option"
  rb_recvData :: "bh option"
  rb_sendNotification :: "bh option"
  rb_recvNotification :: "bh option"

definition no_bufs :: RingBufs where
  "no_bufs = \<lparr>rb_sendData = None, rb_recvData = None, rb_sendNotification = None, rb_recvNotification = None\<rparr>"

text \<open>
  The buffers of a ring: data goes to the right, from the memory \<open>sbuf\<close> to the memory \<open>rbuf\<close>, notifications to
  the left.
\<close>

definition ring_bufs :: "nat \<Rightarrow> nat \<Rightarrow> nat \<Rightarrow> nat \<Rightarrow> bbuf \<Rightarrow> bbuf \<Rightarrow> nat \<Rightarrow> RingBufs" where
  "ring_bufs left right slot slot' sbuf rbuf n =
     \<lparr>rb_sendData = Some (createBuffer right slot sbuf 0 n), rb_recvData = Some (createBuffer left slot rbuf 0 n),
      rb_sendNotification = Some (createBuffer left slot' Dummy 0 0), rb_recvNotification = Some (createBuffer right slot' Dummy 0 0)\<rparr>"

definition AllgatherRing_new :: "gctx \<Rightarrow> nat \<Rightarrow> nat \<Rightarrow> (RingBufs \<times> gctx) result" where
  "AllgatherRing_new cx nin count =
     rbind (getLeftPair cx) (\<lambda>left. rbind (getRightPair cx) (\<lambda>right.
     rbind (nextSlot 1 cx) (\<lambda>(slot, cx). rbind (nextSlot 1 cx) (\<lambda>(slot', cx).
     Inr (ring_bufs left right slot slot' OutPtr OutPtr (nin * cx_size cx * count), cx)))))"

text \<open>The rank whose data is sent in a round.\<close>

definition agr_inRank :: "nat \<Rightarrow> nat \<Rightarrow> nat \<Rightarrow> nat" where
  "agr_inRank csize rank round = (if round = 0 then rank else ((csize - 1) - (round - 1) + rank) mod csize)"

definition AllgatherRing_round :: "gctx \<Rightarrow> nat \<Rightarrow> nat \<Rightarrow> RingBufs \<Rightarrow> nat \<Rightarrow> nat \<Rightarrow> bprog" where
  "AllgatherRing_round cx nin count rb i round =
     (let sendOffset = agr_inRank (cx_size cx) (cx_rank cx) round * (count * nin) + i * count
      in [on_h (\<lambda>h. h_sendAt h sendOffset count sendOffset) (rb_sendData rb), on_h h_waitRecv (rb_recvData rb),
          on_h h_send (rb_sendNotification rb), on_h h_waitRecv (rb_recvNotification rb)])"

definition AllgatherRing_run :: "gctx \<Rightarrow> nat \<Rightarrow> nat \<Rightarrow> RingBufs \<Rightarrow> bprog" where
  "AllgatherRing_run cx nin count rb =
     (if cx_size cx = 1 \<or> count = 0 then []
      else map (\<lambda>i. BMemcpy OutPtr (cx_rank cx * (count * nin) + i * count) (InPtr i) 0 count) [0..<nin] @
           concat (map (\<lambda>i. concat (map (AllgatherRing_round cx nin count rb i) [0..<cx_size cx - 1])) [0..<nin]))"

definition AllreduceRing_new :: "gctx \<Rightarrow> nat \<Rightarrow> (RingBufs \<times> gctx) result" where
  "AllreduceRing_new cx count =
     (if cx_size cx = 1 then Inr (no_bufs, cx)
      else rbind (getLeftPair cx) (\<lambda>left. rbind (getRightPair cx) (\<lambda>right.
           rbind (nextSlot 1 cx) (\<lambda>(slot, cx). rbind (nextSlot 1 cx) (\<lambda>(slot', cx).
           Inr (ring_bufs left right slot slot' Outbox (Inbox 0) count, cx))))))"

definition AllreduceRing_round :: "gctx \<Rightarrow> nat \<Rightarrow> RingBufs \<Rightarrow> nat \<Rightarrow> bprog" where
  "AllreduceRing_round cx count rb round =
     [on_h h_send (rb_sendData rb), on_h h_waitRecv (rb_recvData rb), BReduce (Ptr 0) 0 (Inbox 0) 0 count, on_h h_waitSend (rb_sendData rb)] @
     (if int round < int (cx_size cx) - 1 - 1 then [BMemcpy Outbox 0 (Inbox 0) 0 count] else []) @
     [on_h h_send (rb_sendNotification rb), on_h h_waitRecv (rb_recvNotification rb)]"

definition AllreduceRing_run :: "gctx \<Rightarrow> nat \<Rightarrow> nat \<Rightarrow> RingBufs \<Rightarrow> bprog" where
  "AllreduceRing_run cx nptrs count rb =
     (if count = 0 then []
      else local_reduce nptrs count @ [BMemcpy Outbox 0 (Ptr 0) 0 count] @
           concat (map (AllreduceRing_round cx count rb) [0..<cx_size cx - 1]) @ local_bcast nptrs count)"

section \<open>The chunked ring\<close>

text \<open>
  The vector is cut into two chunks per process. Two receive buffers are used in turn. A buffer is registered with
  the size of a chunk, while its memory has the size of the vector.
\<close>

record ChunkedObj =
  ch_count :: nat
  ch_chunks :: nat
  ch_chunkSize :: nat
  ch_sendData :: "bh list"
  ch_recvData :: "bh list"
  ch_sendNotification :: "bh option"
  ch_recvNotification :: "bh option"

definition AllreduceRingChunked_new :: "gctx \<Rightarrow> nat \<Rightarrow> (ChunkedObj \<times> gctx) result" where
  "AllreduceRingChunked_new cx count =
     (let chunks = cx_size cx * 2;
          chunkSize = max 256 ((count + chunks - 1) div chunks);
          ob = \<lparr>ch_count = count, ch_chunks = chunks, ch_chunkSize = chunkSize, ch_sendData = [], ch_recvData = [],
                ch_sendNotification = None, ch_recvNotification = None\<rparr>
      in if count = 0 \<or> cx_size cx = 1 then Inr (ob, cx)
         else rbind (getLeftPair cx) (\<lambda>left. rbind (getRightPair cx) (\<lambda>right.
              rbind (nextSlot 1 cx) (\<lambda>(s0, cx). rbind (nextSlot 1 cx) (\<lambda>(s1, cx). rbind (nextSlot 1 cx) (\<lambda>(s2, cx).
              Inr (ob\<lparr>ch_sendData := [createBuffer right s0 (Ptr 0) 0 count, createBuffer right s1 (Ptr 0) 0 count],
                      ch_recvData := [createBuffer left s0 (Inbox 0) 0 chunkSize, createBuffer left s1 (Inbox 1) 0 chunkSize],
                      ch_sendNotification := Some (createBuffer left s2 Dummy 0 0),
                      ch_recvNotification := Some (createBuffer right s2 Dummy 0 0)\<rparr>, cx)))))))"

text \<open>The chunk of a round. In the source the difference wraps around and the sum brings it back.\<close>

definition chunkOffset :: "nat \<Rightarrow> nat \<Rightarrow> nat \<Rightarrow> nat" where
  "chunkOffset chunks rank round = (2 * rank + chunks + round mod 2 - 2 * (round div 2)) mod chunks"

definition chunk_length :: "ChunkedObj \<Rightarrow> nat \<Rightarrow> nat" where
  "chunk_length ch offset =
     (if offset + ch_chunkSize ch \<le> ch_count ch then ch_chunkSize ch else if offset < ch_count ch then ch_count ch - offset else 0)"

text \<open>For a chunk out of range one element is sent nevertheless.\<close>

definition copyChunkAtOffset :: "ChunkedObj \<Rightarrow> nat \<Rightarrow> bcmd" where
  "copyChunkAtOffset ch co =
     (let offset = (co mod ch_chunks ch) * ch_chunkSize ch
      in if offset < ch_count ch then h_sendAt (ch_sendData ch ! (co mod 2)) offset (chunk_length ch offset) 0
         else h_sendAt (ch_sendData ch ! (co mod 2)) 0 1 0)"

definition chunked_notify :: "ChunkedObj \<Rightarrow> bprog" where
  "chunked_notify ch = [on_h h_send (ch_sendNotification ch), on_h h_waitRecv (ch_recvNotification ch)]"

definition chunked_reduce_round :: "gctx \<Rightarrow> ChunkedObj \<Rightarrow> nat \<Rightarrow> bprog" where
  "chunked_reduce_round cx ch round =
     (let co = chunkOffset (ch_chunks ch) (cx_rank cx) round; offset = co * ch_chunkSize ch; len = chunk_length ch offset
      in [h_waitRecv (ch_recvData ch ! (co mod 2))] @ (if len > 0 then [BReduce (Ptr 0) offset (Inbox (co mod 2)) 0 len] else []) @
         chunked_notify ch @ [copyChunkAtOffset ch co])"

definition chunked_copy_round :: "gctx \<Rightarrow> ChunkedObj \<Rightarrow> nat \<Rightarrow> bprog" where
  "chunked_copy_round cx ch round =
     (let co = chunkOffset (ch_chunks ch) (cx_rank cx) round; offset = co * ch_chunkSize ch; len = chunk_length ch offset
      in [h_waitRecv (ch_recvData ch ! (co mod 2))] @ (if len > 0 then [BMemcpy (Ptr 0) offset (Inbox (co mod 2)) 0 len] else []) @
         (if round < ch_chunks ch - 4 then chunked_notify ch @ [copyChunkAtOffset ch co] else []))"

definition AllreduceRingChunked_run :: "gctx \<Rightarrow> nat \<Rightarrow> ChunkedObj \<Rightarrow> bprog" where
  "AllreduceRingChunked_run cx nptrs ch =
     (if ch_count ch = 0 then []
      else if cx_size cx = 1 then local_reduce nptrs (ch_count ch) @ local_bcast nptrs (ch_count ch)
      else local_reduce nptrs (ch_count ch) @ [copyChunkAtOffset ch (2 * cx_rank cx), copyChunkAtOffset ch (2 * cx_rank cx + 1)] @
           concat (map (chunked_reduce_round cx ch) [2..<ch_chunks ch]) @ concat (map (chunked_copy_round cx ch) [0..<ch_chunks ch - 2]) @
           chunked_notify ch @ local_bcast nptrs (ch_count ch))"

definition ch_recvs :: "ChunkedObj \<Rightarrow> bh list" where
  "ch_recvs ch = ch_recvData ch @ (case ch_recvNotification ch of None \<Rightarrow> [] | Some h \<Rightarrow> [h])"

section \<open>A run of all processes\<close>

text \<open>
  The contexts after the connection of a full mesh (\<open>Gloo_Mesh\<close>): there is a pair for every other rank. All
  processes have made the same calls of \<open>nextSlot\<close>.
\<close>

definition mesh_ctx :: "nat \<Rightarrow> nat \<Rightarrow> nat \<Rightarrow> gctx" where
  "mesh_ctx csize slot rank = \<lparr>cx_rank = rank, cx_size = csize, cx_base = 2, cx_slot = slot, cx_timeout = 30000,
     cx_transport = True, cx_pairs = (\<lambda>i. i < csize \<and> i \<noteq> rank)\<rparr>"

text \<open>The receive buffers that a process has registered, by peer and slot.\<close>

definition reg_of :: "bh list \<Rightarrow> nat \<Rightarrow> nat \<Rightarrow> (bbuf \<times> nat \<times> nat) option" where
  "reg_of hs i s = map_option (\<lambda>h. (bh_buf h, bh_off h, bh_len h)) (find (\<lambda>h. bh_peer h = i \<and> bh_slot h = s) hs)"

lemma reg_of_simps [simp]:
  "reg_of [] i s = None"
  "reg_of (h # hs) i s = (if bh_peer h = i \<and> bh_slot h = s then Some (bh_buf h, bh_off h, bh_len h) else reg_of hs i s)"
  by (simp_all add: reg_of_def)

definition rb_recvs :: "RingBufs \<Rightarrow> bh list" where
  "rb_recvs rb = (case rb_recvData rb of None \<Rightarrow> [] | Some h \<Rightarrow> [h]) @ (case rb_recvNotification rb of None \<Rightarrow> [] | Some h \<Rightarrow> [h])"

definition alg_conf :: "nat \<Rightarrow> (bbuf \<Rightarrow> nat) \<Rightarrow> (nat \<Rightarrow> bh list) \<Rightarrow> ('a list \<Rightarrow> 'a list \<Rightarrow> 'a list) \<Rightarrow> 'a bconf" where
  "alg_conf csize bsize rcv fn = \<lparr>bc_n = csize, bc_size = (\<lambda>_. bsize), bc_reg = (\<lambda>j. reg_of (rcv j)), bc_fn = fn\<rparr>"

text \<open>A process that constructs an object, or fails to, and runs it \<open>k\<close> times.\<close>

definition ctor_prog :: "('o \<times> gctx) result \<Rightarrow> ('o \<Rightarrow> bprog) \<Rightarrow> nat \<Rightarrow> bprog" where
  "ctor_prog ctor run k = (case ctor of Inl e \<Rightarrow> [BFail e] | Inr (ob, _) \<Rightarrow> concat (replicate k (run ob)))"

definition ctor_recvs :: "('o \<times> gctx) result \<Rightarrow> ('o \<Rightarrow> bh list) \<Rightarrow> bh list" where
  "ctor_recvs ctor f = (case ctor of Inl e \<Rightarrow> [] | Inr (ob, _) \<Rightarrow> f ob)"

lemma ctor_simps [simp]:
  "ctor_prog (Inr (ob, cx)) run k = concat (replicate k (run ob))" "ctor_prog (Inl e) run k = [BFail e]"
  "ctor_recvs (Inr (ob, cx)) f = f ob" "ctor_recvs (Inl e) f = []"
  by (simp_all add: ctor_prog_def ctor_recvs_def)

lemma alg_conf_simps [simp]:
  "bc_n (alg_conf n sz rc fn) = n" "bc_size (alg_conf n sz rc fn) r = sz" "bc_reg (alg_conf n sz rc fn) j = reg_of (rc j)" "bc_fn (alg_conf n sz rc fn) = fn"
  by (simp_all add: alg_conf_def)

lemma mesh_ctx_simps [simp]:
  "cx_rank (mesh_ctx n slot r) = r" "cx_size (mesh_ctx n slot r) = n"
  "getPair (mesh_ctx n slot r) i = (if 0 \<le> i \<and> i < int n then Inr (nat i \<noteq> r) else Inl OutOfRange)"
  "nextSlot 1 (mesh_ctx n slot r) = (if Suc slot < 2 ^ 31 then Inr (slot, mesh_ctx n (Suc slot) r) else Inl UndefinedBehavior)"
  by (auto simp: mesh_ctx_def getPair_def nextSlot_def)

section \<open>Rules for programs\<close>

text \<open>The conditions on the levels, command by command.\<close>

fun lv_all :: "'a bconf \<Rightarrow> (nat \<Rightarrow> lprog) \<Rightarrow> nat \<Rightarrow> lprog \<Rightarrow> lprog \<Rightarrow> bool" where
  "lv_all cf A r p [] = True"
| "lv_all cf A r p (x # xs) \<longleftrightarrow> wait_ok cf A r p (fst x) (snd x) \<and> lv_all cf A r (p @ [x]) xs"

lemma lv_all_append: "lv_all cf A r p (a @ b) \<longleftrightarrow> lv_all cf A r p a \<and> lv_all cf A r (p @ a) b"
  by (induction a arbitrary: p) simp_all

lemma levels_okI:
  assumes "\<And>r. r < bc_n cf \<Longrightarrow> sorted (map fst (A r))" "\<And>r. r < bc_n cf \<Longrightarrow> lv_all cf A r [] (A r)"
  shows "levels_ok cf A"
  unfolding levels_ok_def
proof (intro allI impI conjI)
  fix r p l c q assume r: "r < bc_n cf" and A: "A r = p @ (l, c) # q"
  show "wait_ok cf A r p l c" using assms(2) [OF r] unfolding A lv_all_append by simp
qed (rule assms(1))

lemma lv_rounds:
  assumes "\<And>k. k < N \<Longrightarrow> lv_all cf A r (p @ concat (map f [0..<k])) (f k)"
  shows "lv_all cf A r p (concat (map f [0..<N]))"
  using assms by (induction N) (auto simp: lv_all_append)

lemma lv_waits:
  assumes "distinct is" "\<And>i. i \<in> set is \<Longrightarrow> i < bc_n cf \<and> waitsR i s (map snd p) < on_slot s (posts r (map snd (filter (\<lambda>x. fst x < l) (A i))))"
  shows "lv_all cf A r p (map (\<lambda>i. (l, BWaitRecv i s)) is)"
  using assms
proof (induction "is" arbitrary: p)
  case (Cons i xs)
  have "lv_all cf A r (p @ [(l, BWaitRecv i s)]) (map (\<lambda>i. (l, BWaitRecv i s)) xs)"
    using Cons.prems by (intro Cons.IH) auto
  then show ?case using Cons.prems(2) [of i] by (simp add: wait_ok_def)
qed simp

lemma lv_simple:
  assumes "\<And>x. x \<in> set xs \<Longrightarrow> (case snd x of BWaitRecv i s \<Rightarrow> False | BWaitSend i s \<Rightarrow> False | BSend j s b off n roff \<Rightarrow> j < bc_n cf \<and> bc_reg cf j r s \<noteq> None | _ \<Rightarrow> True)"
  shows "lv_all cf A r p xs"
  using assms
proof (induction xs arbitrary: p)
  case (Cons x xs)
  have "wait_ok cf A r p (fst x) (snd x)" using Cons.prems [of x] by (cases "snd x") (simp_all add: wait_ok_def)
  then show ?case using Cons by simp
qed simp

lemma sorted_const [simp]: "sorted (map (\<lambda>x. c) xs)"
  by (induction xs) auto

lemma sorted_rounds:
  assumes "\<And>k x. k < N \<Longrightarrow> x \<in> set (f k) \<Longrightarrow> c * k \<le> x \<and> x < c * Suc k" "\<And>k. k < N \<Longrightarrow> sorted (f k)"
  shows "sorted (concat (map f [0..<N]))"
  using assms
proof (induction N)
  case (Suc N)
  have "x \<le> y" if "k < N" "x \<in> set (f k)" "y \<in> set (f N)" for k x y
  proof -
    have "x < c * Suc k" "c * N \<le> y" using Suc.prems(1) [of k x] Suc.prems(1) [of N y] that by simp_all
    moreover have "c * Suc k \<le> c * N" using that(1) by (intro mult_le_mono2) simp
    ultimately show ?thesis by linarith
  qed
  then show ?case using Suc by (auto simp: sorted_append)
qed simp

text \<open>Counting the messages and waits of rounds.\<close>

lemma count_rounds:
  "on_slot s (posts j (map snd (filter Q (concat (map f xs))))) = sum_list (map (\<lambda>x. on_slot s (posts j (map snd (filter Q (f x))))) xs)"
  "on_slot s (posts j (concat (map g xs))) = sum_list (map (\<lambda>x. on_slot s (posts j (g x))) xs)"
  "waitsR i s (concat (map g xs)) = sum_list (map (\<lambda>x. waitsR i s (g x)) xs)"
  "waitsS i s (concat (map g xs)) = sum_list (map (\<lambda>x. waitsS i s (g x)) xs)"
  by (induction xs) simp_all

lemma sum_list_upto: "sum_list (map (\<lambda>x. if x \<le> k then 1 else 0) [0..<N]) = min N (Suc k)"
  by (induction N) (auto simp: min_def)

lemma sum_list_count: "sum_list (map (\<lambda>x. c) [0..<N]) = N * (c :: nat)"
  by (simp add: sum_list_triv)

text \<open>An invariant for the rounds of a program.\<close>

lemma sym_rounds:
  assumes "\<And>k p K. k < N \<Longrightarrow> I k p K \<Longrightarrow> sym_all cf sp r p (f k) K \<and> I (Suc k) (p @ f k) (symK cf sp r p (f k) K)"
    and "I 0 p K"
  shows "sym_all cf sp r p (concat (map f [0..<N])) K \<and> I N (p @ concat (map f [0..<N])) (symK cf sp r p (concat (map f [0..<N])) K)"
  using assms
proof (induction N)
  case (Suc N)
  let ?c = "concat (map f [0..<N])"
  have IH: "sym_all cf sp r p ?c K" "I N (p @ ?c) (symK cf sp r p ?c K)" using Suc by simp_all
  from Suc.prems(1) [OF lessI IH(2)] IH(1) show ?case by (simp add: sym_all_append symK_append)
qed simp

section \<open>Bounds\<close>

text \<open>Commands that stay inside their buffers on both sides, whatever has happened before.\<close>

definition static_ok :: "'a bconf \<Rightarrow> nat \<Rightarrow> bcmd \<Rightarrow> bool" where
  "static_ok cf r c \<longleftrightarrow>
     (case c of
        BSend j s b off n roff \<Rightarrow> in_buf cf r b off n \<and>
          (case bc_reg cf j r s of None \<Rightarrow> False | Some (d, base, sz) \<Rightarrow> roff + n \<le> sz \<and> in_buf cf j d (base + roff) n)
      | BMemcpy d doff b soff n \<Rightarrow> in_buf cf r d doff n \<and> in_buf cf r b soff n
      | BReduce d doff b soff n \<Rightarrow> in_buf cf r d doff n \<and> in_buf cf r b soff n
      | BFail e \<Rightarrow> False
      | _ \<Rightarrow> True)"

lemma static_safe:
  assumes ok: "\<And>r c. r < bc_n cf \<Longrightarrow> c \<in> set (P r) \<Longrightarrow> static_ok cf r c" and cnt: "bcounts cf P w"
  shows "bound_safe cf w"
  unfolding bound_safe_def
proof
  fix a
  have P: "set (bw_done w r) \<subseteq> set (P r)" "set (bw_todo w r) \<subseteq> set (P r)" for r
    using cnt unfolding bcounts_def by (metis Un_upper1 Un_upper2 set_append)+
  show "case bact_exec cf a w of Returns _ \<Rightarrow> True | Blocks \<Rightarrow> True | _ \<Rightarrow> False"
  proof (cases a)
    case (Run r)
    show ?thesis
    proof (cases "r < bc_n cf \<and> bw_todo w r \<noteq> []")
      case True
      then obtain c q where t: "bw_todo w r = c # q" and r: "r < bc_n cf" by (cases "bw_todo w r") auto
      then have "static_ok cf r c" using ok [OF r] P(2) [of r] by auto
      then show ?thesis using t r by (cases c) (simp_all add: Run bexec_def static_ok_def Let_def)
    qed (auto simp: Run)
  next
    case (Xmit i j)
    then show ?thesis by (auto split: prod.splits)
  next
    case (Deliver i j)
    show ?thesis
    proof (cases "i < bc_n cf \<and> j < bc_n cf \<and> bw_wire w i j \<noteq> []")
      case True
      then obtain xs rest where w: "bw_wire w i j = xs # rest" and ij: "i < bc_n cf" "j < bc_n cf" by (cases "bw_wire w i j") auto
      have "bw_recvd w i j \<le> bw_sent w i j" "bw_sent w i j \<le> length (posts j (bw_done w i))" "length (bw_wire w i j) = bw_sent w i j - bw_recvd w i j"
        using cnt by (simp_all add: bcounts_def)
      then have q: "bw_recvd w i j < length (posts j (bw_done w i))" using w by simp
      obtain s b off n roff where po: "posts j (bw_done w i) ! bw_recvd w i j = (s, b, off, n, roff)" by (metis prod_cases5)
      from posts_in [OF this q] have "static_ok cf i (BSend j s b off n roff)" using ok [OF ij(1)] P(1) [of i] by blast
      then show ?thesis using ij w po by (auto simp: Deliver static_ok_def split: option.splits)
    qed (auto simp: Deliver split: list.splits)
  qed
qed

lemma bound_static:
  assumes ok: "\<And>r c. r < bc_n cf \<Longrightarrow> c \<in> set (P r) \<Longrightarrow> static_ok cf r c" and lv: "levels_ok cf A" and P: "\<And>r. P r = map snd (A r)"
    and run: "brun cf as (bstart P m) = Some w"
  shows "bound_safe cf w \<and> bound_live cf w \<and> length as \<le> bound_work cf P"
proof -
  have cnt: "bcounts cf P w" by (rule brun_counts [OF bstart_counts run])
  have safe: "bound_safe cf w" by (rule static_safe [OF ok cnt])
  have "P = (\<lambda>r. map snd (A r))" using P by blast
  then have cntA: "bcounts cf (\<lambda>r. map snd (A r)) w" using cnt by simp
  have "bound_live cf w" unfolding bound_live_def
  proof (cases "bfinished cf w")
    case False
    from bprogress [OF lv cntA False] obtain a where "bact_exec cf a w \<noteq> Blocks" by blast
    moreover have "case bact_exec cf a w of Returns _ \<Rightarrow> True | Blocks \<Rightarrow> True | _ \<Rightarrow> False" using safe by (simp add: bound_safe_def)
    ultimately show "bfinished cf w \<or> (\<exists>a w'. bact_exec cf a w = Returns w')" by (cases "bact_exec cf a w") auto
  qed simp
  then show ?thesis using safe brun_bound [OF run] by blast
qed

section \<open>Knowledge about regions\<close>

lemma length_rd [simp]: "length (rd f off n) = n"
  by (simp add: rd_def)

lemma known_kwr_same: "xs = ys \<Longrightarrow> known (kwr r b off xs K) r b off ys"
  using kwr_known by blast

lemma known_kwr_other: "known K r b off xs \<Longrightarrow> (r, b) \<noteq> (r', b') \<Longrightarrow> known (kwr r' b' off' ys K) r b off xs"
  by (auto simp: known_def kwr_def)

lemma known_kwr_disj:
  assumes "known K r b off xs" "region r b off (length xs) \<inter> region r' b' off' (length ys) = {}"
  shows "known (kwr r' b' off' ys K) r b off xs"
  using assms(1)
proof (rule known_mono)
  fix x assume "off \<le> x" "x < off + length xs"
  then have "(r, b, x) \<notin> region r' b' off' (length ys)" using assms(2) by (auto simp: disjoint_iff)
  then show "kwr r' b' off' ys K (r, b, x) = K (r, b, x)" by (auto simp: kwr_def)
qed

lemma known_drop: "known K r b off xs \<Longrightarrow> region r b off (length xs) \<inter> M = {} \<Longrightarrow> known (\<lambda>l. if l \<in> M then c else K l) r b off xs"
  by (rule known_mono) (auto simp: disjoint_iff)

lemma subset_dom_if: "A \<subseteq> dom K \<Longrightarrow> A \<inter> M = {} \<Longrightarrow> A \<subseteq> dom (\<lambda>l. if l \<in> M then None else K l)"
  by (auto simp: dom_def disjoint_iff subset_iff)

lemma subset_dom_give: "A \<subseteq> dom K \<union> M \<Longrightarrow> A \<subseteq> dom (\<lambda>l. if l \<in> M then Some c else K l)"
  by (auto simp: dom_def subset_iff)

lemma region_disjoint: "(r, b) \<noteq> (r', b') \<Longrightarrow> region r b off n \<inter> region r' b' off' n' = {}"
  by (auto simp: region_def)

lemma known_sub: "known K r b off xs \<Longrightarrow> length xs = n \<Longrightarrow> region r b off n \<subseteq> dom K"
  using readable_dom [OF known_readable] by blast

lemma known_rd: "known K r b off xs \<Longrightarrow> length xs = n \<Longrightarrow> readable K r b off n"
  using known_readable by blast

lemma krd_len: "known K r b off xs \<Longrightarrow> length xs = n \<Longrightarrow> krd K r b off n = xs"
  using krd_known by blast

lemma frozenE:
  assumes "l \<in> frozen sp r p"
  obtains j s k where "waitsS j s p \<le> k" "k < on_slot s (posts j p)" "l \<in> src_locs sp r j s k"
  using assms unfolding frozen_def by blast

section \<open>Checking local reductions and broadcasts\<close>

lemma frozen_local [simp]: "frozen sp r (p @ [BMemcpy d doff b off len]) = frozen sp r p" "frozen sp r (p @ [BReduce d doff b off len]) = frozen sp r p"
  by (simp_all add: frozen_def)

lemma local_cnt [simp]:
  "posts j (local_reduce nptrs ct) = []" "waitsR j s (local_reduce nptrs ct) = 0" "waitsS j s (local_reduce nptrs ct) = 0"
  "posts j (local_bcast nptrs ct) = []" "waitsR j s (local_bcast nptrs ct) = 0" "waitsS j s (local_bcast nptrs ct) = 0"
proof -
  have "posts j (map (\<lambda>i. BReduce (Ptr 0) 0 (Ptr i) 0 ct) xs) = [] \<and> waitsR j s (map (\<lambda>i. BReduce (Ptr 0) 0 (Ptr i) 0 ct) xs) = 0 \<and>
    waitsS j s (map (\<lambda>i. BReduce (Ptr 0) 0 (Ptr i) 0 ct) xs) = 0" for xs by (induction xs) simp_all
  then show "posts j (local_reduce nptrs ct) = []" "waitsR j s (local_reduce nptrs ct) = 0" "waitsS j s (local_reduce nptrs ct) = 0"
    by (simp_all add: local_reduce_def del: upt.simps)
  have "posts j (map (\<lambda>i. BMemcpy (Ptr i) 0 (Ptr 0) 0 ct) xs) = [] \<and> waitsR j s (map (\<lambda>i. BMemcpy (Ptr i) 0 (Ptr 0) 0 ct) xs) = 0 \<and>
    waitsS j s (map (\<lambda>i. BMemcpy (Ptr i) 0 (Ptr 0) 0 ct) xs) = 0" for xs by (induction xs) simp_all
  then show "posts j (local_bcast nptrs ct) = []" "waitsR j s (local_bcast nptrs ct) = 0" "waitsS j s (local_bcast nptrs ct) = 0"
    by (simp_all add: local_bcast_def del: upt.simps)
qed

lemma reduce_list_sym:
  assumes "\<And>i. i \<in> set is \<Longrightarrow> i \<noteq> 0 \<and> known K r (Ptr i) 0 (x i) \<and> length (x i) = ct" "known K r (Ptr 0) 0 a" "length a = ct" "frozen sp r p = {}"
    and fn: "\<And>xs ys. length xs = length ys \<Longrightarrow> length (bc_fn cf xs ys) = length xs"
  shows "sym_all cf sp r p (map (\<lambda>i. BReduce (Ptr 0) 0 (Ptr i) 0 ct) is) K \<and>
    known (symK cf sp r p (map (\<lambda>i. BReduce (Ptr 0) 0 (Ptr i) 0 ct) is) K) r (Ptr 0) 0 (foldl (\<lambda>acc i. bc_fn cf acc (x i)) a is) \<and>
    (\<forall>l. l \<notin> region r (Ptr 0) 0 ct \<longrightarrow> symK cf sp r p (map (\<lambda>i. BReduce (Ptr 0) 0 (Ptr i) 0 ct) is) K l = K l)"
  using assms(1-4)
proof (induction "is" arbitrary: p K a)
  case (Cons i xs)
  have i: "i \<noteq> 0" "known K r (Ptr i) 0 (x i)" "length (x i) = ct" using Cons.prems(1) [of i] by simp_all
  let ?a = "bc_fn cf a (x i)"
  define K' where "K' = kwr r (Ptr 0) 0 ?a K"
  have la: "length ?a = ct" using fn [of a "x i"] i Cons.prems(3) by simp
  have ok: "sym_ok cf sp r p (BReduce (Ptr 0) 0 (Ptr i) 0 ct) K"
    using known_rd [OF i(2,3)] known_rd [OF Cons.prems(2,3)] Cons.prems(4) by (simp add: sym_ok_def)
  have nx: "sym_next cf sp r p (BReduce (Ptr 0) 0 (Ptr i) 0 ct) K = K'"
    by (simp add: sym_next_def K'_def krd_len [OF i(2,3)] krd_len [OF Cons.prems(2,3)])
  have "\<And>j. j \<in> set xs \<Longrightarrow> j \<noteq> 0 \<and> known K' r (Ptr j) 0 (x j) \<and> length (x j) = ct"
    using Cons.prems(1) unfolding K'_def by (auto intro!: known_kwr_other)
  moreover have "known K' r (Ptr 0) 0 ?a" unfolding K'_def by (rule kwr_known)
  moreover have "K' l = K l" if "l \<notin> region r (Ptr 0) 0 ct" for l using that la by (cases l) (auto simp: K'_def kwr_def)
  ultimately show ?case using Cons.IH [of K' ?a "p @ [BReduce (Ptr 0) 0 (Ptr i) 0 ct]"] ok la Cons.prems(4) by (simp add: nx)
qed simp

lemma bcast_list_sym:
  assumes "\<And>i. i \<in> set is \<Longrightarrow> i \<noteq> q \<and> region r (Ptr i) 0 ct \<subseteq> dom K \<and> region r (Ptr i) 0 ct \<inter> frozen sp r p = {}" "known K r (Ptr q) 0 a" "length a = ct"
  shows "sym_all cf sp r p (map (\<lambda>i. BMemcpy (Ptr i) 0 (Ptr q) 0 ct) is) K \<and>
    (\<forall>i \<in> insert q (set is). known (symK cf sp r p (map (\<lambda>i. BMemcpy (Ptr i) 0 (Ptr q) 0 ct) is) K) r (Ptr i) 0 a)"
  using assms
proof (induction "is" arbitrary: p K rule: rev_induct)
  case (snoc i xs)
  let ?q = "map (\<lambda>i. BMemcpy (Ptr i) 0 (Ptr q) 0 ct) xs"
  let ?K = "symK cf sp r p ?q K"
  have IH: "sym_all cf sp r p ?q K" "\<forall>i \<in> insert q (set xs). known ?K r (Ptr i) 0 a" using snoc.IH [of K p] snoc.prems by simp_all
  have dm: "dom K \<subseteq> dom (symK cf sp r p (map (\<lambda>i. BMemcpy (Ptr i) 0 (Ptr q) 0 ct) ys) K)" for ys p K
  proof (induction ys arbitrary: p K)
    case (Cons y ys)
    have "dom K \<subseteq> dom (kwr r (Ptr y) 0 (krd K r (Ptr q) 0 ct) K)" by (simp add: dom_kwr)
    also note Cons.IH
    finally show ?case by (simp add: sym_next_def)
  qed simp
  have fz: "frozen sp r (p @ map (\<lambda>i. BMemcpy (Ptr i) 0 (Ptr q) 0 ct) ys) = frozen sp r p" for ys p
  proof (induction ys arbitrary: p)
    case (Cons y ys)
    show ?case using Cons.IH [of "p @ [BMemcpy (Ptr y) 0 (Ptr q) 0 ct]"] by simp
  qed simp
  have k0: "known ?K r (Ptr q) 0 a" using IH(2) by simp
  have i0: "i \<noteq> q \<and> region r (Ptr i) 0 ct \<subseteq> dom K \<and> region r (Ptr i) 0 ct \<inter> frozen sp r p = {}" by (rule snoc.prems(1)) simp
  then have i: "i \<noteq> q" "region r (Ptr i) 0 ct \<subseteq> dom ?K" "region r (Ptr i) 0 ct \<inter> frozen sp r p = {}"
    using order_trans [OF _ dm [of K p xs]] by blast+
  have "sym_ok cf sp r (p @ ?q) (BMemcpy (Ptr i) 0 (Ptr q) 0 ct) ?K"
    using known_rd [OF k0 snoc.prems(3)] i fz by (simp add: sym_ok_def)
  moreover have nx: "sym_next cf sp r (p @ ?q) (BMemcpy (Ptr i) 0 (Ptr q) 0 ct) ?K = kwr r (Ptr i) 0 a ?K"
    by (simp add: sym_next_def krd_len [OF k0 snoc.prems(3)])
  moreover have "known (kwr r (Ptr i) 0 a ?K) r (Ptr j) 0 a" if "j \<in> insert q (set (xs @ [i]))" for j
  proof (cases "j = i")
    case False
    then show ?thesis using IH(2) that by (intro known_kwr_other) auto
  qed (simp add: kwr_known)
  ultimately show ?case using IH(1) by (simp add: sym_all_append symK_append)
qed simp

section \<open>Programs that only exchange notifications\<close>

text \<open>No memory is touched; what remains are the counts of messages and waits.\<close>

definition no_spec :: "'a bspec" where
  "no_spec = \<lparr>sp_val = (\<lambda>_ _ _ _. []), sp_src = (\<lambda>_ _ _ _. (Dummy, 0)), sp_dst = (\<lambda>_ _ _ _. (Dummy, 0)), sp_gives = (\<lambda>_ _ _ _. {})\<rparr>"

definition notif_ok :: "'a bconf \<Rightarrow> nat \<Rightarrow> bcmd \<Rightarrow> bool" where
  "notif_ok cf r c \<longleftrightarrow> (case c of BSend j s b off n roff \<Rightarrow> j < bc_n cf \<and> n = 0 \<and> b = Dummy \<and> off = 0 \<and> roff = 0 \<and> bc_reg cf j r s = Some (Dummy, 0, 0)
     | BWaitRecv i s \<Rightarrow> i < bc_n cf | _ \<Rightarrow> False)"

lemma notif_verified:
  assumes "\<And>r c. r < bc_n cf \<Longrightarrow> c \<in> set (P r) \<Longrightarrow> notif_ok cf r c"
  shows "verified cf no_spec (\<lambda>_ _. None) P"
  unfolding verified_def
proof (intro allI impI)
  fix r assume r: "r < bc_n cf"
  have "sym_all cf no_spec r p q (\<lambda>_. None)" if "\<And>c. c \<in> set q \<Longrightarrow> notif_ok cf r c" for p q
    using that
  proof (induction q arbitrary: p)
    case (Cons c q)
    have n: "notif_ok cf r c" using Cons.prems by simp
    have "sym_ok cf no_spec r p c (\<lambda>_. None)"
      using n by (auto simp: notif_ok_def sym_ok_def no_spec_def moves_def dst_locs_def known_def region_def split: bcmd.splits)
    moreover have "sym_next cf no_spec r p c (\<lambda>_. None) = (\<lambda>_. None)"
      using n by (auto simp: notif_ok_def sym_next_def no_spec_def kwr_def split: bcmd.splits)
    ultimately show ?case using Cons by simp
  qed simp
  then show "sym_all cf no_spec r [] (P r) (\<lambda>_. None)" using assms [OF r] by blast
qed

lemma notif_start: "(\<And>xs ys. length xs = length ys \<Longrightarrow> length (bc_fn cf xs ys) = length xs) \<Longrightarrow> start_ok cf (\<lambda>_ _. None) m"
  by (simp add: start_ok_def)

lemma notif_counts:
  assumes "verified cf sp K0 P" "start_ok cf K0 m" "brun cf as (bstart P m) = Some w" "r < bc_n cf"
  shows "waitsR i s (bw_done w r) \<le> on_slot s (posts r (bw_done w i))"
proof -
  have "inv3 cf sp (knows cf sp K0 w) w" by (rule brun_inv3 [OF assms(1,2,3) bstart_inv3 [OF assms(2)] bstart_counts])
  then have "net_ok cf sp w" by (simp add: inv3_def)
  from net_okD(3) [OF this assms(4), of i s] show ?thesis
    using on_slot_take_le [of s "bw_recvd w i r" "posts r (bw_done w i)"] by linarith
qed

end
