(* ===== verification/Gloo_Alg_Barriers.thy ===== *)
theory Gloo_Alg_Barriers
  imports Gloo_Algorithm
begin

text \<open>
  The barriers on bound buffers. They are run any number of times, by all processes at their own speed. The
  theorems say that no process leaves a barrier before all have entered it, and that all get through.
\<close>

section \<open>Programs that are run repeatedly\<close>

definition peers :: "nat \<Rightarrow> nat \<Rightarrow> nat list" where
  "peers n r = filter (\<lambda>i. i \<noteq> r) [0..<n]"

lemma peers_simps [simp]: "set (peers n r) = {i. i < n \<and> i \<noteq> r}" "distinct (peers n r)"
  by (auto simp: peers_def)

text \<open>
  The number of runs that a process has left and that it has entered, by the number of commands it has
  executed.
\<close>

definition runs_left :: "'a bworld \<Rightarrow> nat \<Rightarrow> bprog \<Rightarrow> nat" where
  "runs_left w r b = length (bw_done w r) div length b"

definition runs_entered :: "'a bworld \<Rightarrow> nat \<Rightarrow> bprog \<Rightarrow> nat" where
  "runs_entered w r b = (length (bw_done w r) + length b - 1) div length b"

lemma prefix_reps: "p @ q = concat (replicate k b) \<Longrightarrow> \<exists>m c d. p = concat (replicate m b) @ c \<and> b = c @ d"
proof (induction k arbitrary: p)
  case (Suc k)
  then have "p @ q = b @ concat (replicate k b)" by simp
  then consider us where "p = b @ us" "us @ q = concat (replicate k b)" | us where "b = p @ us"
    by (auto simp: append_eq_append_conv2)
  then show ?case
  proof cases
    case 1
    from Suc.IH [OF 1(2)] obtain m c d where "us = concat (replicate m b) @ c" "b = c @ d" by blast
    then show ?thesis using 1(1) by (intro exI [of _ "Suc m"] exI [of _ c] exI [of _ d]) simp
  next
    case 2
    then show ?thesis by (intro exI [of _ 0] exI [of _ p] exI [of _ us]) simp
  qed
qed (auto intro: exI [of _ 0])

lemma length_reps: "length (concat (replicate m b)) = m * length b"
  by (induction m) simp_all

lemma additive_reps:
  fixes f :: "bprog \<Rightarrow> nat"
  assumes "\<And>a b. f (a @ b) = f a + f b"
  shows "f (concat (replicate m b)) = m * f b"
proof -
  have "f [] = 0" using assms [of "[]" "[]"] by simp
  then show ?thesis by (induction m) (simp_all add: assms)
qed

lemma reps_lower:
  fixes f :: "bprog \<Rightarrow> nat"
  assumes add: "\<And>a b. f (a @ b) = f a + f b" and p: "p @ q = concat (replicate k b)"
  shows "length p div length b * f b \<le> f p"
proof (cases "b = []")
  case False
  from prefix_reps [OF p] obtain m c d where m: "p = concat (replicate m b) @ c" "b = c @ d" by blast
  have len: "length p = length c + m * length b" by (simp add: m(1) length_reps)
  show ?thesis
  proof (cases "d = []")
    case True
    then have "c = b" using m(2) by simp
    then have "length p div length b = Suc m" "f p = Suc m * f b" using len False by (simp_all add: m(1) add additive_reps [OF add])
    then show ?thesis by simp
  next
    case nd: False
    then have "length c < length b" using m(2) by simp
    then have "length p div length b = m" using len False by (simp add: div_mult_self3)
    then show ?thesis by (simp add: m(1) add additive_reps [OF add])
  qed
qed simp

lemma reps_upper:
  fixes f :: "bprog \<Rightarrow> nat"
  assumes add: "\<And>a b. f (a @ b) = f a + f b" and p: "p @ q = concat (replicate k b)" and one: "f b = 1"
  shows "f p \<le> (length p + length b - 1) div length b"
proof -
  from prefix_reps [OF p] obtain m c d where m: "p = concat (replicate m b) @ c" "b = c @ d" by blast
  have nil: "f [] = 0" using add [of "[]" "[]"] by simp
  then have b: "0 < length b" using one by auto
  have fp: "f p = m + f c" using one by (simp add: m(1) add additive_reps [OF add])
  have len: "length p = length c + m * length b" by (simp add: m(1) length_reps)
  show ?thesis
  proof (cases "c = []")
    case True
    have "m * length b div length b \<le> (length p + length b - 1) div length b" using len b True by (intro div_le_mono) linarith
    then show ?thesis using fp nil True b by simp
  next
    case False
    have "f c + f d = 1" using one add [of c d] m(2) by simp
    then have "f p \<le> Suc m" using fp by simp
    also have "\<dots> = Suc m * length b div length b" using b by simp
    also have "\<dots> \<le> (length p + length b - 1) div length b"
    proof (rule div_le_mono)
      have "1 \<le> length c" using False by (cases c) auto
      then show "Suc m * length b \<le> length p + length b - 1" using len by simp
    qed
    finally show ?thesis .
  qed
qed

lemma waitsR_runs:
  assumes "p @ q = concat (replicate k b)" "waitsR i s b = 1"
  shows "length p div length b \<le> waitsR i s p"
  using reps_lower [of "waitsR i s", OF _ assms(1)] assms(2) by simp

lemma posts_runs:
  assumes "p @ q = concat (replicate k b)" "on_slot s (posts r b) = 1"
  shows "on_slot s (posts r p) \<le> (length p + length b - 1) div length b"
  using reps_upper [of "\<lambda>p. on_slot s (posts r p)", OF _ assms] by simp

text \<open>The messages and waits of lists of sends and waits.\<close>

lemma posts_sends: "posts j (map (\<lambda>i. BSend i s b off n roff) is) = map (\<lambda>_. (s, b, off, n, roff)) (filter (\<lambda>i. i = j) is)"
  by (induction "is") auto

lemma posts_waits [simp]: "posts j (map (\<lambda>i. BWaitRecv i s) is) = []"
  by (induction "is") auto

lemma waitsR_sends [simp]: "waitsR i s (map (\<lambda>i. BSend i s' b off n roff) is) = 0"
  by (induction "is") auto

lemma filter_eq_distinct: "distinct xs \<Longrightarrow> filter (\<lambda>i. i = j) xs = (if j \<in> set xs then [j] else [])"
  by (induction xs) auto

lemma on_slot_peers: "on_slot s (posts j (map (\<lambda>i. BSend i s b off n roff) (peers N r))) = (if j < N \<and> j \<noteq> r then 1 else 0)"
  by (simp add: posts_sends filter_eq_distinct)

lemma waitsR_list: "distinct is \<Longrightarrow> waitsR i s (map (\<lambda>i. BWaitRecv i s) is) = (if i \<in> set is then 1 else 0)"
  by (induction "is") auto

lemma waitsR_peers: "waitsR i s (map (\<lambda>i. BWaitRecv i s) (peers N r)) = (if i < N \<and> i \<noteq> r then 1 else 0)"
  by (simp add: waitsR_list)

section \<open>The barrier of all with all\<close>

lemma peer_buffers_mesh:
  assumes "\<And>i. i \<in> set is \<Longrightarrow> i < n"
  shows "peer_buffers (mesh_ctx n t r) slot is = Inr (map (\<lambda>i. (createBuffer i slot Dummy 0 0, createBuffer i slot Dummy 0 0)) (filter (\<lambda>i. i \<noteq> r) is))"
  using assms by (induction "is") (simp_all add: pair_ref_def)

lemma BarrierAllToAll_new_mesh:
  assumes "Suc slot < 2 ^ 31"
  shows "BarrierAllToAll_new (mesh_ctx n slot r) = Inr (\<lparr>ba_sendBuffers = map (\<lambda>i. createBuffer i slot Dummy 0 0) (peers n r),
    ba_recvBuffers = map (\<lambda>i. createBuffer i slot Dummy 0 0) (peers n r)\<rparr>, mesh_ctx n (Suc slot) r)"
  using assms peer_buffers_mesh [of "[0..<n]" n "Suc slot" r slot] by (simp add: BarrierAllToAll_new_def peers_def o_def)

definition a2a_once :: "nat \<Rightarrow> nat \<Rightarrow> nat \<Rightarrow> bprog" where
  "a2a_once n slot r = map (\<lambda>i. BSend i slot Dummy 0 0 0) (peers n r) @ map (\<lambda>i. BWaitRecv i slot) (peers n r)"

lemma reg_of_peers: "reg_of (map (\<lambda>i. createBuffer i slot Dummy 0 0) is) i s = (if i \<in> set is \<and> s = slot then Some (Dummy, 0, 0) else None)"
  by (induction "is") (auto simp: createBuffer_def)

lemma BarrierAllToAll_run_mesh:
  "BarrierAllToAll_run \<lparr>ba_sendBuffers = map (\<lambda>i. createBuffer i slot Dummy 0 0) (peers n r), ba_recvBuffers = map (\<lambda>i. createBuffer i slot Dummy 0 0) (peers n r)\<rparr> = a2a_once n slot r"
  by (simp add: BarrierAllToAll_run_def a2a_once_def h_defs o_def)

text \<open>The processes and their registered buffers.\<close>

definition a2a_conf :: "nat \<Rightarrow> nat \<Rightarrow> 'a bconf" where
  "a2a_conf n slot = alg_conf n (\<lambda>_. 0) (\<lambda>r. ctor_recvs (BarrierAllToAll_new (mesh_ctx n slot r)) ba_recvBuffers) (\<lambda>xs ys. xs)"

definition a2a_prog :: "nat \<Rightarrow> nat \<Rightarrow> nat \<Rightarrow> nat \<Rightarrow> bprog" where
  "a2a_prog n slot k r = ctor_prog (BarrierAllToAll_new (mesh_ctx n slot r)) BarrierAllToAll_run k"

lemma a2a_conf_simps:
  assumes "Suc slot < 2 ^ 31"
  shows "bc_n (a2a_conf n slot) = n" "bc_reg (a2a_conf n slot) j i s = (if i < n \<and> i \<noteq> j \<and> s = slot then Some (Dummy, 0, 0) else None)"
    "bc_fn (a2a_conf n slot) xs ys = xs" "a2a_prog n slot k r = concat (replicate k (a2a_once n slot r))"
  using assms by (simp_all add: a2a_conf_def a2a_prog_def BarrierAllToAll_new_mesh BarrierAllToAll_run_mesh reg_of_peers)

text \<open>The levels: in the \<open>t\<close>-th run the notifications are sent on level \<open>2t\<close> and awaited on level \<open>2t + 1\<close>.\<close>

definition a2a_level :: "nat \<Rightarrow> nat \<Rightarrow> nat \<Rightarrow> nat \<Rightarrow> lprog" where
  "a2a_level n slot r t = map (\<lambda>i. (2 * t, BSend i slot Dummy 0 0 0)) (peers n r) @ map (\<lambda>i. (2 * t + 1, BWaitRecv i slot)) (peers n r)"

lemma snd_rounds:
  assumes "\<And>t. map snd (f t) = b"
  shows "map snd (concat (map f [0..<k])) = concat (replicate k b)"
  using assms by (induction k) (simp_all flip: replicate_append_same)

lemma filter_level: "filter (\<lambda>x. fst x < l) (map (\<lambda>i. (a, g i)) is) = (if a < l then map (\<lambda>i. (a, g i)) is else [])"
  by (induction "is") auto

lemma a2a_levels:
  assumes "Suc slot < 2 ^ 31"
  shows "levels_ok (a2a_conf n slot :: 'a bconf) (\<lambda>r. concat (map (a2a_level n slot r) [0..<k]))"
proof (rule levels_okI)
  note cf = a2a_conf_simps [OF assms]
  have s: "map snd (a2a_level n slot r t) = a2a_once n slot r" for r t by (simp add: a2a_level_def a2a_once_def o_def)
  fix r assume r: "r < bc_n (a2a_conf n slot :: 'a bconf)"
  show "sorted (map fst (concat (map (a2a_level n slot r) [0..<k])))"
    unfolding map_concat map_map o_def
    by (rule sorted_rounds [where c = 2]) (auto simp: a2a_level_def sorted_append o_def)
  show "lv_all (a2a_conf n slot :: 'a bconf) (\<lambda>r. concat (map (a2a_level n slot r) [0..<k])) r [] (concat (map (a2a_level n slot r) [0..<k]))"
  proof (rule lv_rounds, subst a2a_level_def, subst lv_all_append, intro conjI)
    fix t assume t: "t < k"
    show "lv_all (a2a_conf n slot :: 'a bconf) (\<lambda>r. concat (map (a2a_level n slot r) [0..<k])) r ([] @ concat (map (a2a_level n slot r) [0..<t]))
       (map (\<lambda>i. (2 * t, BSend i slot Dummy 0 0 0)) (peers n r))"
      using r by (intro lv_simple) (auto simp: cf)
    show "lv_all (a2a_conf n slot :: 'a bconf) (\<lambda>r. concat (map (a2a_level n slot r) [0..<k])) r
       (([] @ concat (map (a2a_level n slot r) [0..<t])) @ map (\<lambda>i. (2 * t, BSend i slot Dummy 0 0 0)) (peers n r)) (map (\<lambda>i. (2 * t + 1, BWaitRecv i slot)) (peers n r))"
    proof (rule lv_waits)
      fix i assume "i \<in> set (peers n r)"
      then have i: "i < n" "i \<noteq> r" by simp_all
      have one: "waitsR i slot (a2a_once n slot r) = 1" using i by (simp add: a2a_once_def waitsR_peers)
      have "waitsR i slot (map snd ([] @ concat (map (a2a_level n slot r) [0..<t]) @ map (\<lambda>i. (2 * t, BSend i slot Dummy 0 0 0)) (peers n r))) = t"
        by (simp add: snd_rounds [OF s] additive_reps [of "waitsR i slot"] one o_def)
      moreover have "on_slot slot (posts r (map snd (filter (\<lambda>x. fst x < 2 * t + 1) (a2a_level n slot i t')))) = (if t' \<le> t then 1 else 0)" for t'
        using i r by (auto simp: a2a_level_def filter_level on_slot_peers o_def cf)
      then have "on_slot slot (posts r (map snd (filter (\<lambda>x. fst x < 2 * t + 1) (concat (map (a2a_level n slot i) [0..<k]))))) = Suc t"
        using t by (simp add: count_rounds sum_list_upto)
      ultimately show "i < bc_n (a2a_conf n slot :: 'a bconf) \<and> waitsR i slot (map snd (([] @ concat (map (a2a_level n slot r) [0..<t])) @ map (\<lambda>i. (2 * t, BSend i slot Dummy 0 0 0)) (peers n r)))
         < on_slot slot (posts r (map snd (filter (\<lambda>x. fst x < 2 * t + 1) (concat (map (a2a_level n slot i) [0..<k])))))"
        using i by (simp add: cf)
    qed simp
  qed
qed

lemma a2a_verified:
  assumes "Suc slot < 2 ^ 31"
  shows "verified (a2a_conf n slot :: 'a bconf) no_spec (\<lambda>_ _. None) (a2a_prog n slot k)"
proof (rule notif_verified)
  fix r c assume "r < bc_n (a2a_conf n slot :: 'a bconf)" "c \<in> set (a2a_prog n slot k r)"
  then have "r < n" "c \<in> set (a2a_once n slot r)" using assms by (auto simp: a2a_conf_simps split: if_splits)
  then show "notif_ok (a2a_conf n slot :: 'a bconf) r c" by (auto simp: a2a_once_def notif_ok_def a2a_conf_simps [OF assms])
qed

text \<open>
  C21: \<open>BarrierAllToAll\<close>, run \<open>k\<close> times by \<open>n\<close> processes: in every world that can be reached, no action fails,
  a run that has not finished can go on, the number of actions is bounded, and no process has left more
  barriers than every other process has entered.
\<close>

theorem barrier_all_to_all_synchronises:
  fixes cf :: "'a bconf"
  assumes slot: "Suc slot < 2 ^ 31" and cf: "cf = a2a_conf n slot"
    and run: "brun cf as (bstart (a2a_prog n slot k) m) = Some w"
  shows "bound_safe cf w \<and> bound_live cf w \<and> length as \<le> bound_work cf (a2a_prog n slot k) \<and>
    (\<forall>r < n. \<forall>i < n. i \<noteq> r \<longrightarrow> runs_left w r (a2a_once n slot r) \<le> runs_entered w i (a2a_once n slot i))"
proof -
  note vf = a2a_verified [OF slot, where 'a = 'a, of n k, folded cf]
  have simps: "bc_n cf = n" "\<And>xs ys. bc_fn cf xs ys = xs" "a2a_prog n slot k r = concat (replicate k (a2a_once n slot r))" for r
    using slot by (simp_all add: cf a2a_conf_simps)
  have so: "start_ok cf (\<lambda>_ _. None) m" by (rule notif_start) (simp add: simps)
  have lv: "levels_ok cf (\<lambda>r. concat (map (a2a_level n slot r) [0..<k]))" unfolding cf by (rule a2a_levels [OF slot])
  have P: "a2a_prog n slot k r = map snd (concat (map (a2a_level n slot r) [0..<k]))" for r
    by (subst snd_rounds [where b = "a2a_once n slot r"]) (simp_all add: simps a2a_level_def a2a_once_def o_def)
  have cnt: "bcounts cf (a2a_prog n slot k) w" by (rule brun_counts [OF bstart_counts run])
  have pre: "bw_done w r @ bw_todo w r = concat (replicate k (a2a_once n slot r))" for r using cnt by (simp add: bcounts_def simps)
  have "runs_left w r (a2a_once n slot r) \<le> runs_entered w i (a2a_once n slot i)" if r: "r < n" and i: "i < n" "i \<noteq> r" for r i
  proof -
    have "runs_left w r (a2a_once n slot r) \<le> waitsR i slot (bw_done w r)"
      unfolding runs_left_def using i by (intro waitsR_runs [OF pre]) (simp add: a2a_once_def waitsR_peers)
    also have "\<dots> \<le> on_slot slot (posts r (bw_done w i))" using notif_counts [OF vf so run] r by (simp add: simps)
    also have "\<dots> \<le> runs_entered w i (a2a_once n slot i)"
      unfolding runs_entered_def using i r by (intro posts_runs [OF pre]) (simp add: a2a_once_def on_slot_peers)
    finally show ?thesis .
  qed
  then show ?thesis using bound_verified(1-3) [OF vf so lv P run] by blast
qed

text \<open>Three processes that run the barrier twice: one schedule, and the theorem for the world it reaches.\<close>

theorem barrier_all_to_all_synchronises_witness:
  "\<exists>w. brun (a2a_conf 3 0 :: nat bconf) [Run 1, Run 0, Run 0, Run 1, Xmit 1 0, Deliver 1 0, Run 0] (bstart (a2a_prog 3 0 2) (\<lambda>_ _ _. 0)) = Some w \<and>
       bound_safe (a2a_conf 3 0) w \<and> bound_live (a2a_conf 3 0) w"
proof -
  have "\<not> Option.is_none (brun (a2a_conf 3 0 :: nat bconf) [Run 1, Run 0, Run 0, Run 1, Xmit 1 0, Deliver 1 0, Run 0] (bstart (a2a_prog 3 0 2) (\<lambda>_ _ _. 0)))"
    by code_simp
  then obtain w where w: "brun (a2a_conf 3 0 :: nat bconf) [Run 1, Run 0, Run 0, Run 1, Xmit 1 0, Deliver 1 0, Run 0] (bstart (a2a_prog 3 0 2) (\<lambda>_ _ _. 0)) = Some w"
    by (auto simp: Option.is_none_def)
  show ?thesis using barrier_all_to_all_synchronises [OF _ refl w] w by simp
qed

section \<open>The barrier of all with one\<close>

definition a21_once :: "nat \<Rightarrow> nat \<Rightarrow> nat \<Rightarrow> nat \<Rightarrow> bprog" where
  "a21_once n slot root r =
     (if r = root then map (\<lambda>i. BWaitRecv i slot) (peers n root) @ map (\<lambda>i. BSend i slot Dummy 0 0 0) (peers n root)
      else [BSend root slot Dummy 0 0 0, BWaitRecv root slot])"

definition a21_conf :: "nat \<Rightarrow> nat \<Rightarrow> nat \<Rightarrow> 'a bconf" where
  "a21_conf n slot root = alg_conf n (\<lambda>_. 0) (\<lambda>r. ctor_recvs (BarrierAllToOne_new (mesh_ctx n slot r) (int root)) ba_recvBuffers) (\<lambda>xs ys. xs)"

definition a21_prog :: "nat \<Rightarrow> nat \<Rightarrow> nat \<Rightarrow> nat \<Rightarrow> nat \<Rightarrow> bprog" where
  "a21_prog n slot root k r =
     ctor_prog (BarrierAllToOne_new (mesh_ctx n slot r) (int root)) (BarrierAllToOne_run (mesh_ctx n slot r) (int root)) k"

lemma BarrierAllToOne_new_mesh:
  assumes "Suc slot < 2 ^ 31" "root < n"
  shows "BarrierAllToOne_new (mesh_ctx n slot r) (int root) =
    (let hs = map (\<lambda>i. createBuffer i slot Dummy 0 0) (if r = root then peers n root else [root])
     in Inr (\<lparr>ba_sendBuffers = hs, ba_recvBuffers = hs\<rparr>, mesh_ctx n (Suc slot) r))"
  using assms peer_buffers_mesh [of "[0..<n]" n "Suc slot" r slot] by (auto simp: BarrierAllToOne_new_def peers_def o_def pair_ref_def Let_def)

lemma a21_conf_simps:
  assumes "Suc slot < 2 ^ 31" "root < n"
  shows "bc_n (a21_conf n slot root) = n"
    "bc_reg (a21_conf n slot root) j i s = (if s = slot \<and> i \<in> set (if j = root then peers n root else [root]) then Some (Dummy, 0, 0) else None)"
    "bc_fn (a21_conf n slot root) xs ys = xs" "a21_prog n slot root k r = concat (replicate k (a21_once n slot root r))"
proof -
  show "a21_prog n slot root k r = concat (replicate k (a21_once n slot root r))"
    by (simp add: a21_prog_def BarrierAllToOne_new_mesh [OF assms] Let_def BarrierAllToOne_run_def a21_once_def h_defs o_def)
  show "bc_reg (a21_conf n slot root) j i s = (if s = slot \<and> i \<in> set (if j = root then peers n root else [root]) then Some (Dummy, 0, 0) else None)"
    using reg_of_peers [of slot "if j = root then peers n root else [root]" i s] by (simp add: a21_conf_def BarrierAllToOne_new_mesh [OF assms] Let_def conj_commute)
qed (simp_all add: a21_conf_def)

definition a21_level :: "nat \<Rightarrow> nat \<Rightarrow> nat \<Rightarrow> nat \<Rightarrow> nat \<Rightarrow> lprog" where
  "a21_level n slot root r t =
     (if r = root then map (\<lambda>i. (4 * t + 1, BWaitRecv i slot)) (peers n root) @ map (\<lambda>i. (4 * t + 2, BSend i slot Dummy 0 0 0)) (peers n root)
      else [(4 * t, BSend root slot Dummy 0 0 0), (4 * t + 3, BWaitRecv root slot)])"

lemma a21_level_snd: "map snd (a21_level n slot root r t) = a21_once n slot root r"
  by (simp add: a21_level_def a21_once_def o_def)

lemma a21_before:
  assumes "root < n" "i < n" "r < n" "i \<noteq> r" "i = root \<or> r = root" "t < k" "l = 4 * t + (if r = root then 1 else 3)"
  shows "on_slot slot (posts r (map snd (filter (\<lambda>x. fst x < l) (concat (map (a21_level n slot root i) [0..<k]))))) = Suc t"
proof -
  have "on_slot slot (posts r (map snd (filter (\<lambda>x. fst x < l) (a21_level n slot root i t')))) = (if t' \<le> t then 1 else 0)" for t'
    using assms by (auto simp: a21_level_def filter_level on_slot_peers o_def)
  then show ?thesis using assms(6) by (simp add: count_rounds sum_list_upto)
qed

lemma a21_waits:
  assumes "waitsR i slot (a21_once n slot root r) = 1"
  shows "waitsR i slot (map snd (concat (map (a21_level n slot root r) [0..<t]))) = t"
  using assms by (simp add: snd_rounds [OF a21_level_snd] additive_reps [of "waitsR i slot"])

lemma a21_levels:
  assumes "Suc slot < 2 ^ 31" "root < n"
  shows "levels_ok (a21_conf n slot root :: 'a bconf) (\<lambda>r. concat (map (a21_level n slot root r) [0..<k]))"
proof (rule levels_okI)
  note cf = a21_conf_simps [OF assms]
  fix r assume r: "r < bc_n (a21_conf n slot root :: 'a bconf)"
  let ?A = "\<lambda>r. concat (map (a21_level n slot root r) [0..<k])"
  show "sorted (map fst (?A r))"
    unfolding map_concat map_map o_def
    by (rule sorted_rounds [where c = 4]) (auto simp: a21_level_def sorted_append o_def split: if_splits)
  show "lv_all (a21_conf n slot root :: 'a bconf) ?A r [] (?A r)"
  proof (rule lv_rounds)
    fix t assume t: "t < k"
    let ?p = "[] @ concat (map (a21_level n slot root r) [0..<t])"
    show "lv_all (a21_conf n slot root :: 'a bconf) ?A r ?p (a21_level n slot root r t)"
    proof (cases "r = root")
      case True
      have "lv_all (a21_conf n slot root :: 'a bconf) ?A r ?p (map (\<lambda>i. (4 * t + 1, BWaitRecv i slot)) (peers n root))"
      proof (rule lv_waits)
        fix i assume "i \<in> set (peers n root)"
        then have i: "i < n" "i \<noteq> r" using True by simp_all
        then have "waitsR i slot (a21_once n slot root r) = 1" by (simp add: a21_once_def waitsR_peers True)
        from a21_waits [OF this] show "i < bc_n (a21_conf n slot root :: 'a bconf) \<and>
           waitsR i slot (map snd ?p) < on_slot slot (posts r (map snd (filter (\<lambda>x. fst x < 4 * t + 1) (?A i))))"
          using i r t True by (simp add: cf a21_before [OF assms(2) i(1)])
      qed simp
      moreover have "lv_all (a21_conf n slot root :: 'a bconf) ?A r q (map (\<lambda>i. (4 * t + 2, BSend i slot Dummy 0 0 0)) (peers n root))" for q
        using r True by (intro lv_simple) (auto simp: cf)
      ultimately show ?thesis by (simp add: a21_level_def True lv_all_append)
    next
      case False
      have "waitsR root slot (a21_once n slot root r) = 1" by (simp add: a21_once_def False)
      from a21_waits [OF this] show ?thesis
        using r t False assms(2) by (simp add: a21_level_def wait_ok_def cf a21_before [OF assms(2) assms(2)])
    qed
  qed
qed

lemma a21_verified:
  assumes "Suc slot < 2 ^ 31" "root < n"
  shows "verified (a21_conf n slot root :: 'a bconf) no_spec (\<lambda>_ _. None) (a21_prog n slot root k)"
proof (rule notif_verified)
  fix r c assume "r < bc_n (a21_conf n slot root :: 'a bconf)" "c \<in> set (a21_prog n slot root k r)"
  then have "r < n" "c \<in> set (a21_once n slot root r)" using assms by (auto simp: a21_conf_simps split: if_splits)
  then show "notif_ok (a21_conf n slot root :: 'a bconf) r c"
    using assms by (auto simp: a21_once_def notif_ok_def a21_conf_simps split: if_splits)
qed

text \<open>The root sends its notifications of a run only after it has received all of that run.\<close>

lemma a21_root_order:
  assumes "p @ q = concat (replicate k (a21_once n slot root root))" "i < n" "i \<noteq> root"
  shows "on_slot slot (posts r p) \<le> waitsR i slot p"
proof -
  let ?b = "a21_once n slot root root"
  from prefix_reps [OF assms(1)] obtain m c d where m: "p = concat (replicate m ?b) @ c" "?b = c @ d" by blast
  have wb: "waitsR i slot ?b = 1" using assms(2,3) by (simp add: a21_once_def waitsR_peers)
  have pb: "on_slot slot (posts r ?b) \<le> 1" by (simp add: a21_once_def on_slot_peers)
  have le: "on_slot slot (posts r c) \<le> waitsR i slot c"
  proof -
    from m(2) have "c @ d = map (\<lambda>i. BWaitRecv i slot) (peers n root) @ map (\<lambda>i. BSend i slot Dummy 0 0 0) (peers n root)" by (simp add: a21_once_def)
    then consider us where "c @ us = map (\<lambda>i. BWaitRecv i slot) (peers n root)" | us where "c = map (\<lambda>i. BWaitRecv i slot) (peers n root) @ us"
      by (auto simp: append_eq_append_conv2)
    then show ?thesis
    proof cases
      case 1
      have "posts r (c @ us) = []" unfolding 1 by simp
      then show ?thesis by simp
    next
      case 2
      have "on_slot slot (posts r c) \<le> on_slot slot (posts r ?b)" unfolding m(2) by simp
      then show ?thesis using pb assms(2,3) by (simp add: 2 waitsR_peers)
    qed
  qed
  have "on_slot slot (posts r p) = m * on_slot slot (posts r ?b) + on_slot slot (posts r c)"
    using additive_reps [of "\<lambda>p. on_slot slot (posts r p)" m ?b] by (simp add: m(1))
  moreover have "waitsR i slot p = m + waitsR i slot c" using additive_reps [of "waitsR i slot" m ?b] wb by (simp add: m(1))
  moreover have "m * on_slot slot (posts r ?b) \<le> m" using pb by simp
  ultimately show ?thesis using le by linarith
qed

text \<open>
  C22: \<open>BarrierAllToOne\<close>, run \<open>k\<close> times by \<open>n\<close> processes with any root: in every world that can be reached, no
  action fails, a run that has not finished can go on, the number of actions is bounded, and no process has
  left more barriers than every other process has entered.
\<close>

theorem barrier_all_to_one_synchronises:
  fixes cf :: "'a bconf"
  assumes slot: "Suc slot < 2 ^ 31" and root: "root < n" and cf: "cf = a21_conf n slot root"
    and run: "brun cf as (bstart (a21_prog n slot root k) m) = Some w"
  shows "bound_safe cf w \<and> bound_live cf w \<and> length as \<le> bound_work cf (a21_prog n slot root k) \<and>
    (\<forall>r < n. \<forall>i < n. i \<noteq> r \<longrightarrow> runs_left w r (a21_once n slot root r) \<le> runs_entered w i (a21_once n slot root i))"
proof -
  note vf = a21_verified [OF slot root, where 'a = 'a, of k, folded cf]
  have simps: "bc_n cf = n" "\<And>xs ys. bc_fn cf xs ys = xs" "a21_prog n slot root k r = concat (replicate k (a21_once n slot root r))" for r
    using slot root by (simp_all add: cf a21_conf_simps)
  have so: "start_ok cf (\<lambda>_ _. None) m" by (rule notif_start) (simp add: simps)
  have lv: "levels_ok cf (\<lambda>r. concat (map (a21_level n slot root r) [0..<k]))" unfolding cf by (rule a21_levels [OF slot root])
  have P: "a21_prog n slot root k r = map snd (concat (map (a21_level n slot root r) [0..<k]))" for r
    by (subst snd_rounds [OF a21_level_snd]) (simp add: simps)
  have cnt: "bcounts cf (a21_prog n slot root k) w" by (rule brun_counts [OF bstart_counts run])
  have pre: "bw_done w r @ bw_todo w r = concat (replicate k (a21_once n slot root r))" for r using cnt by (simp add: bcounts_def simps)
  have left: "runs_left w r (a21_once n slot root r) \<le> on_slot slot (posts r (bw_done w i))"
    if "r < n" "i < n" "i \<noteq> r" "r = root \<or> i = root" for r i
  proof -
    have "runs_left w r (a21_once n slot root r) \<le> waitsR i slot (bw_done w r)"
      unfolding runs_left_def using that by (intro waitsR_runs [OF pre]) (auto simp: a21_once_def waitsR_peers)
    also have "\<dots> \<le> on_slot slot (posts r (bw_done w i))" using notif_counts [OF vf so run] that(1) by (simp add: simps)
    finally show ?thesis .
  qed
  have entered: "on_slot slot (posts r (bw_done w i)) \<le> runs_entered w i (a21_once n slot root i)"
    if "r < n" "i < n" "i \<noteq> r" "r = root \<or> i = root" for r i
    unfolding runs_entered_def using that by (intro posts_runs [OF pre]) (auto simp: a21_once_def on_slot_peers)
  have "runs_left w r (a21_once n slot root r) \<le> runs_entered w i (a21_once n slot root i)" if r: "r < n" and i: "i < n" "i \<noteq> r" for r i
  proof (cases "r = root \<or> i = root")
    case True
    from left [OF r i True] entered [OF r i True] show ?thesis by linarith
  next
    case False
    have "runs_left w r (a21_once n slot root r) \<le> on_slot slot (posts r (bw_done w root))" using left [OF r root] False by simp
    also have "\<dots> \<le> waitsR i slot (bw_done w root)" by (rule a21_root_order [OF pre i(1)]) (use False in simp)
    also have "\<dots> \<le> on_slot slot (posts root (bw_done w i))" using notif_counts [OF vf so run] root by (simp add: simps)
    also have "\<dots> \<le> runs_entered w i (a21_once n slot root i)" by (rule entered [OF root i(1)]) (use False in simp_all)
    finally show ?thesis .
  qed
  then show ?thesis using bound_verified(1-3) [OF vf so lv P run] by blast
qed

theorem barrier_all_to_one_synchronises_witness:
  "\<exists>w. brun (a21_conf 3 0 1 :: nat bconf) [Run 0, Run 2, Xmit 0 1, Deliver 0 1, Run 1] (bstart (a21_prog 3 0 1 2) (\<lambda>_ _ _. 0)) = Some w \<and>
       bound_safe (a21_conf 3 0 1) w \<and> bound_live (a21_conf 3 0 1) w"
proof -
  have "\<not> Option.is_none (brun (a21_conf 3 0 1 :: nat bconf) [Run 0, Run 2, Xmit 0 1, Deliver 0 1, Run 1] (bstart (a21_prog 3 0 1 2) (\<lambda>_ _ _. 0)))"
    by code_simp
  then obtain w where w: "brun (a21_conf 3 0 1 :: nat bconf) [Run 0, Run 2, Xmit 0 1, Deliver 0 1, Run 1] (bstart (a21_prog 3 0 1 2) (\<lambda>_ _ _. 0)) = Some w"
    by (auto simp: Option.is_none_def)
  show ?thesis using barrier_all_to_one_synchronises [OF _ _ refl w] w by simp
qed

end
