(* ===== verification/Gloo_Alg_Broadcast.thy ===== *)
theory Gloo_Alg_Broadcast
  imports Gloo_Alg_Barriers
begin

text \<open>
  \<open>BroadcastOneToAll\<close>: every other process gives the root leave to write to its memory; the root waits for
  that, sends, copies to its own pointers while the sends are under way, and waits for the sends.
\<close>

section \<open>Programs\<close>

lemma sender_buffers_mesh:
  assumes "\<And>i. i \<in> set is \<Longrightarrow> i < n"
  shows "sender_buffers (mesh_ctx n t r) slot ptr ct is =
    Inr (map (\<lambda>i. (createBuffer i slot Dummy 0 0, createBuffer i slot (Ptr ptr) 0 ct)) (filter (\<lambda>i. i \<noteq> r) is))"
  using assms by (induction "is") (simp_all add: pair_ref_def)

definition bo_recvs :: "BroadcastObj \<Rightarrow> bh list" where
  "bo_recvs b = map fst (bo_sender b) @ (case bo_receiver b of None \<Rightarrow> [] | Some (cts, dat) \<Rightarrow> [dat])"

definition bc_size_of :: "nat \<Rightarrow> nat \<Rightarrow> bbuf \<Rightarrow> nat" where
  "bc_size_of nptrs ct b = (case b of Ptr i \<Rightarrow> if i < nptrs then ct else 0 | _ \<Rightarrow> 0)"

definition bco_conf :: "nat \<Rightarrow> nat \<Rightarrow> nat \<Rightarrow> nat \<Rightarrow> nat \<Rightarrow> nat \<Rightarrow> 'a bconf" where
  "bco_conf n slot nptrs ct root rp =
     alg_conf n (bc_size_of nptrs ct) (\<lambda>r. ctor_recvs (BroadcastOneToAll_new (mesh_ctx n slot r) nptrs ct (int root) (int rp)) bo_recvs) (\<lambda>xs ys. xs)"

definition bco_prog :: "nat \<Rightarrow> nat \<Rightarrow> nat \<Rightarrow> nat \<Rightarrow> nat \<Rightarrow> nat \<Rightarrow> nat \<Rightarrow> bprog" where
  "bco_prog n slot nptrs ct root rp r =
     (if r < n then ctor_prog (BroadcastOneToAll_new (mesh_ctx n slot r) nptrs ct (int root) (int rp)) (BroadcastOneToAll_run (mesh_ctx n slot r)) 1 else [])"

definition bco_local :: "nat \<Rightarrow> nat \<Rightarrow> nat \<Rightarrow> bprog" where
  "bco_local nptrs ct rp = map (\<lambda>i. BMemcpy (Ptr i) 0 (Ptr rp) 0 ct) (filter (\<lambda>i. i \<noteq> rp) [0..<nptrs])"

definition bco_send :: "nat \<Rightarrow> nat \<Rightarrow> nat \<Rightarrow> nat \<Rightarrow> bprog" where
  "bco_send slot ct rp i = [BWaitRecv i slot, BSend i slot (Ptr rp) 0 ct 0]"

lemma BroadcastOneToAll_new_mesh:
  assumes "Suc slot < 2 ^ 31" "root < n" "rp < nptrs" "r < n"
  shows "\<exists>cx. BroadcastOneToAll_new (mesh_ctx n slot r) nptrs ct (int root) (int rp) =
    Inr (\<lparr>bo_nptrs = nptrs, bo_count = ct, bo_rootRank = root, bo_rootPointerRank = rp,
          bo_sender = (if 1 < n \<and> r = root then map (\<lambda>i. (createBuffer i slot Dummy 0 0, createBuffer i slot (Ptr rp) 0 ct)) (peers n root) else []),
          bo_receiver = (if 1 < n \<and> r \<noteq> root then Some (createBuffer root slot Dummy 0 0, createBuffer root slot (Ptr rp) 0 ct) else None)\<rparr>, cx)"
  using assms sender_buffers_mesh [of "[0..<n]" n "Suc slot" r slot rp ct]
  by (auto simp: BroadcastOneToAll_new_def Let_def pair_ref_def peers_def)

lemma bco_prog_simp:
  assumes "Suc slot < 2 ^ 31" "root < n" "rp < nptrs" "r < n"
  shows "bco_prog n slot nptrs ct root rp r =
    (if n = 1 then bco_local nptrs ct rp
     else if r = root then concat (map (bco_send slot ct rp) (peers n root)) @ bco_local nptrs ct rp @ map (\<lambda>i. BWaitSend i slot) (peers n root)
     else [BSend root slot Dummy 0 0 0, BWaitRecv root slot] @ bco_local nptrs ct rp)"
proof -
  obtain cx where "BroadcastOneToAll_new (mesh_ctx n slot r) nptrs ct (int root) (int rp) =
    Inr (\<lparr>bo_nptrs = nptrs, bo_count = ct, bo_rootRank = root, bo_rootPointerRank = rp,
          bo_sender = (if 1 < n \<and> r = root then map (\<lambda>i. (createBuffer i slot Dummy 0 0, createBuffer i slot (Ptr rp) 0 ct)) (peers n root) else []),
          bo_receiver = (if 1 < n \<and> r \<noteq> root then Some (createBuffer root slot Dummy 0 0, createBuffer root slot (Ptr rp) 0 ct) else None)\<rparr>, cx)"
    using BroadcastOneToAll_new_mesh [OF assms] by blast
  then show ?thesis using assms
    by (auto simp: bco_prog_def BroadcastOneToAll_run_def broadcastLocally_def bco_local_def bco_send_def [abs_def] h_defs o_def)
qed

lemma reg_of_append: "reg_of (xs @ ys) i s = (case reg_of xs i s of None \<Rightarrow> reg_of ys i s | Some b \<Rightarrow> Some b)"
  by (induction xs) simp_all

lemma bco_reg:
  assumes "Suc slot < 2 ^ 31" "root < n" "rp < nptrs" "j < n" "1 < n"
  shows "bc_reg (bco_conf n slot nptrs ct root rp) j i s =
    (if s = slot \<and> j = root \<and> i < n \<and> i \<noteq> root then Some (Dummy, 0, 0)
     else if s = slot \<and> j \<noteq> root \<and> i = root then Some (Ptr rp, 0, ct) else None)"
proof -
  obtain cx where "BroadcastOneToAll_new (mesh_ctx n slot j) nptrs ct (int root) (int rp) =
    Inr (\<lparr>bo_nptrs = nptrs, bo_count = ct, bo_rootRank = root, bo_rootPointerRank = rp,
          bo_sender = (if 1 < n \<and> j = root then map (\<lambda>i. (createBuffer i slot Dummy 0 0, createBuffer i slot (Ptr rp) 0 ct)) (peers n root) else []),
          bo_receiver = (if 1 < n \<and> j \<noteq> root then Some (createBuffer root slot Dummy 0 0, createBuffer root slot (Ptr rp) 0 ct) else None)\<rparr>, cx)"
    using BroadcastOneToAll_new_mesh [OF assms(1-4)] by blast
  then show ?thesis using assms reg_of_peers [of slot "peers n root" i s]
    by (auto simp: bco_conf_def bo_recvs_def reg_of_append o_def createBuffer_def)
qed

section \<open>Ownership\<close>

definition bco_spec :: "nat \<Rightarrow> nat \<Rightarrow> nat \<Rightarrow> nat \<Rightarrow> 'a list \<Rightarrow> 'a bspec" where
  "bco_spec slot ct root rp v = \<lparr>
     sp_val = (\<lambda>i j s k. if i = root then v else []),
     sp_src = (\<lambda>i j s k. if i = root then (Ptr rp, 0) else (Dummy, 0)),
     sp_dst = (\<lambda>i j s k. if i = root then (Ptr rp, 0) else (Dummy, 0)),
     sp_gives = (\<lambda>i j s k. if i = root then {} else region i (Ptr rp) 0 ct)\<rparr>"

definition bco_own :: "nat \<Rightarrow> nat \<Rightarrow> (bbuf \<Rightarrow> nat \<Rightarrow> 'a) \<Rightarrow> nat \<Rightarrow> 'a know" where
  "bco_own nptrs ct m r = (\<lambda>(q, b, x).
     case b of Ptr i \<Rightarrow> if q = r \<and> i < nptrs \<and> x < ct then Some (Some (m (Ptr i) x)) else None | _ \<Rightarrow> None)"

lemma bco_frozen: "length v = ct \<Longrightarrow> frozen (bco_spec slot ct root rp v) r p \<subseteq> (if r = root then region root (Ptr rp) 0 ct else {})"
  unfolding frozen_def by (auto simp: src_locs_def bco_spec_def split: if_splits)

lemma bco_local_ok:
  assumes "known K r (Ptr rp) 0 v" "length v = ct" "\<And>i. i < nptrs \<Longrightarrow> region r (Ptr i) 0 ct \<subseteq> dom K" and sp: "sp = bco_spec slot ct root rp v"
  shows "sym_all cf sp r p (bco_local nptrs ct rp) K \<and> (\<forall>i < nptrs. known (symK cf sp r p (bco_local nptrs ct rp) K) r (Ptr i) 0 v)"
proof -
  have "i \<noteq> rp \<and> region r (Ptr i) 0 ct \<subseteq> dom K \<and> region r (Ptr i) 0 ct \<inter> frozen sp r p = {}"
    if "i \<in> set (filter (\<lambda>i. i \<noteq> rp) [0..<nptrs])" for i
  proof -
    have "i \<noteq> rp" "i < nptrs" using that by simp_all
    moreover have "region r (Ptr i) 0 ct \<inter> region root (Ptr rp) 0 ct = {}" using \<open>i \<noteq> rp\<close> by (intro region_disjoint) simp
    ultimately show ?thesis using assms(3) [of i] bco_frozen [OF assms(2), of slot root rp r p] unfolding sp by (auto split: if_splits)
  qed
  note b = bcast_list_sym [of "filter (\<lambda>i. i \<noteq> rp) [0..<nptrs]", OF this assms(1,2), of cf]
  have "i \<in> insert rp (set (filter (\<lambda>i. i \<noteq> rp) [0..<nptrs]))" if "i < nptrs" for i using that by simp
  then show ?thesis using b unfolding bco_local_def by blast
qed

text \<open>The root: it holds its own pointers throughout.\<close>

lemma bco_root_sends:
  assumes "distinct is" "\<And>i. i \<in> set is \<Longrightarrow> i < n \<and> i \<noteq> root" and slot: "Suc slot < 2 ^ 31" and root: "root < n" and rp: "rp < nptrs" and v: "length v = ct"
    and cf: "cf = bco_conf n slot nptrs ct root rp" and sp: "sp = bco_spec slot ct root rp v"
    and K: "known K root (Ptr rp) 0 v" "\<And>i. i < nptrs \<Longrightarrow> region root (Ptr i) 0 ct \<subseteq> dom K"
    and p: "\<And>i. i \<in> set is \<Longrightarrow> waitsR i slot p = 0 \<and> on_slot slot (posts i p) = 0"
  shows "sym_all cf sp root p (concat (map (bco_send slot ct rp) is)) K \<and>
    known (symK cf sp root p (concat (map (bco_send slot ct rp) is)) K) root (Ptr rp) 0 v \<and>
    (\<forall>i < nptrs. region root (Ptr i) 0 ct \<subseteq> dom (symK cf sp root p (concat (map (bco_send slot ct rp) is)) K))"
  using assms(1,2) K p
proof (induction "is" arbitrary: p K)
  case (Cons i xs)
  have i: "i < n" "i \<noteq> root" "1 < n" using Cons.prems(2) [of i] root by auto
  have w: "waitsR i slot p = 0" "on_slot slot (posts i p) = 0" using Cons.prems(5) [of i] by simp_all
  have sps: "sp_val sp root i slot 0 = v" "sp_src sp root i slot 0 = (Ptr rp, 0)" "sp_dst sp root i slot 0 = (Ptr rp, 0)" "sp_gives sp root i slot 0 = {}"
    "sp_val sp i root slot 0 = []" "sp_dst sp i root slot 0 = (Dummy, 0)" "sp_gives sp i root slot 0 = region i (Ptr rp) 0 ct"
    using i by (simp_all add: sp bco_spec_def)
  let ?M = "region i (Ptr rp) 0 ct"
  define K1 where "K1 = kwr root Dummy 0 [] (\<lambda>l. if l \<in> ?M then Some None else K l)"
  define K2 where "K2 = (\<lambda>l. if l \<in> ?M then None else K1 l)"
  let ?c1 = "BWaitRecv i slot" and ?c2 = "BSend i slot (Ptr rp) 0 ct 0"
  have ok1: "sym_ok cf sp root p ?c1 K" using i by (simp add: sym_ok_def cf bco_conf_def)
  have nx1: "sym_next cf sp root p ?c1 K = K1" by (simp add: sym_next_def w sps K1_def Let_def)
  have mv: "moves sp root i slot 0 = ?M" "dst_locs sp root i slot 0 = ?M" by (simp_all add: moves_def dst_locs_def sps v)
  have dj: "?M \<inter> region root b off m = {}" for b off m using i by (intro region_disjoint) simp
  have rd: "region root b off m \<inter> ?M = {}" for b off m using dj by blast
  have k1: "known K1 root (Ptr rp) 0 v" "\<And>i. i < nptrs \<Longrightarrow> region root (Ptr i) 0 ct \<subseteq> dom K1" "?M \<subseteq> dom K1"
    unfolding K1_def using Cons.prems(3,4) rd by (simp_all add: known_drop known_kwr_other subset_dom_give dom_kwr le_supI1)
  have k2: "known K2 root (Ptr rp) 0 v" "\<And>i. i < nptrs \<Longrightarrow> region root (Ptr i) 0 ct \<subseteq> dom K2"
    unfolding K2_def using k1 rd by (simp_all add: known_drop subset_dom_if)
  have "?M \<inter> frozen sp root q = {}" for q using bco_frozen [OF v, of slot root rp root q] dj [of "Ptr rp" 0 ct] unfolding sp by auto
  then have ok2: "sym_ok cf sp root (p @ [?c1]) ?c2 K1"
    using i k1 dj by (simp add: sym_ok_def Let_def w sps v mv cf bco_reg [OF slot root rp] Int_Un_distrib) (simp add: bco_conf_def)
  have nx2: "sym_next cf sp root (p @ [?c1]) ?c2 K1 = K2" by (simp add: sym_next_def w mv K2_def)
  have "waitsR j slot (p @ [?c1, ?c2]) = 0 \<and> on_slot slot (posts j (p @ [?c1, ?c2])) = 0" if "j \<in> set xs" for j
    using that Cons.prems(1) Cons.prems(5) [of j] by auto
  from Cons.IH [OF _ _ k2 this] Cons.prems(1,2) ok1 ok2 show ?case by (simp add: bco_send_def nx1 nx2)
qed simp

lemma bco_own_known: "i < nptrs \<Longrightarrow> known (bco_own nptrs ct m r) r (Ptr i) 0 (rd (m (Ptr i)) 0 ct)"
  by (simp add: known_def bco_own_def rd_def)

lemma waitSends_sym: "sym_all cf sp r p (map (\<lambda>i. BWaitSend i s) is) K \<and> symK cf sp r p (map (\<lambda>i. BWaitSend i s) is) K = K"
  by (induction "is" arbitrary: p) (simp_all add: sym_ok_def sym_next_def)

lemma bco_prog_ok:
  assumes slot: "Suc slot < 2 ^ 31" and root: "root < n" and rp: "rp < nptrs" and r: "r < n"
    and v: "v = rd (m root (Ptr rp)) 0 ct" and cf: "cf = bco_conf n slot nptrs ct root rp" and sp: "sp = bco_spec slot ct root rp v"
    and K0: "K0 = bco_own nptrs ct (m r) r"
  shows "sym_all cf sp r [] (bco_prog n slot nptrs ct root rp r) K0 \<and>
    (\<forall>i < nptrs. known (symK cf sp r [] (bco_prog n slot nptrs ct root rp r) K0) r (Ptr i) 0 v)"
proof -
  have lv: "length v = ct" by (simp add: v)
  have own: "known K0 r (Ptr i) 0 (rd (m r (Ptr i)) 0 ct)" "region r (Ptr i) 0 ct \<subseteq> dom K0" if "i < nptrs" for i
    using bco_own_known [OF that, of ct "m r" r] known_sub [OF bco_own_known [OF that, of ct "m r" r]] by (simp_all add: K0)
  note P = bco_prog_simp [OF slot root rp r, of ct]
  consider "r = root" "n = 1" | "r = root" "n \<noteq> 1" | "r \<noteq> root" "n \<noteq> 1" using r root by (cases "r = root"; cases "n = 1") auto
  then show ?thesis
  proof cases
    case 1
    have k: "known K0 r (Ptr rp) 0 v" using own(1) [OF rp] 1 by (simp add: v)
    have l: "sym_all cf sp r [] (bco_local nptrs ct rp) K0 \<and> (\<forall>i < nptrs. known (symK cf sp r [] (bco_local nptrs ct rp) K0) r (Ptr i) 0 v)"
      by (rule bco_local_ok [OF k lv own(2) sp])
    then show ?thesis using P 1 by simp
  next
    case 2
    let ?s = "concat (map (bco_send slot ct rp) (peers n root))" and ?l = "bco_local nptrs ct rp"
    have k: "known K0 root (Ptr rp) 0 v" "\<And>i. i < nptrs \<Longrightarrow> region root (Ptr i) 0 ct \<subseteq> dom K0" using own 2 rp by (simp_all add: v)
    have s: "sym_all cf sp root [] ?s K0" "known (symK cf sp root [] ?s K0) root (Ptr rp) 0 v"
      "\<And>i. i < nptrs \<Longrightarrow> region root (Ptr i) 0 ct \<subseteq> dom (symK cf sp root [] ?s K0)"
      using bco_root_sends [OF _ _ slot root rp lv cf sp k, of "peers n root" "[]"] by simp_all
    have l: "sym_all cf sp root ?s (bco_local nptrs ct rp) (symK cf sp root [] ?s K0) \<and> (\<forall>i < nptrs. known (symK cf sp root ?s (bco_local nptrs ct rp) (symK cf sp root [] ?s K0)) root (Ptr i) 0 v)"
      by (rule bco_local_ok [OF s(2) lv s(3) sp])
    show ?thesis using P 2 s(1) l by (simp add: sym_all_append symK_append waitSends_sym)
  next
    case 3
    have n1: "1 < n" using 3 r by simp
    have sps: "sp_val sp root r slot 0 = v" "sp_dst sp root r slot 0 = (Ptr rp, 0)" "sp_gives sp root r slot 0 = {}"
      "sp_val sp r root slot 0 = []" "sp_src sp r root slot 0 = (Dummy, 0)" "sp_dst sp r root slot 0 = (Dummy, 0)" "sp_gives sp r root slot 0 = region r (Ptr rp) 0 ct"
      using 3 by (simp_all add: sp bco_spec_def)
    let ?M = "region r (Ptr rp) 0 ct"
    have mv: "moves sp r root slot 0 = ?M" "dst_locs sp r root slot 0 = {}" by (auto simp: moves_def dst_locs_def sps region_def)
    define K1 where "K1 = (\<lambda>l. if l \<in> ?M then None else K0 l)"
    define K2 where "K2 = kwr r (Ptr rp) 0 v K1"
    let ?c1 = "BSend root slot Dummy 0 0 0" and ?c2 = "BWaitRecv root slot"
    have fz: "frozen sp r [] = {}" by (simp add: frozen_def)
    have ok1: "sym_ok cf sp r [] ?c1 K0"
      using root own(2) [OF rp] 3 r by (simp add: sym_ok_def Let_def sps mv fz known_def cf bco_reg [OF slot root rp root n1] region_disjoint) (simp add: bco_conf_def)
    have nx1: "sym_next cf sp r [] ?c1 K0 = K1" by (simp add: sym_next_def mv K1_def)
    have ok2: "sym_ok cf sp r [?c1] ?c2 K1" using root by (simp add: sym_ok_def cf bco_conf_def)
    have nx2: "sym_next cf sp r [?c1] ?c2 K1 = K2" by (simp add: sym_next_def sps K2_def Let_def)
    have k2: "known K2 r (Ptr rp) 0 v" unfolding K2_def by (rule kwr_known)
    have dK2: "region r (Ptr i) 0 ct \<subseteq> dom K2" if "i < nptrs" for i
    proof (cases "i = rp")
      case True
      then show ?thesis by (simp add: K2_def dom_kwr lv)
    next
      case False
      then have "region r (Ptr i) 0 ct \<subseteq> dom K1" unfolding K1_def using own(2) [OF that] by (intro subset_dom_if region_disjoint) simp_all
      then show ?thesis by (simp add: K2_def dom_kwr le_supI1)
    qed
    have l: "sym_all cf sp r [?c1, ?c2] (bco_local nptrs ct rp) K2 \<and> (\<forall>i < nptrs. known (symK cf sp r [?c1, ?c2] (bco_local nptrs ct rp) K2) r (Ptr i) 0 v)"
      by (rule bco_local_ok [OF k2 lv dK2 sp])
    show ?thesis using P 3 ok1 nx1 ok2 nx2 l by simp
  qed
qed

section \<open>Levels\<close>

definition bco_levels :: "nat \<Rightarrow> nat \<Rightarrow> nat \<Rightarrow> nat \<Rightarrow> nat \<Rightarrow> nat \<Rightarrow> nat \<Rightarrow> lprog" where
  "bco_levels n slot nptrs ct root rp r =
     (if \<not> r < n then []
      else if n = 1 then map (Pair 0) (bco_local nptrs ct rp)
      else if r = root
      then map (Pair 1) (concat (map (bco_send slot ct rp) (peers n root)) @ bco_local nptrs ct rp) @ map (\<lambda>i. (1, BWaitSend i slot)) (peers n root)
      else [(0, BSend root slot Dummy 0 0 0), (2, BWaitRecv root slot)] @ map (Pair 2) (bco_local nptrs ct rp))"

lemma bco_levels_prog:
  assumes "Suc slot < 2 ^ 31" "root < n" "rp < nptrs"
  shows "bco_prog n slot nptrs ct root rp r = map snd (bco_levels n slot nptrs ct root rp r)"
proof (cases "r < n")
  case True
  show ?thesis using bco_prog_simp [OF assms True, of ct] True by (simp add: bco_levels_def o_def)
qed (simp add: bco_prog_def bco_levels_def)

lemma bco_local_cnt [simp]: "posts j (bco_local nptrs ct rp) = []" "waitsR j s (bco_local nptrs ct rp) = 0" "waitsS j s (bco_local nptrs ct rp) = 0"
proof -
  have "posts j (map (\<lambda>i. BMemcpy (Ptr i) 0 (Ptr rp) 0 ct) xs) = [] \<and> waitsR j s (map (\<lambda>i. BMemcpy (Ptr i) 0 (Ptr rp) 0 ct) xs) = 0 \<and>
    waitsS j s (map (\<lambda>i. BMemcpy (Ptr i) 0 (Ptr rp) 0 ct) xs) = 0" for xs by (induction xs) simp_all
  then show "posts j (bco_local nptrs ct rp) = []" "waitsR j s (bco_local nptrs ct rp) = 0" "waitsS j s (bco_local nptrs ct rp) = 0"
    by (simp_all add: bco_local_def)
qed

lemma posts_waitSends [simp]: "posts j (map (\<lambda>i. BWaitSend i s) is) = []"
  by (induction "is") simp_all

lemma bco_sends_cnt:
  assumes "distinct is"
  shows "on_slot slot (posts j (concat (map (bco_send slot ct rp) is))) = (if j \<in> set is then 1 else 0)"
    "waitsR j slot (concat (map (bco_send slot ct rp) is)) = (if j \<in> set is then 1 else 0)" "waitsS j s (concat (map (bco_send slot ct rp) is)) = 0"
  using assms by (induction "is") (auto simp: bco_send_def)

lemma lv_waitSends:
  assumes "distinct is" "\<And>i. i \<in> set is \<Longrightarrow> i < bc_n cf \<and> waitsS i s (map snd p) < on_slot s (posts i (map snd p))"
  shows "lv_all cf A r p (map (\<lambda>i. (l, BWaitSend i s)) is)"
  using assms
proof (induction "is" arbitrary: p)
  case (Cons i xs)
  have "lv_all cf A r (p @ [(l, BWaitSend i s)]) (map (\<lambda>i. (l, BWaitSend i s)) xs)" using Cons.prems by (intro Cons.IH) auto
  then show ?case using Cons.prems(2) [of i] by (simp add: wait_ok_def)
qed simp

lemma lv_local: "lv_all cf A r p (map (Pair l) (bco_local nptrs ct rp))"
  by (rule lv_simple) (auto simp: bco_local_def)

lemma bco_sends_levels:
  assumes "distinct is"
    and "\<And>i. i \<in> set is \<Longrightarrow> i < bc_n cf \<and> bc_reg cf i r slot \<noteq> None \<and> waitsR i slot (map snd p) = 0 \<and> 0 < on_slot slot (posts r (map snd (filter (\<lambda>x. fst x < 1) (A i))))"
  shows "lv_all cf A r p (map (Pair 1) (concat (map (bco_send slot ct rp) is)))"
  using assms
proof (induction "is" arbitrary: p)
  case (Cons i xs)
  have "lv_all cf A r (p @ map (Pair 1) (bco_send slot ct rp i)) (map (Pair 1) (concat (map (bco_send slot ct rp) xs)))"
    using Cons.prems by (intro Cons.IH) (auto simp: bco_send_def)
  then show ?case using Cons.prems(2) [of i] by (simp add: lv_all_append wait_ok_def bco_send_def [of slot ct rp i])
qed simp

lemma bco_levels_ok:
  fixes cf :: "'a bconf"
  assumes slot: "Suc slot < 2 ^ 31" and root: "root < n" and rp: "rp < nptrs" and cf: "cf = bco_conf n slot nptrs ct root rp"
  shows "levels_ok cf (bco_levels n slot nptrs ct root rp)"
proof (rule levels_okI)
  fix r assume "r < bc_n cf"
  then have r: "r < n" by (simp add: cf bco_conf_def)
  have n: "bc_n cf = n" by (simp add: cf bco_conf_def)
  let ?A = "bco_levels n slot nptrs ct root rp"
  show "sorted (map fst (?A r))" by (auto simp: bco_levels_def sorted_append o_def)
  show "lv_all cf ?A r [] (?A r)"
  proof (cases "n = 1")
    case True
    then have "?A r = map (Pair 0) (bco_local nptrs ct rp)" using r by (simp add: bco_levels_def)
    then show ?thesis using lv_local by metis
  next
    case False
    then have n1: "1 < n" using r by simp
    note reg = bco_reg [OF slot root rp _ n1]
    show ?thesis
    proof (cases "r = root")
      case True
      let ?s = "concat (map (bco_send slot ct rp) (peers n root))"
      have other: "0 < on_slot slot (posts root (map snd (filter (\<lambda>x. fst x < 1) (?A i))))" if "i < n" "i \<noteq> root" for i
        using that False by (simp add: bco_levels_def)
      have "lv_all cf ?A root [] (map (Pair 1) ?s)"
      proof (rule bco_sends_levels)
        fix i assume "i \<in> set (peers n root)"
        then show "i < bc_n cf \<and> bc_reg cf i root slot \<noteq> None \<and> waitsR i slot (map snd []) = 0 \<and> 0 < on_slot slot (posts root (map snd (filter (\<lambda>x. fst x < 1) (?A i))))"
          using other [of i] by (simp add: n) (simp add: cf reg)
      qed simp
      moreover have "lv_all cf ?A root (map (Pair 1) (?s @ bco_local nptrs ct rp)) (map (\<lambda>i. (1, BWaitSend i slot)) (peers n root))"
        by (rule lv_waitSends) (simp_all add: n bco_sends_cnt o_def)
      ultimately show ?thesis unfolding bco_levels_def [of n slot nptrs ct root rp r] using True r False lv_local
        by (simp add: lv_all_append)
    next
      case nr: False
      have "on_slot slot (posts r (map snd (filter (\<lambda>x. fst x < 2) (?A root)))) = 1"
        using nr r root False by (simp add: bco_levels_def bco_sends_cnt o_def)
      moreover have "bc_reg cf root r slot = Some (Dummy, 0, 0)" using nr r root by (simp add: cf reg)
      ultimately show ?thesis unfolding bco_levels_def [of n slot nptrs ct root rp r] using nr r False root lv_local
        by (simp add: wait_ok_def n)
    qed
  qed
qed

text \<open>
  C12: \<open>BroadcastOneToAll\<close>, for any number of processes and pointers and any root: no action fails, the
  run can always go on until all have finished, within a bound, and a process that has finished has in all its
  pointers the elements of the root pointer of the root.
\<close>

theorem broadcast_one_to_all_correct:
  fixes cf :: "'a bconf"
  assumes slot: "Suc slot < 2 ^ 31" and root: "root < n" and rp: "rp < nptrs" and cf: "cf = bco_conf n slot nptrs ct root rp"
    and run: "brun cf as (bstart (bco_prog n slot nptrs ct root rp) m) = Some w"
  shows "bound_safe cf w \<and> bound_live cf w \<and> length as \<le> bound_work cf (bco_prog n slot nptrs ct root rp) \<and>
    (\<forall>r < n. bw_todo w r = [] \<longrightarrow> (\<forall>i < nptrs. \<forall>x < ct. bw_mem w r (Ptr i) x = m root (Ptr rp) x))"
proof -
  define v where "v = rd (m root (Ptr rp)) 0 ct"
  define K0 where "K0 = (\<lambda>r. bco_own nptrs ct (m r) r)"
  have n: "bc_n cf = n" by (simp add: cf bco_conf_def)
  have ok: "sym_all cf (bco_spec slot ct root rp v) r [] (bco_prog n slot nptrs ct root rp r) (K0 r) \<and>
    (\<forall>i < nptrs. known (symK cf (bco_spec slot ct root rp v) r [] (bco_prog n slot nptrs ct root rp r) (K0 r)) r (Ptr i) 0 v)" if "r < n" for r
    unfolding K0_def by (rule bco_prog_ok [where m = m, OF slot root rp that v_def cf refl refl])
  have vf: "verified cf (bco_spec slot ct root rp v) K0 (bco_prog n slot nptrs ct root rp)" using ok by (simp add: verified_def n)
  have so: "start_ok cf K0 m"
    unfolding start_ok_def K0_def by (auto simp: cf bco_conf_def bco_own_def bc_size_of_def split: if_splits bbuf.splits)
  note b = bound_verified [OF vf so bco_levels_ok [OF slot root rp cf] bco_levels_prog [OF slot root rp] run]
  have "bw_mem w r (Ptr i) x = m root (Ptr rp) x" if r: "r < n" "bw_todo w r = []" and i: "i < nptrs" and x: "x < ct" for r i x
  proof -
    have "symK cf (bco_spec slot ct root rp v) r [] (bco_prog n slot nptrs ct root rp r) (K0 r) (r, Ptr i, 0 + x) = Some (Some (v ! x))"
      using ok [OF r(1)] i x unfolding known_def v_def by (metis length_rd)
    then have "bw_mem w r (Ptr i) (0 + x) = v ! x" using b(4) [of r r "Ptr i" "0 + x" "v ! x"] r by (simp add: n)
    then show ?thesis using x by (simp add: v_def rd_def)
  qed
  then show ?thesis using b(1-3) by blast
qed

text \<open>Two processes: process 1 broadcasts; the message has arrived at process 0.\<close>

theorem broadcast_one_to_all_correct_witness:
  "\<exists>w. brun (bco_conf 2 0 1 1 1 0 :: nat bconf) [Run 0, Xmit 0 1, Deliver 0 1, Run 1, Run 1, Xmit 1 0, Deliver 1 0, Run 0]
         (bstart (bco_prog 2 0 1 1 1 0) (\<lambda>r _ _. r + 5)) = Some w \<and> bw_mem w 0 (Ptr 0) 0 = 6 \<and>
       bound_safe (bco_conf 2 0 1 1 1 0) w \<and> bound_live (bco_conf 2 0 1 1 1 0) w"
proof -
  have "map_option (\<lambda>w. bw_mem w 0 (Ptr 0) 0) (brun (bco_conf 2 0 1 1 1 0 :: nat bconf) [Run 0, Xmit 0 1, Deliver 0 1, Run 1, Run 1, Xmit 1 0, Deliver 1 0, Run 0]
         (bstart (bco_prog 2 0 1 1 1 0) (\<lambda>r _ _. r + 5))) = Some 6"
    by code_simp
  then obtain w where w: "brun (bco_conf 2 0 1 1 1 0 :: nat bconf) [Run 0, Xmit 0 1, Deliver 0 1, Run 1, Run 1, Xmit 1 0, Deliver 1 0, Run 0]
         (bstart (bco_prog 2 0 1 1 1 0) (\<lambda>r _ _. r + 5)) = Some w" "bw_mem w 0 (Ptr 0) 0 = 6" by blast
  show ?thesis using broadcast_one_to_all_correct [OF _ _ _ refl w(1)] w by simp
qed

end
