(* ===== verification/Gloo_Alg_Rings.thy ===== *)
theory Gloo_Alg_Rings
  imports Gloo_Algorithm Gloo_Sum
begin

text \<open>
  The ring algorithms on bound buffers. In every round a process sends to its right neighbour, receives from
  its left neighbour, tells the left neighbour that its buffer may be written again, and waits for the
  same word from the right.
\<close>

section \<open>Rings\<close>

definition ring_left :: "nat \<Rightarrow> nat \<Rightarrow> nat" where
  "ring_left n r = (n + r - 1) mod n"

definition ring_right :: "nat \<Rightarrow> nat \<Rightarrow> nat" where
  "ring_right n r = (r + 1) mod n"

lemma bring_neighbours [simp]:
  assumes "r < n"
  shows "ring_left n r < n" "ring_right n r < n" "ring_left n (ring_right n r) = r" "ring_right n (ring_left n r) = r"
proof -
  show "ring_left n r < n" "ring_right n r < n" using assms by (simp_all add: ring_left_def ring_right_def)
  show "ring_left n (ring_right n r) = r" using assms by (cases "Suc r = n") (auto simp: ring_left_def ring_right_def)
  show "ring_right n (ring_left n r) = r"
  proof (cases r)
    case 0
    then show ?thesis using assms by (cases n) (simp_all add: ring_left_def ring_right_def)
  next
    case (Suc q)
    then have "ring_left n r = q" using assms by (simp add: ring_left_def)
    then show ?thesis using assms Suc by (simp add: ring_right_def)
  qed
qed

lemma ring_neighbours_neq:
  assumes "r < n" "1 < n"
  shows "ring_left n r \<noteq> r \<and> ring_right n r \<noteq> r"
proof -
  have "ring_right n q \<noteq> q" if "q < n" for q using that assms(2) by (cases "Suc q = n") (auto simp: ring_right_def)
  then show ?thesis using bring_neighbours [OF assms(1)] assms(1) by metis
qed

lemma ring_back:
  assumes "r < n" "k < n"
  shows "(ring_left n r + n - k) mod n = (r + n - Suc k) mod n"
proof (cases r)
  case 0
  have l: "ring_left n r = n - 1" using 0 assms by (simp add: ring_left_def)
  have "(n - 1) + n - k = (n - Suc k) + n" using assms by simp
  then have "(ring_left n r + n - k) mod n = (n - Suc k) mod n" by (simp only: l mod_add_self2)
  then show ?thesis using 0 by simp
next
  case (Suc q)
  then have "ring_left n r = q" using assms by (simp add: ring_left_def)
  then show ?thesis using Suc by simp
qed

lemma pairs_mesh:
  assumes "r < n" "1 < n"
  shows "getLeftPair (mesh_ctx n slot r) = Inr (ring_left n r)" "getRightPair (mesh_ctx n slot r) = Inr (ring_right n r)"
  using assms ring_neighbours_neq [OF assms] bring_neighbours [OF assms(1)]
  by (simp_all add: getLeftPair_def getRightPair_def Let_def ring_left_def ring_right_def)

text \<open>The messages and waits of a process in a ring: data to the right, notifications to the left.\<close>

definition ring_cnt :: "nat \<Rightarrow> nat \<Rightarrow> nat \<Rightarrow> bprog \<Rightarrow> nat \<Rightarrow> nat \<Rightarrow> nat \<Rightarrow> nat \<Rightarrow> nat \<Rightarrow> bool" where
  "ring_cnt n slot r p sd wd dr sn rn \<longleftrightarrow>
     (\<forall>j s. on_slot s (posts j p) = (if s = slot \<and> j = ring_right n r then sd else if s = Suc slot \<and> j = ring_left n r then sn else 0)) \<and>
     (\<forall>j s. waitsS j s p = (if s = slot \<and> j = ring_right n r then wd else 0)) \<and>
     (\<forall>i s. waitsR i s p = (if s = slot \<and> i = ring_left n r then dr else if s = Suc slot \<and> i = ring_right n r then rn else 0))"

lemma ring_cntD:
  assumes "ring_cnt n slot r p sd wd dr sn rn"
  shows "on_slot s (posts j p) = (if s = slot \<and> j = ring_right n r then sd else if s = Suc slot \<and> j = ring_left n r then sn else 0)"
    "waitsS j s p = (if s = slot \<and> j = ring_right n r then wd else 0)"
    "waitsR j s p = (if s = slot \<and> j = ring_left n r then dr else if s = Suc slot \<and> j = ring_right n r then rn else 0)"
  using assms unfolding ring_cnt_def by blast+

lemma ring_cnt_Nil [simp]: "ring_cnt n slot r [] 0 0 0 0 0"
  by (simp add: ring_cnt_def)

lemma ring_cnt_step:
  assumes "ring_cnt n slot r p sd wd dr sn rn"
  shows "ring_cnt n slot r (p @ [BSend (ring_right n r) slot b off len roff]) (Suc sd) wd dr sn rn"
    "ring_cnt n slot r (p @ [BWaitSend (ring_right n r) slot]) sd (Suc wd) dr sn rn"
    "ring_cnt n slot r (p @ [BWaitRecv (ring_left n r) slot]) sd wd (Suc dr) sn rn"
    "ring_cnt n slot r (p @ [BSend (ring_left n r) (Suc slot) b off len roff]) sd wd dr (Suc sn) rn"
    "ring_cnt n slot r (p @ [BWaitRecv (ring_right n r) (Suc slot)]) sd wd dr sn (Suc rn)"
    "ring_cnt n slot r (p @ [BMemcpy d doff b off len]) sd wd dr sn rn"
    "ring_cnt n slot r (p @ [BReduce d doff b off len]) sd wd dr sn rn"
  using assms by (auto simp: ring_cnt_def)

text \<open>When all sends of data have been waited for, nothing is frozen; otherwise only the sources of data are.\<close>

lemma ring_frozen:
  assumes "ring_cnt n slot r p sd wd dr sn rn" "\<And>k. src_locs sp r (ring_left n r) (Suc slot) k = {}"
  shows "frozen sp r p \<subseteq> (\<Union>k \<in> {wd..<sd}. src_locs sp r (ring_right n r) slot k)"
proof
  fix l assume "l \<in> frozen sp r p"
  then obtain j s k where f: "waitsS j s p \<le> k" "k < on_slot s (posts j p)" "l \<in> src_locs sp r j s k" by (rule frozenE)
  then show "l \<in> (\<Union>k \<in> {wd..<sd}. src_locs sp r (ring_right n r) slot k)"
    using assms(2) unfolding ring_cntD [OF assms(1)] by (auto split: if_splits)
qed

section \<open>Reduction around a ring\<close>

text \<open>The local result of a process, from its initial memory, and the result of the ring after some rounds.\<close>

definition local_val :: "('a list \<Rightarrow> 'a list \<Rightarrow> 'a list) \<Rightarrow> nat \<Rightarrow> nat \<Rightarrow> (bbuf \<Rightarrow> nat \<Rightarrow> 'a) \<Rightarrow> 'a list" where
  "local_val fn nptrs ct m = foldl (\<lambda>acc i. fn acc (rd (m (Ptr i)) 0 ct)) (rd (m (Ptr 0)) 0 ct) [1..<nptrs]"

definition ring_val :: "('a list \<Rightarrow> 'a list \<Rightarrow> 'a list) \<Rightarrow> nat \<Rightarrow> (nat \<Rightarrow> 'a list) \<Rightarrow> nat \<Rightarrow> nat \<Rightarrow> 'a list" where
  "ring_val fn n L r rnds = foldl fn (L r) (map (\<lambda>k. L ((r + n - k) mod n)) [1..<Suc rnds])"

lemma ring_val_simps: "ring_val fn n L r 0 = L r" "ring_val fn n L r (Suc k) = fn (ring_val fn n L r k) (L ((r + n - Suc k) mod n))"
  by (simp_all add: ring_val_def)

definition arr_spec :: "nat \<Rightarrow> nat \<Rightarrow> nat \<Rightarrow> (nat \<Rightarrow> 'a list) \<Rightarrow> 'a bspec" where
  "arr_spec n slot ct L = \<lparr>
     sp_val = (\<lambda>i j s k. if s = slot \<and> j = ring_right n i then L ((i + n - k) mod n) else []),
     sp_src = (\<lambda>i j s k. if s = slot then (Outbox, 0) else (Dummy, 0)),
     sp_dst = (\<lambda>i j s k. if s = slot then (Inbox 0, 0) else (Dummy, 0)),
     sp_gives = (\<lambda>i j s k. if s = Suc slot \<and> j = ring_left n i then region i (Inbox 0) 0 ct else {})\<rparr>"

text \<open>A process starts with its own pointers, its outbox, and the inbox of its right neighbour.\<close>

definition arr_own :: "nat \<Rightarrow> nat \<Rightarrow> nat \<Rightarrow> (bbuf \<Rightarrow> nat \<Rightarrow> 'a) \<Rightarrow> nat \<Rightarrow> 'a know" where
  "arr_own n nptrs ct m r = (\<lambda>(q, b, x).
     if x < ct then (case b of
         Ptr i \<Rightarrow> if q = r \<and> i < nptrs then Some (Some (m (Ptr i) x)) else None
       | Outbox \<Rightarrow> if q = r then Some None else None
       | Inbox i \<Rightarrow> if q = ring_right n r \<and> i = 0 then Some None else None
       | _ \<Rightarrow> None)
     else None)"

definition arr_size :: "nat \<Rightarrow> nat \<Rightarrow> bbuf \<Rightarrow> nat" where
  "arr_size nptrs ct b = (case b of Ptr i \<Rightarrow> if i < nptrs then ct else 0 | Outbox \<Rightarrow> ct | Inbox i \<Rightarrow> if i = 0 then ct else 0 | _ \<Rightarrow> 0)"

definition arr_conf :: "nat \<Rightarrow> nat \<Rightarrow> nat \<Rightarrow> nat \<Rightarrow> ('a list \<Rightarrow> 'a list \<Rightarrow> 'a list) \<Rightarrow> 'a bconf" where
  "arr_conf n slot nptrs ct fn = alg_conf n (arr_size nptrs ct) (\<lambda>r. ctor_recvs (AllreduceRing_new (mesh_ctx n slot r) ct) rb_recvs) fn"

definition arr_prog :: "nat \<Rightarrow> nat \<Rightarrow> nat \<Rightarrow> nat \<Rightarrow> nat \<Rightarrow> bprog" where
  "arr_prog n slot nptrs ct r =
     (if r < n then ctor_prog (AllreduceRing_new (mesh_ctx n slot r) ct) (AllreduceRing_run (mesh_ctx n slot r) nptrs ct) 1 else [])"

lemma AllreduceRing_new_mesh:
  assumes "r < n" "slot + 2 < 2 ^ 31"
  shows "AllreduceRing_new (mesh_ctx n slot r) ct =
    (if n = 1 then Inr (no_bufs, mesh_ctx n slot r)
     else Inr (ring_bufs (ring_left n r) (ring_right n r) slot (Suc slot) Outbox (Inbox 0) ct, mesh_ctx n (Suc (Suc slot)) r))"
  using assms by (simp add: AllreduceRing_new_def pairs_mesh)

definition arr_round :: "nat \<Rightarrow> nat \<Rightarrow> nat \<Rightarrow> nat \<Rightarrow> nat \<Rightarrow> bprog" where
  "arr_round n slot ct r k =
     [BSend (ring_right n r) slot Outbox 0 ct 0, BWaitRecv (ring_left n r) slot, BReduce (Ptr 0) 0 (Inbox 0) 0 ct, BWaitSend (ring_right n r) slot] @
     (if k + 2 < n then [BMemcpy Outbox 0 (Inbox 0) 0 ct] else []) @
     [BSend (ring_left n r) (Suc slot) Dummy 0 0 0, BWaitRecv (ring_right n r) (Suc slot)]"

lemma arr_prog_simp:
  assumes "r < n" "slot + 2 < 2 ^ 31"
  shows "arr_prog n slot nptrs ct r =
    (if ct = 0 then []
     else local_reduce nptrs ct @ [BMemcpy Outbox 0 (Ptr 0) 0 ct] @ concat (map (arr_round n slot ct r) [0..<n - 1]) @ local_bcast nptrs ct)"
proof -
  have "AllreduceRing_round (mesh_ctx n slot r) ct (ring_bufs (ring_left n r) (ring_right n r) slot (Suc slot) Outbox (Inbox 0) ct) = arr_round n slot ct r"
    by (rule ext) (auto simp: AllreduceRing_round_def arr_round_def ring_bufs_def h_defs)
  then show ?thesis using assms by (simp add: arr_prog_def AllreduceRing_new_mesh AllreduceRing_run_def del: upt.simps)
qed

lemma arr_reg:
  assumes "r < n" "j < n" "1 < n" "slot + 2 < 2 ^ 31"
  shows "bc_reg (arr_conf n slot nptrs ct fn) j r slot = (if r = ring_left n j then Some (Inbox 0, 0, ct) else None)"
    "bc_reg (arr_conf n slot nptrs ct fn) j r (Suc slot) = (if r = ring_right n j then Some (Dummy, 0, 0) else None)"
  using assms by (auto simp: arr_conf_def AllreduceRing_new_mesh rb_recvs_def ring_bufs_def createBuffer_def)

text \<open>What holds at the start of a round.\<close>

definition arr_inv :: "nat \<Rightarrow> nat \<Rightarrow> nat \<Rightarrow> nat \<Rightarrow> ('a list \<Rightarrow> 'a list \<Rightarrow> 'a list) \<Rightarrow> (nat \<Rightarrow> 'a list) \<Rightarrow> nat \<Rightarrow> nat \<Rightarrow> bprog \<Rightarrow> 'a know \<Rightarrow> bool" where
  "arr_inv n slot nptrs ct fn L r k p K \<longleftrightarrow>
     ring_cnt n slot r p k k k k k \<and> known K r (Ptr 0) 0 (ring_val fn n L r k) \<and>
     (k + 1 < n \<longrightarrow> known K r Outbox 0 (L ((r + n - k) mod n))) \<and>
     region r Outbox 0 ct \<subseteq> dom K \<and> region (ring_right n r) (Inbox 0) 0 ct \<subseteq> dom K \<and>
     (\<forall>i. 0 < i \<and> i < nptrs \<longrightarrow> region r (Ptr i) 0 ct \<subseteq> dom K)"

lemma arr_round_ok:
  assumes I: "arr_inv n slot nptrs ct fn L r k p K" and k: "k < n - 1" and r: "r < n" and slot: "slot + 2 < 2 ^ 31"
    and L: "\<And>q. length (L q) = ct" and fn: "\<And>xs ys. length xs = length ys \<Longrightarrow> length (fn xs ys) = length xs"
    and cf: "cf = arr_conf n slot nptrs ct fn" and sp: "sp = arr_spec n slot ct L"
  shows "sym_all cf sp r p (arr_round n slot ct r k) K \<and>
    arr_inv n slot nptrs ct fn L r (Suc k) (p @ arr_round n slot ct r k) (symK cf sp r p (arr_round n slot ct r k) K)"
proof -
  let ?R = "ring_right n r" and ?Lf = "ring_left n r"
  let ?IR = "region ?R (Inbox 0) 0 ct" and ?Ir = "region r (Inbox 0) 0 ct"
  have n1: "1 < n" using k by simp
  note nb = bring_neighbours [OF r] and ne = ring_neighbours_neq [OF r n1]
  let ?v = "L ((r + n - k) mod n)" and ?u = "L ((r + n - Suc k) mod n)" and ?a = "ring_val fn n L r k"
  have c0: "ring_cnt n slot r p k k k k k" and a0: "known K r (Ptr 0) 0 ?a" and o0: "known K r Outbox 0 ?v"
    and d0: "region r Outbox 0 ct \<subseteq> dom K" "?IR \<subseteq> dom K" "\<And>i. 0 < i \<Longrightarrow> i < nptrs \<Longrightarrow> region r (Ptr i) 0 ct \<subseteq> dom K"
    using I k by (simp_all add: arr_inv_def)
  have la: "length (ring_val fn n L r j) = ct" for j by (induction j) (simp_all add: ring_val_simps L fn)
  have lu: "length ?u = ct" "length ?v = ct" "length (fn ?a ?u) = ct" by (simp_all add: L la fn)
  have snot: "src_locs sp r ?Lf (Suc slot) j = {}" for j by (auto simp: src_locs_def sp arr_spec_def region_def)
  have sdat: "src_locs sp r ?R slot j \<subseteq> region r Outbox 0 ct" for j by (auto simp: src_locs_def sp arr_spec_def region_def L)
  have val: "sp_val sp r ?R slot k = ?v" "sp_val sp ?Lf r slot k = ?u" "sp_val sp r ?Lf (Suc slot) k = []" "sp_val sp ?R r (Suc slot) k = []"
    using ring_back [OF r, of k] k nb by (simp_all add: sp arr_spec_def)
  have sr: "sp_src sp r j slot k' = (Outbox, 0)" "sp_src sp r j (Suc slot) k' = (Dummy, 0)" "sp_dst sp i j slot k' = (Inbox 0, 0)"
    "sp_dst sp i j (Suc slot) k' = (Dummy, 0)" "sp_gives sp i j slot k' = {}" "sp_gives sp r ?Lf (Suc slot) k' = ?Ir" "sp_gives sp ?R r (Suc slot) k' = ?IR" for i j k'
    using nb by (simp_all add: sp arr_spec_def)
  have mv: "moves sp r ?R slot k = ?IR" "moves sp r ?Lf (Suc slot) k = ?Ir" "dst_locs sp r ?R slot k = ?IR" "dst_locs sp r ?Lf (Suc slot) k = {}"
    by (auto simp: moves_def dst_locs_def sr val lu region_def)
  have rg: "bc_reg cf ?R r slot = Some (Inbox 0, 0, ct)" "bc_reg cf ?Lf r (Suc slot) = Some (Dummy, 0, 0)"
    unfolding cf using nb by (simp_all add: arr_reg [OF r _ n1 slot])
  have cfs: "bc_n cf = n" "bc_fn cf = fn" by (simp_all add: cf arr_conf_def)
  \<comment> \<open>the send of data\<close>
  let ?c1 = "BSend ?R slot Outbox 0 ct 0" let ?p1 = "p @ [?c1]"
  define K1 where "K1 = (\<lambda>l. if l \<in> ?IR then None else K l)"
  have c1: "ring_cnt n slot r ?p1 (Suc k) k k k k" by (rule ring_cnt_step [OF c0])
  have f0: "frozen sp r p = {}" using ring_frozen [OF c0 snot] by simp
  have ok1: "sym_ok cf sp r p ?c1 K"
    by (simp add: sym_ok_def Let_def ring_cntD [OF c0] val lu sr rg nb o0 cfs mv d0 f0 region_disjoint)
  have nx1: "sym_next cf sp r p ?c1 K = K1" by (simp add: sym_next_def K1_def ring_cntD [OF c0] mv)
  have k1: "known K1 r (Ptr 0) 0 ?a" "known K1 r Outbox 0 ?v" "region r Outbox 0 ct \<subseteq> dom K1"
    "\<And>i. 0 < i \<Longrightarrow> i < nptrs \<Longrightarrow> region r (Ptr i) 0 ct \<subseteq> dom K1"
    unfolding K1_def using a0 o0 d0 by (simp_all add: known_drop subset_dom_if region_disjoint)
  \<comment> \<open>the receipt of data\<close>
  let ?c2 = "BWaitRecv ?Lf slot" let ?p2 = "?p1 @ [?c2]"
  define K2 where "K2 = kwr r (Inbox 0) 0 ?u K1"
  have c2: "ring_cnt n slot r ?p2 (Suc k) k (Suc k) k k" by (rule ring_cnt_step [OF c1])
  have nx2: "sym_next cf sp r ?p1 ?c2 K1 = K2" by (simp add: sym_next_def K2_def ring_cntD [OF c0] val sr Let_def)
  have ok2: "sym_ok cf sp r ?p1 ?c2 K1" using nb by (simp add: sym_ok_def cfs)
  have k2: "known K2 r (Ptr 0) 0 ?a" "known K2 r Outbox 0 ?v" "known K2 r (Inbox 0) 0 ?u" "region r Outbox 0 ct \<subseteq> dom K2"
    "\<And>i. 0 < i \<Longrightarrow> i < nptrs \<Longrightarrow> region r (Ptr i) 0 ct \<subseteq> dom K2"
    unfolding K2_def using k1 by (auto intro: known_kwr_other known_kwr_same simp: dom_kwr)
  \<comment> \<open>the reduction\<close>
  let ?c3 = "BReduce (Ptr 0) 0 (Inbox 0) 0 ct" let ?p3 = "?p2 @ [?c3]"
  define K3 where "K3 = kwr r (Ptr 0) 0 (fn ?a ?u) K2"
  have c3: "ring_cnt n slot r ?p3 (Suc k) k (Suc k) k k" by (rule ring_cnt_step [OF c2])
  have fr2: "frozen sp r ?p2 \<subseteq> region r Outbox 0 ct" using ring_frozen [OF c2 snot] sdat by auto
  have "region r (Ptr 0) 0 ct \<inter> frozen sp r ?p2 = {}" using fr2 region_disjoint [of r "Ptr 0" r Outbox 0 ct 0 ct] by auto
  then have ok3: "sym_ok cf sp r ?p2 ?c3 K2" using known_rd [OF k2(1) la] known_rd [OF k2(3) lu(1)] by (simp add: sym_ok_def)
  have nx3: "sym_next cf sp r ?p2 ?c3 K2 = K3" by (simp add: sym_next_def K3_def cfs krd_len [OF k2(1) la] krd_len [OF k2(3) lu(1)])
  have k3: "known K3 r (Ptr 0) 0 (fn ?a ?u)" "known K3 r (Inbox 0) 0 ?u" "region r Outbox 0 ct \<subseteq> dom K3"
    "\<And>i. 0 < i \<Longrightarrow> i < nptrs \<Longrightarrow> region r (Ptr i) 0 ct \<subseteq> dom K3"
    unfolding K3_def using k2 by (auto intro: known_kwr_other known_kwr_same simp: dom_kwr)
  \<comment> \<open>the completion of the send, and the next outbox\<close>
  let ?c4 = "BWaitSend ?R slot" let ?p4 = "?p3 @ [?c4]"
  have c4: "ring_cnt n slot r ?p4 (Suc k) (Suc k) (Suc k) k k" by (rule ring_cnt_step [OF c3])
  have nx4: "sym_next cf sp r ?p3 ?c4 K3 = K3" "sym_ok cf sp r ?p3 ?c4 K3" by (simp_all add: sym_next_def sym_ok_def)
  let ?q = "if k + 2 < n then [BMemcpy Outbox 0 (Inbox 0) 0 ct] else []" let ?p5 = "?p4 @ ?q"
  define K5 where "K5 = (if k + 2 < n then kwr r Outbox 0 ?u K3 else K3)"
  have c5: "ring_cnt n slot r ?p5 (Suc k) (Suc k) (Suc k) k k" using c4 ring_cnt_step(6) [OF c4] by simp
  have f4: "frozen sp r ?p4 = {}" using ring_frozen [OF c4 snot] by simp
  have f5: "frozen sp r ?p5 = {}" using ring_frozen [OF c5 snot] by simp
  have ok5: "sym_all cf sp r ?p4 ?q K3 \<and> symK cf sp r ?p4 ?q K3 = K5"
    using known_rd [OF k3(2) lu(1)] k3(3) f4 by (simp add: sym_ok_def sym_next_def K5_def krd_len [OF k3(2) lu(1)])
  have k5: "known K5 r (Ptr 0) 0 (fn ?a ?u)" "known K5 r (Inbox 0) 0 ?u" "region r Outbox 0 ct \<subseteq> dom K5" "k + 2 < n \<Longrightarrow> known K5 r Outbox 0 ?u"
    "\<And>i. 0 < i \<Longrightarrow> i < nptrs \<Longrightarrow> region r (Ptr i) 0 ct \<subseteq> dom K5"
    unfolding K5_def using k3 by (auto intro: known_kwr_other known_kwr_same simp: dom_kwr)
  \<comment> \<open>the notifications\<close>
  let ?c6 = "BSend ?Lf (Suc slot) Dummy 0 0 0" 
  define p5 where "p5 = ?p5"
  define p6 where "p6 = p5 @ [?c6]"
  note c5 = c5 [folded p5_def] and f5 = f5 [folded p5_def]
  define K6 where "K6 = (\<lambda>l. if l \<in> ?Ir then None else K5 l)"
  have c6: "ring_cnt n slot r p6 (Suc k) (Suc k) (Suc k) (Suc k) k" unfolding p6_def by (rule ring_cnt_step [OF c5])
  have ok6: "sym_ok cf sp r p5 ?c6 K5"
    unfolding sym_ok_def Let_def using known_sub [OF k5(2) lu(1)] by (simp add: ring_cntD [OF c5] val sr rg nb cfs mv f5 region_disjoint known_def)
  have nx6: "sym_next cf sp r p5 ?c6 K5 = K6" unfolding sym_next_def K6_def by (simp add: ring_cntD [OF c5] mv)
  let ?c7 = "BWaitRecv ?R (Suc slot)"
  define K7 where "K7 = kwr r Dummy 0 [] (\<lambda>l. if l \<in> ?IR then Some None else K6 l)"
  have c7: "ring_cnt n slot r (p6 @ [?c7]) (Suc k) (Suc k) (Suc k) (Suc k) (Suc k)" by (rule ring_cnt_step [OF c6])
  have nx7: "sym_next cf sp r p6 ?c7 K6 = K7" unfolding sym_next_def K7_def by (simp add: ring_cntD [OF c6] val sr Let_def)
  have ok7: "sym_ok cf sp r p6 ?c7 K6" using nb by (simp add: sym_ok_def cfs)
  have k6: "known K6 r (Ptr 0) 0 (fn ?a ?u)" "region r Outbox 0 ct \<subseteq> dom K6" "k + 2 < n \<Longrightarrow> known K6 r Outbox 0 ?u"
    "\<And>i. 0 < i \<Longrightarrow> i < nptrs \<Longrightarrow> region r (Ptr i) 0 ct \<subseteq> dom K6"
    unfolding K6_def using k5 by (simp_all add: known_drop subset_dom_if region_disjoint)
  have k7: "known K7 r (Ptr 0) 0 (fn ?a ?u)" "region r Outbox 0 ct \<subseteq> dom K7" "k + 2 < n \<Longrightarrow> known K7 r Outbox 0 ?u" "?IR \<subseteq> dom K7"
    "\<And>i. 0 < i \<Longrightarrow> i < nptrs \<Longrightarrow> region r (Ptr i) 0 ct \<subseteq> dom K7"
    unfolding K7_def using k6 by (simp_all add: known_drop known_kwr_other subset_dom_give region_disjoint dom_kwr le_supI1)
  have sa: "sym_all cf sp r p (arr_round n slot ct r k) K \<and> symK cf sp r p (arr_round n slot ct r k) K = K7"
    using ok1 nx1 ok2 nx2 ok3 nx3 nx4 ok5 ok6 nx6 ok7 nx7 unfolding p6_def p5_def arr_round_def by (simp add: sym_all_append symK_append del: append_assoc)
  have "p @ arr_round n slot ct r k = p6 @ [?c7]" by (simp add: arr_round_def p6_def p5_def)
  then have "arr_inv n slot nptrs ct fn L r (Suc k) (p @ arr_round n slot ct r k) K7"
    unfolding arr_inv_def using c7 k7 by (auto simp: ring_val_simps simp del: append_assoc)
  then show ?thesis using sa by simp
qed

section \<open>The program\<close>

lemma arr_own_known: "i < nptrs \<Longrightarrow> known (arr_own n nptrs ct m r) r (Ptr i) 0 (rd (m (Ptr i)) 0 ct)"
  by (simp add: known_def arr_own_def rd_def)

lemma arr_prog_ok:
  assumes r: "r < n" and slot: "slot + 2 < 2 ^ 31" and np: "0 < nptrs" and c: "0 < ct"
    and L: "L = (\<lambda>q. local_val fn nptrs ct (m q))" and fn: "\<And>xs ys. length xs = length ys \<Longrightarrow> length (fn xs ys) = length xs"
    and cf: "cf = arr_conf n slot nptrs ct fn" and sp: "sp = arr_spec n slot ct L" and K0: "K0 = arr_own n nptrs ct (m r) r"
  shows "sym_all cf sp r [] (arr_prog n slot nptrs ct r) K0 \<and>
    (\<forall>i < nptrs. known (symK cf sp r [] (arr_prog n slot nptrs ct r) K0) r (Ptr i) 0 (ring_val fn n L r (n - 1)))"
proof -
  have cfs: "bc_fn cf = fn" by (simp add: cf arr_conf_def)
  have fl: "length (foldl (\<lambda>acc i. fn acc (rd (m q (Ptr i)) 0 ct)) a xs) = ct" if "length a = ct" for q a xs
    using that by (induction xs arbitrary: a) (simp_all add: fn rd_def)
  then have lL: "length (L q) = ct" for q by (simp add: L local_val_def rd_def)
  have la: "length (ring_val fn n L r j) = ct" for j by (induction j) (simp_all add: ring_val_simps lL fn)
  have cnt0: "ring_cnt n slot r (local_reduce nptrs ct) 0 0 0 0 0" by (simp add: ring_cnt_def)
  have snot: "src_locs sp r (ring_left n r) (Suc slot) j = {}" for j by (auto simp: src_locs_def sp arr_spec_def region_def)
  define K1 where "K1 = symK cf sp r [] (local_reduce nptrs ct) K0"
  have fz: "frozen sp r [] = {}" by (simp add: frozen_def)
  have red: "sym_all cf sp r [] (local_reduce nptrs ct) K0" "known K1 r (Ptr 0) 0 (L r)" "\<And>l. l \<notin> region r (Ptr 0) 0 ct \<Longrightarrow> K1 l = K0 l"
  proof -
    have pre: "i \<noteq> 0 \<and> known K0 r (Ptr i) 0 (rd (m r (Ptr i)) 0 ct) \<and> length (rd (m r (Ptr i)) 0 ct) = ct" if "i \<in> set [1..<nptrs]" for i
      using that by (simp add: K0 arr_own_known)
    have k0: "known K0 r (Ptr 0) 0 (rd (m r (Ptr 0)) 0 ct)" "length (rd (m r (Ptr 0)) 0 ct) = ct"
      using np by (simp_all add: K0 arr_own_known)
    note R = reduce_list_sym [of "[1..<nptrs]" K0 r "\<lambda>i. rd (m r (Ptr i)) 0 ct" ct _ sp "[]" cf, OF pre k0 fz, unfolded cfs, OF _ fn,
        folded local_reduce_def, folded K1_def]
    show "sym_all cf sp r [] (local_reduce nptrs ct) K0" using R by blast
    show "known K1 r (Ptr 0) 0 (L r)" using R by (simp add: L local_val_def)
    show "K1 l = K0 l" if "l \<notin> region r (Ptr 0) 0 ct" for l using R that by blast
  qed
  have f1: "frozen sp r (local_reduce nptrs ct) = {}" using ring_frozen [OF cnt0 snot] by simp
  have K1d: "region r Outbox 0 ct \<subseteq> dom K1" "region (ring_right n r) (Inbox 0) 0 ct \<subseteq> dom K1" "\<And>i. 0 < i \<Longrightarrow> i < nptrs \<Longrightarrow> region r (Ptr i) 0 ct \<subseteq> dom K1"
    using red(3) by (auto simp: region_def K0 arr_own_def dom_def)
  let ?cp = "BMemcpy Outbox 0 (Ptr 0) 0 ct" let ?p2 = "local_reduce nptrs ct @ [?cp]"
  define K2 where "K2 = kwr r Outbox 0 (L r) K1"
  have cp: "sym_ok cf sp r (local_reduce nptrs ct) ?cp K1" "sym_next cf sp r (local_reduce nptrs ct) ?cp K1 = K2"
    using known_rd [OF red(2) lL] K1d(1) f1 by (simp_all add: sym_ok_def sym_next_def K2_def krd_len [OF red(2) lL])
  have I0: "arr_inv n slot nptrs ct fn L r 0 ?p2 K2"
    unfolding arr_inv_def K2_def using red(2) K1d r ring_cnt_step(6) [OF cnt0, of Outbox 0 "Ptr 0" 0 ct]
    by (simp add: dom_kwr known_kwr_other known_kwr_same ring_val_simps le_supI1)
  let ?rs = "concat (map (arr_round n slot ct r) [0..<n - 1])"
  from sym_rounds [of "n - 1" "arr_inv n slot nptrs ct fn L r" cf sp r "arr_round n slot ct r" ?p2 K2, OF arr_round_ok [OF _ _ r slot lL fn cf sp] I0]
  have rs: "sym_all cf sp r ?p2 ?rs K2" "arr_inv n slot nptrs ct fn L r (n - 1) (?p2 @ ?rs) (symK cf sp r ?p2 ?rs K2)" by blast+
  have f3: "frozen sp r (?p2 @ ?rs) = {}"
    using ring_frozen [of n slot r "?p2 @ ?rs" "n - 1" "n - 1" "n - 1" "n - 1" "n - 1" sp, OF _ snot] rs(2) by (simp add: arr_inv_def)
  have bc: "sym_all cf sp r (?p2 @ ?rs) (local_bcast nptrs ct) (symK cf sp r ?p2 ?rs K2)"
    "\<forall>i \<in> insert 0 (set [1..<nptrs]). known (symK cf sp r (?p2 @ ?rs) (local_bcast nptrs ct) (symK cf sp r ?p2 ?rs K2)) r (Ptr i) 0 (ring_val fn n L r (n - 1))"
    using bcast_list_sym [of "[1..<nptrs]" 0 r ct "symK cf sp r ?p2 ?rs K2" sp "?p2 @ ?rs" "ring_val fn n L r (n - 1)" cf, OF _ _ la] f3 rs(2)
    unfolding local_bcast_def arr_inv_def by auto
  have P: "arr_prog n slot nptrs ct r = local_reduce nptrs ct @ [?cp] @ ?rs @ local_bcast nptrs ct"
    using arr_prog_simp [OF r slot] c by simp
  have sk: "symK cf sp r [] (arr_prog n slot nptrs ct r) K0 = symK cf sp r (?p2 @ ?rs) (local_bcast nptrs ct) (symK cf sp r ?p2 ?rs K2)"
    unfolding P by (simp add: symK_append cp flip: K1_def)
  have "sym_all cf sp r [] (arr_prog n slot nptrs ct r) K0"
    unfolding P using red(1) cp rs(1) bc(1) by (simp add: sym_all_append symK_append flip: K1_def)
  moreover have "known (symK cf sp r [] (arr_prog n slot nptrs ct r) K0) r (Ptr i) 0 (ring_val fn n L r (n - 1))" if "i < nptrs" for i
    unfolding sk using bc(2) that by (cases i) auto
  ultimately show ?thesis by blast
qed

section \<open>Levels\<close>

text \<open>
  A program of rounds: in round \<open>k\<close> data is sent on level \<open>4k\<close> and awaited on level \<open>4k + 1\<close>; notifications are
  sent on level \<open>4k + 2\<close> and awaited on level \<open>4k + 3\<close>. Local commands come before and after the rounds and after
  the receipt of data; the completion of the send may be awaited between them.
\<close>

fun local_cmd :: "bcmd \<Rightarrow> bool" where
  "local_cmd (BMemcpy d doff b off len) = True"
| "local_cmd (BReduce d doff b off len) = True"
| "local_cmd _ = False"

lemma local_list_cnt:
  assumes "list_all local_cmd p"
  shows "posts j p = []" "waitsR j s p = 0" "waitsS j s p = 0"
proof -
  have "posts j p = [] \<and> waitsR j s p = 0 \<and> waitsS j s p = 0" using assms
  proof (induction p)
    case (Cons c p)
    then show ?case by (cases c) simp_all
  qed simp
  then show "posts j p = []" "waitsR j s p = 0" "waitsS j s p = 0" by simp_all
qed

lemma lv_local_list:
  assumes "list_all local_cmd p"
  shows "lv_all cf A r q (map (Pair l) p)"
proof (rule lv_simple)
  fix x assume "x \<in> set (map (Pair l) p)"
  then have "local_cmd (snd x)" using assms by (auto simp: list_all_iff)
  then show "case snd x of BWaitRecv i s \<Rightarrow> False | BWaitSend i s \<Rightarrow> False | BSend j s b off n roff \<Rightarrow> j < bc_n cf \<and> bc_reg cf j r s \<noteq> None | _ \<Rightarrow> True"
    by (cases "snd x") simp_all
qed

lemma map_snd_Pair [simp]: "map snd (map (Pair l) xs) = xs" "map fst (map (Pair l) xs) = replicate (length xs) l"
  by (induction xs) simp_all

definition ring_lround :: "nat \<Rightarrow> nat \<Rightarrow> bool \<Rightarrow> (nat \<Rightarrow> nat \<Rightarrow> bbuf \<times> nat \<times> nat \<times> nat) \<Rightarrow> (nat \<Rightarrow> nat \<Rightarrow> bprog) \<Rightarrow> (nat \<Rightarrow> nat \<Rightarrow> bprog) \<Rightarrow> nat \<Rightarrow> nat \<Rightarrow> lprog" where
  "ring_lround n slot W snds m1 m2 r k =
     [(4 * k, case snds r k of (b, off, len, roff) \<Rightarrow> BSend (ring_right n r) slot b off len roff), (4 * k + 1, BWaitRecv (ring_left n r) slot)] @
     map (Pair (4 * k + 1)) (m1 r k) @ (if W then [(4 * k + 1, BWaitSend (ring_right n r) slot)] else []) @ map (Pair (4 * k + 1)) (m2 r k) @
     [(4 * k + 2, BSend (ring_left n r) (Suc slot) Dummy 0 0 0), (4 * k + 3, BWaitRecv (ring_right n r) (Suc slot))]"

definition ring_levels :: "nat \<Rightarrow> nat \<Rightarrow> nat \<Rightarrow> bool \<Rightarrow> (nat \<Rightarrow> nat \<Rightarrow> bbuf \<times> nat \<times> nat \<times> nat) \<Rightarrow> (nat \<Rightarrow> nat \<Rightarrow> bprog) \<Rightarrow> (nat \<Rightarrow> nat \<Rightarrow> bprog) \<Rightarrow>
    (nat \<Rightarrow> bprog) \<Rightarrow> (nat \<Rightarrow> bprog) \<Rightarrow> nat \<Rightarrow> lprog" where
  "ring_levels n slot N W snds m1 m2 pre post r =
     (if r < n then map (Pair 0) (pre r) @ concat (map (ring_lround n slot W snds m1 m2 r) [0..<N]) @ map (Pair (4 * N)) (post r) else [])"

definition ring_local :: "nat \<Rightarrow> nat \<Rightarrow> (nat \<Rightarrow> nat \<Rightarrow> bprog) \<Rightarrow> (nat \<Rightarrow> nat \<Rightarrow> bprog) \<Rightarrow> (nat \<Rightarrow> bprog) \<Rightarrow> (nat \<Rightarrow> bprog) \<Rightarrow> bool" where
  "ring_local n N m1 m2 pre post \<longleftrightarrow>
     (\<forall>r < n. list_all local_cmd (pre r) \<and> list_all local_cmd (post r) \<and> (\<forall>k < N. list_all local_cmd (m1 r k) \<and> list_all local_cmd (m2 r k)))"

lemma snd_concat: "(\<And>k. map snd (f k) = g k) \<Longrightarrow> map snd (concat (map f xs)) = concat (map g xs)"
  by (induction xs) simp_all

lemma ring_lround_cnt:
  assumes "ring_cnt n slot r p k (if W then k else 0) k k k" "list_all local_cmd (m1 r k)" "list_all local_cmd (m2 r k)"
  shows "ring_cnt n slot r (p @ map snd (ring_lround n slot W snds m1 m2 r k)) (Suc k) (if W then Suc k else 0) (Suc k) (Suc k) (Suc k)"
  using assms(1) local_list_cnt [OF assms(2)] local_list_cnt [OF assms(3)]
  by (cases "snds r k") (auto simp: ring_cnt_def ring_lround_def o_def)

lemma ring_rounds_cnt:
  assumes "ring_local n N m1 m2 pre post" "r < n" "k \<le> N"
  shows "ring_cnt n slot r (pre r @ concat (map (\<lambda>k. map snd (ring_lround n slot W snds m1 m2 r k)) [0..<k])) k (if W then k else 0) k k k"
  using assms(3)
proof (induction k)
  case 0
  have "list_all local_cmd (pre r)" using assms(1,2) by (simp add: ring_local_def)
  then show ?case by (simp add: ring_cnt_def local_list_cnt)
next
  case (Suc k)
  then have "list_all local_cmd (m1 r k)" "list_all local_cmd (m2 r k)" using assms(1,2) by (simp_all add: ring_local_def)
  from ring_lround_cnt [where ?m1.0 = m1 and ?m2.0 = m2 and snds = snds, OF Suc.IH [OF Suc_leD [OF Suc.prems]] this] show ?case by simp
qed

lemma ring_sent_before:
  assumes loc: "ring_local n N m1 m2 pre post" and k: "k < N" and i: "i < n"
  shows "k < on_slot slot (posts (ring_right n i) (map snd (filter (\<lambda>x. fst x < 4 * k + 1) (ring_levels n slot N W snds m1 m2 pre post i))))"
    "k < on_slot (Suc slot) (posts (ring_left n i) (map snd (filter (\<lambda>x. fst x < 4 * k + 3) (ring_levels n slot N W snds m1 m2 pre post i))))"
proof -
  let ?f = "ring_lround n slot W snds m1 m2 i"
  let ?rs = "concat (map ?f [0..<N])"
  have sub: "on_slot s (posts j (map snd (filter Q ?rs))) \<le> on_slot s (posts j (map snd (filter Q (ring_levels n slot N W snds m1 m2 pre post i))))" for s j Q
    using i by (simp add: ring_levels_def)
  have fl: "filter (\<lambda>x. fst x < l) (map (Pair a) cs) = (if a < l then map (Pair a) cs else [])" for l a and cs :: bprog by (induction cs) auto
  have mid: "posts j (m1 i k') = []" "posts j (m2 i k') = []" if "k' < N" for j k'
    using local_list_cnt(1) loc i that by (simp_all add: ring_local_def)
  have one: "on_slot slot (posts (ring_right n i) (map snd (filter (\<lambda>x. fst x < 4 * k + 1) (?f k')))) = (if k' \<le> k then 1 else 0)"
    "on_slot (Suc slot) (posts (ring_left n i) (map snd (filter (\<lambda>x. fst x < 4 * k + 3) (?f k')))) = (if k' \<le> k then 1 else 0)" if "k' < N" for k'
    using mid [OF that] by (cases "snds i k'"; auto simp: ring_lround_def fl o_def)+
  have "map (\<lambda>x. on_slot slot (posts (ring_right n i) (map snd (filter (\<lambda>x. fst x < 4 * k + 1) (?f x))))) [0..<N] = map (\<lambda>k'. if k' \<le> k then 1 else 0) [0..<N]"
    "map (\<lambda>x. on_slot (Suc slot) (posts (ring_left n i) (map snd (filter (\<lambda>x. fst x < 4 * k + 3) (?f x))))) [0..<N] = map (\<lambda>k'. if k' \<le> k then 1 else 0) [0..<N]"
    using one by simp_all
  then have "on_slot slot (posts (ring_right n i) (map snd (filter (\<lambda>x. fst x < 4 * k + 1) ?rs))) = Suc k"
    "on_slot (Suc slot) (posts (ring_left n i) (map snd (filter (\<lambda>x. fst x < 4 * k + 3) ?rs))) = Suc k"
    unfolding count_rounds using k by (simp_all only: sum_list_upto)
  then show "k < on_slot slot (posts (ring_right n i) (map snd (filter (\<lambda>x. fst x < 4 * k + 1) (ring_levels n slot N W snds m1 m2 pre post i))))"
    "k < on_slot (Suc slot) (posts (ring_left n i) (map snd (filter (\<lambda>x. fst x < 4 * k + 3) (ring_levels n slot N W snds m1 m2 pre post i))))"
    using sub by (metis Suc_le_eq)+
qed

lemma ring_levels_ok:
  assumes loc: "ring_local n N m1 m2 pre post" and n: "bc_n cf = n"
    and reg: "\<And>r. r < n \<Longrightarrow> 0 < N \<Longrightarrow> bc_reg cf (ring_right n r) r slot \<noteq> None \<and> bc_reg cf (ring_left n r) r (Suc slot) \<noteq> None"
  shows "levels_ok cf (ring_levels n slot N W snds m1 m2 pre post)"
proof (rule levels_okI)
  let ?A = "ring_levels n slot N W snds m1 m2 pre post"
  fix r assume "r < bc_n cf"
  then have r: "r < n" by (simp add: n)
  note nb = bring_neighbours [OF r]
  let ?rs = "\<lambda>k. concat (map (ring_lround n slot W snds m1 m2 r) [0..<k])"
  have rnd: "lv_all cf ?A r (map (Pair 0) (pre r) @ ?rs k) (ring_lround n slot W snds m1 m2 r k)" if k: "k < N" for k
  proof -
    define p where "p = map (Pair 0) (pre r) @ ?rs k"
    have "ring_cnt n slot r (map snd p) k (if W then k else 0) k k k"
      using ring_rounds_cnt [OF loc r less_imp_le [OF k], of slot W snds] by (simp add: p_def map_concat o_def)
    note cn = ring_cntD [OF this]
    have l: "list_all local_cmd (m1 r k)" "list_all local_cmd (m2 r k)" using loc r k by (simp_all add: ring_local_def)
    note lc = local_list_cnt [OF l(1)] local_list_cnt [OF l(2)]
    have "k < on_slot slot (posts r (map snd (filter (\<lambda>x. fst x < 4 * k + 1) (?A (ring_left n r)))))"
      "k < on_slot (Suc slot) (posts r (map snd (filter (\<lambda>x. fst x < 4 * k + 3) (?A (ring_right n r)))))"
      using ring_sent_before(1) [OF loc k nb(1)] ring_sent_before(2) [OF loc k nb(2)] nb by simp_all
    moreover have "lv_all cf A r p (ring_lround n slot W snds m1 m2 r k)"
      if "k < on_slot slot (posts r (map snd (filter (\<lambda>x. fst x < 4 * k + 1) (A (ring_left n r)))))"
        "k < on_slot (Suc slot) (posts r (map snd (filter (\<lambda>x. fst x < 4 * k + 3) (A (ring_right n r)))))" for A
      using that nb reg [OF r] k
      by (cases "snds r k") (simp add: ring_lround_def lv_all_append wait_ok_def cn n lc o_def lv_local_list [OF l(1)] lv_local_list [OF l(2)])
    ultimately show ?thesis unfolding p_def by blast
  qed
  have l: "list_all local_cmd (pre r)" "list_all local_cmd (post r)" using loc r by (simp_all add: ring_local_def)
  have "lv_all cf ?A r (map (Pair 0) (pre r)) (?rs N)" by (rule lv_rounds [OF rnd])
  then show "lv_all cf ?A r [] (?A r)"
    unfolding ring_levels_def [of n slot N W snds m1 m2 pre post r] using r
    by (simp add: lv_all_append lv_local_list [OF l(1)] lv_local_list [OF l(2)])
  have in_round: "4 * k \<le> x \<and> x < 4 * Suc k" if "x \<in> set (map fst (ring_lround n slot W snds m1 m2 r k))" for x k
    using that by (auto simp: ring_lround_def split: if_splits)
  have "sorted (map fst (?rs N))"
    unfolding map_concat map_map o_def
    by (rule sorted_rounds [where c = 4]) (use in_round in \<open>auto simp: ring_lround_def sorted_append o_def\<close>)
  moreover have "x < 4 * N" if "x \<in> set (map fst (?rs N))" for x
  proof -
    from that obtain k y where k: "k < N" "y \<in> set (ring_lround n slot W snds m1 m2 r k)" "x = fst y" by auto
    then have "x < 4 * Suc k" using in_round [of x k] by simp
    then show ?thesis using k(1) by (metis Suc_leI less_le_trans mult_le_mono2)
  qed
  ultimately show "sorted (map fst (?A r))"
    unfolding ring_levels_def by (auto simp: sorted_append less_imp_le o_def simp del: upt.simps)
qed

section \<open>The levels of the reduction\<close>

definition arr_levels :: "nat \<Rightarrow> nat \<Rightarrow> nat \<Rightarrow> nat \<Rightarrow> nat \<Rightarrow> lprog" where
  "arr_levels n slot nptrs ct =
     (if ct = 0 then (\<lambda>_. [])
      else ring_levels n slot (n - 1) True (\<lambda>_ _. (Outbox, 0, ct, 0)) (\<lambda>_ _. [BReduce (Ptr 0) 0 (Inbox 0) 0 ct])
             (\<lambda>_ k. if k + 2 < n then [BMemcpy Outbox 0 (Inbox 0) 0 ct] else [])
             (\<lambda>_. local_reduce nptrs ct @ [BMemcpy Outbox 0 (Ptr 0) 0 ct]) (\<lambda>_. local_bcast nptrs ct))"

lemma arr_levels_prog:
  assumes "slot + 2 < 2 ^ 31"
  shows "arr_prog n slot nptrs ct r = map snd (arr_levels n slot nptrs ct r)"
proof (cases "r < n")
  case True
  have "map snd (ring_lround n slot True (\<lambda>_ _. (Outbox, 0, ct, 0)) (\<lambda>_ _. [BReduce (Ptr 0) 0 (Inbox 0) 0 ct])
             (\<lambda>_ k. if k + 2 < n then [BMemcpy Outbox 0 (Inbox 0) 0 ct] else []) r k) = arr_round n slot ct r k" for k
    by (simp add: ring_lround_def arr_round_def)
  from snd_concat [of _ "arr_round n slot ct r", OF this] show ?thesis
    using arr_prog_simp [OF True assms] True by (simp add: arr_levels_def ring_levels_def o_def)
qed (simp add: arr_prog_def arr_levels_def ring_levels_def)

lemma arr_levels_ok:
  assumes slot: "slot + 2 < 2 ^ 31"
  shows "levels_ok (arr_conf n slot nptrs ct fn) (arr_levels n slot nptrs ct)"
proof (cases "ct = 0")
  case True
  then show ?thesis by (simp add: levels_ok_def arr_levels_def)
next
  case False
  have loc: "ring_local n (n - 1) (\<lambda>_ _. [BReduce (Ptr 0) 0 (Inbox 0) 0 ct]) (\<lambda>_ k. if k + 2 < n then [BMemcpy Outbox 0 (Inbox 0) 0 ct] else [])
     (\<lambda>_. local_reduce nptrs ct @ [BMemcpy Outbox 0 (Ptr 0) 0 ct]) (\<lambda>_. local_bcast nptrs ct)"
    by (simp add: ring_local_def local_reduce_def local_bcast_def list_all_iff)
  have reg: "bc_reg (arr_conf n slot nptrs ct fn) (ring_right n r) r slot \<noteq> None \<and> bc_reg (arr_conf n slot nptrs ct fn) (ring_left n r) r (Suc slot) \<noteq> None"
    if r: "r < n" and n: "0 < n - 1" for r
  proof -
    have n1: "1 < n" using n by simp
    show ?thesis using bring_neighbours [OF r] by (simp add: arr_reg [OF r _ n1 slot])
  qed
  show ?thesis unfolding arr_levels_def using False ring_levels_ok [OF loc _ reg] by (simp add: arr_conf_def)
qed

section \<open>The result by element\<close>

context reduction_op
begin

lemma fsum_rev: "fsum f (rev xs) = fsum f xs"
proof (induction xs)
  case (Cons x xs)
  then show ?case by (cases "xs = []") (simp_all add: fsum_append fsum_Cons comm)
qed simp

end

lemma backwards_ranks:
  assumes "r < n"
  shows "map (\<lambda>k. h ((r + n - k) mod n)) [0..<n] = map h (rev [0..<Suc r]) @ map h (rev [Suc r..<n])"
proof (rule nth_equalityI)
  show "length (map (\<lambda>k. h ((r + n - k) mod n)) [0..<n]) = length (map h (rev [0..<Suc r]) @ map h (rev [Suc r..<n]))" using assms by simp
  fix k assume "k < length (map (\<lambda>k. h ((r + n - k) mod n)) [0..<n])"
  then have k: "k < n" by simp
  show "map (\<lambda>k. h ((r + n - k) mod n)) [0..<n] ! k = (map h (rev [0..<Suc r]) @ map h (rev [Suc r..<n])) ! k"
  proof (cases "k \<le> r")
    case True
    have "r + n - k = (r - k) + n" using True by simp
    then have "(r + n - k) mod n = r - k" using assms by (simp only: mod_add_self2) simp
    moreover have "map h (rev [0..<Suc r]) ! k = h (r - k)" using True by (simp add: rev_nth del: upt.simps rev.simps)
    ultimately show ?thesis using True k by (simp add: nth_append del: upt.simps)
  next
    case False
    then have "(r + n - k) mod n = r + n - k" using k by simp
    moreover have "map h (rev [Suc r..<n]) ! (k - Suc r) = h (r + n - k)" using False k Suc_diff_Suc [of k "r + n"] by (simp add: rev_nth)
    ultimately show ?thesis using False k by (simp add: nth_append del: upt.simps)
  qed
qed

lemma foldl_map2_nth:
  assumes "length a = ct" "\<forall>v \<in> set vs. length v = ct" "x < ct"
  shows "foldl (map2 f) a vs ! x = foldl f (a ! x) (map (\<lambda>v. v ! x) vs) \<and> length (foldl (map2 f) a vs) = ct"
  using assms by (induction vs arbitrary: a) simp_all

definition all_ptrs :: "nat \<Rightarrow> nat \<Rightarrow> (nat \<Rightarrow> bbuf \<Rightarrow> nat \<Rightarrow> 'a) \<Rightarrow> nat \<Rightarrow> 'a list" where
  "all_ptrs n nptrs m x = concat (map (\<lambda>q. map (\<lambda>i. m q (Ptr i) x) [0..<nptrs]) [0..<n])"

lemma local_val_nth:
  assumes "reduction_op f" "0 < nptrs" "x < ct"
  shows "local_val (map2 f) nptrs ct m ! x = fsum f (map (\<lambda>i. m (Ptr i) x) [0..<nptrs]) \<and> length (local_val (map2 f) nptrs ct m) = ct"
proof -
  have "foldl (\<lambda>acc i. map2 f acc (rd (m (Ptr i)) 0 ct)) a is ! x = foldl f (a ! x) (map (\<lambda>i. m (Ptr i) x) is) \<and>
    length (foldl (\<lambda>acc i. map2 f acc (rd (m (Ptr i)) 0 ct)) a is) = ct" if "length a = ct" for a "is"
    using that assms(3) by (induction "is" arbitrary: a) (simp_all add: rd_def)
  moreover have "[0..<nptrs] = 0 # [1..<nptrs]" using assms(2) by (simp add: upt_rec)
  ultimately show ?thesis using assms(3)
    by (simp add: local_val_def foldl_conv_fold reduction_op.fsum_fold [OF assms(1)] del: upt.simps) (simp add: rd_def)
qed

lemma ring_val_nth:
  assumes f: "reduction_op f" and np: "0 < nptrs" and r: "r < n" and x: "x < ct"
  shows "ring_val (map2 f) n (\<lambda>q. local_val (map2 f) nptrs ct (m q)) r (n - 1) ! x = fsum f (all_ptrs n nptrs m x)"
proof -
  let ?L = "\<lambda>q. local_val (map2 f) nptrs ct (m q)" and ?h = "\<lambda>q. fsum f (map (\<lambda>i. m q (Ptr i) x) [0..<nptrs])"
  note L = local_val_nth [OF f np x]
  have n: "[0..<n] = 0 # [1..<n]" using r by (simp add: upt_rec)
  have "ring_val (map2 f) n ?L r (n - 1) ! x = foldl f (?h r) (map (\<lambda>k. ?h ((r + n - k) mod n)) [1..<n])"
    using foldl_map2_nth [of "?L r" ct "map (\<lambda>k. ?L ((r + n - k) mod n)) [1..<n]" x f] L x r
    by (simp add: ring_val_def o_def del: upt.simps)
  also have "\<dots> = fsum f (map (\<lambda>k. ?h ((r + n - k) mod n)) [0..<n])"
    unfolding n using r by (simp add: foldl_conv_fold reduction_op.fsum_fold [OF f] del: upt.simps)
  also have "\<dots> = fsum f (map ?h (rev [Suc r..<n]) @ map ?h (rev [0..<Suc r]))"
    unfolding backwards_ranks [OF r, of ?h] by (rule reduction_op.fsum_rotate [OF f])
  also have "map ?h (rev [Suc r..<n]) @ map ?h (rev [0..<Suc r]) = rev (map ?h [0..<n])"
    using upt_add_eq_append [of 0 "Suc r" "n - Suc r"] r by (simp add: rev_map del: upt.simps)
  also have "fsum f (rev (map ?h [0..<n])) = fsum f (map ?h [0..<n])" by (rule reduction_op.fsum_rev [OF f])
  also have "\<dots> = fsum f (all_ptrs n nptrs m x)"
  proof -
    have "map ?h [0..<n] = map (fsum f) (map (\<lambda>q. map (\<lambda>i. m q (Ptr i) x) [0..<nptrs]) [0..<n])" by simp
    then show ?thesis unfolding all_ptrs_def using r np by (simp only:) (rule reduction_op.fsum_concat [OF f], auto)
  qed
  finally show ?thesis .
qed

lemma arr_start_ok:
  assumes fn: "\<And>xs ys. length xs = length ys \<Longrightarrow> length (fn xs ys) = length xs"
  shows "start_ok (arr_conf n slot nptrs ct fn) (\<lambda>r. arr_own n nptrs ct (m r) r) m"
  unfolding start_ok_def
proof (intro conjI allI impI)
  fix r q assume "r < bc_n (arr_conf n slot nptrs ct fn)" "q < bc_n (arr_conf n slot nptrs ct fn)" "r \<noteq> q"
  then have "ring_right n r \<noteq> ring_right n q" using bring_neighbours(3) [of r n] bring_neighbours(3) [of q n] by (metis alg_conf_simps(1) arr_conf_def)
  then show "dom (arr_own n nptrs ct (m r) r) \<inter> dom (arr_own n nptrs ct (m q) q) = {}" using \<open>r \<noteq> q\<close>
    by (auto simp: arr_own_def dom_def split: if_splits bbuf.splits)
qed (auto simp: arr_own_def arr_conf_def arr_size_def fn split: if_splits bbuf.splits)



end
