(* ===== verification/Gloo_Alg_Allgather.thy ===== *)
theory Gloo_Alg_Allgather
  imports Gloo_Alg_Rings
begin

text \<open>
  \<open>AllgatherRing\<close>: every process passes the blocks that it has received on to the right, one input after the
  other. Every block of an output is written once, by the left neighbour; the left neighbour owns it until
  then.
\<close>

section \<open>Programs\<close>

definition agr_off :: "nat \<Rightarrow> nat \<Rightarrow> nat \<Rightarrow> nat \<Rightarrow> nat" where
  "agr_off nin ct a i = a * (ct * nin) + i * ct"

definition agr_size :: "nat \<Rightarrow> nat \<Rightarrow> nat \<Rightarrow> bbuf \<Rightarrow> nat" where
  "agr_size n nin ct b = (case b of InPtr i \<Rightarrow> if i < nin then ct else 0 | OutPtr \<Rightarrow> nin * n * ct | _ \<Rightarrow> 0)"

definition agr_conf :: "nat \<Rightarrow> nat \<Rightarrow> nat \<Rightarrow> nat \<Rightarrow> 'a bconf" where
  "agr_conf n slot nin ct = alg_conf n (agr_size n nin ct) (\<lambda>r. ctor_recvs (AllgatherRing_new (mesh_ctx n slot r) nin ct) rb_recvs) (\<lambda>xs ys. xs)"

definition agr_prog :: "nat \<Rightarrow> nat \<Rightarrow> nat \<Rightarrow> nat \<Rightarrow> nat \<Rightarrow> bprog" where
  "agr_prog n slot nin ct r =
     (if r < n then ctor_prog (AllgatherRing_new (mesh_ctx n slot r) nin ct) (AllgatherRing_run (mesh_ctx n slot r) nin ct) 1 else [])"

lemma AllgatherRing_new_mesh:
  assumes "r < n" "1 < n" "slot + 2 < 2 ^ 31"
  shows "AllgatherRing_new (mesh_ctx n slot r) nin ct =
    Inr (ring_bufs (ring_left n r) (ring_right n r) slot (Suc slot) OutPtr OutPtr (nin * n * ct), mesh_ctx n (Suc (Suc slot)) r)"
  using assms by (simp add: AllgatherRing_new_def pairs_mesh)

lemma agr_inRank_eq: "r < n \<Longrightarrow> k < n \<Longrightarrow> agr_inRank n r k = (r + n - k) mod n"
  by (auto simp: agr_inRank_def add.commute)

text \<open>The rank and the input of the \<open>k\<close>-th message of a process.\<close>

definition agr_rank :: "nat \<Rightarrow> nat \<Rightarrow> nat \<Rightarrow> nat" where
  "agr_rank n r k = (r + n - k mod (n - 1)) mod n"

definition agr_at :: "nat \<Rightarrow> nat \<Rightarrow> nat \<Rightarrow> nat \<Rightarrow> nat \<Rightarrow> nat" where
  "agr_at n nin ct r k = agr_off nin ct (agr_rank n r k) (k div (n - 1))"

definition agr_round :: "nat \<Rightarrow> nat \<Rightarrow> nat \<Rightarrow> nat \<Rightarrow> nat \<Rightarrow> nat \<Rightarrow> bprog" where
  "agr_round n slot nin ct r k =
     [BSend (ring_right n r) slot OutPtr (agr_at n nin ct r k) ct (agr_at n nin ct r k), BWaitRecv (ring_left n r) slot,
      BSend (ring_left n r) (Suc slot) Dummy 0 0 0, BWaitRecv (ring_right n r) (Suc slot)]"

definition agr_copy :: "nat \<Rightarrow> nat \<Rightarrow> nat \<Rightarrow> bprog" where
  "agr_copy nin ct r = map (\<lambda>i. BMemcpy OutPtr (agr_off nin ct r i) (InPtr i) 0 ct) [0..<nin]"

lemma concat_nested:
  assumes "0 < q"
  shows "concat (map (\<lambda>i. concat (map (f i) [0..<q])) [0..<p]) = concat (map (\<lambda>k. f (k div q) (k mod q)) [0..<p * q])"
proof (induction p)
  case (Suc p)
  have "[0..<Suc p * q] = [0..<p * q] @ [p * q..<p * q + q]" using upt_add_eq_append [of 0 "p * q" q] by (simp add: add.commute)
  moreover have "map (\<lambda>k. f (k div q) (k mod q)) [p * q..<p * q + q] = map (f p) [0..<q]"
    using assms by (intro nth_equalityI) simp_all
  ultimately show ?case using Suc by simp
qed simp

lemma agr_off_bound:
  assumes "a < n" "i < nin"
  shows "agr_off nin ct a i + ct \<le> nin * n * ct"
proof -
  have "i * ct + ct \<le> nin * ct" using assms(2) by (metis Suc_leI add.commute mult_Suc mult_le_mono1)
  moreover have "a * (ct * nin) + ct * nin \<le> n * (ct * nin)" using assms(1) by (metis Suc_leI add.commute mult_Suc mult_le_mono1)
  ultimately show ?thesis by (simp add: agr_off_def mult.commute mult.left_commute)
qed

lemma agr_prog_simp:
  assumes r: "r < n" and n: "1 < n" and slot: "slot + 2 < 2 ^ 31" and ct: "0 < ct"
  shows "agr_prog n slot nin ct r = agr_copy nin ct r @ concat (map (agr_round n slot nin ct r) [0..<nin * (n - 1)])"
proof -
  let ?rb = "ring_bufs (ring_left n r) (ring_right n r) slot (Suc slot) OutPtr OutPtr (nin * n * ct)"
  let ?R = "\<lambda>i. AllgatherRing_round (mesh_ctx n slot r) nin ct ?rb i"
  have eq: "?R (k div (n - 1)) (k mod (n - 1)) = agr_round n slot nin ct r k" if k: "k < nin * (n - 1)" for k
  proof -
    have q: "0 < n - 1" using n by simp
    have i: "k div (n - 1) < nin" using k by (simp add: less_mult_imp_div_less)
    have m: "k mod (n - 1) < n" using q mod_less_divisor [OF q, of k] by linarith
    have "agr_inRank n r (k mod (n - 1)) < n" using r n by (auto simp: agr_inRank_def)
    from agr_off_bound [OF this i, of ct] have "agr_inRank n r (k mod (n - 1)) * (ct * nin) + k div (n - 1) * ct + ct \<le> nin * n * ct" by (simp add: agr_off_def)
    then show ?thesis using agr_inRank_eq [OF r m]
      by (simp add: AllgatherRing_round_def ring_bufs_def h_defs Let_def agr_round_def agr_at_def agr_off_def agr_rank_def)
  qed
  have "concat (map (\<lambda>i. concat (map (?R i) [0..<n - 1])) [0..<nin]) = concat (map (agr_round n slot nin ct r) [0..<nin * (n - 1)])"
  proof -
    have "map (\<lambda>k. ?R (k div (n - 1)) (k mod (n - 1))) [0..<nin * (n - 1)] = map (agr_round n slot nin ct r) [0..<nin * (n - 1)]"
      by (rule map_cong [OF refl]) (use eq in simp)
    moreover have "0 < n - 1" using n by simp
    ultimately show ?thesis using concat_nested [of "n - 1" ?R nin] by metis
  qed
  then show ?thesis using assms
    by (simp add: agr_prog_def AllgatherRing_new_mesh AllgatherRing_run_def agr_copy_def agr_off_def del: upt.simps)
qed

lemma agr_prog_empty: "1 < n \<Longrightarrow> slot + 2 < 2 ^ 31 \<Longrightarrow> agr_prog n slot nin 0 r = []"
  by (simp add: agr_prog_def AllgatherRing_new_mesh AllgatherRing_run_def)

lemma agr_reg:
  assumes "r < n" "j < n" "1 < n" "slot + 2 < 2 ^ 31"
  shows "bc_reg (agr_conf n slot nin ct) j r slot = (if r = ring_left n j then Some (OutPtr, 0, nin * n * ct) else None)"
    "bc_reg (agr_conf n slot nin ct) j r (Suc slot) = (if r = ring_right n j then Some (Dummy, 0, 0) else None)"
  using assms by (auto simp: agr_conf_def AllgatherRing_new_mesh rb_recvs_def ring_bufs_def createBuffer_def)

section \<open>Blocks\<close>

lemma agr_rank_less [simp]: "0 < n \<Longrightarrow> agr_rank n r k < n"
  by (simp add: agr_rank_def)

lemma agr_rank_left:
  assumes "r < n" "1 < n"
  shows "agr_rank n (ring_left n r) k = (r + n - Suc (k mod (n - 1))) mod n"
proof -
  have "k mod (n - 1) < n" using assms(2) by (meson diff_less le_less_trans less_imp_le mod_less_divisor zero_less_diff zero_less_one less_trans)
  from ring_back [OF assms(1) this] show ?thesis by (simp add: agr_rank_def)
qed

text \<open>What is sent in a round is either the process's own input or what it received in the round before.\<close>

lemma agr_rank_own: "r < n \<Longrightarrow> k mod (n - 1) = 0 \<Longrightarrow> agr_rank n r k = r"
  by (simp add: agr_rank_def)

lemma agr_rank_forward:
  assumes "r < n" "1 < n" "k mod (n - 1) \<noteq> 0"
  shows "agr_rank n r k = agr_rank n (ring_left n r) (k - 1)" "k div (n - 1) = (k - 1) div (n - 1)" "0 < k"
proof -
  show k: "0 < k" using assms(3) by (cases k) simp_all
  then obtain j where j: "k = Suc j" by (cases k) simp_all
  have s: "Suc j mod (n - 1) = Suc (j mod (n - 1))" using assms(3) j by (simp add: mod_Suc split: if_splits)
  then show "agr_rank n r k = agr_rank n (ring_left n r) (k - 1)" using agr_rank_left [OF assms(1,2), of j] by (simp add: j agr_rank_def)
  show "k div (n - 1) = (k - 1) div (n - 1)" using assms(3) j by (simp add: div_Suc split: if_splits)
qed

lemma block_disjoint:
  assumes "i < nin" "i' < nin" "(a, i) \<noteq> (a', i')"
  shows "region q OutPtr (agr_off nin ct a i) ct \<inter> region q' OutPtr (agr_off nin ct a' i') ct = {}"
proof (rule ccontr)
  assume "\<not> ?thesis"
  then obtain x where x: "agr_off nin ct a i \<le> x" "x < agr_off nin ct a i + ct" "agr_off nin ct a' i' \<le> x" "x < agr_off nin ct a' i' + ct"
    by (auto simp: region_def)
  have ct: "0 < ct" using x(1,2) by linarith
  have "x div ct = a * nin + i"
  proof -
    have "ct * (a * nin + i) \<le> x" "x < ct * (a * nin + i) + ct" using x(1,2) by (simp_all add: agr_off_def algebra_simps)
    then show ?thesis by (metis div_nat_eqI mult.commute mult_Suc add.commute)
  qed
  moreover have "x div ct = a' * nin + i'"
  proof -
    have "ct * (a' * nin + i') \<le> x" "x < ct * (a' * nin + i') + ct" using x(3,4) by (simp_all add: agr_off_def algebra_simps)
    then show ?thesis by (metis div_nat_eqI mult.commute mult_Suc add.commute)
  qed
  ultimately have eq: "a * nin + i = a' * nin + i'" by simp
  have "a = a'" using arg_cong [OF eq, of "\<lambda>y. y div nin"] assms(1,2) by simp
  then show False using eq assms(3) by simp
qed

lemma back_inj:
  fixes n :: nat
  assumes "r < n" "c < n" "d < n" "(r + n - c) mod n = (r + n - d) mod n"
  shows "c = d"
proof -
  have f: "(r + n - c) mod n = (if c \<le> r then r - c else r + n - c)" if "c < n" for c
  proof (cases "c \<le> r")
    case True
    have "r + n - c = (r - c) + n" using True by simp
    then show ?thesis using True assms(1) by (simp only: mod_add_self2) simp
  qed (use that in simp)
  show ?thesis using assms(4) unfolding f [OF assms(2)] f [OF assms(3)] using assms(1-3) by (simp split: if_splits)
qed

lemma agr_msg_inj:
  assumes "r < n" "1 < n" "agr_rank n r j = agr_rank n r k" "j div (n - 1) = k div (n - 1)"
  shows "j = k"
proof -
  have q: "0 < n - 1" using assms(2) by simp
  have "j mod (n - 1) < n" "k mod (n - 1) < n" using mod_less_divisor [OF q, of j] mod_less_divisor [OF q, of k] by linarith+
  from back_inj [OF assms(1) this assms(3) [unfolded agr_rank_def]] have "j mod (n - 1) = k mod (n - 1)" .
  then show ?thesis using assms(4) by (metis div_mult_mod_eq)
qed

lemma agr_rank_not_own:
  assumes "r < n" "1 < n"
  shows "agr_rank n (ring_left n r) k \<noteq> r" "agr_rank n r k \<noteq> ring_right n r"
proof -
  have q: "0 < n - 1" using assms(2) by simp
  have k: "Suc (k mod (n - 1)) < n" using mod_less_divisor [OF q, of k] by linarith
  have own: "agr_rank n (ring_left n r) k \<noteq> r" if "r < n" for r
    using back_inj [OF that k, of 0] assms(2) that by (auto simp: agr_rank_left [OF that assms(2)])
  then show "agr_rank n (ring_left n r) k \<noteq> r" using assms(1) .
  show "agr_rank n r k \<noteq> ring_right n r" using own [of "ring_right n r"] bring_neighbours [OF assms(1)] by simp
qed

lemma agr_covers:
  assumes "r < n" "a < n" "a \<noteq> r" "i < nin"
  obtains j where "j < nin * (n - 1)" "agr_rank n (ring_left n r) j = a" "j div (n - 1) = i"
proof -
  define d where "d = (if a < r then r - a else r + n - a)"
  have d: "0 < d" "d < n" using assms by (auto simp: d_def)
  define j where "j = i * (n - 1) + (d - 1)"
  have q: "d - 1 < n - 1" using d by linarith
  then have "j mod (n - 1) = d - 1" "j div (n - 1) = i" by (simp_all add: j_def)
  moreover have "(r + n - d) mod n = a"
  proof (cases "a < r")
    case True
    have "r + n - d = a + n" using True assms by (simp add: d_def)
    then show ?thesis using assms(2) by (simp only: mod_add_self2) simp
  next
    case False
    then have "r + n - d = a" using assms by (simp add: d_def)
    then show ?thesis using assms(2) by simp
  qed
  moreover have "1 < n" using d by linarith
  ultimately have "agr_rank n (ring_left n r) j = a" using agr_rank_left [OF assms(1), of j] d by simp
  moreover have "j < nin * (n - 1)"
  proof -
    have "j < Suc i * (n - 1)" using q by (simp add: j_def)
    also have "\<dots> \<le> nin * (n - 1)" using assms(4) by (intro mult_le_mono1) simp
    finally show ?thesis .
  qed
  ultimately show ?thesis using that \<open>j div (n - 1) = i\<close> by blast
qed

section \<open>Ownership\<close>

definition agr_spec :: "nat \<Rightarrow> nat \<Rightarrow> nat \<Rightarrow> nat \<Rightarrow> (nat \<Rightarrow> nat \<Rightarrow> 'a list) \<Rightarrow> 'a bspec" where
  "agr_spec n slot nin ct X = \<lparr>
     sp_val = (\<lambda>i j s k. if s = slot \<and> j = ring_right n i then X (agr_rank n i k) (k div (n - 1)) else []),
     sp_src = (\<lambda>i j s k. if s = slot then (OutPtr, agr_at n nin ct i k) else (Dummy, 0)),
     sp_dst = (\<lambda>i j s k. if s = slot then (OutPtr, agr_at n nin ct i k) else (Dummy, 0)),
     sp_gives = (\<lambda>i j s k. {})\<rparr>"

definition agr_own :: "nat \<Rightarrow> nat \<Rightarrow> nat \<Rightarrow> (bbuf \<Rightarrow> nat \<Rightarrow> 'a) \<Rightarrow> nat \<Rightarrow> 'a know" where
  "agr_own n nin ct m r = (\<lambda>(q, b, x). case b of
       InPtr i \<Rightarrow> if q = r \<and> i < nin \<and> x < ct then Some (Some (m (InPtr i) x)) else None
     | OutPtr \<Rightarrow> if x < nin * n * ct \<and> (q = r \<and> x div (ct * nin) = r \<or> q = ring_right n r \<and> x div (ct * nin) \<noteq> q) then Some None else None
     | _ \<Rightarrow> None)"

definition agr_inv :: "nat \<Rightarrow> nat \<Rightarrow> nat \<Rightarrow> nat \<Rightarrow> (nat \<Rightarrow> nat \<Rightarrow> 'a list) \<Rightarrow> nat \<Rightarrow> nat \<Rightarrow> bprog \<Rightarrow> 'a know \<Rightarrow> bool" where
  "agr_inv n slot nin ct X r k p K \<longleftrightarrow>
     ring_cnt n slot r p k 0 k k k \<and> (\<forall>i < nin. known K r OutPtr (agr_off nin ct r i) (X r i)) \<and>
     (\<forall>j < k. known K r OutPtr (agr_at n nin ct (ring_left n r) j) (X (agr_rank n (ring_left n r) j) (j div (n - 1)))) \<and>
     (\<forall>j. k \<le> j \<and> j < nin * (n - 1) \<longrightarrow> region (ring_right n r) OutPtr (agr_at n nin ct r j) ct \<subseteq> dom K)"

lemma agr_round_ok:
  assumes I: "agr_inv n slot nin ct X r k p K" and k: "k < nin * (n - 1)" and r: "r < n" and n1: "1 < n" and slot: "slot + 2 < 2 ^ 31"
    and X: "\<And>a i. length (X a i) = ct" and cf: "cf = agr_conf n slot nin ct" and sp: "sp = agr_spec n slot nin ct X"
  shows "sym_all cf sp r p (agr_round n slot nin ct r k) K \<and>
    agr_inv n slot nin ct X r (Suc k) (p @ agr_round n slot nin ct r k) (symK cf sp r p (agr_round n slot nin ct r k) K)"
proof -
  let ?R = "ring_right n r" and ?L = "ring_left n r"
  note nb = bring_neighbours [OF r] and ne = ring_neighbours_neq [OF r n1]
  let ?o = "agr_at n nin ct r k" and ?i = "k div (n - 1)"
  let ?v = "X (agr_rank n r k) ?i" and ?u = "X (agr_rank n ?L k) ?i" and ?ol = "agr_at n nin ct ?L k"
  let ?M = "region ?R OutPtr ?o ct"
  have inp: "j div (n - 1) < nin" if "j < nin * (n - 1)" for j using that by (simp add: less_mult_imp_div_less)
  have c0: "ring_cnt n slot r p k 0 k k k" and own: "\<And>i. i < nin \<Longrightarrow> known K r OutPtr (agr_off nin ct r i) (X r i)"
    and got: "\<And>j. j < k \<Longrightarrow> known K r OutPtr (agr_at n nin ct ?L j) (X (agr_rank n ?L j) (j div (n - 1)))"
    and dm: "\<And>j. k \<le> j \<Longrightarrow> j < nin * (n - 1) \<Longrightarrow> region ?R OutPtr (agr_at n nin ct r j) ct \<subseteq> dom K"
    using I by (simp_all add: agr_inv_def)
  have src: "known K r OutPtr ?o ?v"
  proof (cases "k mod (n - 1) = 0")
    case True
    then show ?thesis using own [OF inp [OF k]] agr_rank_own [OF r True] by (simp add: agr_at_def)
  next
    case False
    note fw = agr_rank_forward [OF r n1 False]
    have "known K r OutPtr (agr_at n nin ct ?L (k - 1)) (X (agr_rank n ?L (k - 1)) ((k - 1) div (n - 1)))" using got [of "k - 1"] fw(3) by simp
    then show ?thesis by (simp only: agr_at_def fw(1) fw(2))
  qed
  have val: "sp_val sp r ?R slot k = ?v" "sp_val sp ?L r slot k = ?u" "sp_val sp r ?L (Suc slot) k = []" "sp_val sp ?R r (Suc slot) k = []"
    using nb by (simp_all add: sp agr_spec_def)
  have sr: "sp_src sp r ?R slot k = (OutPtr, ?o)" "sp_dst sp r ?R slot k = (OutPtr, ?o)" "sp_dst sp ?L r slot k = (OutPtr, ?ol)" "sp_gives sp i j s k' = {}"
    "sp_src sp r ?L (Suc slot) k = (Dummy, 0)" "sp_dst sp r ?L (Suc slot) k = (Dummy, 0)" "sp_dst sp ?R r (Suc slot) k = (Dummy, 0)" for i j s k'
    by (simp_all add: sp agr_spec_def)
  have mv: "moves sp r ?R slot k = ?M" "dst_locs sp r ?R slot k = ?M" "moves sp r ?L (Suc slot) k = {}" "dst_locs sp r ?L (Suc slot) k = {}"
    by (auto simp: moves_def dst_locs_def sr val X region_def)
  have rg: "bc_reg cf ?R r slot = Some (OutPtr, 0, nin * n * ct)" "bc_reg cf ?L r (Suc slot) = Some (Dummy, 0, 0)"
    unfolding cf using nb by (simp_all add: agr_reg [OF r _ n1 slot])
  have bn: "bc_n cf = n" by (simp add: cf agr_conf_def)
  have fit: "?o + ct \<le> nin * n * ct" unfolding agr_at_def using r by (intro agr_off_bound inp [OF k]) simp
  have far: "?M \<inter> region r b off m = {}" "region r b off m \<inter> ?M = {}" for b off m using ne by (auto simp: region_def)
  have fz: "frozen sp r q \<subseteq> {l. fst l = r}" for q by (auto simp: frozen_def src_locs_def region_def)
  have farz: "?M \<inter> frozen sp r q = {}" for q using fz [of q] ne by (auto simp: region_def)
  \<comment> \<open>the send of a block\<close>
  let ?c1 = "BSend ?R slot OutPtr ?o ct ?o"
  define K1 where "K1 = (\<lambda>l. if l \<in> ?M then None else K l)"
  define p1 where "p1 = p @ [?c1]"
  have c1: "ring_cnt n slot r p1 (Suc k) 0 k k k" unfolding p1_def by (rule ring_cnt_step [OF c0])
  have ok1: "sym_ok cf sp r p ?c1 K"
    using dm [OF order_refl k] src nb fit by (simp add: sym_ok_def Let_def ring_cntD [OF c0] val X sr rg bn mv far farz Int_Un_distrib)
  have nx1: "sym_next cf sp r p ?c1 K = K1" by (simp add: sym_next_def K1_def ring_cntD [OF c0] mv)
  \<comment> \<open>the receipt of a block\<close>
  let ?c2 = "BWaitRecv ?L slot"
  define K2 where "K2 = kwr r OutPtr ?ol ?u K1"
  define p2 where "p2 = p1 @ [?c2]"
  have c2: "ring_cnt n slot r p2 (Suc k) 0 (Suc k) k k" unfolding p2_def by (rule ring_cnt_step [OF c1])
  have ok2: "sym_ok cf sp r p1 ?c2 K1" using nb by (simp add: sym_ok_def bn)
  have nx2: "sym_next cf sp r p1 ?c2 K1 = K2" by (simp add: sym_next_def K2_def ring_cntD [OF c1] val sr Let_def)
  \<comment> \<open>the notifications\<close>
  let ?c3 = "BSend ?L (Suc slot) Dummy 0 0 0" and ?c4 = "BWaitRecv ?R (Suc slot)"
  define p3 where "p3 = p2 @ [?c3]"
  have c3: "ring_cnt n slot r p3 (Suc k) 0 (Suc k) (Suc k) k" unfolding p3_def by (rule ring_cnt_step [OF c2])
  have ok3: "sym_ok cf sp r p2 ?c3 K2" using nb by (simp add: sym_ok_def Let_def ring_cntD [OF c2] val sr rg bn mv known_def)
  have nx3: "sym_next cf sp r p2 ?c3 K2 = K2" by (simp add: sym_next_def ring_cntD [OF c2] mv)
  have ok4: "sym_ok cf sp r p3 ?c4 K2" using nb by (simp add: sym_ok_def bn)
  have "kwr r Dummy 0 [] K2 = K2" by (auto simp: kwr_def)
  then have nx4: "sym_next cf sp r p3 ?c4 K2 = K2" by (simp add: sym_next_def ring_cntD [OF c3] val sr Let_def)
  have c4: "ring_cnt n slot r (p3 @ [?c4]) (Suc k) 0 (Suc k) (Suc k) (Suc k)" by (rule ring_cnt_step [OF c3])
  \<comment> \<open>what is known afterwards\<close>
  have own2: "known K2 r OutPtr (agr_off nin ct r i) (X r i)" if "i < nin" for i
  proof -
    have "known K1 r OutPtr (agr_off nin ct r i) (X r i)" unfolding K1_def using own [OF that] far by (intro known_drop) simp_all
    moreover have "region r OutPtr (agr_off nin ct r i) ct \<inter> region r OutPtr ?ol ct = {}"
      unfolding agr_at_def using agr_rank_not_own(1) [OF r n1, of k] that inp [OF k] by (intro block_disjoint) auto
    ultimately show ?thesis unfolding K2_def by (intro known_kwr_disj) (simp_all add: X)
  qed
  have got2: "known K2 r OutPtr (agr_at n nin ct ?L j) (X (agr_rank n ?L j) (j div (n - 1)))" if "j < Suc k" for j
  proof (cases "j = k")
    case True
    then show ?thesis unfolding K2_def by (simp add: kwr_known)
  next
    case False
    then have jk: "j < k" using that by simp
    have "known K1 r OutPtr (agr_at n nin ct ?L j) (X (agr_rank n ?L j) (j div (n - 1)))"
      unfolding K1_def using got [OF jk] far by (intro known_drop) simp_all
    moreover have "region r OutPtr (agr_at n nin ct ?L j) ct \<inter> region r OutPtr ?ol ct = {}"
      unfolding agr_at_def using agr_msg_inj [OF nb(1) n1, of j k] False inp [of j] inp [OF k] jk k by (intro block_disjoint) auto
    ultimately show ?thesis unfolding K2_def by (intro known_kwr_disj) (simp_all add: X)
  qed
  have dm2: "region ?R OutPtr (agr_at n nin ct r j) ct \<subseteq> dom K2" if "Suc k \<le> j" "j < nin * (n - 1)" for j
  proof -
    have "region ?R OutPtr (agr_at n nin ct r j) ct \<inter> ?M = {}"
      unfolding agr_at_def using agr_msg_inj [OF r n1, of j k] inp that k by (intro block_disjoint) auto
    then have "region ?R OutPtr (agr_at n nin ct r j) ct \<subseteq> dom K1" unfolding K1_def using dm [of j] that by (intro subset_dom_if) simp_all
    then show ?thesis by (simp add: K2_def dom_kwr le_supI1)
  qed
  have pe: "p @ agr_round n slot nin ct r k = p3 @ [?c4]" by (simp add: agr_round_def p1_def p2_def p3_def)
  have "sym_all cf sp r p (agr_round n slot nin ct r k) K \<and> symK cf sp r p (agr_round n slot nin ct r k) K = K2"
    using ok1 nx1 ok2 nx2 ok3 nx3 ok4 nx4 by (simp add: agr_round_def p1_def p2_def p3_def)
  moreover have "agr_inv n slot nin ct X r (Suc k) (p @ agr_round n slot nin ct r k) K2"
    unfolding agr_inv_def pe using c4 own2 got2 dm2 by simp
  ultimately show ?thesis by simp
qed

section \<open>The program\<close>

lemma agr_own_blocks:
  assumes "a < n" "i < nin" "q = r \<and> a = r \<or> q = ring_right n r \<and> a \<noteq> q"
  shows "region q OutPtr (agr_off nin ct a i) ct \<subseteq> dom (agr_own n nin ct m r)"
proof
  fix l assume "l \<in> region q OutPtr (agr_off nin ct a i) ct"
  then obtain x where l: "l = (q, OutPtr, x)" and x: "agr_off nin ct a i \<le> x" "x < agr_off nin ct a i + ct" by (auto simp: region_def)
  have "x < nin * n * ct" using agr_off_bound [OF assms(1,2), of ct] x by linarith
  moreover have "x div (ct * nin) = a"
  proof (rule div_nat_eqI)
    have "i * ct + ct \<le> ct * nin" using assms(2) by (metis Suc_leI add.commute mult.commute mult_Suc mult_le_mono1)
    then show "x < ct * nin * Suc a" "ct * nin * a \<le> x" using x by (simp_all add: agr_off_def mult.commute [of a])
  qed
  ultimately show "l \<in> dom (agr_own n nin ct m r)" using assms(3) by (auto simp: l agr_own_def)
qed

lemma agr_own_known: "i < nin \<Longrightarrow> known (agr_own n nin ct m r) r (InPtr i) 0 (rd (m (InPtr i)) 0 ct)"
  by (simp add: known_def agr_own_def rd_def)

lemma agr_copy_ok:
  assumes r: "r < n" and X: "X = (\<lambda>a i. rd (m a (InPtr i)) 0 ct)" and K0: "K0 = agr_own n nin ct (m r) r"
    and snot: "\<And>j. src_locs sp r (ring_left n r) (Suc slot) j = {}"
  shows "sym_all cf sp r [] (agr_copy nin ct r) K0 \<and> ring_cnt n slot r (agr_copy nin ct r) 0 0 0 0 0 \<and>
    (\<forall>i < nin. known (symK cf sp r [] (agr_copy nin ct r) K0) r OutPtr (agr_off nin ct r i) (X r i)) \<and> dom K0 \<subseteq> dom (symK cf sp r [] (agr_copy nin ct r) K0)"
proof -
  define I where "I = (\<lambda>k p K. ring_cnt n slot r p 0 0 0 0 0 \<and> (\<forall>i < nin. known K r (InPtr i) 0 (X r i)) \<and>
    (\<forall>i < k. known K r OutPtr (agr_off nin ct r i) (X r i)) \<and> dom K0 \<subseteq> dom K)"
  have l: "length (X a i) = ct" for a i by (simp add: X)
  let ?c = "\<lambda>i. BMemcpy OutPtr (agr_off nin ct r i) (InPtr i) 0 ct"
  have step: "sym_all cf sp r p [?c k] K \<and> I (Suc k) (p @ [?c k]) (symK cf sp r p [?c k] K)" if k: "k < nin" and I: "I k p K" for k p K
  proof -
    have c: "ring_cnt n slot r p 0 0 0 0 0" and kn: "known K r (InPtr i) 0 (X r i)" if "i < nin" for i using I that by (simp_all add: I_def)
    have dn: "known K r OutPtr (agr_off nin ct r i) (X r i)" if "i < k" for i using I that by (simp add: I_def)
    have sub: "dom K0 \<subseteq> dom K" using I by (simp add: I_def)
    have fz: "frozen sp r p = {}" using ring_frozen [OF c [OF k] snot] by simp
    have reg: "region r OutPtr (agr_off nin ct r k) ct \<subseteq> dom K" using agr_own_blocks [OF r k, of r r ct "m r"] sub unfolding K0 by blast
    have ok: "sym_ok cf sp r p (?c k) K" using known_rd [OF kn [OF k] l] reg fz by (simp add: sym_ok_def)
    have nx: "sym_next cf sp r p (?c k) K = kwr r OutPtr (agr_off nin ct r k) (X r k) K" by (simp add: sym_next_def krd_len [OF kn [OF k] l])
    have "known (kwr r OutPtr (agr_off nin ct r k) (X r k) K) r OutPtr (agr_off nin ct r i) (X r i)" if "i < Suc k" for i
    proof (cases "i = k")
      case False
      then have "i < k" using that by simp
      then show ?thesis using dn [of i] k False block_disjoint [of i nin k r r r ct r] by (intro known_kwr_disj) (simp_all add: l)
    qed (simp add: kwr_known)
    moreover have "known (kwr r OutPtr (agr_off nin ct r k) (X r k) K) r (InPtr i) 0 (X r i)" if "i < nin" for i
      using kn [OF that] by (intro known_kwr_other) simp_all
    moreover have "dom K0 \<subseteq> dom (kwr r OutPtr (agr_off nin ct r k) (X r k) K)" using sub by (simp add: dom_kwr le_supI1)
    ultimately show ?thesis using ok ring_cnt_step(6) [OF c [OF k]] by (simp add: nx I_def)
  qed
  have I0: "I 0 [] K0" using agr_own_known [of _ nin n ct "m r" r] by (simp add: I_def K0 X)
  have cp: "agr_copy nin ct r = concat (map (\<lambda>i. [?c i]) [0..<nin])" by (simp add: agr_copy_def)
  from sym_rounds [of nin I cf sp r "\<lambda>i. [?c i]" "[]" K0, OF step I0] show ?thesis unfolding cp by (simp add: I_def)
qed

lemma agr_prog_ok:
  assumes r: "r < n" and n1: "1 < n" and slot: "slot + 2 < 2 ^ 31" and ct: "0 < ct"
    and X: "X = (\<lambda>a i. rd (m a (InPtr i)) 0 ct)" and cf: "cf = agr_conf n slot nin ct" and sp: "sp = agr_spec n slot nin ct X" and K0: "K0 = agr_own n nin ct (m r) r"
  shows "sym_all cf sp r [] (agr_prog n slot nin ct r) K0 \<and>
    (\<forall>a < n. \<forall>i < nin. known (symK cf sp r [] (agr_prog n slot nin ct r) K0) r OutPtr (agr_off nin ct a i) (X a i))"
proof -
  let ?L = "ring_left n r"
  have snot: "src_locs sp r ?L (Suc slot) j = {}" for j by (auto simp: src_locs_def sp agr_spec_def region_def)
  have l: "length (X a i) = ct" for a i by (simp add: X)
  let ?K = "symK cf sp r [] (agr_copy nin ct r) K0"
  note c = agr_copy_ok [OF r X K0 snot, of cf]
  have q: "0 < n - 1" using n1 by simp
  have "region (ring_right n r) OutPtr (agr_at n nin ct r j) ct \<subseteq> dom K0" if "j < nin * (n - 1)" for j
    unfolding agr_at_def K0 using agr_rank_not_own(2) [OF r n1, of j] r that by (intro agr_own_blocks) (simp_all add: less_mult_imp_div_less)
  then have I0: "agr_inv n slot nin ct X r 0 (agr_copy nin ct r) ?K" unfolding agr_inv_def using c by (simp, blast)
  let ?rs = "concat (map (agr_round n slot nin ct r) [0..<nin * (n - 1)])"
  from sym_rounds [of "nin * (n - 1)" "agr_inv n slot nin ct X r" cf sp r "agr_round n slot nin ct r" "agr_copy nin ct r" ?K, OF agr_round_ok [OF _ _ r n1 slot l cf sp] I0]
  have rs: "sym_all cf sp r (agr_copy nin ct r) ?rs ?K" "agr_inv n slot nin ct X r (nin * (n - 1)) (agr_copy nin ct r @ ?rs) (symK cf sp r (agr_copy nin ct r) ?rs ?K)" by blast+
  have "known (symK cf sp r (agr_copy nin ct r) ?rs ?K) r OutPtr (agr_off nin ct a i) (X a i)" if a: "a < n" and i: "i < nin" for a i
  proof (cases "a = r")
    case True
    then show ?thesis using rs(2) i by (simp add: agr_inv_def)
  next
    case False
    from agr_covers [OF r a False i] obtain j where j: "j < nin * (n - 1)" "agr_rank n ?L j = a" "j div (n - 1) = i" by blast
    have "known (symK cf sp r (agr_copy nin ct r) ?rs ?K) r OutPtr (agr_at n nin ct ?L j) (X (agr_rank n ?L j) (j div (n - 1)))"
      using rs(2) j(1) unfolding agr_inv_def by blast
    then show ?thesis by (simp only: agr_at_def j(2,3))
  qed
  then show ?thesis using c rs(1) by (simp add: agr_prog_simp [OF r n1 slot ct] sym_all_append symK_append)
qed

definition agr_levels :: "nat \<Rightarrow> nat \<Rightarrow> nat \<Rightarrow> nat \<Rightarrow> nat \<Rightarrow> lprog" where
  "agr_levels n slot nin ct = (if ct = 0 then (\<lambda>_. [])
     else ring_levels n slot (nin * (n - 1)) False (\<lambda>r k. (OutPtr, agr_at n nin ct r k, ct, agr_at n nin ct r k)) (\<lambda>_ _. []) (\<lambda>_ _. []) (agr_copy nin ct) (\<lambda>_. []))"

lemma agr_levels_prog:
  assumes "1 < n" "slot + 2 < 2 ^ 31"
  shows "agr_prog n slot nin ct r = map snd (agr_levels n slot nin ct r)"
proof (cases "r < n \<and> 0 < ct")
  case True
  have "map snd (ring_lround n slot False (\<lambda>r k. (OutPtr, agr_at n nin ct r k, ct, agr_at n nin ct r k)) (\<lambda>_ _. []) (\<lambda>_ _. []) r k) = agr_round n slot nin ct r k" for k
    by (simp add: ring_lround_def agr_round_def)
  from snd_concat [of _ "agr_round n slot nin ct r", OF this] show ?thesis
    using agr_prog_simp [OF _ assms, of r ct nin] True by (simp add: agr_levels_def ring_levels_def o_def)
next
  case False
  then consider "ct = 0" | "\<not> r < n" by blast
  then show ?thesis
  proof cases
    case 1
    then show ?thesis using agr_prog_empty [OF assms] by (simp add: agr_levels_def)
  qed (simp add: agr_levels_def ring_levels_def agr_prog_def)
qed

lemma agr_levels_ok:
  assumes n1: "1 < n" and slot: "slot + 2 < 2 ^ 31"
  shows "levels_ok (agr_conf n slot nin ct) (agr_levels n slot nin ct)"
proof (cases "ct = 0")
  case True
  then show ?thesis by (simp add: levels_ok_def agr_levels_def)
next
  case False
  have loc: "ring_local n (nin * (n - 1)) (\<lambda>_ _. []) (\<lambda>_ _. []) (agr_copy nin ct) (\<lambda>_. [])"
    by (simp add: ring_local_def agr_copy_def list_all_iff)
  have reg: "bc_reg (agr_conf n slot nin ct) (ring_right n r) r slot \<noteq> None \<and> bc_reg (agr_conf n slot nin ct) (ring_left n r) r (Suc slot) \<noteq> None" if r: "r < n" for r
    using bring_neighbours [OF r] by (simp add: agr_reg [OF r _ n1 slot])
  show ?thesis unfolding agr_levels_def using False ring_levels_ok [OF loc _ reg] by (simp add: agr_conf_def)
qed

lemma agr_start_ok: "start_ok (agr_conf n slot nin ct) (\<lambda>r. agr_own n nin ct (m r) r) m"
  unfolding start_ok_def
proof (intro conjI allI impI)
  fix r q assume "r < bc_n (agr_conf n slot nin ct)" "q < bc_n (agr_conf n slot nin ct)" "r \<noteq> q"
  then have "ring_right n r \<noteq> ring_right n q" using bring_neighbours(3) [of r n] bring_neighbours(3) [of q n] by (metis alg_conf_simps(1) agr_conf_def)
  then show "dom (agr_own n nin ct (m r) r) \<inter> dom (agr_own n nin ct (m q) q) = {}" using \<open>r \<noteq> q\<close>
    by (auto simp: agr_own_def dom_def split: if_splits bbuf.splits)
qed (auto simp: agr_own_def agr_conf_def agr_size_def split: if_splits bbuf.splits)



section \<open>A single process\<close>

text \<open>
  \<open>run\<close> returns at once when there is one process, and so does the constructor of \<open>AllreduceRing\<close>. The
  constructor of \<open>AllgatherRing\<close> asks for the pairs of both neighbours first; a process has no pair with itself.
\<close>

lemma AllgatherRing_single_fails: "AllgatherRing_new (mesh_ctx 1 slot 0) nin ct = Inl EnforceNotMet"
  by (simp add: AllgatherRing_new_def getLeftPair_def Let_def)

lemma AllreduceRing_single: "AllreduceRing_new (mesh_ctx 1 slot 0) ct = Inr (no_bufs, mesh_ctx 1 slot 0)"
  by (simp add: AllreduceRing_new_def)

end
