(* ===== verification/Gloo_Alg_Chunked.thy ===== *)
theory Gloo_Alg_Chunked
  imports Gloo_Alg_Rings
begin

text \<open>
  \<open>AllreduceRingChunked\<close>: the reduction travels around the ring chunk by chunk, and then the result does. Shown here
  are bounds and progress: every message fits into the buffer it is sent to and every access is inside its
  buffer, for vectors of any length, also those with fewer elements than chunks; and the algorithm never gets stuck.
  The payload of a chunk out of range is read while the process may be changing it; the receiver ignores it.
\<close>

section \<open>The program as rounds\<close>

definition chk_size :: "nat \<Rightarrow> nat \<Rightarrow> nat" where
  "chk_size n ct = max 256 ((ct + n * 2 - 1) div (n * 2))"

lemma chk_size_pos [simp]: "0 < chk_size n ct"
  by (simp add: chk_size_def less_max_iff_disj)

text \<open>The rounds of both passes are numbered consecutively.\<close>

definition chk_chunk :: "nat \<Rightarrow> nat \<Rightarrow> nat \<Rightarrow> nat" where
  "chk_chunk n r t = chunkOffset (n * 2) r (if t < 2 * n - 2 then t + 2 else t - (2 * n - 2))"

definition chk_send :: "nat \<Rightarrow> nat \<Rightarrow> nat \<Rightarrow> nat \<times> nat" where
  "chk_send n ct co = (let o' = (co mod (n * 2)) * chk_size n ct in if o' < ct then (o', min (chk_size n ct) (ct - o')) else (0, 1))"

definition chk_data :: "nat \<Rightarrow> nat \<Rightarrow> nat \<Rightarrow> nat \<Rightarrow> nat \<Rightarrow> bcmd" where
  "chk_data n slot ct r co = BSend (ring_right n r) (slot + co mod 2) (Ptr 0) (fst (chk_send n ct co)) (snd (chk_send n ct co)) 0"

definition chk_mid :: "nat \<Rightarrow> nat \<Rightarrow> nat \<Rightarrow> nat \<Rightarrow> bprog" where
  "chk_mid n ct r t =
     (let co = chk_chunk n r t; o' = co * chk_size n ct
      in if o' < ct then (if t < 2 * n - 2 then [BReduce (Ptr 0) o' (Inbox (co mod 2)) 0 (min (chk_size n ct) (ct - o'))]
                          else [BMemcpy (Ptr 0) o' (Inbox (co mod 2)) 0 (min (chk_size n ct) (ct - o'))]) else [])"

definition chk_lround :: "nat \<Rightarrow> nat \<Rightarrow> nat \<Rightarrow> nat \<Rightarrow> nat \<Rightarrow> lprog" where
  "chk_lround n slot ct r t =
     [(5 * t + 1, BWaitRecv (ring_left n r) (slot + t mod 2))] @ map (Pair (5 * t + 1)) (chk_mid n ct r t) @
     (if t < 4 * n - 6
      then [(5 * t + 2, BSend (ring_left n r) (slot + 2) Dummy 0 0 0), (5 * t + 3, BWaitRecv (ring_right n r) (slot + 2)),
            (5 * t + 4, chk_data n slot ct r (chk_chunk n r t))]
      else [])"

definition chk_pre :: "nat \<Rightarrow> nat \<Rightarrow> nat \<Rightarrow> nat \<Rightarrow> nat \<Rightarrow> bprog" where
  "chk_pre n slot nptrs ct r = local_reduce nptrs ct @ [chk_data n slot ct r (2 * r), chk_data n slot ct r (2 * r + 1)]"

definition chk_levels :: "nat \<Rightarrow> nat \<Rightarrow> nat \<Rightarrow> nat \<Rightarrow> nat \<Rightarrow> lprog" where
  "chk_levels n slot nptrs ct r =
     (if r < n then map (Pair 0) (chk_pre n slot nptrs ct r) @ concat (map (chk_lround n slot ct r) [0..<4 * n - 4]) @
        [(5 * (4 * n - 4), BSend (ring_left n r) (slot + 2) Dummy 0 0 0), (5 * (4 * n - 4) + 1, BWaitRecv (ring_right n r) (slot + 2))] @
        map (Pair (5 * (4 * n - 4) + 1)) (local_bcast nptrs ct)
      else [])"

definition chk_bsize :: "nat \<Rightarrow> nat \<Rightarrow> bbuf \<Rightarrow> nat" where
  "chk_bsize nptrs ct b = (case b of Ptr i \<Rightarrow> if i < nptrs then ct else 0 | Inbox i \<Rightarrow> if i < 2 then ct else 0 | _ \<Rightarrow> 0)"

definition chk_conf :: "nat \<Rightarrow> nat \<Rightarrow> nat \<Rightarrow> nat \<Rightarrow> ('a list \<Rightarrow> 'a list \<Rightarrow> 'a list) \<Rightarrow> 'a bconf" where
  "chk_conf n slot nptrs ct fn = alg_conf n (chk_bsize nptrs ct) (\<lambda>r. ctor_recvs (AllreduceRingChunked_new (mesh_ctx n slot r) ct) ch_recvs) fn"

definition chk_prog :: "nat \<Rightarrow> nat \<Rightarrow> nat \<Rightarrow> nat \<Rightarrow> nat \<Rightarrow> bprog" where
  "chk_prog n slot nptrs ct r =
     (if r < n then ctor_prog (AllreduceRingChunked_new (mesh_ctx n slot r) ct) (AllreduceRingChunked_run (mesh_ctx n slot r) nptrs) 1 else [])"

definition chk_obj :: "nat \<Rightarrow> nat \<Rightarrow> nat \<Rightarrow> nat \<Rightarrow> ChunkedObj" where
  "chk_obj n slot ct r =
     \<lparr>ch_count = ct, ch_chunks = n * 2, ch_chunkSize = chk_size n ct,
      ch_sendData = [createBuffer (ring_right n r) slot (Ptr 0) 0 ct, createBuffer (ring_right n r) (Suc slot) (Ptr 0) 0 ct],
      ch_recvData = [createBuffer (ring_left n r) slot (Inbox 0) 0 (chk_size n ct), createBuffer (ring_left n r) (Suc slot) (Inbox 1) 0 (chk_size n ct)],
      ch_sendNotification = Some (createBuffer (ring_left n r) (slot + 2) Dummy 0 0),
      ch_recvNotification = Some (createBuffer (ring_right n r) (slot + 2) Dummy 0 0)\<rparr>"

lemma AllreduceRingChunked_new_mesh:
  assumes "r < n" "1 < n" "slot + 3 < 2 ^ 31" "0 < ct"
  shows "AllreduceRingChunked_new (mesh_ctx n slot r) ct = Inr (chk_obj n slot ct r, mesh_ctx n (slot + 3) r)"
  using assms by (simp add: AllreduceRingChunked_new_def pairs_mesh Let_def chk_obj_def chk_size_def numeral_3_eq_3)

lemma chk_obj_simps [simp]:
  "ch_count (chk_obj n slot ct r) = ct" "ch_chunks (chk_obj n slot ct r) = n * 2" "ch_chunkSize (chk_obj n slot ct r) = chk_size n ct"
  by (simp_all add: chk_obj_def)

lemma chunkOffset_parity:
  assumes "k < n * 2"
  shows "chunkOffset (n * 2) r k mod 2 = k mod 2" "chunkOffset (n * 2) r k < n * 2"
proof -
  have "2 * (k div 2) \<le> n * 2" using assms by linarith
  then obtain d where "n * 2 = 2 * (k div 2) + 2 * d" by (metis add_diff_cancel_left' diff_mult_distrib2 le_add_diff_inverse mult.commute)
  moreover have "2 * r + N + b - 2 * q = 2 * (r + d) + b" if "N = 2 * q + 2 * d" for N b q :: nat using that by simp
  ultimately have "2 * r + n * 2 + k mod 2 - 2 * (k div 2) = 2 * (r + d) + k mod 2" by blast
  then have "chunkOffset (n * 2) r k mod 2 = (2 * (r + d) + k mod 2) mod 2" by (simp add: chunkOffset_def mod_mod_cancel)
  then show "chunkOffset (n * 2) r k mod 2 = k mod 2" by (simp only: mod_mult_self4 mod_mod_trivial)
  show "chunkOffset (n * 2) r k < n * 2" using assms by (simp add: chunkOffset_def)
qed

lemma chk_chunk_parity:
  assumes "t < 4 * n - 4"
  shows "chk_chunk n r t mod 2 = t mod 2" "chk_chunk n r t < n * 2"
proof -
  let ?k = "if t < 2 * n - 2 then t + 2 else t - (2 * n - 2)"
  have k: "?k < n * 2" using assms by auto
  have "?k mod 2 = t mod 2"
  proof (cases "t < 2 * n - 2")
    case False
    have "(2 * x + y) mod 2 = y mod 2" for x y :: nat by simp
    moreover have "t = 2 * (n - 1) + (t - (2 * n - 2))" using False by linarith
    ultimately have "(t - (2 * n - 2)) mod 2 = t mod 2" by metis
    then show ?thesis using False by simp
  qed simp
  then show "chk_chunk n r t mod 2 = t mod 2" using chunkOffset_parity(1) [OF k, of r] by (simp add: chk_chunk_def)
  show "chk_chunk n r t < n * 2" using chunkOffset_parity(2) [OF k, of r] by (simp add: chk_chunk_def)
qed

lemma chunk_length_min: "chunk_length (chk_obj n slot ct r) o' = (if o' < ct then min (chk_size n ct) (ct - o') else 0)"
proof -
  have "0 < chk_size n ct" by (simp add: chk_size_def)
  then show ?thesis by (auto simp: chunk_length_def min_def)
qed

lemma copyChunk_simp:
  assumes "0 < ct"
  shows "copyChunkAtOffset (chk_obj n slot ct r) co = chk_data n slot ct r co"
proof -
  have p: "co mod 2 = 0 \<or> co mod 2 = 1" by linarith
  have h: "ch_sendData (chk_obj n slot ct r) ! (co mod 2) = createBuffer (ring_right n r) (slot + co mod 2) (Ptr 0) 0 ct"
    using p by (auto simp: chk_obj_def)
  show ?thesis using assms unfolding copyChunkAtOffset_def Let_def h
    by (auto simp: chunk_length_min h_defs chk_data_def chk_send_def Let_def min_def)
qed

lemma recvData_simp: "h_waitRecv (ch_recvData (chk_obj n slot ct r) ! (co mod 2)) = BWaitRecv (ring_left n r) (slot + co mod 2)"
proof -
  have p: "co mod 2 = 0 \<or> co mod 2 = 1" by linarith
  then show ?thesis by (auto simp: chk_obj_def h_defs)
qed

lemma chk_round_simp:
  assumes "0 < ct" "1 < n" "t < 4 * n - 4"
  shows "map snd (chk_lround n slot ct r t) =
    (if t < 2 * n - 2 then chunked_reduce_round (mesh_ctx n slot r) (chk_obj n slot ct r) (t + 2)
     else chunked_copy_round (mesh_ctx n slot r) (chk_obj n slot ct r) (t - (2 * n - 2)))"
proof -
  note par = chk_chunk_parity(1) [OF assms(3), of r]
  have nt: "chunked_notify (chk_obj n slot ct r) = [BSend (ring_left n r) (slot + 2) Dummy 0 0 0, BWaitRecv (ring_right n r) (slot + 2)]"
    by (simp add: chunked_notify_def chk_obj_def h_defs)
  have pos: "0 < min (chk_size n ct) (ct - o') \<longleftrightarrow> o' < ct" for o' by (simp add: chk_size_def less_max_iff_disj)
  show ?thesis
  proof (cases "t < 2 * n - 2")
    case True
    then have co: "chunkOffset (n * 2) r (Suc (Suc t)) = chk_chunk n r t" by (simp add: chk_chunk_def)
    have "t < 4 * n - 6" using True assms(2) by linarith
    then show ?thesis using True par
      by (simp add: chk_lround_def chunked_reduce_round_def Let_def co recvData_simp nt copyChunk_simp [OF assms(1)] chunk_length_min chk_mid_def pos)
  next
    case False
    define k where "k = t - (2 * n - 2)"
    have co: "chunkOffset (n * 2) r k = chk_chunk n r t" using False by (simp add: chk_chunk_def k_def)
    have less: "t < 4 * n - 6 \<longleftrightarrow> k < n * 2 - 4" using False assms(2) unfolding k_def by linarith
    have "map snd (chk_lround n slot ct r t) = chunked_copy_round (mesh_ctx n slot r) (chk_obj n slot ct r) k"
      using False par by (simp add: less chk_lround_def chunked_copy_round_def Let_def co recvData_simp nt copyChunk_simp [OF assms(1)] chunk_length_min chk_mid_def pos)
    then show ?thesis using False unfolding k_def by (simp only: if_False)
  qed
qed

lemma chk_prog_simp:
  assumes n1: "1 < n" and slot: "slot + 3 < 2 ^ 31" and ct: "0 < ct"
  shows "chk_prog n slot nptrs ct r = map snd (chk_levels n slot nptrs ct r)"
proof (cases "r < n")
  case True
  let ?cx = "mesh_ctx n slot r" and ?ch = "chk_obj n slot ct r"
  have red: "map (\<lambda>t. map snd (chk_lround n slot ct r t)) [0..<2 * n - 2] = map (chunked_reduce_round ?cx ?ch) [2..<n * 2]"
    by (rule nth_equalityI) (use n1 in \<open>auto simp: chk_round_simp [OF ct n1] add.commute\<close>)
  have cpy: "map (\<lambda>t. map snd (chk_lround n slot ct r t)) [2 * n - 2..<4 * n - 4] = map (chunked_copy_round ?cx ?ch) [0..<n * 2 - 2]"
  proof (rule nth_equalityI)
    define a where "a = 2 * n - 2"
    have a: "4 * n - 4 = a + a" "n * 2 - 2 = a" using n1 by (simp_all add: a_def)
    show "length (map (\<lambda>t. map snd (chk_lround n slot ct r t)) [2 * n - 2..<4 * n - 4]) = length (map (chunked_copy_round ?cx ?ch) [0..<n * 2 - 2])"
      unfolding a a_def [symmetric] by simp
    fix i assume "i < length (map (\<lambda>t. map snd (chk_lround n slot ct r t)) [2 * n - 2..<4 * n - 4])"
    then have i: "i < a" unfolding a a_def [symmetric] by simp
    have "map snd (chk_lround n slot ct r (a + i)) = chunked_copy_round ?cx ?ch i"
      using chk_round_simp [OF ct n1, of "a + i" slot r] i unfolding a a_def [symmetric] by simp
    then show "map (\<lambda>t. map snd (chk_lround n slot ct r t)) [2 * n - 2..<4 * n - 4] ! i = map (chunked_copy_round ?cx ?ch) [0..<n * 2 - 2] ! i"
      unfolding a a_def [symmetric] using i by simp
  qed
  have "[0..<4 * n - 4] = [0..<2 * n - 2] @ [2 * n - 2..<4 * n - 4]"
    using upt_add_eq_append [of 0 "2 * n - 2" "2 * n - 2"] n1 by (simp add: algebra_simps)
  then have rs: "map snd (concat (map (chk_lround n slot ct r) [0..<4 * n - 4])) =
      concat (map (chunked_reduce_round ?cx ?ch) [2..<n * 2]) @ concat (map (chunked_copy_round ?cx ?ch) [0..<n * 2 - 2])"
    unfolding map_concat map_map o_def using red cpy by (simp only: map_append concat_append)
  have nt: "chunked_notify ?ch = [BSend (ring_left n r) (slot + 2) Dummy 0 0 0, BWaitRecv (ring_right n r) (slot + 2)]"
    by (simp add: chunked_notify_def chk_obj_def h_defs)
  show ?thesis using True n1 ct rs
    by (simp add: chk_prog_def AllreduceRingChunked_new_mesh [OF True n1 slot ct] AllreduceRingChunked_run_def chk_levels_def chk_pre_def
      copyChunk_simp nt o_def del: upt.simps)
qed (simp add: chk_prog_def chk_levels_def)

section \<open>Bounds\<close>

lemma chk_send_bounds: "0 < ct \<Longrightarrow> fst (chk_send n ct co) + snd (chk_send n ct co) \<le> ct \<and> snd (chk_send n ct co) \<le> chk_size n ct"
  by (auto simp: chk_send_def Let_def Suc_le_eq min_def)

lemma chk_reg:
  assumes "r < n" "j < n" "1 < n" "slot + 3 < 2 ^ 31" "0 < ct"
  shows "b < 2 \<Longrightarrow> bc_reg (chk_conf n slot nptrs ct fn) j r (slot + b) = (if r = ring_left n j then Some (Inbox b, 0, chk_size n ct) else None)"
    "bc_reg (chk_conf n slot nptrs ct fn) j r (slot + 2) = (if r = ring_right n j then Some (Dummy, 0, 0) else None)"
  using assms by (auto simp: chk_conf_def AllreduceRingChunked_new_mesh ch_recvs_def chk_obj_def createBuffer_def less_2_cases_iff)

lemma chk_prog_cmds:
  assumes "c \<in> set (map snd (chk_levels n slot nptrs ct r))"
  obtains co where "c = chk_data n slot ct r co" | t where "t < 4 * n - 4" "c \<in> set (chk_mid n ct r t)"
  | i s where "c = BWaitRecv i s" | "c = BSend (ring_left n r) (slot + 2) Dummy 0 0 0" | "c \<in> set (local_reduce nptrs ct)" | "c \<in> set (local_bcast nptrs ct)"
proof -
  from assms have "r < n" by (cases "r < n") (simp_all add: chk_levels_def)
  with assms consider "c \<in> set (chk_pre n slot nptrs ct r)" | t a where "t < 4 * n - 4" "(a, c) \<in> set (chk_lround n slot ct r t)"
    | "c = BSend (ring_left n r) (slot + 2) Dummy 0 0 0" | "c = BWaitRecv (ring_right n r) (slot + 2)" | "c \<in> set (local_bcast nptrs ct)"
    by (auto simp: chk_levels_def image_iff)
  then show ?thesis
  proof cases
    case 1
    then show ?thesis using that by (auto simp: chk_pre_def)
  next
    case 2
    from 2(2) consider "c = BWaitRecv (ring_left n r) (slot + t mod 2)" | "c \<in> set (chk_mid n ct r t)" | "c = BSend (ring_left n r) (slot + 2) Dummy 0 0 0"
      | "c = BWaitRecv (ring_right n r) (slot + 2)" | "c = chk_data n slot ct r (chk_chunk n r t)"
      by (auto simp: chk_lround_def split: if_splits)
    then show ?thesis by cases (use that 2(1) in blast)+
  qed (use that in blast)+
qed

lemma chk_static:
  assumes n1: "1 < n" and slot: "slot + 3 < 2 ^ 31" and ct: "0 < ct" and np: "0 < nptrs" and r: "r < n" and c: "c \<in> set (map snd (chk_levels n slot nptrs ct r))"
  shows "static_ok (chk_conf n slot nptrs ct fn) r c"
proof -
  let ?cf = "chk_conf n slot nptrs ct fn"
  note nb = bring_neighbours [OF r]
  have buf: "in_buf ?cf q (Ptr i) off len \<longleftrightarrow> len = 0 \<or> i < nptrs \<and> off + len \<le> ct \<or> i \<ge> nptrs \<and> off + len \<le> 0"
    "b < 2 \<Longrightarrow> in_buf ?cf q (Inbox b) off len \<longleftrightarrow> len = 0 \<or> off + len \<le> ct" "in_buf ?cf q d off 0" for q i off len b d
    by (auto simp: in_buf_def chk_conf_def chk_bsize_def)
  from c show ?thesis
  proof (cases rule: chk_prog_cmds)
    case (1 co)
    have "co mod 2 < 2" by simp
    note reg = chk_reg(1) [OF r nb(2) n1 slot ct this, of nptrs fn]
    show ?thesis using chk_send_bounds [OF ct, of n co] nb np reg
      by (auto simp: static_ok_def 1 chk_data_def buf)
  next
    case (2 t)
    have "o' + min (chk_size n ct) (ct - o') \<le> ct" "min (chk_size n ct) (ct - o') \<le> ct" if "o' < ct" for o' using that by auto
    moreover have "chk_chunk n r t mod 2 < 2" by simp
    ultimately show ?thesis using 2(2) np by (auto simp: chk_mid_def Let_def static_ok_def buf split: if_splits)
  next
    case 4
    then show ?thesis using nb chk_reg(2) [OF r nb(1) n1 slot ct, of nptrs fn] by (simp add: static_ok_def buf)
  next
    case 5
    then show ?thesis using np by (auto simp: local_reduce_def static_ok_def buf)
  next
    case 6
    then show ?thesis using np by (auto simp: local_bcast_def static_ok_def buf)
  qed (simp add: static_ok_def)
qed

section \<open>Levels\<close>

lemma chk_mid_local: "list_all local_cmd (chk_mid n ct r t)"
  by (simp add: chk_mid_def Let_def)

lemma sum_list_if: "sum_list (map (\<lambda>x. if Q x then 1 else 0) xs) = length (filter Q xs)"
  by (induction xs) simp_all

lemma length_filter_mono: "(\<And>x. x \<in> set xs \<Longrightarrow> P x \<Longrightarrow> Q x) \<Longrightarrow> length (filter P xs) \<le> length (filter Q xs)"
  by (induction xs) (auto intro: le_SucI)

text \<open>The waits of a process before round \<open>t\<close>, and the messages sent to it by then.\<close>

lemma chk_waits:
  assumes "r < n" "t \<le> 4 * n - 6 \<or> t = 4 * n - 5 \<or> t = 4 * n - 4"
  shows "b < 2 \<Longrightarrow> waitsR (ring_left n r) (slot + b) (map snd (map (Pair 0) (chk_pre n slot nptrs ct r) @ concat (map (chk_lround n slot ct r) [0..<t]))) =
      length (filter (\<lambda>t'. t' mod 2 = b) [0..<t])"
    "waitsR (ring_right n r) (slot + 2) (map snd (map (Pair 0) (chk_pre n slot nptrs ct r) @ concat (map (chk_lround n slot ct r) [0..<t]))) =
      length (filter (\<lambda>t'. t' < 4 * n - 6) [0..<t])"
proof -
  have pre: "waitsR i s (chk_pre n slot nptrs ct r) = 0" for i s by (simp add: chk_pre_def chk_data_def)
  note loc = local_list_cnt(2) [OF chk_mid_local]
  have one: "b < 2 \<Longrightarrow> waitsR (ring_left n r) (slot + b) (map snd (chk_lround n slot ct r t')) = (if t' mod 2 = b then 1 else 0)"
    "waitsR (ring_right n r) (slot + 2) (map snd (chk_lround n slot ct r t')) = (if t' < 4 * n - 6 then 1 else 0)" for t' b
    by (auto simp: chk_lround_def chk_data_def loc o_def)
  show "b < 2 \<Longrightarrow> waitsR (ring_left n r) (slot + b) (map snd (map (Pair 0) (chk_pre n slot nptrs ct r) @ concat (map (chk_lround n slot ct r) [0..<t]))) =
      length (filter (\<lambda>t'. t' mod 2 = b) [0..<t])"
    unfolding map_append map_snd_Pair waits_simps pre unfolding map_concat map_map o_def count_rounds by (simp only: one sum_list_if add_0)
  show "waitsR (ring_right n r) (slot + 2) (map snd (map (Pair 0) (chk_pre n slot nptrs ct r) @ concat (map (chk_lround n slot ct r) [0..<t]))) =
      length (filter (\<lambda>t'. t' < 4 * n - 6) [0..<t])"
    unfolding map_append map_snd_Pair waits_simps pre unfolding map_concat map_map o_def count_rounds by (simp only: one sum_list_if add_0)
qed

lemma chk_sent:
  assumes i: "i < n" and n1: "1 < n"
  shows "b < 2 \<Longrightarrow> Suc (length (filter (\<lambda>t'. t' mod 2 = b \<and> t' < t \<and> t' < 4 * n - 6) [0..<4 * n - 4])) \<le>
      on_slot (slot + b) (posts (ring_right n i) (map snd (filter (\<lambda>x. fst x < 5 * t + 1) (chk_levels n slot nptrs ct i))))"
    "t < 4 * n - 4 \<Longrightarrow> length (filter (\<lambda>t'. t' \<le> t \<and> t' < 4 * n - 6) [0..<4 * n - 4]) \<le>
      on_slot (slot + 2) (posts (ring_left n i) (map snd (filter (\<lambda>x. fst x < 5 * t + 3) (chk_levels n slot nptrs ct i))))"
    "Suc (length (filter (\<lambda>t'. t' < 4 * n - 6) [0..<4 * n - 4])) \<le>
      on_slot (slot + 2) (posts (ring_left n i) (map snd (filter (\<lambda>x. fst x < 5 * (4 * n - 4) + 1) (chk_levels n slot nptrs ct i))))"
proof -
  note loc = local_list_cnt(1) [OF chk_mid_local]
  have fl: "filter (\<lambda>x. fst x < l) (map (Pair a) cs) = (if a < l then map (Pair a) cs else [])" for l a and cs :: bprog by (induction cs) auto
  have data: "b < 2 \<Longrightarrow> on_slot (slot + b) (posts (ring_right n i) (map snd (filter (\<lambda>x. fst x < 5 * t + 1) (chk_lround n slot ct i t')))) =
      (if t' mod 2 = b \<and> t' < t \<and> t' < 4 * n - 6 then 1 else 0)" if "t' < 4 * n - 4" for t' b
    using chk_chunk_parity(1) [OF that, of i] by (auto simp: chk_lround_def chk_data_def fl loc o_def)
  have note2: "on_slot (slot + 2) (posts (ring_left n i) (map snd (filter (\<lambda>x. fst x < 5 * t + 3) (chk_lround n slot ct i t')))) =
      (if t' \<le> t \<and> t' < 4 * n - 6 then 1 else 0)" for t' t
    by (auto simp: chk_lround_def chk_data_def fl loc o_def)
  have note3: "on_slot (slot + 2) (posts (ring_left n i) (map snd (filter (\<lambda>x. fst x < 5 * (4 * n - 4) + 1) (chk_lround n slot ct i t')))) =
      (if t' < 4 * n - 6 then 1 else 0)" if "t' < 4 * n - 4" for t'
    using that by (auto simp: chk_lround_def chk_data_def fl loc o_def)
  have A: "chk_levels n slot nptrs ct i = map (Pair 0) (chk_pre n slot nptrs ct i) @ concat (map (chk_lround n slot ct i) [0..<4 * n - 4]) @
        [(5 * (4 * n - 4), BSend (ring_left n i) (slot + 2) Dummy 0 0 0), (5 * (4 * n - 4) + 1, BWaitRecv (ring_right n i) (slot + 2))] @
        map (Pair (5 * (4 * n - 4) + 1)) (local_bcast nptrs ct)" using i by (simp add: chk_levels_def)
  have dc: "sum_list (map (\<lambda>t'. on_slot (slot + b) (posts (ring_right n i) (map snd (filter (\<lambda>x. fst x < 5 * t + 1) (chk_lround n slot ct i t'))))) [0..<4 * n - 4]) =
      length (filter (\<lambda>t'. t' mod 2 = b \<and> t' < t \<and> t' < 4 * n - 6) [0..<4 * n - 4])" if "b < 2" for b
  proof -
    have "map (\<lambda>t'. on_slot (slot + b) (posts (ring_right n i) (map snd (filter (\<lambda>x. fst x < 5 * t + 1) (chk_lround n slot ct i t'))))) [0..<4 * n - 4] =
      map (\<lambda>t'. if t' mod 2 = b \<and> t' < t \<and> t' < 4 * n - 6 then 1 else 0) [0..<4 * n - 4]" using data [OF _ that] by simp
    then show ?thesis by (simp only: sum_list_if)
  qed
  have p1: "1 \<le> on_slot (slot + b) (posts (ring_right n i) (map snd (filter (\<lambda>x. fst x < 5 * t + 1) (map (Pair 0) (chk_pre n slot nptrs ct i)))))" if "b < 2" for b
    using that by (auto simp: fl chk_pre_def chk_data_def less_2_cases_iff)
  show "Suc (length (filter (\<lambda>t'. t' mod 2 = b \<and> t' < t \<and> t' < 4 * n - 6) [0..<4 * n - 4])) \<le>
      on_slot (slot + b) (posts (ring_right n i) (map snd (filter (\<lambda>x. fst x < 5 * t + 1) (chk_levels n slot nptrs ct i))))" if b: "b < 2"
    unfolding A filter_append map_append posts_simps on_slot_simps count_rounds dc [OF b] using p1 [OF b] by linarith
  show "t < 4 * n - 4 \<Longrightarrow> length (filter (\<lambda>t'. t' \<le> t \<and> t' < 4 * n - 6) [0..<4 * n - 4]) \<le>
      on_slot (slot + 2) (posts (ring_left n i) (map snd (filter (\<lambda>x. fst x < 5 * t + 3) (chk_levels n slot nptrs ct i))))"
    unfolding A filter_append map_append posts_simps on_slot_simps count_rounds note2 sum_list_if by simp
  have "map (\<lambda>t'. on_slot (slot + 2) (posts (ring_left n i) (map snd (filter (\<lambda>x. fst x < 5 * (4 * n - 4) + 1) (chk_lround n slot ct i t'))))) [0..<4 * n - 4] =
      map (\<lambda>t'. if t' < 4 * n - 6 then 1 else 0) [0..<4 * n - 4]" using note3 by simp
  then have nc: "sum_list (map (\<lambda>t'. on_slot (slot + 2) (posts (ring_left n i) (map snd (filter (\<lambda>x. fst x < 5 * (4 * n - 4) + 1) (chk_lround n slot ct i t'))))) [0..<4 * n - 4]) =
      length (filter (\<lambda>t'. t' < 4 * n - 6) [0..<4 * n - 4])" by (simp only: sum_list_if)
  show "Suc (length (filter (\<lambda>t'. t' < 4 * n - 6) [0..<4 * n - 4])) \<le>
      on_slot (slot + 2) (posts (ring_left n i) (map snd (filter (\<lambda>x. fst x < 5 * (4 * n - 4) + 1) (chk_levels n slot nptrs ct i))))"
    unfolding A filter_append map_append posts_simps on_slot_simps count_rounds nc by simp
qed

lemma chk_levels_ok:
  assumes n1: "1 < n" and slot: "slot + 3 < 2 ^ 31" and ct: "0 < ct"
  shows "levels_ok (chk_conf n slot nptrs ct fn) (chk_levels n slot nptrs ct)"
proof (rule levels_okI)
  let ?cf = "chk_conf n slot nptrs ct fn" and ?A = "chk_levels n slot nptrs ct"
  have n: "bc_n ?cf = n" by (simp add: chk_conf_def)
  fix r assume "r < bc_n ?cf"
  then have r: "r < n" by (simp add: n)
  note nb = bring_neighbours [OF r]
  let ?N = "4 * n - 4"
  let ?pre = "map (Pair 0) (chk_pre n slot nptrs ct r) :: lprog" and ?rs = "\<lambda>t. concat (map (chk_lround n slot ct r) [0..<t])"
  have dat: "wait_ok ?cf ?A r p l (chk_data n slot ct r co)" for p l co
    using chk_reg(1) [OF r nb(2) n1 slot ct, of "co mod 2" nptrs fn] nb by (simp add: wait_ok_def chk_data_def n)
  have noti: "wait_ok ?cf ?A r p l (BSend (ring_left n r) (slot + 2) Dummy 0 0 0)" for p l
    using chk_reg(2) [OF r nb(1) n1 slot ct, of nptrs fn] nb by (simp add: wait_ok_def n)
  have rnd: "lv_all ?cf ?A r (?pre @ ?rs t) (chk_lround n slot ct r t)" if t: "t < ?N" for t
  proof -
    have tt: "t \<le> 4 * n - 6 \<or> t = 4 * n - 5 \<or> t = 4 * n - 4" using t by linarith
    define p where "p = ?pre @ ?rs t"
    have b: "t mod 2 < 2" by simp
    have upt: "[0..<?N] = [0..<t] @ [t..<?N]" using t upt_add_eq_append [of 0 t "?N - t"] by simp
    have wd: "waitsR (ring_left n r) (slot + t mod 2) (map snd p) < on_slot (slot + t mod 2) (posts r (map snd (filter (\<lambda>x. fst x < 5 * t + 1) (?A (ring_left n r)))))"
    proof -
      have "length (filter (\<lambda>t'. t' mod 2 = t mod 2) [0..<t]) \<le> length (filter (\<lambda>t'. t' mod 2 = t mod 2 \<and> t' < t \<and> t' < 4 * n - 6) [0..<t])"
      proof (rule length_filter_mono)
        fix t' assume a: "t' \<in> set [0..<t]" "t' mod 2 = t mod 2"
        have "Suc t' \<noteq> t" using a(2) by (auto simp: mod_Suc split: if_splits)
        moreover have "t' < t" using a(1) by simp
        ultimately have "Suc (Suc t') \<le> t" by linarith
        then have "t' < t" "t' < 4 * n - 6" using t by linarith+
        then show "t' mod 2 = t mod 2 \<and> t' < t \<and> t' < 4 * n - 6" using a(2) by blast
      qed
      also have "\<dots> \<le> length (filter (\<lambda>t'. t' mod 2 = t mod 2 \<and> t' < t \<and> t' < 4 * n - 6) [0..<?N])" unfolding upt by simp
      finally show ?thesis
        using chk_waits(1) [OF r tt b, of slot nptrs ct] chk_sent(1) [OF nb(1) n1 b, of t slot nptrs ct] nb unfolding p_def by simp
    qed
    have wn: "waitsR (ring_right n r) (slot + 2) (map snd p) < on_slot (slot + 2) (posts r (map snd (filter (\<lambda>x. fst x < 5 * t + 3) (?A (ring_right n r)))))" if "t < 4 * n - 6"
    proof -
      have "length (filter (\<lambda>t'. t' < 4 * n - 6) [0..<t]) < length (filter (\<lambda>t'. t' \<le> t \<and> t' < 4 * n - 6) [0..<Suc t])"
        using that length_filter_mono [of "[0..<t]" "\<lambda>t'. t' < 4 * n - 6" "\<lambda>t'. t' \<le> t \<and> t' < 4 * n - 6"] by simp
      also have "\<dots> \<le> length (filter (\<lambda>t'. t' \<le> t \<and> t' < 4 * n - 6) [0..<?N])"
      proof -
        have "Suc t + (?N - Suc t) = ?N" using t by linarith
        then have "[0..<?N] = [0..<Suc t] @ [Suc t..<?N]" using upt_add_eq_append [of 0 "Suc t" "?N - Suc t"] by (simp only: zero_le)
        then have "length (filter (\<lambda>t'. t' \<le> t \<and> t' < 4 * n - 6) [0..<?N]) =
          length (filter (\<lambda>t'. t' \<le> t \<and> t' < 4 * n - 6) [0..<Suc t]) + length (filter (\<lambda>t'. t' \<le> t \<and> t' < 4 * n - 6) [Suc t..<?N])"
          by (simp only: filter_append length_append)
        then show ?thesis by linarith
      qed
      finally show ?thesis
        using chk_waits(2) [OF r tt, of slot nptrs ct] chk_sent(2) [OF nb(2) n1 t, of slot nptrs ct] nb unfolding p_def by simp
    qed
    have wn': "waitsR (ring_right n r) (slot + 2) (map snd (p @ [(5 * t + 1, BWaitRecv (ring_left n r) (slot + t mod 2))] @ map (Pair (5 * t + 1)) (chk_mid n ct r t) @
        [(5 * t + 2, BSend (ring_left n r) (slot + 2) Dummy 0 0 0)])) = waitsR (ring_right n r) (slot + 2) (map snd p)"
      using local_list_cnt(2) [OF chk_mid_local, of "ring_right n r" "slot + 2" n ct r t] b by (simp add: o_def) linarith
    show ?thesis unfolding p_def [symmetric] chk_lround_def lv_all_append
      using wd wn wn' dat noti nb lv_local_list [OF chk_mid_local] by (auto simp: wait_ok_def n)
  qed
  have "lv_all ?cf ?A r [] ?pre"
  proof -
    have "list_all local_cmd (local_reduce nptrs ct)" by (simp add: local_reduce_def list_all_iff)
    from lv_local_list [OF this] show ?thesis using dat by (simp add: chk_pre_def lv_all_append)
  qed
  moreover have "lv_all ?cf ?A r ?pre (?rs ?N)" by (rule lv_rounds [OF rnd])
  moreover have "waitsR (ring_right n r) (slot + 2) (map snd (?pre @ ?rs ?N)) < on_slot (slot + 2) (posts r (map snd (filter (\<lambda>x. fst x < 5 * ?N + 1) (?A (ring_right n r)))))"
    using chk_waits(2) [OF r, of ?N slot nptrs ct] chk_sent(3) [OF nb(2) n1, of slot nptrs ct] nb by simp
  moreover have "list_all local_cmd (local_bcast nptrs ct)" by (simp add: local_bcast_def list_all_iff)
  from lv_local_list [OF this] have "lv_all ?cf ?A r q (map (Pair (5 * ?N + 1)) (local_bcast nptrs ct))" for q .
  ultimately show "lv_all ?cf ?A r [] (?A r)"
    unfolding chk_levels_def [of n slot nptrs ct r] using r noti nb by (simp add: lv_all_append wait_ok_def n)
  have in_round: "5 * t \<le> x \<and> x < 5 * Suc t" if "x \<in> set (map fst (chk_lround n slot ct r t))" for x t
    using that by (auto simp: chk_lround_def split: if_splits)
  have "sorted (map fst (?rs ?N))"
    unfolding map_concat map_map o_def
    by (rule sorted_rounds [where c = 5]) (use in_round in \<open>auto simp: chk_lround_def sorted_append o_def\<close>)
  moreover have bd: "a \<le> 5 * ?N \<and> a \<le> Suc (5 * ?N)" if k: "k < ?N" and y: "(a, b) \<in> set (chk_lround n slot ct r k)" for a b k
  proof -
    have "a < 5 * Suc k" using in_round [of a k] y by force
    also have "5 * Suc k \<le> 5 * ?N" using k by (intro mult_le_mono2) simp
    finally show ?thesis by linarith
  qed
  ultimately show "sorted (map fst (?A r))"
    unfolding chk_levels_def using bd by (auto simp: sorted_append o_def simp del: upt.simps)
qed



end
