(* ===== verification/Gloo_Alg_Pairwise.thy ===== *)
theory Gloo_Alg_Pairwise
  imports Gloo_Algorithm
begin

unbundle bit_operations_syntax

text \<open>
  \<open>PairwiseExchange\<close>: in step \<open>i\<close> a process exchanges a block with the process whose rank differs in bit \<open>i\<close>. The
  sender owns the block of the receiver's memory that it writes.
\<close>

section \<open>Partners\<close>

definition partner :: "nat \<Rightarrow> nat \<Rightarrow> nat" where
  "partner r i = r XOR 2 ^ i"

lemma partner_partner [simp]: "partner (partner r i) i = r"
  by (simp add: partner_def xor.assoc)

lemma partner_neq: "partner r i \<noteq> r"
proof
  assume "partner r i = r"
  then have "bit (r XOR 2 ^ i) i = bit r i" by (simp add: partner_def)
  then show False by (simp add: bit_xor_iff bit_exp_iff)
qed

text \<open>The partner exists if the number of processes is a multiple of the power of two.\<close>

lemma partner_less:
  assumes "2 ^ d dvd n" "i < d" "r < n"
  shows "partner r i < n"
proof -
  have "drop_bit d (2 ^ i :: nat) = 0" using assms(2) by (simp add: drop_bit_eq_div)
  then have "drop_bit d (partner r i) = drop_bit d r" by (simp add: partner_def drop_bit_xor)
  then have "partner r i div 2 ^ d = r div 2 ^ d" by (simp add: drop_bit_eq_div)
  moreover obtain c where c: "n = 2 ^ d * c" using assms(1) by (elim dvdE)
  then have "r div 2 ^ d < c" using assms(3) by (simp add: less_mult_imp_div_less mult.commute)
  ultimately have "partner r i div 2 ^ d < c" by simp
  then show ?thesis using div_less_iff_less_mult [of "2 ^ d" "partner r i" c] c by (simp add: mult.commute)
qed

section \<open>The constructor\<close>

lemma exchange_buffers_mesh:
  assumes "slot + 2 * length is < 2 ^ 31" "\<And>i. i \<in> set is \<Longrightarrow> partner r i < n"
  shows "exchange_buffers q is (mesh_ctx n slot r) =
    Inr (map (\<lambda>(k, i). ((createBuffer (partner r i) (slot + 2 * k) Outbox (i * q) q, createBuffer (partner r i) (slot + 2 * k) (Inbox 0) (i * q) q),
      (createBuffer (partner r i) (slot + 2 * k + 1) Dummy 0 0, createBuffer (partner r i) (slot + 2 * k + 1) Dummy 0 0))) (zip [0..<length is] is),
      mesh_ctx n (slot + 2 * length is) r)"
  using assms
proof (induction "is" arbitrary: slot)
  case (Cons i xs)
  have p: "pair_ref (mesh_ctx n t r) (int (r XOR 2 ^ i)) = Inr (partner r i)" for t
    using Cons.prems(2) [of i] partner_neq [of r i] by (simp add: pair_ref_def partner_def del: of_nat_xor_eq of_nat_power)
  have "slot + 2 + 2 * length xs < 2 ^ 31" using Cons.prems(1) by simp
  note IH = Cons.IH [OF this Cons.prems(2)]
  have z: "zip [0..<length (i # xs)] (i # xs) = (0, i) # map (\<lambda>(k, i). (Suc k, i)) (zip [0..<length xs] xs)"
    by (simp add: upt_conv_Cons zip_map1 map_Suc_upt [symmetric] del: upt.simps)
  show ?case unfolding z using Cons.prems(1) IH p
    by (simp add: o_def split_beta algebra_simps del: upt.simps of_nat_xor_eq of_nat_power)
qed simp

definition pex_step :: "nat \<Rightarrow> nat \<Rightarrow> nat \<Rightarrow> nat \<Rightarrow> bprog" where
  "pex_step slot q r i =
     [BSend (partner r i) (slot + 2 * i) Outbox (i * q) q 0, BWaitRecv (partner r i) (slot + 2 * i),
      BSend (partner r i) (slot + 2 * i + 1) Dummy 0 0 0, BWaitRecv (partner r i) (slot + 2 * i + 1)]"

definition pex_bsize :: "nat \<Rightarrow> bbuf \<Rightarrow> nat" where
  "pex_bsize nbytes b = (case b of Outbox \<Rightarrow> nbytes | Inbox i \<Rightarrow> if i = 0 then nbytes else 0 | _ \<Rightarrow> 0)"

definition pex_conf :: "nat \<Rightarrow> nat \<Rightarrow> nat \<Rightarrow> nat \<Rightarrow> 'a bconf" where
  "pex_conf n slot nbytes d =
     alg_conf n (pex_bsize nbytes) (\<lambda>r. ctor_recvs (PairwiseExchange_new (mesh_ctx n slot r) (int nbytes) (int d)) (\<lambda>po. map snd (po_data po) @ map snd (po_notif po))) (\<lambda>xs ys. xs)"

definition pex_prog :: "nat \<Rightarrow> nat \<Rightarrow> nat \<Rightarrow> nat \<Rightarrow> nat \<Rightarrow> bprog" where
  "pex_prog n slot nbytes d r =
     (if r < n then ctor_prog (PairwiseExchange_new (mesh_ctx n slot r) (int nbytes) (int d)) PairwiseExchange_run 1 else [])"

lemma PairwiseExchange_new_mesh:
  assumes "0 < d" "2 ^ d dvd n" "r < n" "0 < q" "slot + 2 * d < 2 ^ 31" "nbytes div d = q"
  shows "\<exists>cx. PairwiseExchange_new (mesh_ctx n slot r) (int nbytes) (int d) = Inr (\<lparr>po_bytesPerMsg = q,
      po_data = map (\<lambda>i. (createBuffer (partner r i) (slot + 2 * i) Outbox (i * q) q, createBuffer (partner r i) (slot + 2 * i) (Inbox 0) (i * q) q)) [0..<d],
      po_notif = map (\<lambda>i. (createBuffer (partner r i) (slot + 2 * i + 1) Dummy 0 0, createBuffer (partner r i) (slot + 2 * i + 1) Dummy 0 0)) [0..<d]\<rparr>, cx)"
proof -
  have le: "2 ^ d \<le> n" using assms(2,3) by (simp add: dvd_imp_le)
  have "2 dvd n" using assms(1,2) by (metis dvd_power dvd_trans gr_implies_not0)
  then have ev: "n mod 2 = 0" by simp
  have sd: "int nbytes sdiv int d = int q" using assms(1,6) zdiv_int [of nbytes d] by (auto simp: signed_divide_int_def)
  have z: "zip [0..<d] [0..<d] = map (\<lambda>i. (i, i)) [0..<d]" by (rule nth_equalityI) simp_all
  have "exchange_buffers q [0..<d] (mesh_ctx n slot r) = Inr (map (\<lambda>i. ((createBuffer (partner r i) (slot + 2 * i) Outbox (i * q) q, createBuffer (partner r i) (slot + 2 * i) (Inbox 0) (i * q) q),
      (createBuffer (partner r i) (slot + 2 * i + 1) Dummy 0 0, createBuffer (partner r i) (slot + 2 * i + 1) Dummy 0 0))) [0..<d], mesh_ctx n (slot + 2 * d) r)"
    using exchange_buffers_mesh [of slot "[0..<d]" r n q] partner_less [OF assms(2) _ assms(3)] assms(5) by (simp add: z o_def)
  then show ?thesis using assms(1,4) le ev by (simp add: PairwiseExchange_new_def sd Let_def o_def)
qed

lemma pex_prog_simp:
  assumes "0 < d" "2 ^ d dvd n" "r < n" "0 < q" "slot + 2 * d < 2 ^ 31" "nbytes div d = q"
  shows "pex_prog n slot nbytes d r = concat (map (pex_step slot q r) [0..<d])"
proof -
  have z: "zip (map f [0..<d]) (map g [0..<d]) = map (\<lambda>i. (f i, g i)) [0..<d]" for f g by (rule nth_equalityI) simp_all
  have s: "pex_step slot q r = (\<lambda>i. [BSend (partner r i) (slot + 2 * i) Outbox (i * q) q 0, BWaitRecv (partner r i) (slot + 2 * i),
      BSend (partner r i) (slot + 2 * i + 1) Dummy 0 0 0, BWaitRecv (partner r i) (slot + 2 * i + 1)])" by (rule ext) (simp add: pex_step_def)
  show ?thesis using PairwiseExchange_new_mesh [OF assms] assms(3)
    by (auto simp: pex_prog_def PairwiseExchange_run_def z h_defs s o_def)
qed

lemma reg_of_mono:
  assumes "\<And>h. h \<in> set hs \<Longrightarrow> bh_peer h = i \<Longrightarrow> bh_slot h = s \<Longrightarrow> (bh_buf h, bh_off h, bh_len h) = b" "\<exists>h \<in> set hs. bh_peer h = i \<and> bh_slot h = s"
  shows "reg_of hs i s = Some b"
  using assms
proof (induction hs)
  case (Cons h hs)
  show ?case
  proof (cases "bh_peer h = i \<and> bh_slot h = s")
    case True
    then show ?thesis using Cons.prems(1) [of h] by simp
  next
    case False
    then show ?thesis using Cons by auto
  qed
qed simp

lemma pex_reg:
  assumes "0 < d" "2 ^ d dvd n" "r < n" "0 < q" "slot + 2 * d < 2 ^ 31" "nbytes div d = q" "i < d"
  shows "bc_reg (pex_conf n slot nbytes d) (partner r i) r (slot + 2 * i) = Some (Inbox 0, i * q, q)"
    "bc_reg (pex_conf n slot nbytes d) (partner r i) r (slot + 2 * i + 1) = Some (Dummy, 0, 0)"
proof -
  let ?p = "partner r i"
  have p: "?p < n" by (rule partner_less [OF assms(2,7,3)])
  let ?hs = "map (\<lambda>j. createBuffer (partner ?p j) (slot + 2 * j) (Inbox 0) (j * q) q) [0..<d] @ map (\<lambda>j. createBuffer (partner ?p j) (slot + 2 * j + 1) Dummy 0 0) [0..<d]"
  have reg: "bc_reg (pex_conf n slot nbytes d) ?p = reg_of ?hs"
    using PairwiseExchange_new_mesh [OF assms(1,2) p assms(4-6)] by (auto simp: pex_conf_def o_def)
  have odd: "2 * j \<noteq> Suc (2 * i)" "Suc (2 * i) \<noteq> 2 * j" for j i :: nat by presburger+
  show "bc_reg (pex_conf n slot nbytes d) ?p r (slot + 2 * i) = Some (Inbox 0, i * q, q)" unfolding reg
  proof (rule reg_of_mono)
    fix h assume h: "h \<in> set ?hs" "bh_peer h = r" "bh_slot h = slot + 2 * i"
    from h(1) consider j where "h = createBuffer (partner ?p j) (slot + 2 * j) (Inbox 0) (j * q) q" | j where "h = createBuffer (partner ?p j) (slot + 2 * j + 1) Dummy 0 0"
      by auto
    then show "(bh_buf h, bh_off h, bh_len h) = (Inbox 0, i * q, q)"
      using h(3) odd by cases (auto simp: createBuffer_def)
  next
    show "\<exists>h \<in> set ?hs. bh_peer h = r \<and> bh_slot h = slot + 2 * i"
      by (rule bexI [of _ "createBuffer (partner ?p i) (slot + 2 * i) (Inbox 0) (i * q) q"])
        (use assms(7) in \<open>auto simp: createBuffer_def intro!: image_eqI [of _ _ i]\<close>)
  qed
  show "bc_reg (pex_conf n slot nbytes d) ?p r (slot + 2 * i + 1) = Some (Dummy, 0, 0)" unfolding reg
  proof (rule reg_of_mono)
    fix h assume h: "h \<in> set ?hs" "bh_peer h = r" "bh_slot h = slot + 2 * i + 1"
    from h(1) consider j where "h = createBuffer (partner ?p j) (slot + 2 * j) (Inbox 0) (j * q) q" | j where "h = createBuffer (partner ?p j) (slot + 2 * j + 1) Dummy 0 0"
      by auto
    then show "(bh_buf h, bh_off h, bh_len h) = (Dummy, 0, 0)"
      using h(3) odd by cases (auto simp: createBuffer_def)
  next
    show "\<exists>h \<in> set ?hs. bh_peer h = r \<and> bh_slot h = slot + 2 * i + 1"
      by (rule bexI [of _ "createBuffer (partner ?p i) (slot + 2 * i + 1) Dummy 0 0"])
        (use assms(7) in \<open>auto simp: createBuffer_def intro!: UnI2 image_eqI [of _ _ i]\<close>)
  qed
qed

section \<open>Ownership\<close>

definition pex_spec :: "nat \<Rightarrow> nat \<Rightarrow> nat \<Rightarrow> (nat \<Rightarrow> nat \<Rightarrow> 'a list) \<Rightarrow> 'a bspec" where
  "pex_spec slot d q X = \<lparr>
     sp_val = (\<lambda>i j s k. if even (s - slot) then X i ((s - slot) div 2) else []),
     sp_src = (\<lambda>i j s k. if even (s - slot) then (Outbox, (s - slot) div 2 * q) else (Dummy, 0)),
     sp_dst = (\<lambda>i j s k. if even (s - slot) then (Inbox 0, (s - slot) div 2 * q) else (Dummy, 0)),
     sp_gives = (\<lambda>i j s k. {})\<rparr>"

definition pex_own :: "nat \<Rightarrow> nat \<Rightarrow> (bbuf \<Rightarrow> nat \<Rightarrow> 'a) \<Rightarrow> nat \<Rightarrow> 'a know" where
  "pex_own d q m r = (\<lambda>(p, b, x).
     if x < d * q then (case b of Outbox \<Rightarrow> if p = r then Some (Some (m Outbox x)) else None
       | Inbox i \<Rightarrow> if i = 0 \<and> p = partner r (x div q) then Some None else None | _ \<Rightarrow> None) else None)"

definition pex_inv :: "nat \<Rightarrow> nat \<Rightarrow> nat \<Rightarrow> (nat \<Rightarrow> nat \<Rightarrow> 'a list) \<Rightarrow> nat \<Rightarrow> nat \<Rightarrow> bprog \<Rightarrow> 'a know \<Rightarrow> bool" where
  "pex_inv slot d q X r k p K \<longleftrightarrow>
     (\<forall>j s. slot + 2 * k \<le> s \<longrightarrow> on_slot s (posts j p) = 0 \<and> waitsR j s p = 0) \<and>
     (\<forall>i < d. known K r Outbox (i * q) (X r i)) \<and> (\<forall>i < k. known K r (Inbox 0) (i * q) (X (partner r i) i)) \<and>
     (\<forall>i. k \<le> i \<and> i < d \<longrightarrow> region (partner r i) (Inbox 0) (i * q) q \<subseteq> dom K)"

lemma blocks_disjoint:
  assumes "i \<noteq> (j :: nat)"
  shows "region a b (i * q) q \<inter> region a' b' (j * q) q = {}"
proof (rule ccontr)
  assume "\<not> ?thesis"
  then obtain x where x: "i * q \<le> x" "x < i * q + q" "j * q \<le> x" "x < j * q + q" by (auto simp: region_def)
  have "x div q = i" "x div q = j" using x by (simp_all add: div_nat_eqI mult.commute)
  then show False using assms by simp
qed

lemma pex_step_ok:
  assumes I: "pex_inv slot d q X r k p K" and k: "k < d" and d: "2 ^ d dvd n" and r: "r < n" and q: "0 < q" and slot: "slot + 2 * d < 2 ^ 31"
    and X: "\<And>a i. length (X a i) = q" and nb: "nbytes div d = q" and cf: "cf = pex_conf n slot nbytes d" and sp: "sp = pex_spec slot d q X"
  shows "sym_all cf sp r p (pex_step slot q r k) K \<and> pex_inv slot d q X r (Suc k) (p @ pex_step slot q r k) (symK cf sp r p (pex_step slot q r k) K)"
proof -
  let ?t = "partner r k" and ?s = "slot + 2 * k"
  have d0: "0 < d" using k by simp
  have t: "?t < n" "?t \<noteq> r" using partner_less [OF d k r] partner_neq by simp_all
  have bn: "bc_n cf = n" by (simp add: cf pex_conf_def)
  have cnt: "on_slot s (posts j p) = 0" "waitsR j s p = 0" if "?s \<le> s" for j s using I that by (simp_all add: pex_inv_def)
  have out: "\<And>i. i < d \<Longrightarrow> known K r Outbox (i * q) (X r i)" and got: "\<And>i. i < k \<Longrightarrow> known K r (Inbox 0) (i * q) (X (partner r i) i)"
    and dm: "\<And>i. k \<le> i \<Longrightarrow> i < d \<Longrightarrow> region (partner r i) (Inbox 0) (i * q) q \<subseteq> dom K"
    using I by (simp_all add: pex_inv_def)
  let ?M = "region ?t (Inbox 0) (k * q) q"
  have val: "sp_val sp i j ?s k' = X i k" "sp_val sp i j (?s + 1) k' = []" "sp_src sp i j ?s k' = (Outbox, k * q)" "sp_src sp i j (?s + 1) k' = (Dummy, 0)"
    "sp_dst sp i j ?s k' = (Inbox 0, k * q)" "sp_dst sp i j (?s + 1) k' = (Dummy, 0)" "sp_gives sp i j s k' = {}" for i j s k'
    by (simp_all add: sp pex_spec_def)
  have mv: "moves sp r ?t ?s k' = ?M" "dst_locs sp r ?t ?s k' = ?M" "moves sp r ?t (?s + 1) k' = {}" "dst_locs sp r ?t (?s + 1) k' = {}" for k'
    using val by (simp_all add: moves_def dst_locs_def X) (auto simp: region_def)
  have rg: "bc_reg cf ?t r ?s = Some (Inbox 0, k * q, q)" "bc_reg cf ?t r (?s + 1) = Some (Dummy, 0, 0)"
    unfolding cf 
      by (simp_all add: pex_reg [OF d0 d r q slot nb k, simplified])
  have fz: "frozen sp r p' \<subseteq> {l. fst l = r}" for p' by (auto simp: frozen_def src_locs_def region_def)
  have farz: "?M \<inter> frozen sp r p' = {}" for p' using fz [of p'] t by (auto simp: region_def)
  have far: "?M \<inter> region r b off m = {}" "region r b off m \<inter> ?M = {}" for b off m using t by (auto simp: region_def)
  let ?c1 = "BSend ?t ?s Outbox (k * q) q 0" and ?c2 = "BWaitRecv ?t ?s" and ?c3 = "BSend ?t (?s + 1) Dummy 0 0 0" and ?c4 = "BWaitRecv ?t (?s + 1)"
  define K1 where "K1 = (\<lambda>l. if l \<in> ?M then None else K l)"
  define K2 where "K2 = kwr r (Inbox 0) (k * q) (X ?t k) K1"
  have ok1: "sym_ok cf sp r p ?c1 K" using dm [of k] k out [OF k] t by (simp add: sym_ok_def Let_def cnt val X rg bn mv far farz Int_Un_distrib)
  have nx1: "sym_next cf sp r p ?c1 K = K1" by (simp add: sym_next_def K1_def cnt mv)
  have ok2: "sym_ok cf sp r (p @ [?c1]) ?c2 K1" using t by (simp add: sym_ok_def bn)
  have nx2: "sym_next cf sp r (p @ [?c1]) ?c2 K1 = K2" using val by (simp add: sym_next_def K2_def Let_def)
  have ok3: "sym_ok cf sp r (p @ [?c1, ?c2]) ?c3 K2" using t val mv rg by (simp add: sym_ok_def Let_def bn known_def)
  have nx3: "sym_next cf sp r (p @ [?c1, ?c2]) ?c3 K2 = K2" using mv by (simp add: sym_next_def)
  have ok4: "sym_ok cf sp r (p @ [?c1, ?c2, ?c3]) ?c4 K2" using t by (simp add: sym_ok_def bn)
  have "kwr r Dummy 0 [] K2 = K2" by (auto simp: kwr_def)
  then have nx4: "sym_next cf sp r (p @ [?c1, ?c2, ?c3]) ?c4 K2 = K2" using val by (simp add: sym_next_def Let_def)
  have sa: "sym_all cf sp r p (pex_step slot q r k) K \<and> symK cf sp r p (pex_step slot q r k) K = K2"
    using ok1 nx1 ok2 nx2 ok3 nx3 ok4 nx4 by (simp add: pex_step_def)
  have "known K2 r Outbox (i * q) (X r i)" if "i < d" for i
    unfolding K2_def K1_def using out [OF that] far by (intro known_kwr_other known_drop) simp_all
  moreover have "known K2 r (Inbox 0) (i * q) (X (partner r i) i)" if "i < Suc k" for i
  proof (cases "i = k")
    case True
    then show ?thesis unfolding K2_def by (simp add: kwr_known)
  next
    case False
    then have "known K1 r (Inbox 0) (i * q) (X (partner r i) i)" unfolding K1_def using got [of i] that far by (intro known_drop) simp_all
    moreover have "region r (Inbox 0) (i * q) q \<inter> region r (Inbox 0) (k * q) q = {}" by (rule blocks_disjoint [OF False])
    ultimately show ?thesis unfolding K2_def by (intro known_kwr_disj) (simp_all add: X)
  qed
  moreover have "region (partner r i) (Inbox 0) (i * q) q \<subseteq> dom K2" if "Suc k \<le> i" "i < d" for i
  proof -
    have "region (partner r i) (Inbox 0) (i * q) q \<inter> ?M = {}" using that by (intro blocks_disjoint) simp
    then have "region (partner r i) (Inbox 0) (i * q) q \<subseteq> dom K1" unfolding K1_def using dm [of i] that by (intro subset_dom_if) simp_all
    then show ?thesis by (simp add: K2_def dom_kwr le_supI1)
  qed
  moreover have "on_slot s (posts j (p @ pex_step slot q r k)) = 0 \<and> waitsR j s (p @ pex_step slot q r k) = 0" if "slot + 2 * Suc k \<le> s" for j s
    using cnt [of s j] that by (auto simp: pex_step_def)
  ultimately have "pex_inv slot d q X r (Suc k) (p @ pex_step slot q r k) K2" unfolding pex_inv_def by blast
  then show ?thesis using sa by simp
qed

section \<open>Levels\<close>

definition pex_lstep :: "nat \<Rightarrow> nat \<Rightarrow> nat \<Rightarrow> nat \<Rightarrow> lprog" where
  "pex_lstep slot q r i = zip [4 * i, 4 * i + 1, 4 * i + 2, 4 * i + 3] (pex_step slot q r i)"

definition pex_levels :: "nat \<Rightarrow> nat \<Rightarrow> nat \<Rightarrow> nat \<Rightarrow> nat \<Rightarrow> lprog" where
  "pex_levels n slot d q r = (if r < n then concat (map (pex_lstep slot q r) [0..<d]) else [])"

lemma on_slot_member: "(l, BSend j s b off m roff) \<in> set A \<Longrightarrow> l < L \<Longrightarrow> 0 < on_slot s (posts j (map snd (filter (\<lambda>x. fst x < L) A)))"
  by (induction A) auto

lemma pex_levels_ok:
  assumes d0: "0 < d" and d: "2 ^ d dvd n" and q: "0 < q" and slot: "slot + 2 * d < 2 ^ 31" and nb: "nbytes div d = q"
  shows "levels_ok (pex_conf n slot nbytes d :: 'a bconf) (pex_levels n slot d q)"
proof (rule levels_okI)
  let ?cf = "pex_conf n slot nbytes d :: 'a bconf" and ?A = "pex_levels n slot d q"
  have n: "bc_n ?cf = n" by (simp add: pex_conf_def)
  fix r assume "r < bc_n ?cf"
  then have r: "r < n" by (simp add: n)
  have "lv_all ?cf ?A r (concat (map (pex_lstep slot q r) [0..<k])) (pex_lstep slot q r k)" if k: "k < d" for k
  proof -
    let ?t = "partner r k"
    have t: "?t < n" by (rule partner_less [OF d k r])
    have w0: "waitsR j s (map snd (concat (map (pex_lstep slot q r) [0..<k]))) = 0" if "slot + 2 * k \<le> s" for j s
    proof -
      have "waitsR j s (map snd (pex_lstep slot q r i)) = 0" if "i < k" for i using that \<open>slot + 2 * k \<le> s\<close> by (auto simp: pex_lstep_def pex_step_def)
      then show ?thesis by (simp add: map_concat o_def count_rounds cong: map_cong)
    qed
    have "(4 * k, BSend r (slot + 2 * k) Outbox (k * q) q 0) \<in> set (?A ?t)" "(4 * k + 2, BSend r (slot + 2 * k + 1) Dummy 0 0 0) \<in> set (?A ?t)"
      using k t by (auto simp: pex_levels_def pex_lstep_def pex_step_def intro!: bexI [of _ k])
    then have "0 < on_slot (slot + 2 * k) (posts r (map snd (filter (\<lambda>x. fst x < 4 * k + 1) (?A ?t))))"
      "0 < on_slot (slot + 2 * k + 1) (posts r (map snd (filter (\<lambda>x. fst x < 4 * k + 3) (?A ?t))))" by (auto intro: on_slot_member)
    moreover have "bc_reg ?cf ?t r (slot + 2 * k) \<noteq> None" "bc_reg ?cf ?t r (slot + 2 * k + 1) \<noteq> None" 
      by (simp_all add: pex_reg [OF d0 d r q slot nb k, simplified])
    ultimately show ?thesis using t w0 [of "slot + 2 * k"] w0 [of "slot + 2 * k + 1"] by (simp add: pex_lstep_def pex_step_def wait_ok_def n)
  qed
  then show "lv_all ?cf ?A r [] (?A r)" using r lv_rounds [of d ?cf ?A r "[]" "pex_lstep slot q r"] by (simp add: pex_levels_def [of n slot d q r])
  have "sorted (concat (map (\<lambda>k. map fst (pex_lstep slot q r k)) [0..<d]))"
    by (rule sorted_rounds [where c = 4]) (auto simp: pex_lstep_def pex_step_def)
  then show "sorted (map fst (?A r))" using r by (simp add: pex_levels_def map_concat o_def)
qed

text \<open>
  C17: \<open>PairwiseExchange\<close> with \<open>d\<close> destinations among a number of processes that is a multiple of \<open>2\<^sup>d\<close>: no action
  fails, the run can always go on until all have finished, within a bound, and a process that has finished has in
  block \<open>i\<close> of its receive buffer block \<open>i\<close> of the send buffer of its \<open>i\<close>-th partner.
\<close>

theorem pairwise_exchange_correct:
  fixes cf :: "'a bconf"
  assumes d0: "0 < d" and d: "2 ^ d dvd n" and q: "0 < q" and slot: "slot + 2 * d < 2 ^ 31" and nb: "nbytes div d = q"
    and cf: "cf = pex_conf n slot nbytes d" and run: "brun cf as (bstart (pex_prog n slot nbytes d) m) = Some w"
  shows "bound_safe cf w \<and> bound_live cf w \<and> length as \<le> bound_work cf (pex_prog n slot nbytes d) \<and>
    (\<forall>r < n. bw_todo w r = [] \<longrightarrow> (\<forall>i < d. \<forall>x < q. bw_mem w r (Inbox 0) (i * q + x) = m (r XOR 2 ^ i) Outbox (i * q + x)))"
proof -
  define X where "X = (\<lambda>a i. rd (m a Outbox) (i * q) q)"
  define K0 where "K0 = (\<lambda>r. pex_own d q (m r) r)"
  have n: "bc_n cf = n" by (simp add: cf pex_conf_def)
  let ?sp = "pex_spec slot d q X" and ?P = "pex_prog n slot nbytes d"
  have lX: "length (X a i) = q" for a i by (simp add: X_def)
  have le: "d * q \<le> nbytes" using nb by (metis div_times_less_eq_dividend mult.commute)
  have P: "?P r = concat (map (pex_step slot q r) [0..<d])" if "r < n" for r by (rule pex_prog_simp [OF d0 d that q slot nb])
  have in_d: "i * q + x < d * q" if "i < d" "x < q" for i x
  proof -
    have "i * q + x < Suc i * q" using that(2) by simp
    also have "\<dots> \<le> d * q" using that(1) by (intro mult_le_mono1) simp
    finally show ?thesis .
  qed
  have I0: "pex_inv slot d q X r 0 [] (K0 r)" for r
  proof -
    have "known (K0 r) r Outbox (i * q) (X r i)" if "i < d" for i
      using in_d [OF that] by (auto simp: known_def K0_def pex_own_def X_def rd_def)
    moreover have "region (partner r i) (Inbox 0) (i * q) q \<subseteq> dom (K0 r)" if "i < d" for i
    proof
      fix l assume "l \<in> region (partner r i) (Inbox 0) (i * q) q"
      then obtain x where l: "l = (partner r i, Inbox 0, i * q + x)" and x: "x < q" by (auto simp: region_def dest: le_Suc_ex)
      have "(i * q + x) div q = i" using x by simp
      then show "l \<in> dom (K0 r)" using in_d [OF that x] by (simp add: l K0_def pex_own_def dom_def)
    qed
    ultimately show ?thesis by (simp add: pex_inv_def)
  qed
  have ok: "sym_all cf ?sp r [] (?P r) (K0 r) \<and> pex_inv slot d q X r d (?P r) (symK cf ?sp r [] (?P r) (K0 r))" if r: "r < n" for r
    using sym_rounds [of d "pex_inv slot d q X r" cf ?sp r "pex_step slot q r" "[]" "K0 r", OF pex_step_ok [OF _ _ d r q slot lX nb cf refl] I0]
    by (simp add: P [OF r])
  then have vf: "verified cf ?sp K0 ?P" by (simp add: verified_def n)
  have so: "start_ok cf K0 m"
    unfolding start_ok_def
  proof (intro conjI allI impI)
    fix r p assume "r < bc_n cf" "p < bc_n cf" "r \<noteq> p"
    then have "partner r i \<noteq> partner p i" for i by (metis partner_partner)
    then show "dom (K0 r) \<inter> dom (K0 p) = {}" using \<open>r \<noteq> p\<close> by (auto simp: K0_def pex_own_def dom_def split: if_splits bbuf.splits)
  qed (use le in \<open>auto simp: K0_def pex_own_def cf pex_conf_def pex_bsize_def split: if_splits bbuf.splits\<close>)
  have lv: "levels_ok cf (pex_levels n slot d q)" unfolding cf by (rule pex_levels_ok [OF d0 d q slot nb])
  have PA: "?P r = map snd (pex_levels n slot d q r)" for r
  proof (cases "r < n")
    case True
    have "map snd (pex_lstep slot q r i) = pex_step slot q r i" for i by (simp add: pex_lstep_def pex_step_def)
    then show ?thesis using P [OF True] True by (simp add: pex_levels_def map_concat o_def)
  qed (simp add: pex_prog_def pex_levels_def)
  note b = bound_verified [OF vf so lv PA run]
  have "bw_mem w r (Inbox 0) (i * q + x) = m (partner r i) Outbox (i * q + x)" if r: "r < n" "bw_todo w r = []" and i: "i < d" and x: "x < q" for r i x
  proof -
    have "known (symK cf ?sp r [] (?P r) (K0 r)) r (Inbox 0) (i * q) (X (partner r i) i)" using ok [OF r(1)] i by (simp add: pex_inv_def)
    then have "symK cf ?sp r [] (?P r) (K0 r) (r, Inbox 0, i * q + x) = Some (Some (X (partner r i) i ! x))" using x by (simp add: known_def lX)
    from b(4) [OF _ r(2) this] r(1) show ?thesis using x by (simp add: n X_def rd_def)
  qed
  then show ?thesis using b(1-3) by (simp add: partner_def)
qed

text \<open>Two processes that exchange one byte each: process 1 has received.\<close>

theorem pairwise_exchange_correct_witness:
  "\<exists>w. brun (pex_conf 2 0 1 1 :: nat bconf) [Run 0, Run 1, Xmit 0 1, Deliver 0 1, Run 1] (bstart (pex_prog 2 0 1 1) (\<lambda>r _ _. r + 5)) = Some w \<and>
       bw_mem w 1 (Inbox 0) 0 = 5 \<and> bound_safe (pex_conf 2 0 1 1) w \<and> bound_live (pex_conf 2 0 1 1) w"
proof -
  have "map_option (\<lambda>w. bw_mem w 1 (Inbox 0) 0) (brun (pex_conf 2 0 1 1 :: nat bconf) [Run 0, Run 1, Xmit 0 1, Deliver 0 1, Run 1] (bstart (pex_prog 2 0 1 1) (\<lambda>r _ _. r + 5))) = Some 5"
    by code_simp
  then obtain w where w: "brun (pex_conf 2 0 1 1 :: nat bconf) [Run 0, Run 1, Xmit 0 1, Deliver 0 1, Run 1] (bstart (pex_prog 2 0 1 1) (\<lambda>r _ _. r + 5)) = Some w"
    "bw_mem w 1 (Inbox 0) 0 = 5" by blast
  show ?thesis using pairwise_exchange_correct [OF _ _ _ _ _ refl w(1), of 1] w by simp
qed

section \<open>What the constructor does not check\<close>


end
