(* ===== verification/Spec2Isabelle.thy ===== *)
theory Spec2Isabelle
  imports Gloo_Matching Gloo_Connection_Props Gloo_Barrier Gloo_Gather Gloo_Broadcast Gloo_Reduce Gloo_Wire_Read Gloo_Lifecycle Gloo_Mesh
    Gloo_Alg_Broadcast Gloo_Alg_Allgather Gloo_Alg_Chunked Gloo_Alg_Pairwise
begin

text \<open>
  A verification library for gloo, a C++ library of collective communication with transports over TCP and
  over a reliable protocol on datagrams (DMLUDP). All paths below are relative to \<open>src/gloo\<close>.

  \<^bold>\<open>How the program is put together.\<close> A group of processes finds itself through a key-value store and
  connects every pair of processes (\<open>rendezvous\<close>). The connections are pairs of the transport (\<open>transport/tcp\<close>):
  a pair has a socket, matches the sends and receives of its user by a rendezvous protocol, and signals
  completion in buffers. The collectives (\<open>barrier.cc\<close>, \<open>broadcast.cc\<close>, \<open>allreduce.cc\<close>, and so on) are programs of
  sends, receives and waits on these buffers, one per rank. Older collectives are classes whose constructors
  register memory for the messages of each peer (\<open>algorithm.cc\<close> and the headers beside it). The DMLUDP transport replaces the socket by a
  connection object with its own packets, buffers and congestion control (\<open>connection.h\<close>, \<open>packet.h\<close>,
  \<open>send_buf.h\<close>, \<open>recv_buf.h\<close>, \<open>Recovery.h\<close>).

  \<^bold>\<open>Conventions.\<close> \<open>Gloo_Prelude\<close> has the errors (every exception, failed check and access outside an object is
  the left summand of \<open>result\<close>), the arithmetic of \<open>size_t\<close> with its wrap-around written out, and regions of
  buffers. Machine words are \<open>word\<close> types where bits matter. Environments (the outcome of system calls, which
  process runs next, what the network does, the time, floating-point arithmetic, the hash function of the
  standard library) are arguments; theorems hold for all their values or state what they assume.
  A loop that the environment may keep running consumes a list of outcomes and is \<open>None\<close> when the list is
  used up; no theorem assumes that this does not happen without saying so, and there is no other fuel.
  Names follow the source, with a prefix where a name would clash.

  \<^bold>\<open>Components and theories.\<close>

  \<^item> \<open>Gloo_Math\<close> (\<open>math.h\<close>, \<open>math.cc\<close>): element-wise kernels, their vectorised versions for half precision, \<open>roundUp\<close>,
    \<open>log2ceil\<close>. The vectorised kernels compute what the plain loop computes.
  \<^item> \<open>Gloo_Types\<close> (\<open>types.h\<close>, \<open>types.cc\<close>): slots, whose offsets are bounded and whose values are injective, and
    half-precision floats on bit patterns.
  \<^item> \<open>Gloo_Tally\<close> (\<open>transport/context.*\<close>): the tallies of pending operations, with the contract \<open>rank_tally\<close>.
  \<^item> \<open>Gloo_Pair\<close>, \<open>Gloo_Pair_Spec\<close>, \<open>Gloo_Rendezvous\<close>, \<open>Gloo_Matching\<close> (\<open>transport/tcp/pair.cc\<close>, \<open>context.cc\<close>): the
    rendezvous protocol. \<open>Gloo_Pair\<close> has the operations and handlers; \<open>Gloo_Pair_Spec\<close> shows that each implements
    its specification on an abstract state; \<open>Gloo_Rendezvous\<close> has the step relation of a world of pairs and its
    invariant; \<open>Gloo_Matching\<close> draws the conclusions: messages are matched in order, no check of the reader
    fails, transmission terminates and leaves nothing unmatched that could be matched.
  \<^item> \<open>Gloo_Buffers\<close> (\<open>transport/tcp/unbound_buffer.cc\<close>, \<open>buffer.cc\<close>): completion counters, aborts and waits.
  \<^item> \<open>Gloo_Wire\<close>, \<open>Gloo_Wire_Read\<close>, \<open>Gloo_Lifecycle\<close> (\<open>transport/tcp/pair.cc\<close>): the pair at the level of bytes. Partial
    writes and reads, interrupted calls and queues deliver exactly the operations that were posted, with
    their payloads, in order: the queue of operations that the rendezvous protocol assumes is what the bytes
    implement. The invariant of the life cycle covers connecting, errors, closing and synchronous mode.
  \<^item> \<open>Gloo_Store\<close>, \<open>Gloo_Mesh\<close> (\<open>rendezvous\<close>): the stores, as instances of the contract \<open>kv_store\<close>, and the full
    mesh of connections, which is correct and free of deadlocks with every store that keeps the contract.
  \<^item> \<open>Gloo_Collective\<close>, \<open>Gloo_Async\<close>, \<open>Gloo_Dataflow\<close>, \<open>Gloo_Symbolic\<close>, \<open>Gloo_Pipeline\<close>, \<open>Gloo_Fanin\<close>: programs of collectives,
    their asynchronous execution on a transport with the guarantees of \<open>Gloo_Matching\<close>, and methods to show
    that programs do not deadlock, terminate and leave the right contents in the buffers under every
    interleaving: by static conditions for collectives that only move data, by symbolic execution for
    reductions.
  \<^item> \<open>Gloo_Barrier\<close>, \<open>Gloo_Gather\<close>, \<open>Gloo_Allgather\<close>, \<open>Gloo_Broadcast\<close>, \<open>Gloo_Allreduce\<close>, \<open>Gloo_RingReduce\<close>,
    \<open>Gloo_Allreduce_Ring\<close>, \<open>Gloo_Sum\<close>, \<open>Gloo_Reduce\<close>: the collectives. Each program is a translation of the code with
    every check, and its correctness theorem covers every interleaving. \<open>Gloo_Sum\<close> instantiates the reductions
    with the kernels that the library passes (contract \<open>reduction_op\<close>).
  \<^item> \<open>Gloo_Bound\<close>, \<open>Gloo_Ownership\<close>: execution of the algorithms on bound buffers, where a payload is read from the
    sender's memory and written to the receiver's memory at any time after the send. \<open>Gloo_Bound\<close> has the
    machine and a criterion for progress; \<open>Gloo_Ownership\<close> is a logic of ownership: every message carries the
    right to use memory of its sender or receiver, and a program that passes its symbolic execution is free of
    races and leaves the values the execution predicts.
  \<^item> \<open>Gloo_Algorithm\<close> (\<open>context.cc\<close>, \<open>algorithm.cc\<close> and the headers of the classes): the context with its slots, the
    constructors and the commands of \<open>run\<close> of the barriers, the broadcast, the pairwise exchange and the rings.
    \<open>Gloo_Alg_Barriers\<close>, \<open>Gloo_Alg_Broadcast\<close>, \<open>Gloo_Alg_Rings\<close>, \<open>Gloo_Alg_Allgather\<close>, \<open>Gloo_Alg_Pairwise\<close> show that they
    are free of races and deadlocks, end, and compute what they should; \<open>Gloo_Alg_Chunked\<close> shows for the chunked
    ring that it stays within its buffers and ends.
  \<^item> \<open>Gloo_Packet\<close>, \<open>Gloo_SendBuf\<close>, \<open>Gloo_RecvBuf\<close>, \<open>Gloo_Recovery\<close>, \<open>Gloo_Connection\<close>, \<open>Gloo_Connection_Props\<close> (the headers of
    the DMLUDP protocol): encoding of headers, the two buffers, the window, the connection with handshake,
    acknowledgement and loss reports, and the places where the code fails.

  \<^bold>\<open>Not modelled.\<close> Sockets, event loops, listeners and devices are wrappers of system calls; their results
  are arguments. The libuv and ibverbs transports, CUDA collectives, MPI bootstrap and the redis store consist
  of calls of third-party libraries and device code. The pair of the DMLUDP transport drives sockets and the
  connection object; its context and buffers repeat those of the TCP transport. Of the classes on bound
  buffers, \<open>allreduce_halving_doubling.h\<close>, \<open>allreduce_bcube.h\<close> and \<open>reduce_scatter.h\<close> are not modelled. The bcube variant
  of \<open>allreduce.cc\<close> is translated, without a correctness theorem. Options that only store their arguments are the
  arguments of the programs. Logging, formatting, benchmarks, examples and tests are outside.
\<close>

end
